(* ===== verification/Prelude.thy ===== *)
theory Prelude
  imports Main "HOL-Library.Word" "HOL-Library.Monad_Syntax" "HOL-Library.Sublist"
begin

text \<open>
  Shared material of the development: the status codes of \<^verbatim>\<open>libcom/include/error.h\<close>, the
  fixed-width conversions the C++ sources perform implicitly, byte buffers with the bounds
  that \<^verbatim>\<open>memcpy\<close> and \<^verbatim>\<open>memcmp\<close> rely on, and generic lemmas on lists.

  Conventions used by every theory: an operation that may abort (the \<^verbatim>\<open>ASSERT\<close> macro calls
  \<^verbatim>\<open>abort\<close>), read or write outside a buffer, or run forever, has a result of an option type,
  and \<^term>\<open>None\<close> stands for every such outcome; a theorem that gives \<^term>\<open>Some\<close> therefore shows
  that none of them happens. Status codes are the integers of the source.
\<close>

section \<open>Collections\<close>

named_theorems heap_simps \<open>reads and writes of the array and pointer models\<close>
named_theorems cast_simps \<open>conversions that are the identity on values in range\<close>

section \<open>Status codes\<close>

definition E_ok :: int where "E_ok = 0"
definition E_invalid_arg :: int where "E_invalid_arg = -1"
definition E_invalid_state :: int where "E_invalid_state = -2"
definition E_not_found :: int where "E_not_found = -3"
definition E_open_failed :: int where "E_open_failed = -4"
definition E_close_failed :: int where "E_close_failed = -5"
definition E_read_failed :: int where "E_read_failed = -6"
definition E_write_failed :: int where "E_write_failed = -7"
definition E_seek_failed :: int where "E_seek_failed = -8"
definition E_sync_failed :: int where "E_sync_failed = -9"
definition E_stat_failed :: int where "E_stat_failed = -10"
definition E_trunc_failed :: int where "E_trunc_failed = -11"
definition E_try_again :: int where "E_try_again = -14"
definition E_eof_detected :: int where "E_eof_detected = -21"
definition E_no_memory :: int where "E_no_memory = -22"
definition E_insufficient_buffer :: int where "E_insufficient_buffer = -24"

lemmas E_defs = E_ok_def E_invalid_arg_def E_invalid_state_def E_not_found_def
  E_open_failed_def E_close_failed_def E_sync_failed_def E_stat_failed_def
  E_read_failed_def E_write_failed_def E_seek_failed_def E_trunc_failed_def
  E_try_again_def E_eof_detected_def E_no_memory_def E_insufficient_buffer_def

section \<open>Integers of a given width\<close>

type_synonym byte = "8 word"
type_synonym offset = int

text \<open>The value an \<open>int\<close> takes when it is stored in a signed field of \<open>w\<close> bits.\<close>

definition to_signed :: "nat \<Rightarrow> int \<Rightarrow> int" where
  "to_signed w x = (x + 2 ^ (w - 1)) mod 2 ^ w - 2 ^ (w - 1)"

definition to_short :: "int \<Rightarrow> int" where
  "to_short x = to_signed 16 x"

definition to_schar :: "int \<Rightarrow> int" where
  "to_schar x = to_signed 8 x"

definition to_int32 :: "int \<Rightarrow> int" where
  "to_int32 x = to_signed 32 x"

lemma to_int32_id [cast_simps]: "- 2147483648 \<le> x \<Longrightarrow> x < 2147483648 \<Longrightarrow> to_int32 x = x"
  by (simp add: to_int32_def to_signed_def)

lemma to_short_id [cast_simps]: "- 32768 \<le> x \<Longrightarrow> x \<le> 32767 \<Longrightarrow> to_short x = x"
  by (simp add: to_short_def to_signed_def)

lemma to_schar_id [cast_simps]: "- 128 \<le> x \<Longrightarrow> x \<le> 127 \<Longrightarrow> to_schar x = x"
  by (simp add: to_schar_def to_signed_def)

lemma to_short_range: "- 32768 \<le> to_short x \<and> to_short x \<le> 32767"
proof -
  have "0 \<le> (x + 32768) mod 65536" "(x + 32768) mod 65536 < 65536" by simp_all
  then show ?thesis by (simp add: to_short_def to_signed_def)
qed

section \<open>Byte buffers\<close>

text \<open>
  \<open>memcpy dst src n\<close> overwrites the first \<open>n\<close> bytes of \<open>dst\<close>; a length outside either
  buffer is undefined behaviour in the source and \<^term>\<open>None\<close> here.
\<close>

definition memcpy :: "byte list \<Rightarrow> byte list \<Rightarrow> int \<Rightarrow> byte list option" where
  "memcpy dst src n =
     (if 0 \<le> n \<and> nat n \<le> length dst \<and> nat n \<le> length src
      then Some (take (nat n) src @ drop (nat n) dst) else None)"

fun memcmp_bytes :: "byte list \<Rightarrow> byte list \<Rightarrow> int" where
  "memcmp_bytes (x # xs) (y # ys) = (if x = y then memcmp_bytes xs ys else uint x - uint y)"
| "memcmp_bytes _ _ = 0"

definition memcmp :: "byte list \<Rightarrow> byte list \<Rightarrow> int \<Rightarrow> int option" where
  "memcmp a b n =
     (if 0 \<le> n \<and> nat n \<le> length a \<and> nat n \<le> length b
      then Some (memcmp_bytes (take (nat n) a) (take (nat n) b)) else None)"

lemma memcpy_Some:
  "memcpy dst src n = Some d \<Longrightarrow>
     length d = length dst \<and> take (nat n) d = take (nat n) src"
  by (auto simp: memcpy_def split: if_splits)

lemma memcmp_bytes_eq_0:
  "length xs = length ys \<Longrightarrow> memcmp_bytes xs ys = 0 \<longleftrightarrow> xs = ys"
  by (induction xs ys rule: memcmp_bytes.induct) (auto simp: word_uint_eq_iff)

lemma memcmp_bytes_sym:
  "length xs = length ys \<Longrightarrow> memcmp_bytes ys xs = - memcmp_bytes xs ys"
  by (induction xs ys rule: memcmp_bytes.induct) auto

lemma memcmp_bytes_trans:
  "length xs = length ys \<Longrightarrow> length ys = length zs \<Longrightarrow>
   memcmp_bytes xs ys < 0 \<Longrightarrow> memcmp_bytes ys zs < 0 \<Longrightarrow> memcmp_bytes xs zs < 0"
proof (induction xs ys arbitrary: zs rule: memcmp_bytes.induct)
  case (1 x xs y ys)
  then obtain z zs' where "zs = z # zs'" by (cases zs) auto
  with 1 show ?case by (auto split: if_splits)
qed auto

section \<open>Keys\<close>

text \<open>
  A database key is a byte string. \<^verbatim>\<open>KeyRecords::keycmp\<close> orders keys by length first and by
  \<^verbatim>\<open>memcmp\<close> among keys of equal length; \<open>dbkey\<close> carries that order as its \<open>linorder\<close>.
\<close>

datatype dbkey = DbKey (key_bytes: "byte list")

definition keycmp_bytes :: "byte list \<Rightarrow> byte list \<Rightarrow> int" where
  "keycmp_bytes xs ys =
     (let c = int (length xs) - int (length ys)
      in if c = 0 then memcmp_bytes xs ys else c)"

lemma keycmp_bytes_eq_0: "keycmp_bytes xs ys = 0 \<longleftrightarrow> xs = ys"
  by (auto simp: keycmp_bytes_def Let_def memcmp_bytes_eq_0)

lemma keycmp_bytes_sym: "keycmp_bytes ys xs = - keycmp_bytes xs ys"
  using memcmp_bytes_sym [of xs ys] by (simp add: keycmp_bytes_def Let_def)

lemma keycmp_bytes_trans:
  "keycmp_bytes xs ys < 0 \<Longrightarrow> keycmp_bytes ys zs < 0 \<Longrightarrow> keycmp_bytes xs zs < 0"
  using memcmp_bytes_trans [of xs ys zs] by (auto simp: keycmp_bytes_def Let_def split: if_splits)

instantiation dbkey :: linorder
begin

definition less_dbkey :: "dbkey \<Rightarrow> dbkey \<Rightarrow> bool" where
  "less_dbkey a b \<longleftrightarrow> keycmp_bytes (key_bytes a) (key_bytes b) < 0"

definition less_eq_dbkey :: "dbkey \<Rightarrow> dbkey \<Rightarrow> bool" where
  "less_eq_dbkey a b \<longleftrightarrow> keycmp_bytes (key_bytes a) (key_bytes b) \<le> 0"

instance
proof
  fix x y z :: dbkey
  note sym = keycmp_bytes_sym [of "key_bytes x" "key_bytes y"]
  show "(x < y) = (x \<le> y \<and> \<not> y \<le> x)"
    using sym by (auto simp: less_dbkey_def less_eq_dbkey_def)
  show "x \<le> x"
    by (simp add: less_eq_dbkey_def keycmp_bytes_eq_0 [THEN iffD2])
  show "x \<le> y \<Longrightarrow> y \<le> z \<Longrightarrow> x \<le> z"
    unfolding less_eq_dbkey_def
    by (metis keycmp_bytes_eq_0 keycmp_bytes_trans order_le_less)
  show "x \<le> y \<Longrightarrow> y \<le> x \<Longrightarrow> x = y"
    using sym by (simp add: less_eq_dbkey_def keycmp_bytes_eq_0 dbkey.expand)
  show "x \<le> y \<or> y \<le> x"
    using sym by (auto simp: less_eq_dbkey_def)
qed

end

lemma keycmp_bytes_less: "keycmp_bytes xs ys < 0 \<longleftrightarrow> DbKey xs < DbKey ys"
  by (simp add: less_dbkey_def)

lemma keycmp_bytes_zero: "keycmp_bytes xs ys = 0 \<longleftrightarrow> DbKey xs = DbKey ys"
  by (simp add: keycmp_bytes_eq_0)

end
