(* ===== verification/Index_Tree.thy ===== *)
theory Index_Tree
  imports Prelude "HOL-Library.Tree"
begin

text \<open>
  Binary search trees of array indices, the reference for the tree that
  \<^verbatim>\<open>librdb/src/keyrec.cpp\<close> keeps inside a key page: the same case analysis as the code
  (which rotation is done for which pair of balance factors, which slot a removal gives up),
  over a tree instead of over links in an array. The lemmas say what the operations do to the
  inorder sequence, that an insertion keeps the tree balanced, and how tall a balanced tree
  can be.
\<close>

section \<open>Operations\<close>

fun bfac :: "'a tree \<Rightarrow> int" where
  "bfac Leaf = 0"
| "bfac (Node l _ r) = int (height l) - int (height r)"

fun rotL :: "'a tree \<Rightarrow> 'a tree" where
  "rotL (Node a x (Node b p c)) = Node (Node a x b) p c"
| "rotL t = t"

fun rotR :: "'a tree \<Rightarrow> 'a tree" where
  "rotR (Node (Node a p b) x c) = Node a p (Node b x c)"
| "rotR t = t"

fun rotLR :: "'a tree \<Rightarrow> 'a tree" where
  "rotLR (Node l x r) = rotR (Node (rotL l) x r)"
| "rotLR Leaf = Leaf"

fun rotRL :: "'a tree \<Rightarrow> 'a tree" where
  "rotRL (Node l x r) = rotL (Node l x (rotR r))"
| "rotRL Leaf = Leaf"

definition balance :: "'a tree \<Rightarrow> 'a tree" where
  "balance t =
     (if bfac t = -2 then
        (if bfac (right t) = -1 then rotL t else if bfac (right t) = 1 then rotRL t else t)
      else if bfac t = 2 then
        (if bfac (left t) = -1 then rotLR t else if bfac (left t) = 1 then rotR t else t)
      else t)"

fun t_find :: "('i \<Rightarrow> 'k::linorder) \<Rightarrow> 'k \<Rightarrow> 'i tree \<Rightarrow> 'i option" where
  "t_find K x Leaf = None"
| "t_find K x (Node l j r) =
     (if x < K j then t_find K x l else if x = K j then Some j else t_find K x r)"

fun t_put :: "('i \<Rightarrow> 'k::linorder) \<Rightarrow> 'k \<Rightarrow> 'i option \<Rightarrow> 'i tree \<Rightarrow> 'i tree" where
  "t_put K x fr Leaf = (case fr of None \<Rightarrow> Leaf | Some i \<Rightarrow> Node Leaf i Leaf)"
| "t_put K x fr (Node l j r) =
     (if x < K j then balance (Node (t_put K x fr l) j r)
      else if x = K j then balance (Node l j r)
      else balance (Node l j (t_put K x fr r)))"

fun t_max :: "'i tree \<Rightarrow> 'i option" where
  "t_max Leaf = None"
| "t_max (Node l i r) = (if r = Leaf then Some i else t_max r)"

fun t_removeMax :: "'i tree \<Rightarrow> 'i tree" where
  "t_removeMax Leaf = Leaf"
| "t_removeMax (Node l i r) = (if r = Leaf then balance l else balance (Node l i (t_removeMax r)))"

fun t_min :: "'i tree \<Rightarrow> 'i option" where
  "t_min Leaf = None"
| "t_min (Node l i r) = (if l = Leaf then Some i else t_min l)"

fun t_removeMin :: "'i tree \<Rightarrow> 'i tree" where
  "t_removeMin Leaf = Leaf"
| "t_removeMin (Node l i r) = (if l = Leaf then balance r else balance (Node (t_removeMin l) i r))"

fun t_remove :: "('i \<Rightarrow> 'k::linorder) \<Rightarrow> 'k \<Rightarrow> 'i tree \<Rightarrow> 'i tree" where
  "t_remove K x Leaf = Leaf"
| "t_remove K x (Node l j r) =
     (if x < K j then balance (Node (t_remove K x l) j r)
      else if x = K j then
        (if l = Leaf then balance r else if r = Leaf then balance l
         else balance (Node (t_removeMax l) j r))
      else balance (Node l j (t_remove K x r)))"

text \<open>The node that holds the key has two children: its slot is kept and the slot of the
  largest key to its left is given up.\<close>

fun t_freed :: "('i \<Rightarrow> 'k::linorder) \<Rightarrow> 'k \<Rightarrow> 'i tree \<Rightarrow> ('i \<times> 'i) option" where
  "t_freed K x Leaf = None"
| "t_freed K x (Node l j r) =
     (if x < K j then t_freed K x l
      else if x = K j then
        (if l = Leaf \<or> r = Leaf then Some (j, j) else map_option (Pair j) (t_max l))
      else t_freed K x r)"

section \<open>Inorder sequences\<close>

lemma inorder_rotL [simp]: "inorder (rotL t) = inorder t"
  by (cases t rule: rotL.cases) simp_all

lemma inorder_rotR [simp]: "inorder (rotR t) = inorder t"
  by (cases t rule: rotR.cases) simp_all

lemma inorder_rotLR [simp]: "inorder (rotLR t) = inorder t"
  by (cases t) simp_all

lemma inorder_rotRL [simp]: "inorder (rotRL t) = inorder t"
  by (cases t) simp_all

lemma inorder_balance [simp]: "inorder (balance t) = inorder t"
  by (simp add: balance_def)

lemma set_tree_balance [simp]: "set_tree (balance t) = set_tree t"
  by (metis inorder_balance set_inorder)

lemma size_balance [simp]: "size (balance t) = size t"
  by (metis inorder_balance length_inorder)

lemma balance_eq_Leaf [simp]: "balance t = Leaf \<longleftrightarrow> t = Leaf"
  by (metis eq_size_0 size_balance)

lemma height_le_size: "height (t :: 'a tree) \<le> size t"
  by (induction t) auto

abbreviation keys_of :: "('i \<Rightarrow> 'k) \<Rightarrow> 'i tree \<Rightarrow> 'k list" where
  "keys_of K t \<equiv> map K (inorder t)"

abbreviation t_sorted :: "('i \<Rightarrow> 'k::linorder) \<Rightarrow> 'i tree \<Rightarrow> bool" where
  "t_sorted K t \<equiv> sorted_wrt (<) (keys_of K t)"

lemma t_sorted_Node:
  "t_sorted K (Node l j r) \<longleftrightarrow>
     t_sorted K l \<and> t_sorted K r \<and> (\<forall>i\<in>set_tree l. K i < K j) \<and> (\<forall>i\<in>set_tree r. K j < K i)"
  by (auto simp: sorted_wrt_append intro: less_trans)

lemma t_sorted_inj: "t_sorted K t \<Longrightarrow> inj_on K (set_tree t) \<and> distinct (inorder t)"
proof -
  assume "t_sorted K t"
  then have "distinct (keys_of K t)" by (simp add: strict_sorted_iff)
  then show ?thesis by (simp add: distinct_map)
qed

lemma t_find_Some: "t_find K x t = Some j \<Longrightarrow> j \<in> set_tree t \<and> K j = x"
  by (induction t) (auto split: if_splits)

lemma t_find_None: "t_sorted K t \<Longrightarrow> t_find K x t = None \<longleftrightarrow> x \<notin> K ` set_tree t"
  by (induction t) (auto simp: t_sorted_Node simp del: inorder.simps)

lemma t_find_iff:
  assumes srt: "t_sorted K t"
  shows "t_find K x t = Some j \<longleftrightarrow> j \<in> set_tree t \<and> K j = x"
proof
  assume j: "j \<in> set_tree t \<and> K j = x"
  then have "x \<in> K ` set_tree t" by auto
  then have "t_find K x t \<noteq> None" using t_find_None [OF srt, of x] by blast
  then obtain i where "t_find K x t = Some i" by blast
  with j t_sorted_inj [OF srt] show "t_find K x t = Some j"
    by (auto dest: t_find_Some inj_onD)
qed (simp add: t_find_Some)

lemma t_find_cong: "(\<And>i. i \<in> set_tree t \<Longrightarrow> K i = K' i) \<Longrightarrow> t_find K x t = t_find K' x t"
  by (induction t) auto

lemma t_put_present: "t_find K x t = Some j \<Longrightarrow> inorder (t_put K x fr t) = inorder t"
  by (induction t) (auto split: if_splits)

lemma t_put_full: "inorder (t_put K x None t) = inorder t"
  by (induction t) auto

text \<open>A new index lands between the smaller and the larger keys.\<close>

lemma t_put_absent:
  "t_sorted K t \<Longrightarrow> t_find K x t = None \<Longrightarrow>
   \<exists>ps qs. inorder t = ps @ qs \<and> inorder (t_put K x (Some i) t) = ps @ i # qs \<and>
           (\<forall>p\<in>set ps. K p < x) \<and> (\<forall>q\<in>set qs. x < K q)"
proof (induction t)
  case (Node l j r)
  note srt = Node.prems(1) [unfolded t_sorted_Node]
  consider (lt) "x < K j" | (gt) "K j < x" using Node.prems(2) by (cases x "K j" rule: linorder_cases) auto
  then show ?case
  proof cases
    case lt
    with Node srt obtain ps qs where "inorder l = ps @ qs"
      "inorder (t_put K x (Some i) l) = ps @ i # qs" "\<forall>p\<in>set ps. K p < x" "\<forall>q\<in>set qs. x < K q"
      by auto
    with lt srt show ?thesis
      by (intro exI [of _ ps] exI [of _ "qs @ j # inorder r"]) (auto intro: less_trans)
  next
    case gt
    then have ge: "\<not> x < K j" "x \<noteq> K j" by auto
    with Node srt obtain ps qs where "inorder r = ps @ qs"
      "inorder (t_put K x (Some i) r) = ps @ i # qs" "\<forall>p\<in>set ps. K p < x" "\<forall>q\<in>set qs. x < K q"
      by auto
    with gt ge srt show ?thesis
      by (intro exI [of _ "inorder l @ j # ps"] exI [of _ qs]) (auto intro: less_trans)
  qed
qed simp

lemma t_max_exists: "t \<noteq> Leaf \<Longrightarrow> \<exists>m. t_max t = Some m"
  by (induction t) auto

lemma inorder_t_removeMax:
  "t_max t = Some m \<Longrightarrow> inorder t = inorder (t_removeMax t) @ [m]"
  by (induction t) (auto split: if_splits)

lemma t_min_exists: "t \<noteq> Leaf \<Longrightarrow> \<exists>m. t_min t = Some m"
  by (induction t) auto

lemma inorder_t_removeMin:
  "t_min t = Some m \<Longrightarrow> inorder t = m # inorder (t_removeMin t)"
  by (induction t) (auto split: if_splits)

lemma t_freed_None: "t_freed K x t = None \<longleftrightarrow> t_find K x t = None"
  by (induction t) (auto dest: t_max_exists)

lemma t_freed_fst: "t_freed K x t = Some (j, m) \<Longrightarrow> t_find K x t = Some j"
  by (induction t) (auto split: if_splits)

lemma t_remove_absent: "t_find K x t = None \<Longrightarrow> inorder (t_remove K x t) = inorder t"
  by (induction t) (auto split: if_splits)

text \<open>
  A removal gives up one slot \<open>m\<close>. Either it is the slot of the key itself, or it is the slot
  just before it in the inorder sequence, whose key moves into the slot \<open>j\<close>.
\<close>

lemma t_remove_present:
  "t_freed K x t = Some (j, m) \<Longrightarrow>
   \<exists>ps qs. (m = j \<and> inorder t = ps @ j # qs \<and> inorder (t_remove K x t) = ps @ qs) \<or>
           (inorder t = ps @ m # j # qs \<and> inorder (t_remove K x t) = ps @ j # qs)"
proof (induction t)
  case (Node l i r)
  consider (lt) "x < K i" | (eq) "x = K i" | (gt) "K i < x" by (rule linorder_cases)
  then show ?case
  proof cases
    case lt
    with Node obtain ps qs where
      "(m = j \<and> inorder l = ps @ j # qs \<and> inorder (t_remove K x l) = ps @ qs) \<or>
       (inorder l = ps @ m # j # qs \<and> inorder (t_remove K x l) = ps @ j # qs)" by auto
    with lt show ?thesis by (intro exI [of _ ps] exI [of _ "qs @ i # inorder r"]) auto
  next
    case eq
    show ?thesis
    proof (cases "l = Leaf \<or> r = Leaf")
      case True
      with eq Node.prems show ?thesis
        by (intro exI [of _ "inorder l"] exI [of _ "inorder r"]) auto
    next
      case False
      with eq Node.prems have "j = i" "t_max l = Some m" by auto
      with eq False show ?thesis
        by (intro exI [of _ "inorder (t_removeMax l)"] exI [of _ "inorder r"])
          (simp add: inorder_t_removeMax)
    qed
  next
    case gt
    then have "\<not> x < K i" "x \<noteq> K i" by auto
    with Node obtain ps qs where
      "(m = j \<and> inorder r = ps @ j # qs \<and> inorder (t_remove K x r) = ps @ qs) \<or>
       (inorder r = ps @ m # j # qs \<and> inorder (t_remove K x r) = ps @ j # qs)" by auto
    with \<open>\<not> x < K i\<close> \<open>x \<noteq> K i\<close> show ?thesis
      by (intro exI [of _ "inorder l @ i # ps"] exI [of _ qs]) auto
  qed
qed simp

section \<open>Balance\<close>

fun avl :: "'a tree \<Rightarrow> bool" where
  "avl Leaf = True"
| "avl (Node l x r) \<longleftrightarrow> \<bar>bfac (Node l x r)\<bar> \<le> 1 \<and> avl l \<and> avl r"

text \<open>
  An insertion makes a subtree at most one taller, and a subtree that grew is not balanced
  evenly (unless it was empty). That is why the code needs no case for a child with balance
  factor \<open>0\<close> under a node with balance factor \<open>2\<close> or \<open>-2\<close> when it inserts.
\<close>

definition grown :: "'a tree \<Rightarrow> 'a tree \<Rightarrow> bool" where
  "grown t t' \<longleftrightarrow> avl t' \<and> height t \<le> height t' \<and> height t' \<le> height t + 1 \<and>
     (height t' = height t + 1 \<longrightarrow> t = Leaf \<or> bfac t' \<noteq> 0)"

lemma balance_even: "\<bar>bfac t\<bar> \<le> 1 \<Longrightarrow> balance t = t"
proof -
  assume "\<bar>bfac t\<bar> \<le> 1"
  then have "bfac t \<noteq> 2" "bfac t \<noteq> -2" by linarith+
  then show ?thesis by (simp add: balance_def)
qed

lemma balance_avl: "avl t \<Longrightarrow> balance t = t"
  by (cases t) (simp_all add: balance_even)

lemma grown_balance_left:
  assumes "avl (Node l j r)" "grown l l'"
  shows "grown (Node l j r) (balance (Node l' j r))"
proof (cases "int (height l') - int (height r) = 2")
  case False
  with assms have bf: "\<bar>int (height l') - int (height r)\<bar> \<le> 1" by (auto simp: grown_def)
  then have "balance (Node l' j r) = Node l' j r" by (simp add: balance_even)
  with bf assms show ?thesis by (auto simp: grown_def)
next
  case True
  with assms have h: "height l' = height l + 1" "height l = height r + 1" by (auto simp: grown_def)
  then have "l \<noteq> Leaf" by auto
  with h assms(2) have "bfac l' \<noteq> 0" "avl l'" by (auto simp: grown_def)
  then obtain a p b where l': "l' = Node a p b" by (cases l') auto
  with \<open>bfac l' \<noteq> 0\<close> \<open>avl l'\<close> have pm: "bfac l' = 1 \<or> bfac l' = -1" by (simp, arith)
  from True have bf2: "bfac (Node l' j r) = 2" by simp
  from pm show ?thesis
  proof
    assume p1: "bfac l' = 1"
    with bf2 l' have "balance (Node l' j r) = Node a p (Node b j r)" by (simp add: balance_def)
    moreover from p1 bf2 l' have "height a = Suc (height r)" "height b = height r" by auto
    ultimately show ?thesis using l' h assms(1) \<open>avl l'\<close> by (simp add: grown_def)
  next
    assume m1: "bfac l' = -1"
    with l' obtain b1 q b2 where b: "b = Node b1 q b2" by (cases b) auto
    with m1 bf2 l' have "height a = height r" "max (height b1) (height b2) = height r" by auto
    moreover from this l' b \<open>avl l'\<close> have "height r \<le> Suc (height b1)" "height r \<le> Suc (height b2)"
      by (auto simp: max_def split: if_splits)
    moreover have "balance (Node l' j r) = Node (Node a p b1) q (Node b2 j r)"
      using m1 bf2 l' b by (simp add: balance_def)
    ultimately show ?thesis
      using l' b h assms(1) \<open>avl l'\<close> by (auto simp: grown_def max_absorb1 max_absorb2)
  qed
qed

lemma grown_balance_right:
  assumes "avl (Node l j r)" "grown r r'"
  shows "grown (Node l j r) (balance (Node l j r'))"
proof (cases "int (height l) - int (height r') = -2")
  case False
  with assms have bf: "\<bar>int (height l) - int (height r')\<bar> \<le> 1" by (auto simp: grown_def)
  then have "balance (Node l j r') = Node l j r'" by (simp add: balance_even)
  with bf assms show ?thesis by (auto simp: grown_def)
next
  case True
  with assms have h: "height r' = height r + 1" "height r = height l + 1" by (auto simp: grown_def)
  then have "r \<noteq> Leaf" by auto
  with h assms(2) have "bfac r' \<noteq> 0" "avl r'" by (auto simp: grown_def)
  then obtain a p b where r': "r' = Node a p b" by (cases r') auto
  with \<open>bfac r' \<noteq> 0\<close> \<open>avl r'\<close> have pm: "bfac r' = 1 \<or> bfac r' = -1" by (simp, arith)
  from True have bf2: "bfac (Node l j r') = -2" by simp
  from pm show ?thesis
  proof
    assume p1: "bfac r' = -1"
    with bf2 r' have "balance (Node l j r') = Node (Node l j a) p b" by (simp add: balance_def)
    moreover from p1 bf2 r' have "height b = Suc (height l)" "height a = height l" by auto
    ultimately show ?thesis using r' h assms(1) \<open>avl r'\<close> by (simp add: grown_def)
  next
    assume m1: "bfac r' = 1"
    with r' obtain a1 q a2 where a: "a = Node a1 q a2" by (cases a) auto
    with m1 bf2 r' have "height b = height l" "max (height a1) (height a2) = height l" by auto
    moreover from this r' a \<open>avl r'\<close> have "height l \<le> Suc (height a1)" "height l \<le> Suc (height a2)"
      by (auto simp: max_def split: if_splits)
    moreover have "balance (Node l j r') = Node (Node l j a1) q (Node a2 p b)"
      using m1 bf2 r' a by (simp add: balance_def)
    ultimately show ?thesis
      using r' a h assms(1) \<open>avl r'\<close> by (auto simp: grown_def max_absorb1 max_absorb2)
  qed
qed

lemma grown_t_put: "avl t \<Longrightarrow> grown t (t_put K x fr t)"
proof (induction t)
  case Leaf
  then show ?case by (cases fr) (auto simp: grown_def)
next
  case (Node l j r)
  from Node have "grown l (t_put K x fr l)" "grown r (t_put K x fr r)" by auto
  with Node.prems have "grown (Node l j r) (balance (Node (t_put K x fr l) j r))"
    "grown (Node l j r) (balance (Node l j (t_put K x fr r)))"
    by (blast intro: grown_balance_left grown_balance_right)+
  moreover from Node.prems have "grown (Node l j r) (balance (Node l j r))"
    by (auto simp: balance_avl grown_def le_SucI simp del: avl.simps)
  ultimately show ?case by simp
qed

lemma avl_t_put: "avl t \<Longrightarrow> avl (t_put K x fr t)"
  using grown_t_put by (auto simp: grown_def)

text \<open>The least number of keys in a balanced tree of a given height.\<close>

fun avl_min :: "nat \<Rightarrow> nat" where
  "avl_min 0 = 0"
| "avl_min (Suc 0) = 1"
| "avl_min (Suc (Suc h)) = 1 + avl_min (Suc h) + avl_min h"

lemma avl_min_mono_Suc: "avl_min h \<le> avl_min (Suc h)"
  by (induction h rule: avl_min.induct) auto

lemma avl_min_mono: "h \<le> h' \<Longrightarrow> avl_min h \<le> avl_min h'"
  by (rule lift_Suc_mono_le [of avl_min, OF avl_min_mono_Suc])

lemma avl_min_Suc_le: "h \<le> Suc h' \<Longrightarrow> h' \<le> Suc h \<Longrightarrow>
  avl_min (Suc (max h h')) \<le> 1 + avl_min h + avl_min h'"
proof -
  assume a: "h \<le> Suc h'" "h' \<le> Suc h"
  define n where "n = max h h'"
  show ?thesis
  proof (cases n)
    case 0
    then show ?thesis by (simp add: n_def)
  next
    case (Suc k)
    with a have "k \<le> h" "k \<le> h'" and "h = n \<or> h' = n" by (auto simp: n_def max_def split: if_splits)
    then have "avl_min k + avl_min n \<le> avl_min h + avl_min h'" by (auto dest: avl_min_mono)
    then show ?thesis by (simp add: n_def [symmetric] Suc)
  qed
qed

lemma avl_size: "avl t \<Longrightarrow> avl_min (height t) \<le> size t"
proof (induction t)
  case (Node l j r)
  then have "avl_min (Suc (max (height l) (height r))) \<le> 1 + avl_min (height l) + avl_min (height r)"
    by (intro avl_min_Suc_le) auto
  also have "\<dots> \<le> 1 + size l + size r" using Node by simp
  finally show ?case by simp
qed simp

end
