(* ===== verification/Key_Records.thy ===== *)
theory Key_Records
  imports Index_Tree
begin

text \<open>
  The key page of librdb and its balanced tree of key records: \<^verbatim>\<open>librdb/include/dbstruct.h\<close>
  (the page and record layouts) and \<^verbatim>\<open>librdb/src/keyrec.cpp\<close> (the class \<^verbatim>\<open>KeyRecords\<close>).

  A key page holds an array of \<^verbatim>\<open>NUM_OF_KEYS_IN_PAGE\<close> records. The records in use form a
  binary search tree whose links are array indices (\<open>-1\<close> for no child). The first half of
  the theory is the code: one definition per method, the array threaded through. The second
  half relates the array to a tree of indices and proves that the methods compute the tree
  operations, leave the rest of the array alone, and implement a finite map from keys to
  value offsets.
\<close>

section \<open>Data (dbstruct.h)\<close>

definition MAX_KEY_LENGTH :: nat where "MAX_KEY_LENGTH = 48"
definition KEY_FREE :: int where "KEY_FREE = 0"
definition KEY_INUSE :: int where "KEY_INUSE = 1"
definition KEY_PAGE_HDR_SIZE :: int where "KEY_PAGE_HDR_SIZE = 64"

record key_rec =
  kr_flags :: int
  kr_height :: int
  kr_left :: int
  kr_right :: int
  kr_klen :: int
  kr_key :: "byte list"
  kr_voff :: offset

definition InitKeyRecord :: key_rec where
  "InitKeyRecord =
     \<lparr>kr_flags = 0, kr_height = 1, kr_left = -1, kr_right = -1, kr_klen = 0,
      kr_key = replicate MAX_KEY_LENGTH 0, kr_voff = -1\<rparr>"

text \<open>A page as \<^verbatim>\<open>memset\<close> leaves it holds records of zero bytes only.\<close>

definition zero_key_rec :: key_rec where
  "zero_key_rec =
     \<lparr>kr_flags = 0, kr_height = 0, kr_left = 0, kr_right = 0, kr_klen = 0,
      kr_key = replicate MAX_KEY_LENGTH 0, kr_voff = 0\<rparr>"

record key_page =
  kp_flags :: int
  kp_vcount :: int
  kp_root :: int
  kp_hash :: int
  kp_poff :: offset
  kp_noff :: offset
  kp_keys :: "key_rec list"

definition NUM_OF_KEYS_IN_PAGE :: "int \<Rightarrow> int" where
  "NUM_OF_KEYS_IN_PAGE B = (B - KEY_PAGE_HDR_SIZE) div 64"

definition InitKeyPage :: "int \<Rightarrow> key_page" where
  "InitKeyPage kpsize =
     \<lparr>kp_flags = 0, kp_vcount = 0, kp_root = -1, kp_hash = 0, kp_poff = -1, kp_noff = -1,
      kp_keys = replicate (nat (NUM_OF_KEYS_IN_PAGE kpsize)) zero_key_rec\<rparr>"

text \<open>The node of a \<^verbatim>\<open>key_info\<close> is \<open>None\<close> when null, its last page the address \<open>0\<close>; the header words of a page that
  no code reads (\<^verbatim>\<open>kp_unused1\<close> to \<^verbatim>\<open>kp_unused6\<close>) are left out.\<close>

record key_info =
  ki_key :: "byte list"
  ki_klen :: int
  ki_hash :: int
  ki_voff :: offset
  ki_kpn :: "nat option"
  ki_lkp :: int
  ki_lkpoff :: offset
  ki_kidx :: int

definition SetKeyInfo :: "byte list \<Rightarrow> int \<Rightarrow> int \<Rightarrow> key_info option" where
  "SetKeyInfo key klen h =
     map_option
       (\<lambda>buf. \<lparr>ki_key = take (nat klen) buf @ replicate (MAX_KEY_LENGTH - nat klen) 0,
               ki_klen = klen, ki_hash = h, ki_voff = -1, ki_kpn = None, ki_lkp = 0,
               ki_lkpoff = -1, ki_kidx = -1\<rparr>)
       (memcpy (replicate MAX_KEY_LENGTH 0) key klen)"

section \<open>Array access\<close>

definition key_at :: "key_page \<Rightarrow> int \<Rightarrow> key_rec option" where
  "key_at kp i =
     (if 0 \<le> i \<and> nat i < length (kp_keys kp) then Some (kp_keys kp ! nat i) else None)"

definition upd_key :: "key_page \<Rightarrow> int \<Rightarrow> (key_rec \<Rightarrow> key_rec) \<Rightarrow> key_page option" where
  "upd_key kp i f =
     (if 0 \<le> i \<and> nat i < length (kp_keys kp)
      then Some (kp\<lparr>kp_keys := (kp_keys kp)[nat i := f (kp_keys kp ! nat i)]\<rparr>) else None)"

definition LEFT_OF :: "key_page \<Rightarrow> int \<Rightarrow> int option" where
  "LEFT_OF kp i = map_option kr_left (key_at kp i)"

definition RIGHT_OF :: "key_page \<Rightarrow> int \<Rightarrow> int option" where
  "RIGHT_OF kp i = map_option kr_right (key_at kp i)"

definition HEIGHT_OF :: "key_page \<Rightarrow> int \<Rightarrow> int option" where
  "HEIGHT_OF kp i = map_option kr_height (key_at kp i)"

definition set_left :: "key_page \<Rightarrow> int \<Rightarrow> int \<Rightarrow> key_page option" where
  "set_left kp i v = upd_key kp i (kr_left_update (\<lambda>_. v))"

definition set_right :: "key_page \<Rightarrow> int \<Rightarrow> int \<Rightarrow> key_page option" where
  "set_right kp i v = upd_key kp i (kr_right_update (\<lambda>_. v))"

section \<open>The methods of KeyRecords\<close>

fun first_free :: "key_rec list \<Rightarrow> int \<Rightarrow> int" where
  "first_free [] i = -1"
| "first_free (r # rs) i =
     (if kr_flags r = KEY_FREE then to_short i else first_free rs (i + 1))"

definition getFree :: "key_page \<Rightarrow> int" where
  "getFree kp = first_free (kp_keys kp) 0"

definition getFreeCount :: "key_page \<Rightarrow> int" where
  "getFreeCount kp = int (length (filter (\<lambda>r. kr_flags r = KEY_FREE) (kp_keys kp)))"

definition getKeyRecord :: "key_page \<Rightarrow> key_info \<Rightarrow> (key_page \<times> int) option" where
  "getKeyRecord kp ki =
     (let idx = getFree kp in
      if idx < 0 then Some (kp, idx)
      else do {
        let r = InitKeyRecord\<lparr>kr_flags := KEY_INUSE, kr_klen := to_short (ki_klen ki)\<rparr>;
        buf \<leftarrow> memcpy (kr_key r) (ki_key ki) (ki_klen ki);
        kp \<leftarrow> upd_key kp idx (\<lambda>_. r\<lparr>kr_key := buf, kr_voff := ki_voff ki\<rparr>);
        Some (kp\<lparr>kp_vcount := to_short (kp_vcount kp + 1)\<rparr>, idx)
      })"

definition freeKeyRecord :: "key_page \<Rightarrow> int \<Rightarrow> key_page option" where
  "freeKeyRecord kp idx = do {
     kp \<leftarrow> upd_key kp idx (\<lambda>_. InitKeyRecord);
     Some (kp\<lparr>kp_vcount := to_short (kp_vcount kp - 1)\<rparr>)
   }"

text \<open>The height the code reads for a child link: \<open>0\<close> for \<open>-1\<close>, the stored field otherwise.\<close>

definition child_height :: "key_page \<Rightarrow> int \<Rightarrow> int option" where
  "child_height kp i = (if i \<noteq> -1 then HEIGHT_OF kp i else Some 0)"

definition balanceFactor :: "key_page \<Rightarrow> int \<Rightarrow> int option" where
  "balanceFactor kp root =
     (if root \<noteq> -1 then do {
        l \<leftarrow> LEFT_OF kp root;
        lh \<leftarrow> child_height kp l;
        r \<leftarrow> RIGHT_OF kp root;
        rh \<leftarrow> child_height kp r;
        Some (lh - rh)
      } else Some 0)"

definition height_m :: "key_page \<Rightarrow> int \<Rightarrow> (key_page \<times> int) option" where
  "height_m kp root =
     (if root \<noteq> -1 then do {
        l \<leftarrow> LEFT_OF kp root;
        lh \<leftarrow> child_height kp l;
        r \<leftarrow> RIGHT_OF kp root;
        rh \<leftarrow> child_height kp r;
        let h = 1 + (if lh < rh then rh else lh);
        kp \<leftarrow> upd_key kp root (kr_height_update (\<lambda>_. to_schar h));
        Some (kp, h)
      } else Some (kp, 0))"

definition rotateLeft :: "key_page \<Rightarrow> int \<Rightarrow> (key_page \<times> int) option" where
  "rotateLeft kp root = do {
     pivot \<leftarrow> RIGHT_OF kp root;
     lp \<leftarrow> LEFT_OF kp pivot;
     kp \<leftarrow> set_right kp root lp;
     kp \<leftarrow> set_left kp pivot root;
     (kp, _) \<leftarrow> height_m kp root;
     (kp, _) \<leftarrow> height_m kp pivot;
     Some (kp, pivot)
   }"

definition rotateRight :: "key_page \<Rightarrow> int \<Rightarrow> (key_page \<times> int) option" where
  "rotateRight kp root = do {
     pivot \<leftarrow> LEFT_OF kp root;
     rp \<leftarrow> RIGHT_OF kp pivot;
     kp \<leftarrow> set_left kp root rp;
     kp \<leftarrow> set_right kp pivot root;
     (kp, _) \<leftarrow> height_m kp root;
     (kp, _) \<leftarrow> height_m kp pivot;
     Some (kp, pivot)
   }"

definition rotateLeftRight :: "key_page \<Rightarrow> int \<Rightarrow> (key_page \<times> int) option" where
  "rotateLeftRight kp root = do {
     l \<leftarrow> LEFT_OF kp root;
     (kp, l') \<leftarrow> rotateLeft kp l;
     kp \<leftarrow> set_left kp root l';
     rotateRight kp root
   }"

definition rotateRightLeft :: "key_page \<Rightarrow> int \<Rightarrow> (key_page \<times> int) option" where
  "rotateRightLeft kp root = do {
     r \<leftarrow> RIGHT_OF kp root;
     (kp, r') \<leftarrow> rotateRight kp r;
     kp \<leftarrow> set_right kp root r';
     rotateLeft kp root
   }"

definition balanceTree :: "key_page \<Rightarrow> int \<Rightarrow> (key_page \<times> int) option" where
  "balanceTree kp root = do {
     bf \<leftarrow> balanceFactor kp root;
     if bf = -2 then do {
       r \<leftarrow> RIGHT_OF kp root;
       bf' \<leftarrow> balanceFactor kp r;
       if bf' = -1 then rotateLeft kp root
       else if bf' = 1 then rotateRightLeft kp root
       else Some (kp, root)
     } else if bf = 2 then do {
       l \<leftarrow> LEFT_OF kp root;
       bf' \<leftarrow> balanceFactor kp l;
       if bf' = -1 then rotateLeftRight kp root
       else if bf' = 1 then rotateRight kp root
       else Some (kp, root)
     } else Some (kp, root)
   }"

definition keycmp :: "key_info \<Rightarrow> key_rec \<Rightarrow> int option" where
  "keycmp ki krec =
     (let cmp = ki_klen ki - kr_klen krec
      in if cmp = 0 then memcmp (ki_key ki) (kr_key krec) (ki_klen ki) else Some cmp)"

partial_function (option) KR_put_at ::
  "key_page \<Rightarrow> int \<Rightarrow> key_info \<Rightarrow> int \<Rightarrow> (key_page \<times> int \<times> int) option" where
  "KR_put_at kp root ki idx =
     (if root = -1 then do {
        (kp, root) \<leftarrow> getKeyRecord kp ki;
        let idx = root;
        (kp, root) \<leftarrow> balanceTree kp root;
        Some (kp, root, idx)
      } else do {
        krec \<leftarrow> key_at kp root;
        cmp \<leftarrow> keycmp ki krec;
        (kp, idx) \<leftarrow>
          (if cmp < 0 then do {
             l \<leftarrow> LEFT_OF kp root;
             (kp, l', idx) \<leftarrow> KR_put_at kp l ki idx;
             kp \<leftarrow> set_left kp root l';
             Some (kp, idx)
           } else if cmp = 0 then do {
             kp \<leftarrow> upd_key kp root (kr_voff_update (\<lambda>_. ki_voff ki));
             Some (kp, root)
           } else do {
             r \<leftarrow> RIGHT_OF kp root;
             (kp, r', idx) \<leftarrow> KR_put_at kp r ki idx;
             kp \<leftarrow> set_right kp root r';
             Some (kp, idx)
           });
        (kp, _) \<leftarrow> height_m kp root;
        (kp, root) \<leftarrow> balanceTree kp root;
        Some (kp, root, idx)
      })"

partial_function (option) minKey :: "key_page \<Rightarrow> int \<Rightarrow> int option" where
  "minKey kp root =
     (if root \<noteq> -1 then do {
        l \<leftarrow> LEFT_OF kp root;
        if l \<noteq> -1 then minKey kp l else Some root
      } else Some root)"

partial_function (option) maxKey :: "key_page \<Rightarrow> int \<Rightarrow> int option" where
  "maxKey kp root =
     (if root \<noteq> -1 then do {
        r \<leftarrow> RIGHT_OF kp root;
        if r \<noteq> -1 then maxKey kp r else Some root
      } else Some root)"

partial_function (option) removeMin ::
  "key_page \<Rightarrow> int \<Rightarrow> int \<Rightarrow> (key_page \<times> int \<times> int) option" where
  "removeMin kp root idx = do {
     (kp, root, idx) \<leftarrow>
       (if root \<noteq> -1 then do {
          l \<leftarrow> LEFT_OF kp root;
          if l = -1 then do {
            r \<leftarrow> RIGHT_OF kp root;
            kp \<leftarrow> freeKeyRecord kp root;
            Some (kp, r, root)
          } else do {
            (kp, l', idx) \<leftarrow> removeMin kp l idx;
            kp \<leftarrow> set_left kp root l';
            Some (kp, root, idx)
          }
        } else Some (kp, root, idx));
     (kp, _) \<leftarrow> height_m kp root;
     (kp, root) \<leftarrow> balanceTree kp root;
     Some (kp, root, idx)
   }"

partial_function (option) removeMax ::
  "key_page \<Rightarrow> int \<Rightarrow> int \<Rightarrow> (key_page \<times> int \<times> int) option" where
  "removeMax kp root idx = do {
     (kp, root, idx) \<leftarrow>
       (if root \<noteq> -1 then do {
          r \<leftarrow> RIGHT_OF kp root;
          if r = -1 then do {
            l \<leftarrow> LEFT_OF kp root;
            kp \<leftarrow> freeKeyRecord kp root;
            Some (kp, l, root)
          } else do {
            (kp, r', idx) \<leftarrow> removeMax kp r idx;
            kp \<leftarrow> set_right kp root r';
            Some (kp, root, idx)
          }
        } else Some (kp, root, idx));
     (kp, _) \<leftarrow> height_m kp root;
     (kp, root) \<leftarrow> balanceTree kp root;
     Some (kp, root, idx)
   }"

partial_function (option) KR_remove_at ::
  "key_page \<Rightarrow> int \<Rightarrow> key_info \<Rightarrow> int \<Rightarrow> (key_page \<times> int \<times> int) option" where
  "KR_remove_at kp root ki idx = do {
     (kp, root, idx) \<leftarrow>
       (if root \<noteq> -1 then do {
          krec \<leftarrow> key_at kp root;
          cmp \<leftarrow> keycmp ki krec;
          (kp, root, idx) \<leftarrow>
            (if cmp < 0 then do {
               l \<leftarrow> LEFT_OF kp root;
               (kp, l', idx) \<leftarrow> KR_remove_at kp l ki idx;
               kp \<leftarrow> set_left kp root l';
               Some (kp, root, idx)
             } else if cmp = 0 then
               (if kr_left krec = -1 then do {
                  kp' \<leftarrow> freeKeyRecord kp root;
                  Some (kp', kr_right krec, root)
                } else if kr_right krec = -1 then do {
                  kp' \<leftarrow> freeKeyRecord kp root;
                  Some (kp', kr_left krec, root)
                } else do {
                  m \<leftarrow> maxKey kp (kr_left krec);
                  mrec \<leftarrow> key_at kp m;
                  buf \<leftarrow> memcpy (kr_key krec) (kr_key mrec) (kr_klen mrec);
                  kp \<leftarrow> upd_key kp root (\<lambda>r. r\<lparr>kr_key := buf, kr_klen := kr_klen mrec,
                                                   kr_voff := kr_voff mrec\<rparr>);
                  (kp, l', idx) \<leftarrow> removeMax kp (kr_left krec) idx;
                  kp \<leftarrow> set_left kp root l';
                  Some (kp, root, idx)
                })
             else do {
               r \<leftarrow> RIGHT_OF kp root;
               (kp, r', idx) \<leftarrow> KR_remove_at kp r ki idx;
               kp \<leftarrow> set_right kp root r';
               Some (kp, root, idx)
             });
          (kp, _) \<leftarrow> height_m kp root;
          Some (kp, root, idx)
        } else Some (kp, root, idx));
     (kp, root) \<leftarrow> balanceTree kp root;
     Some (kp, root, idx)
   }"

partial_function (option) KR_get_from :: "key_page \<Rightarrow> int \<Rightarrow> key_info \<Rightarrow> int option" where
  "KR_get_from kp root ki =
     (if root \<noteq> -1 then do {
        krec \<leftarrow> key_at kp root;
        cmp \<leftarrow> keycmp ki krec;
        if cmp < 0 then do { l \<leftarrow> LEFT_OF kp root; KR_get_from kp l ki }
        else if cmp = 0 then Some root
        else do { r \<leftarrow> RIGHT_OF kp root; KR_get_from kp r ki }
      } else Some root)"

definition KR_get :: "key_page \<Rightarrow> key_info \<Rightarrow> int option" where
  "KR_get kp ki = KR_get_from kp (kp_root kp) ki"

definition KR_put :: "key_page \<Rightarrow> key_info \<Rightarrow> (key_page \<times> int) option" where
  "KR_put kp ki = do {
     (kp, root, idx) \<leftarrow> KR_put_at kp (kp_root kp) ki (-1);
     Some (kp\<lparr>kp_root := root\<rparr>, idx)
   }"

definition KR_remove :: "key_page \<Rightarrow> key_info \<Rightarrow> (key_page \<times> int) option" where
  "KR_remove kp ki = do {
     (kp, root, idx) \<leftarrow> KR_remove_at kp (kp_root kp) ki (-1);
     Some (kp\<lparr>kp_root := root\<rparr>, idx)
   }"

declare KR_put_at.simps [code] minKey.simps [code] maxKey.simps [code] removeMin.simps [code]
  removeMax.simps [code] KR_remove_at.simps [code] KR_get_from.simps [code]

end
