(* ===== verification/Key_Tree.thy ===== *)
theory Key_Tree
  imports Key_Records
begin

text \<open>
  The methods of \<^verbatim>\<open>KeyRecords\<close> compute the tree operations of Index_Tree. \<open>tree_at kp r t\<close>
  says that the links of the page, followed from index \<open>r\<close>, form the tree \<open>t\<close> of slots with
  the heights stored; \<open>relinked S kp kp'\<close> that only links of the slots in \<open>S\<close> differ. Each
  method returns (no index is out of range, no loop runs forever), its result is the
  corresponding tree, and nothing outside that tree is written.
\<close>


section \<open>The array as a tree\<close>

definition upd :: "key_page \<Rightarrow> int \<Rightarrow> (key_rec \<Rightarrow> key_rec) \<Rightarrow> key_page" where
  "upd kp i f = (case upd_key kp i f of None \<Rightarrow> kp | Some kp' \<Rightarrow> kp')"

lemma upd_key_upd [heap_simps]: "key_at kp i = Some k \<Longrightarrow> upd_key kp i f = Some (upd kp i f)"
  by (auto simp: key_at_def upd_key_def upd_def split: if_splits)

lemma key_at_upd [heap_simps]:
  "key_at (upd kp i f) j =
     (if j = i then map_option f (key_at kp i) else key_at kp j)"
proof (cases "0 \<le> i \<and> nat i < length (kp_keys kp)")
  case True
  then show ?thesis
    by (cases "0 \<le> j") (auto simp: key_at_def upd_def upd_key_def nth_list_update eq_nat_nat_iff)
next
  case False
  then show ?thesis by (auto simp: key_at_def upd_def upd_key_def)
qed

lemma key_at_hdr [heap_simps]:
  "key_at (kp\<lparr>kp_vcount := v\<rparr>) i = key_at kp i"
  "key_at (kp\<lparr>kp_root := r\<rparr>) i = key_at kp i"
  by (simp_all add: key_at_def)

lemma key_at_nonneg: "key_at kp i = Some k \<Longrightarrow> 0 \<le> i \<and> nat i < length (kp_keys kp)"
  by (auto simp: key_at_def split: if_splits)

lemma key_at_neg1 [simp]: "key_at kp (-1) = None"
  by (simp add: key_at_def)

text \<open>\<open>link_at kp i l r\<close>: record \<open>i\<close> links the subtrees \<open>l\<close> and \<open>r\<close>, its own height aside.\<close>

fun tree_at :: "key_page \<Rightarrow> int \<Rightarrow> int tree \<Rightarrow> bool" where
  "tree_at kp r Leaf \<longleftrightarrow> r = -1"
| "tree_at kp r (Node lt i rt) \<longleftrightarrow>
     r = i \<and> (case key_at kp i of None \<Rightarrow> False | Some k \<Rightarrow>
       kr_height k = int (Tree.height (Node lt i rt)) \<and>
       tree_at kp (kr_left k) lt \<and> tree_at kp (kr_right k) rt)"

definition link_at :: "key_page \<Rightarrow> int \<Rightarrow> int tree \<Rightarrow> int tree \<Rightarrow> bool" where
  "link_at kp i lt rt \<longleftrightarrow>
     (case key_at kp i of None \<Rightarrow> False | Some k \<Rightarrow>
       tree_at kp (kr_left k) lt \<and> tree_at kp (kr_right k) rt)"

lemma tree_at_cong:
  "(\<And>i. i \<in> set_tree t \<Longrightarrow> key_at kp' i = key_at kp i) \<Longrightarrow> tree_at kp' r t = tree_at kp r t"
  by (induction t arbitrary: r) (auto split: option.splits)

lemma tree_at_upd [heap_simps]: "i \<notin> set_tree t \<Longrightarrow> tree_at (upd kp i f) r t = tree_at kp r t"
  by (rule tree_at_cong) (auto simp: key_at_upd)

lemma tree_at_Node_link:
  "tree_at kp r (Node lt i rt) \<Longrightarrow> r = i \<and> link_at kp i lt rt"
  by (auto simp: link_at_def split: option.splits)

lemma tree_at_key: "tree_at kp r t \<Longrightarrow> i \<in> set_tree t \<Longrightarrow> \<exists>k. key_at kp i = Some k"
  by (induction t arbitrary: r) (auto split: option.splits)

lemma child_height_tree: "tree_at kp r t \<Longrightarrow> child_height kp r = Some (int (Tree.height t))"
  by (cases t) (auto simp: child_height_def HEIGHT_OF_def split: option.splits)

lemma balanceFactor_tree: "tree_at kp r t \<Longrightarrow> balanceFactor kp r = Some (bfac t)"
  by (cases t)
    (auto simp: balanceFactor_def LEFT_OF_def RIGHT_OF_def child_height_tree split: option.splits)

text \<open>What an operation that only relinks records of \<open>S\<close> leaves as it was.\<close>

definition key_data :: "key_rec \<Rightarrow> int \<times> int \<times> byte list \<times> offset" where
  "key_data k = (kr_flags k, kr_klen k, kr_key k, kr_voff k)"

definition relinked :: "int set \<Rightarrow> key_page \<Rightarrow> key_page \<Rightarrow> bool" where
  "relinked S kp kp' \<longleftrightarrow>
     length (kp_keys kp') = length (kp_keys kp) \<and>
     kp'\<lparr>kp_keys := []\<rparr> = kp\<lparr>kp_keys := []\<rparr> \<and>
     (\<forall>i. i \<notin> S \<longrightarrow> key_at kp' i = key_at kp i) \<and>
     (\<forall>i. map_option key_data (key_at kp' i) = map_option key_data (key_at kp i))"

lemma relinked_refl [simp]: "relinked S kp kp"
  by (simp add: relinked_def)

lemma relinked_trans [trans]: "relinked S a b \<Longrightarrow> relinked S b c \<Longrightarrow> relinked S a c"
  by (simp add: relinked_def)

lemma relinked_mono: "relinked S a b \<Longrightarrow> S \<subseteq> T \<Longrightarrow> relinked T a b"
  by (auto simp: relinked_def)

lemma relinked_upd:
  "i \<in> S \<Longrightarrow> (\<And>k. key_data (f k) = key_data k) \<Longrightarrow> relinked S kp (upd kp i f)"
  by (auto simp: relinked_def key_at_upd option.map_comp comp_def) (simp_all add: upd_def upd_key_def)

lemma key_data_links [simp]:
  "key_data (k\<lparr>kr_left := v\<rparr>) = key_data k" "key_data (k\<lparr>kr_right := v\<rparr>) = key_data k"
  "key_data (k\<lparr>kr_height := v\<rparr>) = key_data k"
  by (simp_all add: key_data_def)

lemma relinked_tree:
  "relinked S kp kp' \<Longrightarrow> set_tree t \<inter> S = {} \<Longrightarrow> tree_at kp' r t = tree_at kp r t"
  by (rule tree_at_cong) (auto simp: relinked_def)

lemma relinked_key_Some:
  "relinked S kp kp' \<Longrightarrow> key_at kp i = Some k \<Longrightarrow> \<exists>k'. key_at kp' i = Some k' \<and> key_data k' = key_data k"
  unfolding relinked_def by (metis (no_types, lifting) map_option_eq_Some)

section \<open>Links and rotations\<close>

lemma height_m_link:
  assumes "link_at kp i lt rt" "Tree.height (Node lt i rt) \<le> 127" "i \<notin> set_tree lt \<union> set_tree rt"
  shows "\<exists>kp' h. height_m kp i = Some (kp', h) \<and> tree_at kp' i (Node lt i rt) \<and> relinked {i} kp kp'"
proof -
  from assms(1) obtain k where k: "key_at kp i = Some k"
    "tree_at kp (kr_left k) lt" "tree_at kp (kr_right k) rt"
    by (auto simp: link_at_def split: option.splits)
  define h where "h = 1 + max (int (Tree.height lt)) (int (Tree.height rt))"
  have "(1::int) + (if int (Tree.height lt) < int (Tree.height rt) then int (Tree.height rt) else int (Tree.height lt)) = h"
    by (auto simp: h_def)
  moreover have "i \<noteq> -1" using key_at_nonneg [OF k(1)] by auto
  ultimately have "height_m kp i = Some (upd kp i (kr_height_update (\<lambda>_. to_schar h)), h)"
    using k by (simp add: height_m_def LEFT_OF_def RIGHT_OF_def child_height_tree heap_simps Let_def)
  moreover have "to_schar h = int (Tree.height (Node lt i rt))"
    using assms(2) by (simp add: h_def to_schar_id)
  ultimately show ?thesis
    using k assms(3) by (auto simp: heap_simps intro!: relinked_upd)
qed

lemma set_left_link:
  assumes "key_at kp i = Some k" "tree_at kp l lt" "tree_at kp (kr_right k) rt"
    "i \<notin> set_tree lt \<union> set_tree rt"
  shows "\<exists>kp'. set_left kp i l = Some kp' \<and> link_at kp' i lt rt \<and> relinked {i} kp kp'"
  using assms
  by (intro exI [of _ "upd kp i (kr_left_update (\<lambda>_. l))"])
    (auto simp: set_left_def link_at_def heap_simps intro!: relinked_upd)

lemma set_right_link:
  assumes "key_at kp i = Some k" "tree_at kp (kr_left k) lt" "tree_at kp r rt"
    "i \<notin> set_tree lt \<union> set_tree rt"
  shows "\<exists>kp'. set_right kp i r = Some kp' \<and> link_at kp' i lt rt \<and> relinked {i} kp kp'"
  using assms
  by (intro exI [of _ "upd kp i (kr_right_update (\<lambda>_. r))"])
    (auto simp: set_right_def link_at_def heap_simps intro!: relinked_upd)

lemma rotateLeft_link:
  assumes l: "link_at kp x a (Node b p c)" and d: "distinct (inorder (Node a x (Node b p c)))"
    and s: "size (Node a x (Node b p c)) \<le> 127"
  shows "\<exists>kp'. rotateLeft kp x = Some (kp', p) \<and> tree_at kp' p (Node (Node a x b) p c) \<and>
    relinked (set_tree (Node a x (Node b p c))) kp kp'"
proof -
  let ?S = "set_tree (Node a x (Node b p c))"
  from l obtain kx kpv where kx: "key_at kp x = Some kx" "tree_at kp (kr_left kx) a" "kr_right kx = p"
    and kpv: "key_at kp p = Some kpv" "tree_at kp (kr_left kpv) b" "tree_at kp (kr_right kpv) c"
    by (auto simp: link_at_def split: option.splits)
  from d have ne: "x \<noteq> p" "x \<notin> set_tree a" "x \<notin> set_tree b" "x \<notin> set_tree c"
    "p \<notin> set_tree a" "p \<notin> set_tree b" "p \<notin> set_tree c" by auto
  obtain k1 where k1: "set_right kp x (kr_left kpv) = Some k1" "link_at k1 x a b" "relinked {x} kp k1"
    using set_right_link [OF kx(1,2) kpv(2)] ne by auto
  have p1: "key_at k1 p = Some kpv" using k1(3) kpv(1) ne by (auto simp: relinked_def)
  define k2 where "k2 = upd k1 p (kr_left_update (\<lambda>_. x))"
  have k2: "set_left k1 p x = Some k2" "relinked {p} k1 k2"
    using p1 by (auto simp: k2_def set_left_def heap_simps intro!: relinked_upd)
  have l2: "link_at k2 x a b"
    using k1(2) ne by (auto simp: k2_def link_at_def heap_simps split: option.splits)
  have "Tree.height (Node a x b) \<le> 127"
    using s height_le_size [of "Node a x b"] by simp
  then obtain k3 h3 where k3: "height_m k2 x = Some (k3, h3)" "tree_at k3 x (Node a x b)" "relinked {x} k2 k3"
    using height_m_link [OF l2] ne by auto
  have p3: "key_at k3 p = Some (kpv\<lparr>kr_left := x\<rparr>)"
    using k3(3) p1 ne by (auto simp: relinked_def k2_def heap_simps)
  have "tree_at k3 (kr_right kpv) c"
    using kpv(3) ne relinked_tree [OF k1(3), of c] relinked_tree [OF k2(2), of c] relinked_tree [OF k3(3), of c]
    by simp
  with p3 k3(2) have l3: "link_at k3 p (Node a x b) c" by (simp add: link_at_def del: tree_at.simps)
  have "Tree.height (Node (Node a x b) p c) \<le> 127"
    using s height_le_size [of "Node (Node a x b) p c"] by simp
  then obtain k4 h4 where k4: "height_m k3 p = Some (k4, h4)"
    "tree_at k4 p (Node (Node a x b) p c)" "relinked {p} k3 k4"
    using height_m_link [OF l3] ne by auto
  have "relinked ?S kp k1" "relinked ?S k1 k2" "relinked ?S k2 k3" "relinked ?S k3 k4"
    by (auto intro: relinked_mono [OF k1(3)] relinked_mono [OF k2(2)] relinked_mono [OF k3(3)]
      relinked_mono [OF k4(3)])
  then have "relinked ?S kp k4" by (metis relinked_trans)
  then show ?thesis
    using kx kpv(1) k1(1) k2(1) k3(1) k4 by (simp add: rotateLeft_def RIGHT_OF_def LEFT_OF_def)
qed

lemma rotateRight_link:
  assumes l: "link_at kp x (Node a p b) c" and d: "distinct (inorder (Node (Node a p b) x c))"
    and s: "size (Node (Node a p b) x c) \<le> 127"
  shows "\<exists>kp'. rotateRight kp x = Some (kp', p) \<and> tree_at kp' p (Node a p (Node b x c)) \<and>
    relinked (set_tree (Node (Node a p b) x c)) kp kp'"
proof -
  let ?S = "set_tree (Node (Node a p b) x c)"
  from l obtain kx kpv where kx: "key_at kp x = Some kx" "kr_left kx = p" "tree_at kp (kr_right kx) c"
    and kpv: "key_at kp p = Some kpv" "tree_at kp (kr_left kpv) a" "tree_at kp (kr_right kpv) b"
    by (auto simp: link_at_def split: option.splits)
  from d have ne: "x \<noteq> p" "x \<notin> set_tree a" "x \<notin> set_tree b" "x \<notin> set_tree c"
    "p \<notin> set_tree a" "p \<notin> set_tree b" "p \<notin> set_tree c" by auto
  obtain k1 where k1: "set_left kp x (kr_right kpv) = Some k1" "link_at k1 x b c" "relinked {x} kp k1"
    using set_left_link [OF kx(1) kpv(3) kx(3)] ne by auto
  have p1: "key_at k1 p = Some kpv" using k1(3) kpv(1) ne by (auto simp: relinked_def)
  define k2 where "k2 = upd k1 p (kr_right_update (\<lambda>_. x))"
  have k2: "set_right k1 p x = Some k2" "relinked {p} k1 k2"
    using p1 by (auto simp: k2_def set_right_def heap_simps intro!: relinked_upd)
  have l2: "link_at k2 x b c"
    using k1(2) ne by (auto simp: k2_def link_at_def heap_simps split: option.splits)
  have "Tree.height (Node b x c) \<le> 127"
    using s height_le_size [of "Node b x c"] by simp
  then obtain k3 h3 where k3: "height_m k2 x = Some (k3, h3)" "tree_at k3 x (Node b x c)" "relinked {x} k2 k3"
    using height_m_link [OF l2] ne by auto
  have p3: "key_at k3 p = Some (kpv\<lparr>kr_right := x\<rparr>)"
    using k3(3) p1 ne by (auto simp: relinked_def k2_def heap_simps)
  have "tree_at k3 (kr_left kpv) a"
    using kpv(2) ne relinked_tree [OF k1(3), of a] relinked_tree [OF k2(2), of a] relinked_tree [OF k3(3), of a]
    by simp
  with p3 k3(2) have l3: "link_at k3 p a (Node b x c)" by (simp add: link_at_def del: tree_at.simps)
  have "Tree.height (Node a p (Node b x c)) \<le> 127"
    using s height_le_size [of "Node a p (Node b x c)"] by simp
  then obtain k4 h4 where k4: "height_m k3 p = Some (k4, h4)"
    "tree_at k4 p (Node a p (Node b x c))" "relinked {p} k3 k4"
    using height_m_link [OF l3] ne by auto
  have "relinked ?S kp k1" "relinked ?S k1 k2" "relinked ?S k2 k3" "relinked ?S k3 k4"
    by (auto intro: relinked_mono [OF k1(3)] relinked_mono [OF k2(2)] relinked_mono [OF k3(3)]
      relinked_mono [OF k4(3)])
  then have "relinked ?S kp k4" by (metis relinked_trans)
  then show ?thesis
    using kx kpv(1) k1(1) k2(1) k3(1) k4 by (simp add: rotateRight_def RIGHT_OF_def LEFT_OF_def)
qed

text \<open>A double rotation turns the child first, relinks it and turns the root.\<close>

lemma rotateLeftRight_tree:
  assumes t: "tree_at kp x (Node (Node a p (Node b q c)) x e)"
    and d: "distinct (inorder (Node (Node a p (Node b q c)) x e))"
    and s: "size (Node (Node a p (Node b q c)) x e) \<le> 127"
  shows "\<exists>kp'. rotateLeftRight kp x = Some (kp', q) \<and>
    tree_at kp' q (Node (Node a p b) q (Node c x e)) \<and>
    relinked (set_tree (Node (Node a p (Node b q c)) x e)) kp kp'"
proof -
  let ?S = "set_tree (Node (Node a p (Node b q c)) x e)"
  from t obtain kx where kx: "key_at kp x = Some kx" "kr_left kx = p"
    "tree_at kp p (Node a p (Node b q c))" "tree_at kp (kr_right kx) e"
    by (auto split: option.splits)
  have lp: "link_at kp p a (Node b q c)" using tree_at_Node_link [OF kx(3)] by blast
  obtain k1 where k1: "rotateLeft kp p = Some (k1, q)" "tree_at k1 q (Node (Node a p b) q c)"
    "relinked (set_tree (Node a p (Node b q c))) kp k1"
    using rotateLeft_link [OF lp] d s by auto
  have x1: "key_at k1 x = Some kx" using k1(3) kx(1) d by (auto simp: relinked_def)
  have e1: "tree_at k1 (kr_right kx) e" using relinked_tree [OF k1(3), of e] kx(4) d by auto
  obtain k2 where k2: "set_left k1 x q = Some k2" "link_at k2 x (Node (Node a p b) q c) e" "relinked {x} k1 k2"
    using set_left_link [OF x1 k1(2) e1] d by auto
  obtain k3 where k3: "rotateRight k2 x = Some (k3, q)" "tree_at k3 q (Node (Node a p b) q (Node c x e))"
    "relinked (set_tree (Node (Node (Node a p b) q c) x e)) k2 k3"
    using rotateRight_link [OF k2(2)] d s by auto
  have "relinked ?S kp k1" "relinked ?S k1 k2" "relinked ?S k2 k3"
    by (auto intro: relinked_mono [OF k1(3)] relinked_mono [OF k2(3)] relinked_mono [OF k3(3)])
  then have "relinked ?S kp k3" by (metis relinked_trans)
  then show ?thesis
    using kx(1,2) k1(1) k2(1) k3 by (simp add: rotateLeftRight_def LEFT_OF_def)
qed

lemma rotateRightLeft_tree:
  assumes t: "tree_at kp x (Node e x (Node (Node b q c) p a))"
    and d: "distinct (inorder (Node e x (Node (Node b q c) p a)))"
    and s: "size (Node e x (Node (Node b q c) p a)) \<le> 127"
  shows "\<exists>kp'. rotateRightLeft kp x = Some (kp', q) \<and>
    tree_at kp' q (Node (Node e x b) q (Node c p a)) \<and>
    relinked (set_tree (Node e x (Node (Node b q c) p a))) kp kp'"
proof -
  let ?S = "set_tree (Node e x (Node (Node b q c) p a))"
  from t obtain kx where kx: "key_at kp x = Some kx" "kr_right kx = p"
    "tree_at kp p (Node (Node b q c) p a)" "tree_at kp (kr_left kx) e"
    by (auto split: option.splits)
  have lp: "link_at kp p (Node b q c) a" using tree_at_Node_link [OF kx(3)] by blast
  obtain k1 where k1: "rotateRight kp p = Some (k1, q)" "tree_at k1 q (Node b q (Node c p a))"
    "relinked (set_tree (Node (Node b q c) p a)) kp k1"
    using rotateRight_link [OF lp] d s by auto
  have x1: "key_at k1 x = Some kx" using k1(3) kx(1) d by (auto simp: relinked_def)
  have e1: "tree_at k1 (kr_left kx) e" using relinked_tree [OF k1(3), of e] kx(4) d by auto
  obtain k2 where k2: "set_right k1 x q = Some k2" "link_at k2 x e (Node b q (Node c p a))" "relinked {x} k1 k2"
    using set_right_link [OF x1 e1 k1(2)] d by auto
  obtain k3 where k3: "rotateLeft k2 x = Some (k3, q)" "tree_at k3 q (Node (Node e x b) q (Node c p a))"
    "relinked (set_tree (Node e x (Node b q (Node c p a)))) k2 k3"
    using rotateLeft_link [OF k2(2)] d s by auto
  have "relinked ?S kp k1" "relinked ?S k1 k2" "relinked ?S k2 k3"
    by (auto intro: relinked_mono [OF k1(3)] relinked_mono [OF k2(3)] relinked_mono [OF k3(3)])
  then have "relinked ?S kp k3" by (metis relinked_trans)
  then show ?thesis
    using kx(1,2) k1(1) k2(1) k3 by (simp add: rotateRightLeft_def RIGHT_OF_def)
qed

lemma bfac_shape:
  "bfac t = -2 \<Longrightarrow> \<exists>a x b p c. t = Node a x (Node b p c)"
  "bfac t = 2 \<Longrightarrow> \<exists>a x b p c. t = Node (Node b p c) x a"
  "bfac t = 1 \<Longrightarrow> \<exists>a x b p c. t = Node (Node b p c) x a"
  "bfac t = -1 \<Longrightarrow> \<exists>a x b p c. t = Node a x (Node b p c)"
  by (cases t; cases "left t"; cases "right t"; simp)+

lemma balanceTree_left_heavy:
  assumes t: "tree_at kp r (Node (Node b p c) x a)" and two: "bfac (Node (Node b p c) x a) = 2"
  shows "balanceTree kp r =
    (if bfac (Node b p c) = -1 then rotateLeftRight kp r
     else if bfac (Node b p c) = 1 then rotateRight kp r else Some (kp, r))"
proof -
  have "LEFT_OF kp r = Some p" "tree_at kp p (Node b p c)"
    using t by (auto simp: LEFT_OF_def split: option.splits)
  then show ?thesis
    using balanceFactor_tree [OF t] two by (simp add: balanceTree_def balanceFactor_tree del: tree_at.simps bfac.simps)
qed

lemma balanceTree_right_heavy:
  assumes t: "tree_at kp r (Node a x (Node b p c))" and two: "bfac (Node a x (Node b p c)) = -2"
  shows "balanceTree kp r =
    (if bfac (Node b p c) = -1 then rotateLeft kp r
     else if bfac (Node b p c) = 1 then rotateRightLeft kp r else Some (kp, r))"
proof -
  have "RIGHT_OF kp r = Some p" "tree_at kp p (Node b p c)"
    using t by (auto simp: RIGHT_OF_def split: option.splits)
  then show ?thesis
    using balanceFactor_tree [OF t] two by (simp add: balanceTree_def balanceFactor_tree del: tree_at.simps bfac.simps)
qed

lemma balanceTree_tree:
  assumes t: "tree_at kp r t" and d: "distinct (inorder t)" and s: "size t \<le> 127"
  shows "\<exists>kp' r'. balanceTree kp r = Some (kp', r') \<and> tree_at kp' r' (balance t) \<and>
    relinked (set_tree t) kp kp'"
proof -
  consider (R) "bfac t = -2" | (L) "bfac t = 2" | (N) "bfac t \<noteq> 2" "bfac t \<noteq> -2" by blast
  then show ?thesis
  proof cases
    case N
    with t show ?thesis by (simp add: balanceTree_def balanceFactor_tree balance_def)
  next
    case R
    then obtain a x b p c where tt: "t = Node a x (Node b p c)" using bfac_shape(1) by blast
    have rx: "r = x" "link_at kp x a (Node b p c)" using tree_at_Node_link t tt by blast+
    note bt = balanceTree_right_heavy [OF t [unfolded tt] R [unfolded tt]]
    consider "bfac (Node b p c) = -1" | "bfac (Node b p c) = 1" |
      "bfac (Node b p c) \<noteq> -1" "bfac (Node b p c) \<noteq> 1" by blast
    then show ?thesis
    proof cases
      case 1
      with R tt have "balance t = Node (Node a x b) p c" by (simp add: balance_def)
      with 1 bt rotateLeft_link [OF rx(2) d [unfolded tt] s [unfolded tt]] tt rx(1) show ?thesis by metis
    next
      case 2
      then obtain b1 q b2 where b: "b = Node b1 q b2" by (cases b) auto
      with 2 R tt have "balance t = Node (Node a x b1) q (Node b2 p c)" by (simp add: balance_def)
      with 2 bt rotateRightLeft_tree [of kp x a b1 q b2 p c] t d s tt rx(1) b show ?thesis
        by (metis one_neq_neg_one)
    next
      case 3
      with R tt have "balance t = t" by (simp add: balance_def)
      with 3 bt t show ?thesis by (metis relinked_refl)
    qed
  next
    case L
    then obtain a x b p c where tt: "t = Node (Node b p c) x a" using bfac_shape(2) by blast
    have rx: "r = x" "link_at kp x (Node b p c) a" using tree_at_Node_link t tt by blast+
    note bt = balanceTree_left_heavy [OF t [unfolded tt] L [unfolded tt]]
    consider "bfac (Node b p c) = -1" | "bfac (Node b p c) = 1" |
      "bfac (Node b p c) \<noteq> -1" "bfac (Node b p c) \<noteq> 1" by blast
    then show ?thesis
    proof cases
      case 1
      then obtain c1 q c2 where c: "c = Node c1 q c2" by (cases c) auto
      with 1 L tt have "balance t = Node (Node b p c1) q (Node c2 x a)" by (simp add: balance_def)
      with 1 bt rotateLeftRight_tree [of kp x b p c1 q c2 a] t d s tt rx(1) c show ?thesis by metis
    next
      case 2
      with L tt have "balance t = Node b p (Node c x a)" by (simp add: balance_def)
      with 2 bt rotateRight_link [OF rx(2) d [unfolded tt] s [unfolded tt]] tt rx(1) show ?thesis
        by (metis one_neq_neg_one)
    next
      case 3
      with L tt have "balance t = t" by (simp add: balance_def)
      with 3 bt t show ?thesis by (metis relinked_refl)
    qed
  qed
qed

section \<open>Comparing keys\<close>

definition rec_key :: "key_rec \<Rightarrow> dbkey" where
  "rec_key k = DbKey (take (nat (kr_klen k)) (kr_key k))"

definition rec_ok :: "key_rec \<Rightarrow> bool" where
  "rec_ok k \<longleftrightarrow> length (kr_key k) = MAX_KEY_LENGTH \<and> 0 \<le> kr_klen k \<and> kr_klen k \<le> int MAX_KEY_LENGTH"

definition info_key :: "key_info \<Rightarrow> dbkey" where
  "info_key ki = DbKey (take (nat (ki_klen ki)) (ki_key ki))"

definition info_ok :: "key_info \<Rightarrow> bool" where
  "info_ok ki \<longleftrightarrow> length (ki_key ki) = MAX_KEY_LENGTH \<and> 0 \<le> ki_klen ki \<and> ki_klen ki \<le> int MAX_KEY_LENGTH"

definition key_of :: "key_page \<Rightarrow> int \<Rightarrow> dbkey" where
  "key_of kp i = (case key_at kp i of None \<Rightarrow> DbKey [] | Some k \<Rightarrow> rec_key k)"

lemma keycmp_sign:
  assumes "info_ok ki" "rec_ok k"
  shows "\<exists>c. keycmp ki k = Some c \<and> (c < 0 \<longleftrightarrow> info_key ki < rec_key k) \<and>
    (c = 0 \<longleftrightarrow> info_key ki = rec_key k)"
proof -
  let ?xs = "take (nat (ki_klen ki)) (ki_key ki)" and ?ys = "take (nat (kr_klen k)) (kr_key k)"
  have "int (length ?xs) = ki_klen ki" "int (length ?ys) = kr_klen k"
    using assms by (auto simp: info_ok_def rec_ok_def)
  then have "keycmp ki k = Some (keycmp_bytes ?xs ?ys)"
    using assms by (auto simp: keycmp_def keycmp_bytes_def memcmp_def info_ok_def rec_ok_def Let_def)
  then show ?thesis
    by (simp add: keycmp_bytes_less keycmp_bytes_zero info_key_def rec_key_def)
qed

lemma key_data_key: "key_data k = key_data k' \<Longrightarrow> rec_key k = rec_key k' \<and> rec_ok k = rec_ok k'"
  by (auto simp: key_data_def rec_key_def rec_ok_def)

lemma relinked_key_of:
  assumes "relinked S kp kp'"
  shows "key_of kp' i = key_of kp i"
proof -
  have "map_option key_data (key_at kp' i) = map_option key_data (key_at kp i)"
    using assms by (simp add: relinked_def)
  then show ?thesis
    by (cases "key_at kp i"; cases "key_at kp' i") (auto simp: key_of_def dest: key_data_key)
qed

text \<open>
  The tail every method ends with: the child link is stored, the height of the root is
  recomputed and the subtree balanced.
\<close>

lemma finish_root:
  assumes "link_at kp i lt rt" "distinct (inorder (Node lt i rt))" "size (Node lt i rt) \<le> 127"
  obtains k1 h k2 r' where "height_m kp i = Some (k1, h)" "balanceTree k1 i = Some (k2, r')"
    "tree_at k2 r' (balance (Node lt i rt))" "relinked (set_tree (Node lt i rt)) kp k2"
proof -
  have "Tree.height (Node lt i rt) \<le> 127"
    using assms(3) height_le_size [of "Node lt i rt"] by linarith
  then obtain k1 h where k1: "height_m kp i = Some (k1, h)" "tree_at k1 i (Node lt i rt)" "relinked {i} kp k1"
    using height_m_link [OF assms(1)] assms(2) by auto
  obtain k2 r' where k2: "balanceTree k1 i = Some (k2, r')" "tree_at k2 r' (balance (Node lt i rt))"
    "relinked (set_tree (Node lt i rt)) k1 k2"
    using balanceTree_tree [OF k1(2) assms(2,3)] by blast
  have "relinked (set_tree (Node lt i rt)) kp k1" using k1(3) by (rule relinked_mono) simp
  with k2(3) have "relinked (set_tree (Node lt i rt)) kp k2" by (blast intro: relinked_trans)
  with k1 k2 that show thesis by blast
qed

lemma finish_left:
  assumes "key_at kp i = Some k" "tree_at kp l lt" "tree_at kp (kr_right k) rt"
    "distinct (inorder (Node lt i rt))" "size (Node lt i rt) \<le> 127"
  obtains k0 k1 h k2 r' where "set_left kp i l = Some k0" "height_m k0 i = Some (k1, h)"
    "balanceTree k1 i = Some (k2, r')" "tree_at k2 r' (balance (Node lt i rt))"
    "relinked (set_tree (Node lt i rt)) kp k2"
proof -
  obtain k0 where k0: "set_left kp i l = Some k0" "link_at k0 i lt rt" "relinked {i} kp k0"
    using set_left_link [OF assms(1-3)] assms(4) by auto
  obtain k1 h k2 r' where f: "height_m k0 i = Some (k1, h)" "balanceTree k1 i = Some (k2, r')"
    "tree_at k2 r' (balance (Node lt i rt))" "relinked (set_tree (Node lt i rt)) k0 k2"
    using finish_root [OF k0(2) assms(4,5)] by metis
  have "relinked (set_tree (Node lt i rt)) kp k0" using k0(3) by (rule relinked_mono) simp
  with f(4) have "relinked (set_tree (Node lt i rt)) kp k2" by (blast intro: relinked_trans)
  with k0 f that show thesis by blast
qed

lemma finish_right:
  assumes "key_at kp i = Some k" "tree_at kp (kr_left k) lt" "tree_at kp r rt"
    "distinct (inorder (Node lt i rt))" "size (Node lt i rt) \<le> 127"
  obtains k0 k1 h k2 r' where "set_right kp i r = Some k0" "height_m k0 i = Some (k1, h)"
    "balanceTree k1 i = Some (k2, r')" "tree_at k2 r' (balance (Node lt i rt))"
    "relinked (set_tree (Node lt i rt)) kp k2"
proof -
  obtain k0 where k0: "set_right kp i r = Some k0" "link_at k0 i lt rt" "relinked {i} kp k0"
    using set_right_link [OF assms(1-3)] assms(4) by auto
  obtain k1 h k2 r' where f: "height_m k0 i = Some (k1, h)" "balanceTree k1 i = Some (k2, r')"
    "tree_at k2 r' (balance (Node lt i rt))" "relinked (set_tree (Node lt i rt)) k0 k2"
    using finish_root [OF k0(2) assms(4,5)] by metis
  have "relinked (set_tree (Node lt i rt)) kp k0" using k0(3) by (rule relinked_mono) simp
  with f(4) have "relinked (set_tree (Node lt i rt)) kp k2" by (blast intro: relinked_trans)
  with k0 f that show thesis by blast
qed


section \<open>Insertion refines the tree\<close>

lemma set_tree_t_put:
  "set_tree (t_put K x fr t) = set_tree t \<union> (if t_find K x t = None then set_option fr else {})"
  by (induction t) (auto split: option.splits)

lemma distinct_t_put:
  "distinct (inorder t) \<Longrightarrow> set_option fr \<inter> set_tree t = {} \<Longrightarrow> distinct (inorder (t_put K x fr t))"
proof (induction t)
  case Leaf
  then show ?case by (cases fr) auto
next
  case (Node l j r)
  then show ?case using set_tree_t_put [of K x fr l] set_tree_t_put [of K x fr r]
    by (auto split: if_splits)
qed

lemma size_t_put: "size (t_put K x fr t) \<le> size t + (if fr = None then 0 else 1)"
  by (induction t) (auto split: option.splits)

text \<open>
  The step of an insertion that changes a record: the value offset of the record found, or a
  record taken from the free ones. Everything after it only relinks.
\<close>

definition put_base :: "key_page \<Rightarrow> key_info \<Rightarrow> int option \<Rightarrow> (key_page \<times> int) option" where
  "put_base kp ki fnd =
     (case fnd of Some j \<Rightarrow> Some (upd kp j (kr_voff_update (\<lambda>_. ki_voff ki)), j)
      | None \<Rightarrow> getKeyRecord kp ki)"

definition free_slot :: "key_page \<Rightarrow> int option" where
  "free_slot kp = (if getFree kp < 0 then None else Some (getFree kp))"

definition new_rec :: "key_info \<Rightarrow> key_rec" where
  "new_rec ki = InitKeyRecord\<lparr>kr_flags := KEY_INUSE, kr_klen := ki_klen ki,
     kr_key := take (nat (ki_klen ki)) (ki_key ki) @ replicate (MAX_KEY_LENGTH - nat (ki_klen ki)) 0,
     kr_voff := ki_voff ki\<rparr>"

lemma first_free_spec:
  "length rs + nat i \<le> 32767 \<Longrightarrow> 0 \<le> i \<Longrightarrow>
   (if \<exists>r\<in>set rs. kr_flags r = KEY_FREE
    then \<exists>n < length rs. first_free rs i = i + int n \<and> kr_flags (rs ! n) = KEY_FREE
    else first_free rs i = -1)"
proof (induction rs arbitrary: i)
  case (Cons r rs)
  show ?case
  proof (cases "kr_flags r = KEY_FREE")
    case True
    with Cons.prems show ?thesis by (auto simp: to_short_id intro!: exI [of _ 0])
  next
    case False
    have "length rs + nat (i + 1) \<le> 32767" "0 \<le> i + 1" using Cons.prems by auto
    from Cons.IH [OF this] False show ?thesis
      by (auto split: if_splits intro: exI [of _ "Suc _"])
  qed
qed simp

lemma getFree_cases:
  assumes "length (kp_keys kp) \<le> 32767"
  obtains (full) "getFree kp = -1" "\<And>i k. key_at kp i = Some k \<Longrightarrow> kr_flags k \<noteq> KEY_FREE"
  | (slot) k where "0 \<le> getFree kp" "key_at kp (getFree kp) = Some k" "kr_flags k = KEY_FREE"
proof (cases "\<exists>r\<in>set (kp_keys kp). kr_flags r = KEY_FREE")
  case True
  with first_free_spec [of "kp_keys kp" 0] assms obtain n where
    "n < length (kp_keys kp)" "getFree kp = int n" "kr_flags (kp_keys kp ! n) = KEY_FREE"
    by (auto simp: getFree_def)
  then show thesis by (intro slot [of "kp_keys kp ! n"]) (auto simp: key_at_def)
next
  case False
  then have "getFree kp = -1" using first_free_spec [of "kp_keys kp" 0] assms
    by (auto simp: getFree_def)
  moreover have "key_at kp i = Some k \<Longrightarrow> kr_flags k \<noteq> KEY_FREE" for i k
    using False by (auto simp: key_at_def split: if_splits)
  ultimately show thesis by (rule full)
qed

lemma getKeyRecord_full: "getFree kp = -1 \<Longrightarrow> getKeyRecord kp ki = Some (kp, -1)"
  by (simp add: getKeyRecord_def)

lemma getKeyRecord_slot:
  assumes "info_ok ki" "0 \<le> getFree kp" "key_at kp (getFree kp) = Some k"
  shows "getKeyRecord kp ki =
    Some ((upd kp (getFree kp) (\<lambda>_. new_rec ki))\<lparr>kp_vcount := to_short (kp_vcount kp + 1)\<rparr>, getFree kp)"
proof -
  have "memcpy (replicate MAX_KEY_LENGTH 0) (ki_key ki) (ki_klen ki) =
    Some (take (nat (ki_klen ki)) (ki_key ki) @ replicate (MAX_KEY_LENGTH - nat (ki_klen ki)) 0)"
    using assms(1) by (auto simp: memcpy_def info_ok_def)
  moreover have "to_short (ki_klen ki) = ki_klen ki"
    using assms(1) by (simp add: to_short_id info_ok_def MAX_KEY_LENGTH_def)
  moreover have "kp_vcount (upd kp i f) = kp_vcount kp" for i f by (simp add: upd_def upd_key_def)
  ultimately show ?thesis
    using assms(2,3) by (simp add: getKeyRecord_def heap_simps InitKeyRecord_def new_rec_def Let_def)
qed

lemma tree_at_upd_data:
  assumes "\<And>k. kr_left (f k) = kr_left k" "\<And>k. kr_right (f k) = kr_right k"
    "\<And>k. kr_height (f k) = kr_height k"
  shows "tree_at (upd kp i f) r t = tree_at kp r t"
  using assms by (induction t arbitrary: r) (auto simp: heap_simps split: option.splits)

lemma link_at_upd_data:
  assumes "\<And>k. kr_left (f k) = kr_left k" "\<And>k. kr_right (f k) = kr_right k"
    "\<And>k. kr_height (f k) = kr_height k"
  shows "link_at (upd kp i f) j lt rt = link_at kp j lt rt"
  using assms by (auto simp: link_at_def heap_simps tree_at_upd_data split: option.splits)

text \<open>
  What the proofs rely on of the records a tree holds: they are in use (so no free slot is
  among them) and their keys fit.
\<close>

definition in_use :: "key_page \<Rightarrow> int tree \<Rightarrow> bool" where
  "in_use kp t \<longleftrightarrow>
     (\<forall>i\<in>set_tree t. \<exists>k. key_at kp i = Some k \<and> rec_ok k \<and> kr_flags k = KEY_INUSE)"

lemma free_slot_fresh:
  assumes "in_use kp t" "length (kp_keys kp) \<le> 32767"
  shows "set_option (free_slot kp) \<inter> set_tree t = {}"
  using assms(2)
proof (cases rule: getFree_cases)
  case (slot k)
  with assms(1) have "getFree kp \<notin> set_tree t" by (auto simp: in_use_def KEY_FREE_def KEY_INUSE_def)
  with slot show ?thesis by (simp add: free_slot_def)
qed (simp add: free_slot_def)

lemma put_base_Some:
  assumes "in_use kp t" "info_ok ki" "length (kp_keys kp) \<le> 32767"
  obtains base idx where "put_base kp ki (t_find K x t) = Some (base, idx)"
    "\<forall>i. i \<noteq> idx \<longrightarrow> key_at base i = key_at kp i"
    "\<forall>r s. set_tree s \<subseteq> set_tree t \<longrightarrow> tree_at base r s = tree_at kp r s"
    "\<forall>j. t_find K x t = Some j \<longrightarrow> idx = j"
    "t_find K x t = None \<longrightarrow> idx \<notin> set_tree t"
proof (cases "t_find K x t")
  case (Some i)
  then show thesis
    by (intro that [of "upd kp i (kr_voff_update (\<lambda>_. ki_voff ki))" i])
      (auto simp: put_base_def tree_at_upd_data key_at_upd)
next
  case None
  from assms(3) show thesis
  proof (cases rule: getFree_cases)
    case full
    have "-1 \<notin> set_tree t" using assms(1) by (auto simp: in_use_def)
    then show thesis using None full
      by (intro that [of kp "-1"]) (auto simp: put_base_def getKeyRecord_full)
  next
    case (slot k)
    have fresh: "getFree kp \<notin> set_tree t"
      using free_slot_fresh [OF assms(1,3)] slot by (simp add: free_slot_def)
    let ?base = "(upd kp (getFree kp) (\<lambda>_. new_rec ki))\<lparr>kp_vcount := to_short (kp_vcount kp + 1)\<rparr>"
    have ne: "key_at ?base i = key_at kp i" if "i \<noteq> getFree kp" for i
      using that by (simp add: heap_simps)
    have "tree_at ?base r s = tree_at kp r s" if "set_tree s \<subseteq> set_tree t" for r s
    proof (rule tree_at_cong)
      fix i assume "i \<in> set_tree s"
      with that fresh have "i \<noteq> getFree kp" by auto
      then show "key_at ?base i = key_at kp i" by (rule ne)
    qed
    then show thesis using None fresh ne
      by (intro that [of ?base "getFree kp"])
        (auto simp: put_base_def getKeyRecord_slot [OF assms(2) slot(1,2)])
  qed
qed

lemma KR_put_at_unfold:
  assumes "key_at kp root = Some krec" "keycmp ki krec = Some cmp"
  shows "KR_put_at kp root ki idx = do {
    (kp, idx) \<leftarrow>
      (if cmp < 0 then do {
         (kp, l', idx) \<leftarrow> KR_put_at kp (kr_left krec) ki idx;
         kp \<leftarrow> set_left kp root l';
         Some (kp, idx)
       } else if cmp = 0 then Some (upd kp root (kr_voff_update (\<lambda>_. ki_voff ki)), root)
       else do {
         (kp, r', idx) \<leftarrow> KR_put_at kp (kr_right krec) ki idx;
         kp \<leftarrow> set_right kp root r';
         Some (kp, idx)
       });
    (kp, _) \<leftarrow> height_m kp root;
    (kp, root) \<leftarrow> balanceTree kp root;
    Some (kp, root, idx)
  }"
proof -
  have "root \<noteq> -1" using assms(1) by auto
  then show ?thesis
    using assms by (subst KR_put_at.simps) (simp add: LEFT_OF_def RIGHT_OF_def heap_simps)
qed

text \<open>
  The insertion below \<open>r\<close> returns, its result is the tree \<^term>\<open>t_put\<close> computes, and apart
  from the step \<^term>\<open>put_base\<close> only links inside that tree have changed.
\<close>

definition put_spec :: "key_page \<Rightarrow> key_info \<Rightarrow> int \<Rightarrow> int \<Rightarrow> int tree \<Rightarrow> bool" where
  "put_spec kp ki i0 r t \<longleftrightarrow> (\<exists>base idx kp' r'.
     put_base kp ki (t_find (key_of kp) (info_key ki) t) = Some (base, idx) \<and>
     KR_put_at kp r ki i0 = Some (kp', r', idx) \<and>
     tree_at kp' r' (t_put (key_of kp) (info_key ki) (free_slot kp) t) \<and>
     relinked (set_tree (t_put (key_of kp) (info_key ki) (free_slot kp) t)) base kp')"

definition put_pre :: "key_page \<Rightarrow> key_info \<Rightarrow> int \<Rightarrow> int tree \<Rightarrow> bool" where
  "put_pre kp ki r t \<longleftrightarrow> tree_at kp r t \<and> distinct (inorder t) \<and> in_use kp t \<and> info_ok ki \<and>
     length (kp_keys kp) \<le> 32767 \<and> size t + (if free_slot kp = None then 0 else 1) \<le> 127"

lemma put_pre_Node:
  assumes "put_pre kp ki r (Node lt j rt)"
  obtains k c where "r = j" "key_at kp j = Some k" "key_of kp j = rec_key k"
    "put_pre kp ki (kr_left k) lt" "put_pre kp ki (kr_right k) rt"
    "keycmp ki k = Some c" "c < 0 \<longleftrightarrow> info_key ki < key_of kp j" "c = 0 \<longleftrightarrow> info_key ki = key_of kp j"
proof -
  from assms obtain k where k: "r = j" "key_at kp j = Some k"
    "tree_at kp (kr_left k) lt" "tree_at kp (kr_right k) rt" by (auto simp: put_pre_def split: option.splits)
  then have Kj: "key_of kp j = rec_key k" by (simp add: key_of_def)
  from assms k have "rec_ok k" "info_ok ki" by (auto simp: in_use_def put_pre_def)
  then obtain c where "keycmp ki k = Some c" "c < 0 \<longleftrightarrow> info_key ki < key_of kp j"
    "c = 0 \<longleftrightarrow> info_key ki = key_of kp j"
    using keycmp_sign Kj by metis
  moreover have "put_pre kp ki (kr_left k) lt" "put_pre kp ki (kr_right k) rt"
    using assms k by (auto simp: put_pre_def in_use_def)
  ultimately show thesis using that k Kj by blast
qed

lemma put_spec_left:
  assumes pre: "put_pre kp ki r (Node lt j rt)" and k: "key_at kp j = Some k"
    and c: "keycmp ki k = Some c" "c < 0" and lt: "info_key ki < key_of kp j"
    and IH: "put_spec kp ki i0 (kr_left k) lt"
  shows "put_spec kp ki i0 j (Node lt j rt)"
proof -
  let ?K = "key_of kp" and ?x = "info_key ki" and ?fr = "free_slot kp"
  let ?l' = "t_put ?K ?x ?fr lt"
  note pre = pre [unfolded put_pre_def]
  have fresh: "set_option ?fr \<inter> set_tree (Node lt j rt) = {}" using pre free_slot_fresh by blast
  have dj: "j \<notin> set_tree lt" "set_tree lt \<inter> set_tree rt = {}" "distinct (inorder lt)"
    "distinct (inorder rt)" "j \<notin> set_tree rt" using pre by auto
  from IH obtain base idx k1 l' where I: "put_base kp ki (t_find ?K ?x lt) = Some (base, idx)"
    "KR_put_at kp (kr_left k) ki i0 = Some (k1, l', idx)" "tree_at k1 l' ?l'"
    "relinked (set_tree ?l') base k1" by (auto simp: put_spec_def)
  have fnd: "t_find ?K ?x (Node lt j rt) = t_find ?K ?x lt" using lt by simp
  obtain base' idx' where b: "put_base kp ki (t_find ?K ?x (Node lt j rt)) = Some (base', idx')"
    "\<forall>i. i \<noteq> idx' \<longrightarrow> key_at base' i = key_at kp i"
    "\<forall>r s. set_tree s \<subseteq> set_tree (Node lt j rt) \<longrightarrow> tree_at base' r s = tree_at kp r s"
    "\<forall>i. t_find ?K ?x (Node lt j rt) = Some i \<longrightarrow> idx' = i"
    "t_find ?K ?x (Node lt j rt) = None \<longrightarrow> idx' \<notin> set_tree (Node lt j rt)"
    using put_base_Some [of kp "Node lt j rt" ki ?K ?x] pre by blast
  from I(1) b(1) fnd have eq: "base' = base" "idx' = idx" by simp_all
  have tl: "set_tree ?l' \<subseteq> set_tree lt \<union> set_option ?fr" by (auto simp: set_tree_t_put)
  have jl: "j \<notin> set_tree ?l'" and rl: "set_tree rt \<inter> set_tree ?l' = {}" using tl dj fresh by auto
  have "j \<noteq> idx" using b(4,5) t_find_Some [of ?K ?x lt] fnd dj(1) eq by (cases "t_find ?K ?x lt") auto
  then have kj: "key_at k1 j = Some k" using I(4) jl b(2) k eq by (simp add: relinked_def)
  have tr: "tree_at k1 (kr_right k) rt"
    using relinked_tree [OF I(4) rl] b(3) pre k eq by (auto split: option.splits)
  have "set_option ?fr \<inter> set_tree lt = {}" using fresh by auto
  then have d: "distinct (inorder (Node ?l' j rt))"
    using distinct_t_put [OF dj(3)] jl rl dj by auto
  have "size (Node ?l' j rt) \<le> 127" using pre size_t_put [of ?K ?x ?fr lt] by simp
  from finish_left [OF kj I(3) tr d this]
  obtain k2 k3 h k4 r' where f: "set_left k1 j l' = Some k2" "height_m k2 j = Some (k3, h)"
    "balanceTree k3 j = Some (k4, r')" "tree_at k4 r' (balance (Node ?l' j rt))"
    "relinked (set_tree (Node ?l' j rt)) k1 k4" by metis
  have "relinked (set_tree (Node ?l' j rt)) base k4"
    using relinked_trans [OF relinked_mono [OF I(4)] f(5)] by auto
  with f I(1,2) lt c(2) show ?thesis by (auto simp: put_spec_def KR_put_at_unfold [OF k c(1)])
qed

lemma put_spec_right:
  assumes pre: "put_pre kp ki r (Node lt j rt)" and k: "key_at kp j = Some k"
    and c: "keycmp ki k = Some c" "c > 0" and gt: "\<not> info_key ki < key_of kp j" "info_key ki \<noteq> key_of kp j"
    and IH: "put_spec kp ki i0 (kr_right k) rt"
  shows "put_spec kp ki i0 j (Node lt j rt)"
proof -
  let ?K = "key_of kp" and ?x = "info_key ki" and ?fr = "free_slot kp"
  let ?r' = "t_put ?K ?x ?fr rt"
  note pre = pre [unfolded put_pre_def]
  have fresh: "set_option ?fr \<inter> set_tree (Node lt j rt) = {}" using pre free_slot_fresh by blast
  have dj: "j \<notin> set_tree rt" "set_tree lt \<inter> set_tree rt = {}" "distinct (inorder rt)"
    "distinct (inorder lt)" "j \<notin> set_tree lt" using pre by auto
  from IH obtain base idx k1 l' where I: "put_base kp ki (t_find ?K ?x rt) = Some (base, idx)"
    "KR_put_at kp (kr_right k) ki i0 = Some (k1, l', idx)" "tree_at k1 l' ?r'"
    "relinked (set_tree ?r') base k1" by (auto simp: put_spec_def)
  have fnd: "t_find ?K ?x (Node lt j rt) = t_find ?K ?x rt" using gt by simp
  obtain base' idx' where b: "put_base kp ki (t_find ?K ?x (Node lt j rt)) = Some (base', idx')"
    "\<forall>i. i \<noteq> idx' \<longrightarrow> key_at base' i = key_at kp i"
    "\<forall>r s. set_tree s \<subseteq> set_tree (Node lt j rt) \<longrightarrow> tree_at base' r s = tree_at kp r s"
    "\<forall>i. t_find ?K ?x (Node lt j rt) = Some i \<longrightarrow> idx' = i"
    "t_find ?K ?x (Node lt j rt) = None \<longrightarrow> idx' \<notin> set_tree (Node lt j rt)"
    using put_base_Some [of kp "Node lt j rt" ki ?K ?x] pre by blast
  from I(1) b(1) fnd have eq: "base' = base" "idx' = idx" by simp_all
  have tl: "set_tree ?r' \<subseteq> set_tree rt \<union> set_option ?fr" by (auto simp: set_tree_t_put)
  have jl: "j \<notin> set_tree ?r'" and rl: "set_tree lt \<inter> set_tree ?r' = {}" using tl dj fresh by auto
  have "j \<noteq> idx" using b(4,5) t_find_Some [of ?K ?x rt] fnd dj(1) eq by (cases "t_find ?K ?x rt") auto
  then have kj: "key_at k1 j = Some k" using I(4) jl b(2) k eq by (simp add: relinked_def)
  have tr: "tree_at k1 (kr_left k) lt"
    using relinked_tree [OF I(4) rl] b(3) pre k eq by (auto split: option.splits)
  have "set_option ?fr \<inter> set_tree rt = {}" using fresh by auto
  then have d: "distinct (inorder (Node lt j ?r'))"
    using distinct_t_put [OF dj(3)] jl rl dj by auto
  have "size (Node lt j ?r') \<le> 127" using pre size_t_put [of ?K ?x ?fr rt] by simp
  from finish_right [OF kj tr I(3) d this]
  obtain k2 k3 h k4 r' where f: "set_right k1 j l' = Some k2" "height_m k2 j = Some (k3, h)"
    "balanceTree k3 j = Some (k4, r')" "tree_at k4 r' (balance (Node lt j ?r'))"
    "relinked (set_tree (Node lt j ?r')) k1 k4" by metis
  have "relinked (set_tree (Node lt j ?r')) base k4"
    using relinked_trans [OF relinked_mono [OF I(4)] f(5)] by auto
  with f I(1,2) gt c(2) show ?thesis by (auto simp: put_spec_def KR_put_at_unfold [OF k c(1)])
qed

lemma put_spec_here:
  assumes pre: "put_pre kp ki r (Node lt j rt)" and k: "key_at kp j = Some k"
    and c: "keycmp ki k = Some 0" and eq: "info_key ki = key_of kp j"
  shows "put_spec kp ki i0 j (Node lt j rt)"
proof -
  let ?u = "upd kp j (kr_voff_update (\<lambda>_. ki_voff ki))"
  note pre = pre [unfolded put_pre_def]
  have "link_at ?u j lt rt"
    using pre tree_at_Node_link [of kp r lt j rt] by (simp add: link_at_upd_data del: tree_at.simps)
  moreover have "size (Node lt j rt) \<le> 127" using pre by simp
  ultimately obtain k1 h k2 r' where "height_m ?u j = Some (k1, h)" "balanceTree k1 j = Some (k2, r')"
    "tree_at k2 r' (balance (Node lt j rt))" "relinked (set_tree (Node lt j rt)) ?u k2"
    using finish_root pre by metis
  with eq show ?thesis by (auto simp: put_spec_def KR_put_at_unfold [OF k c] put_base_def)
qed

lemma put_spec_Leaf:
  assumes "put_pre kp ki r Leaf"
  shows "put_spec kp ki i0 r Leaf"
proof -
  from assms have r: "r = -1" and "info_ok ki" by (auto simp: put_pre_def)
  from assms have "length (kp_keys kp) \<le> 32767" by (simp add: put_pre_def)
  then show ?thesis
  proof (cases rule: getFree_cases)
    case full
    with r show ?thesis unfolding put_spec_def
      by (subst KR_put_at.simps)
        (simp add: put_base_def getKeyRecord_full free_slot_def balanceTree_def balanceFactor_def)
  next
    case (slot k)
    let ?f = "getFree kp"
    let ?base = "(upd kp ?f (\<lambda>_. new_rec ki))\<lparr>kp_vcount := to_short (kp_vcount kp + 1)\<rparr>"
    have "key_at ?base ?f = Some (new_rec ki)" using slot by (simp add: heap_simps)
    then have t: "tree_at ?base ?f (Node Leaf ?f Leaf)" by (simp add: new_rec_def InitKeyRecord_def)
    then have "balanceTree ?base ?f = Some (?base, ?f)"
      using balanceFactor_tree [OF t] by (simp add: balanceTree_def)
    with t slot r getKeyRecord_slot [OF \<open>info_ok ki\<close> slot(1,2)] show ?thesis
      unfolding put_spec_def
      by (subst KR_put_at.simps) (auto simp: put_base_def free_slot_def simp del: tree_at.simps)
  qed
qed

lemma KR_put_at_tree: "put_pre kp ki r t \<Longrightarrow> put_spec kp ki i0 r t"
proof (induction t arbitrary: r)
  case Leaf
  then show ?case by (rule put_spec_Leaf)
next
  case (Node lt j rt)
  from put_pre_Node [OF Node.prems] obtain k c where k: "r = j" "key_at kp j = Some k"
    "put_pre kp ki (kr_left k) lt" "put_pre kp ki (kr_right k) rt" and c: "keycmp ki k = Some c"
    "c < 0 \<longleftrightarrow> info_key ki < key_of kp j" "c = 0 \<longleftrightarrow> info_key ki = key_of kp j" by metis
  note step = put_spec_left [OF Node.prems k(2) c(1) _ _ Node.IH(1) [OF k(3)]]
    put_spec_right [OF Node.prems k(2) c(1) _ _ _ Node.IH(2) [OF k(4)]]
    put_spec_here [OF Node.prems k(2)]
  show ?case
    using c step k(1) by (cases "c < 0"; cases "c = 0") auto
qed

section \<open>Removal refines the tree\<close>

lemma set_tree_t_removeMax:
  "t_max t = Some m \<Longrightarrow> distinct (inorder t) \<Longrightarrow>
   set_tree (t_removeMax t) = set_tree t - {m} \<and> m \<in> set_tree t \<and>
   distinct (inorder (t_removeMax t)) \<and> size (t_removeMax t) < size t"
proof -
  assume a: "t_max t = Some m" "distinct (inorder t)"
  note io = inorder_t_removeMax [OF a(1)]
  from a io have "m \<notin> set (inorder (t_removeMax t))" "distinct (inorder (t_removeMax t))" by auto
  moreover from arg_cong [OF io, of set] have "set_tree t = insert m (set_tree (t_removeMax t))" by simp
  moreover from arg_cong [OF io, of length] have "size t = Suc (size (t_removeMax t))" by simp
  ultimately show ?thesis by auto
qed

lemma set_tree_t_removeMin:
  "t_min t = Some m \<Longrightarrow> distinct (inorder t) \<Longrightarrow>
   set_tree (t_removeMin t) = set_tree t - {m} \<and> m \<in> set_tree t \<and>
   distinct (inorder (t_removeMin t)) \<and> size (t_removeMin t) < size t"
proof -
  assume a: "t_min t = Some m" "distinct (inorder t)"
  note io = inorder_t_removeMin [OF a(1)]
  from a io have "m \<notin> set (inorder (t_removeMin t))" "distinct (inorder (t_removeMin t))" by auto
  moreover from arg_cong [OF io, of set] have "set_tree t = insert m (set_tree (t_removeMin t))" by simp
  moreover from arg_cong [OF io, of length] have "size t = Suc (size (t_removeMin t))" by simp
  ultimately show ?thesis by auto
qed

lemma set_tree_t_remove:
  assumes "distinct (inorder t)"
  shows "set_tree (t_remove K x t) = set_tree t - (case t_freed K x t of None \<Rightarrow> {} | Some (j, m) \<Rightarrow> {m}) \<and>
    distinct (inorder (t_remove K x t)) \<and> size (t_remove K x t) \<le> size t \<and>
    (\<forall>j m. t_freed K x t = Some (j, m) \<longrightarrow> j \<in> set_tree t \<and> m \<in> set_tree t \<and>
       size t = Suc (size (t_remove K x t)))"
proof (cases "t_freed K x t")
  case None
  then have "inorder (t_remove K x t) = inorder t" by (simp add: t_freed_None t_remove_absent)
  then show ?thesis using None assms by (metis (no_types) Diff_empty length_inorder option.distinct(1) option.simps(4) order_refl set_inorder)
next
  case (Some jm)
  obtain j m where jm: "jm = (j, m)" by force
  with t_remove_present [of K x t j m] Some obtain ps qs where
    io: "(m = j \<and> inorder t = ps @ j # qs \<and> inorder (t_remove K x t) = ps @ qs) \<or>
         (inorder t = ps @ m # j # qs \<and> inorder (t_remove K x t) = ps @ j # qs)" by auto
  have s1: "set_tree (t_remove K x t) = set (inorder (t_remove K x t))"
    "set_tree t = set (inorder t)" "size t = length (inorder t)"
    "size (t_remove K x t) = length (inorder (t_remove K x t))" by simp_all
  from io show ?thesis unfolding s1 using assms Some jm by (auto simp del: set_inorder length_inorder)
qed

definition free_rec :: "key_page \<Rightarrow> int \<Rightarrow> key_page" where
  "free_rec kp i = (upd kp i (\<lambda>_. InitKeyRecord))\<lparr>kp_vcount := to_short (kp_vcount kp - 1)\<rparr>"

definition copy_rec :: "key_page \<Rightarrow> int \<Rightarrow> int \<Rightarrow> key_page" where
  "copy_rec kp j m = (case key_at kp m of None \<Rightarrow> kp | Some mrec \<Rightarrow>
     upd kp j (\<lambda>r. r\<lparr>kr_key := take (nat (kr_klen mrec)) (kr_key mrec) @ drop (nat (kr_klen mrec)) (kr_key r),
       kr_klen := kr_klen mrec, kr_voff := kr_voff mrec\<rparr>))"

lemma kp_vcount_upd [simp]: "kp_vcount (upd kp i f) = kp_vcount kp"
  by (simp add: upd_def upd_key_def)

lemma freeKeyRecord_Some: "key_at kp i = Some k \<Longrightarrow> freeKeyRecord kp i = Some (free_rec kp i)"
  by (simp add: freeKeyRecord_def free_rec_def heap_simps)

lemma key_at_free_rec [heap_simps]:
  "key_at (free_rec kp i) j = (if j = i then map_option (\<lambda>_. InitKeyRecord) (key_at kp i) else key_at kp j)"
  by (simp add: free_rec_def heap_simps)

lemma tree_at_free_rec: "i \<notin> set_tree t \<Longrightarrow> tree_at (free_rec kp i) r t = tree_at kp r t"
  by (rule tree_at_cong) (auto simp: heap_simps)

text \<open>Recomputing the height of a well-formed subtree and balancing it.\<close>

lemma finish_tree:
  assumes "tree_at kp r t" "distinct (inorder t)" "size t \<le> 127"
  obtains k1 h k2 r' where "height_m kp r = Some (k1, h)" "balanceTree k1 r = Some (k2, r')"
    "tree_at k2 r' (balance t)" "relinked (set_tree t) kp k2"
proof (cases t)
  case Leaf
  with assms have "height_m kp r = Some (kp, 0)" "balanceTree kp r = Some (kp, r)" "balance t = t"
    by (auto simp: height_m_def balanceTree_def balanceFactor_def balance_def)
  with that assms(1) show thesis by (metis relinked_refl)
next
  case (Node lt i rt)
  with assms(1) tree_at_Node_link have "r = i" "link_at kp i lt rt" by blast+
  with finish_root [of kp i lt rt] assms(2,3) Node that show thesis by metis
qed

lemma maxKey_tree: "tree_at kp r t \<Longrightarrow> t_max t = Some m \<Longrightarrow> maxKey kp r = Some m"
proof (induction t arbitrary: r)
  case (Node lt j rt)
  then obtain k where k: "r = j" "key_at kp j = Some k" "tree_at kp (kr_right k) rt"
    by (auto split: option.splits)
  then have "j \<noteq> -1" by auto
  show ?case
  proof (cases rt)
    case Leaf
    with Node.prems k \<open>j \<noteq> -1\<close> show ?thesis by (subst maxKey.simps) (simp add: RIGHT_OF_def)
  next
    case (Node a i b)
    with k have "kr_right k \<noteq> -1" by (auto split: option.splits)
    with Node Node.IH(2) [OF k(3)] Node.prems k \<open>j \<noteq> -1\<close> show ?thesis
      by (subst maxKey.simps) (simp add: RIGHT_OF_def)
  qed
qed simp

lemma minKey_tree: "tree_at kp r t \<Longrightarrow> t_min t = Some m \<Longrightarrow> minKey kp r = Some m"
proof (induction t arbitrary: r)
  case (Node lt j rt)
  then obtain k where k: "r = j" "key_at kp j = Some k" "tree_at kp (kr_left k) lt"
    by (auto split: option.splits)
  then have "j \<noteq> -1" by auto
  show ?case
  proof (cases lt)
    case Leaf
    with Node.prems k \<open>j \<noteq> -1\<close> show ?thesis by (subst minKey.simps) (simp add: LEFT_OF_def)
  next
    case (Node a i b)
    with k have "kr_left k \<noteq> -1" by (auto split: option.splits)
    with Node Node.IH(1) [OF k(3)] Node.prems k \<open>j \<noteq> -1\<close> show ?thesis
      by (subst minKey.simps) (simp add: LEFT_OF_def)
  qed
qed simp

lemma removeMax_tree:
  "tree_at kp r t \<Longrightarrow> t_max t = Some m \<Longrightarrow> distinct (inorder t) \<Longrightarrow> size t \<le> 127 \<Longrightarrow>
   \<exists>kp' r'. removeMax kp r i0 = Some (kp', r', m) \<and> tree_at kp' r' (t_removeMax t) \<and>
     relinked (set_tree (t_removeMax t)) (free_rec kp m) kp'"
proof (induction t arbitrary: r)
  case (Node lt j rt)
  then obtain k where k: "r = j" "key_at kp j = Some k" "tree_at kp (kr_left k) lt" "tree_at kp (kr_right k) rt"
    by (auto split: option.splits)
  then have "j \<noteq> -1" by auto
  have dj: "j \<notin> set_tree lt" "j \<notin> set_tree rt" "set_tree lt \<inter> set_tree rt = {}"
    "distinct (inorder lt)" "distinct (inorder rt)" using Node.prems by auto
  show ?case
  proof (cases "rt = Leaf")
    case True
    then have "kr_right k = -1" "m = j" using k(4) Node.prems(2) by auto
    moreover have "tree_at (free_rec kp j) (kr_left k) lt" "size lt \<le> 127"
      using k(3) dj(1) Node.prems(4) by (simp_all add: tree_at_free_rec)
    then obtain k1 h k2 r' where "height_m (free_rec kp j) (kr_left k) = Some (k1, h)"
      "balanceTree k1 (kr_left k) = Some (k2, r')" "tree_at k2 r' (balance lt)"
      "relinked (set_tree lt) (free_rec kp j) k2"
      using finish_tree [OF _ dj(4)] by metis
    ultimately show ?thesis using True k \<open>j \<noteq> -1\<close>
      by (subst removeMax.simps) (simp add: RIGHT_OF_def LEFT_OF_def freeKeyRecord_Some)
  next
    case False
    then have nr: "kr_right k \<noteq> -1" using k(4) by (cases rt) (auto split: option.splits)
    have m: "t_max rt = Some m" using Node.prems(2) False by simp
    note sm = set_tree_t_removeMax [OF m dj(5)]
    obtain k1 l' where I: "removeMax kp (kr_right k) i0 = Some (k1, l', m)" "tree_at k1 l' (t_removeMax rt)"
      "relinked (set_tree (t_removeMax rt)) (free_rec kp m) k1"
      using Node.IH(2) [OF k(4) m dj(5)] Node.prems(4) by auto
    have "j \<noteq> m" "m \<notin> set_tree lt" "set_tree lt \<inter> set_tree (t_removeMax rt) = {}" "j \<notin> set_tree (t_removeMax rt)"
      using sm dj by auto
    then have kj: "key_at k1 j = Some k" and tl: "tree_at k1 (kr_left k) lt"
      using I(3) k(2,3) relinked_tree [OF I(3), of lt]
      by (auto simp: relinked_def heap_simps tree_at_free_rec)
    have d: "distinct (inorder (Node lt j (t_removeMax rt)))" "size (Node lt j (t_removeMax rt)) \<le> 127"
      using sm dj Node.prems(4) by auto
    from finish_right [OF kj tl I(2) d] obtain k2 k3 h k4 r' where f: "set_right k1 j l' = Some k2"
      "height_m k2 j = Some (k3, h)" "balanceTree k3 j = Some (k4, r')"
      "tree_at k4 r' (balance (Node lt j (t_removeMax rt)))"
      "relinked (set_tree (Node lt j (t_removeMax rt))) k1 k4" by metis
    have "relinked (set_tree (Node lt j (t_removeMax rt))) (free_rec kp m) k4"
      using relinked_trans [OF relinked_mono [OF I(3)] f(5)] by auto
    with f I(1) False nr k \<open>j \<noteq> -1\<close> show ?thesis
      by (subst removeMax.simps) (auto simp: RIGHT_OF_def)
  qed
qed simp


lemma removeMin_tree:
  "tree_at kp r t \<Longrightarrow> t_min t = Some m \<Longrightarrow> distinct (inorder t) \<Longrightarrow> size t \<le> 127 \<Longrightarrow>
   \<exists>kp' r'. removeMin kp r i0 = Some (kp', r', m) \<and> tree_at kp' r' (t_removeMin t) \<and>
     relinked (set_tree (t_removeMin t)) (free_rec kp m) kp'"
proof (induction t arbitrary: r)
  case (Node lt j rt)
  then obtain k where k: "r = j" "key_at kp j = Some k" "tree_at kp (kr_left k) lt" "tree_at kp (kr_right k) rt"
    by (auto split: option.splits)
  then have "j \<noteq> -1" by auto
  have dj: "j \<notin> set_tree lt" "j \<notin> set_tree rt" "set_tree lt \<inter> set_tree rt = {}"
    "distinct (inorder lt)" "distinct (inorder rt)" using Node.prems by auto
  show ?case
  proof (cases "lt = Leaf")
    case True
    then have "kr_left k = -1" "m = j" using k(3) Node.prems(2) by auto
    moreover have "tree_at (free_rec kp j) (kr_right k) rt" "size rt \<le> 127"
      using k(4) dj(2) Node.prems(4) by (simp_all add: tree_at_free_rec)
    then obtain k1 h k2 r' where "height_m (free_rec kp j) (kr_right k) = Some (k1, h)"
      "balanceTree k1 (kr_right k) = Some (k2, r')" "tree_at k2 r' (balance rt)"
      "relinked (set_tree rt) (free_rec kp j) k2"
      using finish_tree [OF _ dj(5)] by metis
    ultimately show ?thesis using True k \<open>j \<noteq> -1\<close>
      by (subst removeMin.simps) (simp add: RIGHT_OF_def LEFT_OF_def freeKeyRecord_Some)
  next
    case False
    then have nr: "kr_left k \<noteq> -1" using k(3) by (cases lt) (auto split: option.splits)
    have m: "t_min lt = Some m" using Node.prems(2) False by simp
    note sm = set_tree_t_removeMin [OF m dj(4)]
    obtain k1 l' where I: "removeMin kp (kr_left k) i0 = Some (k1, l', m)" "tree_at k1 l' (t_removeMin lt)"
      "relinked (set_tree (t_removeMin lt)) (free_rec kp m) k1"
      using Node.IH(1) [OF k(3) m dj(4)] Node.prems(4) by auto
    have "j \<noteq> m" "m \<notin> set_tree rt" "set_tree rt \<inter> set_tree (t_removeMin lt) = {}" "j \<notin> set_tree (t_removeMin lt)"
      using sm dj by auto
    then have kj: "key_at k1 j = Some k" and tr: "tree_at k1 (kr_right k) rt"
      using I(3) k(2,4) relinked_tree [OF I(3), of rt]
      by (auto simp: relinked_def heap_simps tree_at_free_rec)
    have d: "distinct (inorder (Node (t_removeMin lt) j rt))" "size (Node (t_removeMin lt) j rt) \<le> 127"
      using sm dj Node.prems(4) by auto
    from finish_left [OF kj I(2) tr d] obtain k2 k3 h k4 r' where f: "set_left k1 j l' = Some k2"
      "height_m k2 j = Some (k3, h)" "balanceTree k3 j = Some (k4, r')"
      "tree_at k4 r' (balance (Node (t_removeMin lt) j rt))"
      "relinked (set_tree (Node (t_removeMin lt) j rt)) k1 k4" by metis
    have "relinked (set_tree (Node (t_removeMin lt) j rt)) (free_rec kp m) k4"
      using relinked_trans [OF relinked_mono [OF I(3)] f(5)] by auto
    with f I(1) False nr k \<open>j \<noteq> -1\<close> show ?thesis
      by (subst removeMin.simps) (auto simp: LEFT_OF_def)
  qed
qed simp

definition rem_base :: "key_page \<Rightarrow> int \<Rightarrow> (int \<times> int) option \<Rightarrow> key_page \<times> int" where
  "rem_base kp i0 fr =
     (case fr of None \<Rightarrow> (kp, i0)
      | Some (j, m) \<Rightarrow> (free_rec (if m = j then kp else copy_rec kp j m) m, m))"

lemma key_at_copy_rec:
  "i \<noteq> j \<Longrightarrow> key_at (copy_rec kp j m) i = key_at kp i"
  by (simp add: copy_rec_def heap_simps split: option.splits)

lemma rem_base_frame:
  "i \<notin> (case fr of None \<Rightarrow> {} | Some (j, m) \<Rightarrow> {j, m}) \<Longrightarrow> key_at (fst (rem_base kp i0 fr)) i = key_at kp i"
  by (auto simp: rem_base_def heap_simps key_at_copy_rec split: option.splits prod.splits)

lemma KR_remove_at_Leaf: "KR_remove_at kp (-1) ki i0 = Some (kp, -1, i0)"
  by (subst KR_remove_at.simps) (simp add: balanceTree_def balanceFactor_def)

lemma KR_remove_at_unfold:
  assumes "key_at kp root = Some krec" "keycmp ki krec = Some cmp"
  shows "KR_remove_at kp root ki idx = do {
    (kp, root, idx) \<leftarrow>
      (if cmp < 0 then do {
         (kp, l', idx) \<leftarrow> KR_remove_at kp (kr_left krec) ki idx;
         kp \<leftarrow> set_left kp root l';
         Some (kp, root, idx)
       } else if cmp = 0 then
         (if kr_left krec = -1 then Some (free_rec kp root, kr_right krec, root)
          else if kr_right krec = -1 then Some (free_rec kp root, kr_left krec, root)
          else do {
            m \<leftarrow> maxKey kp (kr_left krec);
            mrec \<leftarrow> key_at kp m;
            buf \<leftarrow> memcpy (kr_key krec) (kr_key mrec) (kr_klen mrec);
            kp \<leftarrow> upd_key kp root (\<lambda>r. r\<lparr>kr_key := buf, kr_klen := kr_klen mrec,
                                             kr_voff := kr_voff mrec\<rparr>);
            (kp, l', idx) \<leftarrow> removeMax kp (kr_left krec) idx;
            kp \<leftarrow> set_left kp root l';
            Some (kp, root, idx)
          })
       else do {
         (kp, r', idx) \<leftarrow> KR_remove_at kp (kr_right krec) ki idx;
         kp \<leftarrow> set_right kp root r';
         Some (kp, root, idx)
       });
    (kp, _) \<leftarrow> height_m kp root;
    (kp, root) \<leftarrow> balanceTree kp root;
    Some (kp, root, idx)
  }"
proof -
  have "root \<noteq> -1" using assms(1) by auto
  then show ?thesis
    using assms
    by (subst KR_remove_at.simps)
      (simp add: LEFT_OF_def RIGHT_OF_def freeKeyRecord_Some split_def)
qed

definition rem_spec :: "key_page \<Rightarrow> key_info \<Rightarrow> int \<Rightarrow> int \<Rightarrow> int tree \<Rightarrow> bool" where
  "rem_spec kp ki i0 r t \<longleftrightarrow> (\<exists>kp' r'.
     let (base, idx) = rem_base kp i0 (t_freed (key_of kp) (info_key ki) t) in
     KR_remove_at kp r ki i0 = Some (kp', r', idx) \<and>
     tree_at kp' r' (t_remove (key_of kp) (info_key ki) t) \<and>
     relinked (set_tree (t_remove (key_of kp) (info_key ki) t)) base kp')"

definition rem_pre :: "key_page \<Rightarrow> key_info \<Rightarrow> int \<Rightarrow> int tree \<Rightarrow> bool" where
  "rem_pre kp ki r t \<longleftrightarrow> tree_at kp r t \<and> distinct (inorder t) \<and> in_use kp t \<and> info_ok ki \<and> size t \<le> 127"

lemma rem_pre_Node:
  assumes "rem_pre kp ki r (Node lt j rt)"
  obtains k c where "r = j" "key_at kp j = Some k" "key_of kp j = rec_key k" "rec_ok k"
    "rem_pre kp ki (kr_left k) lt" "rem_pre kp ki (kr_right k) rt"
    "keycmp ki k = Some c" "c < 0 \<longleftrightarrow> info_key ki < key_of kp j" "c = 0 \<longleftrightarrow> info_key ki = key_of kp j"
proof -
  from assms obtain k where k: "r = j" "key_at kp j = Some k"
    "tree_at kp (kr_left k) lt" "tree_at kp (kr_right k) rt" by (auto simp: rem_pre_def split: option.splits)
  then have Kj: "key_of kp j = rec_key k" by (simp add: key_of_def)
  from assms k have ok: "rec_ok k" "info_ok ki" by (auto simp: in_use_def rem_pre_def)
  then obtain c where "keycmp ki k = Some c" "c < 0 \<longleftrightarrow> info_key ki < key_of kp j"
    "c = 0 \<longleftrightarrow> info_key ki = key_of kp j"
    using keycmp_sign Kj by metis
  moreover have "rem_pre kp ki (kr_left k) lt" "rem_pre kp ki (kr_right k) rt"
    using assms k by (auto simp: rem_pre_def in_use_def)
  ultimately show thesis using that k Kj ok by blast
qed

lemma rem_spec_left:
  assumes pre: "rem_pre kp ki r (Node lt j rt)" and k: "key_at kp j = Some k"
    and c: "keycmp ki k = Some c" "c < 0" and lt: "info_key ki < key_of kp j"
    and IH: "rem_spec kp ki i0 (kr_left k) lt"
  shows "rem_spec kp ki i0 j (Node lt j rt)"
proof -
  let ?K = "key_of kp" and ?x = "info_key ki"
  let ?l' = "t_remove ?K ?x lt"
  note pre = pre [unfolded rem_pre_def]
  have dj: "j \<notin> set_tree lt" "set_tree lt \<inter> set_tree rt = {}" "distinct (inorder lt)"
    "distinct (inorder rt)" "j \<notin> set_tree rt" using pre by auto
  obtain base idx where b: "rem_base kp i0 (t_freed ?K ?x lt) = (base, idx)" by force
  from IH b obtain k1 l' where I: "KR_remove_at kp (kr_left k) ki i0 = Some (k1, l', idx)"
    "tree_at k1 l' ?l'" "relinked (set_tree ?l') base k1" by (auto simp: rem_spec_def)
  note sl = set_tree_t_remove [OF dj(3), of ?K ?x]
  have fr: "key_at base i = key_at kp i" if "i \<notin> set_tree lt" for i
    using rem_base_frame [of i "t_freed ?K ?x lt" kp i0] b sl that by (auto split: option.splits)
  have jl: "j \<notin> set_tree ?l'" and rl: "set_tree rt \<inter> set_tree ?l' = {}" using sl dj by auto
  have kj: "key_at k1 j = Some k" using I(3) jl fr dj(1) k by (simp add: relinked_def)
  have "tree_at base (kr_right k) rt = tree_at kp (kr_right k) rt"
    by (rule tree_at_cong) (use fr dj(2) in blast)
  then have tr: "tree_at k1 (kr_right k) rt"
    using relinked_tree [OF I(3) rl] pre k by (auto split: option.splits)
  have d: "distinct (inorder (Node ?l' j rt))" "size (Node ?l' j rt) \<le> 127" using sl jl rl dj pre by auto
  from finish_left [OF kj I(2) tr d]
  obtain k2 k3 h k4 r' where f: "set_left k1 j l' = Some k2" "height_m k2 j = Some (k3, h)"
    "balanceTree k3 j = Some (k4, r')" "tree_at k4 r' (balance (Node ?l' j rt))"
    "relinked (set_tree (Node ?l' j rt)) k1 k4" by metis
  have "relinked (set_tree (Node ?l' j rt)) base k4"
    using relinked_trans [OF relinked_mono [OF I(3)] f(5)] by auto
  with f I(1) b lt c(2) show ?thesis by (auto simp: rem_spec_def KR_remove_at_unfold [OF k c(1)])
qed

lemma rem_spec_right:
  assumes pre: "rem_pre kp ki r (Node lt j rt)" and k: "key_at kp j = Some k"
    and c: "keycmp ki k = Some c" "c > 0" and gt: "\<not> info_key ki < key_of kp j" "info_key ki \<noteq> key_of kp j"
    and IH: "rem_spec kp ki i0 (kr_right k) rt"
  shows "rem_spec kp ki i0 j (Node lt j rt)"
proof -
  let ?K = "key_of kp" and ?x = "info_key ki"
  let ?r' = "t_remove ?K ?x rt"
  note pre = pre [unfolded rem_pre_def]
  have dj: "j \<notin> set_tree rt" "set_tree lt \<inter> set_tree rt = {}" "distinct (inorder rt)"
    "distinct (inorder lt)" "j \<notin> set_tree lt" using pre by auto
  obtain base idx where b: "rem_base kp i0 (t_freed ?K ?x rt) = (base, idx)" by force
  from IH b obtain k1 l' where I: "KR_remove_at kp (kr_right k) ki i0 = Some (k1, l', idx)"
    "tree_at k1 l' ?r'" "relinked (set_tree ?r') base k1" by (auto simp: rem_spec_def)
  note sl = set_tree_t_remove [OF dj(3), of ?K ?x]
  have fr: "key_at base i = key_at kp i" if "i \<notin> set_tree rt" for i
    using rem_base_frame [of i "t_freed ?K ?x rt" kp i0] b sl that by (auto split: option.splits)
  have jl: "j \<notin> set_tree ?r'" and rl: "set_tree lt \<inter> set_tree ?r' = {}" using sl dj by auto
  have kj: "key_at k1 j = Some k" using I(3) jl fr dj(1) k by (simp add: relinked_def)
  have "tree_at base (kr_left k) lt = tree_at kp (kr_left k) lt"
    by (rule tree_at_cong) (use fr dj(2) in blast)
  then have tr: "tree_at k1 (kr_left k) lt"
    using relinked_tree [OF I(3) rl] pre k by (auto split: option.splits)
  have d: "distinct (inorder (Node lt j ?r'))" "size (Node lt j ?r') \<le> 127" using sl jl rl dj pre by auto
  from finish_right [OF kj tr I(2) d]
  obtain k2 k3 h k4 r' where f: "set_right k1 j l' = Some k2" "height_m k2 j = Some (k3, h)"
    "balanceTree k3 j = Some (k4, r')" "tree_at k4 r' (balance (Node lt j ?r'))"
    "relinked (set_tree (Node lt j ?r')) k1 k4" by metis
  have "relinked (set_tree (Node lt j ?r')) base k4"
    using relinked_trans [OF relinked_mono [OF I(3)] f(5)] by auto
  with f I(1) b gt c(2) show ?thesis by (auto simp: rem_spec_def KR_remove_at_unfold [OF k c(1)])
qed

text \<open>The key is found at a node with at most one child: the child takes its place.\<close>

lemma rem_spec_unlink:
  assumes pre: "rem_pre kp ki r (Node lt j rt)" and k: "key_at kp j = Some k"
    and c: "keycmp ki k = Some 0" and eq: "info_key ki = key_of kp j"
    and one: "lt = Leaf \<or> rt = Leaf"
  shows "rem_spec kp ki i0 j (Node lt j rt)"
proof -
  note pre = pre [unfolded rem_pre_def]
  let ?s = "if lt = Leaf then rt else lt" and ?q = "if lt = Leaf then kr_right k else kr_left k"
  have lr: "tree_at kp (kr_left k) lt" "tree_at kp (kr_right k) rt" using pre k by auto
  then have nl: "kr_left k = -1 \<longleftrightarrow> lt = Leaf" "kr_right k = -1 \<longleftrightarrow> rt = Leaf"
    by (cases lt; cases rt; auto split: option.splits)+
  have "tree_at (free_rec kp j) ?q ?s" "distinct (inorder ?s)" "size ?s \<le> 127"
    using lr pre by (auto simp: tree_at_free_rec)
  then obtain k1 h k2 r' where "height_m (free_rec kp j) ?q = Some (k1, h)"
    "balanceTree k1 ?q = Some (k2, r')" "tree_at k2 r' (balance ?s)"
    "relinked (set_tree ?s) (free_rec kp j) k2"
    using finish_tree by metis
  with one nl eq show ?thesis
    by (cases "lt = Leaf") (auto simp: rem_spec_def rem_base_def KR_remove_at_unfold [OF k c])
qed

text \<open>
  The key is found at a node with two children: the record of the largest key to its left is
  copied over it, and that record is the one given up.
\<close>

lemma rem_spec_replace:
  assumes pre: "rem_pre kp ki r (Node lt j rt)" and k: "key_at kp j = Some k"
    and c: "keycmp ki k = Some 0" and eq: "info_key ki = key_of kp j"
    and two: "lt \<noteq> Leaf" "rt \<noteq> Leaf"
  shows "rem_spec kp ki i0 j (Node lt j rt)"
proof -
  note pre = pre [unfolded rem_pre_def]
  have dj: "j \<notin> set_tree lt" "set_tree lt \<inter> set_tree rt = {}" "distinct (inorder lt)"
    "distinct (inorder rt)" "j \<notin> set_tree rt" using pre by auto
  have lr: "tree_at kp (kr_left k) lt" "tree_at kp (kr_right k) rt" using pre k by auto
  with two have nl: "kr_left k \<noteq> -1" "kr_right k \<noteq> -1"
    by (cases lt; cases rt; auto split: option.splits)+
  obtain m where m: "t_max lt = Some m" using t_max_exists two by blast
  note sm = set_tree_t_removeMax [OF m dj(3)]
  obtain mrec where mrec: "key_at kp m = Some mrec" "rec_ok mrec" and okk: "rec_ok k"
  proof -
    have "m \<in> set_tree (Node lt j rt)" "j \<in> set_tree (Node lt j rt)" using sm by auto
    with pre show thesis using k by (metis in_use_def option.inject that)
  qed
  let ?c = "copy_rec kp j m"
  let ?u = "k\<lparr>kr_key := take (nat (kr_klen mrec)) (kr_key mrec) @ drop (nat (kr_klen mrec)) (kr_key k),
       kr_klen := kr_klen mrec, kr_voff := kr_voff mrec\<rparr>"
  have mc: "memcpy (kr_key k) (kr_key mrec) (kr_klen mrec) = Some (kr_key ?u)"
    using mrec(2) okk by (auto simp: memcpy_def rec_ok_def)
  have cj: "key_at ?c j = Some ?u" using mrec(1) k by (simp add: copy_rec_def heap_simps)
  have cu: "upd_key kp j (\<lambda>r. r\<lparr>kr_key := kr_key ?u, kr_klen := kr_klen mrec, kr_voff := kr_voff mrec\<rparr>) = Some ?c"
    using mrec(1) k by (auto simp: copy_rec_def upd_def upd_key_def key_at_def split: if_splits)
  have cl: "tree_at ?c (kr_left k) lt" "tree_at ?c (kr_right k) rt"
    using lr dj by (auto simp: copy_rec_def heap_simps split: option.splits)
  obtain k1 l' where I: "removeMax ?c (kr_left k) i0 = Some (k1, l', m)" "tree_at k1 l' (t_removeMax lt)"
    "relinked (set_tree (t_removeMax lt)) (free_rec ?c m) k1"
  proof -
    have "size lt \<le> 127" using pre by auto
    with removeMax_tree [OF cl(1) m dj(3)] show thesis using that by blast
  qed
  have ne: "j \<noteq> m" "m \<notin> set_tree rt" "set_tree rt \<inter> set_tree (t_removeMax lt) = {}" "j \<notin> set_tree (t_removeMax lt)"
    using sm dj by auto
  then have kj: "key_at k1 j = Some ?u" and tr: "tree_at k1 (kr_right ?u) rt"
    using I(3) cj cl(2) relinked_tree [OF I(3), of rt] by (auto simp: relinked_def heap_simps tree_at_free_rec)
  have d: "distinct (inorder (Node (t_removeMax lt) j rt))" "size (Node (t_removeMax lt) j rt) \<le> 127"
    using sm dj pre by auto
  from finish_left [OF kj I(2) tr d] obtain k2 k3 h k4 r' where f: "set_left k1 j l' = Some k2"
    "height_m k2 j = Some (k3, h)" "balanceTree k3 j = Some (k4, r')"
    "tree_at k4 r' (balance (Node (t_removeMax lt) j rt))"
    "relinked (set_tree (Node (t_removeMax lt) j rt)) k1 k4" by metis
  have "relinked (set_tree (Node (t_removeMax lt) j rt)) (free_rec ?c m) k4"
    using relinked_trans [OF relinked_mono [OF I(3)] f(5)] by auto
  moreover have "rem_base kp i0 (t_freed (key_of kp) (info_key ki) (Node lt j rt)) = (free_rec ?c m, m)"
    using eq two m ne(1) by (simp add: rem_base_def)
  moreover have "KR_remove_at kp j ki i0 = Some (k4, r', m)"
    using maxKey_tree [OF lr(1) m] mrec(1) mc cu nl I(1) f by (simp add: KR_remove_at_unfold [OF k c])
  ultimately show ?thesis using f(4) eq two by (auto simp: rem_spec_def)
qed

lemma KR_remove_at_tree: "rem_pre kp ki r t \<Longrightarrow> rem_spec kp ki i0 r t"
proof (induction t arbitrary: r)
  case Leaf
  then show ?case by (simp add: rem_spec_def rem_pre_def rem_base_def KR_remove_at_Leaf)
next
  case (Node lt j rt)
  from rem_pre_Node [OF Node.prems] obtain k c where k: "r = j" "key_at kp j = Some k"
    "rem_pre kp ki (kr_left k) lt" "rem_pre kp ki (kr_right k) rt" and c: "keycmp ki k = Some c"
    "c < 0 \<longleftrightarrow> info_key ki < key_of kp j" "c = 0 \<longleftrightarrow> info_key ki = key_of kp j" by metis
  note step = rem_spec_left [OF Node.prems k(2) c(1) _ _ Node.IH(1) [OF k(3)]]
    rem_spec_right [OF Node.prems k(2) c(1) _ _ _ Node.IH(2) [OF k(4)]]
    rem_spec_unlink [OF Node.prems k(2)] rem_spec_replace [OF Node.prems k(2)]
  show ?case
    using c step k(1) by (cases "c < 0"; cases "c = 0"; cases "lt = Leaf \<or> rt = Leaf") auto
qed

end
