(* ===== verification/Key_Page_Map.thy ===== *)
theory Key_Page_Map
  imports Key_Tree
begin

text \<open>
  A key page as a finite map from keys to value offsets. \<open>page_rep kp t\<close> is the invariant of
  \<^verbatim>\<open>KeyRecords\<close>: the links form a search tree \<open>t\<close> of exactly the slots in use, and
  \<^verbatim>\<open>kp_vcount\<close> counts them. \<open>get\<close>, \<open>put\<close> and \<open>remove\<close> keep it and are lookup, update and
  deletion on the map \<open>kp_map\<close>.
\<close>

section \<open>The invariant and the abstraction\<close>

definition slot_used :: "key_page \<Rightarrow> int \<Rightarrow> bool" where
  "slot_used kp i \<longleftrightarrow> (case key_at kp i of None \<Rightarrow> False | Some k \<Rightarrow> kr_flags k = KEY_INUSE)"

definition recs_ok :: "key_page \<Rightarrow> bool" where
  "recs_ok kp \<longleftrightarrow> (\<forall>k\<in>set (kp_keys kp). rec_ok k \<and> (kr_flags k = KEY_FREE \<or> kr_flags k = KEY_INUSE))"

definition page_rep :: "key_page \<Rightarrow> int tree \<Rightarrow> bool" where
  "page_rep kp t \<longleftrightarrow>
     tree_at kp (kp_root kp) t \<and> t_sorted (key_of kp) t \<and>
     set_tree t = {i. slot_used kp i} \<and> recs_ok kp \<and>
     kp_vcount kp = int (size t) \<and> length (kp_keys kp) \<le> 127"

definition page_ok :: "key_page \<Rightarrow> bool" where
  "page_ok kp \<longleftrightarrow> (\<exists>t. page_rep kp t)"

definition kp_map :: "key_page \<Rightarrow> dbkey \<Rightarrow> offset option" where
  "kp_map kp =
     map_of (map (\<lambda>k. (rec_key k, kr_voff k)) (filter (\<lambda>k. kr_flags k = KEY_INUSE) (kp_keys kp)))"

definition entry :: "key_page \<Rightarrow> int \<Rightarrow> dbkey \<Rightarrow> offset \<Rightarrow> bool" where
  "entry kp i x v \<longleftrightarrow>
     (\<exists>k. key_at kp i = Some k \<and> kr_flags k = KEY_INUSE \<and> rec_key k = x \<and> kr_voff k = v)"

lemma entry_used: "entry kp i x v \<Longrightarrow> slot_used kp i \<and> key_of kp i = x"
  by (auto simp: entry_def slot_used_def key_of_def)

lemma slot_used_entry: "slot_used kp i \<Longrightarrow> \<exists>v. entry kp i (key_of kp i) v"
  by (auto simp: entry_def slot_used_def key_of_def split: option.splits)

lemma entry_set:
  "(\<exists>i. entry kp i x v) \<longleftrightarrow>
     (x, v) \<in> set (map (\<lambda>k. (rec_key k, kr_voff k)) (filter (\<lambda>k. kr_flags k = KEY_INUSE) (kp_keys kp)))"
proof -
  have "(\<exists>i. entry kp i x v) \<longleftrightarrow>
    (\<exists>k\<in>set (kp_keys kp). kr_flags k = KEY_INUSE \<and> rec_key k = x \<and> kr_voff k = v)" (is "?l \<longleftrightarrow> ?r")
  proof
    assume ?l
    then show ?r by (auto simp: entry_def key_at_def split: if_splits)
  next
    assume ?r
    then obtain n where "n < length (kp_keys kp)" "kr_flags (kp_keys kp ! n) = KEY_INUSE"
      "rec_key (kp_keys kp ! n) = x" "kr_voff (kp_keys kp ! n) = v"
      by (auto simp: in_set_conv_nth)
    then have "entry kp (int n) x v" by (simp add: entry_def key_at_def)
    then show ?l ..
  qed
  then show ?thesis by auto
qed

lemma map_of_functional:
  "(\<And>v w. (x, v) \<in> set xs \<Longrightarrow> (x, w) \<in> set xs \<Longrightarrow> v = w) \<Longrightarrow> map_of xs x = Some v \<longleftrightarrow> (x, v) \<in> set xs"
  by (metis map_of_SomeD weak_map_of_SomeI)

lemma page_rep_inj:
  assumes "page_rep kp t" "entry kp i x v" "entry kp j x w"
  shows "i = j \<and> v = w"
proof -
  have "i \<in> set_tree t" "j \<in> set_tree t" "key_of kp i = key_of kp j"
    using assms by (auto simp: page_rep_def dest!: entry_used)
  then have "i = j" using t_sorted_inj assms(1) unfolding page_rep_def by (metis inj_onD)
  with assms show ?thesis by (auto simp: entry_def)
qed

lemma kp_map_iff:
  assumes "page_rep kp t"
  shows "kp_map kp x = Some v \<longleftrightarrow> (\<exists>i. entry kp i x v)"
  unfolding kp_map_def entry_set
  by (rule map_of_functional) (use page_rep_inj [OF assms] in \<open>metis entry_set\<close>)

text \<open>Two pages with the same entries up to a change of the map denote that changed map.\<close>

lemma kp_map_eqI:
  assumes "page_rep kp t" "\<And>x v. m x = Some v \<longleftrightarrow> (\<exists>i. entry kp i x v)"
  shows "kp_map kp = m"
proof
  fix x
  show "kp_map kp x = m x"
    using assms(2) [of x] kp_map_iff [OF assms(1), of x] by (metis not_None_eq)
qed

lemma entry_relinked: "relinked S kp kp' \<Longrightarrow> entry kp' i x v = entry kp i x v"
proof -
  assume "relinked S kp kp'"
  then have "map_option key_data (key_at kp' i) = map_option key_data (key_at kp i)"
    by (simp add: relinked_def)
  then show ?thesis
    by (cases "key_at kp i"; cases "key_at kp' i")
      (auto simp: entry_def key_data_def rec_key_def)
qed

lemma recs_ok_iff:
  "recs_ok kp \<longleftrightarrow>
     (\<forall>i k. key_at kp i = Some k \<longrightarrow> rec_ok k \<and> (kr_flags k = KEY_FREE \<or> kr_flags k = KEY_INUSE))"
  (is "_ \<longleftrightarrow> ?r")
proof
  assume ?r
  have "rec_ok k \<and> (kr_flags k = KEY_FREE \<or> kr_flags k = KEY_INUSE)" if "k \<in> set (kp_keys kp)" for k
  proof -
    from that obtain n where "n < length (kp_keys kp)" "k = kp_keys kp ! n" by (auto simp: in_set_conv_nth)
    then have "key_at kp (int n) = Some k" by (simp add: key_at_def)
    with \<open>?r\<close> show ?thesis by blast
  qed
  then show "recs_ok kp" by (simp add: recs_ok_def)
qed (auto simp: recs_ok_def key_at_def split: if_splits)

lemma page_rep_in_use: "page_rep kp t \<Longrightarrow> in_use kp t"
  by (auto simp: page_rep_def in_use_def recs_ok_iff slot_used_def split: option.splits)

lemma size_slots: "distinct (inorder t) \<Longrightarrow> size t = card (set_tree t)"
  by (metis distinct_card length_inorder set_inorder)

lemma card_slots: "(\<And>i. i \<in> S \<Longrightarrow> key_at kp i \<noteq> None) \<Longrightarrow> card S \<le> length (kp_keys kp)"
proof -
  assume a: "\<And>i. i \<in> S \<Longrightarrow> key_at kp i \<noteq> None"
  have "i \<in> {0..<int (length (kp_keys kp))}" if "i \<in> S" for i
    using a [OF that] by (auto simp: key_at_def split: if_splits)
  then have "card S \<le> card {0..<int (length (kp_keys kp))}" by (intro card_mono) auto
  then show ?thesis by simp
qed

lemma page_rep_distinct: "page_rep kp t \<Longrightarrow> distinct (inorder t)"
  using t_sorted_inj by (auto simp: page_rep_def)

lemma page_rep_size:
  assumes "page_rep kp t"
  shows "size t \<le> length (kp_keys kp)"
proof -
  have "card (set_tree t) \<le> length (kp_keys kp)"
    by (rule card_slots) (use assms in \<open>auto simp: page_rep_def slot_used_def split: option.splits\<close>)
  then show ?thesis using size_slots page_rep_distinct [OF assms] by metis
qed

lemma page_rep_size_free:
  assumes "page_rep kp t" "key_at kp i = Some k" "kr_flags k = KEY_FREE"
  shows "size t < length (kp_keys kp)"
proof -
  have "card (insert i (set_tree t)) \<le> length (kp_keys kp)"
    by (rule card_slots) (use assms in \<open>auto simp: page_rep_def slot_used_def split: option.splits\<close>)
  moreover have "i \<notin> set_tree t"
    using assms by (auto simp: page_rep_def slot_used_def KEY_FREE_def KEY_INUSE_def)
  ultimately show ?thesis using size_slots page_rep_distinct [OF assms(1)]
    by (simp add: size_slots)
qed

text \<open>
  The invariant after an operation, from the invariant of the page \<open>base\<close> it has before it
  relinks: slots, keys and data are those of \<open>base\<close>.
\<close>

lemma slot_used_relinked: "relinked S kp kp' \<Longrightarrow> slot_used kp' i = slot_used kp i"
  by (metis entry_relinked entry_used slot_used_entry)

lemma recs_ok_relinked:
  assumes "relinked S kp kp'"
  shows "recs_ok kp' = recs_ok kp"
proof -
  have "(\<forall>k. key_at kp' i = Some k \<longrightarrow> rec_ok k \<and> (kr_flags k = KEY_FREE \<or> kr_flags k = KEY_INUSE)) \<longleftrightarrow>
     (\<forall>k. key_at kp i = Some k \<longrightarrow> rec_ok k \<and> (kr_flags k = KEY_FREE \<or> kr_flags k = KEY_INUSE))" for i
  proof -
    have "map_option key_data (key_at kp' i) = map_option key_data (key_at kp i)"
      using assms by (simp add: relinked_def)
    then show ?thesis
      by (cases "key_at kp i"; cases "key_at kp' i") (simp_all add: key_data_def rec_ok_def)
  qed
  then show ?thesis unfolding recs_ok_iff by blast
qed

lemma tree_at_root [simp]: "tree_at (kp\<lparr>kp_root := r'\<rparr>) r t = tree_at kp r t"
  by (rule tree_at_cong) (simp add: heap_simps)

lemma page_rep_relinked:
  assumes "relinked S base kp'" "tree_at kp' r' t'" "t_sorted (key_of base) t'"
    "set_tree t' = {i. slot_used base i}" "recs_ok base" "kp_vcount base = int (size t')"
    "length (kp_keys base) \<le> 127"
  shows "page_rep (kp'\<lparr>kp_root := r'\<rparr>) t'"
proof -
  have hdr: "key_of (kp'\<lparr>kp_root := r'\<rparr>) = key_of base" "slot_used (kp'\<lparr>kp_root := r'\<rparr>) = slot_used base"
    "recs_ok (kp'\<lparr>kp_root := r'\<rparr>) = recs_ok base"
    using relinked_key_of [OF assms(1)] slot_used_relinked [OF assms(1)] recs_ok_relinked [OF assms(1)]
    by (auto simp: fun_eq_iff key_of_def slot_used_def recs_ok_iff key_at_hdr)
  have "kp_vcount kp' = kp_vcount base" "length (kp_keys kp') = length (kp_keys base)"
    using assms(1) unfolding relinked_def by (metis key_page.select_convs(2) key_page.surjective key_page.update_convs(7))+
  with assms hdr show ?thesis by (simp add: page_rep_def)
qed

lemma entry_root [simp]: "entry (kp\<lparr>kp_root := r\<rparr>) i x v = entry kp i x v"
  by (simp add: entry_def heap_simps)

section \<open>Lookup\<close>

lemma KR_get_from_tree:
  "rem_pre kp ki r t \<Longrightarrow>
   KR_get_from kp r ki = Some (case t_find (key_of kp) (info_key ki) t of None \<Rightarrow> -1 | Some j \<Rightarrow> j)"
proof (induction t arbitrary: r)
  case Leaf
  then show ?case by (subst KR_get_from.simps) (simp add: rem_pre_def)
next
  case (Node lt j rt)
  from rem_pre_Node [OF Node.prems] obtain k c where k: "r = j" "key_at kp j = Some k"
    "rem_pre kp ki (kr_left k) lt" "rem_pre kp ki (kr_right k) rt" and c: "keycmp ki k = Some c"
    "c < 0 \<longleftrightarrow> info_key ki < key_of kp j" "c = 0 \<longleftrightarrow> info_key ki = key_of kp j" by metis
  moreover have "j \<noteq> -1" using k(2) by auto
  ultimately show ?case
    using Node.IH(1) [OF k(3)] Node.IH(2) [OF k(4)]
    by (subst KR_get_from.simps) (simp add: LEFT_OF_def RIGHT_OF_def)
qed

lemma page_rem_pre: "page_rep kp t \<Longrightarrow> info_ok ki \<Longrightarrow> rem_pre kp ki (kp_root kp) t"
  using page_rep_in_use page_rep_distinct page_rep_size
  by (fastforce simp: rem_pre_def page_rep_def)

lemma page_find:
  assumes "page_rep kp t"
  shows "t_find (key_of kp) x t = Some j \<longleftrightarrow> (\<exists>v. entry kp j x v)"
proof -
  have "t_find (key_of kp) x t = Some j \<longleftrightarrow> slot_used kp j \<and> key_of kp j = x"
    using assms t_find_iff by (fastforce simp: page_rep_def)
  then show ?thesis by (metis entry_used slot_used_entry)
qed

lemma KR_get_find:
  "page_rep kp t \<Longrightarrow> info_ok ki \<Longrightarrow>
   KR_get kp ki = Some (case t_find (key_of kp) (info_key ki) t of None \<Rightarrow> -1 | Some j \<Rightarrow> j)"
  by (simp add: KR_get_def KR_get_from_tree page_rem_pre)

lemma page_find_None:
  assumes "page_rep kp t"
  shows "t_find (key_of kp) x t = None \<longleftrightarrow> kp_map kp x = None"
  using page_find [OF assms] kp_map_iff [OF assms] by (metis not_None_eq)

section \<open>Insertion\<close>

lemma page_put_pre:
  assumes "page_rep kp t" "info_ok ki"
  shows "put_pre kp ki (kp_root kp) t"
proof -
  have len: "length (kp_keys kp) \<le> 127" using assms by (simp add: page_rep_def)
  then have "length (kp_keys kp) \<le> 32767" by simp
  then have "size t + (if free_slot kp = None then 0 else 1) \<le> 127"
  proof (cases rule: getFree_cases)
    case full
    then show ?thesis using page_rep_size [OF assms(1)] len by (simp add: free_slot_def)
  next
    case (slot k)
    then show ?thesis using page_rep_size_free [OF assms(1)] len by (fastforce simp: free_slot_def)
  qed
  then show ?thesis
    using assms page_rep_in_use page_rep_distinct len by (auto simp: put_pre_def page_rep_def)
qed

text \<open>The part of a page the three operations never write: its header but root and count.\<close>

definition kp_frame :: "key_page \<Rightarrow> int \<times> int \<times> offset \<times> offset \<times> nat" where
  "kp_frame kp = (kp_flags kp, kp_hash kp, kp_poff kp, kp_noff kp, length (kp_keys kp))"

lemma kp_frame_relinked: "relinked S kp kp' \<Longrightarrow> kp_frame (kp'\<lparr>kp_root := r\<rparr>) = kp_frame kp"
  by (cases kp; cases kp') (simp add: relinked_def kp_frame_def)

lemma kp_frame_upd [simp]: "kp_frame (upd kp i f) = kp_frame kp" "kp_frame (kp\<lparr>kp_vcount := v\<rparr>) = kp_frame kp"
  by (simp_all add: kp_frame_def upd_def upd_key_def)

text \<open>What the operation does, once its effect on the base page is known.\<close>

lemma KR_put_base:
  assumes "page_rep kp t" "info_ok ki"
    "put_base kp ki (t_find (key_of kp) (info_key ki) t) = Some (base, idx)"
    "t_sorted (key_of base) (t_put (key_of kp) (info_key ki) (free_slot kp) t)"
    "set_tree (t_put (key_of kp) (info_key ki) (free_slot kp) t) = {i. slot_used base i}"
    "recs_ok base" "kp_vcount base = int (size (t_put (key_of kp) (info_key ki) (free_slot kp) t))"
    "kp_frame base = kp_frame kp"
  shows "\<exists>kp'. KR_put kp ki = Some (kp', idx) \<and> kp_frame kp' = kp_frame kp \<and>
    page_rep kp' (t_put (key_of kp) (info_key ki) (free_slot kp) t) \<and> entry kp' = entry base"
proof -
  let ?t = "t_put (key_of kp) (info_key ki) (free_slot kp) t"
  from KR_put_at_tree [OF page_put_pre [OF assms(1,2)]] assms(3) obtain kp' r' where
    r: "KR_put_at kp (kp_root kp) ki (-1) = Some (kp', r', idx)" "tree_at kp' r' ?t"
      "relinked (set_tree ?t) base kp'"
    unfolding put_spec_def by (metis (no_types) option.inject prod.inject)
  have "length (kp_keys base) \<le> 127" using assms(1,8) by (simp add: page_rep_def kp_frame_def)
  with page_rep_relinked [OF r(3,2) assms(4,5,6,7)] have "page_rep (kp'\<lparr>kp_root := r'\<rparr>) ?t" .
  moreover have "entry (kp'\<lparr>kp_root := r'\<rparr>) = entry base"
    using entry_relinked [OF r(3)] by (simp add: fun_eq_iff)
  ultimately show ?thesis
    using r(1) kp_frame_relinked [OF r(3)] assms(8) by (simp add: KR_put_def)
qed

lemma KR_put_found:
  assumes "page_rep kp t" "info_ok ki" "t_find (key_of kp) (info_key ki) t = Some j"
  shows "\<exists>kp'. KR_put kp ki = Some (kp', j) \<and> kp_frame kp' = kp_frame kp \<and> kp_vcount kp' = kp_vcount kp \<and>
    page_rep kp' (t_put (key_of kp) (info_key ki) (free_slot kp) t) \<and>
    (\<forall>i x v. entry kp' i x v \<longleftrightarrow> (if i = j then x = info_key ki \<and> v = ki_voff ki else entry kp i x v))"
proof -
  let ?base = "upd kp j (kr_voff_update (\<lambda>_. ki_voff ki))" and
    ?t = "t_put (key_of kp) (info_key ki) (free_slot kp) t"
  from assms page_find obtain v where "entry kp j (info_key ki) v" by blast
  then obtain k where k: "key_at kp j = Some k" "kr_flags k = KEY_INUSE" "rec_key k = info_key ki"
    by (auto simp: entry_def)
  have io: "inorder ?t = inorder t" by (rule t_put_present [OF assms(3)])
  then have st: "set_tree ?t = set_tree t" "size ?t = size t"
    by (metis set_inorder, metis length_inorder)
  have same: "key_of ?base = key_of kp" "slot_used ?base = slot_used kp" "recs_ok ?base = recs_ok kp"
    using k by (auto simp: fun_eq_iff key_of_def slot_used_def recs_ok_iff key_at_upd rec_key_def rec_ok_def)
  have "\<exists>kp'. KR_put kp ki = Some (kp', j) \<and> kp_frame kp' = kp_frame kp \<and> page_rep kp' ?t \<and> entry kp' = entry ?base"
  proof (rule KR_put_base [OF assms(1,2)])
    show "put_base kp ki (t_find (key_of kp) (info_key ki) t) = Some (?base, j)"
      by (simp add: put_base_def assms(3))
  qed (use assms(1) st io same in \<open>simp_all add: page_rep_def\<close>)
  moreover have "entry ?base i x v \<longleftrightarrow> (if i = j then x = info_key ki \<and> v = ki_voff ki else entry kp i x v)" for i x v
    using k by (auto simp: entry_def key_at_upd rec_key_def)
  moreover have "kp_vcount kp = int (size ?t)" using assms(1) st by (simp add: page_rep_def)
  ultimately show ?thesis by (auto simp: page_rep_def)
qed

lemma rec_new_rec:
  assumes "info_ok ki"
  shows "rec_key (new_rec ki) = info_key ki \<and> rec_ok (new_rec ki) \<and> kr_flags (new_rec ki) = KEY_INUSE \<and>
    kr_voff (new_rec ki) = ki_voff ki"
  using assms by (auto simp: new_rec_def rec_key_def info_key_def rec_ok_def info_ok_def InitKeyRecord_def)

lemma KR_put_new:
  assumes "page_rep kp t" "info_ok ki" "t_find (key_of kp) (info_key ki) t = None" "free_slot kp = Some i"
  shows "\<exists>kp'. KR_put kp ki = Some (kp', i) \<and> kp_frame kp' = kp_frame kp \<and> kp_vcount kp' = kp_vcount kp + 1 \<and>
    page_rep kp' (t_put (key_of kp) (info_key ki) (free_slot kp) t) \<and> \<not> slot_used kp i \<and>
    (\<forall>n x v. entry kp' n x v \<longleftrightarrow> (if n = i then x = info_key ki \<and> v = ki_voff ki else entry kp n x v))"
proof -
  let ?t = "t_put (key_of kp) (info_key ki) (Some i) t"
  have len: "length (kp_keys kp) \<le> 127" using assms(1) by (simp add: page_rep_def)
  have g: "getFree kp = i" "0 \<le> getFree kp" using assms(4) by (auto simp: free_slot_def split: if_splits)
  have "length (kp_keys kp) \<le> 32767" using len by simp
  then obtain k where k: "key_at kp i = Some k" "kr_flags k = KEY_FREE"
    by (cases rule: getFree_cases) (use g in auto)
  have sz: "size t < 127" using page_rep_size_free [OF assms(1) k] len by simp
  have vc: "to_short (kp_vcount kp + 1) = kp_vcount kp + 1"
    using sz assms(1) by (simp add: to_short_id page_rep_def)
  define base where "base = (upd kp i (\<lambda>_. new_rec ki))\<lparr>kp_vcount := kp_vcount kp + 1\<rparr>"
  have pb: "put_base kp ki (t_find (key_of kp) (info_key ki) t) = Some (base, i)"
    using getKeyRecord_slot [OF assms(2), of kp k] k g vc assms(3) by (simp add: put_base_def base_def)
  have kb: "key_at base n = (if n = i then Some (new_rec ki) else key_at kp n)" for n
    using k(1) by (simp add: base_def heap_simps)
  note nr = rec_new_rec [OF assms(2)]
  have un: "\<not> slot_used kp i" using k by (simp add: slot_used_def KEY_FREE_def KEY_INUSE_def)
  then have ni: "i \<notin> set_tree t" using assms(1) by (simp add: page_rep_def)
  have srt: "t_sorted (key_of kp) t" using assms(1) by (simp add: page_rep_def)
  from t_put_absent [OF srt assms(3)] obtain ps qs where io: "inorder t = ps @ qs"
    "inorder ?t = ps @ i # qs" and lt: "\<forall>p\<in>set ps. key_of kp p < info_key ki" "\<forall>q\<in>set qs. info_key ki < key_of kp q"
    by metis
  have ko: "key_of base n = (if n = i then info_key ki else key_of kp n)" for n
    using nr by (simp add: key_of_def kb)
  have "i \<notin> set ps \<union> set qs" using ni io(1) by (metis set_append set_inorder)
  then have mk: "map (key_of base) (ps @ i # qs) = map (key_of kp) ps @ info_key ki # map (key_of kp) qs"
    by (auto simp: ko)
  have s1: "t_sorted (key_of base) ?t"
    unfolding io(2) mk using srt lt by (auto simp: sorted_wrt_append io(1))
  have st: "set_tree ?t = insert i (set_tree t)" "size ?t = Suc (size t)"
    using set_tree_t_put [of "key_of kp" "info_key ki" "Some i" t] assms(3)
    by (auto simp: length_inorder [symmetric] io simp del: length_inorder)
  have "\<exists>kp'. KR_put kp ki = Some (kp', i) \<and> kp_frame kp' = kp_frame kp \<and>
    page_rep kp' (t_put (key_of kp) (info_key ki) (free_slot kp) t) \<and> entry kp' = entry base"
  proof (rule KR_put_base [OF assms(1,2) pb], unfold assms(4))
    show "set_tree ?t = {n. slot_used base n}"
      using st assms(1) nr by (auto simp: page_rep_def slot_used_def kb)
    show "recs_ok base" using assms(1) nr by (auto simp: page_rep_def recs_ok_iff kb)
    show "kp_vcount base = int (size ?t)" using st assms(1) by (simp add: base_def page_rep_def)
  qed (use s1 in \<open>simp_all add: base_def\<close>)
  moreover have "entry base n x v \<longleftrightarrow> (if n = i then x = info_key ki \<and> v = ki_voff ki else entry kp n x v)" for n x v
    using nr by (auto simp: entry_def kb)
  moreover have "int (size (t_put (key_of kp) (info_key ki) (free_slot kp) t)) = kp_vcount kp + 1"
    using assms(1,4) st by (simp add: page_rep_def)
  ultimately show ?thesis using un by (auto simp: page_rep_def)
qed

lemma KR_put_full:
  assumes "page_rep kp t" "info_ok ki" "t_find (key_of kp) (info_key ki) t = None" "free_slot kp = None"
  shows "\<exists>kp'. KR_put kp ki = Some (kp', -1) \<and> kp_frame kp' = kp_frame kp \<and> kp_vcount kp' = kp_vcount kp \<and>
    page_rep kp' (t_put (key_of kp) (info_key ki) (free_slot kp) t) \<and> entry kp' = entry kp"
proof -
  let ?t = "t_put (key_of kp) (info_key ki) None t"
  have "length (kp_keys kp) \<le> 32767" using assms(1) by (simp add: page_rep_def)
  then have "getFree kp = -1"
    by (cases rule: getFree_cases) (use assms(4) in \<open>auto simp: free_slot_def split: if_splits\<close>)
  then have pb: "put_base kp ki (t_find (key_of kp) (info_key ki) t) = Some (kp, -1)"
    by (simp add: put_base_def assms(3) getKeyRecord_full)
  have io: "inorder ?t = inorder t" by (rule t_put_full)
  then have st: "set_tree ?t = set_tree t" "size ?t = size t" by (metis set_inorder, metis length_inorder)
  have "\<exists>kp'. KR_put kp ki = Some (kp', -1) \<and> kp_frame kp' = kp_frame kp \<and>
    page_rep kp' (t_put (key_of kp) (info_key ki) (free_slot kp) t) \<and> entry kp' = entry kp"
    by (rule KR_put_base [OF assms(1,2) pb], unfold assms(4)) (use assms(1) io st in \<open>simp_all add: page_rep_def\<close>)
  moreover have "int (size (t_put (key_of kp) (info_key ki) (free_slot kp) t)) = kp_vcount kp"
    using assms(1,4) st by (simp add: page_rep_def)
  ultimately show ?thesis by (metis page_rep_def)
qed

section \<open>Removal\<close>

lemma KR_remove_base:
  assumes "page_rep kp t" "info_ok ki"
    "rem_base kp (-1) (t_freed (key_of kp) (info_key ki) t) = (base, idx)"
    "t_sorted (key_of base) (t_remove (key_of kp) (info_key ki) t)"
    "set_tree (t_remove (key_of kp) (info_key ki) t) = {i. slot_used base i}"
    "recs_ok base" "kp_vcount base = int (size (t_remove (key_of kp) (info_key ki) t))"
    "kp_frame base = kp_frame kp"
  shows "\<exists>kp'. KR_remove kp ki = Some (kp', idx) \<and> kp_frame kp' = kp_frame kp \<and>
    page_rep kp' (t_remove (key_of kp) (info_key ki) t) \<and> entry kp' = entry base"
proof -
  let ?t = "t_remove (key_of kp) (info_key ki) t"
  from KR_remove_at_tree [OF page_rem_pre [OF assms(1,2)], of "-1"] assms(3) obtain kp' r' where
    r: "KR_remove_at kp (kp_root kp) ki (-1) = Some (kp', r', idx)" "tree_at kp' r' ?t"
      "relinked (set_tree ?t) base kp'"
    unfolding rem_spec_def by auto
  have "length (kp_keys base) \<le> 127" using assms(1,8) by (simp add: page_rep_def kp_frame_def)
  with page_rep_relinked [OF r(3,2) assms(4,5,6,7)] have "page_rep (kp'\<lparr>kp_root := r'\<rparr>) ?t" .
  moreover have "entry (kp'\<lparr>kp_root := r'\<rparr>) = entry base"
    using entry_relinked [OF r(3)] by (simp add: fun_eq_iff)
  ultimately show ?thesis
    using r(1) kp_frame_relinked [OF r(3)] assms(8) by (simp add: KR_remove_def)
qed

lemma KR_remove_absent:
  assumes "page_rep kp t" "info_ok ki" "t_find (key_of kp) (info_key ki) t = None"
  shows "\<exists>kp'. KR_remove kp ki = Some (kp', -1) \<and> kp_frame kp' = kp_frame kp \<and> kp_vcount kp' = kp_vcount kp \<and>
    page_rep kp' (t_remove (key_of kp) (info_key ki) t) \<and> entry kp' = entry kp"
proof -
  let ?t = "t_remove (key_of kp) (info_key ki) t"
  have rb: "rem_base kp (-1) (t_freed (key_of kp) (info_key ki) t) = (kp, -1)"
    using assms(3) by (simp add: rem_base_def t_freed_None [THEN iffD2])
  have io: "inorder ?t = inorder t" by (rule t_remove_absent [OF assms(3)])
  then have st: "set_tree ?t = set_tree t" "size ?t = size t" by (metis set_inorder, metis length_inorder)
  have "\<exists>kp'. KR_remove kp ki = Some (kp', -1) \<and> kp_frame kp' = kp_frame kp \<and>
    page_rep kp' ?t \<and> entry kp' = entry kp"
    by (rule KR_remove_base [OF assms(1,2) rb]) (use assms(1) io st in \<open>simp_all add: page_rep_def\<close>)
  moreover have "int (size ?t) = kp_vcount kp" using assms(1) st by (simp add: page_rep_def)
  ultimately show ?thesis by (auto simp: page_rep_def)
qed

text \<open>The base page of a removal: the data of the slot \<open>m\<close> is in \<open>j\<close>, and \<open>m\<close> is free.\<close>

lemma rem_base_key_at:
  assumes "in_use kp t" "j \<in> set_tree t" "m \<in> set_tree t" "rem_base kp (-1) (Some (j, m)) = (base, idx)"
  shows "idx = m \<and> kp_frame base = kp_frame kp \<and> kp_vcount base = to_short (kp_vcount kp - 1) \<and>
    (\<exists>kj. (\<forall>n. key_at base n = (if n = m then Some InitKeyRecord else if n = j then Some kj else key_at kp n)) \<and>
      rec_ok kj \<and> kr_flags kj = KEY_INUSE \<and> rec_key kj = key_of kp m \<and>
      (\<forall>x v. entry kp m x v \<longleftrightarrow> rec_key kj = x \<and> kr_voff kj = v))"
proof -
  obtain k mrec where k: "key_at kp j = Some k" "rec_ok k" "kr_flags k = KEY_INUSE"
    and m: "key_at kp m = Some mrec" "rec_ok mrec" "kr_flags mrec = KEY_INUSE"
    using assms(1-3) unfolding in_use_def by blast
  let ?kj = "k\<lparr>kr_key := take (nat (kr_klen mrec)) (kr_key mrec) @ drop (nat (kr_klen mrec)) (kr_key k),
       kr_klen := kr_klen mrec, kr_voff := kr_voff mrec\<rparr>"
  have "nat (kr_klen mrec) \<le> length (kr_key mrec)" using m(2) by (auto simp: rec_ok_def)
  then have kj: "rec_ok ?kj" "kr_flags ?kj = KEY_INUSE" "rec_key ?kj = key_of kp m"
    using k m by (auto simp: rec_ok_def rec_key_def key_of_def)
  have en: "entry kp m x v \<longleftrightarrow> rec_key ?kj = x \<and> kr_voff ?kj = v" for x v
    using kj(3) m by (auto simp: entry_def key_of_def)
  have b: "base = free_rec (if m = j then kp else copy_rec kp j m) m" "idx = m"
    using assms(4) by (auto simp: rem_base_def)
  have hd: "kp_frame base = kp_frame kp" "kp_vcount base = to_short (kp_vcount kp - 1)"
    using b m(1) by (simp_all add: free_rec_def copy_rec_def)
  have ka: "key_at base n = (if n = m then Some InitKeyRecord else if n = j then Some ?kj else key_at kp n)" for n
    using k(1) m(1) unfolding b(1) by (cases "m = j") (simp_all add: copy_rec_def heap_simps)
  show ?thesis using b(2) hd ka kj en by blast
qed

lemma t_sorted_remove:
  assumes "t_sorted K t" "t_freed K x t = Some (j, m)" "\<And>n. n \<noteq> m \<Longrightarrow> K' n = (if n = j then K m else K n)"
  shows "t_sorted K' (t_remove K x t)"
proof -
  have d: "distinct (inorder t)" using t_sorted_inj assms(1) by blast
  from t_remove_present [OF assms(2)] obtain ps qs where
    "(m = j \<and> inorder t = ps @ j # qs \<and> inorder (t_remove K x t) = ps @ qs) \<or>
     (inorder t = ps @ m # j # qs \<and> inorder (t_remove K x t) = ps @ j # qs)" by metis
  then show ?thesis
  proof
    assume a: "m = j \<and> inorder t = ps @ j # qs \<and> inorder (t_remove K x t) = ps @ qs"
    then have "j \<notin> set (ps @ qs)" using d by auto
    moreover have "K' n = K n" if "n \<noteq> j" for n using a assms(3) [of n] that by simp
    ultimately have "map K' (ps @ qs) = map K (ps @ qs)" by (intro map_cong refl) metis
    with a assms(1) show ?thesis by (simp only: a) (auto simp: sorted_wrt_append)
  next
    assume a: "inorder t = ps @ m # j # qs \<and> inorder (t_remove K x t) = ps @ j # qs"
    then have "j \<notin> set (ps @ qs)" "m \<notin> set (ps @ qs)" "j \<noteq> m" using d by auto
    then have "\<forall>n\<in>set (ps @ qs). K' n = K n" "K' j = K m" using assms(3) by metis+
    then have "map K' (ps @ j # qs) = map K (ps @ m # qs)" by simp
    with a assms(1) show ?thesis by (simp only: a) (auto simp: sorted_wrt_append)
  qed
qed

lemma KR_remove_present:
  assumes "page_rep kp t" "info_ok ki" "t_freed (key_of kp) (info_key ki) t = Some (j, m)"
  shows "\<exists>kp'. KR_remove kp ki = Some (kp', m) \<and> kp_frame kp' = kp_frame kp \<and> kp_vcount kp' = kp_vcount kp - 1 \<and>
    page_rep kp' (t_remove (key_of kp) (info_key ki) t) \<and>
    (\<forall>i x v. entry kp' i x v \<longleftrightarrow> i \<noteq> m \<and> (if i = j then entry kp m x v else entry kp i x v))"
proof -
  let ?t = "t_remove (key_of kp) (info_key ki) t"
  obtain base idx where rb: "rem_base kp (-1) (t_freed (key_of kp) (info_key ki) t) = (base, idx)" by force
  from set_tree_t_remove [OF page_rep_distinct [OF assms(1)], of "key_of kp" "info_key ki"] assms(3)
  have st: "set_tree ?t = set_tree t - {m}" "j \<in> set_tree t" "m \<in> set_tree t" "size t = Suc (size ?t)"
    by auto
  note B = rem_base_key_at [OF page_rep_in_use [OF assms(1)] st(2,3) rb [unfolded assms(3)]]
  then obtain kj where b: "idx = m" "kp_frame base = kp_frame kp" "kp_vcount base = to_short (kp_vcount kp - 1)"
    "\<And>n. key_at base n = (if n = m then Some InitKeyRecord else if n = j then Some kj else key_at kp n)"
    "rec_ok kj" "kr_flags kj = KEY_INUSE" "rec_key kj = key_of kp m"
    "\<And>x v. entry kp m x v \<longleftrightarrow> rec_key kj = x \<and> kr_voff kj = v"
    by blast
  note p = assms(1) [unfolded page_rep_def]
  have init: "rec_ok InitKeyRecord" "kr_flags InitKeyRecord = KEY_FREE"
    by (simp_all add: rec_ok_def InitKeyRecord_def KEY_FREE_def MAX_KEY_LENGTH_def)
  have vc: "to_short (kp_vcount kp - 1) = kp_vcount kp - 1"
    using p page_rep_size [OF assms(1)] by (simp add: to_short_id)
  have ko: "n \<noteq> m \<Longrightarrow> key_of base n = (if n = j then key_of kp m else key_of kp n)" for n
    using b(7) by (simp add: key_of_def b(4))
  have "\<exists>kp'. KR_remove kp ki = Some (kp', m) \<and> kp_frame kp' = kp_frame kp \<and> page_rep kp' ?t \<and> entry kp' = entry base"
  proof (rule KR_remove_base [OF assms(1,2) rb [unfolded b(1)]])
    show "t_sorted (key_of base) ?t" by (rule t_sorted_remove [OF _ assms(3) ko]) (use p in auto)
    show "set_tree ?t = {i. slot_used base i}"
      using p st b(6) init(2) unfolding slot_used_def b(4)
      by (auto simp: KEY_FREE_def KEY_INUSE_def slot_used_def)
    show "recs_ok base" using p init b(5,6) by (auto simp: recs_ok_iff b(4))
    show "kp_vcount base = int (size ?t)" using b(3) vc p st(4) by simp
  qed (rule b(2))
  moreover have "entry base i x v \<longleftrightarrow> i \<noteq> m \<and> (if i = j then entry kp m x v else entry kp i x v)" for i x v
    using b(6,8) init(2) by (auto simp: entry_def b(4) KEY_FREE_def KEY_INUSE_def)
  moreover have "int (size ?t) = kp_vcount kp - 1" using p st(4) by simp
  ultimately show ?thesis by (auto simp: page_rep_def)
qed

section \<open>The size of the map\<close>

lemma dom_kp_map:
  assumes "page_rep kp t"
  shows "dom (kp_map kp) = key_of kp ` set_tree t"
proof -
  have "x \<in> dom (kp_map kp) \<longleftrightarrow> (\<exists>i. slot_used kp i \<and> key_of kp i = x)" for x
    using kp_map_iff [OF assms] by (metis domD domI entry_used slot_used_entry)
  then have "dom (kp_map kp) = key_of kp ` {i. slot_used kp i}" by (auto simp: set_eq_iff image_iff)
  then show ?thesis using assms by (simp add: page_rep_def)
qed

lemma card_kp_map:
  assumes "page_rep kp t"
  shows "card (dom (kp_map kp)) = size t"
proof -
  have "inj_on (key_of kp) (set_tree t)" using assms t_sorted_inj unfolding page_rep_def by blast
  then show ?thesis
    using size_slots [OF page_rep_distinct [OF assms]] by (simp add: dom_kp_map [OF assms] card_image)
qed

lemma free_slot_None_iff:
  assumes "page_rep kp t"
  shows "free_slot kp = None \<longleftrightarrow> size t = length (kp_keys kp)"
proof -
  have "length (kp_keys kp) \<le> 32767" using assms by (simp add: page_rep_def)
  then show ?thesis
  proof (cases rule: getFree_cases)
    case full
    have "i \<in> set_tree t \<longleftrightarrow> i \<in> {0..<int (length (kp_keys kp))}" for i
    proof -
      have "slot_used kp i \<longleftrightarrow> key_at kp i \<noteq> None"
        using full(2) [of i] assms by (auto simp: slot_used_def page_rep_def recs_ok_iff split: option.splits)
      then show ?thesis using assms by (auto simp: page_rep_def key_at_def)
    qed
    then have "set_tree t = {0..<int (length (kp_keys kp))}" by blast
    then show ?thesis
      using full(1) size_slots [OF page_rep_distinct [OF assms]] by (simp add: free_slot_def)
  next
    case (slot k)
    then show ?thesis using page_rep_size_free [OF assms slot(2,3)] by (simp add: free_slot_def)
  qed
qed

end
