(* ===== verification/Bounded_Map.thy ===== *)
theory Bounded_Map
  imports Prelude
begin

text \<open>
  The contract of a bounded table: a finite map from keys to values that holds at most a fixed
  number of keys. An operation returns the place it worked on, or \<open>-1\<close> when there is none
  (the key is absent, or the table is full). A client that relies on the contract alone can
  run any sequence of operations and read the outcome off the specification \<open>spec_run\<close>.
\<close>

datatype 'q table_op = GetOp 'q | PutOp 'q | RemoveOp 'q

fun op_query :: "'q table_op \<Rightarrow> 'q" where
  "op_query (GetOp q) = q"
| "op_query (PutOp q) = q"
| "op_query (RemoveOp q) = q"

definition spec_step ::
  "nat \<Rightarrow> ('q \<Rightarrow> 'k) \<Rightarrow> ('q \<Rightarrow> 'v) \<Rightarrow> ('k \<rightharpoonup> 'v) \<Rightarrow> 'q table_op \<Rightarrow> ('k \<rightharpoonup> 'v) \<times> bool" where
  "spec_step cap key val m oper =
     (case oper of
        GetOp q \<Rightarrow> (m, m (key q) \<noteq> None)
      | PutOp q \<Rightarrow> if m (key q) \<noteq> None \<or> card (dom m) < cap then (m(key q \<mapsto> val q), True) else (m, False)
      | RemoveOp q \<Rightarrow> (m(key q := None), m (key q) \<noteq> None))"

fun spec_run ::
  "nat \<Rightarrow> ('q \<Rightarrow> 'k) \<Rightarrow> ('q \<Rightarrow> 'v) \<Rightarrow> ('k \<rightharpoonup> 'v) \<Rightarrow> 'q table_op list \<Rightarrow> ('k \<rightharpoonup> 'v) \<times> bool list" where
  "spec_run cap key val m [] = (m, [])"
| "spec_run cap key val m (x # xs) =
     (let (m', b) = spec_step cap key val m x; (m'', bs) = spec_run cap key val m' xs in (m'', b # bs))"

fun run_op ::
  "('p \<Rightarrow> 'q \<Rightarrow> int option) \<Rightarrow> ('p \<Rightarrow> 'q \<Rightarrow> ('p \<times> int) option) \<Rightarrow> ('p \<Rightarrow> 'q \<Rightarrow> ('p \<times> int) option) \<Rightarrow>
   'p \<Rightarrow> 'q table_op \<Rightarrow> ('p \<times> int) option" where
  "run_op get put remove p (GetOp q) = map_option (Pair p) (get p q)"
| "run_op get put remove p (PutOp q) = put p q"
| "run_op get put remove p (RemoveOp q) = remove p q"

fun run_ops ::
  "('p \<Rightarrow> 'q \<Rightarrow> int option) \<Rightarrow> ('p \<Rightarrow> 'q \<Rightarrow> ('p \<times> int) option) \<Rightarrow> ('p \<Rightarrow> 'q \<Rightarrow> ('p \<times> int) option) \<Rightarrow>
   'p \<Rightarrow> 'q table_op list \<Rightarrow> ('p \<times> int list) option" where
  "run_ops get put remove p [] = Some (p, [])"
| "run_ops get put remove p (x # xs) = do {
     (p, i) \<leftarrow> run_op get put remove p x;
     (p, js) \<leftarrow> run_ops get put remove p xs;
     Some (p, i # js)
   }"

locale bounded_map =
  fixes ok :: "'p \<Rightarrow> bool"
    and query_ok :: "'q \<Rightarrow> bool"
    and cap :: "'p \<Rightarrow> nat"
    and denotes :: "'p \<Rightarrow> 'k \<Rightarrow> 'v option"
    and key :: "'q \<Rightarrow> 'k"
    and val :: "'q \<Rightarrow> 'v"
    and get :: "'p \<Rightarrow> 'q \<Rightarrow> int option"
    and put :: "'p \<Rightarrow> 'q \<Rightarrow> ('p \<times> int) option"
    and remove :: "'p \<Rightarrow> 'q \<Rightarrow> ('p \<times> int) option"
  assumes get_law: "ok p \<Longrightarrow> query_ok q \<Longrightarrow>
      \<exists>i. get p q = Some i \<and> (i = -1 \<longleftrightarrow> denotes p (key q) = None)"
    and put_law: "ok p \<Longrightarrow> query_ok q \<Longrightarrow>
      \<exists>p' i. put p q = Some (p', i) \<and> ok p' \<and> cap p' = cap p \<and>
        (denotes p', i \<noteq> -1) = spec_step (cap p) key val (denotes p) (PutOp q)"
    and remove_law: "ok p \<Longrightarrow> query_ok q \<Longrightarrow>
      \<exists>p' i. remove p q = Some (p', i) \<and> ok p' \<and> cap p' = cap p \<and>
        (denotes p', i \<noteq> -1) = spec_step (cap p) key val (denotes p) (RemoveOp q)"
begin

lemma run_op_refines:
  assumes "ok p" "query_ok (op_query x)"
  shows "\<exists>p' i. run_op get put remove p x = Some (p', i) \<and> ok p' \<and> cap p' = cap p \<and>
    (denotes p', i \<noteq> -1) = spec_step (cap p) key val (denotes p) x"
proof (cases x)
  case (GetOp q)
  with get_law [of p q] assms show ?thesis by (auto simp: spec_step_def)
next
  case (PutOp q)
  with put_law [of p q] assms show ?thesis by simp
next
  case (RemoveOp q)
  with remove_law [of p q] assms show ?thesis by simp
qed

theorem run_ops_refines:
  assumes "ok p" "\<forall>x\<in>set xs. query_ok (op_query x)"
  shows "\<exists>p' js. run_ops get put remove p xs = Some (p', js) \<and> ok p' \<and> cap p' = cap p \<and>
    (denotes p', map (\<lambda>i. i \<noteq> -1) js) = spec_run (cap p) key val (denotes p) xs"
  using assms
proof (induction xs arbitrary: p)
  case (Cons x xs)
  then obtain p1 i where 1: "run_op get put remove p x = Some (p1, i)" "ok p1" "cap p1 = cap p"
    "(denotes p1, i \<noteq> -1) = spec_step (cap p) key val (denotes p) x"
    using run_op_refines [of p x] by auto
  from Cons 1 obtain p2 js where 2: "run_ops get put remove p1 xs = Some (p2, js)" "ok p2" "cap p2 = cap p"
    "(denotes p2, map (\<lambda>i. i \<noteq> -1) js) = spec_run (cap p) key val (denotes p1) xs"
    by fastforce
  from 1(1) 2(1) have "run_ops get put remove p (x # xs) = Some (p2, i # js)" by simp
  with 1(4) 2 show ?case by (auto simp: Let_def split_def prod_eq_iff)
qed simp

lemma get_after_put:
  assumes "ok p" "query_ok q" "put p q = Some (p', i)" "i \<noteq> -1"
  shows "\<exists>j. get p' q = Some j \<and> j \<noteq> -1 \<and> denotes p' (key q) = Some (val q)"
proof -
  from put_law [OF assms(1,2)] assms(3,4) have ok': "ok p'" "denotes p' (key q) = Some (val q)"
    by (auto simp: spec_step_def split: if_splits)
  with get_law [OF ok'(1) assms(2)] show ?thesis by auto
qed

lemma get_after_remove:
  assumes "ok p" "query_ok q" "remove p q = Some (p', i)"
  shows "get p' q = Some (-1)"
proof -
  from remove_law [OF assms(1,2)] assms(3) have "ok p'" "denotes p' (key q) = None"
    by (auto simp: spec_step_def)
  with get_law [of p' q] assms(2) show ?thesis by auto
qed

end

end
