(* ===== verification/Key_Page.thy ===== *)
theory Key_Page
  imports Key_Page_Map Bounded_Map
begin

text \<open>
  What a key page promises its callers (\<^verbatim>\<open>KeyRecords::get\<close>, \<open>put\<close>, \<open>remove\<close> in
  \<^verbatim>\<open>librdb/src/keyrec.cpp\<close>): the contract \<open>bounded_map\<close>, the number of comparisons a
  lookup needs, and where a removal departs from what the code around it expects.
\<close>

section \<open>The operations on the map\<close>

lemma InitKeyPage_rep:
  assumes "NUM_OF_KEYS_IN_PAGE n \<le> 127"
  shows "page_rep (InitKeyPage n) Leaf"
  using assms
  by (auto simp: page_rep_def InitKeyPage_def slot_used_def recs_ok_def key_at_def rec_ok_def zero_key_rec_def
      KEY_FREE_def KEY_INUSE_def MAX_KEY_LENGTH_def split: option.splits)

lemma InitKeyPage_map [simp]: "kp_map (InitKeyPage n) = Map.empty"
  by (simp add: kp_map_def InitKeyPage_def zero_key_rec_def KEY_INUSE_def)

abbreviation page_cap :: "key_page \<Rightarrow> nat" where
  "page_cap kp \<equiv> length (kp_keys kp)"

abbreviation page_step :: "key_page \<Rightarrow> key_info table_op \<Rightarrow> (dbkey \<Rightarrow> offset option) \<times> bool" where
  "page_step kp \<equiv> spec_step (page_cap kp) info_key ki_voff (kp_map kp)"

lemma kp_frame_cap: "kp_frame kp' = kp_frame kp \<Longrightarrow> page_cap kp' = page_cap kp"
  by (simp add: kp_frame_def)

lemma get_page:
  assumes "page_rep kp t" "info_ok ki"
  shows "\<exists>i. KR_get kp ki = Some i \<and>
    (case kp_map kp (info_key ki) of None \<Rightarrow> i = -1 | Some v \<Rightarrow> entry kp i (info_key ki) v)"
proof (cases "t_find (key_of kp) (info_key ki) t")
  case None
  then show ?thesis using page_find_None [OF assms(1), of "info_key ki"] KR_get_find [OF assms] by simp
next
  case (Some j)
  then obtain v where "entry kp j (info_key ki) v" using page_find assms(1) by blast
  moreover from this have "kp_map kp (info_key ki) = Some v" using kp_map_iff assms(1) by blast
  ultimately show ?thesis using KR_get_find [OF assms] Some by auto
qed

lemma entry_index: "entry kp i x v \<Longrightarrow> i \<noteq> -1"
  by (auto simp: entry_def)

lemma entry_neg1 [simp]: "\<not> entry kp (-1) x v"
  by (simp add: entry_def)

lemma put_page:
  assumes "page_rep kp t" "info_ok ki"
  shows "\<exists>kp' i. KR_put kp ki = Some (kp', i) \<and> kp_frame kp' = kp_frame kp \<and>
    page_rep kp' (t_put (key_of kp) (info_key ki) (free_slot kp) t) \<and>
    (kp_map kp', i \<noteq> -1) = page_step kp (PutOp ki) \<and>
    (i \<noteq> -1 \<longrightarrow> entry kp' i (info_key ki) (ki_voff ki))"
proof (cases "t_find (key_of kp) (info_key ki) t = None \<and> free_slot kp = None")
  case True
  from KR_put_full [OF assms] True obtain kp' where kp': "KR_put kp ki = Some (kp', -1)" "kp_frame kp' = kp_frame kp"
    "page_rep kp' (t_put (key_of kp) (info_key ki) (free_slot kp) t)" "entry kp' = entry kp" by auto
  have "kp_map kp' = kp_map kp" by (rule kp_map_eqI [OF kp'(3)]) (simp add: kp'(4) kp_map_iff [OF assms(1)])
  moreover have "kp_map kp (info_key ki) = None" "\<not> card (dom (kp_map kp)) < page_cap kp"
    using True page_find_None [OF assms(1)] free_slot_None_iff [OF assms(1)] card_kp_map [OF assms(1)] by auto
  ultimately show ?thesis using kp' by (auto simp: spec_step_def)
next
  case False
  have "\<exists>kp' i. KR_put kp ki = Some (kp', i) \<and> kp_frame kp' = kp_frame kp \<and>
    page_rep kp' (t_put (key_of kp) (info_key ki) (free_slot kp) t) \<and>
    i \<noteq> -1 \<and> (\<not> slot_used kp i \<and> kp_map kp (info_key ki) = None \<or> (\<exists>w. entry kp i (info_key ki) w)) \<and>
    (\<forall>n x v. entry kp' n x v \<longleftrightarrow> (if n = i then x = info_key ki \<and> v = ki_voff ki else entry kp n x v))"
  proof (cases "t_find (key_of kp) (info_key ki) t")
    case None
    with False obtain i where i: "free_slot kp = Some i" by auto
    from KR_put_new [OF assms None i] show ?thesis
      using None i page_find_None [OF assms(1)] by (fastforce simp: free_slot_def split: if_splits)
  next
    case (Some j)
    with page_find assms(1) obtain w where "entry kp j (info_key ki) w" by blast
    with KR_put_found [OF assms Some] show ?thesis by (fastforce dest: entry_index)
  qed
  then obtain kp' i where kp': "KR_put kp ki = Some (kp', i)" "kp_frame kp' = kp_frame kp"
    "page_rep kp' (t_put (key_of kp) (info_key ki) (free_slot kp) t)" "i \<noteq> -1"
    "\<not> slot_used kp i \<and> kp_map kp (info_key ki) = None \<or> (\<exists>w. entry kp i (info_key ki) w)"
    "\<And>n x v. entry kp' n x v \<longleftrightarrow> (if n = i then x = info_key ki \<and> v = ki_voff ki else entry kp n x v)"
    by blast
  have "kp_map kp' = (kp_map kp)(info_key ki \<mapsto> ki_voff ki)"
  proof (rule kp_map_eqI [OF kp'(3)])
    fix x v
    have "x \<noteq> info_key ki \<Longrightarrow> \<not> entry kp i x v"
      using kp'(5) page_rep_inj [OF assms(1)] by (metis entry_used)
    moreover have "entry kp n (info_key ki) v \<Longrightarrow> n = i" for n
      using kp'(5) page_rep_inj [OF assms(1)] kp_map_iff [OF assms(1)] by (metis option.distinct(1))
    ultimately show "((kp_map kp)(info_key ki \<mapsto> ki_voff ki)) x = Some v \<longleftrightarrow> (\<exists>n. entry kp' n x v)"
      unfolding kp'(6) by (cases "x = info_key ki") (simp_all add: kp_map_iff [OF assms(1)], metis+)
  qed
  moreover have "kp_map kp (info_key ki) \<noteq> None \<or> card (dom (kp_map kp)) < page_cap kp"
    using False page_find_None [OF assms(1)] free_slot_None_iff [OF assms(1)] card_kp_map [OF assms(1)]
      page_rep_size [OF assms(1)] by fastforce
  ultimately show ?thesis using kp' by (auto simp: spec_step_def)
qed

lemma remove_page:
  assumes "page_rep kp t" "info_ok ki"
  shows "\<exists>kp' i. KR_remove kp ki = Some (kp', i) \<and> kp_frame kp' = kp_frame kp \<and>
    page_rep kp' (t_remove (key_of kp) (info_key ki) t) \<and>
    (kp_map kp', i \<noteq> -1) = page_step kp (RemoveOp ki)"
proof (cases "t_freed (key_of kp) (info_key ki) t")
  case None
  then have nf: "t_find (key_of kp) (info_key ki) t = None" by (simp add: t_freed_None)
  from KR_remove_absent [OF assms nf] obtain kp' where kp': "KR_remove kp ki = Some (kp', -1)"
    "kp_frame kp' = kp_frame kp" "page_rep kp' (t_remove (key_of kp) (info_key ki) t)" "entry kp' = entry kp" by auto
  have "kp_map kp' = kp_map kp" by (rule kp_map_eqI [OF kp'(3)]) (simp add: kp'(4) kp_map_iff [OF assms(1)])
  moreover have "kp_map kp (info_key ki) = None" using nf page_find_None [OF assms(1)] by simp
  ultimately show ?thesis using kp' by (auto simp: spec_step_def)
next
  case (Some jm)
  obtain j m where jm: "t_freed (key_of kp) (info_key ki) t = Some (j, m)" using Some by (cases jm) auto
  from KR_remove_present [OF assms jm] obtain kp' where kp': "KR_remove kp ki = Some (kp', m)"
    "kp_frame kp' = kp_frame kp" "page_rep kp' (t_remove (key_of kp) (info_key ki) t)"
    "\<And>i x v. entry kp' i x v \<longleftrightarrow> i \<noteq> m \<and> (if i = j then entry kp m x v else entry kp i x v)" by blast
  obtain w where w: "entry kp j (info_key ki) w" using t_freed_fst [OF jm] page_find [OF assms(1)] by blast
  have km: "kp_map kp (info_key ki) \<noteq> None" using w kp_map_iff [OF assms(1)] by blast
  have "m \<in> set_tree t" using set_tree_t_remove [OF page_rep_distinct [OF assms(1)]] jm by blast
  then have "slot_used kp m" using assms(1) by (simp add: page_rep_def)
  then have m1: "m \<noteq> -1" by (auto simp: slot_used_def)
  have "kp_map kp' = (kp_map kp)(info_key ki := None)"
  proof (rule kp_map_eqI [OF kp'(3)])
    fix x v
    have "\<not> entry kp j x v" if "x \<noteq> info_key ki"
      using w that entry_used by metis
    moreover have "n = j" if "entry kp n (info_key ki) v" for n
      using that w page_rep_inj [OF assms(1)] by blast
    ultimately show "((kp_map kp)(info_key ki := None)) x = Some v \<longleftrightarrow> (\<exists>n. entry kp' n x v)"
      unfolding kp'(4) by (cases "x = info_key ki") (simp_all add: kp_map_iff [OF assms(1)], metis+)
  qed
  with kp' km m1 show ?thesis by (auto simp: spec_step_def)
qed

interpretation kp: bounded_map page_ok info_ok page_cap kp_map info_key ki_voff KR_get KR_put KR_remove
proof
  fix p q
  assume "page_ok p" "info_ok q"
  then obtain t where t: "page_rep p t" by (auto simp: page_ok_def)
  show "\<exists>i. KR_get p q = Some i \<and> (i = -1 \<longleftrightarrow> kp_map p (info_key q) = None)"
    using get_page [OF t \<open>info_ok q\<close>] by (cases "kp_map p (info_key q)") (auto dest: entry_index)
  show "\<exists>p' i. KR_put p q = Some (p', i) \<and> page_ok p' \<and> page_cap p' = page_cap p \<and>
      (kp_map p', i \<noteq> -1) = page_step p (PutOp q)"
    using put_page [OF t \<open>info_ok q\<close>] kp_frame_cap unfolding page_ok_def by blast
  show "\<exists>p' i. KR_remove p q = Some (p', i) \<and> page_ok p' \<and> page_cap p' = page_cap p \<and>
      (kp_map p', i \<noteq> -1) = page_step p (RemoveOp q)"
    using remove_page [OF t \<open>info_ok q\<close>] kp_frame_cap unfolding page_ok_def by blast
qed

section \<open>Properties\<close>

definition sample_info :: "nat \<Rightarrow> key_info" where
  "sample_info n =
     \<lparr>ki_key = of_nat n # replicate 47 0, ki_klen = 1, ki_hash = 0, ki_voff = int n * 256,
      ki_kpn = None, ki_lkp = 0, ki_lkpoff = -1, ki_kidx = -1\<rparr>"

lemma sample_info_ok [simp]: "info_ok (sample_info n)"
  by (simp add: info_ok_def sample_info_def MAX_KEY_LENGTH_def)

lemma InitKeyPage_ok [simp]: "NUM_OF_KEYS_IN_PAGE n \<le> 127 \<Longrightarrow> page_ok (InitKeyPage n)"
  using InitKeyPage_rep page_ok_def by blast

text \<open>
  C3: on a fresh page every sequence of get, put and remove calls returns, keeps the page
  invariant, and answers exactly as a finite map that holds at most
  \<^verbatim>\<open>NUM_OF_KEYS_IN_PAGE\<close> keys: a put stores its value unless the key is new and the page is
  full, a remove deletes the key, and each call reports success (an index other than \<open>-1\<close>)
  exactly when the map does.
\<close>

theorem key_page_refines_map:
  assumes "0 \<le> NUM_OF_KEYS_IN_PAGE n" "NUM_OF_KEYS_IN_PAGE n \<le> 127" "\<forall>x\<in>set xs. info_ok (op_query x)"
  shows "\<exists>kp' js. run_ops KR_get KR_put KR_remove (InitKeyPage n) xs = Some (kp', js) \<and> page_ok kp' \<and>
    (kp_map kp', map (\<lambda>i. i \<noteq> -1) js) =
      spec_run (nat (NUM_OF_KEYS_IN_PAGE n)) info_key ki_voff Map.empty xs"
proof -
  have "page_cap (InitKeyPage n) = nat (NUM_OF_KEYS_IN_PAGE n)" by (simp add: InitKeyPage_def)
  with kp.run_ops_refines [of "InitKeyPage n" xs] assms show ?thesis by auto
qed

theorem key_page_refines_map_witness:
  "\<exists>kp' js. run_ops KR_get KR_put KR_remove (InitKeyPage 4096)
      [PutOp (sample_info 1), GetOp (sample_info 1), RemoveOp (sample_info 1), GetOp (sample_info 1)] =
      Some (kp', js) \<and> page_ok kp' \<and> map (\<lambda>i. i \<noteq> -1) js = [True, True, True, False]"
  using key_page_refines_map [of 4096
      "[PutOp (sample_info 1), GetOp (sample_info 1), RemoveOp (sample_info 1), GetOp (sample_info 1)]"]
  by (auto simp: NUM_OF_KEYS_IN_PAGE_def KEY_PAGE_HDR_SIZE_def spec_step_def)

text \<open>
  C4: a lookup returns \<open>-1\<close> exactly for a key the page does not hold, and otherwise the slot
  of a record in use with that key and the stored value offset.
\<close>

theorem KR_get_correct:
  assumes "page_ok kp" "info_ok ki"
  shows "\<exists>i. KR_get kp ki = Some i \<and>
    (case kp_map kp (info_key ki) of
       None \<Rightarrow> i = -1
     | Some v \<Rightarrow> (\<exists>k. key_at kp i = Some k \<and> kr_flags k = KEY_INUSE \<and> rec_key k = info_key ki \<and> kr_voff k = v))"
  using assms get_page unfolding page_ok_def entry_def by blast

theorem KR_get_correct_witness:
  "page_ok (InitKeyPage 4096) \<and> info_ok (sample_info 7) \<and> KR_get (InitKeyPage 4096) (sample_info 7) = Some (-1)"
  using KR_get_correct [of "InitKeyPage 4096" "sample_info 7"]
  by (simp add: NUM_OF_KEYS_IN_PAGE_def KEY_PAGE_HDR_SIZE_def)

text \<open>
  C5: a put leaves the header of the page but its root and count as they were, keeps the
  invariant, stores the offset under the key when the key is present or a slot is free (and
  returns the slot of the record), and otherwise returns \<open>-1\<close> and leaves the map alone.
\<close>

theorem KR_put_correct:
  assumes "page_ok kp" "info_ok ki"
  shows "\<exists>kp' i. KR_put kp ki = Some (kp', i) \<and> page_ok kp' \<and> kp_frame kp' = kp_frame kp \<and>
    (if kp_map kp (info_key ki) \<noteq> None \<or> card (dom (kp_map kp)) < page_cap kp
     then kp_map kp' = (kp_map kp)(info_key ki \<mapsto> ki_voff ki) \<and>
       (\<exists>k. key_at kp' i = Some k \<and> rec_key k = info_key ki \<and> kr_voff k = ki_voff ki)
     else i = -1 \<and> kp_map kp' = kp_map kp)"
proof -
  from assms obtain t where t: "page_rep kp t" by (auto simp: page_ok_def)
  from put_page [OF t assms(2)] show ?thesis
    unfolding page_ok_def spec_step_def entry_def by (auto split: if_splits)
qed

theorem KR_put_correct_witness:
  "\<exists>kp' i. KR_put (InitKeyPage 4096) (sample_info 7) = Some (kp', i) \<and> page_ok kp' \<and>
     kp_map kp' = [info_key (sample_info 7) \<mapsto> ki_voff (sample_info 7)]"
proof -
  have "page_cap (InitKeyPage 4096) = 63" by (simp add: InitKeyPage_def NUM_OF_KEYS_IN_PAGE_def KEY_PAGE_HDR_SIZE_def)
  with KR_put_correct [of "InitKeyPage 4096" "sample_info 7"] show ?thesis
    by (auto simp: NUM_OF_KEYS_IN_PAGE_def KEY_PAGE_HDR_SIZE_def)
qed

text \<open>
  C6: a remove deletes the key from the map and nothing else, keeps the invariant and the
  header, and returns \<open>-1\<close> exactly when the key was not there; a get that follows finds
  nothing.
\<close>

theorem KR_remove_correct:
  assumes "page_ok kp" "info_ok ki"
  shows "\<exists>kp' i. KR_remove kp ki = Some (kp', i) \<and> page_ok kp' \<and> kp_frame kp' = kp_frame kp \<and>
    kp_map kp' = (kp_map kp)(info_key ki := None) \<and> (i = -1 \<longleftrightarrow> kp_map kp (info_key ki) = None) \<and>
    KR_get kp' ki = Some (-1)"
proof -
  from assms obtain t where t: "page_rep kp t" by (auto simp: page_ok_def)
  from remove_page [OF t assms(2)] obtain kp' i where "KR_remove kp ki = Some (kp', i)" "page_ok kp'"
    "kp_frame kp' = kp_frame kp" "(kp_map kp', i \<noteq> -1) = page_step kp (RemoveOp ki)"
    unfolding page_ok_def by blast
  moreover from this have "KR_get kp' ki = Some (-1)" using kp.get_after_remove assms by blast
  ultimately show ?thesis by (auto simp: spec_step_def)
qed

theorem KR_remove_correct_witness:
  "\<exists>kp' i. KR_remove (InitKeyPage 4096) (sample_info 7) = Some (kp', i) \<and> page_ok kp' \<and> i = -1"
  using KR_remove_correct [of "InitKeyPage 4096" "sample_info 7"]
  by (auto simp: NUM_OF_KEYS_IN_PAGE_def KEY_PAGE_HDR_SIZE_def)

section \<open>Balance\<close>

fun put_all :: "key_page \<Rightarrow> key_info list \<Rightarrow> key_page option" where
  "put_all kp [] = Some kp"
| "put_all kp (ki # kis) = do { (kp, _) \<leftarrow> KR_put kp ki; put_all kp kis }"

lemma put_all_rep:
  "page_rep kp t \<Longrightarrow> avl t \<Longrightarrow> \<forall>ki\<in>set kis. info_ok ki \<Longrightarrow>
   \<exists>kp' t'. put_all kp kis = Some kp' \<and> page_rep kp' t' \<and> avl t' \<and> page_cap kp' = page_cap kp"
proof (induction kis arbitrary: kp t)
  case (Cons ki kis)
  then obtain kp1 i where 1: "KR_put kp ki = Some (kp1, i)"
    "page_rep kp1 (t_put (key_of kp) (info_key ki) (free_slot kp) t)" "kp_frame kp1 = kp_frame kp"
    using put_page [of kp t ki] by auto
  moreover have "avl (t_put (key_of kp) (info_key ki) (free_slot kp) t)" using Cons.prems avl_t_put by blast
  ultimately show ?case using Cons.IH [of kp1] Cons.prems kp_frame_cap [OF 1(3)] by auto
qed auto

lemma avl_min_9: "avl_min 9 = 88"
  by (simp add: eval_nat_numeral)

lemma avl_height_63: "avl t \<Longrightarrow> size t \<le> 63 \<Longrightarrow> height t \<le> 8"
proof (rule ccontr)
  assume "avl t" "size t \<le> 63" "\<not> height t \<le> 8"
  then have "avl_min 9 \<le> avl_min (height t)" by (intro avl_min_mono) simp
  with avl_size [OF \<open>avl t\<close>] \<open>size t \<le> 63\<close> avl_min_9 show False by simp
qed

text \<open>
  C7: a page of the default size filled by puts alone is a balanced tree of height at most
  8, whatever the keys and their order: a lookup in it makes at most eight comparisons.
\<close>

theorem put_all_height:
  assumes "\<forall>ki\<in>set kis. info_ok ki"
  shows "\<exists>kp' t'. put_all (InitKeyPage 4096) kis = Some kp' \<and> page_rep kp' t' \<and> avl t' \<and> height t' \<le> 8"
proof -
  have "NUM_OF_KEYS_IN_PAGE 4096 = 63" by (simp add: NUM_OF_KEYS_IN_PAGE_def KEY_PAGE_HDR_SIZE_def)
  then have "page_rep (InitKeyPage 4096) Leaf" "page_cap (InitKeyPage 4096) = 63"
    by (simp add: InitKeyPage_rep, simp add: InitKeyPage_def)
  then show ?thesis
    using put_all_rep [of "InitKeyPage 4096" Leaf kis] assms page_rep_size avl_height_63 by fastforce
qed

theorem put_all_height_witness:
  "\<exists>kp' t'. put_all (InitKeyPage 4096) (map sample_info [1, 2, 3, 4, 5]) = Some kp' \<and> page_rep kp' t' \<and> avl t' \<and> height t' \<le> 8"
  using put_all_height [of "map sample_info [1, 2, 3, 4, 5]"] by simp

text \<open>
  A removal does not restore the balance when the taller subtree is itself even, since
  \<^verbatim>\<open>balanceTree\<close> has no case for it: here a balanced page of five keys is left with a root whose
  subtrees differ by two.
\<close>

definition five_keys :: "key_page option" where
  "five_keys = put_all (InitKeyPage 384) (map sample_info [2, 1, 4, 3, 5])"

lemma remove_unbalances:
  "do { kp \<leftarrow> five_keys; b \<leftarrow> balanceFactor kp (kp_root kp);
        (kp', _) \<leftarrow> KR_remove kp (sample_info 1); b' \<leftarrow> balanceFactor kp' (kp_root kp');
        Some (b, b') } = Some (-1, -2)"
  by code_simp

lemma t_freed_two:
  "tree_at kp r t \<Longrightarrow> distinct (inorder t) \<Longrightarrow> t_find K x t = Some j \<Longrightarrow> key_at kp j = Some k \<Longrightarrow>
   kr_left k \<noteq> -1 \<Longrightarrow> kr_right k \<noteq> -1 \<Longrightarrow> \<exists>m. t_freed K x t = Some (j, m) \<and> m \<noteq> j"
proof (induction t arbitrary: r)
  case (Node l i u)
  show ?case
  proof (cases "x = K i")
    case False
    with Node show ?thesis by (auto split: if_splits option.splits)
  next
    case True
    with Node.prems have "j = i" "l \<noteq> Leaf" "u \<noteq> Leaf" by auto
    moreover from \<open>l \<noteq> Leaf\<close> obtain m where m: "t_max l = Some m" using t_max_exists by blast
    moreover have "m \<in> set_tree l" using inorder_t_removeMax [OF m] by (metis in_set_conv_decomp set_inorder)
    ultimately show ?thesis using True Node.prems(2) by auto
  qed
qed simp

text \<open>
  When the record of a key has two children, the slot \<^verbatim>\<open>remove\<close> returns is not the slot
  \<^verbatim>\<open>get\<close> returned for the same key: the record of the largest smaller key is copied over it and
  that record's slot is the one freed and returned.
\<close>

lemma remove_index_differs:
  assumes "page_ok kp" "info_ok ki" "KR_get kp ki = Some i" "key_at kp i = Some k"
    "kr_left k \<noteq> -1" "kr_right k \<noteq> -1"
  shows "\<exists>kp' m. KR_remove kp ki = Some (kp', m) \<and> m \<noteq> i \<and> \<not> slot_used kp' m"
proof -
  from assms obtain t where t: "page_rep kp t" by (auto simp: page_ok_def)
  have "i \<noteq> -1" using assms(4) by auto
  with KR_get_find [OF t assms(2)] assms(3) have f: "t_find (key_of kp) (info_key ki) t = Some i"
    by (auto split: option.splits)
  from t_freed_two [OF _ page_rep_distinct [OF t] f assms(4-6)] t
  obtain m where m: "t_freed (key_of kp) (info_key ki) t = Some (i, m)" "m \<noteq> i" by (auto simp: page_rep_def)
  from KR_remove_present [OF t assms(2) m(1)] m(2) show ?thesis by (metis slot_used_entry)
qed

lemma five_keys_ok: "\<exists>kp. five_keys = Some kp \<and> page_ok kp"
  using put_all_rep [of "InitKeyPage 384" Leaf "map sample_info [2, 1, 4, 3, 5]"] InitKeyPage_rep [of 384]
  by (auto simp: five_keys_def page_ok_def NUM_OF_KEYS_IN_PAGE_def KEY_PAGE_HDR_SIZE_def)

lemma remove_index_differs_sample:
  "\<exists>kp kp' m. five_keys = Some kp \<and> KR_remove kp (sample_info 2) = Some (kp', m) \<and>
     KR_get kp (sample_info 2) = Some 0 \<and> m \<noteq> 0"
proof -
  obtain kp where kp: "five_keys = Some kp" "page_ok kp" using five_keys_ok by blast
  have "do { kp \<leftarrow> five_keys; i \<leftarrow> KR_get kp (sample_info 2); k \<leftarrow> key_at kp 0; Some (i, kr_left k, kr_right k) }
      = Some (0, 1, 2)" by code_simp
  then obtain k where "KR_get kp (sample_info 2) = Some 0" "key_at kp 0 = Some k" "kr_left k = 1" "kr_right k = 2"
    by (auto simp: kp bind_eq_Some_conv)
  with remove_index_differs [OF kp(2), of "sample_info 2" 0 k] kp(1) show ?thesis by auto
qed

end
