(* ===== verification/Prime_Size.thy ===== *)
theory Prime_Size
  imports Prelude "HOL-Library.Signed_Division"
begin

text \<open>
  The choice of a hash table size, \<^verbatim>\<open>librdb/src/prime.cpp\<close>: an integer square root by
  bisection, a primality test by trial division over the numbers next to a multiple of six, and
  the search for the next prime. The C operators \<^verbatim>\<open>/\<close> and \<^verbatim>\<open>%\<close> truncate (\<open>sdiv\<close>, \<open>smod\<close>).
\<close>

section \<open>The code\<close>

function FloorSqrt_loop :: "int \<Rightarrow> int \<Rightarrow> int \<Rightarrow> int \<Rightarrow> int" where
  "FloorSqrt_loop number lo hi res =
     (if lo \<le> hi then
        let mid = (lo + hi) sdiv 2; sq = mid * mid in
        if sq < number then FloorSqrt_loop number (mid + 1) hi mid
        else if sq = number then mid
        else FloorSqrt_loop number lo (mid - 1) res
      else res)"
  by pat_completeness auto

lemma sdiv_pos [simp]: "0 \<le> a \<Longrightarrow> 0 < b \<Longrightarrow> a sdiv b = a div (b :: int)"
  by (auto simp: signed_divide_int_def sgn_if)

lemma smod_pos [simp]: "0 \<le> a \<Longrightarrow> 0 < b \<Longrightarrow> a smod b = a mod (b :: int)"
  by (cases "a = 0") (auto simp: signed_modulo_int_def minus_div_mult_eq_mod)

lemma sdiv_2_mid: "lo \<le> hi \<Longrightarrow> lo \<le> (lo + hi) sdiv 2 \<and> (lo + hi) sdiv 2 \<le> (hi :: int)"
  by (auto simp: signed_divide_int_def sgn_if)

termination FloorSqrt_loop
  by (relation "measure (\<lambda>(_, lo, hi, _). nat (hi - lo + 1))")
    (use sdiv_2_mid in \<open>fastforce+\<close>)

declare FloorSqrt_loop.simps [simp del]

definition FloorSqrt :: "int \<Rightarrow> int" where
  "FloorSqrt number = FloorSqrt_loop number 1 number 0"

partial_function (option) IsPrime_loop :: "int \<Rightarrow> int \<Rightarrow> int \<Rightarrow> int \<Rightarrow> int option" where
  "IsPrime_loop number sq i ni =
     (if i \<le> sq then
        if number smod i = 0 then Some 0
        else IsPrime_loop number sq (i + ni) (6 - ni)
      else Some 1)"

declare IsPrime_loop.simps [code]

definition IsPrime :: "int \<Rightarrow> int option" where
  "IsPrime number =
     (if number = 1 \<or> number = 2 \<or> number = 3 then Some 1
      else if number smod 2 = 0 then Some 0
      else if number smod 3 = 0 then Some 0
      else IsPrime_loop number (FloorSqrt number) 5 2)"

partial_function (option) NextPrime_start :: "int \<Rightarrow> int \<Rightarrow> int \<Rightarrow> int option" where
  "NextPrime_start n i nxt =
     (if nxt < n then NextPrime_start n (i + 1) (6 * (i + 1) - 1) else Some nxt)"

declare NextPrime_start.simps [code]

partial_function (option) NextPrime_search :: "int \<Rightarrow> int \<Rightarrow> int option" where
  "NextPrime_search nxt ni = do {
     p \<leftarrow> IsPrime nxt;
     if p = 0 then NextPrime_search (nxt + ni) (6 - ni) else Some nxt
   }"

declare NextPrime_search.simps [code]

definition NextPrime :: "int \<Rightarrow> int option" where
  "NextPrime n = do {
     p \<leftarrow> IsPrime n;
     if p \<noteq> 0 then Some n
     else do {
       let i = n sdiv 6 + 1;
       nxt \<leftarrow> NextPrime_start n i (6 * i - 1);
       NextPrime_search nxt 2
     }
   }"

section \<open>Square root\<close>

definition is_root :: "int \<Rightarrow> int \<Rightarrow> bool" where
  "is_root n r \<longleftrightarrow> 0 \<le> r \<and> r * r \<le> n \<and> n < (r + 1) * (r + 1)"

lemma FloorSqrt_loop_spec:
  "1 \<le> lo \<Longrightarrow> res = lo - 1 \<Longrightarrow> res * res \<le> number \<Longrightarrow> number < (hi + 1) * (hi + 1) \<Longrightarrow> lo \<le> hi + 1 \<Longrightarrow>
   is_root number (FloorSqrt_loop number lo hi res)"
proof (induction number lo hi res rule: FloorSqrt_loop.induct)
  case (1 number lo hi res)
  show ?case
  proof (cases "lo \<le> hi")
    case False
    with "1.prems"(5) have "hi + 1 = lo" by simp
    with False "1.prems" show ?thesis by (simp add: FloorSqrt_loop.simps is_root_def)
  next
    case True
    define mid where "mid = (lo + hi) div 2"
    have mid: "(lo + hi) sdiv 2 = mid" "lo \<le> mid" "mid \<le> hi"
      using "1.prems" True by (auto simp: mid_def)
    then have eq: "FloorSqrt_loop number lo hi res =
      (if mid * mid < number then FloorSqrt_loop number (mid + 1) hi mid
       else if mid * mid = number then mid else FloorSqrt_loop number lo (mid - 1) res)"
      using True by (subst FloorSqrt_loop.simps) (simp add: Let_def)
    have "mid * mid < number \<Longrightarrow> is_root number (FloorSqrt_loop number (mid + 1) hi mid)"
      by (rule "1.IH"(1) [OF True mid(1) [symmetric] refl]) (use mid "1.prems" in auto)
    moreover have "mid * mid = number \<Longrightarrow> is_root number mid"
      using mid "1.prems" by (auto simp: is_root_def algebra_simps)
    moreover have "number < mid * mid \<Longrightarrow> is_root number (FloorSqrt_loop number lo (mid - 1) res)"
      by (rule "1.IH"(2) [OF True mid(1) [symmetric] refl]) (use mid "1.prems" in auto)
    ultimately show ?thesis unfolding eq by auto
  qed
qed

lemma FloorSqrt_root:
  assumes "1 \<le> n"
  shows "is_root n (FloorSqrt n)"
proof -
  have "(n + 1) * (n + 1) = n * n + n + n + 1" "0 \<le> n * n" by (simp_all add: algebra_simps)
  then have "n < (n + 1) * (n + 1)" using assms by linarith
  with assms show ?thesis unfolding FloorSqrt_def by (intro FloorSqrt_loop_spec) auto
qed

section \<open>Trial division\<close>

definition is_prime :: "int \<Rightarrow> bool" where
  "is_prime n \<longleftrightarrow> 1 < n \<and> (\<forall>d. 1 < d \<and> d < n \<longrightarrow> \<not> d dvd n)"

text \<open>A number that is composite has a divisor up to its root.\<close>

lemma composite_small:
  assumes "is_root n r" "1 < n" "\<not> is_prime n"
  shows "\<exists>d. 1 < d \<and> d \<le> r \<and> d dvd n"
proof -
  from assms obtain d e where d: "1 < d" "d < n" "n = d * e" by (auto simp: is_prime_def dvd_def)
  then have e: "1 < e" by (smt (verit) mult_le_0_iff mult_cancel_left2)
  show ?thesis
  proof (cases "d \<le> r")
    case True
    with d show ?thesis by auto
  next
    case False
    have "e \<le> r"
    proof (rule ccontr)
      assume "\<not> e \<le> r"
      with False have "(r + 1) * (r + 1) \<le> d * e" using assms(1) by (intro mult_mono) (auto simp: is_root_def)
      with d(3) assms(1) show False by (simp add: is_root_def)
    qed
    with d(3) e show ?thesis by (intro exI [of _ e]) auto
  qed
qed

text \<open>Numbers coprime to six are next to a multiple of six.\<close>

definition six_step :: "int \<Rightarrow> int \<Rightarrow> bool" where
  "six_step i ni \<longleftrightarrow> ni = 2 \<and> i mod 6 = 5 \<or> ni = 4 \<and> i mod 6 = 1"

lemma six_step_next: "six_step i ni \<Longrightarrow> six_step (i + ni) (6 - ni) \<and> i < i + ni"
  unfolding six_step_def by presburger

lemma six_step_gap:
  assumes "six_step i ni" "i < d" "d < i + ni"
  shows "2 dvd d \<or> 3 dvd d"
  using assms unfolding six_step_def by presburger

lemma IsPrime_loop_spec:
  assumes "six_step i ni" "5 \<le> i" "\<not> 2 dvd n" "\<not> 3 dvd n" "1 \<le> n"
    "\<forall>d. 1 < d \<and> d < i \<longrightarrow> \<not> d dvd n"
  shows "IsPrime_loop n sq i ni = Some (if \<exists>d. 1 < d \<and> d \<le> sq \<and> d dvd n then 0 else 1)"
  using assms
proof (induction "nat (sq + 6 - i)" arbitrary: i ni rule: less_induct)
  case less
  show ?case
  proof (cases "i \<le> sq")
    case False
    with less.prems show ?thesis by (subst IsPrime_loop.simps) (auto simp: not_le)
  next
    case True
    show ?thesis
    proof (cases "i dvd n")
      case d: True
      then have "n smod i = 0" using less.prems by simp
      then show ?thesis using True d less.prems by (subst IsPrime_loop.simps) auto
    next
      case nd: False
      note st = six_step_next [OF less.prems(1)]
      have "\<not> d dvd n" if "1 < d" "d < i + ni" for d
      proof (cases d i rule: linorder_cases)
        case greater
        with that six_step_gap [OF less.prems(1)] less.prems(3,4) show ?thesis by (metis dvd_trans)
      qed (use less.prems that nd in auto)
      then have "IsPrime_loop n sq (i + ni) (6 - ni) = Some (if \<exists>d. 1 < d \<and> d \<le> sq \<and> d dvd n then 0 else 1)"
        using True st less.prems by (intro less.hyps) auto
      moreover have "n smod i \<noteq> 0" using nd less.prems by auto
      ultimately show ?thesis using True by (subst IsPrime_loop.simps) simp
    qed
  qed
qed

lemma IsPrime_Some:
  assumes "2 \<le> n"
  shows "IsPrime n = Some (if is_prime n then 1 else 0)"
proof -
  consider "n = 2 \<or> n = 3" | "4 \<le> n" "2 dvd n \<or> 3 dvd n" | "4 \<le> n" "\<not> 2 dvd n" "\<not> 3 dvd n"
    using assms by linarith
  then show ?thesis
  proof cases
    case 1
    moreover have "is_prime 2" by (auto simp: is_prime_def)
    moreover have "is_prime 3"
    proof -
      have "\<not> d dvd 3" if "1 < d" "d < 3" for d :: int
      proof -
        have "d = 2" using that by linarith
        then show ?thesis by simp
      qed
      then show ?thesis by (simp add: is_prime_def)
    qed
    ultimately show ?thesis by (auto simp: IsPrime_def)
  next
    case 2
    then have "2 < n \<and> 2 dvd n \<or> 3 < n \<and> 3 dvd n" by auto
    then have "\<not> is_prime n" unfolding is_prime_def by (metis numeral_One numeral_less_iff semiring_norm(76,77))
    with 2 show ?thesis by (auto simp: IsPrime_def)
  next
    case 3
    have lp: "IsPrime_loop n (FloorSqrt n) 5 2 =
      Some (if \<exists>d. 1 < d \<and> d \<le> FloorSqrt n \<and> d dvd n then 0 else 1)"
    proof (rule IsPrime_loop_spec)
      have "d = 2 \<or> d = 3 \<or> d = 4" if "1 < d" "d < 5" for d :: int using that by linarith
      moreover have "\<not> 4 dvd n" using 3 by presburger
      ultimately show "\<forall>d. 1 < d \<and> d < 5 \<longrightarrow> \<not> d dvd n" using 3 by metis
    qed (use 3 in \<open>auto simp: six_step_def\<close>)
    have r: "is_root n (FloorSqrt n)" using 3 by (intro FloorSqrt_root) auto
    have "FloorSqrt n < n"
    proof (rule ccontr)
      assume "\<not> FloorSqrt n < n"
      then have "n * n \<le> FloorSqrt n * FloorSqrt n" using 3 by (intro mult_mono) auto
      with r have "n * n \<le> n" by (simp add: is_root_def)
      with 3 show False by (simp add: mult_le_cancel_left2)
    qed
    then have "(\<exists>d. 1 < d \<and> d \<le> FloorSqrt n \<and> d dvd n) \<longleftrightarrow> \<not> is_prime n"
      using composite_small [OF r] 3 by (force simp: is_prime_def)
    with lp 3 show ?thesis by (auto simp: IsPrime_def)
  qed
qed

section \<open>The next prime\<close>

lemma prime_divisor: "2 \<le> n \<Longrightarrow> \<exists>p. is_prime p \<and> p dvd n"
proof (induction "nat n" arbitrary: n rule: less_induct)
  case less
  show ?case
  proof (cases "is_prime n")
    case False
    with less.prems obtain d where d: "1 < d" "d < n" "d dvd n" by (auto simp: is_prime_def)
    with less.hyps [of d] obtain p where "is_prime p" "p dvd d" by auto
    with d(3) show ?thesis using dvd_trans by blast
  qed auto
qed

lemma prime_above: "\<exists>p \<ge> N. is_prime p"
proof -
  let ?f = "int (fact (nat N)) + 1"
  have "(1::nat) \<le> fact (nat N)" by (simp add: fact_ge_1)
  then have "2 \<le> ?f" by linarith
  from prime_divisor [OF this] obtain p where p: "is_prime p" "p dvd ?f" by blast
  have "N \<le> p"
  proof (rule ccontr)
    assume "\<not> N \<le> p"
    with p(1) have "1 \<le> nat p" "nat p \<le> nat N" by (auto simp: is_prime_def)
    then have "nat p dvd fact (nat N)" by (rule dvd_fact)
    then have "int (nat p) dvd int (fact (nat N))" by (rule of_nat_dvd_iff [THEN iffD2])
    then have "p dvd int (fact (nat N))" using p(1) by (simp add: is_prime_def)
    with p(2) have "p dvd 1" using dvd_add_right_iff by blast
    with p(1) show False by (simp add: is_prime_def)
  qed
  with p(1) show ?thesis by blast
qed

lemma prime_not_23: "is_prime p \<Longrightarrow> 3 < p \<Longrightarrow> \<not> 2 dvd p \<and> \<not> 3 dvd p"
  by (auto simp: is_prime_def)

lemma NextPrime_search_spec:
  assumes "six_step nxt ni" "5 \<le> nxt" "is_prime q" "nxt \<le> q"
  shows "\<exists>p. NextPrime_search nxt ni = Some p \<and> nxt \<le> p \<and> is_prime p \<and> (\<forall>q. is_prime q \<and> nxt \<le> q \<longrightarrow> p \<le> q)"
  using assms
proof (induction "nat (q - nxt)" arbitrary: nxt ni rule: less_induct)
  case less
  have ip: "IsPrime nxt = Some (if is_prime nxt then 1 else 0)" using less.prems by (intro IsPrime_Some) simp
  show ?case
  proof (cases "is_prime nxt")
    case True
    then show ?thesis using ip by (subst NextPrime_search.simps) auto
  next
    case False
    note st = six_step_next [OF less.prems(1)]
    have gap: "nxt + ni \<le> q'" if "is_prime q'" "nxt \<le> q'" for q'
    proof (rule ccontr)
      assume "\<not> nxt + ni \<le> q'"
      moreover have "q' \<noteq> nxt" using False that by auto
      ultimately have "2 dvd q' \<or> 3 dvd q'" using that six_step_gap [OF less.prems(1)] by auto
      with prime_not_23 [OF that(1)] that(2) less.prems(2) show False by auto
    qed
    with less.prems have "nxt + ni \<le> q" by blast
    with st less.hyps [of "nxt + ni" "6 - ni"] less.prems obtain p where
      "NextPrime_search (nxt + ni) (6 - ni) = Some p" "nxt + ni \<le> p" "is_prime p"
      "\<forall>q. is_prime q \<and> nxt + ni \<le> q \<longrightarrow> p \<le> q" by auto
    moreover have "NextPrime_search nxt ni = NextPrime_search (nxt + ni) (6 - ni)"
      using ip False by (subst NextPrime_search.simps) simp
    ultimately show ?thesis using gap st by (metis order.trans less_le_not_le)
  qed
qed

lemma next_start_gap:
  assumes "n \<le> q" "q < 6 * (n div 6 + 1) - 1" "(q::int) \<noteq> n" "\<not> 2 dvd q" "\<not> 3 dvd q"
  shows "6 dvd n \<and> q = n + 1"
  using assms by presburger



end
