(* ===== verification/Allocator.thy ===== *)
theory Allocator
  imports Prelude
begin

text \<open>
  The contract of a page allocator: \<open>holds s L\<close> says that state \<open>s\<close> has handed out exactly
  the pages in \<open>L\<close>. The two page managers of librdb provide it; a client that frees only what it
  holds never sees one page twice.
\<close>

text \<open>What a client does: it holds \<open>L\<close> at first and \<open>L'\<close> in the end, and frees only what it holds.\<close>

inductive client ::
  "('s \<Rightarrow> ('s \<times> 'a option) option) \<Rightarrow> ('s \<Rightarrow> 'a \<Rightarrow> 's option) \<Rightarrow> 's \<Rightarrow> 'a set \<Rightarrow> 's \<Rightarrow> 'a set \<Rightarrow> bool"
  for alloc free where
  client_stop: "client alloc free s L s L"
| client_got: "alloc s = Some (s1, Some a) \<Longrightarrow> client alloc free s1 (insert a L) s' L' \<Longrightarrow> client alloc free s L s' L'"
| client_refused: "alloc s = Some (s1, None) \<Longrightarrow> client alloc free s1 L s' L' \<Longrightarrow> client alloc free s L s' L'"
| client_freed: "a \<in> L \<Longrightarrow> free s a = Some s1 \<Longrightarrow> client alloc free s1 (L - {a}) s' L' \<Longrightarrow> client alloc free s L s' L'"

locale allocator =
  fixes holds :: "'s \<Rightarrow> 'a set \<Rightarrow> bool"
    and alloc :: "'s \<Rightarrow> ('s \<times> 'a option) option"
    and free :: "'s \<Rightarrow> 'a \<Rightarrow> 's option"
  assumes alloc_law: "holds s L \<Longrightarrow>
      \<exists>s' r. alloc s = Some (s', r) \<and>
        (case r of None \<Rightarrow> holds s' L | Some a \<Rightarrow> a \<notin> L \<and> holds s' (insert a L))"
    and free_law: "holds s L \<Longrightarrow> a \<in> L \<Longrightarrow> \<exists>s'. free s a = Some s' \<and> holds s' (L - {a})"
begin

lemma client_holds: "client alloc free s L s' L' \<Longrightarrow> holds s L \<Longrightarrow> holds s' L'"
proof (induction rule: client.induct)
  case (client_got s s1 a L s' L')
  then show ?case using alloc_law [of s L] by auto
next
  case (client_refused s s1 L s' L')
  then show ?case using alloc_law [of s L] by auto
next
  case (client_freed a L s s1 s' L')
  then show ?case using free_law [of s L a] by auto
qed

text \<open>Whatever the client did before, the next page is one it does not hold.\<close>

lemma client_fresh: "client alloc free s L s' L' \<Longrightarrow> holds s L \<Longrightarrow> alloc s' = Some (s'', Some a) \<Longrightarrow> a \<notin> L'"
  using client_holds [of s L s' L'] alloc_law [of s' L'] by auto

end

end
