(* ===== verification/Page_Mgr.thy ===== *)
theory Page_Mgr
  imports Allocator
begin

text \<open>
  The memory page pool of \<^verbatim>\<open>librdb/src/pagemgr.cpp\<close>. Addresses are integers with \<open>0\<close> for null;
  the stack of free addresses is a list with its top first. The amount of memory and the
  outcome of \<^verbatim>\<open>malloc\<close> are arguments. The pool itself (what the pages hold) belongs to the
  theories that use it: \<^verbatim>\<open>get\<close> clears the page it returns.
\<close>

section \<open>The code\<close>

record page_mgr =
  pool :: int
  poolSize :: int
  numOfPages :: int
  numOfFreePages :: int
  pageSize :: int
  nextFreePage :: "int list"

text \<open>
  The constructor's loop. \<^verbatim>\<open>poolSize\<close> is an unsigned 64-bit value, so the test \<^verbatim>\<open>poolSize < 0\<close> is
  never true and the subtraction of 100 MB may wrap around.
\<close>

partial_function (option) pool_alloc ::
  "(64 word \<Rightarrow> int) \<Rightarrow> 64 word \<Rightarrow> (int \<times> 64 word) option" where
  "pool_alloc malloc sz =
     (let p = malloc sz in
      if p = 0 then pool_alloc malloc (sz - 104857600) else Some (p, sz))"

definition PageMgr :: "(64 word \<Rightarrow> int) \<Rightarrow> 64 word \<Rightarrow> int \<Rightarrow> int \<Rightarrow> page_mgr option" where
  "PageMgr malloc memSize psize memUsage = do {
     (p, sz) \<leftarrow> pool_alloc malloc ((memSize * of_int memUsage) div 100);
     let n = to_int32 (uint sz div psize);
     Some \<lparr>pool = p, poolSize = uint sz, numOfPages = n, numOfFreePages = n,
           pageSize = psize, nextFreePage = [p]\<rparr>
   }"

definition PageMgr_get :: "page_mgr \<Rightarrow> page_mgr \<times> int" where
  "PageMgr_get m =
     (case nextFreePage m of
        [] \<Rightarrow> (m, 0)
      | addr # rest \<Rightarrow>
          if numOfFreePages m > 0 then
            let stk = (if rest = [] then
                         let nfaddr = addr + pageSize m in
                         if nfaddr < pool m + poolSize m then [nfaddr] else []
                       else rest)
            in (m\<lparr>nextFreePage := stk, numOfFreePages := numOfFreePages m - 1\<rparr>, addr)
          else (m, 0))"

definition PageMgr_free :: "page_mgr \<Rightarrow> int \<Rightarrow> page_mgr option" where
  "PageMgr_free m addr =
     (if pool m \<le> addr \<and> addr < pool m + poolSize m \<and> (addr - pool m) mod pageSize m = 0
      then Some (m\<lparr>nextFreePage := addr # nextFreePage m, numOfFreePages := numOfFreePages m + 1\<rparr>)
      else None)"

section \<open>The pages handed out\<close>

definition page_at :: "page_mgr \<Rightarrow> nat \<Rightarrow> int" where
  "page_at m k = pool m + int k * pageSize m"

text \<open>
  \<open>h\<close> pages have been in use at some time: some are handed out, the others are on the stack.
  Below them the stack holds the first page never used. Once every page has been used the
  bottom entry may be any address, even one that is handed out; the count of free pages
  keeps it from being taken.
\<close>

definition pm_parts :: "page_mgr \<Rightarrow> int set \<Rightarrow> int list \<Rightarrow> int list \<Rightarrow> nat \<Rightarrow> bool" where
  "pm_parts m L fr rest h \<longleftrightarrow>
     nextFreePage m = fr @ rest \<and> int h \<le> numOfPages m \<and> distinct fr \<and> set fr \<inter> L = {} \<and>
     set fr \<union> L = page_at m ` {..<h} \<and> length rest \<le> 1 \<and>
     (int h < numOfPages m \<longrightarrow> rest = [page_at m h])"

definition pm_holds :: "page_mgr \<Rightarrow> int set \<Rightarrow> bool" where
  "pm_holds m L \<longleftrightarrow>
     0 < pool m \<and> 0 < pageSize m \<and> 0 \<le> poolSize m \<and> numOfPages m = poolSize m div pageSize m \<and>
     numOfFreePages m = numOfPages m - int (card L) \<and> (\<exists>fr rest h. pm_parts m L fr rest h)"

lemma page_at_inj: "0 < pageSize m \<Longrightarrow> page_at m i = page_at m j \<longleftrightarrow> i = j"
  by (simp add: page_at_def)

lemma pm_parts_card:
  assumes "pm_parts m L fr rest h" "0 < pageSize m"
  shows "finite L \<and> h = length fr + card L"
proof -
  have "finite (set fr \<union> L)" "card (set fr \<union> L) = h"
    using assms card_image [of "page_at m" "{..<h}"] by (auto simp: pm_parts_def inj_on_def page_at_inj)
  then show ?thesis using assms(1) card_Un_disjoint [of "set fr" L] distinct_card [of fr]
    by (auto simp: pm_parts_def)
qed

lemma page_at_bounds:
  assumes "pm_holds m L" "int k < numOfPages m"
  shows "0 < page_at m k" "pool m \<le> page_at m k" "page_at m k < pool m + poolSize m"
    "(page_at m k - pool m) mod pageSize m = 0" "page_at m k + pageSize m \<le> pool m + poolSize m"
proof -
  have p: "0 < pool m" "0 < pageSize m" "numOfPages m = poolSize m div pageSize m"
    using assms(1) by (auto simp: pm_holds_def)
  have "(int k + 1) * pageSize m \<le> numOfPages m * pageSize m" using assms(2) p by (intro mult_right_mono) auto
  also have "\<dots> \<le> poolSize m" using p pos_mod_sign [of "pageSize m" "poolSize m"]
    by (simp add: minus_mod_eq_div_mult [symmetric])
  finally show "page_at m k + pageSize m \<le> pool m + poolSize m" by (simp add: page_at_def algebra_simps)
  then show "page_at m k < pool m + poolSize m" using p by simp
  have "0 \<le> int k * pageSize m" using p by simp
  then show "0 < page_at m k" "pool m \<le> page_at m k" using p unfolding page_at_def by linarith+
  show "(page_at m k - pool m) mod pageSize m = 0" by (simp add: page_at_def)
qed

lemma rest_single: "length rest \<le> 1 \<Longrightarrow> rest = [] \<or> (\<exists>x. rest = [x])"
  by (cases rest) auto

lemma PageMgr_get_freed:
  assumes "pm_holds m L" "pm_parts m L (a # fr) rest h"
  shows "\<exists>m'. PageMgr_get m = (m', a) \<and> a \<notin> L \<and> a \<noteq> 0 \<and> pm_holds m' (insert a L)"
proof -
  have p: "0 < pool m" "0 < pageSize m" "0 \<le> poolSize m" "numOfPages m = poolSize m div pageSize m"
    "numOfFreePages m = numOfPages m - int (card L)" using assms(1) by (auto simp: pm_holds_def)
  note q = assms(2) [unfolded pm_parts_def]
  have c: "finite L" "h = Suc (length fr) + card L" using pm_parts_card [OF assms(2) p(2)] by auto
  have "a \<in> page_at m ` {..<h}" using q by auto
  then obtain k where "k < h" "a = page_at m k" by auto
  with q page_at_bounds [OF assms(1), of k] have a0: "a \<noteq> 0" by auto
  have aL: "a \<notin> L" "a \<notin> set fr" using q by auto
  define stk where "stk = (if fr @ rest = [] then
    let nfaddr = a + pageSize m in if nfaddr < pool m + poolSize m then [nfaddr] else [] else fr @ rest)"
  define m' where "m' = m\<lparr>nextFreePage := stk, numOfFreePages := numOfFreePages m - 1\<rparr>"
  have "numOfFreePages m > 0" using p c q by auto
  then have get: "PageMgr_get m = (m', a)" using q by (simp add: PageMgr_get_def m'_def stk_def)
  have "int h < numOfPages m \<Longrightarrow> stk = fr @ rest" using q by (auto simp: stk_def)
  moreover obtain rest' where "stk = fr @ rest'" "length rest' \<le> 1"
    by (cases "fr @ rest = []") (use q in \<open>auto simp: stk_def Let_def\<close>)
  ultimately have "\<exists>rest'. pm_parts m' (insert a L) fr rest' h"
    using q aL by (intro exI [of _ "if int h < numOfPages m then rest else rest'"])
      (auto simp: pm_parts_def m'_def page_at_def)
  with p c aL have "pm_holds m' (insert a L)" by (auto simp: pm_holds_def m'_def)
  with get aL(1) a0 show ?thesis by blast
qed

lemma PageMgr_get_next:
  assumes "pm_holds m L" "pm_parts m L [] rest h" "int h < numOfPages m"
  shows "\<exists>m' a. PageMgr_get m = (m', a) \<and> a \<notin> L \<and> a \<noteq> 0 \<and> pm_holds m' (insert a L)"
proof -
  have p: "0 < pool m" "0 < pageSize m" "0 \<le> poolSize m" "numOfPages m = poolSize m div pageSize m"
    "numOfFreePages m = numOfPages m - int (card L)" using assms(1) by (auto simp: pm_holds_def)
  let ?a = "page_at m h"
  have q: "nextFreePage m = [?a]" "L = page_at m ` {..<h}" using assms by (auto simp: pm_parts_def)
  have c: "finite L" "h = card L" using pm_parts_card [OF assms(2) p(2)] by auto
  have aL: "?a \<notin> L" using q page_at_inj [OF p(2)] by auto
  define stk where "stk = (if page_at m (Suc h) < pool m + poolSize m then [page_at m (Suc h)] else [])"
  define m' where "m' = m\<lparr>nextFreePage := stk, numOfFreePages := numOfFreePages m - 1\<rparr>"
  have "numOfFreePages m > 0" using p c assms(3) by simp
  moreover have "?a + pageSize m = page_at m (Suc h)" by (simp add: page_at_def algebra_simps)
  ultimately have get: "PageMgr_get m = (m', ?a)" using q(1) by (simp add: PageMgr_get_def m'_def stk_def Let_def)
  have "page_at m (Suc h) < pool m + poolSize m" if "int (Suc h) < numOfPages m"
    using page_at_bounds(3) [OF assms(1) that] .
  then have "pm_parts m' (insert ?a L) [] stk (Suc h)"
    using q assms(3) by (auto simp: pm_parts_def m'_def stk_def page_at_def lessThan_Suc)
  with p c aL have "pm_holds m' (insert ?a L)" by (auto simp: pm_holds_def m'_def)
  with get aL page_at_bounds(1) [OF assms(1,3)] show ?thesis by auto
qed

lemma PageMgr_get_holds:
  assumes "pm_holds m L"
  shows "(\<exists>m' a. PageMgr_get m = (m', a) \<and> a \<notin> L \<and> a \<noteq> 0 \<and> pm_holds m' (insert a L)) \<or>
    PageMgr_get m = (m, 0) \<and> int (card L) = numOfPages m"
proof -
  from assms obtain fr rest h where q: "pm_parts m L fr rest h" by (auto simp: pm_holds_def)
  show ?thesis
  proof (cases fr)
    case (Cons a fr')
    with PageMgr_get_freed [OF assms] q show ?thesis by metis
  next
    case Nil
    show ?thesis
    proof (cases "int h < numOfPages m")
      case True
      with PageMgr_get_next [OF assms] q Nil show ?thesis by metis
    next
      case False
      with q Nil pm_parts_card [OF q] assms have "numOfFreePages m = 0" "int (card L) = numOfPages m"
        by (auto simp: pm_holds_def pm_parts_def)
      then show ?thesis by (simp add: PageMgr_get_def split: list.splits)
    qed
  qed
qed

lemma PageMgr_free_holds:
  assumes "pm_holds m L" "a \<in> L"
  shows "\<exists>m'. PageMgr_free m a = Some m' \<and> pm_holds m' (L - {a})"
proof -
  from assms obtain fr rest h where q: "pm_parts m L fr rest h" by (auto simp: pm_holds_def)
  have c: "finite L" using pm_parts_card [OF q] assms(1) by (auto simp: pm_holds_def)
  from q assms(2) have "a \<in> page_at m ` {..<h}" by (auto simp: pm_parts_def)
  then obtain k where k: "a = page_at m k" "int k < numOfPages m" using q by (force simp: pm_parts_def)
  define m' where "m' = m\<lparr>nextFreePage := a # nextFreePage m, numOfFreePages := numOfFreePages m + 1\<rparr>"
  have "PageMgr_free m a = Some m'"
    using page_at_bounds [OF assms(1) k(2)] k(1) by (simp add: PageMgr_free_def m'_def)
  moreover have "pm_parts m' (L - {a}) (a # fr) rest h"
    using q assms(2) by (auto simp: pm_parts_def m'_def page_at_def)
  moreover have "int (card (L - {a})) = int (card L) - 1"
    using card_Suc_Diff1 [OF c assms(2)] by linarith
  ultimately show ?thesis using assms(1) by (auto simp: pm_holds_def m'_def)
qed

definition pm_alloc :: "page_mgr \<Rightarrow> (page_mgr \<times> int option) option" where
  "pm_alloc m = (case PageMgr_get m of (m', a) \<Rightarrow> Some (m', if a = 0 then None else Some a))"

interpretation pm: allocator pm_holds pm_alloc PageMgr_free
proof
  fix s L a
  assume h: "pm_holds s L"
  show "\<exists>s' r. pm_alloc s = Some (s', r) \<and>
    (case r of None \<Rightarrow> pm_holds s' L | Some a \<Rightarrow> a \<notin> L \<and> pm_holds s' (insert a L))"
    using PageMgr_get_holds [OF h] h by (auto simp: pm_alloc_def)
  show "a \<in> L \<Longrightarrow> \<exists>s'. PageMgr_free s a = Some s' \<and> pm_holds s' (L - {a})"
    by (rule PageMgr_free_holds [OF h])
qed

section \<open>Properties\<close>

lemma PageMgr_holds:
  assumes "PageMgr malloc memSize psize memUsage = Some m" "0 < psize" "\<And>n. 0 \<le> malloc n"
    "poolSize m div psize < 2147483648"
  shows "pm_holds m {}"
proof -
  have "p \<noteq> 0 \<and> p = malloc sz" if "pool_alloc malloc n = Some (p, sz)" for n p sz
    using pool_alloc.raw_induct [OF _ that, of "\<lambda>ml n r. ml = malloc \<longrightarrow> fst r \<noteq> 0 \<and> fst r = malloc (snd r)"]
    by (fastforce simp: Let_def split: if_splits)
  with assms(1) obtain sz where sz: "malloc sz \<noteq> 0"
    "m = \<lparr>pool = malloc sz, poolSize = uint sz, numOfPages = to_int32 (uint sz div psize),
      numOfFreePages = to_int32 (uint sz div psize), pageSize = psize, nextFreePage = [malloc sz]\<rparr>"
    by (force simp: PageMgr_def Let_def bind_eq_Some_conv)
  have "0 \<le> uint sz div psize" using assms(2) by (simp add: pos_imp_zdiv_nonneg_iff)
  moreover from this have "to_int32 (uint sz div psize) = uint sz div psize"
    using assms(4) sz(2) by (simp add: to_int32_id)
  moreover have "0 < malloc sz" using assms(3) [of sz] sz(1) by linarith
  moreover have "pm_parts m {} [] [malloc sz] 0"
    using calculation sz(2) by (simp add: pm_parts_def page_at_def)
  ultimately show ?thesis using assms(2) sz(2) unfolding pm_holds_def by auto
qed

lemma pm_holds_mem:
  assumes "pm_holds m L" "a \<in> L"
  shows "pool m \<le> a \<and> a + pageSize m \<le> pool m + poolSize m \<and> (a - pool m) mod pageSize m = 0"
proof -
  from assms obtain k where "a = page_at m k" "int k < numOfPages m" by (force simp: pm_holds_def pm_parts_def)
  with page_at_bounds [OF assms(1), of k] show ?thesis by simp
qed

lemma PageMgr_get_frame: "PageMgr_get m = (m', a) \<Longrightarrow>
   pool m' = pool m \<and> poolSize m' = poolSize m \<and> pageSize m' = pageSize m"
  by (auto simp: PageMgr_get_def Let_def split: list.splits if_splits)

text \<open>
  C10: from a new pool, whatever a client that frees only pages it holds has done, none of the
  pages it holds is refused by the assertions of \<^verbatim>\<open>free\<close>; the next page it is given is one it
  does not hold and lies whole inside the pool at a multiple of the page size; and the pool
  says it is exhausted only when all its pages are handed out.
\<close>

theorem PageMgr_no_double_allocation:
  assumes "PageMgr malloc memSize psize memUsage = Some m" "0 < psize" "\<And>n. 0 \<le> malloc n"
    "poolSize m div psize < 2147483648" "client pm_alloc PageMgr_free m {} m' L"
  shows "(\<forall>a\<in>L. PageMgr_free m' a \<noteq> None) \<and>
    (case PageMgr_get m' of (m'', a) \<Rightarrow>
      if a = 0 then int (card L) = numOfPages m'
      else a \<notin> L \<and> pool m' \<le> a \<and> a + pageSize m' \<le> pool m' + poolSize m' \<and> (a - pool m') mod pageSize m' = 0)"
proof -
  have h: "pm_holds m' L" using pm.client_holds PageMgr_holds assms by blast
  from PageMgr_free_holds [OF h] have "\<forall>a\<in>L. PageMgr_free m' a \<noteq> None" by auto
  with PageMgr_get_holds [OF h] show ?thesis
    using pm_holds_mem PageMgr_get_frame by (fastforce split: prod.splits)
qed

theorem PageMgr_no_double_allocation_witness:
  "\<exists>m m'. PageMgr (\<lambda>n. 8192) 20480 4096 50 = Some m \<and> pm_alloc m = Some (m', Some 8192) \<and>
     snd (PageMgr_get m') = 12288 \<and> 12288 \<notin> {8192 :: int}"
proof -
  have "map_option (\<lambda>m. (pm_alloc m \<noteq> None, snd (PageMgr_get (fst (PageMgr_get m))))) (PageMgr (\<lambda>n. 8192) 20480 4096 50)
     = Some (True, 12288)" by (simp add: PageMgr_def pool_alloc.simps PageMgr_get_def pm_alloc_def Let_def to_int32_id)
  then obtain m where m: "PageMgr (\<lambda>n. 8192) 20480 4096 50 = Some m" "snd (PageMgr_get (fst (PageMgr_get m))) = 12288" by auto
  moreover from m(1) have ps: "poolSize m div 4096 < 2147483648"
    by (auto simp: PageMgr_def pool_alloc.simps Let_def)
  moreover from m(1) have "pm_alloc m = Some (fst (PageMgr_get m), Some 8192)"
    by (auto simp: PageMgr_def pool_alloc.simps PageMgr_get_def pm_alloc_def Let_def to_int32_id)
  moreover from this have "client pm_alloc PageMgr_free m {} (fst (PageMgr_get m)) {8192}"
    by (blast intro: client_got client_stop)
  ultimately show ?thesis
    using PageMgr_no_double_allocation [OF m(1), of "fst (PageMgr_get m)" "{8192}"] ps by auto
qed

end
