(* ===== verification/File_IO.thy ===== *)
theory File_IO
  imports Prelude
begin

text \<open>
  The file class of \<^verbatim>\<open>libcom/src/file.cpp\<close> (Unix branch), which every database file derives
  from. The operating system below it is the state of one regular file together with a schedule
  \<open>f_sched\<close> of what its next calls do: succeed with at most so many bytes transferred, be
  interrupted, or fail. Calls beyond the schedule transfer all they are asked for. \<^verbatim>\<open>oserr\<close>
  outputs only feed log messages and are left out; so are the lock calls.
\<close>

section \<open>The operating system's view\<close>

datatype os_result = OsOk nat | OsIntr | OsErr

datatype 'a sys_ret = SysOk 'a | SysIntr | SysErr

record snf_file =
  f_fd :: bool
  f_rd :: bool
  f_wr :: bool
  f_append :: bool
  f_pos :: nat
  f_disk :: "byte list option"
  f_sched :: "os_result list"

definition f_data :: "snf_file \<Rightarrow> byte list" where
  "f_data f = (case f_disk f of None \<Rightarrow> [] | Some d \<Rightarrow> d)"

definition os_next :: "snf_file \<Rightarrow> nat \<Rightarrow> nat sys_ret \<times> snf_file" where
  "os_next f want =
     (case f_sched f of
        [] \<Rightarrow> (SysOk want, f)
      | r # rs \<Rightarrow>
          ((case r of OsOk k \<Rightarrow> SysOk (min want (Suc k)) | OsIntr \<Rightarrow> SysIntr | OsErr \<Rightarrow> SysErr),
           f\<lparr>f_sched := rs\<rparr>))"

definition sys_read :: "snf_file \<Rightarrow> nat \<Rightarrow> byte list sys_ret \<times> snf_file" where
  "sys_read f n =
     (case os_next f n of
        (SysOk k, f) \<Rightarrow>
          if f_rd f then
            let bs = take k (drop (f_pos f) (f_data f)) in (SysOk bs, f\<lparr>f_pos := f_pos f + length bs\<rparr>)
          else (SysErr, f)
      | (SysIntr, f) \<Rightarrow> (SysIntr, f)
      | (SysErr, f) \<Rightarrow> (SysErr, f))"

text \<open>A write past the end leaves a hole of zero bytes.\<close>

definition overwrite :: "byte list \<Rightarrow> nat \<Rightarrow> byte list \<Rightarrow> byte list" where
  "overwrite d p bs =
     take p (d @ replicate (p - length d) 0) @ bs @ drop (p + length bs) d"

definition sys_write :: "snf_file \<Rightarrow> byte list \<Rightarrow> int sys_ret \<times> snf_file" where
  "sys_write f bs =
     (case os_next f (length bs) of
        (SysOk k, f) \<Rightarrow>
          if f_wr f then
            let p = (if f_append f then length (f_data f) else f_pos f) in
            (SysOk (int k),
             f\<lparr>f_disk := Some (overwrite (f_data f) p (take k bs)), f_pos := p + k\<rparr>)
          else (SysErr, f)
      | (SysIntr, f) \<Rightarrow> (SysIntr, f)
      | (SysErr, f) \<Rightarrow> (SysErr, f))"

datatype whence = SEEK_SET | SEEK_CUR | SEEK_END

definition sys_lseek :: "snf_file \<Rightarrow> int \<Rightarrow> whence \<Rightarrow> int sys_ret \<times> snf_file" where
  "sys_lseek f off wh =
     (let base = (case wh of SEEK_SET \<Rightarrow> 0 | SEEK_CUR \<Rightarrow> int (f_pos f) | SEEK_END \<Rightarrow> int (length (f_data f)))
      in case os_next f 0 of
        (SysOk _, f) \<Rightarrow>
          if 0 \<le> base + off then (SysOk (base + off), f\<lparr>f_pos := nat (base + off)\<rparr>) else (SysErr, f)
      | (_, f) \<Rightarrow> (SysErr, f))"

definition sys_ftruncate :: "snf_file \<Rightarrow> int \<Rightarrow> int \<times> snf_file" where
  "sys_ftruncate f n =
     (case os_next f 0 of
        (SysOk _, f) \<Rightarrow>
          if 0 \<le> n \<and> f_wr f
          then (0, f\<lparr>f_disk := Some (take (nat n) (f_data f) @ replicate (nat n - length (f_data f)) 0)\<rparr>)
          else (-1, f)
      | (_, f) \<Rightarrow> (-1, f))"

section \<open>The class\<close>

record open_flags =
  o_read :: bool
  o_write :: bool
  o_append :: bool
  o_create :: bool
  o_truncate :: bool
  o_excl :: bool
  o_sync :: bool

definition open_flags0 :: open_flags where
  "open_flags0 = \<lparr>o_read = False, o_write = False, o_append = False, o_create = False,
     o_truncate = False, o_excl = False, o_sync = False\<rparr>"

definition new_file :: "byte list option \<Rightarrow> os_result list \<Rightarrow> snf_file" where
  "new_file d s = \<lparr>f_fd = False, f_rd = False, f_wr = False, f_append = False, f_pos = 0,
     f_disk = d, f_sched = s\<rparr>"

definition file_open :: "snf_file \<Rightarrow> open_flags \<Rightarrow> snf_file \<times> int" where
  "file_open f fl =
     (let app = o_append fl;
          rd = (app \<or> o_read fl \<and> o_write fl \<or> \<not> o_write fl);
          wr = (app \<or> o_write fl)
      in case os_next f 0 of
        (SysOk _, f) \<Rightarrow>
          if f_disk f = None \<and> \<not> o_create fl \<or> f_disk f \<noteq> None \<and> o_create fl \<and> o_excl fl
          then (f\<lparr>f_fd := False\<rparr>, E_open_failed)
          else (f\<lparr>f_fd := True, f_rd := rd, f_wr := wr, f_append := app, f_pos := 0,
                  f_disk := Some (if o_truncate fl then [] else f_data f)\<rparr>, E_ok)
      | (_, f) \<Rightarrow> (f\<lparr>f_fd := False\<rparr>, E_open_failed))"

function file_read_loop :: "snf_file \<Rightarrow> nat \<Rightarrow> byte list \<Rightarrow> snf_file \<times> int \<times> byte list" where
  "file_read_loop f toRead acc =
     (if toRead = 0 then (f, E_ok, acc)
      else case sys_read f toRead of
        (SysErr, f) \<Rightarrow> (f, E_read_failed, acc)
      | (SysIntr, f) \<Rightarrow> file_read_loop f toRead acc
      | (SysOk bs, f) \<Rightarrow>
          if bs = [] then (f, E_ok, acc) else file_read_loop f (toRead - length bs) (acc @ bs))"
  by pat_completeness auto

lemma os_next_sched: "os_next f n = (r, f') \<Longrightarrow>
   (f_sched f = [] \<and> f' = f \<and> r = SysOk n) \<or> length (f_sched f') < length (f_sched f)"
  by (auto simp: os_next_def split: list.splits os_result.splits)

lemma sys_read_sched: "sys_read f n = (r, f') \<Longrightarrow>
   length (f_sched f') \<le> length (f_sched f) \<and> (r = SysIntr \<longrightarrow> length (f_sched f') < length (f_sched f))"
  using os_next_sched [of f n]
  by (fastforce simp: sys_read_def Let_def split: prod.splits sys_ret.splits if_splits)

termination file_read_loop
  by (relation "measure (\<lambda>(f, n, _). length (f_sched f) + n)")
    (auto dest!: sys_read_sched [OF sym] simp: neq_Nil_conv)

declare file_read_loop.simps [simp del]

text \<open>\<open>buf\<close> and \<open>bRead\<close> say whether the caller's pointers are non-null; the bytes read are returned.\<close>

definition file_read :: "snf_file \<Rightarrow> bool \<Rightarrow> int \<Rightarrow> bool \<Rightarrow> snf_file \<times> int \<times> byte list" where
  "file_read f buf toRead bRead =
     (if \<not> f_fd f then (f, E_invalid_state, [])
      else if \<not> buf then (f, E_invalid_arg, [])
      else if toRead \<le> 0 then (f, E_invalid_arg, [])
      else if \<not> bRead then (f, E_invalid_arg, [])
      else file_read_loop f (nat toRead) [])"

definition file_write :: "snf_file \<Rightarrow> byte list option \<Rightarrow> int \<Rightarrow> bool \<Rightarrow> snf_file \<times> int \<times> int" where
  "file_write f buf toWrite bWritten =
     (if \<not> f_fd f then (f, E_invalid_state, 0)
      else case buf of
        None \<Rightarrow> (f, E_invalid_arg, 0)
      | Some bs \<Rightarrow>
          if toWrite \<le> 0 then (f, E_invalid_arg, 0)
          else if \<not> bWritten then (f, E_invalid_arg, 0)
          else case sys_write f (take (nat toWrite) bs) of
            (SysOk n, f) \<Rightarrow> (f, E_ok, n)
          | (_, f) \<Rightarrow> (f, E_write_failed, 0))"

definition file_seek_wh :: "snf_file \<Rightarrow> whence \<Rightarrow> int \<Rightarrow> snf_file \<times> int \<times> int" where
  "file_seek_wh f wh offset =
     (if \<not> f_fd f then (f, E_invalid_state, -1)
      else if offset < 0 then (f, E_invalid_arg, -1)
      else case sys_lseek f offset wh of
        (SysOk n, f) \<Rightarrow> (f, E_ok, n)
      | (_, f) \<Rightarrow> (f, E_seek_failed, -1))"

definition file_seek :: "snf_file \<Rightarrow> int \<Rightarrow> snf_file \<times> int" where
  "file_seek f offset =
     (case file_seek_wh f SEEK_SET offset of
        (f, r, newOffset) \<Rightarrow>
          if r = E_ok then (f, if offset \<noteq> newOffset then E_seek_failed else r) else (f, r))"

definition file_read_at :: "snf_file \<Rightarrow> int \<Rightarrow> bool \<Rightarrow> int \<Rightarrow> bool \<Rightarrow> snf_file \<times> int \<times> byte list" where
  "file_read_at f offset buf toRead bRead =
     (case file_seek f offset of
        (f, r) \<Rightarrow> if r = E_ok then file_read f buf toRead bRead else (f, r, []))"

definition file_write_at :: "snf_file \<Rightarrow> int \<Rightarrow> byte list option \<Rightarrow> int \<Rightarrow> bool \<Rightarrow> snf_file \<times> int \<times> int" where
  "file_write_at f offset buf toWrite bWritten =
     (case file_seek f offset of
        (f, r) \<Rightarrow> if r = E_ok then file_write f buf toWrite bWritten else (f, r, 0))"

definition file_sync :: "snf_file \<Rightarrow> snf_file \<times> int" where
  "file_sync f =
     (if \<not> f_fd f then (f, E_invalid_state)
      else case os_next f 0 of (SysOk _, f) \<Rightarrow> (f, E_ok) | (_, f) \<Rightarrow> (f, E_sync_failed))"

definition file_size :: "snf_file \<Rightarrow> snf_file \<times> int" where
  "file_size f =
     (if \<not> f_fd f then (f, E_invalid_state)
      else case os_next f 0 of
        (SysOk _, f) \<Rightarrow> (f, int (length (f_data f)))
      | (_, f) \<Rightarrow> (f, E_stat_failed))"

definition file_truncate :: "snf_file \<Rightarrow> int \<Rightarrow> snf_file \<times> int" where
  "file_truncate f fsize =
     (if \<not> f_fd f then (f, E_invalid_state)
      else case file_seek f fsize of
        (f, r) \<Rightarrow>
          if r = E_ok
          then (case sys_ftruncate f fsize of (r, f) \<Rightarrow> (f, if r < 0 then E_trunc_failed else r))
          else (f, r))"

definition file_close :: "snf_file \<Rightarrow> snf_file \<times> int" where
  "file_close f =
     (if f_fd f then
        (case os_next f 0 of
           (SysOk _, f) \<Rightarrow> (f\<lparr>f_fd := False\<rparr>, E_ok)
         | (_, f) \<Rightarrow> (f, E_close_failed))
      else (f, E_ok))"

section \<open>Reading\<close>

lemma os_next_frame: "os_next f n = (r, f') \<Longrightarrow>
   f_fd f' = f_fd f \<and> f_rd f' = f_rd f \<and> f_wr f' = f_wr f \<and> f_append f' = f_append f \<and>
   f_pos f' = f_pos f \<and> f_disk f' = f_disk f"
  by (auto simp: os_next_def split: list.splits)

lemma os_next_SysOk: "os_next f n = (SysOk k, f') \<Longrightarrow> k \<le> n \<and> (0 < n \<longrightarrow> 0 < k)"
  by (auto simp: os_next_def split: list.splits os_result.splits)

lemma sys_read_SysOk:
  assumes "sys_read f n = (SysOk bs, f')"
  shows "\<exists>k \<le> n. bs = take k (drop (f_pos f) (f_data f)) \<and> (0 < n \<longrightarrow> 0 < k) \<and>
    f_pos f' = f_pos f + length bs \<and> f_disk f' = f_disk f \<and> f_fd f' = f_fd f"
proof -
  from assms obtain k f1 where k: "os_next f n = (SysOk k, f1)" "bs = take k (drop (f_pos f1) (f_data f1))"
    "f' = f1\<lparr>f_pos := f_pos f1 + length bs\<rparr>"
    by (auto simp: sys_read_def Let_def split: prod.splits sys_ret.splits if_splits)
  then show ?thesis using os_next_frame [OF k(1)] os_next_SysOk [OF k(1)] by (auto simp: f_data_def)
qed

lemma sys_read_frame: "sys_read f n = (r, f') \<Longrightarrow> r = SysIntr \<or> r = SysErr \<Longrightarrow>
   f_pos f' = f_pos f \<and> f_disk f' = f_disk f \<and> f_fd f' = f_fd f"
  by (auto simp: sys_read_def Let_def dest!: os_next_frame split: prod.splits sys_ret.splits if_splits)

lemma take_chunk: "b = take k D \<Longrightarrow> b @ take j (drop (length b) D) = take (length b + j) D"
  by (simp add: take_add min_def)

text \<open>
  The loop delivers what was asked for, or all that is left in the file, however the system
  splits or interrupts the transfer; when the system fails it delivers a part of it.
\<close>

lemma file_read_loop_spec:
  "file_read_loop f n acc = (f', r, bs) \<Longrightarrow>
   f_disk f' = f_disk f \<and> f_fd f' = f_fd f \<and> (r = E_ok \<or> r = E_read_failed) \<and>
   (\<exists>k \<le> n. bs = acc @ take k (drop (f_pos f) (f_data f)) \<and>
      (r = E_ok \<longrightarrow> take k (drop (f_pos f) (f_data f)) = take n (drop (f_pos f) (f_data f))))"
proof (induction f n acc rule: file_read_loop.induct)
  case (1 f n acc)
  obtain r1 f1 where sr: "sys_read f n = (r1, f1)" by force
  show ?case
  proof (cases "n = 0")
    case True
    with 1(3) show ?thesis by (auto simp: file_read_loop.simps)
  next
    case False
    note step = 1(3) [unfolded file_read_loop.simps [of f n acc], simplified False sr if_False prod.case]
    show ?thesis
    proof (cases r1)
      case SysErr
      with step sys_read_frame [OF sr] show ?thesis by (auto simp: E_defs intro!: exI [of _ 0])
    next
      case SysIntr
      with step have "file_read_loop f1 n acc = (f', r, bs)" by simp
      from 1(2) [OF False sr [symmetric] SysIntr this] sys_read_frame [OF sr] SysIntr show ?thesis
        by (simp add: f_data_def)
    next
      case (SysOk b1)
      from sys_read_SysOk [of f n b1 f1] sr SysOk False obtain k where
        k: "0 < k" "k \<le> n" "b1 = take k (drop (f_pos f) (f_data f))" "f_pos f1 = f_pos f + length b1"
          "f_disk f1 = f_disk f" "f_fd f1 = f_fd f" by auto
      show ?thesis
      proof (cases "b1 = []")
        case True
        with step SysOk k show ?thesis by (auto intro!: exI [of _ 0])
      next
        case ne: False
        with step SysOk have "file_read_loop f1 (n - length b1) (acc @ b1) = (f', r, bs)" by simp
        note ih = 1(1) [OF False sr [symmetric] SysOk ne this]
        have fd: "f_data f1 = f_data f" using k(5) by (simp add: f_data_def)
        from ih [unfolded fd] obtain m where m: "m \<le> n - length b1"
            "bs = (acc @ b1) @ take m (drop (f_pos f1) (f_data f))"
            "r = E_ok \<longrightarrow> take m (drop (f_pos f1) (f_data f)) = take (n - length b1) (drop (f_pos f1) (f_data f))"
            "f_disk f' = f_disk f1" "f_fd f' = f_fd f1" "r = E_ok \<or> r = E_read_failed"
          by blast
        have split: "b1 @ take j (drop (f_pos f1) (f_data f)) = take (length b1 + j) (drop (f_pos f) (f_data f))" for j
          using take_chunk [OF k(3), of j] k(4) by (simp add: add.commute)
        have "length b1 \<le> n" using k(2,3) by simp
        then have le: "length b1 + m \<le> n" and eq: "length b1 + (n - length b1) = n" using m(1) by auto
        have "bs = acc @ take (length b1 + m) (drop (f_pos f) (f_data f))" using m(2) split [of m] by simp
        moreover have "r = E_ok \<longrightarrow> take (length b1 + m) (drop (f_pos f) (f_data f)) = take n (drop (f_pos f) (f_data f))"
          using m(3) split [of m] split [of "n - length b1"] eq by metis
        ultimately show ?thesis using le m(4-6) k(5,6) by metis
      qed
    qed
  qed
qed

lemma file_seek_Ok:
  "file_seek f off = (f', r) \<Longrightarrow>
   f_disk f' = f_disk f \<and> f_fd f' = f_fd f \<and> f_rd f' = f_rd f \<and> f_wr f' = f_wr f \<and> f_append f' = f_append f \<and>
   (r = E_ok \<longrightarrow> f_pos f' = nat off \<and> 0 \<le> off)"
  by (auto simp: file_seek_def file_seek_wh_def sys_lseek_def E_defs Let_def dest!: os_next_frame
      split: prod.splits sys_ret.splits if_splits)

lemma file_read_at_Ok:
  assumes "file_read_at f off True n True = (f', E_ok, bs)"
  shows "bs = take (nat n) (drop (nat off) (f_data f)) \<and> f_disk f' = f_disk f \<and> f_fd f' = f_fd f"
proof -
  obtain f1 r1 where s: "file_seek f off = (f1, r1)" by force
  from assms s have "r1 = E_ok" "file_read_loop f1 (nat n) [] = (f', E_ok, bs)"
    by (auto simp: file_read_at_def file_read_def E_defs split: if_splits)
  with file_read_loop_spec [OF this(2)] file_seek_Ok [OF s] show ?thesis by (auto simp: f_data_def)
qed

section \<open>Writing\<close>

lemma length_overwrite: "length (overwrite d p bs) = max (length d) (p + length bs)"
  by (simp add: overwrite_def)

lemma overwrite_at: "take (length bs) (drop p (overwrite d p bs)) = bs"
  by (simp add: overwrite_def)

lemma overwrite_before: "q + n \<le> p \<Longrightarrow> q + n \<le> length d \<Longrightarrow>
   take n (drop q (overwrite d p bs)) = take n (drop q d)"
  by (simp add: overwrite_def take_drop min_def)

lemma overwrite_after: "p + length bs \<le> q \<Longrightarrow> p \<le> length d \<Longrightarrow>
   take n (drop q (overwrite d p bs)) = take n (drop q d)"
  by (simp add: overwrite_def)

lemma file_write_at_Ok:
  assumes "file_write_at f off (Some bs) n True = (f', E_ok, m)" "\<not> f_append f"
  shows "0 \<le> m \<and> m \<le> int (length (take (nat n) bs)) \<and> 0 \<le> off \<and>
    f_disk f' = Some (overwrite (f_data f) (nat off) (take (nat m) (take (nat n) bs))) \<and>
    f_fd f' = f_fd f \<and> f_rd f' = f_rd f \<and> f_wr f' = f_wr f \<and> f_append f' = f_append f"
proof -
  obtain f1 r1 where s: "file_seek f off = (f1, r1)" by force
  note s1 = file_seek_Ok [OF s]
  from assms(1) s have r1: "r1 = E_ok" "file_write f1 (Some bs) n True = (f', E_ok, m)"
    by (auto simp: file_write_at_def E_defs split: if_splits)
  then obtain k f2 where k: "os_next f1 (length (take (nat n) bs)) = (SysOk k, f2)" "m = int k" "\<not> f_append f2"
    "f' = f2\<lparr>f_disk := Some (overwrite (f_data f2) (f_pos f2) (take k (take (nat n) bs))), f_pos := f_pos f2 + k\<rparr>"
    using assms(2) s1
    by (auto simp: file_write_def sys_write_def E_defs Let_def dest!: os_next_frame
        split: if_splits prod.splits sys_ret.splits)
  with os_next_frame [OF k(1)] os_next_SysOk [OF k(1)] s1 r1(1) show ?thesis
    by (auto simp: f_data_def)
qed

text \<open>
  C9: what a write reports as written is what a later read of that range returns, whatever the
  system does in between by way of short transfers and interruptions; bytes outside the range
  are as before.
\<close>

theorem file_write_read:
  assumes "file_write_at f off (Some bs) (int (length bs)) True = (f1, E_ok, m)" "\<not> f_append f"
    "file_read_at f1 off True m True = (f2, E_ok, got)"
  shows "got = take (nat m) bs \<and>
    (\<forall>q n. q + n \<le> nat off \<and> q + n \<le> length (f_data f) \<longrightarrow> take n (drop q (f_data f1)) = take n (drop q (f_data f))) \<and>
    (\<forall>q n. nat off + nat m \<le> q \<and> nat off \<le> length (f_data f) \<longrightarrow> take n (drop q (f_data f1)) = take n (drop q (f_data f)))"
proof -
  note w = file_write_at_Ok [OF assms(1,2)]
  let ?bs = "take (nat m) bs"
  have d: "f_data f1 = overwrite (f_data f) (nat off) ?bs" using w by (simp add: f_data_def)
  have l: "length ?bs = nat m" using w by auto
  have "got = ?bs" using file_read_at_Ok [OF assms(3)] overwrite_at [of ?bs "nat off" "f_data f"] l d by simp
  with d l show ?thesis by (auto simp: overwrite_before overwrite_after)
qed

definition sample_file :: snf_file where
  "sample_file = (new_file (Some (map of_nat [0..<10])) [OsOk 9, OsOk 9, OsOk 9, OsOk 0, OsIntr, OsOk 0])
     \<lparr>f_fd := True, f_rd := True, f_wr := True\<rparr>"

theorem file_write_read_witness:
  "\<exists>f1 f2. file_write_at sample_file 4 (Some [7, 8, 9]) 3 True = (f1, E_ok, 3) \<and>
     file_read_at f1 4 True 3 True = (f2, E_ok, [7, 8, 9])"
proof -
  obtain f1 m r where w: "file_write_at sample_file 4 (Some [7, 8, 9]) 3 True = (f1, r, m)" by (metis prod_cases3)
  obtain f2 got q where g: "file_read_at f1 4 True 3 True = (f2, q, got)" by (metis prod_cases3)
  have "(case file_write_at sample_file 4 (Some [7, 8, 9]) 3 True of (f1, r, m) \<Rightarrow>
    r = E_ok \<and> m = 3 \<and> fst (snd (file_read_at f1 4 True 3 True)) = E_ok)" by code_simp
  with w g have v: "r = E_ok" "m = 3" "q = E_ok" by auto
  with file_write_read [of sample_file 4 "[7, 8, 9]" f1 3 f2 got] w g show ?thesis
    by (simp add: sample_file_def new_file_def)
qed

end
