(* ===== verification/Free_Disk_Pages.thy ===== *)
theory Free_Disk_Pages
  imports Allocator File_IO
begin

text \<open>
  The stack of free disk pages, \<^verbatim>\<open>librdb/src/fdpmgr.cpp\<close>. The index file keeps its stack in
  memory only; for the value file every push and pop is repeated on a file of 64-bit offsets
  (\<^verbatim>\<open>.fdp\<close>), from which \<^verbatim>\<open>init\<close> reads the stack back at start-up.
\<close>

section \<open>64-bit integers in a file\<close>

fun le_bytes :: "nat \<Rightarrow> int \<Rightarrow> byte list" where
  "le_bytes 0 x = []"
| "le_bytes (Suc n) x = word_of_int x # le_bytes n (x div 256)"

fun le_value :: "byte list \<Rightarrow> int" where
  "le_value [] = 0"
| "le_value (b # bs) = uint b + 256 * le_value bs"

definition int64_bytes :: "int \<Rightarrow> byte list" where
  "int64_bytes x = le_bytes 8 x"

definition int64_value :: "byte list \<Rightarrow> int" where
  "int64_value bs = to_signed 64 (le_value bs)"

lemma length_le_bytes [simp]: "length (le_bytes n x) = n"
  by (induction n arbitrary: x) auto

lemma le_value_le_bytes: "le_value (le_bytes n x) = x mod 256 ^ n"
proof (induction n arbitrary: x)
  case (Suc n)
  have "x mod 256 ^ Suc n = x mod (256 * 256 ^ n)" by simp
  also have "\<dots> = 256 * (x div 256 mod 256 ^ n) + x mod 256" by (rule zmod_zmult2_eq) simp
  finally show ?case using Suc by (simp add: uint_word_of_int)
qed simp

lemma int64_value_bytes: "- (2 ^ 63) \<le> x \<Longrightarrow> x < 2 ^ 63 \<Longrightarrow> int64_value (int64_bytes x) = x"
proof -
  assume a: "- (2 ^ 63) \<le> x" "x < 2 ^ 63"
  have "(x mod 2 ^ 64 + 2 ^ 63) mod 2 ^ 64 = (x + 2 ^ 63) mod 2 ^ 64" by (simp add: mod_add_left_eq)
  also have "\<dots> = x + 2 ^ 63" using a by (intro mod_pos_pos_trivial) auto
  finally show ?thesis by (simp add: int64_value_def int64_bytes_def to_signed_def le_value_le_bytes)
qed

lemma length_int64_bytes [simp]: "length (int64_bytes x) = 8"
  by (simp add: int64_bytes_def)

section \<open>The code\<close>

record fdp_mgr =
  fdp_pageSize :: int
  nextFreeOffset :: "int list"
  fdp_file :: "snf_file option"
  fdp_fsize :: int

definition FreeDiskPageMgr :: "int \<Rightarrow> snf_file option \<Rightarrow> fdp_mgr" where
  "FreeDiskPageMgr psize f = \<lparr>fdp_pageSize = psize, nextFreeOffset = [], fdp_file = f, fdp_fsize = 0\<rparr>"

definition addOffsetToFile :: "fdp_mgr \<Rightarrow> int \<Rightarrow> fdp_mgr \<times> int" where
  "addOffsetToFile m off =
     (case fdp_file m of
        None \<Rightarrow> (m, E_ok)
      | Some f \<Rightarrow>
          case file_write f (Some (int64_bytes off)) 8 True of
            (f, r, bWritten) \<Rightarrow>
              let m = m\<lparr>fdp_file := Some f\<rparr> in
              if r \<noteq> E_ok then (m, r)
              else if bWritten \<noteq> 8 then (m, E_write_failed)
              else (m\<lparr>fdp_fsize := fdp_fsize m + 8\<rparr>, r))"

definition removeOffsetFromFile :: "fdp_mgr \<Rightarrow> fdp_mgr \<times> int" where
  "removeOffsetFromFile m =
     (case fdp_file m of
        None \<Rightarrow> (m, 0)
      | Some f \<Rightarrow>
          let n = fdp_fsize m - 8 in
          case file_truncate f n of
            (f, r) \<Rightarrow>
              if r \<noteq> E_ok then (m\<lparr>fdp_file := Some f, fdp_fsize := n + 8\<rparr>, r)
              else (m\<lparr>fdp_file := Some f, fdp_fsize := n\<rparr>, r))"

partial_function (option) fdp_init_loop :: "fdp_mgr \<Rightarrow> snf_file \<Rightarrow> (fdp_mgr \<times> int) option" where
  "fdp_init_loop m f =
     (case file_read f True 8 True of
        (f, r, bs) \<Rightarrow>
          let m = m\<lparr>fdp_file := Some f\<rparr> in
          if r \<noteq> E_ok then Some (m, r)
          else if bs = [] then Some (m, E_eof_detected)
          else if length bs \<noteq> 8 then Some (m, E_write_failed)
          else fdp_init_loop
                 (m\<lparr>fdp_fsize := fdp_fsize m + int (length bs), nextFreeOffset := int64_value bs # nextFreeOffset m\<rparr>) f)"

declare fdp_init_loop.simps [code]

definition fdp_init :: "fdp_mgr \<Rightarrow> (fdp_mgr \<times> int) option" where
  "fdp_init m =
     (case fdp_file m of
        None \<Rightarrow> Some (m, E_ok)
      | Some f \<Rightarrow>
          case file_seek f 0 of
            (f, r) \<Rightarrow>
              if r \<noteq> E_ok then Some (m\<lparr>fdp_file := Some f\<rparr>, r)
              else do {
                (m, r) \<leftarrow> fdp_init_loop (m\<lparr>fdp_file := Some f\<rparr>) f;
                Some (m, if r \<noteq> E_eof_detected then E_ok else r)
              })"

definition fdp_get :: "fdp_mgr \<Rightarrow> (fdp_mgr \<times> int) option" where
  "fdp_get m =
     (case nextFreeOffset m of
        [] \<Rightarrow> None
      | next # rest \<Rightarrow>
          case removeOffsetFromFile (m\<lparr>nextFreeOffset := rest\<rparr>) of
            (m, r) \<Rightarrow>
              if r \<noteq> E_ok then Some (m\<lparr>nextFreeOffset := next # rest\<rparr>, r)
              else if rest = [] then
                (case addOffsetToFile (m\<lparr>nextFreeOffset := [next + fdp_pageSize m]\<rparr>) (next + fdp_pageSize m) of
                   (m, r) \<Rightarrow>
                     if r \<noteq> E_ok then Some (m\<lparr>nextFreeOffset := [next]\<rparr>, r) else Some (m, next))
              else Some (m, next))"

definition fdp_free :: "fdp_mgr \<Rightarrow> int \<Rightarrow> (fdp_mgr \<times> int) option" where
  "fdp_free m off =
     (if off \<ge> 0 \<and> off mod fdp_pageSize m = 0 then
        case addOffsetToFile (m\<lparr>nextFreeOffset := off # nextFreeOffset m\<rparr>) off of
          (m', r) \<Rightarrow>
            Some (if r \<noteq> E_ok then m'\<lparr>nextFreeOffset := nextFreeOffset m\<rparr> else m', r)
      else None)"

definition fdp_reset :: "fdp_mgr \<Rightarrow> fdp_mgr \<times> int" where
  "fdp_reset m =
     (case fdp_file m of
        None \<Rightarrow> (m\<lparr>nextFreeOffset := []\<rparr>, E_ok)
      | Some f \<Rightarrow>
          case file_truncate f 0 of
            (f, r) \<Rightarrow>
              if r \<noteq> E_ok then (m\<lparr>fdp_file := Some f\<rparr>, r)
              else (m\<lparr>fdp_file := Some f, fdp_fsize := 0, nextFreeOffset := []\<rparr>, E_ok))"

definition fdp_size :: "fdp_mgr \<Rightarrow> int" where
  "fdp_size m = int (length (nextFreeOffset m))"

section \<open>The allocator contract\<close>

text \<open>
  The bottom of the stack is the end of the file; above it lie pages that were used and freed.
  A page may get lost (when the \<^verbatim>\<open>.fdp\<close> file cannot be written), never shared.
\<close>

definition fdp_parts :: "fdp_mgr \<Rightarrow> int set \<Rightarrow> int list \<Rightarrow> int \<Rightarrow> bool" where
  "fdp_parts m L fr hw \<longleftrightarrow>
     nextFreeOffset m = fr @ [hw] \<and> 0 \<le> hw \<and> fdp_pageSize m dvd hw \<and> distinct fr \<and> set fr \<inter> L = {} \<and>
     set fr \<union> L \<subseteq> {x. 0 \<le> x \<and> x < hw \<and> fdp_pageSize m dvd x}"

definition fdp_holds :: "fdp_mgr \<Rightarrow> int set \<Rightarrow> bool" where
  "fdp_holds m L \<longleftrightarrow> 0 < fdp_pageSize m \<and> (\<exists>fr hw. fdp_parts m L fr hw)"

lemma addOffset_stack: "addOffsetToFile m off = (m', r) \<Longrightarrow>
   nextFreeOffset m' = nextFreeOffset m \<and> fdp_pageSize m' = fdp_pageSize m"
  by (auto simp: addOffsetToFile_def Let_def split: option.splits prod.splits if_splits)

lemma removeOffset_stack: "removeOffsetFromFile m = (m', r) \<Longrightarrow>
   nextFreeOffset m' = nextFreeOffset m \<and> fdp_pageSize m' = fdp_pageSize m"
  by (auto simp: removeOffsetFromFile_def Let_def split: option.splits prod.splits if_splits)

lemma file_codes_nonpos:
  "file_truncate f n = (f', r) \<Longrightarrow> r \<le> 0"
  "file_write f b k w = (f', r, c) \<Longrightarrow> r \<le> 0"
  "file_seek f n = (f', r) \<Longrightarrow> r \<le> 0"
  by (auto simp: file_truncate_def file_write_def file_seek_def file_seek_wh_def sys_ftruncate_def E_defs
      split: if_splits option.splits prod.splits sys_ret.splits)

lemma offset_codes_nonpos:
  "addOffsetToFile m off = (m', r) \<Longrightarrow> r \<le> 0" "removeOffsetFromFile m = (m', r) \<Longrightarrow> r \<le> 0"
  by (auto simp: addOffsetToFile_def removeOffsetFromFile_def Let_def E_defs dest: file_codes_nonpos
      split: option.splits prod.splits if_splits)

lemma offset_codes_error:
  "addOffsetToFile m off = (m', r) \<Longrightarrow> r \<noteq> E_ok \<Longrightarrow> r < 0" "removeOffsetFromFile m = (m', r) \<Longrightarrow> r \<noteq> E_ok \<Longrightarrow> r < 0"
  using offset_codes_nonpos by (force simp: E_ok_def order_less_le)+

lemma fdp_get_cases:
  assumes "fdp_holds m L"
  shows "\<exists>m' r. fdp_get m = Some (m', r) \<and> fdp_pageSize m' = fdp_pageSize m \<and>
    (r < 0 \<and> nextFreeOffset m' = nextFreeOffset m \<or>
     (\<exists>rest. nextFreeOffset m = r # rest \<and>
        nextFreeOffset m' = (if rest = [] then [r + fdp_pageSize m] else rest)))"
proof -
  from assms obtain x rest where st: "nextFreeOffset m = x # rest"
    by (auto simp: fdp_holds_def fdp_parts_def Cons_eq_append_conv neq_Nil_conv)
      (metis append_Cons append_Nil list.exhaust)
  obtain m1 r1 where rm: "removeOffsetFromFile (m\<lparr>nextFreeOffset := rest\<rparr>) = (m1, r1)" by force
  obtain m2 r2 where ad: "addOffsetToFile (m1\<lparr>nextFreeOffset := [x + fdp_pageSize m]\<rparr>) (x + fdp_pageSize m) = (m2, r2)"
    by force
  have "nextFreeOffset m1 = rest" "fdp_pageSize m1 = fdp_pageSize m" using removeOffset_stack [OF rm] by auto
  moreover have "nextFreeOffset m2 = [x + fdp_pageSize m]" "fdp_pageSize m2 = fdp_pageSize m1"
    using addOffset_stack [OF ad] by auto
  ultimately show ?thesis
    using st rm ad offset_codes_error(1) [OF ad] offset_codes_error(2) [OF rm] by (simp add: fdp_get_def)
qed

lemma fdp_get_holds:
  assumes "fdp_holds m L"
  shows "\<exists>m' r. fdp_get m = Some (m', r) \<and>
    (if r < 0 then fdp_holds m' L else r \<notin> L \<and> r mod fdp_pageSize m = 0 \<and> fdp_holds m' (insert r L))"
proof -
  from assms obtain fr hw where q: "fdp_parts m L fr hw" and ps: "0 < fdp_pageSize m" by (auto simp: fdp_holds_def)
  note q' = q [unfolded fdp_parts_def]
  from fdp_get_cases [OF assms] obtain m' r where g: "fdp_get m = Some (m', r)" "fdp_pageSize m' = fdp_pageSize m"
    "r < 0 \<and> nextFreeOffset m' = nextFreeOffset m \<or>
     (\<exists>rest. nextFreeOffset m = r # rest \<and>
        nextFreeOffset m' = (if rest = [] then [r + fdp_pageSize m] else rest))" by metis
  from g(3) show ?thesis
  proof
    assume "r < 0 \<and> nextFreeOffset m' = nextFreeOffset m"
    with q ps g(1,2) show ?thesis by (auto simp: fdp_holds_def fdp_parts_def)
  next
    assume "\<exists>rest. nextFreeOffset m = r # rest \<and> nextFreeOffset m' = (if rest = [] then [r + fdp_pageSize m] else rest)"
    then obtain rest where st: "nextFreeOffset m = r # rest"
      "nextFreeOffset m' = (if rest = [] then [r + fdp_pageSize m] else rest)" by blast
    have "fdp_parts m' (insert r L) (tl fr) (if fr = [] then hw + fdp_pageSize m else hw) \<and> 0 \<le> r \<and> r \<notin> L \<and> fdp_pageSize m dvd r"
    proof (cases fr)
      case Nil
      then have "r = hw" "rest = []" using q' st by auto
      then show ?thesis using Nil q' st g(2) ps by (fastforce simp: fdp_parts_def)
    next
      case (Cons y fr')
      then have "r = y" "rest = fr' @ [hw]" using q' st by auto
      then show ?thesis using Cons q' st g(2) by (auto simp: fdp_parts_def)
    qed
    with g(1,2) ps show ?thesis by (auto simp: fdp_holds_def)
  qed
qed

lemma fdp_free_holds:
  assumes "fdp_holds m L" "a \<in> L"
  shows "\<exists>m' r. fdp_free m a = Some (m', r) \<and> fdp_holds m' (L - {a})"
proof -
  from assms obtain fr hw where q: "fdp_parts m L fr hw" and ps: "0 < fdp_pageSize m" by (auto simp: fdp_holds_def)
  note q' = q [unfolded fdp_parts_def]
  have a: "0 \<le> a" "a mod fdp_pageSize m = 0" using q' assms(2) by auto
  obtain m1 r1 where ad: "addOffsetToFile (m\<lparr>nextFreeOffset := a # nextFreeOffset m\<rparr>) a = (m1, r1)" by force
  note s = addOffset_stack [OF ad]
  let ?m = "if r1 \<noteq> E_ok then m1\<lparr>nextFreeOffset := nextFreeOffset m\<rparr> else m1"
  have "fdp_free m a = Some (?m, r1)" using a ad by (simp add: fdp_free_def)
  moreover have "fdp_parts ?m (L - {a}) (if r1 \<noteq> E_ok then fr else a # fr) hw"
    using s q' assms(2) by (auto simp: fdp_parts_def)
  ultimately show ?thesis using ps s by (fastforce simp: fdp_holds_def)
qed

definition fdp_alloc :: "fdp_mgr \<Rightarrow> (fdp_mgr \<times> int option) option" where
  "fdp_alloc m = map_option (\<lambda>(m', r). (m', if r < 0 then None else Some r)) (fdp_get m)"

definition fdp_release :: "fdp_mgr \<Rightarrow> int \<Rightarrow> fdp_mgr option" where
  "fdp_release m a = map_option fst (fdp_free m a)"

interpretation fdp: allocator fdp_holds fdp_alloc fdp_release
proof
  fix s L a
  assume h: "fdp_holds s L"
  from fdp_get_holds [OF h] obtain m' r where g: "fdp_get s = Some (m', r)"
    "if r < 0 then fdp_holds m' L else r \<notin> L \<and> r mod fdp_pageSize s = 0 \<and> fdp_holds m' (insert r L)" by blast
  then have "fdp_alloc s = Some (m', if r < 0 then None else Some r)" by (simp add: fdp_alloc_def)
  with g(2) show "\<exists>s' r. fdp_alloc s = Some (s', r) \<and>
    (case r of None \<Rightarrow> fdp_holds s' L | Some a \<Rightarrow> a \<notin> L \<and> fdp_holds s' (insert a L))"
    by (cases "r < 0") auto
  show "a \<in> L \<Longrightarrow> \<exists>s'. fdp_release s a = Some s' \<and> fdp_holds s' (L - {a})"
    using fdp_free_holds [OF h] by (auto simp: fdp_release_def)
qed

text \<open>
  C11: once the end of the file has been pushed, whatever a client that frees only offsets it
  holds has done and whatever failures the \<^verbatim>\<open>.fdp\<close> file reports, no assertion of \<^verbatim>\<open>get\<close> or
  \<^verbatim>\<open>free\<close> is violated, and an offset the manager hands out is a multiple of the page size
  that the client does not hold.
\<close>

theorem fdp_no_double_allocation:
  assumes "0 < psize" "0 \<le> eof" "eof mod psize = 0"
    "fdp_free (FreeDiskPageMgr psize f) eof = Some (m, E_ok)" "client fdp_alloc fdp_release m {} m' L"
  shows "(\<forall>a\<in>L. fdp_free m' a \<noteq> None) \<and>
    (\<exists>m'' r. fdp_get m' = Some (m'', r) \<and> (r < 0 \<or> r \<notin> L \<and> r mod fdp_pageSize m' = 0))"
proof -
  obtain m1 r1 where ad: "addOffsetToFile ((FreeDiskPageMgr psize f)\<lparr>nextFreeOffset := [eof]\<rparr>) eof = (m1, r1)" by force
  have "m = m1" using assms(2-4) ad by (auto simp: fdp_free_def FreeDiskPageMgr_def split: if_splits)
  with addOffset_stack [OF ad] assms(1-3) have "fdp_parts m {} [] eof" "0 < fdp_pageSize m"
    by (auto simp: fdp_parts_def FreeDiskPageMgr_def)
  then have "fdp_holds m {}" by (auto simp: fdp_holds_def)
  with fdp.client_holds assms(5) have h: "fdp_holds m' L" by blast
  from fdp_free_holds [OF h] have "\<forall>a\<in>L. fdp_free m' a \<noteq> None" by (metis option.distinct(1))
  with fdp_get_holds [OF h] show ?thesis by (metis (full_types))
qed

theorem fdp_no_double_allocation_witness:
  "\<exists>m m1 m2. fdp_free (FreeDiskPageMgr 256 None) 512 = Some (m, E_ok) \<and> fdp_get m = Some (m1, 512) \<and>
     fdp_get m1 = Some (m2, 768)"
proof -
  define m where "m = \<lparr>fdp_pageSize = 256, nextFreeOffset = [512], fdp_file = None, fdp_fsize = 0\<rparr>"
  define m1 where "m1 = m\<lparr>nextFreeOffset := [768]\<rparr>"
  have f: "fdp_free (FreeDiskPageMgr 256 None) 512 = Some (m, E_ok)"
    by (simp add: fdp_free_def FreeDiskPageMgr_def addOffsetToFile_def m_def)
  have g: "fdp_get m = Some (m1, 512)"
    by (simp add: fdp_get_def removeOffsetFromFile_def addOffsetToFile_def m_def m1_def E_ok_def)
  then have "client fdp_alloc fdp_release m {} m1 {512}"
    by (auto simp: fdp_alloc_def intro: client_got [of _ _ m1 512] client_stop)
  from fdp_no_double_allocation [OF _ _ _ f this] have "\<exists>m2 r. fdp_get m1 = Some (m2, r)" by simp blast
  then have "\<exists>m2. fdp_get m1 = Some (m2, 768)"
    by (auto simp: fdp_get_def removeOffsetFromFile_def addOffsetToFile_def m_def m1_def E_ok_def)
  with f g show ?thesis by blast
qed

section \<open>The file follows the stack\<close>

text \<open>Without failures the file holds the stack, oldest entry first, and is positioned at its end.\<close>

definition calm :: "snf_file \<Rightarrow> bool" where
  "calm f \<longleftrightarrow> f_fd f \<and> f_rd f \<and> f_wr f \<and> \<not> f_append f \<and> f_disk f \<noteq> None \<and> f_sched f = []"

definition stack_bytes :: "int list \<Rightarrow> byte list" where
  "stack_bytes stk = concat (map int64_bytes (rev stk))"

definition mirrors :: "fdp_mgr \<Rightarrow> bool" where
  "mirrors m \<longleftrightarrow> (case fdp_file m of None \<Rightarrow> False | Some f \<Rightarrow>
     calm f \<and> f_data f = stack_bytes (nextFreeOffset m) \<and> f_pos f = length (f_data f) \<and>
     fdp_fsize m = int (length (f_data f)))"

lemma length_stack_bytes [simp]: "length (stack_bytes stk) = 8 * length stk"
  by (induction stk) (auto simp: stack_bytes_def)

lemma stack_bytes_Cons: "stack_bytes (x # stk) = stack_bytes stk @ int64_bytes x"
  by (simp add: stack_bytes_def)

lemma calm_truncate:
  assumes "calm f" "0 \<le> n" "nat n \<le> length (f_data f)"
  shows "file_truncate f n = (f\<lparr>f_pos := nat n, f_disk := Some (take (nat n) (f_data f))\<rparr>, E_ok)"
  using assms
  by (auto simp: calm_def file_truncate_def file_seek_def file_seek_wh_def sys_lseek_def sys_ftruncate_def
      os_next_def E_ok_def f_data_def split: option.splits)

lemma calm_append:
  assumes "calm f" "f_pos f = length (f_data f)" "bs \<noteq> []"
  shows "file_write f (Some bs) (int (length bs)) True =
    (f\<lparr>f_disk := Some (f_data f @ bs), f_pos := length (f_data f) + length bs\<rparr>, E_ok, int (length bs))"
proof -
  have "overwrite (f_data f) (length (f_data f)) bs = f_data f @ bs" by (simp add: overwrite_def)
  with assms show ?thesis by (auto simp: calm_def file_write_def sys_write_def os_next_def E_ok_def Let_def)
qed

lemma addOffset_mirrors:
  assumes "mirrors m" "nextFreeOffset m' = off # nextFreeOffset m" "fdp_file m' = fdp_file m" "fdp_fsize m' = fdp_fsize m"
  shows "\<exists>m''. addOffsetToFile m' off = (m'', E_ok) \<and> mirrors m'' \<and> nextFreeOffset m'' = off # nextFreeOffset m"
proof -
  from assms(1) obtain f where f: "fdp_file m = Some f" "calm f" "f_data f = stack_bytes (nextFreeOffset m)"
    "f_pos f = length (f_data f)" "fdp_fsize m = int (length (f_data f))"
    by (auto simp: mirrors_def split: option.splits)
  have "int64_bytes off \<noteq> []" by (metis length_int64_bytes list.size(3) zero_neq_numeral)
  from calm_append [OF f(2,4) this] have "file_write f (Some (int64_bytes off)) 8 True =
    (f\<lparr>f_disk := Some (f_data f @ int64_bytes off), f_pos := length (f_data f) + 8\<rparr>, E_ok, 8)" by simp
  then show ?thesis
    using f assms by (auto simp: addOffsetToFile_def mirrors_def calm_def Let_def E_ok_def f_data_def stack_bytes_Cons)
qed

lemma removeOffset_mirrors:
  assumes "mirrors m" "nextFreeOffset m = x # rest"
  shows "\<exists>m''. removeOffsetFromFile (m\<lparr>nextFreeOffset := rest\<rparr>) = (m'', E_ok) \<and> mirrors m'' \<and> nextFreeOffset m'' = rest \<and>
    fdp_pageSize m'' = fdp_pageSize m"
proof -
  from assms obtain f where f: "fdp_file m = Some f" "calm f" "f_data f = stack_bytes rest @ int64_bytes x"
    "f_pos f = length (f_data f)" "fdp_fsize m = int (length (f_data f))"
    by (auto simp: mirrors_def stack_bytes_Cons split: option.splits)
  from calm_truncate [OF f(2), of "fdp_fsize m - 8"] f(3,5)
  have "file_truncate f (fdp_fsize m - 8) = (f\<lparr>f_pos := 8 * length rest, f_disk := Some (stack_bytes rest)\<rparr>, E_ok)"
    by (simp add: nat_diff_distrib)
  with f show ?thesis
    by (auto simp: removeOffsetFromFile_def mirrors_def calm_def Let_def E_ok_def f_data_def)
qed

lemma mirrors_get:
  assumes "mirrors m" "nextFreeOffset m \<noteq> []"
  shows "\<exists>m'. fdp_get m = Some (m', hd (nextFreeOffset m)) \<and> mirrors m'"
proof -
  from assms(2) obtain x rest where st: "nextFreeOffset m = x # rest" by (cases "nextFreeOffset m") auto
  from removeOffset_mirrors [OF assms(1) st] obtain m1 where m1: "removeOffsetFromFile (m\<lparr>nextFreeOffset := rest\<rparr>) = (m1, E_ok)"
    "mirrors m1" "nextFreeOffset m1 = rest" by blast
  show ?thesis
  proof (cases "rest = []")
    case True
    with addOffset_mirrors [OF m1(2), of "m1\<lparr>nextFreeOffset := [x + fdp_pageSize m1]\<rparr>" "x + fdp_pageSize m1"] m1(3)
    show ?thesis using st m1(1) by (auto simp: fdp_get_def)
  next
    case False
    with st m1 show ?thesis by (simp add: fdp_get_def)
  qed
qed

lemma mirrors_free:
  assumes "mirrors m" "0 \<le> off" "off mod fdp_pageSize m = 0"
  shows "\<exists>m'. fdp_free m off = Some (m', E_ok) \<and> mirrors m'"
  using addOffset_mirrors [OF assms(1), of "m\<lparr>nextFreeOffset := off # nextFreeOffset m\<rparr>" off] assms(2,3)
  by (auto simp: fdp_free_def)

text \<open>
  C12: as long as the system reports no failure, \<^verbatim>\<open>get\<close> and \<^verbatim>\<open>free\<close> succeed on a file-backed
  manager and keep its file equal to its stack, oldest offset first.
\<close>

theorem fdp_file_mirrors_stack:
  assumes "mirrors m"
  shows "(nextFreeOffset m \<noteq> [] \<longrightarrow> (\<exists>m'. fdp_get m = Some (m', hd (nextFreeOffset m)) \<and> mirrors m')) \<and>
    (\<forall>off. 0 \<le> off \<and> off mod fdp_pageSize m = 0 \<longrightarrow> (\<exists>m'. fdp_free m off = Some (m', E_ok) \<and> mirrors m'))"
  by (intro conjI impI allI) (rule mirrors_get [OF assms], assumption, rule mirrors_free [OF assms], simp_all)

definition sample_fdp :: fdp_mgr where
  "sample_fdp = FreeDiskPageMgr 256 (Some ((new_file (Some []) [])\<lparr>f_fd := True, f_rd := True, f_wr := True\<rparr>))"

lemma mirrors_sample: "mirrors sample_fdp"
  by (simp add: sample_fdp_def FreeDiskPageMgr_def mirrors_def calm_def new_file_def f_data_def stack_bytes_def)

theorem fdp_file_mirrors_stack_witness:
  "\<exists>m'. fdp_free sample_fdp 512 = Some (m', E_ok) \<and> mirrors m'"
  using fdp_file_mirrors_stack [OF mirrors_sample] by (simp add: sample_fdp_def FreeDiskPageMgr_def)

section \<open>Reading the stack back\<close>

lemma calm_read8:
  assumes "calm f" "f_pos f + 8 \<le> length (f_data f)"
  shows "file_read f True 8 True =
    (f\<lparr>f_pos := f_pos f + 8\<rparr>, E_ok, take 8 (drop (f_pos f) (f_data f)))"
proof -
  have l: "length (take 8 (drop (f_pos f) (f_data f))) = 8" using assms(2) by simp
  then have "take 8 (drop (f_pos f) (f_data f)) \<noteq> []" by (metis list.size(3) zero_neq_numeral)
  then have "file_read_loop f 8 [] = file_read_loop (f\<lparr>f_pos := f_pos f + 8\<rparr>) 0 (take 8 (drop (f_pos f) (f_data f)))"
    using assms l by (subst file_read_loop.simps) (simp add: sys_read_def os_next_def calm_def Let_def)
  then show ?thesis using assms(1) by (simp add: file_read_def calm_def file_read_loop.simps)
qed

lemma calm_read_eof:
  assumes "calm f" "f_pos f = length (f_data f)"
  shows "file_read f True 8 True = (f, E_ok, [])"
proof -
  have "file_read_loop f 8 [] = (f, E_ok, [])"
    using assms by (subst file_read_loop.simps) (simp add: sys_read_def os_next_def calm_def Let_def)
  then show ?thesis using assms(1) by (simp add: file_read_def calm_def)
qed

lemma fdp_init_loop_stack:
  assumes "calm f" "f_data f = concat (map int64_bytes (done @ todo))" "f_pos f = 8 * length done"
    "\<forall>x\<in>set todo. - (2 ^ 63) \<le> x \<and> x < 2 ^ 63"
  shows "\<exists>m'. fdp_init_loop m f = Some (m', E_eof_detected) \<and> nextFreeOffset m' = rev todo @ nextFreeOffset m \<and>
    fdp_fsize m' = fdp_fsize m + 8 * int (length todo) \<and> fdp_pageSize m' = fdp_pageSize m"
  using assms
proof (induction todo arbitrary: m f "done")
  case Nil
  have len: "length (concat (map int64_bytes done)) = 8 * length done" by (induction "done") auto
  with Nil calm_read_eof [of f] show ?case
    by (subst fdp_init_loop.simps) (simp add: E_defs)
next
  case (Cons x todo)
  let ?pre = "concat (map int64_bytes done)" and ?f = "f\<lparr>f_pos := f_pos f + 8\<rparr>"
  have len: "length ?pre = 8 * length done" by (induction "done") auto
  have d: "f_data f = ?pre @ int64_bytes x @ concat (map int64_bytes todo)" using Cons.prems(2) by simp
  have rd: "file_read f True 8 True = (?f, E_ok, int64_bytes x)"
    using calm_read8 [OF Cons.prems(1)] Cons.prems(3) d len by simp
  have v: "int64_value (int64_bytes x) = x" using Cons.prems(4) by (intro int64_value_bytes) auto
  have ne: "int64_bytes x \<noteq> []" by (metis length_int64_bytes list.size(3) zero_neq_numeral)
  let ?m = "m\<lparr>fdp_file := Some ?f, fdp_fsize := fdp_fsize m + 8, nextFreeOffset := x # nextFreeOffset m\<rparr>"
  have "fdp_init_loop m f = fdp_init_loop ?m ?f"
    using rd ne v by (subst fdp_init_loop.simps) simp
  moreover have "\<exists>m'. fdp_init_loop ?m ?f = Some (m', E_eof_detected) \<and> nextFreeOffset m' = rev todo @ nextFreeOffset ?m \<and>
    fdp_fsize m' = fdp_fsize ?m + 8 * int (length todo) \<and> fdp_pageSize m' = fdp_pageSize ?m"
    by (rule Cons.IH [of ?f "done @ [x]" ?m])
      (use Cons.prems in \<open>auto simp: calm_def f_data_def\<close>)
  ultimately show ?case by auto
qed

text \<open>
  C13: a manager opened on the file another one left behind gets back the very stack that one
  had. The status \<^verbatim>\<open>init\<close> returns for this success is \<^verbatim>\<open>E_eof_detected\<close>, not \<^verbatim>\<open>E_ok\<close>, so its
  caller takes it for a failure and scans the value file anyway.
\<close>

theorem fdp_init_restores_stack:
  assumes "mirrors m" "fdp_file m = Some f" "\<forall>x\<in>set (nextFreeOffset m). - (2 ^ 63) \<le> x \<and> x < 2 ^ 63"
  shows "\<exists>m'. fdp_init (FreeDiskPageMgr (fdp_pageSize m) (Some f)) = Some (m', E_eof_detected) \<and>
    nextFreeOffset m' = nextFreeOffset m \<and> fdp_fsize m' = fdp_fsize m"
proof -
  have f: "calm f" "f_data f = concat (map int64_bytes ([] @ rev (nextFreeOffset m)))"
    "fdp_fsize m = 8 * int (length (nextFreeOffset m))"
    using assms(1,2) by (auto simp: mirrors_def stack_bytes_def simp flip: stack_bytes_def)
  let ?f = "f\<lparr>f_pos := 0\<rparr>" and ?m = "(FreeDiskPageMgr (fdp_pageSize m) (Some f))\<lparr>fdp_file := Some (f\<lparr>f_pos := 0\<rparr>)\<rparr>"
  have "file_seek f 0 = (?f, E_ok)"
    using f(1) by (simp add: file_seek_def file_seek_wh_def sys_lseek_def os_next_def calm_def)
  moreover have "\<exists>m'. fdp_init_loop ?m ?f = Some (m', E_eof_detected) \<and> nextFreeOffset m' = rev (rev (nextFreeOffset m)) @ nextFreeOffset ?m \<and>
    fdp_fsize m' = fdp_fsize ?m + 8 * int (length (rev (nextFreeOffset m))) \<and> fdp_pageSize m' = fdp_pageSize ?m"
    by (rule fdp_init_loop_stack [of ?f "[]"]) (use f assms(3) in \<open>auto simp: calm_def f_data_def\<close>)
  ultimately show ?thesis using f(3) by (auto simp: fdp_init_def FreeDiskPageMgr_def E_defs)
qed

theorem fdp_init_restores_stack_witness:
  "\<exists>m f m'. map_option fst (fdp_free sample_fdp 512) = Some m \<and> fdp_file m = Some f \<and>
     fdp_init (FreeDiskPageMgr 256 (Some f)) = Some (m', E_eof_detected) \<and> nextFreeOffset m' = [512]"
proof -
  obtain m where m: "fdp_free sample_fdp 512 = Some (m, E_ok)" "mirrors m" "nextFreeOffset m = [512]" "fdp_pageSize m = 256"
    using addOffset_mirrors [OF mirrors_sample, of "sample_fdp\<lparr>nextFreeOffset := [512]\<rparr>" 512]
      addOffset_stack [of "sample_fdp\<lparr>nextFreeOffset := [512]\<rparr>" 512]
    by (auto simp: fdp_free_def sample_fdp_def FreeDiskPageMgr_def)
  then obtain f where "fdp_file m = Some f" by (auto simp: mirrors_def split: option.splits)
  with fdp_init_restores_stack [OF m(2) this] m show ?thesis by auto
qed

text \<open>
  A \<^verbatim>\<open>get\<close> whose truncation fails after the seek leaves the file position before the last
  entry. The next \<^verbatim>\<open>free\<close> reports success and overwrites that entry: the stack is 512, 256 and the
  file holds 512 alone.
\<close>

lemma fdp_failed_truncate_loses_entry:
  "(do { (m, _) \<leftarrow> fdp_free (FreeDiskPageMgr 256
           (Some ((new_file (Some []) [OsOk 8, OsOk 0, OsErr])\<lparr>f_fd := True, f_rd := True, f_wr := True\<rparr>))) 256;
         (m, r1) \<leftarrow> fdp_get m;
         (m, r2) \<leftarrow> fdp_free m 512;
         f \<leftarrow> fdp_file m;
         Some (r1, r2, nextFreeOffset m, f_data f) })
   = Some (E_trunc_failed, E_ok, [512, 256], stack_bytes [512])"
  by code_simp

end
