(* ===== verification/Text_Format.thy ===== *)
theory Text_Format
  imports Prelude
begin

text \<open>
  Shared by the text processing libraries (libjson, http, liblog): characters as their codes, results
  with an error, and the decimal output of \<^verbatim>\<open>std::ostream\<close>. A C++ string is a list of 8-bit
  characters.
\<close>

section \<open>Characters\<close>

abbreviation ch :: "char \<Rightarrow> nat" where "ch \<equiv> of_char"
abbreviation mk :: "nat \<Rightarrow> char" where "mk \<equiv> char_of"

lemma ch_mk: "n < 256 \<Longrightarrow> ch (mk n) = n"
  by (simp add: of_char_of)

lemma ch_less: "ch c < 256"
  using nat_of_char_less_256 by blast

section \<open>Results\<close>

text \<open>A computation that throws returns \<open>Inl\<close> of the exception.\<close>

definition rbind :: "'e + 'a \<Rightarrow> ('a \<Rightarrow> 'e + 'b) \<Rightarrow> 'e + 'b" where
  "rbind m f = (case m of Inl e \<Rightarrow> Inl e | Inr x \<Rightarrow> f x)"

lemma rbind_simps [simp]: "rbind (Inl e) f = Inl e" "rbind (Inr x) f = f x"
  by (simp_all add: rbind_def)

lemma rbind_Inr: "rbind m f = Inr y \<longleftrightarrow> (\<exists>x. m = Inr x \<and> f x = Inr y)"
  by (cases m) simp_all

lemma map_sum_Inr: "map_sum id g x = Inr y \<longleftrightarrow> (\<exists>z. x = Inr z \<and> y = g z)"
  by (cases x) auto

lemma map_sum_Inl: "map_sum id g x = Inl e \<longleftrightarrow> x = Inl e"
  by (cases x) auto

section \<open>Decimal output\<close>

fun nat_str :: "nat \<Rightarrow> string" where
  "nat_str n = (if n < 10 then [mk (48 + n)] else nat_str (n div 10) @ [mk (48 + n mod 10)])"

declare nat_str.simps [simp del]

definition int_str :: "int \<Rightarrow> string" where
  "int_str i = (if i < 0 then CHR ''-'' # nat_str (nat (- i)) else nat_str (nat i))"

section \<open>Trimming\<close>

text \<open>\<^verbatim>\<open>snf::trim\<close>\<close>

definition trim_char :: "char \<Rightarrow> bool" where
  "trim_char c \<longleftrightarrow> ch c = 0x20 \<or> (0x09 \<le> ch c \<and> ch c \<le> 0x0D)"

definition trim :: "string \<Rightarrow> string" where
  "trim str = rev (dropWhile trim_char (rev (dropWhile trim_char str)))"

end
