(* ===== verification/Json_Text.thy ===== *)
theory Json_Text
  imports Text_Format
begin

text \<open>
  The text layer of libjson: character classes (\<^verbatim>\<open>include/misc.h\<close>), UTF-8 and \<^verbatim>\<open>\uxxxx\<close>
  sequences (\<^verbatim>\<open>src/utf.cpp\<close>) and escaping (\<^verbatim>\<open>src/misc.cpp\<close>). A C++ string is a list of 8-bit
  characters. An input stream is the list of characters still to be read; the stream throws
  when it is read at its end, which is the error \<open>EofFailure\<close> here. Code points are natural
  numbers with the bit operations of the source.
\<close>

unbundle bit_operations_syntax

section \<open>Errors and streams\<close>

datatype json_error = EofFailure | InvalidArgument | ParsingError int int | OutOfRange | LogicError

type_synonym 'a result = "json_error + 'a"

fun is_get :: "string \<Rightarrow> (char \<times> string) result" where
  "is_get [] = Inl EofFailure"
| "is_get (c # cs) = Inr (c, cs)"

section \<open>Character classes (misc.h)\<close>

definition json_space :: "char \<Rightarrow> bool" where
  "json_space c \<longleftrightarrow> c = CHR 0x20 \<or> c = CHR 0x0C \<or> c = CHR 0x0A \<or> c = CHR 0x0D \<or> c = CHR 0x09 \<or> c = CHR 0x0B"

definition digit1_9 :: "char \<Rightarrow> bool" where
  "digit1_9 c \<longleftrightarrow> c \<in> set ''123456789''"

definition digit :: "char \<Rightarrow> bool" where
  "digit c \<longleftrightarrow> c = CHR ''0'' \<or> digit1_9 c"

definition lxdigit :: "char \<Rightarrow> bool" where
  "lxdigit c \<longleftrightarrow> ch CHR ''a'' \<le> ch c \<and> ch c \<le> ch CHR ''f''"

definition uxdigit :: "char \<Rightarrow> bool" where
  "uxdigit c \<longleftrightarrow> ch CHR ''A'' \<le> ch c \<and> ch c \<le> ch CHR ''F''"

section \<open>UTF-8 and UTF-16 escapes (utf.cpp)\<close>

definition utf8_encode :: "nat \<Rightarrow> string result" where
  "utf8_encode cp =
     (if cp > 0x10FFFF then Inl InvalidArgument
      else if cp < 0x80 then Inr [mk cp]
      else if cp < 0x800 then
        Inr [mk (0xC0 + drop_bit 6 (cp AND 0x7C0)), mk (0x80 + (cp AND 0x03F))]
      else if cp < 0x10000 then
        Inr [mk (0xE0 + drop_bit 12 (cp AND 0xF000)), mk (0x80 + drop_bit 6 (cp AND 0x0FC0)),
             mk (0x80 + (cp AND 0x003F))]
      else
        Inr [mk (0xF0 + drop_bit 18 (cp AND 0x1C0000)), mk (0x80 + drop_bit 12 (cp AND 0x03F000)),
             mk (0x80 + drop_bit 6 (cp AND 0x000FC0)), mk (0x80 + (cp AND 0x00003F))])"

fun hex_digits :: "nat \<Rightarrow> int \<Rightarrow> string \<Rightarrow> (int \<times> string) result" where
  "hex_digits 0 w is = Inr (w, is)"
| "hex_digits (Suc n) w is =
     rbind (is_get is) (\<lambda>(c, is).
       if digit c then hex_digits n (16 * w + (int (ch c) - int (ch CHR ''0''))) is
       else if lxdigit c then hex_digits n (16 * w + (int (ch c) - int (ch CHR ''a'') + 10)) is
       else if uxdigit c then hex_digits n (16 * w + (int (ch c) - int (ch CHR ''A'') + 10)) is
       else Inr (-1, is))"

definition utf16_decode_seq :: "string \<Rightarrow> (int \<times> string) result" where
  "utf16_decode_seq is =
     rbind (is_get is) (\<lambda>(c1, is). rbind (is_get is) (\<lambda>(c2, is).
       if c1 \<noteq> CHR 0x5C \<and> c2 \<noteq> CHR ''u'' then Inr (-1, is) else hex_digits 4 0 is))"

definition utf16_decode :: "string \<Rightarrow> (string \<times> string) result" where
  "utf16_decode is =
     rbind (utf16_decode_seq is) (\<lambda>(w1, is).
       if w1 = -1 then Inl InvalidArgument
       else if 0xD800 \<le> w1 \<and> w1 \<le> 0xDBFF then
         rbind (utf16_decode_seq is) (\<lambda>(w2, is).
           if w2 = -1 then Inl InvalidArgument
           else if w2 \<ge> 0xDC00 \<and> w1 \<le> 0xDFFF then
             rbind (utf8_encode (nat ((w1 - 0xD800) * 1024 + (w2 - 0xDC00) + 0x10000)))
               (\<lambda>s. Inr (s, is))
           else Inl InvalidArgument)
       else rbind (utf8_encode (nat w1)) (\<lambda>s. Inr (s, is)))"

fun cont_bytes :: "nat \<Rightarrow> nat \<Rightarrow> string \<Rightarrow> (nat \<times> string) result" where
  "cont_bytes 0 dw is = Inr (dw, is)"
| "cont_bytes (Suc n) dw is =
     rbind (is_get is) (\<lambda>(c, is).
       if ch c AND 0x80 = 0x80 then cont_bytes n (push_bit 6 dw OR (ch c AND 0x3F)) is
       else Inl InvalidArgument)"

text \<open>\<^verbatim>\<open>std::setw(4) << std::setfill('0') << std::hex\<close>\<close>

definition hex_char :: "nat \<Rightarrow> char" where
  "hex_char d = (if d < 10 then mk (48 + d) else mk (87 + d))"

fun hex_string :: "nat \<Rightarrow> string" where
  "hex_string w = (if w < 16 then [hex_char w] else hex_string (w div 16) @ [hex_char (w mod 16)])"

declare hex_string.simps [simp del]

definition hex4 :: "nat \<Rightarrow> string" where
  "hex4 w = (let s = hex_string w in replicate (4 - length s) CHR ''0'' @ s)"

definition u_seq :: "nat \<Rightarrow> string" where
  "u_seq w = [CHR 0x5C, CHR ''u''] @ hex4 w"

text \<open>A plain \<^verbatim>\<open>char\<close> above 127 is negative and is sign-extended when it is stored in a \<^verbatim>\<open>uint32_t\<close>.\<close>

definition utf16_encode :: "string \<Rightarrow> (string \<times> string) result" where
  "utf16_encode is =
     rbind (is_get is) (\<lambda>(c, is).
       let (len, dw) =
         (if ch c AND 0xF0 = 0xF0 then (4, ch c AND 0x07)
          else if ch c AND 0xE0 = 0xE0 then (3, ch c AND 0x0F)
          else if ch c AND 0xC0 = 0xC0 then (2, ch c AND 0x1F)
          else (1::nat, if ch c < 128 then ch c else 2 ^ 32 - 256 + ch c))
       in rbind (cont_bytes (len - 1) dw is) (\<lambda>(dw, is).
         if dw < 0x10000 then Inr (u_seq dw, is)
         else
           let dw = dw - 0x10000;
               w1 = 0xD800 OR drop_bit 10 (dw AND 0xFFC00);
               w2 = 0xDC00 OR (dw AND 0x003FF)
           in Inr (u_seq w1 @ u_seq w2, is)))"

section \<open>Escaping (misc.cpp)\<close>

definition simple_escape :: "char \<Rightarrow> char option" where
  "simple_escape c =
     (if c = CHR 0x22 then Some CHR 0x22 else if c = CHR 0x5C then Some CHR 0x5C
      else if c = CHR ''/'' then Some CHR ''/''
      else if c = CHR ''b'' then Some CHR 0x08 else if c = CHR ''f'' then Some CHR 0x0C
      else if c = CHR ''n'' then Some CHR 0x0A else if c = CHR ''r'' then Some CHR 0x0D
      else if c = CHR ''t'' then Some CHR 0x09 else None)"

lemma is_get_shorter: "is_get is = Inr (c, is') \<Longrightarrow> length is' < length is"
  by (cases "is") auto

lemma hex_digits_shorter: "hex_digits n w is = Inr (w', is') \<Longrightarrow> length is' \<le> length is"
  by (induction n w "is" rule: hex_digits.induct)
    (fastforce simp: rbind_Inr dest: is_get_shorter split: if_splits)+

lemma utf16_decode_seq_shorter: "utf16_decode_seq is = Inr (w, is') \<Longrightarrow> length is' + 2 \<le> length is"
  by (fastforce simp: utf16_decode_seq_def rbind_Inr dest!: is_get_shorter hex_digits_shorter split: if_splits)

lemma utf16_decode_shorter: "utf16_decode is = Inr (s, is') \<Longrightarrow> length is' + 2 \<le> length is"
  by (fastforce simp: utf16_decode_def rbind_Inr dest!: utf16_decode_seq_shorter split: if_splits)

function unescape_loop :: "string \<Rightarrow> string \<Rightarrow> string result" where
  "unescape_loop is str =
     (case is of
        [] \<Rightarrow> Inr str
      | c # is' \<Rightarrow>
          if c = CHR 0x5C then
            (case is' of
               [] \<Rightarrow> Inr str
             | d # is'' \<Rightarrow>
                 if d = CHR ''u'' then
                   (case utf16_decode (CHR 0x5C # CHR ''u'' # is'') of
                      Inl e \<Rightarrow> if e = EofFailure then Inr str else Inl e
                    | Inr (s, is''') \<Rightarrow> unescape_loop is''' (str @ s))
                 else
                   (case simple_escape d of
                      None \<Rightarrow> Inl InvalidArgument
                    | Some e \<Rightarrow> unescape_loop is'' (str @ [e])))
          else unescape_loop is' (str @ [c]))"
  by pat_completeness auto

termination unescape_loop
  by (relation "measure (length \<circ> fst)") (auto dest!: utf16_decode_shorter [OF sym] utf16_decode_shorter)

declare unescape_loop.simps [simp del]

definition string_unescape :: "string \<Rightarrow> string result" where
  "string_unescape s = unescape_loop s []"

lemma cont_bytes_shorter: "cont_bytes n dw is = Inr (dw', is') \<Longrightarrow> length is' \<le> length is"
  by (induction n dw "is" rule: cont_bytes.induct)
    (fastforce simp: rbind_Inr dest: is_get_shorter split: if_splits)+

lemma utf16_encode_shorter: "utf16_encode is = Inr (s, is') \<Longrightarrow> length is' < length is"
  by (fastforce simp: utf16_encode_def rbind_Inr Let_def dest!: is_get_shorter cont_bytes_shorter split: if_splits prod.splits)

definition escape_char :: "char \<Rightarrow> string option" where
  "escape_char c =
     (if c = CHR 0x5C then Some [CHR 0x5C, CHR 0x5C] else if c = CHR 0x22 then Some [CHR 0x5C, CHR 0x22]
      else if c = CHR ''/'' then Some [CHR 0x5C, CHR ''/'']
      else if c = CHR 0x08 then Some [CHR 0x5C, CHR ''b''] else if c = CHR 0x0C then Some [CHR 0x5C, CHR ''f'']
      else if c = CHR 0x0A then Some [CHR 0x5C, CHR ''n''] else if c = CHR 0x0D then Some [CHR 0x5C, CHR ''r'']
      else if c = CHR 0x09 then Some [CHR 0x5C, CHR ''t'']
      else if ch c < 0x80 then Some [c] else None)"

function escape_loop :: "string \<Rightarrow> string \<Rightarrow> string result" where
  "escape_loop is str =
     (case is of
        [] \<Rightarrow> Inr str
      | c # is' \<Rightarrow>
          (case escape_char c of
             Some e \<Rightarrow> escape_loop is' (str @ e)
           | None \<Rightarrow>
               (case utf16_encode (c # is') of
                  Inl e \<Rightarrow> if e = EofFailure then Inr str else Inl e
                | Inr (s, is'') \<Rightarrow> escape_loop is'' (str @ s))))"
  by pat_completeness auto

termination escape_loop
  by (relation "measure (length \<circ> fst)") (auto dest!: utf16_encode_shorter [OF sym] utf16_encode_shorter)

declare escape_loop.simps [simp del]

definition string_escape :: "string \<Rightarrow> string result" where
  "string_escape s = escape_loop s []"

section \<open>Bits as arithmetic\<close>

lemma and_low:
  "x AND 0x07 = x mod (8::nat)" "x AND 0x0F = x mod (16::nat)" "x AND 0x1F = x mod (32::nat)"
  "x AND 0x3F = x mod (64::nat)" "x AND 0x3FF = x mod (1024::nat)"
  using take_bit_eq_mask [of 3 x] take_bit_eq_mask [of 4 x] take_bit_eq_mask [of 5 x]
    take_bit_eq_mask [of 6 x] take_bit_eq_mask [of 10 x]
  by (simp_all add: take_bit_eq_mod mask_eq_exp_minus_1)

lemma and_high:
  "drop_bit 6 (x AND 0x7C0) = x div 64 mod (32::nat)"
  "drop_bit 6 (x AND 0xFC0) = x div 64 mod (64::nat)"
  "drop_bit 12 (x AND 0xF000) = x div 4096 mod (16::nat)"
  "drop_bit 12 (x AND 0x3F000) = x div 4096 mod (64::nat)"
  "drop_bit 18 (x AND 0x1C0000) = x div 262144 mod (8::nat)"
  "drop_bit 10 (x AND 0xFFC00) = x div 1024 mod (1024::nat)"
  unfolding drop_bit_and by (simp_all add: drop_bit_eq_div and_low)

lemma push_or: "y < 64 \<Longrightarrow> push_bit 6 x OR y = 64 * x + (y::nat)"
proof -
  assume "y < 64"
  then have y: "take_bit 6 y = y" by (simp add: take_bit_eq_mod)
  have "push_bit 6 x + y = push_bit 6 x OR y"
  proof (rule disjunctive_add)
    fix n
    show "\<not> bit (push_bit 6 x) n \<or> \<not> bit y n"
      using y by (metis bit_push_bit_iff bit_take_bit_iff not_le)
  qed
  then show ?thesis by (simp add: push_bit_eq_mult mult.commute)
qed

lemma surrogate_or: "x < 1024 \<Longrightarrow> 0xD800 OR x = 0xD800 + (x::nat)" "x < 1024 \<Longrightarrow> 0xDC00 OR x = 0xDC00 + (x::nat)"
proof -
  assume "x < 1024"
  then have x: "take_bit 10 x = x" by (simp add: take_bit_eq_mod)
  have d: "\<not> bit (push_bit 10 k) n \<or> \<not> bit x n" for k :: nat and n
    using x by (metis bit_push_bit_iff bit_take_bit_iff not_le)
  have "push_bit 10 54 + x = push_bit 10 54 OR x" "push_bit 10 55 + x = push_bit 10 55 OR x"
    by (intro disjunctive_add d)+
  then show "0xD800 OR x = 0xD800 + x" "0xDC00 OR x = 0xDC00 + x" by (simp_all add: push_bit_eq_mult)
qed

lemma and_push: "x AND push_bit k m = push_bit k (drop_bit k x AND (m::nat))"
  by (rule bit_eqI) (auto simp: bit_simps)

lemma and_push_eq: "x AND push_bit k m = push_bit k m \<longleftrightarrow> x div 2 ^ k AND m = (m::nat)"
proof -
  have "push_bit k a = push_bit k b \<longleftrightarrow> a = b" for a b :: nat by (simp add: push_bit_eq_mult)
  then show ?thesis unfolding and_push drop_bit_eq_div .
qed

lemma lead_bits:
  assumes "b < (256::nat)"
  shows "b AND 0xF0 = 0xF0 \<longleftrightarrow> 0xF0 \<le> b" "b AND 0xE0 = 0xE0 \<longleftrightarrow> 0xE0 \<le> b"
    "b AND 0xC0 = 0xC0 \<longleftrightarrow> 0xC0 \<le> b" "b AND 0x80 = 0x80 \<longleftrightarrow> 0x80 \<le> b"
proof -
  have l: "x AND 3 = x mod (4::nat)" "x AND 1 = x mod (2::nat)" for x
    using take_bit_eq_mask [of 2 x] take_bit_eq_mask [of 1 x] by (simp_all add: take_bit_eq_mod mask_eq_exp_minus_1)
  have "x AND 7 = x mod (8::nat)" "x AND 15 = x mod (16::nat)" for x using and_low [of x] by simp_all
  with l and_push_eq [of b 4 15] and_push_eq [of b 5 7] and_push_eq [of b 6 3] and_push_eq [of b 7 1]
  have "b AND 0xF0 = 0xF0 \<longleftrightarrow> b div 16 mod 16 = 15" "b AND 0xE0 = 0xE0 \<longleftrightarrow> b div 32 mod 8 = 7"
    "b AND 0xC0 = 0xC0 \<longleftrightarrow> b div 64 mod 4 = 3" "b AND 0x80 = 0x80 \<longleftrightarrow> b div 128 mod 2 = 1"
    by (simp_all add: push_bit_eq_mult)
  moreover have "b div k mod m = m - 1 \<longleftrightarrow> k * (m - 1) \<le> b" if "b < k * m" "0 < m" for k m
  proof -
    have lt: "b div k < m" using that by (simp add: less_mult_imp_div_less mult.commute)
    have "b div k = m - 1 \<longleftrightarrow> m - 1 \<le> b div k" using lt by linarith
    also have "\<dots> \<longleftrightarrow> k * (m - 1) \<le> b"
      using that by (cases "k = 0") (simp_all add: less_eq_div_iff_mult_less_eq mult.commute)
    finally show ?thesis using lt by simp
  qed
  from this [of 16 16] this [of 32 8] this [of 64 4] this [of 128 2]
  have "b div 16 mod 16 = 15 \<longleftrightarrow> 240 \<le> b" "b div 32 mod 8 = 7 \<longleftrightarrow> 224 \<le> b"
    "b div 64 mod 4 = 3 \<longleftrightarrow> 192 \<le> b" "b div 128 mod 2 = 1 \<longleftrightarrow> 128 \<le> b"
    using assms by simp_all
  ultimately show "b AND 0xF0 = 0xF0 \<longleftrightarrow> 0xF0 \<le> b" "b AND 0xE0 = 0xE0 \<longleftrightarrow> 0xE0 \<le> b"
    "b AND 0xC0 = 0xC0 \<longleftrightarrow> 0xC0 \<le> b" "b AND 0x80 = 0x80 \<longleftrightarrow> 0x80 \<le> b" by simp_all
qed

section \<open>Hexadecimal\<close>

lemma hex_char_value:
  assumes "d < 16"
  shows "hex_digits (Suc n) w (hex_char d # is) = hex_digits n (16 * w + int d) is"
proof -
  have c: "ch (hex_char d) = (if d < 10 then 48 + d else 87 + d)" using assms by (simp add: hex_char_def ch_mk)
  show ?thesis
  proof (cases "d < 10")
    case True
    have "list_all (\<lambda>d. digit (hex_char d)) [0..<10]" by code_simp
    with True have "digit (hex_char d)" unfolding list_all_iff set_upt by auto
    with True c show ?thesis by simp
  next
    case False
    have "list_all (\<lambda>d. \<not> digit (hex_char d)) [10..<16]" by code_simp
    with False assms have "\<not> digit (hex_char d)" unfolding list_all_iff set_upt by auto
    moreover have "lxdigit (hex_char d)" using c False assms by (simp add: lxdigit_def)
    ultimately show ?thesis using c False by simp
  qed
qed

lemma hex4_digits:
  assumes "w < 65536"
  shows "hex4 w = [hex_char (w div 4096), hex_char (w div 256 mod 16), hex_char (w div 16 mod 16), hex_char (w mod 16)]"
proof -
  have z: "hex_char 0 = CHR ''0''" by code_simp
  consider "w < 16" | "16 \<le> w" "w < 256" | "256 \<le> w" "w < 4096" | "4096 \<le> w" by linarith
  then show ?thesis
    using assms z
    by cases (auto simp: hex4_def hex_string.simps Let_def div_mult2_eq [symmetric] numeral_3_eq_3 numeral_2_eq_2)
qed

lemma four_hex: "(w::nat) = 16 * (16 * (16 * (w div 4096) + w div 256 mod 16) + w div 16 mod 16) + w mod 16"
proof -
  have "w = 16 * (w div 16) + w mod 16" "w div 16 = 16 * (w div 256) + w div 16 mod 16"
    "w div 256 = 16 * (w div 4096) + w div 256 mod 16"
    using div_mult2_eq [of w 16 16] div_mult2_eq [of w 256 16] by simp_all
  moreover have "w = 16 * a + x \<Longrightarrow> a = 16 * b + y \<Longrightarrow> b = 16 * c + z \<Longrightarrow> w = 16 * (16 * (16 * c + z) + y) + x"
    for a b c x y z by simp
  ultimately show ?thesis by blast
qed

lemma hex4_read:
  assumes w: "w < 65536"
  shows "hex_digits 4 0 (hex4 w @ is) = Inr (int w, is)"
proof -
  have "w div 4096 < 16" using w by simp
  moreover have "int w = 16 * (16 * (16 * int (w div 4096) + int (w div 256 mod 16)) + int (w div 16 mod 16)) + int (w mod 16)"
    using four_hex [of w] by (metis of_nat_add of_nat_mult of_nat_numeral)
  moreover have "(4::nat) = Suc (Suc (Suc (Suc 0)))" by simp
  ultimately show ?thesis
    by (simp only: hex4_digits [OF w] append_Cons append_Nil hex_char_value pos_mod_bound mod_less_divisor
        zero_less_numeral hex_digits.simps(1) mult_zero_right add_0)
qed

section \<open>One code point\<close>

definition scalar :: "nat \<Rightarrow> bool" where
  "scalar cp \<longleftrightarrow> cp \<le> 0x10FFFF \<and> \<not> (0xD800 \<le> cp \<and> cp \<le> 0xDFFF)"

definition utf8 :: "nat \<Rightarrow> string" where
  "utf8 cp =
     (if cp < 0x80 then [mk cp]
      else if cp < 0x800 then [mk (0xC0 + cp div 64), mk (0x80 + cp mod 64)]
      else if cp < 0x10000 then
        [mk (0xE0 + cp div 4096), mk (0x80 + cp div 64 mod 64), mk (0x80 + cp mod 64)]
      else
        [mk (0xF0 + cp div 262144), mk (0x80 + cp div 4096 mod 64), mk (0x80 + cp div 64 mod 64),
         mk (0x80 + cp mod 64)])"

lemma utf8_encode_utf8: "cp \<le> 0x10FFFF \<Longrightarrow> utf8_encode cp = Inr (utf8 cp)"
  by (auto simp: utf8_encode_def utf8_def and_high and_low simp del: drop_bit_and)

lemma mod_plus: "k mod m = 0 \<Longrightarrow> x < m \<Longrightarrow> (k + x) mod m = (x::nat)"
  by (metis add_0 mod_add_left_eq mod_less)

lemma cont_bytes_step:
  "y < 64 \<Longrightarrow> cont_bytes (Suc n) dw (mk (0x80 + y) # is) = cont_bytes n (64 * dw + y) is"
proof -
  assume y: "y < 64"
  then have "(0x80 + y) mod 64 = y" by (simp add: mod_plus)
  with y show ?thesis by (simp add: ch_mk lead_bits and_low push_or)
qed

text \<open>The escape of a code point of two bytes or more: one \<^verbatim>\<open>\u\<close> sequence, or two for a surrogate pair.\<close>

definition utf16 :: "nat \<Rightarrow> string" where
  "utf16 cp =
     (if cp < 0x10000 then u_seq cp
      else u_seq (0xD800 + (cp - 0x10000) div 1024) @ u_seq (0xDC00 + (cp - 0x10000) mod 1024))"

lemma utf8_join:
  "(x::nat) = 64 * (x div 64) + x mod 64"
  "(x::nat) = 64 * (64 * (x div 4096) + x div 64 mod 64) + x mod 64"
  "(x::nat) = 64 * (64 * (64 * (x div 262144) + x div 4096 mod 64) + x div 64 mod 64) + x mod 64"
proof -
  have d: "x div 4096 = x div 64 div 64" "x div 262144 = x div 64 div 64 div 64"
    by (simp_all add: div_mult2_eq [symmetric])
  have "x = 64 * (x div 64) + x mod 64" "x div 64 = 64 * (x div 64 div 64) + x div 64 mod 64"
    "x div 64 div 64 = 64 * (x div 64 div 64 div 64) + x div 64 div 64 mod 64" by simp_all
  then show "x = 64 * (x div 64) + x mod 64" "x = 64 * (64 * (x div 4096) + x div 64 mod 64) + x mod 64"
    "x = 64 * (64 * (64 * (x div 262144) + x div 4096 mod 64) + x div 64 mod 64) + x mod 64"
    unfolding d by metis+
qed

lemma lead_mod:
  "x < 32 \<Longrightarrow> (0xC0 + x) mod 32 = (x::nat)" "x < 16 \<Longrightarrow> (0xE0 + x) mod 16 = (x::nat)"
  "x < 8 \<Longrightarrow> (0xF0 + x) mod 8 = (x::nat)"
  by (simp_all add: mod_plus)

lemma utf16_encode_utf8:
  assumes "0x80 \<le> cp" "cp \<le> 0x10FFFF"
  shows "utf16_encode (utf8 cp @ is) = Inr (utf16 cp, is)"
proof -
  define finish where "finish = (\<lambda>(dw::nat, is). if dw < 0x10000 then Inr (u_seq dw, is)
      else let dw = dw - 0x10000; w1 = 0xD800 OR drop_bit 10 (dw AND 0xFFC00); w2 = 0xDC00 OR (dw AND 0x003FF)
        in (Inr (u_seq w1 @ u_seq w2, is) :: (string \<times> string) result))"
  have fin: "finish (cp, is) = Inr (utf16 cp, is)"
    using assms by (auto simp: finish_def utf16_def Let_def and_high and_low surrogate_or simp del: drop_bit_and)
  consider (two) "cp < 0x800" | (three) "0x800 \<le> cp" "cp < 0x10000" | (four) "0x10000 \<le> cp" by linarith
  then show ?thesis
  proof cases
    case two
    have l: "0xC0 + cp div 64 < 256" "cp div 64 < 32" using two by auto
    have m: "(0xC0 + cp div 64) mod 32 = cp div 64" using l(2) by (rule lead_mod)
    have "cont_bytes (Suc 0) (cp div 64) (mk (0x80 + cp mod 64) # is) = Inr (cp, is)"
      using cont_bytes_step [of "cp mod 64" 0 "cp div 64" "is"] utf8_join(1) [of cp] by (simp del: cont_bytes.simps(2))
    moreover have "utf16_encode (utf8 cp @ is) = rbind (cont_bytes (Suc 0) (cp div 64) (mk (0x80 + cp mod 64) # is)) finish"
      using two assms(1) l m unfolding utf16_encode_def utf8_def finish_def
      by (simp add: ch_mk lead_bits and_low(1-3) del: cont_bytes.simps(2))
    ultimately show ?thesis using fin by simp
  next
    case three
    have l: "0xE0 + cp div 4096 < 256" "cp div 4096 < 16" using three by auto
    have m: "(0xE0 + cp div 4096) mod 16 = cp div 4096" using l(2) by (rule lead_mod)
    have "cont_bytes 2 (cp div 4096) (mk (0x80 + cp div 64 mod 64) # mk (0x80 + cp mod 64) # is) = Inr (cp, is)"
      using cont_bytes_step [of "cp div 64 mod 64" 1 "cp div 4096"] cont_bytes_step [of "cp mod 64" 0]
        utf8_join(2) [of cp] by (simp add: numeral_2_eq_2 del: cont_bytes.simps(2))
    moreover have "utf16_encode (utf8 cp @ is) = rbind (cont_bytes 2 (cp div 4096) (mk (0x80 + cp div 64 mod 64) # mk (0x80 + cp mod 64) # is)) finish"
      using three assms(1) l m unfolding utf16_encode_def utf8_def finish_def
      by (simp add: ch_mk lead_bits and_low(1-3) del: cont_bytes.simps(2))
    ultimately show ?thesis using fin by simp
  next
    case four
    have l: "0xF0 + cp div 262144 < 256" "cp div 262144 < 8" using assms by auto
    have m: "(0xF0 + cp div 262144) mod 8 = cp div 262144" using l(2) by (rule lead_mod)
    have "cont_bytes 3 (cp div 262144)
      (mk (0x80 + cp div 4096 mod 64) # mk (0x80 + cp div 64 mod 64) # mk (0x80 + cp mod 64) # is) = Inr (cp, is)"
      using cont_bytes_step [of "cp div 4096 mod 64" 2 "cp div 262144"] cont_bytes_step [of "cp div 64 mod 64" 1]
        cont_bytes_step [of "cp mod 64" 0] utf8_join(3) [of cp]
      by (simp add: numeral_3_eq_3 numeral_2_eq_2 del: cont_bytes.simps(2))
    moreover have "utf16_encode (utf8 cp @ is) = rbind (cont_bytes 3 (cp div 262144)
      (mk (0x80 + cp div 4096 mod 64) # mk (0x80 + cp div 64 mod 64) # mk (0x80 + cp mod 64) # is)) finish"
      using four assms(1) l m unfolding utf16_encode_def utf8_def finish_def
      by (simp add: ch_mk lead_bits and_low(1-3) del: cont_bytes.simps(2))
    ultimately show ?thesis using fin by simp
  qed
qed

lemma u_seq_read: "w < 65536 \<Longrightarrow> utf16_decode_seq (u_seq w @ is) = Inr (int w, is)"
  by (simp add: utf16_decode_seq_def u_seq_def hex4_read ch_mk)

lemma utf16_decode_utf16:
  assumes "scalar cp"
  shows "utf16_decode (utf16 cp @ is) = Inr (utf8 cp, is)"
proof (cases "cp < 0x10000")
  case True
  then show ?thesis
    using assms u_seq_read [of cp "is"] by (auto simp: utf16_decode_def utf16_def scalar_def utf8_encode_utf8)
next
  case False
  define d where "d = cp - 0x10000"
  have d: "d div 1024 < 1024" "cp = d + 0x10000" using False assms by (auto simp: d_def scalar_def)
  have "int (0xD800 + d div 1024) - 0xD800 = int (d div 1024)" "int (0xDC00 + d mod 1024) - 0xDC00 = int (d mod 1024)" by simp_all
  moreover have "nat (int (d div 1024) * 1024 + int (d mod 1024) + 0x10000) = cp"
    using d(2) by (metis (no_types) div_mult_mod_eq nat_int of_nat_add of_nat_mult of_nat_numeral)
  ultimately have "nat ((int (0xD800 + d div 1024) - 0xD800) * 1024 + (int (0xDC00 + d mod 1024) - 0xDC00) + 0x10000) = cp" by simp
  moreover have "utf16_decode_seq (u_seq (0xD800 + d div 1024) @ x) = Inr (int (0xD800 + d div 1024), x)"
    "utf16_decode_seq (u_seq (0xDC00 + d mod 1024) @ x) = Inr (int (0xDC00 + d mod 1024), x)" for x
    using d by (intro u_seq_read; simp)+
  ultimately show ?thesis
    using False d assms by (simp add: utf16_decode_def utf16_def d_def [symmetric] utf8_encode_utf8 scalar_def del: of_nat_add)
qed

section \<open>Whole strings\<close>

definition utf8_text :: "nat list \<Rightarrow> string" where
  "utf8_text cps = concat (map utf8 cps)"

text \<open>What one code point becomes in an escaped string.\<close>

definition escaped :: "nat \<Rightarrow> string" where
  "escaped cp = (if cp < 0x80 then (case escape_char (mk cp) of None \<Rightarrow> [] | Some e \<Rightarrow> e) else utf16 cp)"

lemma utf8_lead: "0x80 \<le> cp \<Longrightarrow> cp \<le> 0x10FFFF \<Longrightarrow> \<exists>c s. utf8 cp = c # s \<and> 0x80 \<le> ch c"
  by (auto simp: utf8_def ch_mk)

lemma escape_char_None:
  assumes "0x80 \<le> ch c"
  shows "escape_char c = None"
proof -
  have ne: "c \<noteq> d" if "ch d < 0x80" for d using assms that by auto
  show ?thesis using assms by (simp add: escape_char_def ne)
qed

lemma escape_char_Some: "ch c < 0x80 \<Longrightarrow> \<exists>e. escape_char c = Some e"
  by (auto simp: escape_char_def)

lemma escape_step:
  assumes "scalar cp"
  shows "escape_loop (utf8 cp @ is) str = escape_loop is (str @ escaped cp)"
proof (cases "cp < 0x80")
  case True
  then have "utf8 cp = [mk cp]" "ch (mk cp) < 0x80" by (simp_all add: utf8_def ch_mk)
  moreover from this(2) obtain e where "escape_char (mk cp) = Some e" using escape_char_Some by blast
  ultimately show ?thesis using True by (subst escape_loop.simps) (simp add: escaped_def)
next
  case False
  with assms utf8_lead [of cp] obtain c s where c: "utf8 cp = c # s" "0x80 \<le> ch c" unfolding scalar_def by auto
  have "utf16_encode (utf8 cp @ is) = Inr (utf16 cp, is)" using False assms by (intro utf16_encode_utf8) (auto simp: scalar_def)
  with c escape_char_None [OF c(2)] False show ?thesis by (subst escape_loop.simps) (simp add: escaped_def)
qed

lemma escape_loop_text: "\<forall>cp\<in>set cps. scalar cp \<Longrightarrow> escape_loop (utf8_text cps) str = Inr (str @ concat (map escaped cps))"
proof (induction cps arbitrary: str)
  case Nil
  then show ?case by (subst escape_loop.simps) (simp add: utf8_text_def)
next
  case (Cons cp cps)
  then show ?case using escape_step [of cp "utf8_text cps" str] by (simp add: utf8_text_def)
qed

lemma unescape_simple:
  assumes "escape_char c = Some e"
  shows "unescape_loop (e @ is) str = unescape_loop is (str @ [c])"
proof (cases "\<exists>d. e = [CHR 0x5C, d]")
  case True
  then obtain d where e: "e = [CHR 0x5C, d]" by blast
  have "d \<noteq> CHR ''u'' \<and> simple_escape d = Some c"
    using assms e by (auto simp: escape_char_def simple_escape_def split: if_splits)
  then show ?thesis using e by (subst unescape_loop.simps) (simp add: ch_mk)
next
  case False
  then have "e = [c]" "c \<noteq> CHR 0x5C" using assms by (auto simp: escape_char_def split: if_splits)
  then show ?thesis by (subst unescape_loop.simps) simp
qed

lemma unescape_step:
  assumes "scalar cp"
  shows "unescape_loop (escaped cp @ is) str = unescape_loop is (str @ utf8 cp)"
proof (cases "cp < 0x80")
  case True
  then obtain e where "escape_char (mk cp) = Some e" using escape_char_Some [of "mk cp"] by (auto simp: ch_mk)
  with True unescape_simple [OF this] show ?thesis by (simp add: escaped_def utf8_def)
next
  case False
  obtain s where s: "utf16 cp = CHR 0x5C # CHR ''u'' # s" by (cases "cp < 0x10000") (simp_all add: utf16_def u_seq_def)
  with utf16_decode_utf16 [OF assms, of "is"] False show ?thesis
    by (subst unescape_loop.simps) (simp add: escaped_def ch_mk)
qed

lemma unescape_loop_text:
  "\<forall>cp\<in>set cps. scalar cp \<Longrightarrow> unescape_loop (concat (map escaped cps)) str = Inr (str @ utf8_text cps)"
proof (induction cps arbitrary: str)
  case Nil
  then show ?case by (subst unescape_loop.simps) (simp add: utf8_text_def)
next
  case (Cons cp cps)
  then show ?case using unescape_step [of cp "concat (map escaped cps)" str] by (simp add: utf8_text_def)
qed

text \<open>
  C31: for every string that is the UTF-8 form of Unicode scalar values, escaping succeeds and
  unescaping the result gives the string back, surrogate pairs and control characters
  included.
\<close>

theorem unescape_escape:
  assumes "\<forall>cp\<in>set cps. scalar cp"
  shows "\<exists>e. string_escape (utf8_text cps) = Inr e \<and> string_unescape e = Inr (utf8_text cps)"
  using escape_loop_text [OF assms] unescape_loop_text [OF assms]
  by (simp add: string_escape_def string_unescape_def)

theorem unescape_escape_witness:
  "\<exists>e. string_escape (utf8_text [65, 10, 0xE9, 0x20AC, 0x1F600]) = Inr e \<and>
     string_unescape e = Inr (utf8_text [65, 10, 0xE9, 0x20AC, 0x1F600])"
  using unescape_escape [of "[65, 10, 0xE9, 0x20AC, 0x1F600]"] by (simp add: scalar_def)

lemma unescape_pair:
  assumes "0xD800 \<le> w1" "w1 \<le> 0xDBFF" "0xDC00 \<le> w2" "w2 < 65536"
    and le: "(w1 - 0xD800) * 1024 + (w2 - 0xDC00) + 0x10000 \<le> 0x10FFFF"
  shows "string_unescape (u_seq w1 @ u_seq w2) = Inr (utf8 ((w1 - 0xD800) * 1024 + (w2 - 0xDC00) + 0x10000))"
proof -
  let ?cp = "(w1 - 0xD800) * 1024 + (w2 - 0xDC00) + 0x10000"
  have cp: "nat (int w1 * 1024 + int w2 - 56613888) = 9216 + ((w1 - 55296) * 1024 + w2)"
    using assms(1,3) by (simp add: nat_eq_iff of_nat_diff)
  have "utf16_decode (u_seq w1 @ u_seq w2) = Inr (utf8 ?cp, [])"
    using assms u_seq_read [of w2 "[]"] by (simp add: utf16_decode_def u_seq_read cp utf8_encode_utf8)
  then show ?thesis unfolding string_unescape_def
    by (subst unescape_loop.simps) (simp add: u_seq_def ch_mk unescape_loop.simps [of "[]"])
qed

text \<open>
  The second half of a surrogate pair is accepted beyond its range, because its upper bound
  is tested on the first half: \<^verbatim>\<open>\ud800\uffff\<close> is not rejected but read as U+123FF, the
  character that \<^verbatim>\<open>\ud808\udfff\<close> stands for.
\<close>

lemma low_surrogate_not_checked:
  "string_unescape (u_seq 0xD800 @ u_seq 0xFFFF) = Inr (utf8 0x123FF) \<and>
   string_unescape (u_seq 0xD808 @ u_seq 0xDFFF) = Inr (utf8 0x123FF)"
  using unescape_pair [of "0xD800" "0xFFFF"] unescape_pair [of "0xD808" "0xDFFF"] by simp

text \<open>
  A backslash in front of text other than \<^verbatim>\<open>u\<close> passes for the start of a \<^verbatim>\<open>\u\<close> sequence, as
  does a \<^verbatim>\<open>u\<close> after any character: only a pair with both characters wrong is rejected.
\<close>

lemma escape_prefix_half_checked:
  "utf16_decode_seq (''xu00e9'') = Inr (0xE9, []) \<and> utf16_decode_seq (CHR 0x5C # ''x00e9'') = Inr (0xE9, []) \<and>
   utf16_decode_seq (''xx00e9'') = Inr (-1, ''00e9'')"
  by code_simp

end
