(* ===== verification/Json_Value.thy ===== *)
theory Json_Value
  imports Json_Text "HOL-Library.Char_ord" "HOL-Library.List_Lexorder"
begin

text \<open>
  The values of libjson (\<^verbatim>\<open>include/json.h\<close>, \<^verbatim>\<open>src/json.cpp\<close>): the tagged union \<^verbatim>\<open>value\<close>, the
  class \<^verbatim>\<open>object\<close> (a \<^verbatim>\<open>std::map\<close>, kept here as the sequence its iteration yields: pairs in
  ascending order of the key bytes) and the class \<^verbatim>\<open>array\<close> (a \<^verbatim>\<open>std::vector\<close>), with their
  accessors and the printers \<^verbatim>\<open>str\<close>. Values are immutable terms here: the sources copy every
  object and array they store, so no two values share storage. Doubles are a type variable,
  and the text of a double is an argument of the printers.
\<close>

section \<open>Values\<close>

datatype 'r json =
    T_NULL
  | T_BOOLEAN bool
  | T_INTEGER int
  | T_REAL 'r
  | T_STRING string
  | T_OBJECT "(string \<times> 'r json) list"
  | T_ARRAY "'r json list"

type_synonym 'r members = "(string \<times> 'r json) list"

text \<open>Storing a string in a value unescapes it.\<close>

definition value_of_string :: "string \<Rightarrow> 'r json result" where
  "value_of_string s = rbind (string_unescape s) (\<lambda>u. Inr (T_STRING u))"

definition value_get_boolean :: "'r json \<Rightarrow> bool result" where
  "value_get_boolean v = (case v of T_BOOLEAN b \<Rightarrow> Inr b | _ \<Rightarrow> Inl LogicError)"

definition value_get_integer :: "'r json \<Rightarrow> int result" where
  "value_get_integer v = (case v of T_INTEGER i \<Rightarrow> Inr i | _ \<Rightarrow> Inl LogicError)"

definition value_get_real :: "'r json \<Rightarrow> 'r result" where
  "value_get_real v = (case v of T_REAL r \<Rightarrow> Inr r | _ \<Rightarrow> Inl LogicError)"

definition value_get_string :: "'r json \<Rightarrow> string result" where
  "value_get_string v = (case v of T_STRING s \<Rightarrow> Inr s | _ \<Rightarrow> Inl LogicError)"

definition value_get_object :: "'r json \<Rightarrow> 'r members result" where
  "value_get_object v = (case v of T_OBJECT ms \<Rightarrow> Inr ms | _ \<Rightarrow> Inl LogicError)"

definition value_get_array :: "'r json \<Rightarrow> 'r json list result" where
  "value_get_array v = (case v of T_ARRAY vs \<Rightarrow> Inr vs | _ \<Rightarrow> Inl LogicError)"

section \<open>Objects\<close>

text \<open>\<^verbatim>\<open>std::map::insert\<close>: an existing key keeps its value.\<close>

fun map_insert :: "string \<Rightarrow> 'v \<Rightarrow> (string \<times> 'v) list \<Rightarrow> (string \<times> 'v) list" where
  "map_insert k v [] = [(k, v)]"
| "map_insert k v ((k', v') # ms) =
     (if k < k' then (k, v) # (k', v') # ms
      else if k = k' then (k', v') # ms
      else (k', v') # map_insert k v ms)"

definition object_add :: "string \<Rightarrow> 'r json \<Rightarrow> 'r members \<Rightarrow> 'r members result" where
  "object_add key val ms = rbind (string_unescape key) (\<lambda>k. Inr (map_insert k val ms))"

definition object_add_pair :: "string \<times> 'r json \<Rightarrow> 'r members \<Rightarrow> 'r members" where
  "object_add_pair kv ms = map_insert (fst kv) (snd kv) ms"

definition object_contains :: "string \<Rightarrow> 'r members \<Rightarrow> bool result" where
  "object_contains key ms = rbind (string_unescape key) (\<lambda>k. Inr (map_of ms k \<noteq> None))"

definition object_get :: "string \<Rightarrow> 'r members \<Rightarrow> 'r json result" where
  "object_get key ms =
     rbind (string_unescape key) (\<lambda>k. case map_of ms k of None \<Rightarrow> Inl OutOfRange | Some v \<Rightarrow> Inr v)"

definition object_get_default :: "string \<Rightarrow> 'r json \<Rightarrow> 'r members \<Rightarrow> 'r json result" where
  "object_get_default key default_value ms =
     rbind (string_unescape key) (\<lambda>k. case map_of ms k of None \<Rightarrow> Inr default_value | Some v \<Rightarrow> Inr v)"

definition object_get_boolean :: "string \<Rightarrow> bool \<Rightarrow> 'r members \<Rightarrow> bool result" where
  "object_get_boolean key default_value ms =
     rbind (string_unescape key) (\<lambda>k.
       case map_of ms k of Some (T_BOOLEAN b) \<Rightarrow> Inr b | _ \<Rightarrow> Inr default_value)"

definition object_get_integer :: "string \<Rightarrow> int \<Rightarrow> 'r members \<Rightarrow> int result" where
  "object_get_integer key default_value ms =
     rbind (string_unescape key) (\<lambda>k.
       case map_of ms k of Some (T_INTEGER i) \<Rightarrow> Inr i | _ \<Rightarrow> Inr default_value)"

definition object_get_real :: "string \<Rightarrow> 'r \<Rightarrow> 'r members \<Rightarrow> 'r result" where
  "object_get_real key default_value ms =
     rbind (string_unescape key) (\<lambda>k.
       case map_of ms k of Some (T_REAL r) \<Rightarrow> Inr r | _ \<Rightarrow> Inr default_value)"

definition object_get_string :: "string \<Rightarrow> string \<Rightarrow> 'r members \<Rightarrow> string result" where
  "object_get_string key default_value ms =
     rbind (string_unescape key) (\<lambda>k.
       case map_of ms k of Some (T_STRING s) \<Rightarrow> Inr s | _ \<Rightarrow> Inr default_value)"

section \<open>Arrays\<close>

definition array_add :: "'r json \<Rightarrow> 'r json list \<Rightarrow> 'r json list" where
  "array_add elem vs = vs @ [elem]"

definition array_valid :: "nat \<Rightarrow> 'r json list \<Rightarrow> bool" where
  "array_valid index vs \<longleftrightarrow> index \<ge> 0 \<and> index < length vs"

definition array_get :: "nat \<Rightarrow> 'r json list \<Rightarrow> 'r json result" where
  "array_get index vs = (if array_valid index vs then Inr (vs ! index) else Inl OutOfRange)"

definition array_get_default :: "nat \<Rightarrow> 'r json \<Rightarrow> 'r json list \<Rightarrow> 'r json" where
  "array_get_default index default_value vs = (if array_valid index vs then vs ! index else default_value)"

text \<open>
  The index operators first turn the value into an empty object or array when it is not one; the
  result is that value and the element the returned reference denotes. \<^verbatim>\<open>std::map\<close> adds a null
  member for a new key (which is not unescaped here); \<^verbatim>\<open>std::vector\<close> does not check the index.
\<close>

definition value_at_key :: "string \<Rightarrow> 'r json \<Rightarrow> ('r json \<times> 'r json) option" where
  "value_at_key key v =
     (let ms = map_insert key T_NULL (case v of T_OBJECT ms \<Rightarrow> ms | _ \<Rightarrow> [])
      in map_option (\<lambda>e. (T_OBJECT ms, e)) (map_of ms key))"

definition value_at_index :: "nat \<Rightarrow> 'r json \<Rightarrow> ('r json \<times> 'r json) option" where
  "value_at_index index v =
     (let vs = (case v of T_ARRAY vs \<Rightarrow> vs | _ \<Rightarrow> [])
      in if index < length vs then Some (T_ARRAY vs, vs ! index) else None)"

section \<open>Printing\<close>

definition quoted :: "string \<Rightarrow> string" where
  "quoted s = [CHR 0x22] @ s @ [CHR 0x22]"

text \<open>The line break and indentation, or the single space, before an element or a closing bracket.\<close>

definition gap :: "bool \<Rightarrow> nat \<Rightarrow> string" where
  "gap pretty indent = (if pretty then CHR 0x0A # replicate indent CHR '' '' else '' '')"

definition comma :: "bool \<Rightarrow> string" where
  "comma first = (if first then [] else '','')"

fun value_str :: "('r \<Rightarrow> string) \<Rightarrow> bool \<Rightarrow> nat \<Rightarrow> 'r json \<Rightarrow> string result"
  and object_str :: "('r \<Rightarrow> string) \<Rightarrow> bool \<Rightarrow> nat \<Rightarrow> bool \<Rightarrow> 'r members \<Rightarrow> string result"
  and array_str :: "('r \<Rightarrow> string) \<Rightarrow> bool \<Rightarrow> nat \<Rightarrow> bool \<Rightarrow> 'r json list \<Rightarrow> string result"
where
  "value_str sr pretty indent T_NULL = Inr ''null''"
| "value_str sr pretty indent (T_BOOLEAN b) = Inr (if b then ''true'' else ''false'')"
| "value_str sr pretty indent (T_INTEGER i) = Inr (int_str i)"
| "value_str sr pretty indent (T_REAL r) = Inr (sr r)"
| "value_str sr pretty indent (T_STRING s) = rbind (string_escape s) (\<lambda>e. Inr (quoted e))"
| "value_str sr pretty indent (T_OBJECT ms) =
     rbind (object_str sr pretty indent True ms) (\<lambda>body.
       Inr (''{'' @ body @ gap pretty indent @ ''}''))"
| "value_str sr pretty indent (T_ARRAY vs) =
     rbind (array_str sr pretty indent True vs) (\<lambda>body.
       Inr (''['' @ body @ gap pretty indent @ '']''))"
| "object_str sr pretty indent first [] = Inr []"
| "object_str sr pretty indent first ((k, v) # ms) =
     rbind (string_escape k) (\<lambda>e. rbind (value_str sr pretty (indent + 2) v) (\<lambda>t.
       rbind (object_str sr pretty indent False ms) (\<lambda>rest.
         Inr (comma first @ gap pretty (indent + 2) @ quoted e @ '' : '' @ t @ rest))))"
| "array_str sr pretty indent first [] = Inr []"
| "array_str sr pretty indent first (v # vs) =
     rbind (value_str sr pretty (indent + 2) v) (\<lambda>t.
       rbind (array_str sr pretty indent False vs) (\<lambda>rest.
         Inr (comma first @ gap pretty (indent + 2) @ t @ rest)))"

section \<open>Objects as maps\<close>

abbreviation ascending :: "(string \<times> 'v) list \<Rightarrow> bool" where
  "ascending ms \<equiv> sorted_wrt (<) (map fst ms)"

lemma map_insert_keys: "set (map fst (map_insert k v ms)) = insert k (set (map fst ms))"
  by (induction k v ms rule: map_insert.induct) auto

lemma map_insert_ascending: "ascending ms \<Longrightarrow> ascending (map_insert k v ms)"
proof (induction k v ms rule: map_insert.induct)
  case (2 k v k' v' ms)
  have "\<forall>y\<in>set (map fst (map_insert k v ms)). k' < y" if "\<not> k < k'" "k \<noteq> k'"
    using 2(2) that map_insert_keys [of k v ms] by (auto simp: not_less)
  with 2 show ?case by auto
qed simp

lemma map_of_map_insert:
  "ascending ms \<Longrightarrow> map_of (map_insert k v ms) =
     (if k \<in> dom (map_of ms) then map_of ms else (map_of ms)(k \<mapsto> v))"
  by (induction k v ms rule: map_insert.induct) (auto simp: fun_eq_iff dom_map_of_conv_image_fst)

lemma map_insert_last: "\<forall>k'\<in>set (map fst ms). k' < k \<Longrightarrow> map_insert k v ms = ms @ [(k, v)]"
  by (induction k v ms rule: map_insert.induct) auto

text \<open>
  Adding a member keeps the members in ascending order, gives the key the value only when the
  key was absent, and leaves what every other key finds as it was; keys are unescaped on the
  way in and on every lookup.
\<close>

lemma object_add_get:
  assumes "ascending ms" "string_unescape key = Inr k" "string_unescape key' = Inr k'"
  shows "\<exists>ms'. object_add key v ms = Inr ms' \<and> ascending ms' \<and>
    object_get key' ms' =
      (if k' = k \<and> object_contains key ms = Inr False then Inr v else object_get key' ms) \<and>
    object_contains key' ms' = (if k' = k then Inr True else object_contains key' ms)"
  using assms map_of_map_insert [OF assms(1), of k v] map_insert_ascending [OF assms(1)]
  by (auto simp: object_add_def object_get_def object_contains_def dom_def)

lemma object_add_get_sample:
  "\<exists>ms'. object_add ''b'' T_NULL [(''a'', T_INTEGER 1), (''b'', T_BOOLEAN True)] = Inr ms' \<and> ascending ms' \<and>
    object_get ''a'' ms' = (Inr (T_INTEGER 1) :: unit json result) \<and>
    object_contains ''a'' ms' = Inr True"
proof -
  have "string_unescape ''b'' = Inr ''b''" "string_unescape ''a'' = Inr ''a''" by code_simp+
  from object_add_get [OF _ this, of "[(''a'', T_INTEGER 1), (''b'', T_BOOLEAN True)]" "T_NULL :: unit json"]
  show ?thesis using \<open>string_unescape ''a'' = Inr ''a''\<close> by (simp add: object_get_def object_contains_def)
qed

end
