(* ===== verification/Json_Lexer.thy ===== *)
theory Json_Lexer
  imports Json_Value
begin

text \<open>
  The lexical analyser of libjson (\<^verbatim>\<open>include/lexer.h\<close>, \<^verbatim>\<open>src/lexer.cpp\<close>). A lexer is the
  remaining input and the row and column counters. Every operation returns a result together
  with the lexer it leaves behind, because the position is still reported after a failure.
  The stream is set up to throw at the end of input; that exception is the error
  \<open>EofFailure\<close>, which \<open>lexer_get\<close> turns into the token \<open>k_eof\<close>. The conversion
  \<^verbatim>\<open>std::stold\<close> of a real literal is an argument, \<open>None\<close> when it throws \<^verbatim>\<open>out_of_range\<close>.
\<close>

section \<open>State\<close>

datatype kind = k_none | k_lcb | k_rcb | k_lb | k_rb | k_colon | k_comma | k_null | k_true
  | k_false | k_integer | k_real | k_string | k_eof

record 'r token =
  t_kind :: kind
  t_value :: "'r json"

record lexer =
  m_is :: string
  m_row :: int
  m_col :: int
  m_lastrowcol :: int

definition new_lexer :: "string \<Rightarrow> lexer" where
  "new_lexer s = \<lparr>m_is = s, m_row = 1, m_col = 0, m_lastrowcol = 0\<rparr>"

type_synonym 'a lex = "lexer \<Rightarrow> 'a result \<times> lexer"

definition lbind :: "'a lex \<Rightarrow> ('a \<Rightarrow> 'b lex) \<Rightarrow> 'b lex" where
  "lbind m f s = (case m s of (Inl e, s) \<Rightarrow> (Inl e, s) | (Inr x, s) \<Rightarrow> f x s)"

definition ret :: "'a \<Rightarrow> 'a lex" where "ret x s = (Inr x, s)"

definition parse_fail :: "'a lex" where
  "parse_fail s = (Inl (ParsingError (m_row s) (m_col s)), s)"

definition lift_result :: "'a result \<Rightarrow> 'a lex" where "lift_result r s = (r, s)"

section \<open>Characters\<close>

definition getc :: "char lex" where
  "getc s =
     (case m_is s of
        [] \<Rightarrow> (Inl EofFailure, s)
      | c # cs \<Rightarrow>
          (Inr c,
           if c = CHR 0x0A
           then s\<lparr>m_is := cs, m_row := m_row s + 1, m_lastrowcol := m_col s, m_col := 0\<rparr>
           else s\<lparr>m_is := cs, m_col := m_col s + 1\<rparr>))"

definition ungetc :: "char \<Rightarrow> unit lex" where
  "ungetc c s =
     (Inr (),
      if c = CHR 0x0A
      then s\<lparr>m_is := c # m_is s, m_row := m_row s - 1, m_col := m_lastrowcol s, m_lastrowcol := 0\<rparr>
      else s\<lparr>m_is := c # m_is s, m_col := m_col s - 1\<rparr>)"

text \<open>
  \<^verbatim>\<open>m_is.get(buf, n)\<close>: at most \<open>n - 1\<close> characters, up to a newline; the end of input before that
  throws. Row and column are not touched.
\<close>

definition get_buf :: "nat \<Rightarrow> string lex" where
  "get_buf n s =
     (let buf = takeWhile (\<lambda>c. c \<noteq> CHR 0x0A) (take (n - 1) (m_is s)); rest = drop (length buf) (m_is s)
      in if length buf < n - 1 \<and> rest = [] then (Inl EofFailure, s\<lparr>m_is := []\<rparr>)
         else (Inr buf, s\<lparr>m_is := rest\<rparr>))"

section \<open>Tokens\<close>

definition token_of :: "kind \<Rightarrow> 'r token" where
  "token_of k = \<lparr>t_kind = k, t_value = T_NULL\<rparr>"

definition get_null :: "'r token lex" where
  "get_null = lbind (get_buf 5) (\<lambda>buf.
     if take 4 buf \<noteq> ''null'' then parse_fail else ret (token_of k_null))"

definition get_true :: "'r token lex" where
  "get_true = lbind (get_buf 5) (\<lambda>buf.
     if take 4 buf \<noteq> ''true'' then parse_fail
     else ret \<lparr>t_kind = k_true, t_value = T_BOOLEAN True\<rparr>)"

definition get_false :: "'r token lex" where
  "get_false = lbind (get_buf 6) (\<lambda>buf.
     if take 5 buf \<noteq> ''false'' then parse_fail
     else ret \<lparr>t_kind = k_false, t_value = T_BOOLEAN False\<rparr>)"

text \<open>
  \<^verbatim>\<open>while (pred(c = getc())) nstr += c;\<close> with the character that ends the run.
\<close>

function get_run :: "(char \<Rightarrow> bool) \<Rightarrow> string \<Rightarrow> (string \<times> char) lex" where
  "get_run P nstr s =
     (case getc s of
        (Inl e, s') \<Rightarrow> (Inl e, s')
      | (Inr c, s') \<Rightarrow> if P c then get_run P (nstr @ [c]) s' else (Inr (nstr, c), s'))"
  by pat_completeness auto

lemma getc_shorter: "getc s = (Inr c, s') \<Longrightarrow> length (m_is s') < length (m_is s)"
  by (auto simp: getc_def split: list.splits if_splits)

termination get_run
  by (relation "measure (\<lambda>(P, nstr, s). length (m_is s))") (auto dest: getc_shorter [OF sym] getc_shorter)

declare get_run.simps [simp del]

text \<open>\<^verbatim>\<open>std::stoll\<close> on an optional sign and digits.\<close>

definition digits_value :: "string \<Rightarrow> int" where
  "digits_value ds = fold (\<lambda>d n. 10 * n + (int (ch d) - 48)) ds 0"

definition stoll :: "string \<Rightarrow> int result" where
  "stoll ns =
     (let i = (case ns of c # ds \<Rightarrow> if c = CHR ''-'' then - digits_value ds else digits_value ns | [] \<Rightarrow> 0)
      in if - (2 ^ 63) \<le> i \<and> i < 2 ^ 63 then Inr i else Inl OutOfRange)"

text \<open>The part after the decimal point: the text so far and the character after it.\<close>

definition get_fraction :: "string \<Rightarrow> (string \<times> char) lex" where
  "get_fraction nstr = lbind getc (\<lambda>c. if digit c then get_run digit (nstr @ [c]) else parse_fail)"

text \<open>An optional sign: the text with the sign and the character after it.\<close>

definition get_sign :: "char set \<Rightarrow> string \<Rightarrow> char \<Rightarrow> (string \<times> char) lex" where
  "get_sign signs nstr c =
     (if c \<in> signs then lbind getc (\<lambda>d. ret (nstr @ [c], d)) else ret (nstr, c))"

text \<open>The leading digits of the exponent, zeros dropped, and the flag \<^verbatim>\<open>no_exp_value\<close>.\<close>

definition exp_first :: "string \<Rightarrow> char \<Rightarrow> (string \<times> bool) lex" where
  "exp_first nstr c =
     (if c = CHR ''0'' then
        lbind (get_run (\<lambda>d. d = CHR ''0'') []) (\<lambda>r. lbind (ungetc (snd r)) (\<lambda>_. ret (nstr, True)))
      else if digit1_9 c then ret (nstr @ [c], False)
      else parse_fail)"

definition get_exponent :: "string \<Rightarrow> (string \<times> char) lex" where
  "get_exponent nstr =
     lbind getc (\<lambda>c.
     lbind (get_sign {CHR ''+'', CHR ''-''} nstr c) (\<lambda>(nstr, c).
     lbind (exp_first nstr c) (\<lambda>(nstr, no_exp_value).
     lbind (get_run digit nstr) (\<lambda>(nstr', c).
       if no_exp_value \<and> nstr' = nstr then parse_fail else ret (nstr', c)))))"

text \<open>The first digit; a zero must be followed by the decimal point.\<close>

definition int_first :: "string \<Rightarrow> char \<Rightarrow> string lex" where
  "int_first nstr c =
     (if c = CHR ''0'' then
        lbind getc (\<lambda>d.
          if d \<noteq> CHR ''.'' then parse_fail else lbind (ungetc d) (\<lambda>_. ret (nstr @ [c])))
      else if digit1_9 c then ret (nstr @ [c])
      else parse_fail)"

definition number_value :: "(string \<Rightarrow> 'r option) \<Rightarrow> bool \<Rightarrow> string \<Rightarrow> 'r token result" where
  "number_value stold real nstr =
     (if real then
        (case stold nstr of
           None \<Rightarrow> Inl OutOfRange
         | Some r \<Rightarrow> Inr \<lparr>t_kind = k_real, t_value = T_REAL r\<rparr>)
      else rbind (stoll nstr) (\<lambda>i. Inr \<lparr>t_kind = k_integer, t_value = T_INTEGER i\<rparr>))"

definition get_number :: "(string \<Rightarrow> 'r option) \<Rightarrow> 'r token lex" where
  "get_number stold =
     lbind getc (\<lambda>c.
     lbind (get_sign {CHR ''-''} [] c) (\<lambda>(nstr, c).
     lbind (int_first nstr c) (\<lambda>nstr.
     lbind (get_run digit nstr) (\<lambda>(nstr, c).
     lbind (if c = CHR ''.'' then get_fraction (nstr @ [c]) else ret (nstr, c)) (\<lambda>(nstr, c1).
     lbind (if c1 = CHR ''e'' \<or> c1 = CHR ''E'' then get_exponent (nstr @ [c1]) else ret (nstr, c1)) (\<lambda>(nstr, c2).
     lbind (ungetc c2) (\<lambda>_.
       lift_result (number_value stold (c = CHR ''.'' \<or> c1 = CHR ''e'' \<or> c1 = CHR ''E'') nstr))))))))"

text \<open>
  \<^verbatim>\<open>utf16_decode(m_is)\<close> reads the stream behind the lexer's back; when it hits the end of input
  the whole input is consumed.
\<close>

definition lex_utf16 :: "string lex" where
  "lex_utf16 s =
     (case utf16_decode (m_is s) of
        Inl e \<Rightarrow> (Inl e, s\<lparr>m_is := []\<rparr>)
      | Inr (u, rest) \<Rightarrow> (Inr u, s\<lparr>m_is := rest\<rparr>))"

definition get_escape :: "string lex" where
  "get_escape = lbind getc (\<lambda>c.
     if c = CHR ''u'' then lbind (ungetc (CHR ''u'')) (\<lambda>_. lbind (ungetc (CHR 0x5C)) (\<lambda>_. lex_utf16))
     else (case simple_escape c of None \<Rightarrow> parse_fail | Some e \<Rightarrow> ret [e]))"

lemma lex_utf16_shorter: "lex_utf16 s = (Inr u, s') \<Longrightarrow> length (m_is s') + 2 \<le> length (m_is s)"
  by (auto simp: lex_utf16_def dest: utf16_decode_shorter split: sum.splits)

lemma get_escape_shorter: "get_escape s = (Inr u, s') \<Longrightarrow> length (m_is s') < length (m_is s)"
  by (auto simp: get_escape_def lbind_def ret_def parse_fail_def ungetc_def
      dest!: getc_shorter lex_utf16_shorter split: prod.splits sum.splits if_splits option.splits)

function get_string_loop :: "string \<Rightarrow> string lex" where
  "get_string_loop str s =
     (case getc s of
        (Inl e, s1) \<Rightarrow> (Inl e, s1)
      | (Inr c, s1) \<Rightarrow>
          if c = CHR 0x5C then
            (case get_escape s1 of
               (Inl e, s2) \<Rightarrow> (Inl e, s2)
             | (Inr u, s2) \<Rightarrow> get_string_loop (str @ u) s2)
          else if c = CHR 0x22 then (Inr str, s1)
          else get_string_loop (str @ [c]) s1)"
  by pat_completeness auto

termination get_string_loop
  by (relation "measure (\<lambda>(str, s). length (m_is s))")
    (auto dest!: getc_shorter getc_shorter [OF sym] get_escape_shorter get_escape_shorter [OF sym])

declare get_string_loop.simps [simp del]

definition lex_string :: "'r token lex" where
  "lex_string = lbind (get_string_loop []) (\<lambda>str.
     lbind (lift_result (value_of_string str)) (\<lambda>v. ret \<lparr>t_kind = k_string, t_value = v\<rparr>))"

definition lex_token :: "(string \<Rightarrow> 'r option) \<Rightarrow> char \<Rightarrow> 'r token lex" where
  "lex_token stold c =
     (if c = CHR ''{'' then ret (token_of k_lcb)
      else if c = CHR ''}'' then ret (token_of k_rcb)
      else if c = CHR ''['' then ret (token_of k_lb)
      else if c = CHR '']'' then ret (token_of k_rb)
      else if c = CHR '':'' then ret (token_of k_colon)
      else if c = CHR '','' then ret (token_of k_comma)
      else if c = CHR ''n'' then lbind (ungetc c) (\<lambda>_. get_null)
      else if c = CHR ''t'' then lbind (ungetc c) (\<lambda>_. get_true)
      else if c = CHR ''f'' then lbind (ungetc c) (\<lambda>_. get_false)
      else if c = CHR ''-'' \<or> digit c then lbind (ungetc c) (\<lambda>_. get_number stold)
      else if c = CHR 0x22 then lex_string
      else parse_fail)"

function lex_loop :: "(string \<Rightarrow> 'r option) \<Rightarrow> 'r token lex" where
  "lex_loop stold s =
     (case getc s of
        (Inl e, s') \<Rightarrow> (Inl e, s')
      | (Inr c, s') \<Rightarrow> if json_space c then lex_loop stold s' else lex_token stold c s')"
  by pat_completeness auto

termination lex_loop
  by (relation "measure (\<lambda>(stold, s). length (m_is s))") (auto dest: getc_shorter [OF sym] getc_shorter)

declare lex_loop.simps [simp del]

definition lexer_get :: "(string \<Rightarrow> 'r option) \<Rightarrow> 'r token lex" where
  "lexer_get stold s =
     (case lex_loop stold s of
        (Inl e, s') \<Rightarrow> if e = EofFailure then (Inr (token_of k_eof), s') else (Inl e, s')
      | (Inr t, s') \<Rightarrow> (Inr t, s'))"

section \<open>Progress\<close>

text \<open>
  \<open>uses k m\<close>: a successful run of \<open>m\<close> takes at least \<open>k\<close> characters off the input, and a run that
  meets the end of input leaves none.
\<close>

definition uses :: "int \<Rightarrow> 'a lex \<Rightarrow> bool" where
  "uses k m \<longleftrightarrow>
     (\<forall>s x s'. m s = (Inr x, s') \<longrightarrow> int (length (m_is s')) + k \<le> int (length (m_is s))) \<and>
     (\<forall>s s'. m s = (Inl EofFailure, s') \<longrightarrow> m_is s' = [])"

lemma uses_weaken: "uses j m \<Longrightarrow> k \<le> j \<Longrightarrow> uses k m"
  by (fastforce simp: uses_def)

lemma uses_lbind:
  assumes m: "uses j m" and f: "\<And>x. uses k (f x)" and i: "i \<le> j + k"
  shows "uses i (lbind m f)"
  unfolding uses_def
proof (intro conjI allI impI)
  fix s y s'
  assume "lbind m f s = (Inr y, s')"
  then obtain x s1 where "m s = (Inr x, s1)" "f x s1 = (Inr y, s')"
    by (auto simp: lbind_def split: prod.splits sum.splits)
  then have "int (length (m_is s1)) + j \<le> int (length (m_is s))" "int (length (m_is s')) + k \<le> int (length (m_is s1))"
    using m f [of x] by (auto simp: uses_def)
  then show "int (length (m_is s')) + i \<le> int (length (m_is s))" using i by linarith
next
  fix s s'
  assume "lbind m f s = (Inl EofFailure, s')"
  then show "m_is s' = []" using m f by (auto simp: lbind_def uses_def split: prod.splits sum.splits)
qed

lemma uses_ret [simp]: "uses 0 (ret x)" by (simp add: uses_def ret_def)
lemma uses_parse_fail [simp]: "uses k parse_fail" by (simp add: uses_def parse_fail_def)
lemma uses_getc [simp]: "uses 1 getc" by (auto simp: uses_def getc_def split: list.splits if_splits)
lemma uses_ungetc [simp]: "uses (-1) (ungetc c)" by (auto simp: uses_def ungetc_def)
lemma uses_lift: "r \<noteq> Inl EofFailure \<Longrightarrow> uses 0 (lift_result r)" by (auto simp: uses_def lift_result_def)

lemma get_run_uses: "get_run P ns s = (r, s') \<Longrightarrow>
    (\<forall>x. r = Inr x \<longrightarrow> length (m_is s') < length (m_is s)) \<and> (r = Inl EofFailure \<longrightarrow> m_is s' = [])"
proof (induction P ns s arbitrary: r s' rule: get_run.induct)
  case (1 P ns s)
  obtain q s1 where q: "getc s = (q, s1)" by (cases "getc s")
  show ?case
  proof (cases q)
    case (Inl e)
    with 1(2) q uses_getc show ?thesis by (subst (asm) get_run.simps) (auto simp: uses_def)
  next
    case (Inr c)
    have "length (m_is s1) < length (m_is s)" using q Inr by (auto dest: getc_shorter)
    with 1(1) [OF q [symmetric] Inr] 1(2) q Inr show ?thesis
      by (subst (asm) get_run.simps) (fastforce split: if_splits)
  qed
qed

lemma uses_get_run [simp]: "uses 1 (get_run P ns)"
  unfolding uses_def by (auto simp: Suc_le_eq dest!: get_run_uses)

lemma uses_lex_utf16 [simp]: "uses 2 lex_utf16"
  unfolding uses_def by (auto simp: lex_utf16_def dest: utf16_decode_shorter split: sum.splits)

lemma uses_get_escape [simp]: "uses 1 get_escape"
proof -
  have "uses 0 (lbind (ungetc (CHR ''u'')) (\<lambda>_. lbind (ungetc (CHR 0x5C)) (\<lambda>_. lex_utf16)))"
    by (rule uses_lbind [of "-1" _ 1]) (auto intro: uses_lbind [of "-1" _ 2])
  then show ?thesis unfolding get_escape_def
    by (intro uses_lbind [of 1 _ 0]) (auto split: option.splits)
qed

lemma get_string_loop_uses: "get_string_loop str s = (r, s') \<Longrightarrow>
    (\<forall>x. r = Inr x \<longrightarrow> length (m_is s') < length (m_is s)) \<and> (r = Inl EofFailure \<longrightarrow> m_is s' = [])"
proof (induction str s arbitrary: r s' rule: get_string_loop.induct)
  case (1 str s)
  obtain q s1 where q: "getc s = (q, s1)" by (cases "getc s")
  show ?case
  proof (cases q)
    case (Inl e)
    with 1(3) q uses_getc show ?thesis by (subst (asm) get_string_loop.simps) (auto simp: uses_def)
  next
    case (Inr c)
    obtain u s2 where u: "get_escape s1 = (u, s2)" by (cases "get_escape s1")
    have len: "length (m_is s1) < length (m_is s)" using q Inr by (auto dest: getc_shorter)
    show ?thesis
    proof (cases "c = CHR 0x5C")
      case True
      with 1(1) [OF q [symmetric] Inr True u [symmetric]] 1(3) q u Inr len uses_get_escape show ?thesis
        by (subst (asm) get_string_loop.simps) (fastforce simp: uses_def split: sum.splits)
    next
      case False
      with 1(2) [OF q [symmetric] Inr False] 1(3) q Inr len show ?thesis
        by (subst (asm) get_string_loop.simps) (fastforce split: if_splits)
    qed
  qed
qed

lemma uses_get_string_loop [simp]: "uses 1 (get_string_loop str)"
  unfolding uses_def by (auto simp: Suc_le_eq dest!: get_string_loop_uses)

lemma unescape_loop_not_eof: "unescape_loop is str \<noteq> Inl EofFailure"
proof (induction "is" str rule: unescape_loop.induct)
  case (1 "is" str)
  then show ?case
    by (subst unescape_loop.simps) (auto split: list.splits option.splits sum.splits prod.splits)
qed

lemma value_of_string_not_eof: "value_of_string str \<noteq> Inl EofFailure"
  using unescape_loop_not_eof [of str "[]"]
  by (cases "string_unescape str") (auto simp: value_of_string_def string_unescape_def)

lemma uses_lex_string [simp]: "uses 1 lex_string"
  unfolding lex_string_def
  by (intro uses_lbind [of 1 _ 0] uses_lbind [of 0 _ 0] uses_lift value_of_string_not_eof) simp_all

lemma uses_get_fraction [simp]: "uses 2 (get_fraction ns)"
  unfolding get_fraction_def by (rule uses_lbind [of 1 _ 1]) auto

lemma uses_if: "uses k m \<Longrightarrow> uses k m' \<Longrightarrow> uses k (if b then m else m')"
  by simp

lemma uses_case_prod: "(\<And>x y. uses k (f x y)) \<Longrightarrow> uses k (case p of (x, y) \<Rightarrow> f x y)"
  by (cases p) simp

lemma uses_get_sign [simp]: "uses 0 (get_sign signs ns c)"
  unfolding get_sign_def by (intro uses_if uses_lbind [of 1 _ 0]) simp_all

lemma uses_exp_first [simp]: "uses 0 (exp_first ns c)"
  unfolding exp_first_def by (intro uses_if uses_lbind [of 1 _ "-1"] uses_lbind [of "-1" _ 0]) simp_all

lemma uses_int_first [simp]: "uses 0 (int_first ns c)"
  unfolding int_first_def by (intro uses_if uses_lbind [of 1 _ "-1"] uses_lbind [of "-1" _ 0]) simp_all

lemma uses_get_exponent [simp]: "uses 2 (get_exponent ns)"
  unfolding get_exponent_def
  by (intro uses_lbind [of 1 _ 1] uses_lbind [of 0 _ 1] uses_lbind [of 1 _ 0] uses_case_prod uses_if) simp_all

lemma stoll_not_eof: "stoll ns \<noteq> Inl EofFailure"
  by (simp add: stoll_def Let_def)

lemma number_value_not_eof: "number_value stold b ns \<noteq> Inl EofFailure"
  using stoll_not_eof [of ns] by (cases "stoll ns") (auto simp: number_value_def split: option.splits)

lemma uses_get_number [simp]: "uses 1 (get_number stold)"
  unfolding get_number_def
  apply (rule uses_lbind [of 1 _ 0], simp)
   apply (rule uses_lbind [of 0 _ 0], simp, rule uses_case_prod)
    apply (rule uses_lbind [of 0 _ 0], simp)
     apply (rule uses_lbind [of 1 _ "-1"], simp, rule uses_case_prod)
      apply (rule uses_lbind [of 0 _ "-1"])
        apply (simp add: uses_weaken [OF uses_get_fraction])
       apply (rule uses_case_prod, rule uses_lbind [of 0 _ "-1"])
         apply (simp add: uses_weaken [OF uses_get_exponent])
        apply (rule uses_case_prod, rule uses_lbind [of "-1" _ 0], simp)
         apply (rule uses_lift, rule number_value_not_eof)
        apply simp_all
  done

lemma get_buf_uses:
  "get_buf n s = (Inr buf, s') \<Longrightarrow> length (m_is s') + length buf = length (m_is s)"
  "get_buf n s = (Inl e, s') \<Longrightarrow> m_is s' = []"
proof -
  have "length (takeWhile P (take k xs)) \<le> length xs" for P k and xs :: string
    using length_takeWhile_le [of P "take k xs"] by simp
  then show "get_buf n s = (Inr buf, s') \<Longrightarrow> length (m_is s') + length buf = length (m_is s)"
    by (auto simp: get_buf_def Let_def split: if_splits)
  show "get_buf n s = (Inl e, s') \<Longrightarrow> m_is s' = []"
    by (auto simp: get_buf_def Let_def split: if_splits)
qed

lemma uses_literal:
  assumes "w \<noteq> []"
  shows "uses 1 (lbind (get_buf n) (\<lambda>buf. if take k buf \<noteq> w then parse_fail else ret t))"
proof -
  have "int (length (m_is s')) + 1 \<le> int (length (m_is s))" if "get_buf n s = (Inr buf, s')" "take k buf = w" for s buf s'
    using get_buf_uses(1) [OF that(1)] that(2) assms by (cases buf) auto
  then show ?thesis
    by (fastforce simp: uses_def lbind_def parse_fail_def ret_def dest!: get_buf_uses(2)
        split: prod.splits sum.splits if_splits)
qed

lemma uses_literals [simp]: "uses 1 get_null" "uses 1 get_true" "uses 1 get_false"
  by (simp_all add: get_null_def get_true_def get_false_def uses_literal)

lemma uses_lex_token: "uses 0 (lex_token stold c)"
  unfolding lex_token_def
  by (intro uses_if uses_lbind [of "-1" _ 1]) (simp_all add: uses_weaken [OF uses_lex_string])

definition yields :: "('a \<Rightarrow> bool) \<Rightarrow> 'a lex \<Rightarrow> bool" where
  "yields P m \<longleftrightarrow> (\<forall>s x s'. m s = (Inr x, s') \<longrightarrow> P x)"

lemma yields_lbind: "(\<And>x. yields P (f x)) \<Longrightarrow> yields P (lbind m f)"
  by (fastforce simp: yields_def lbind_def split: prod.splits sum.splits)

lemma yields_simps [simp]:
  "yields P (ret x) = P x" "yields P parse_fail"
  "yields P (lift_result r) = (\<forall>x. r = Inr x \<longrightarrow> P x)"
  by (auto simp: yields_def ret_def parse_fail_def lift_result_def)

lemma yields_if: "yields P m \<Longrightarrow> yields P m' \<Longrightarrow> yields P (if b then m else m')"
  by simp

lemma yields_case_prod: "(\<And>x y. yields P (f x y)) \<Longrightarrow> yields P (case p of (x, y) \<Rightarrow> f x y)"
  by (cases p) simp

lemma number_kind: "number_value stold b ns = Inr t \<Longrightarrow> t_kind t \<noteq> k_eof"
  by (auto simp: number_value_def rbind_Inr split: if_splits option.splits)

lemma token_kinds: "yields (\<lambda>t. t_kind t \<noteq> k_eof) (lex_token stold c)"
  unfolding lex_token_def get_null_def get_true_def get_false_def lex_string_def get_number_def
  by (intro yields_if yields_lbind yields_case_prod) (auto simp: token_of_def dest: number_kind)

lemma lex_loop_uses: "lex_loop stold s = (r, s') \<Longrightarrow>
    (\<forall>t. r = Inr t \<longrightarrow> length (m_is s') < length (m_is s) \<and> t_kind t \<noteq> k_eof) \<and> (r = Inl EofFailure \<longrightarrow> m_is s' = [])"
proof (induction stold s arbitrary: r s' rule: lex_loop.induct)
  case (1 stold s)
  obtain q s1 where q: "getc s = (q, s1)" by (cases "getc s")
  show ?case
  proof (cases q)
    case (Inl e)
    with 1(2) q uses_getc show ?thesis by (subst (asm) lex_loop.simps) (auto simp: uses_def)
  next
    case (Inr c)
    have len: "length (m_is s1) < length (m_is s)" using q Inr by (auto dest: getc_shorter)
    show ?thesis
    proof (cases "json_space c")
      case True
      with 1(1) [OF q [symmetric] Inr] 1(2) q Inr len show ?thesis
        by (subst (asm) lex_loop.simps) fastforce
    next
      case False
      with 1(2) q Inr have "lex_token stold c s1 = (r, s')" by (subst (asm) lex_loop.simps) simp
      with uses_lex_token [of stold c] len token_kinds [of stold c] show ?thesis
        by (fastforce simp: uses_def yields_def)
    qed
  qed
qed

lemma lexer_get_progress:
  "lexer_get stold s = (Inr t, s') \<Longrightarrow>
     (if t_kind t = k_eof then m_is s' = [] else length (m_is s') < length (m_is s))"
  by (cases "lex_loop stold s")
    (auto simp: lexer_get_def token_of_def dest!: lex_loop_uses split: sum.splits if_splits)

end
