(* ===== verification/Json_Parser.thy ===== *)
theory Json_Parser
  imports Json_Lexer
begin

text \<open>
  The recursive-descent parser of libjson (\<^verbatim>\<open>src/parser.cpp\<close>). The two mutually recursive
  functions and their loops take a fuel argument; \<^term>\<open>None\<close> means the fuel ran out. The entry
  point supplies twice the length of the input and two more, and the theorem on termination shows
  that this is always enough, so \<^term>\<open>None\<close> never stands for a result of the program. A token
  with an element's value is added as it is; \<^verbatim>\<open>t\<close> refers to the one token the lexer owns, so the
  assignments \<^verbatim>\<open>t = lex.get()\<close> are self-assignments and only the call matters.
\<close>

section \<open>Parsing\<close>

definition plain_kind :: "kind \<Rightarrow> bool" where
  "plain_kind k \<longleftrightarrow> k = k_null \<or> k = k_true \<or> k = k_false \<or> k = k_integer \<or> k = k_real \<or> k = k_string"

type_synonym 'r outcome = "('r json result \<times> lexer) option"

definition pbind :: "('a result \<times> lexer) option \<Rightarrow> ('a \<Rightarrow> lexer \<Rightarrow> ('b result \<times> lexer) option) \<Rightarrow> ('b result \<times> lexer) option" where
  "pbind m f = (case m of None \<Rightarrow> None | Some (Inl e, s) \<Rightarrow> Some (Inl e, s) | Some (Inr x, s) \<Rightarrow> f x s)"

fun parse_array :: "(string \<Rightarrow> 'r option) \<Rightarrow> nat \<Rightarrow> lexer \<Rightarrow> 'r outcome"
  and parse_array_loop :: "(string \<Rightarrow> 'r option) \<Rightarrow> nat \<Rightarrow> 'r token \<Rightarrow> 'r json list \<Rightarrow> lexer \<Rightarrow> 'r outcome"
  and parse_object :: "(string \<Rightarrow> 'r option) \<Rightarrow> nat \<Rightarrow> lexer \<Rightarrow> 'r outcome"
  and parse_object_loop :: "(string \<Rightarrow> 'r option) \<Rightarrow> nat \<Rightarrow> 'r token \<Rightarrow> 'r members \<Rightarrow> lexer \<Rightarrow> 'r outcome"
where
  "parse_array stold 0 s = None"
| "parse_array stold (Suc n) s =
     pbind (Some (lexer_get stold s)) (\<lambda>t s. parse_array_loop stold n t [] s)"
| "parse_array_loop stold 0 t arr s = None"
| "parse_array_loop stold (Suc n) t arr s =
     (if t_kind t = k_eof then Some (Inr (T_ARRAY arr), s)
      else
        pbind (if plain_kind (t_kind t) then Some (Inr (t_value t), s)
               else if t_kind t = k_lcb then parse_object stold n s
               else if t_kind t = k_lb then parse_array stold n s
               else Some (parse_fail s)) (\<lambda>v s.
        pbind (Some (lexer_get stold s)) (\<lambda>t s.
          if t_kind t = k_rb then Some (Inr (T_ARRAY (array_add v arr)), s)
          else if t_kind t \<noteq> k_comma then Some (parse_fail s)
          else pbind (Some (lexer_get stold s)) (\<lambda>t s.
            parse_array_loop stold n t (array_add v arr) s))))"
| "parse_object stold 0 s = None"
| "parse_object stold (Suc n) s =
     pbind (Some (lexer_get stold s)) (\<lambda>t s. parse_object_loop stold n t [] s)"
| "parse_object_loop stold 0 t obj s = None"
| "parse_object_loop stold (Suc n) t obj s =
     (if t_kind t = k_eof then Some (Inr (T_OBJECT obj), s)
      else if t_kind t \<noteq> k_string then Some (parse_fail s)
      else
        pbind (Some (value_get_string (t_value t), s)) (\<lambda>key s.
        pbind (Some (lexer_get stold s)) (\<lambda>t s.
          if t_kind t \<noteq> k_colon then Some (parse_fail s)
          else
        pbind (Some (lexer_get stold s)) (\<lambda>t s.
        pbind (if plain_kind (t_kind t) then Some (Inr (t_value t), s)
               else if t_kind t = k_lcb then parse_object stold n s
               else if t_kind t = k_lb then parse_array stold n s
               else Some (parse_fail s)) (\<lambda>v s.
        pbind (Some (object_add key v obj, s)) (\<lambda>obj s.
        pbind (Some (lexer_get stold s)) (\<lambda>t s.
          if t_kind t = k_rcb then Some (Inr (T_OBJECT obj), s)
          else if t_kind t \<noteq> k_comma then Some (parse_fail s)
          else pbind (Some (lexer_get stold s)) (\<lambda>t s.
            parse_object_loop stold n t obj s))))))))"

definition parse_json :: "(string \<Rightarrow> 'r option) \<Rightarrow> nat \<Rightarrow> lexer \<Rightarrow> 'r outcome" where
  "parse_json stold n s =
     pbind (Some (lexer_get stold s)) (\<lambda>t s.
       if t_kind t = k_lcb then parse_object stold n s
       else if t_kind t = k_lb then parse_array stold n s
       else Some (parse_fail s))"

definition from_stream :: "(string \<Rightarrow> 'r option) \<Rightarrow> string \<Rightarrow> ('r json result) option" where
  "from_stream stold s = map_option fst (parse_json stold (2 * length s + 2) (new_lexer s))"

definition from_string :: "(string \<Rightarrow> 'r option) \<Rightarrow> string \<Rightarrow> ('r json result) option" where
  "from_string stold s = from_stream stold s"

section \<open>Termination\<close>

text \<open>A parser returns, and what it leaves of the input is no longer than what it got.\<close>

definition returns :: "nat \<Rightarrow> ('a result \<times> lexer) option \<Rightarrow> bool" where
  "returns k r \<longleftrightarrow> (\<exists>q. r = Some q \<and> (isl (fst q) \<or> length (m_is (snd q)) \<le> k))"

lemma returns_get:
  assumes "\<And>t s'. lexer_get stold s = (Inr t, s') \<Longrightarrow>
     (if t_kind t = k_eof then m_is s' = [] else length (m_is s') < length (m_is s)) \<Longrightarrow> returns k (f t s')"
  shows "returns k (pbind (Some (lexer_get stold s)) f)"
  by (cases "lexer_get stold s"; cases "fst (lexer_get stold s)")
    (use assms lexer_get_progress in \<open>fastforce simp: pbind_def returns_def\<close>)+

lemma returns_bind:
  assumes "returns j m" "\<And>x s'. m = Some (Inr x, s') \<Longrightarrow> length (m_is s') \<le> j \<Longrightarrow> returns k (f x s')"
  shows "returns k (pbind m f)"
proof -
  from assms(1) obtain r s' where m: "m = Some (r, s')" "isl r \<or> length (m_is s') \<le> j" by (auto simp: returns_def)
  then show ?thesis using assms(2) by (cases r) (auto simp: pbind_def returns_def)
qed

lemma returns_fail: "returns k (Some (parse_fail s))"
  by (simp add: parse_fail_def returns_def)

lemma returns_if: "(b \<Longrightarrow> returns k m) \<Longrightarrow> (\<not> b \<Longrightarrow> returns k m') \<Longrightarrow> returns k (if b then m else m')"
  by simp

lemma returns_weaken: "returns j m \<Longrightarrow> j \<le> k \<Longrightarrow> returns k m"
  by (auto simp: returns_def)

lemma returns_value: "length (m_is s) \<le> k \<Longrightarrow> returns k (Some (r, s))"
  by (simp add: returns_def)

text \<open>Fuel that suffices for a loop that holds token \<open>t\<close>.\<close>

abbreviation fuelled :: "nat \<Rightarrow> 'r token \<Rightarrow> lexer \<Rightarrow> bool" where
  "fuelled n t s \<equiv> (t_kind t = k_eof \<and> 1 \<le> n) \<or> 2 * length (m_is s) + 3 \<le> n"

lemma parser_returns:
  "2 * length (m_is s) + 2 \<le> n \<Longrightarrow> returns (length (m_is s)) (parse_array stold n s)"
  "fuelled n t s \<Longrightarrow> returns (length (m_is s)) (parse_array_loop stold n t arr s)"
  "2 * length (m_is s) + 2 \<le> n \<Longrightarrow> returns (length (m_is s)) (parse_object stold n s)"
  "fuelled n t s \<Longrightarrow> returns (length (m_is s)) (parse_object_loop stold n t obj s)"
proof (induction stold n s and stold n t arr s and stold n s and stold n t obj s
    rule: parse_array_parse_array_loop_parse_object_parse_object_loop.induct)
  case (2 stold n s)
  show ?case unfolding parse_array.simps
  proof (rule returns_get, goal_cases)
    case (1 t s')
    have "returns (length (m_is s')) (parse_array_loop stold n t [] s')"
      by (rule 2(1)) (use 1 2(2) in \<open>auto split: if_splits\<close>)
    then show ?case by (rule returns_weaken) (use 1 in \<open>auto split: if_splits\<close>)
  qed
next
  case (4 stold n t arr s)
  show ?case unfolding parse_array_loop.simps
  proof (rule returns_if, rule returns_value, simp, rule returns_bind [where j = "length (m_is s)"], goal_cases)
    case 1
    then show ?case using 4(1,2,4) by (intro returns_if returns_fail returns_value) auto
  next
    case (2 v s1)
    show ?case
    proof (rule returns_get, rule returns_if, goal_cases)
      case (1 u s2)
      then show ?case using 2 by (intro returns_value) auto
    next
      case a: (2 u s2)
      show ?case
      proof (rule returns_if, rule returns_fail, rule returns_get, goal_cases)
        case (1 w s3)
        have len: "length (m_is s3) < length (m_is s1)" using 1 a by (auto split: if_splits)
        have "returns (length (m_is s3)) (parse_array_loop stold n w (array_add v arr) s3)"
          by (rule 4(3)) (use 1 2 a len 4(4) in \<open>auto split: if_splits\<close>)
        then show ?case by (rule returns_weaken) (use 2 len in auto)
      qed
    qed
  qed
next
  case (6 stold n s)
  show ?case unfolding parse_object.simps
  proof (rule returns_get, goal_cases)
    case (1 t s')
    have "returns (length (m_is s')) (parse_object_loop stold n t [] s')"
      by (rule 6(1)) (use 1 6(2) in \<open>auto split: if_splits\<close>)
    then show ?case by (rule returns_weaken) (use 1 in \<open>auto split: if_splits\<close>)
  qed
next
  case (8 stold n t obj s)
  show ?case unfolding parse_object_loop.simps
  proof (rule returns_if, rule returns_value, simp, rule returns_if, rule returns_fail, rule returns_bind [where j = "length (m_is s)"],
      rule returns_value, simp, rule returns_get, rule returns_if, rule returns_fail, rule returns_get, goal_cases)
    case a: (1 key s0 t1 s1 t2 s2)
    have n: "2 * length (m_is s) + 3 \<le> Suc n" and s0: "length (m_is s0) \<le> length (m_is s)" using a 8(4) by auto
    have s1: "length (m_is s1) < length (m_is s0)" using a by (auto split: if_splits)
    show ?case
    proof (rule returns_bind [where j = "length (m_is s1)"], goal_cases)
      case 1
      have "length (m_is s2) \<le> length (m_is s1)" using a by (auto split: if_splits)
      then show ?case
        by (intro returns_if returns_fail returns_value returns_weaken [OF 8(1)] returns_weaken [OF 8(2)])
          (use a n s0 s1 in auto)
    next
      case b: (2 v s3)
      show ?case
      proof (rule returns_bind [where j = "length (m_is s1)"], rule returns_value, goal_cases)
        case (2 obj' s4)
        show ?case
        proof (rule returns_get, rule returns_if, goal_cases)
          case (1 u s5)
          then show ?case using 2 s0 s1 by (intro returns_value) auto
        next
          case c: (2 u s5)
          show ?case
          proof (rule returns_if, rule returns_fail, rule returns_get, goal_cases)
            case (1 w s6)
            have len: "length (m_is s6) < length (m_is s4)" using 1 c by (auto split: if_splits)
            have "returns (length (m_is s6)) (parse_object_loop stold n w obj' s6)"
              by (rule 8(3) [OF a(1,2,7) c(3) 1(1)]) (use 1 2 a c len n s0 s1 in \<open>auto split: if_splits\<close>)
            then show ?case by (rule returns_weaken) (use 2 len s0 s1 in auto)
          qed
        qed
      qed (use b in auto)
    qed
  qed
qed simp_all

text \<open>
  C21: parsing always returns, with a value or an exception, whatever the input: the fuel the entry
  point supplies never runs out.
\<close>

theorem from_string_returns: "\<exists>r. from_string stold input = Some r"
proof -
  have "returns (length input) (parse_json stold (2 * length input + 2) (new_lexer input))"
    unfolding parse_json_def
  proof (rule returns_get, goal_cases)
    case (1 t s)
    have le: "length (m_is s) \<le> length input" using 1(2) by (auto simp: new_lexer_def split: if_splits)
    then show ?case
      using parser_returns(1,3) [of s "2 * length input + 2" stold]
      by (auto intro: returns_fail returns_weaken)
  qed
  then show ?thesis by (auto simp: from_string_def from_stream_def returns_def)
qed

end
