(* ===== verification/Json_Roundtrip.thy ===== *)
theory Json_Roundtrip
  imports Json_Parser
begin

text \<open>
  Printing and parsing of libjson against each other: what the lexer makes of printed text, and
  the round trip of every value whose printed form the parser accepts.
\<close>

section \<open>Reading a known text\<close>

definition reads :: "'a lex \<Rightarrow> string \<Rightarrow> 'a \<Rightarrow> string \<Rightarrow> bool" where
  "reads m xs x rest \<longleftrightarrow> (\<forall>s. m_is s = xs \<longrightarrow> (\<exists>s'. m s = (Inr x, s') \<and> m_is s' = rest))"

lemma reads_D: "reads m xs x rest \<Longrightarrow> m_is s = xs \<Longrightarrow> \<exists>s'. m s = (Inr x, s') \<and> m_is s' = rest"
  by (simp add: reads_def)

lemma reads_lbind: "reads m xs x ys \<Longrightarrow> reads (f x) ys y zs \<Longrightarrow> reads (lbind m f) xs y zs"
  by (fastforce simp: reads_def lbind_def)

lemma reads_getc: "reads getc (c # cs) c cs"
  by (simp add: reads_def getc_def)

lemma reads_ungetc: "reads (ungetc c) cs () (c # cs)"
  by (simp add: reads_def ungetc_def)

lemma reads_ret: "reads (ret x) cs x cs"
  by (simp add: reads_def ret_def)

lemma reads_lift: "reads (lift_result (Inr x)) cs x cs"
  by (simp add: reads_def lift_result_def)

lemma reads_get_run:
  "\<forall>c\<in>set ds. P c \<Longrightarrow> \<not> P d \<Longrightarrow> reads (get_run P ns) (ds @ d # rest) (ns @ ds, d) rest"
proof (induction ds arbitrary: ns)
  case Nil
  then show ?case using reads_getc [of d rest] by (fastforce simp: reads_def get_run.simps)
next
  case (Cons c ds)
  have "reads (get_run P (ns @ [c])) (ds @ d # rest) (ns @ c # ds, d) rest"
    using Cons.IH [of "ns @ [c]"] Cons.prems by simp
  moreover have "P c" using Cons by simp
  ultimately show ?case using reads_getc [of c "ds @ d # rest"]
    by (fastforce simp: reads_def get_run.simps [of P ns])
qed

lemma reads_literals:
  "reads get_null (''null'' @ rest) (token_of k_null) rest"
  "reads get_true (''true'' @ rest) \<lparr>t_kind = k_true, t_value = T_BOOLEAN True\<rparr> rest"
  "reads get_false (''false'' @ rest) \<lparr>t_kind = k_false, t_value = T_BOOLEAN False\<rparr> rest"
  by (simp_all add: reads_def get_null_def get_true_def get_false_def lbind_def get_buf_def ret_def Let_def)

section \<open>Numbers\<close>

lemma digit_char:
  assumes "n < 10"
  shows "digit (mk (48 + n))" "digit1_9 (mk (48 + n)) = (n \<noteq> 0)" "ch (mk (48 + n)) = 48 + n"
proof -
  have "list_all (\<lambda>n. digit (mk (48 + n)) \<and> digit1_9 (mk (48 + n)) = (n \<noteq> 0)) [0..<10]" by code_simp
  then show "digit (mk (48 + n))" "digit1_9 (mk (48 + n)) = (n \<noteq> 0)"
    using assms unfolding list_all_iff set_upt by auto
  show "ch (mk (48 + n)) = 48 + n" using assms by (simp add: ch_mk)
qed

lemma nat_str_digits:
  "0 < n \<Longrightarrow> \<exists>d ds. nat_str n = d # ds \<and> digit1_9 d \<and> (\<forall>c\<in>set ds. digit c) \<and> digits_value (d # ds) = int n"
proof (induction n rule: nat_str.induct)
  case (1 n)
  show ?case
  proof (cases "n < 10")
    case True
    then show ?thesis using 1(2) digit_char [OF True]
      by (subst nat_str.simps) (simp add: digits_value_def)
  next
    case False
    then obtain d ds where "nat_str (n div 10) = d # ds" "digit1_9 d" "\<forall>c\<in>set ds. digit c"
        "digits_value (d # ds) = int (n div 10)"
      using 1(1) div_greater_zero_iff [of n 10] by fastforce
    moreover have "n mod 10 < 10" by simp
    ultimately show ?thesis using False digit_char [of "n mod 10"]
      by (subst nat_str.simps) (auto simp: digits_value_def, presburger)
  qed
qed

lemma int_str_digits:
  assumes "i \<noteq> 0"
  shows "\<exists>sg d ds. int_str i = sg @ d # ds \<and> (sg = [] \<or> sg = ''-'') \<and> digit1_9 d \<and> (\<forall>c\<in>set ds. digit c) \<and>
    digits_value (d # ds) = \<bar>i\<bar> \<and> (sg = ''-'' \<longleftrightarrow> i < 0)"
proof (cases "i < 0")
  case True
  then show ?thesis using nat_str_digits [of "nat (- i)"] by (auto simp: int_str_def)
next
  case False
  with assms obtain d ds where "nat_str (nat i) = d # ds" "digit1_9 d" "\<forall>c\<in>set ds. digit c" "digits_value (d # ds) = i"
    using nat_str_digits [of "nat i"] by auto
  with False show ?thesis by (intro exI [of _ "[]"] exI [of _ d] exI [of _ ds]) (simp add: int_str_def)
qed

lemma digit_not_minus: "digit1_9 c \<Longrightarrow> c \<noteq> CHR ''-'' \<and> c \<noteq> CHR ''0'' \<and> digit c"
  by (auto simp: digit_def digit1_9_def)

lemma reads_integer:
  assumes i: "i \<noteq> 0" "- (2 ^ 63) \<le> i" "i < 2 ^ 63"
    and e: "\<not> digit e" "e \<notin> {CHR ''.'', CHR ''e'', CHR ''E''}"
  shows "reads (get_number stold) (int_str i @ e # rest) \<lparr>t_kind = k_integer, t_value = T_INTEGER i\<rparr> (e # rest)"
proof -
  obtain sg d ds where s: "int_str i = sg @ d # ds" "sg = [] \<or> sg = ''-''" "digit1_9 d" "\<forall>c\<in>set ds. digit c"
      "digits_value (d # ds) = \<bar>i\<bar>" "sg = ''-'' \<longleftrightarrow> i < 0"
    using int_str_digits [OF i(1)] by blast
  note d = digit_not_minus [OF s(3)]
  have v: "stoll (sg @ d # ds) = Inr i" using s d i by (auto simp: stoll_def)
  have sign: "\<exists>c cs. sg @ d # ds @ e # rest = c # cs \<and> reads (get_sign {CHR ''-''} [] c) cs (sg, d) (ds @ e # rest)"
  proof (cases "sg = []")
    case True
    then show ?thesis using d by (simp add: get_sign_def reads_ret)
  next
    case False
    have "reads (get_sign {CHR ''-''} [] (CHR ''-'')) (d # ds @ e # rest) (''-'', d) (ds @ e # rest)"
      unfolding get_sign_def using reads_lbind [OF reads_getc reads_ret] by simp
    with False s(2) show ?thesis by simp
  qed
  have first: "reads (int_first sg d) cs (sg @ [d]) cs" for cs
    using s(3) d by (simp add: int_first_def reads_ret)
  have num: "number_value stold False (sg @ d # ds) = Inr \<lparr>t_kind = k_integer, t_value = T_INTEGER i\<rparr>"
    by (simp add: number_value_def v)
  from sign obtain c cs where c: "sg @ d # ds @ e # rest = c # cs" "reads (get_sign {CHR ''-''} [] c) cs (sg, d) (ds @ e # rest)"
    by blast
  have "reads (get_number stold) (c # cs) \<lparr>t_kind = k_integer, t_value = T_INTEGER i\<rparr> (e # rest)"
    unfolding get_number_def
    apply (rule reads_lbind [OF reads_getc], rule reads_lbind [OF c(2)], unfold prod.case)
    apply (rule reads_lbind [OF first], rule reads_lbind [OF reads_get_run [OF s(4) e(1)]], unfold prod.case)
    apply (rule reads_lbind [where x = "(sg @ d # ds, e)" and ys = rest], use e in \<open>simp add: reads_ret\<close>, unfold prod.case)
    apply (rule reads_lbind [where x = "(sg @ d # ds, e)" and ys = rest], use e in \<open>simp add: reads_ret\<close>, unfold prod.case)
    apply (rule reads_lbind [OF reads_ungetc])
    using e num by (simp add: reads_lift)
  then show ?thesis using c(1) by (simp add: s(1))
qed

section \<open>Strings\<close>

lemma reads_simple_escape:
  assumes "simple_escape d = Some c" "d \<noteq> CHR ''u''"
  shows "reads get_escape (d # is) [c] is"
  unfolding get_escape_def by (rule reads_lbind [OF reads_getc]) (simp add: assms reads_ret)

lemma reads_u_escape:
  assumes "scalar cp" "utf16 cp = CHR 0x5C # CHR ''u'' # s"
  shows "reads get_escape (CHR ''u'' # s @ is) (utf8 cp) is"
proof -
  have "reads lex_utf16 (CHR 0x5C # CHR ''u'' # s @ is) (utf8 cp) is"
    using utf16_decode_utf16 [OF assms(1), of "is"] assms(2) by (simp add: reads_def lex_utf16_def)
  then show ?thesis unfolding get_escape_def
    by (intro reads_lbind [OF reads_getc]) (auto intro: reads_lbind [OF reads_ungetc])
qed

lemma string_loop_plain:
  assumes "reads (get_string_loop (str @ [c])) is x rest" "c \<noteq> CHR 0x5C" "c \<noteq> CHR 0x22"
  shows "reads (get_string_loop str) (c # is) x rest"
  using assms reads_getc [of c "is"] by (fastforce simp: reads_def get_string_loop.simps [of str])

lemma string_loop_escape:
  assumes "reads (get_string_loop (str @ u)) is x rest" "reads get_escape es u is"
  shows "reads (get_string_loop str) (CHR 0x5C # es) x rest"
  using assms reads_getc [of "CHR 0x5C" es] by (fastforce simp: reads_def get_string_loop.simps [of str])

lemma escape_char_cases:
  assumes "escape_char c = Some e"
  shows "(e = [c] \<and> c \<noteq> CHR 0x5C \<and> c \<noteq> CHR 0x22) \<or>
    (\<exists>d. e = [CHR 0x5C, d] \<and> d \<noteq> CHR ''u'' \<and> simple_escape d = Some c)"
proof (cases "\<exists>d. e = [CHR 0x5C, d]")
  case True
  then obtain d where e: "e = [CHR 0x5C, d]" by blast
  have "d \<noteq> CHR ''u'' \<and> simple_escape d = Some c"
    using assms e by (auto simp: escape_char_def simple_escape_def split: if_splits)
  with e show ?thesis by blast
next
  case False
  then have "e = [c]" "c \<noteq> CHR 0x5C" "c \<noteq> CHR 0x22" using assms by (auto simp: escape_char_def split: if_splits)
  then show ?thesis by simp
qed

lemma string_loop_step:
  assumes r: "reads (get_string_loop (str @ utf8 cp)) is x rest" and sc: "scalar cp"
  shows "reads (get_string_loop str) (escaped cp @ is) x rest"
proof (cases "cp < 0x80")
  case True
  then obtain e where e: "escape_char (mk cp) = Some e" using escape_char_Some [of "mk cp"] by (auto simp: ch_mk)
  have r': "reads (get_string_loop (str @ [mk cp])) is x rest" using r True by (simp add: utf8_def)
  from escape_char_cases [OF e] show ?thesis
    using string_loop_plain [OF r'] string_loop_escape [OF r' reads_simple_escape] e True
    by (auto simp: escaped_def)
next
  case False
  obtain s where s: "utf16 cp = CHR 0x5C # CHR ''u'' # s" by (cases "cp < 0x10000") (simp_all add: utf16_def u_seq_def)
  from string_loop_escape [OF r reads_u_escape [OF sc s]] False s show ?thesis by (simp add: escaped_def)
qed

lemma reads_string_loop:
  "\<forall>cp\<in>set cps. scalar cp \<Longrightarrow>
     reads (get_string_loop str) (concat (map escaped cps) @ CHR 0x22 # rest) (str @ utf8_text cps) rest"
proof (induction cps arbitrary: str)
  case Nil
  then show ?case using reads_getc [of "CHR 0x22" rest]
    by (fastforce simp: reads_def get_string_loop.simps utf8_text_def)
next
  case (Cons cp cps)
  then show ?case
    using string_loop_step [OF Cons.IH [of "str @ utf8 cp"]] by (simp add: utf8_text_def)
qed

text \<open>A string without a backslash is its own unescaped form.\<close>

lemma unescape_plain: "CHR 0x5C \<notin> set is \<Longrightarrow> unescape_loop is str = Inr (str @ is)"
proof (induction "is" arbitrary: str)
  case Nil
  then show ?case by (subst unescape_loop.simps) simp
next
  case (Cons c "is")
  then show ?case by (subst unescape_loop.simps) auto
qed

definition plain_text :: "string \<Rightarrow> bool" where
  "plain_text s \<longleftrightarrow> CHR 0x5C \<notin> set s \<and> (\<exists>cps. (\<forall>cp\<in>set cps. scalar cp) \<and> s = utf8_text cps)"

lemma plain_unescape: "plain_text s \<Longrightarrow> string_unescape s = Inr s"
  by (simp add: plain_text_def string_unescape_def unescape_plain)

lemma plain_escape:
  assumes "plain_text s"
  shows "\<exists>e. string_escape s = Inr e \<and>
    (\<forall>rest. reads lex_string (e @ CHR 0x22 # rest) \<lparr>t_kind = k_string, t_value = T_STRING s :: 'r json\<rparr> rest)"
proof -
  obtain cps where cps: "\<forall>cp\<in>set cps. scalar cp" "s = utf8_text cps" using assms by (auto simp: plain_text_def)
  have "reads lex_string (concat (map escaped cps) @ CHR 0x22 # rest) \<lparr>t_kind = k_string, t_value = T_STRING s :: 'r json\<rparr> rest" for rest
    unfolding lex_string_def
    using cps(2) plain_unescape [OF assms]
    by (intro reads_lbind [OF reads_string_loop [OF cps(1)]])
      (auto simp: value_of_string_def intro: reads_lbind [OF reads_lift] reads_ret)
  then show ?thesis using escape_loop_text [OF cps(1), of "[]"] cps(2) by (simp add: string_escape_def)
qed

section \<open>Tokens\<close>

lemma reads_lexer_get:
  assumes "reads (lex_token stold c) cs t rest" "\<not> json_space c"
  shows "reads (lexer_get stold) (c # cs) t rest"
  unfolding reads_def
proof (intro allI impI)
  fix s :: lexer
  assume "m_is s = c # cs"
  then obtain s1 where s1: "getc s = (Inr c, s1)" "m_is s1 = cs" using reads_getc by (force simp: reads_def)
  with assms obtain s2 where "lex_token stold c s1 = (Inr t, s2)" "m_is s2 = rest" by (auto simp: reads_def)
  with s1 assms(2) show "\<exists>s'. lexer_get stold s = (Inr t, s') \<and> m_is s' = rest"
    by (simp add: lexer_get_def lex_loop.simps)
qed

lemma lexer_get_space:
  assumes "reads (lexer_get stold) cs t rest" "json_space c"
  shows "reads (lexer_get stold) (c # cs) t rest"
  unfolding reads_def
proof (intro allI impI)
  fix s :: lexer
  assume "m_is s = c # cs"
  then obtain s1 where s1: "getc s = (Inr c, s1)" "m_is s1 = cs" using reads_getc by (force simp: reads_def)
  with assms(1) obtain s2 where "lexer_get stold s1 = (Inr t, s2)" "m_is s2 = rest" by (auto simp: reads_def)
  moreover have "lexer_get stold s = lexer_get stold s1"
    using s1(1) assms(2) by (simp add: lexer_get_def lex_loop.simps [of _ s])
  ultimately show "\<exists>s'. lexer_get stold s = (Inr t, s') \<and> m_is s' = rest" by simp
qed

lemma lexer_get_gap:
  assumes "reads (lexer_get stold) cs t rest"
  shows "reads (lexer_get stold) (gap pretty n @ cs) t rest"
proof -
  have "reads (lexer_get stold) (replicate n CHR '' '' @ cs) t rest"
    using assms by (induction n) (auto intro: lexer_get_space simp: json_space_def)
  then show ?thesis using lexer_get_space [OF assms, of "CHR '' ''"]
      lexer_get_space [of stold "replicate n CHR '' '' @ cs" t rest "CHR 0x0A"]
    by (simp add: gap_def json_space_def)
qed

lemma reads_punctuation:
  "reads (lexer_get stold) (CHR ''{'' # cs) (token_of k_lcb) cs"
  "reads (lexer_get stold) (CHR ''}'' # cs) (token_of k_rcb) cs"
  "reads (lexer_get stold) (CHR ''['' # cs) (token_of k_lb) cs"
  "reads (lexer_get stold) (CHR '']'' # cs) (token_of k_rb) cs"
  "reads (lexer_get stold) (CHR '':'' # cs) (token_of k_colon) cs"
  "reads (lexer_get stold) (CHR '','' # cs) (token_of k_comma) cs"
  by (rule reads_lexer_get; simp add: lex_token_def reads_ret json_space_def)+

lemma reads_keyword:
  "reads (lexer_get stold) (''null'' @ cs) (token_of k_null) cs"
  "reads (lexer_get stold) (''true'' @ cs) \<lparr>t_kind = k_true, t_value = T_BOOLEAN True\<rparr> cs"
  "reads (lexer_get stold) (''false'' @ cs) \<lparr>t_kind = k_false, t_value = T_BOOLEAN False\<rparr> cs"
proof -
  have "reads (lex_token stold (CHR ''n'')) (''ull'' @ cs) (token_of k_null) cs"
    using reads_literals(1) [of cs] by (auto simp: lex_token_def intro: reads_lbind [OF reads_ungetc])
  then show "reads (lexer_get stold) (''null'' @ cs) (token_of k_null) cs"
    using reads_lexer_get [of stold "CHR ''n''"] by (simp add: json_space_def)
  have "reads (lex_token stold (CHR ''t'')) (''rue'' @ cs) \<lparr>t_kind = k_true, t_value = T_BOOLEAN True\<rparr> cs"
    using reads_literals(2) [of cs] by (auto simp: lex_token_def intro: reads_lbind [OF reads_ungetc])
  then show "reads (lexer_get stold) (''true'' @ cs) \<lparr>t_kind = k_true, t_value = T_BOOLEAN True\<rparr> cs"
    using reads_lexer_get [of stold "CHR ''t''"] by (simp add: json_space_def)
  have "reads (lex_token stold (CHR ''f'')) (''alse'' @ cs) \<lparr>t_kind = k_false, t_value = T_BOOLEAN False\<rparr> cs"
    using reads_literals(3) [of cs] by (auto simp: lex_token_def intro: reads_lbind [OF reads_ungetc])
  then show "reads (lexer_get stold) (''false'' @ cs) \<lparr>t_kind = k_false, t_value = T_BOOLEAN False\<rparr> cs"
    using reads_lexer_get [of stold "CHR ''f''"] by (simp add: json_space_def)
qed

lemma reads_number_token:
  assumes i: "i \<noteq> 0" "- (2 ^ 63) \<le> i" "i < 2 ^ 63"
    and e: "\<not> digit e" "e \<notin> {CHR ''.'', CHR ''e'', CHR ''E''}"
  shows "reads (lexer_get stold) (int_str i @ e # rest) \<lparr>t_kind = k_integer, t_value = T_INTEGER i\<rparr> (e # rest)"
proof -
  obtain c cs where c: "int_str i = c # cs" "c = CHR ''-'' \<or> digit1_9 c"
    using int_str_digits [OF i(1)] by (metis append_Cons append_Nil)
  then have n: "c \<notin> set ''{}[]:,ntf''" and sp: "\<not> json_space c" and d: "c = CHR ''-'' \<or> digit c"
    by (auto simp: digit1_9_def digit_def json_space_def)
  have "lex_token stold c = lbind (ungetc c) (\<lambda>_. get_number stold)" using n d by (simp add: lex_token_def)
  moreover have "reads (lbind (ungetc c) (\<lambda>_. get_number stold)) (cs @ e # rest)
      \<lparr>t_kind = k_integer, t_value = T_INTEGER i\<rparr> (e # rest)"
    using reads_integer [OF i e, of stold rest] c(1) by (intro reads_lbind [OF reads_ungetc]) simp
  ultimately have "reads (lex_token stold c) (cs @ e # rest) \<lparr>t_kind = k_integer, t_value = T_INTEGER i\<rparr> (e # rest)"
    by simp
  then show ?thesis using reads_lexer_get c(1) sp by simp
qed

lemma reads_string_token:
  assumes "plain_text s"
  shows "\<exists>e. string_escape s = Inr e \<and>
    (\<forall>rest. reads (lexer_get (stold :: string \<Rightarrow> 'r option)) (quoted e @ rest) \<lparr>t_kind = k_string, t_value = T_STRING s\<rparr> rest)"
proof -
  obtain e where e: "string_escape s = Inr e"
      "\<And>rest. reads lex_string (e @ CHR 0x22 # rest) \<lparr>t_kind = k_string, t_value = T_STRING s :: 'r json\<rparr> rest"
    using plain_escape [OF assms] by blast
  have "reads (lex_token stold (CHR 0x22)) (e @ CHR 0x22 # rest) \<lparr>t_kind = k_string, t_value = T_STRING s\<rparr> rest" for rest
    using e(2) by (simp add: lex_token_def digit_def digit1_9_def)
  then have "reads (lexer_get stold) (quoted e @ rest) \<lparr>t_kind = k_string, t_value = T_STRING s\<rparr> rest" for rest
    using reads_lexer_get [of stold "CHR 0x22"] by (simp add: quoted_def json_space_def)
  with e(1) show ?thesis by blast
qed

section \<open>Values\<close>

fun printable :: "'r json \<Rightarrow> bool" where
  "printable T_NULL = True"
| "printable (T_BOOLEAN b) = True"
| "printable (T_INTEGER i) = (i \<noteq> 0 \<and> - (2 ^ 63) \<le> i \<and> i < 2 ^ 63)"
| "printable (T_REAL r) = False"
| "printable (T_STRING s) = plain_text s"
| "printable (T_OBJECT ms) = (ms \<noteq> [] \<and> ascending ms \<and> (\<forall>m\<in>set ms. plain_text (fst m) \<and> printable (snd m)))"
| "printable (T_ARRAY vs) = (vs \<noteq> [] \<and> (\<forall>v\<in>set vs. printable v))"

definition element :: "(string \<Rightarrow> 'r option) \<Rightarrow> nat \<Rightarrow> 'r token \<Rightarrow> lexer \<Rightarrow> 'r outcome" where
  "element stold n t s =
     (if plain_kind (t_kind t) then Some (Inr (t_value t), s)
      else if t_kind t = k_lcb then parse_object stold n s
      else if t_kind t = k_lb then parse_array stold n s
      else Some (parse_fail s))"

abbreviation closers :: "char set" where
  "closers \<equiv> {CHR '','', CHR '' '', CHR 0x0A}"

text \<open>The parser reads \<open>tx\<close>, up to a separator, as the value \<open>v\<close>.\<close>

definition parses :: "(string \<Rightarrow> 'r option) \<Rightarrow> 'r json \<Rightarrow> string \<Rightarrow> bool" where
  "parses stold v tx \<longleftrightarrow>
     (\<forall>e rest s n. e \<in> closers \<longrightarrow> m_is s = tx @ e # rest \<longrightarrow> 2 * length tx \<le> n \<longrightarrow>
       (\<exists>t s1 s2. lexer_get stold s = (Inr t, s1) \<and> t_kind t \<noteq> k_eof \<and>
         element stold n t s1 = Some (Inr v, s2) \<and> m_is s2 = e # rest))"

lemma parses_D:
  "parses stold v tx \<Longrightarrow> e \<in> closers \<Longrightarrow> m_is s = tx @ e # rest \<Longrightarrow> 2 * length tx \<le> n \<Longrightarrow>
     \<exists>t s1 s2. lexer_get stold s = (Inr t, s1) \<and> t_kind t \<noteq> k_eof \<and>
       element stold n t s1 = Some (Inr v, s2) \<and> m_is s2 = e # rest"
  unfolding parses_def by blast

lemma parses_plain:
  assumes "\<And>e rest. e \<in> closers \<Longrightarrow> reads (lexer_get stold) (tx @ e # rest) \<lparr>t_kind = k, t_value = v\<rparr> (e # rest)"
    and "plain_kind k"
  shows "parses stold v tx"
  unfolding parses_def
proof (intro allI impI)
  fix e rest n and s :: lexer
  assume e: "e \<in> closers" "m_is s = tx @ e # rest"
  obtain s1 where "lexer_get stold s = (Inr \<lparr>t_kind = k, t_value = v\<rparr>, s1)" "m_is s1 = e # rest"
    using reads_D [OF assms(1) [OF e(1)] e(2)] by blast
  moreover have "k \<noteq> k_eof" using assms(2) by (auto simp: plain_kind_def)
  ultimately show "\<exists>t s1 s2. lexer_get stold s = (Inr t, s1) \<and> t_kind t \<noteq> k_eof \<and>
      element stold n t s1 = Some (Inr v, s2) \<and> m_is s2 = e # rest"
    using assms(2) by (simp add: element_def)
qed

lemma skip_gap:
  assumes "m_is s = gap pretty k @ cs"
  shows "\<exists>s'. m_is s' = cs \<and> lexer_get stold s = lexer_get stold s'"
proof -
  have sp: "\<exists>s'. m_is s' = cs \<and> lexer_get stold s = lexer_get stold s'" if c: "m_is s = c # cs" "json_space c" for s c cs
  proof -
    obtain s1 where s1: "getc s = (Inr c, s1)" "m_is s1 = cs" using c(1) reads_getc by (force simp: reads_def)
    then show ?thesis using c by (intro exI [of _ s1]) (simp add: lexer_get_def lex_loop.simps [of _ s])
  qed
  have sps: "m_is s = replicate k CHR '' '' @ cs \<Longrightarrow> \<exists>s'. m_is s' = cs \<and> lexer_get stold s = lexer_get stold s'" for s
  proof (induction k arbitrary: s)
    case (Suc k)
    then obtain s1 where "m_is s1 = replicate k CHR '' '' @ cs" "lexer_get stold s = lexer_get stold s1"
      using sp [of s "CHR '' ''"] by (auto simp: json_space_def)
    with Suc(1) [of s1] show ?case by simp
  qed auto
  show ?thesis
  proof (cases pretty)
    case True
    then obtain s1 where "m_is s1 = replicate k CHR '' '' @ cs" "lexer_get stold s = lexer_get stold s1"
      using assms sp [of s "CHR 0x0A"] by (auto simp: gap_def json_space_def)
    with sps [of s1] show ?thesis by simp
  qed (use assms sp [of s "CHR '' ''"] in \<open>auto simp: gap_def json_space_def\<close>)
qed

lemma gap_closer: "\<exists>e g. gap pretty k = e # g \<and> e \<in> closers"
  by (simp add: gap_def)

text \<open>The elements of an array, from the first on.\<close>

lemma parse_elements:
  assumes "parses stold v tx" "value_str sr pretty (indent + 2) v = Inr tx"
    and "\<forall>w\<in>set vs. \<exists>tx. value_str sr pretty (indent + 2) w = Inr tx \<and> parses stold w tx"
  shows "\<exists>body. array_str sr pretty indent False vs = Inr body \<and>
    (\<forall>arr s n rest. m_is s = gap pretty (indent + 2) @ tx @ body @ gap pretty indent @ '']'' @ rest \<longrightarrow>
       2 * length tx + 2 * length body < n \<longrightarrow>
       (\<exists>s'. pbind (Some (lexer_get stold s)) (\<lambda>t s. parse_array_loop stold n t arr s) =
            Some (Inr (T_ARRAY (arr @ v # vs)), s') \<and> m_is s' = rest))"
  using assms
proof (induction vs arbitrary: v tx)
  case Nil
  obtain e g where g: "gap pretty indent = e # g" "e \<in> closers" using gap_closer by blast
  have "\<exists>s'. pbind (Some (lexer_get stold s)) (\<lambda>t s. parse_array_loop stold n t arr s) =
      Some (Inr (T_ARRAY (arr @ [v])), s') \<and> m_is s' = rest"
    if s: "m_is s = gap pretty (indent + 2) @ tx @ gap pretty indent @ '']'' @ rest" and n: "2 * length tx < n"
    for arr s n rest
  proof -
    obtain n' where n': "n = Suc n'" using n by (cases n) auto
    obtain s0 where s0: "m_is s0 = tx @ gap pretty indent @ '']'' @ rest" "lexer_get stold s = lexer_get stold s0"
      using skip_gap [OF s] by blast
    obtain t s1 s2 where t: "lexer_get stold s0 = (Inr t, s1)" "t_kind t \<noteq> k_eof"
        "element stold n' t s1 = Some (Inr v, s2)" "m_is s2 = gap pretty indent @ '']'' @ rest"
      using parses_D [OF Nil(1) g(2), of s0 "g @ '']'' @ rest" n'] s0(1) g(1) n n' by auto
    obtain s3 where "lexer_get stold s2 = (Inr (token_of k_rb), s3)" "m_is s3 = rest"
      using reads_D [OF lexer_get_gap [OF reads_punctuation(4)], of s2 pretty indent rest] t(4) by auto
    then show ?thesis using s0(2) t n'
      by (simp add: pbind_def element_def [symmetric] token_of_def array_add_def)
  qed
  then show ?case by simp
next
  case (Cons w vs)
  obtain tw where tw: "value_str sr pretty (indent + 2) w = Inr tw" "parses stold w tw" using Cons.prems(3) by auto
  obtain body where body: "array_str sr pretty indent False vs = Inr body"
    and loop: "\<And>arr s n rest. m_is s = gap pretty (indent + 2) @ tw @ body @ gap pretty indent @ '']'' @ rest \<Longrightarrow>
       2 * length tw + 2 * length body < n \<Longrightarrow>
       \<exists>s'. pbind (Some (lexer_get stold s)) (\<lambda>t s. parse_array_loop stold n t arr s) =
            Some (Inr (T_ARRAY (arr @ w # vs)), s') \<and> m_is s' = rest"
    using Cons.IH [OF tw(2,1)] Cons.prems(3) by auto
  let ?body = "'','' @ gap pretty (indent + 2) @ tw @ body"
  have "\<exists>s'. pbind (Some (lexer_get stold s)) (\<lambda>t s. parse_array_loop stold n t arr s) =
      Some (Inr (T_ARRAY (arr @ v # w # vs)), s') \<and> m_is s' = rest"
    if s: "m_is s = gap pretty (indent + 2) @ tx @ ?body @ gap pretty indent @ '']'' @ rest"
      and n: "2 * length tx + 2 * length ?body < n" for arr s n rest
  proof -
    obtain n' where n': "n = Suc n'" using n by (cases n) auto
    let ?rest = "gap pretty (indent + 2) @ tw @ body @ gap pretty indent @ '']'' @ rest"
    obtain s0 where s0: "m_is s0 = tx @ CHR '','' # ?rest" "lexer_get stold s = lexer_get stold s0"
      using skip_gap [OF s] by auto
    obtain t s1 s2 where t: "lexer_get stold s0 = (Inr t, s1)" "t_kind t \<noteq> k_eof"
        "element stold n' t s1 = Some (Inr v, s2)" "m_is s2 = CHR '','' # ?rest"
      using parses_D [OF Cons.prems(1) _ s0(1), of n'] n n' by auto
    obtain s3 where s3: "lexer_get stold s2 = (Inr (token_of k_comma), s3)" "m_is s3 = ?rest"
      using reads_D [OF reads_punctuation(6) t(4)] by auto
    have "\<exists>s'. pbind (Some (lexer_get stold s3)) (\<lambda>t s. parse_array_loop stold n' t (arr @ [v]) s) =
        Some (Inr (T_ARRAY ((arr @ [v]) @ w # vs)), s') \<and> m_is s' = rest"
      by (rule loop) (use s3 n n' in auto)
    then show ?thesis using s0(2) t s3(1) n'
      by (simp add: pbind_def [of "Some (Inr _, _)"] element_def [symmetric] token_of_def array_add_def)
  qed
  then show ?case using tw(1) body by (simp add: comma_def)
qed

text \<open>One member of an object, up to the token after it; then the members from the first on.\<close>

lemma object_add_last:
  assumes "plain_text k" "ascending (obj @ (k, v) # ms)"
  shows "object_add k v obj = Inr (obj @ [(k, v)])"
  using assms by (auto simp: object_add_def plain_unescape sorted_wrt_append intro!: map_insert_last)

lemma parse_member:
  assumes v: "parses stold v tx" and k: "plain_text k" "string_escape k = Inr ek"
    and s: "m_is s = gap pretty (indent + 2) @ quoted ek @ '' : '' @ tx @ e # rest" and e: "e \<in> closers"
    and n: "2 * length tx \<le> n" and asc: "ascending (obj @ (k, v) # ms)"
  shows "\<exists>s'. m_is s' = e # rest \<and>
    pbind (Some (lexer_get stold s)) (\<lambda>t s. parse_object_loop stold (Suc n) t obj s) =
    pbind (Some (lexer_get stold s')) (\<lambda>t s.
      if t_kind t = k_rcb then Some (Inr (T_OBJECT (obj @ [(k, v)])), s)
      else if t_kind t \<noteq> k_comma then Some (parse_fail s)
      else pbind (Some (lexer_get stold s)) (\<lambda>t s. parse_object_loop stold n t (obj @ [(k, v)]) s))"
proof -
  obtain s0 where s0: "m_is s0 = quoted ek @ '' : '' @ tx @ e # rest" "lexer_get stold s = lexer_get stold s0"
    using skip_gap [OF s] by blast
  obtain s1 where s1: "lexer_get stold s0 = (Inr \<lparr>t_kind = k_string, t_value = T_STRING k\<rparr>, s1)"
      "m_is s1 = '' : '' @ tx @ e # rest"
    using reads_string_token [OF k(1), of stold] k(2) s0(1) by (auto simp: reads_def)
  obtain s2 where s2: "lexer_get stold s1 = (Inr (token_of k_colon), s2)" "m_is s2 = '' '' @ tx @ e # rest"
    using reads_D [OF lexer_get_space [OF reads_punctuation(5)], of "CHR '' ''" s1] s1(2) by (auto simp: json_space_def)
  obtain s3 where s3: "m_is s3 = tx @ e # rest" "lexer_get stold s2 = lexer_get stold s3"
    using skip_gap [of s2 False 0] s2(2) by (auto simp: gap_def)
  obtain t s4 s5 where t: "lexer_get stold s3 = (Inr t, s4)" "element stold n t s4 = Some (Inr v, s5)" "m_is s5 = e # rest"
    using parses_D [OF v e s3(1) n] by blast
  then show ?thesis using s0(2) s1(1) s2(1) s3(2) object_add_last [OF k(1) asc]
    by (intro exI [of _ s5])
      (simp add: pbind_def [of "Some (Inr _, _)"] element_def [symmetric] token_of_def value_get_string_def)
qed

lemma parse_members:
  assumes "parses stold v tx" "value_str sr pretty (indent + 2) v = Inr tx" "plain_text k"
    and "\<forall>m\<in>set ms. plain_text (fst m) \<and> (\<exists>tx. value_str sr pretty (indent + 2) (snd m) = Inr tx \<and> parses stold (snd m) tx)"
  shows "\<exists>ek body. string_escape k = Inr ek \<and> object_str sr pretty indent False ms = Inr body \<and>
    (\<forall>obj s n rest. m_is s = gap pretty (indent + 2) @ quoted ek @ '' : '' @ tx @ body @ gap pretty indent @ ''}'' @ rest \<longrightarrow>
       2 * length tx + 2 * length body < n \<longrightarrow> ascending (obj @ (k, v) # ms) \<longrightarrow>
       (\<exists>s'. pbind (Some (lexer_get stold s)) (\<lambda>t s. parse_object_loop stold n t obj s) =
            Some (Inr (T_OBJECT (obj @ (k, v) # ms)), s') \<and> m_is s' = rest))"
  using assms
proof (induction ms arbitrary: k v tx)
  case Nil
  obtain ek where ek: "string_escape k = Inr ek" using plain_escape [OF Nil(3)] by blast
  obtain e g where g: "gap pretty indent = e # g" "e \<in> closers" using gap_closer by blast
  have "\<exists>s'. pbind (Some (lexer_get stold s)) (\<lambda>t s. parse_object_loop stold n t obj s) =
      Some (Inr (T_OBJECT (obj @ [(k, v)])), s') \<and> m_is s' = rest"
    if s: "m_is s = gap pretty (indent + 2) @ quoted ek @ '' : '' @ tx @ gap pretty indent @ ''}'' @ rest"
      and n: "2 * length tx < n" and asc: "ascending (obj @ [(k, v)])" for obj s n rest
  proof -
    obtain n' where n': "n = Suc n'" using n by (cases n) auto
    obtain s1 where s1: "m_is s1 = gap pretty indent @ ''}'' @ rest"
        "pbind (Some (lexer_get stold s)) (\<lambda>t s. parse_object_loop stold n t obj s) =
         pbind (Some (lexer_get stold s1)) (\<lambda>t s.
           if t_kind t = k_rcb then Some (Inr (T_OBJECT (obj @ [(k, v)])), s)
           else if t_kind t \<noteq> k_comma then Some (parse_fail s)
           else pbind (Some (lexer_get stold s)) (\<lambda>t s. parse_object_loop stold n' t (obj @ [(k, v)]) s))"
      using parse_member [OF Nil(1,3) ek, of s pretty indent e "g @ ''}'' @ rest" n' obj "[]"] s g n n' asc by auto
    obtain s2 where "lexer_get stold s1 = (Inr (token_of k_rcb), s2)" "m_is s2 = rest"
      using reads_D [OF lexer_get_gap [OF reads_punctuation(2)], of s1 pretty indent rest] s1(1) by auto
    then show ?thesis using s1(2) by (simp add: pbind_def token_of_def)
  qed
  then show ?case using ek by simp
next
  case (Cons m ms)
  obtain ek where ek: "string_escape k = Inr ek" using plain_escape [OF Cons.prems(3)] by blast
  obtain tm where tm: "value_str sr pretty (indent + 2) (snd m) = Inr tm" "parses stold (snd m) tm" "plain_text (fst m)"
    using Cons.prems(4) by auto
  obtain em body where body: "string_escape (fst m) = Inr em" "object_str sr pretty indent False ms = Inr body"
    and loop: "\<And>obj s n rest. m_is s = gap pretty (indent + 2) @ quoted em @ '' : '' @ tm @ body @ gap pretty indent @ ''}'' @ rest \<Longrightarrow>
       2 * length tm + 2 * length body < n \<Longrightarrow> ascending (obj @ (fst m, snd m) # ms) \<Longrightarrow>
       \<exists>s'. pbind (Some (lexer_get stold s)) (\<lambda>t s. parse_object_loop stold n t obj s) =
            Some (Inr (T_OBJECT (obj @ (fst m, snd m) # ms)), s') \<and> m_is s' = rest"
    using Cons.IH [OF tm(2,1,3)] Cons.prems(4) by auto
  let ?mem = "gap pretty (indent + 2) @ quoted em @ '' : '' @ tm @ body"
  have "\<exists>s'. pbind (Some (lexer_get stold s)) (\<lambda>t s. parse_object_loop stold n t obj s) =
      Some (Inr (T_OBJECT (obj @ (k, v) # m # ms)), s') \<and> m_is s' = rest"
    if s: "m_is s = gap pretty (indent + 2) @ quoted ek @ '' : '' @ tx @ ('','' @ ?mem) @ gap pretty indent @ ''}'' @ rest"
      and n: "2 * length tx + 2 * length ('','' @ ?mem) < n" and asc: "ascending (obj @ (k, v) # m # ms)" for obj s n rest
  proof -
    obtain n' where n': "n = Suc n'" using n by (cases n) auto
    let ?rest = "?mem @ gap pretty indent @ ''}'' @ rest"
    obtain s1 where s1: "m_is s1 = CHR '','' # ?rest"
        "pbind (Some (lexer_get stold s)) (\<lambda>t s. parse_object_loop stold n t obj s) =
         pbind (Some (lexer_get stold s1)) (\<lambda>t s.
           if t_kind t = k_rcb then Some (Inr (T_OBJECT (obj @ [(k, v)])), s)
           else if t_kind t \<noteq> k_comma then Some (parse_fail s)
           else pbind (Some (lexer_get stold s)) (\<lambda>t s. parse_object_loop stold n' t (obj @ [(k, v)]) s))"
      using parse_member [OF Cons.prems(1,3) ek, of s pretty indent "CHR '',''" ?rest n' obj "m # ms"] s n n' asc by auto
    obtain s2 where s2: "lexer_get stold s1 = (Inr (token_of k_comma), s2)" "m_is s2 = ?rest"
      using reads_D [OF reads_punctuation(6) s1(1)] by auto
    have "\<exists>s'. pbind (Some (lexer_get stold s2)) (\<lambda>t s. parse_object_loop stold n' t (obj @ [(k, v)]) s) =
        Some (Inr (T_OBJECT ((obj @ [(k, v)]) @ (fst m, snd m) # ms)), s') \<and> m_is s' = rest"
      by (rule loop) (use s2 n n' asc in auto)
    then show ?thesis using s1(2) s2(1) by (simp add: pbind_def [of "Some (Inr _, _)"] token_of_def)
  qed
  then show ?case using ek tm body by (cases m) (simp add: comma_def)
qed

section \<open>The round trip\<close>

lemma parses_array:
  assumes vs: "vs \<noteq> []" "\<forall>w\<in>set vs. \<exists>tx. value_str sr pretty (indent + 2) w = Inr tx \<and> parses stold w tx"
  shows "\<exists>tx. value_str sr pretty indent (T_ARRAY vs) = Inr (''['' @ tx) \<and>
    (\<forall>s n rest. m_is s = tx @ rest \<longrightarrow> 2 * length tx + 2 \<le> n \<longrightarrow>
       (\<exists>s'. parse_array stold n s = Some (Inr (T_ARRAY vs), s') \<and> m_is s' = rest))"
proof -
  obtain v ws where v: "vs = v # ws" using vs(1) by (cases vs) auto
  obtain tx where tx: "value_str sr pretty (indent + 2) v = Inr tx" "parses stold v tx" using vs(2) v by auto
  obtain body where body: "array_str sr pretty indent False ws = Inr body"
    and loop: "\<And>arr s n rest. m_is s = gap pretty (indent + 2) @ tx @ body @ gap pretty indent @ '']'' @ rest \<Longrightarrow>
       2 * length tx + 2 * length body < n \<Longrightarrow>
       \<exists>s'. pbind (Some (lexer_get stold s)) (\<lambda>t s. parse_array_loop stold n t arr s) =
            Some (Inr (T_ARRAY (arr @ v # ws)), s') \<and> m_is s' = rest"
    using parse_elements [OF tx(2,1), of ws] vs(2) v by auto
  let ?tx = "gap pretty (indent + 2) @ tx @ body @ gap pretty indent @ '']''"
  have "\<exists>s'. parse_array stold n s = Some (Inr (T_ARRAY vs), s') \<and> m_is s' = rest"
    if "m_is s = ?tx @ rest" "2 * length ?tx + 2 \<le> n" for s n rest
    using loop [of s rest "n - 1" "[]"] that v by (cases n) auto
  moreover have "value_str sr pretty indent (T_ARRAY vs) = Inr (''['' @ ?tx)"
    using v tx(1) body by (simp add: comma_def)
  ultimately show ?thesis by blast
qed

lemma parses_object:
  assumes ms: "ms \<noteq> []" "ascending ms"
    "\<forall>m\<in>set ms. plain_text (fst m) \<and> (\<exists>tx. value_str sr pretty (indent + 2) (snd m) = Inr tx \<and> parses stold (snd m) tx)"
  shows "\<exists>tx. value_str sr pretty indent (T_OBJECT ms) = Inr (''{'' @ tx) \<and>
    (\<forall>s n rest. m_is s = tx @ rest \<longrightarrow> 2 * length tx + 2 \<le> n \<longrightarrow>
       (\<exists>s'. parse_object stold n s = Some (Inr (T_OBJECT ms), s') \<and> m_is s' = rest))"
proof -
  obtain k v ns where v: "ms = (k, v) # ns" using ms(1) by (cases ms) auto
  obtain tx where tx: "value_str sr pretty (indent + 2) v = Inr tx" "parses stold v tx" "plain_text k"
    using ms(3) v by auto
  obtain ek body where body: "string_escape k = Inr ek" "object_str sr pretty indent False ns = Inr body"
    and loop: "\<And>obj s n rest. m_is s = gap pretty (indent + 2) @ quoted ek @ '' : '' @ tx @ body @ gap pretty indent @ ''}'' @ rest \<Longrightarrow>
       2 * length tx + 2 * length body < n \<Longrightarrow> ascending (obj @ (k, v) # ns) \<Longrightarrow>
       \<exists>s'. pbind (Some (lexer_get stold s)) (\<lambda>t s. parse_object_loop stold n t obj s) =
            Some (Inr (T_OBJECT (obj @ (k, v) # ns)), s') \<and> m_is s' = rest"
    using parse_members [OF tx(2,1,3), of ns] ms(3) v by auto
  let ?tx = "gap pretty (indent + 2) @ quoted ek @ '' : '' @ tx @ body @ gap pretty indent @ ''}''"
  have "\<exists>s'. parse_object stold n s = Some (Inr (T_OBJECT ms), s') \<and> m_is s' = rest"
    if "m_is s = ?tx @ rest" "2 * length ?tx + 2 \<le> n" for s n rest
    using loop [of s rest "n - 1" "[]"] that v ms(2) by (cases n) auto
  moreover have "value_str sr pretty indent (T_OBJECT ms) = Inr (''{'' @ ?tx)"
    using v tx(1) body by (simp add: comma_def)
  ultimately show ?thesis by blast
qed

lemma parses_bracket:
  assumes tx: "value_str sr pretty indent v = Inr (c # tx)" and c: "c = CHR ''['' \<and> p = parse_array \<or> c = CHR ''{'' \<and> p = parse_object"
    and p: "\<And>s n rest. m_is s = tx @ rest \<Longrightarrow> 2 * length tx + 2 \<le> n \<Longrightarrow>
       \<exists>s'. p stold n s = Some (Inr v, s') \<and> m_is s' = rest"
  shows "parses stold v (c # tx)"
  unfolding parses_def
proof (intro allI impI)
  fix e rest n and s :: lexer
  assume s: "m_is s = (c # tx) @ e # rest" and n: "2 * length (c # tx) \<le> n"
  obtain k where k: "k = (if c = CHR ''['' then k_lb else k_lcb)" by blast
  obtain s1 where s1: "lexer_get stold s = (Inr (token_of k), s1)" "m_is s1 = tx @ e # rest"
    using reads_D [OF reads_punctuation(3) [of stold], of s] reads_D [OF reads_punctuation(1) [of stold], of s] s c k by auto
  obtain s2 where "p stold n s1 = Some (Inr v, s2)" "m_is s2 = e # rest" using p [OF s1(2)] n by auto
  with s1 c k show "\<exists>t s1 s2. lexer_get stold s = (Inr t, s1) \<and> t_kind t \<noteq> k_eof \<and>
      element stold n t s1 = Some (Inr v, s2) \<and> m_is s2 = e # rest"
    by (auto simp: element_def token_of_def plain_kind_def)
qed

lemma printable_parses:
  "printable v \<Longrightarrow> \<exists>tx. value_str sr pretty indent v = Inr tx \<and> parses stold v tx"
proof (induction v arbitrary: indent)
  case T_NULL
  show ?case using reads_keyword(1) by (auto intro!: parses_plain [of _ _ k_null] simp: token_of_def plain_kind_def)
next
  case (T_BOOLEAN b)
  have "parses stold (T_BOOLEAN True) ''true''" "parses stold (T_BOOLEAN False) ''false''"
    using reads_keyword(2,3) [of stold]
    by (auto intro: parses_plain [of _ _ k_true] parses_plain [of _ _ k_false] simp: plain_kind_def)
  then show ?case by simp
next
  case (T_INTEGER i)
  then show ?case
    by (auto intro!: parses_plain [of _ _ k_integer] reads_number_token simp: plain_kind_def digit_def digit1_9_def)
next
  case (T_STRING s)
  then show ?case using reads_string_token [of s stold]
    by (auto intro!: parses_plain [of _ _ k_string] simp: plain_kind_def)
next
  case (T_OBJECT ms)
  then show ?case using parses_object [of ms sr pretty indent stold] parses_bracket [of sr pretty indent "T_OBJECT ms" _ _ parse_object]
    by (fastforce simp: snds.simps)
next
  case (T_ARRAY vs)
  then show ?case using parses_array [of vs sr pretty indent stold] parses_bracket [of sr pretty indent "T_ARRAY vs" _ _ parse_array]
    by fastforce
qed simp

lemma from_string_body:
  assumes tx: "value_str sr pretty indent v = Inr (c # tx)" and c: "c = CHR ''['' \<and> p = parse_array \<or> c = CHR ''{'' \<and> p = parse_object"
    and p: "\<And>s n rest. m_is s = tx @ rest \<Longrightarrow> 2 * length tx + 2 \<le> n \<Longrightarrow>
       \<exists>s'. p stold n s = Some (Inr v, s') \<and> m_is s' = rest"
  shows "from_string stold (c # tx) = Some (Inr v)"
proof -
  obtain k where k: "k = (if c = CHR ''['' then k_lb else k_lcb)" by blast
  obtain s1 where s1: "lexer_get stold (new_lexer (c # tx)) = (Inr (token_of k), s1)" "m_is s1 = tx"
    using reads_D [OF reads_punctuation(3) [of stold], of "new_lexer (c # tx)"]
      reads_D [OF reads_punctuation(1) [of stold], of "new_lexer (c # tx)"] c k by (auto simp: new_lexer_def)
  with p [of s1 "[]" "2 * length (c # tx) + 2"] c k show ?thesis
    by (auto simp: from_string_def from_stream_def parse_json_def pbind_def token_of_def)
qed

lemma plain_text_ascii:
  assumes "\<forall>c\<in>set s. ch c < 128 \<and> c \<noteq> CHR 0x5C"
  shows "plain_text s"
proof -
  have "utf8_text (map ch s) = s" using assms by (induction s) (simp_all add: utf8_text_def utf8_def)
  moreover have "scalar (ch c)" if "c \<in> set s" for c
  proof -
    have "ch c < 128" using assms that by blast
    then show ?thesis unfolding scalar_def by linarith
  qed
  moreover have "CHR 0x5C \<notin> set s" using assms by blast
  ultimately show ?thesis unfolding plain_text_def by (intro conjI exI [of _ "map ch s"]) simp_all
qed

definition container :: "'r json \<Rightarrow> bool" where
  "container v \<longleftrightarrow> (case v of T_OBJECT _ \<Rightarrow> True | T_ARRAY _ \<Rightarrow> True | _ \<Rightarrow> False)"

text \<open>
  C20: every object or array made of null, booleans, non-zero 64-bit integers, strings without
  backslashes and non-empty containers prints, compact or indented, to a text that parses back
  to the same value.
\<close>

theorem print_parse:
  assumes "printable v" "container v"
  shows "\<exists>tx. value_str sr pretty indent v = Inr tx \<and> from_string stold tx = Some (Inr v)"
proof (cases v)
  case (T_OBJECT ms)
  then obtain tx where tx: "value_str sr pretty indent v = Inr (CHR ''{'' # tx)"
    "\<And>s n rest. m_is s = tx @ rest \<Longrightarrow> 2 * length tx + 2 \<le> n \<Longrightarrow>
       \<exists>s'. parse_object stold n s = Some (Inr v, s') \<and> m_is s' = rest"
    using parses_object [of ms sr pretty indent stold] assms(1) printable_parses by fastforce
  from from_string_body [where p = parse_object and stold = stold, OF tx(1) _ tx(2)] tx(1) show ?thesis by simp
next
  case (T_ARRAY vs)
  then obtain tx where tx: "value_str sr pretty indent v = Inr (CHR ''['' # tx)"
    "\<And>s n rest. m_is s = tx @ rest \<Longrightarrow> 2 * length tx + 2 \<le> n \<Longrightarrow>
       \<exists>s'. parse_array stold n s = Some (Inr v, s') \<and> m_is s' = rest"
    using parses_array [of vs sr pretty indent stold] assms(1) printable_parses by fastforce
  from from_string_body [where p = parse_array and stold = stold, OF tx(1) _ tx(2)] tx(1) show ?thesis by simp
qed (use assms in \<open>auto simp: container_def\<close>)

abbreviation no_reals :: "string \<Rightarrow> unit option" where "no_reals \<equiv> \<lambda>_. None"

theorem print_parse_witness:
  "\<exists>tx. value_str (\<lambda>_. []) True 0 (T_OBJECT [(''a'', T_ARRAY [T_INTEGER (-7), T_NULL]), (''b'', T_STRING ''x/y'')] :: unit json) = Inr tx \<and>
     from_string no_reals tx = Some (Inr (T_OBJECT [(''a'', T_ARRAY [T_INTEGER (-7), T_NULL]), (''b'', T_STRING ''x/y'')]))"
  by (rule print_parse) (simp_all add: plain_text_ascii container_def)

text \<open>
  The parser rejects the printed form of the empty array and the empty object, because after an
  opening bracket it insists on an element.
\<close>

lemma empty_containers_rejected:
  "value_str (\<lambda>_. []) False 0 (T_ARRAY [] :: unit json) = Inr ''[ ]'' \<and>
   from_string no_reals ''[ ]'' = Some (Inl (ParsingError 1 3)) \<and>
   value_str (\<lambda>_. []) False 0 (T_OBJECT [] :: unit json) = Inr ''{ }'' \<and>
   from_string no_reals ''{ }'' = Some (Inl (ParsingError 1 3))"
  by code_simp

text \<open>
  The integer zero prints as a text the parser rejects, because a leading zero must be followed
  by a decimal point.
\<close>

lemma zero_rejected:
  "value_str (\<lambda>_. []) False 0 (T_ARRAY [T_INTEGER 0] :: unit json) = Inr ''[ 0 ]'' \<and>
   from_string no_reals ''[ 0 ]'' = Some (Inl (ParsingError 1 4))"
  by code_simp

text \<open>
  input that ends inside an array is accepted as if the array were closed there, and a token
  cut off by the end is dropped without an error.
\<close>

lemma truncated_input_accepted:
  "from_string no_reals ''[1, 2'' = Some (Inr (T_ARRAY [T_INTEGER 1])) \<and>
   from_string no_reals ''[1,'' = Some (Inr (T_ARRAY [T_INTEGER 1])) \<and>
   from_string no_reals ''['' = Some (Inr (T_ARRAY []))"
  by code_simp

text \<open>
  a string is unescaped by the lexer and again when it is stored in the token's value, so an
  escaped backslash followed by \<open>n\<close> becomes a line feed; printing the two-character string and
  reading it back does not give it back.
\<close>

lemma string_unescaped_twice:
  "value_str (\<lambda>_. []) False 0 (T_ARRAY [T_STRING [CHR 0x5C, CHR ''n'']] :: unit json) =
     Inr (''[ '' @ [CHR 0x22, CHR 0x5C, CHR 0x5C, CHR ''n'', CHR 0x22] @ '' ]'') \<and>
   from_string no_reals (''[ '' @ [CHR 0x22, CHR 0x5C, CHR 0x5C, CHR ''n'', CHR 0x22] @ '' ]'') =
     Some (Inr (T_ARRAY [T_STRING [CHR 0x0A]]))"
  by code_simp

end
