(* ===== verification/Http_Chars.thy ===== *)
theory Http_Chars
  imports Text_Format
begin

text \<open>
  Character classes of the http library: the \<^verbatim>\<open>ctype\<close> functions in the C locale, the classes of
  \<^verbatim>\<open>include/common/charset.h\<close> and those of \<^verbatim>\<open>include/common/uri.h\<close>. The sources pass a plain
  \<^verbatim>\<open>char\<close> as an \<^verbatim>\<open>int\<close>: a character above 127 arrives as a negative number, which no class
  of printable or opaque characters contains.
\<close>

section \<open>Exceptions\<close>

datatype http_error = BadUri | InvalidArgument_h | OutOfRange_h | BadMessage | NotImplemented | NotFound
  | RuntimeError | SystemError | StatusError int | Undefined

type_synonym 'a http = "http_error + 'a"

section \<open>ctype\<close>

definition is_digit :: "char \<Rightarrow> bool" where
  "is_digit c \<longleftrightarrow> 48 \<le> ch c \<and> ch c \<le> 57"

definition is_alpha :: "char \<Rightarrow> bool" where
  "is_alpha c \<longleftrightarrow> (65 \<le> ch c \<and> ch c \<le> 90) \<or> (97 \<le> ch c \<and> ch c \<le> 122)"

definition is_xdigit :: "char \<Rightarrow> bool" where
  "is_xdigit c \<longleftrightarrow> is_digit c \<or> (65 \<le> ch c \<and> ch c \<le> 70) \<or> (97 \<le> ch c \<and> ch c \<le> 102)"

definition to_lower :: "char \<Rightarrow> char" where
  "to_lower c = (if 65 \<le> ch c \<and> ch c \<le> 90 then mk (ch c + 32) else c)"

definition xdigit_value :: "char \<Rightarrow> nat" where
  "xdigit_value c = (if is_digit c then ch c - 48 else if ch c \<le> 70 then ch c - 55 else ch c - 87)"

section \<open>charset.h\<close>

text \<open>A character of an input string as the \<^verbatim>\<open>int\<close> the scanner works with; the end of input is -1.\<close>

definition to_int :: "char \<Rightarrow> int" where
  "to_int c = (if ch c < 128 then int (ch c) else int (ch c) - 256)"

definition is_tchar :: "int \<Rightarrow> bool" where
  "is_tchar c \<longleftrightarrow> (48 \<le> c \<and> c \<le> 57) \<or> (65 \<le> c \<and> c \<le> 90) \<or> (97 \<le> c \<and> c \<le> 122) \<or>
     c \<in> {0x21, 0x23, 0x24, 0x25, 0x26, 0x27, 0x2A, 0x2B, 0x2D, 0x2E, 0x5E, 0x5F, 0x60, 0x7C, 0x7E}"

definition is_vchar :: "int \<Rightarrow> bool" where
  "is_vchar c \<longleftrightarrow> 0x21 \<le> c \<and> c \<le> 0x7E"

definition is_whitespace :: "int \<Rightarrow> bool" where
  "is_whitespace c \<longleftrightarrow> c = 0x20 \<or> c = 0x09"

definition is_opaque :: "int \<Rightarrow> bool" where
  "is_opaque c \<longleftrightarrow> 0x80 \<le> c \<and> c \<le> 0xFF"

definition is_quoted :: "int \<Rightarrow> bool" where
  "is_quoted c \<longleftrightarrow> is_whitespace c \<or> is_opaque c \<or>
     c = 0x21 \<or> (0x23 \<le> c \<and> c \<le> 0x5B) \<or> (0x5D \<le> c \<and> c \<le> 0x7E)"

definition is_commented :: "int \<Rightarrow> bool" where
  "is_commented c \<longleftrightarrow> is_whitespace c \<or> is_opaque c \<or>
     (0x21 \<le> c \<and> c \<le> 0x27) \<or> (0x2A \<le> c \<and> c \<le> 0x5B) \<or> (0x5D \<le> c \<and> c \<le> 0x7E)"

definition is_escaped :: "int \<Rightarrow> bool" where
  "is_escaped c \<longleftrightarrow> is_whitespace c \<or> is_vchar c \<or> is_opaque c"

section \<open>uri.h\<close>

definition uri_generic_delimiter :: "char \<Rightarrow> bool" where
  "uri_generic_delimiter c \<longleftrightarrow> c \<in> set '':/?#[]@''"

definition uri_subcomponent_delimiter :: "char \<Rightarrow> bool" where
  "uri_subcomponent_delimiter c \<longleftrightarrow> c \<in> set ''!$&()*+,;='' \<or> c = CHR 0x27"

definition uri_reserved_character :: "char \<Rightarrow> bool" where
  "uri_reserved_character c \<longleftrightarrow> (if uri_generic_delimiter c then True else uri_subcomponent_delimiter c)"

definition uri_unreserved_character :: "char \<Rightarrow> bool" where
  "uri_unreserved_character c \<longleftrightarrow> is_alpha c \<or> is_digit c \<or> c \<in> set ''-._~''"

end
