(* ===== verification/Http_Uri.thy ===== *)
theory Http_Uri
  imports Http_Chars
begin

text \<open>
  URIs of the http library (\<^verbatim>\<open>include/common/uri.h\<close>, \<^verbatim>\<open>src/common/uri.cpp\<close>): percent encoding
  per component, validity, the parser, the printer and the merge of a relative reference. A
  position in the URL string is represented by the part of the string from there on. Whether a
  text is an IPv4 or IPv6 address is decided by \<^verbatim>\<open>inet_pton\<close> (through
  \<^verbatim>\<open>snf::net::internet_address\<close>): two arguments of the model.
\<close>

section \<open>Components\<close>

text \<open>The characters each component leaves as they are.\<close>

definition component_char :: "char \<Rightarrow> bool" where
  "component_char c \<longleftrightarrow> uri_unreserved_character c \<or> uri_subcomponent_delimiter c \<or> c \<in> set '':@/?''"

definition userinfo_char :: "char \<Rightarrow> bool" where
  "userinfo_char c \<longleftrightarrow> uri_unreserved_character c \<or> uri_subcomponent_delimiter c \<or> c = CHR '':''"

definition host_char :: "char \<Rightarrow> bool" where
  "host_char c \<longleftrightarrow> uri_unreserved_character c \<or> uri_subcomponent_delimiter c \<or> c \<in> set '':.[]''"

definition path_char :: "char \<Rightarrow> bool" where
  "path_char c \<longleftrightarrow> uri_unreserved_character c \<or> uri_subcomponent_delimiter c \<or> c \<in> set ''@:/''"

text \<open>
  \<^verbatim>\<open>'%' << setfill('0') << setw(2) << setiosflags(hex | uppercase) << int(c)\<close>. The stream still has
  its default flag \<^verbatim>\<open>dec\<close>, and with both \<^verbatim>\<open>dec\<close> and \<^verbatim>\<open>hex\<close> set the standard prescribes the decimal
  conversion.
\<close>

definition pct_encode :: "char \<Rightarrow> string" where
  "pct_encode c = (let s = int_str (to_int c) in ''%'' @ replicate (2 - length s) CHR ''0'' @ s)"

definition encode_with :: "(char \<Rightarrow> bool) \<Rightarrow> string \<Rightarrow> string" where
  "encode_with keep istr = concat (map (\<lambda>c. if keep c then [c] else pct_encode c) istr)"

definition uri_percent_encoded :: "string \<Rightarrow> bool" where
  "uri_percent_encoded s =
     (case s of p # a # b # _ \<Rightarrow> p = CHR ''%'' \<and> is_xdigit a \<and> is_xdigit b | _ \<Rightarrow> False)"

fun decode_with :: "(char \<Rightarrow> bool) \<Rightarrow> string \<Rightarrow> string http" where
  "decode_with keep [] = Inr []"
| "decode_with keep (c # s) =
     (if keep c then rbind (decode_with keep s) (\<lambda>t. Inr (c # t))
      else if uri_percent_encoded (c # s) then
        rbind (decode_with keep (drop 2 s)) (\<lambda>t.
          Inr (mk (16 * xdigit_value (s ! 0) + xdigit_value (s ! 1)) # t))
      else Inl BadUri)"

definition component_encode :: "string \<Rightarrow> string" where "component_encode = encode_with component_char"
definition component_decode :: "string \<Rightarrow> string http" where "component_decode = decode_with component_char"
definition userinfo_encode :: "string \<Rightarrow> string" where "userinfo_encode = encode_with userinfo_char"
definition userinfo_decode :: "string \<Rightarrow> string http" where "userinfo_decode = decode_with userinfo_char"
definition path_encode :: "string \<Rightarrow> string" where "path_encode = encode_with path_char"
definition path_decode :: "string \<Rightarrow> string http" where "path_decode = decode_with path_char"
definition host_decode :: "string \<Rightarrow> string http" where "host_decode = decode_with host_char"

definition host_encode :: "string \<Rightarrow> string" where
  "host_encode istr =
     concat (map (\<lambda>c. if uri_unreserved_character c then [to_lower c]
                      else if host_char c then [c] else pct_encode c) istr)"

definition scheme_encode :: "string \<Rightarrow> string" where
  "scheme_encode istr = map to_lower istr"

section \<open>Validity\<close>

text \<open>The loop shared by the validity tests: kept characters and percent triples only.\<close>

fun valid_with :: "(char \<Rightarrow> bool) \<Rightarrow> string \<Rightarrow> bool" where
  "valid_with ok [] = True"
| "valid_with ok (c # s) =
     (if ok c then valid_with ok s
      else if uri_percent_encoded (c # s) then valid_with ok (drop 2 s)
      else False)"

definition scheme_char :: "char \<Rightarrow> bool" where
  "scheme_char d \<longleftrightarrow> is_alpha d \<or> is_digit d \<or> d \<in> set ''+-.''"

definition scheme_valid :: "string \<Rightarrow> bool" where
  "scheme_valid s = (case s of [] \<Rightarrow> False | c # cs \<Rightarrow> is_alpha c \<and> list_all scheme_char cs)"

definition userinfo_valid :: "string \<Rightarrow> bool" where
  "userinfo_valid ui \<longleftrightarrow> ui \<noteq> [] \<and> valid_with userinfo_char ui"

definition is_regular_hostname :: "string \<Rightarrow> bool" where
  "is_regular_hostname host \<longleftrightarrow>
     host \<noteq> [] \<and> valid_with (\<lambda>c. uri_unreserved_character c \<or> uri_subcomponent_delimiter c) host"

definition host_valid :: "(string \<Rightarrow> bool) \<Rightarrow> (string \<Rightarrow> bool) \<Rightarrow> string \<Rightarrow> bool" where
  "host_valid ip4 ip6 host \<longleftrightarrow>
     (if host = [] then False
      else if hd host = CHR ''['' \<and> last host = CHR '']'' then ip6 (take (length host - 2) (drop 1 host))
      else ip4 host \<or> is_regular_hostname host)"

text \<open>\<^verbatim>\<open>std::stoi\<close> throws when the number does not fit an \<^verbatim>\<open>int\<close>.\<close>

definition decimal_value :: "string \<Rightarrow> int" where
  "decimal_value ds = fold (\<lambda>d n. 10 * n + (int (ch d) - 48)) ds 0"

definition port_valid :: "string \<Rightarrow> bool http" where
  "port_valid port =
     (if port = [] then Inr False
      else if list_all is_digit port then
        let p = decimal_value port
        in if p \<ge> 2 ^ 31 then Inl OutOfRange_h else Inr (\<not> (p \<le> 0 \<or> p > 0xFFFF))
      else Inr False)"

text \<open>A slash is rejected right after a slash; \<open>lc\<close> is the last character looked at.\<close>

fun path_valid_loop :: "char option \<Rightarrow> string \<Rightarrow> bool" where
  "path_valid_loop lc [] = True"
| "path_valid_loop lc (c # s) =
     (if uri_unreserved_character c \<or> uri_subcomponent_delimiter c \<or> c = CHR ''@'' \<or> c = CHR '':''
      then path_valid_loop (Some c) s
      else if c = CHR ''/'' \<and> lc \<noteq> Some CHR ''/'' then path_valid_loop (Some c) s
      else if uri_percent_encoded (c # s) then path_valid_loop (Some (s ! 1)) (drop 2 s)
      else False)"

definition path_valid :: "string \<Rightarrow> bool" where
  "path_valid path \<longleftrightarrow> path = [] \<or> path = ''/'' \<or> path_valid_loop None path"

definition query_valid :: "string \<Rightarrow> bool" where
  "query_valid q \<longleftrightarrow> q \<noteq> [] \<and> valid_with component_char q"

definition fragment_valid :: "string \<Rightarrow> bool" where
  "fragment_valid f \<longleftrightarrow> f \<noteq> [] \<and> valid_with component_char f"

section \<open>Paths\<close>

record uri_path =
  p_component :: string
  p_path :: string
  p_segments :: "string list"
  slash_at_start :: bool
  slash_at_end :: bool

definition no_path :: uri_path where
  "no_path = \<lparr>p_component = [], p_path = [], p_segments = [], slash_at_start = False, slash_at_end = False\<rparr>"

fun join_slash :: "string list \<Rightarrow> string" where
  "join_slash [] = []"
| "join_slash [s] = s"
| "join_slash (s # t # ss) = s @ ''/'' @ join_slash (t # ss)"

definition segments_to_path :: "string list \<Rightarrow> bool \<Rightarrow> bool \<Rightarrow> string" where
  "segments_to_path segments at_start at_end =
     (if segments = [] then []
      else (if at_start then ''/'' else []) @ join_slash segments @ (if at_end then ''/'' else []))"

definition add_segment :: "bool \<Rightarrow> string \<Rightarrow> string list \<Rightarrow> string list" where
  "add_segment absolute segment segments =
     (if segment = ''..'' then (if absolute then butlast segments else segments @ [segment])
      else if segment = ''.'' then (if absolute then segments else segments @ [segment])
      else if segment \<noteq> [] then segments @ [segment] else segments)"

function path_loop :: "bool \<Rightarrow> string \<Rightarrow> string list \<Rightarrow> string list" where
  "path_loop absolute p segments =
     (if p = [] then segments
      else
        let segment = takeWhile (\<lambda>c. c \<noteq> CHR ''/'') p
        in path_loop absolute (drop (length segment + 1) p) (add_segment absolute segment segments))"
  by pat_completeness auto

termination path_loop
  by (relation "measure (\<lambda>(_, p, _). length p)") (auto simp: length_greater_0_conv)

declare path_loop.simps [simp del]

definition path_set :: "string \<Rightarrow> uri_path \<Rightarrow> uri_path http" where
  "path_set path u =
     rbind (path_decode path) (\<lambda>p.
       if p = [] then Inl Undefined
       else
         let absolute = (slash_at_start u \<or> hd p = CHR ''/'');
             at_end = (slash_at_end u \<or> last p = CHR ''/'');
             segments = path_loop absolute (if hd p = CHR ''/'' then tl p else p) (p_segments u)
         in Inr \<lparr>p_component = (if segments \<noteq> [] then segments_to_path segments absolute at_end else p_component u),
                 p_path = p, p_segments = segments, slash_at_start = absolute, slash_at_end = at_end\<rparr>)"

text \<open>
  The copy constructor hands the stored, already decoded text to the constructor of
  \<^verbatim>\<open>uri_component\<close>, which decodes it once more.
\<close>

definition path_copy :: "uri_path \<Rightarrow> uri_path http" where
  "path_copy p = rbind (component_decode (p_component p)) (\<lambda>c. Inr (p\<lparr>p_component := c\<rparr>))"

definition merge_segment :: "string \<Rightarrow> string list \<Rightarrow> string list" where
  "merge_segment s segments =
     (if s = ''..'' then butlast segments else if s \<noteq> ''.'' then segments @ [s] else segments)"

definition path_merge :: "uri_path \<Rightarrow> uri_path \<Rightarrow> uri_path http" where
  "path_merge base rel =
     (if slash_at_start rel then Inr rel
      else
        let segments = fold merge_segment (p_segments rel) (butlast (p_segments base))
        in if segments \<noteq> []
           then path_set (segments_to_path segments (slash_at_start base) (slash_at_end rel)) no_path
           else Inr no_path)"

section \<open>URIs\<close>

record uri =
  u_scheme :: string
  u_userinfo :: string
  u_host :: string
  u_port :: string
  u_path :: uri_path
  u_query :: string
  u_fragment :: string

definition empty_uri :: uri where
  "empty_uri = \<lparr>u_scheme = [], u_userinfo = [], u_host = [], u_port = [], u_path = no_path, u_query = [], u_fragment = []\<rparr>"

definition set_scheme :: "string \<Rightarrow> uri \<Rightarrow> uri http" where
  "set_scheme s u = (if scheme_valid s then Inr (u\<lparr>u_scheme := s\<rparr>) else Inl BadUri)"

definition set_userinfo :: "string \<Rightarrow> uri \<Rightarrow> uri http" where
  "set_userinfo s u = rbind (userinfo_decode s) (\<lambda>d. Inr (u\<lparr>u_userinfo := d\<rparr>))"

definition set_host :: "(string \<Rightarrow> bool) \<Rightarrow> (string \<Rightarrow> bool) \<Rightarrow> string \<Rightarrow> uri \<Rightarrow> uri http" where
  "set_host ip4 ip6 s u =
     (if \<not> host_valid ip4 ip6 s then Inl BadUri
      else rbind (host_decode s) (\<lambda>d. Inr (u\<lparr>u_host := d\<rparr>)))"

definition set_port :: "string \<Rightarrow> uri \<Rightarrow> uri http" where
  "set_port s u = rbind (port_valid s) (\<lambda>ok. if ok then Inr (u\<lparr>u_port := s\<rparr>) else Inl BadUri)"

definition set_path :: "string \<Rightarrow> uri \<Rightarrow> uri http" where
  "set_path s u = rbind (path_set s (u_path u)) (\<lambda>p. Inr (u\<lparr>u_path := p\<rparr>))"

definition set_query :: "string \<Rightarrow> uri \<Rightarrow> uri http" where
  "set_query s u = rbind (component_decode s) (\<lambda>d. Inr (u\<lparr>u_query := d\<rparr>))"

definition set_fragment :: "string \<Rightarrow> uri \<Rightarrow> uri http" where
  "set_fragment s u = rbind (component_decode s) (\<lambda>d. Inr (u\<lparr>u_fragment := d\<rparr>))"

text \<open>Each parser takes the rest of the URL string and returns what follows its component.\<close>

definition parse_scheme :: "string \<Rightarrow> uri \<Rightarrow> (string \<times> uri) http" where
  "parse_scheme str u =
     (if CHR '':'' \<notin> set str then Inl BadUri
      else
        let scheme = takeWhile (\<lambda>c. c \<noteq> CHR '':'') str
        in rbind (set_scheme scheme u) (\<lambda>u. Inr (drop (length scheme + 1) str, u)))"

definition parse_host :: "string \<Rightarrow> (string \<times> string) http" where
  "parse_host a =
     (if a \<noteq> [] \<and> hd a = CHR ''['' then
        if CHR '']'' \<notin> set a then Inl BadUri
        else let h = takeWhile (\<lambda>c. c \<noteq> CHR '']'') a in Inr (h @ '']'', drop (length h + 1) a)
      else
        let h = takeWhile (\<lambda>c. c \<noteq> CHR '':'' \<and> c \<noteq> CHR ''/'') a in Inr (h, drop (length h) a))"

definition parse_userinfo :: "string \<Rightarrow> uri \<Rightarrow> (string \<times> uri) http" where
  "parse_userinfo auth u =
     (if CHR ''@'' \<in> set auth then
        let userinfo = takeWhile (\<lambda>c. c \<noteq> CHR ''@'') auth
        in if \<not> userinfo_valid userinfo then Inl BadUri
           else rbind (set_userinfo userinfo u) (\<lambda>u. Inr (drop (length userinfo + 1) auth, u))
      else Inr (auth, u))"

definition parse_authority :: "(string \<Rightarrow> bool) \<Rightarrow> (string \<Rightarrow> bool) \<Rightarrow> string \<Rightarrow> uri \<Rightarrow> (string \<times> uri) http" where
  "parse_authority ip4 ip6 str u =
     (if take 2 str \<noteq> ''//'' then Inl BadUri
      else
        let auth = takeWhile (\<lambda>c. c \<notin> set ''/?#'') (drop 2 str)
        in rbind (parse_userinfo auth u) (\<lambda>(a, u).
           rbind (parse_host a) (\<lambda>(host, a).
           rbind (set_host ip4 ip6 host u) (\<lambda>u.
           rbind (if a \<noteq> [] \<and> hd a = CHR '':'' then set_port (tl a) u else Inr u) (\<lambda>u.
             Inr (drop (2 + length auth) str, u))))))"

definition parse_path :: "string \<Rightarrow> uri \<Rightarrow> (string \<times> uri) http" where
  "parse_path str u =
     (let path = takeWhile (\<lambda>c. c \<noteq> CHR ''?'' \<and> c \<noteq> CHR ''#'') str
      in if \<not> path_valid path then Inl BadUri
         else rbind (set_path path u) (\<lambda>u. Inr (drop (length path) str, u)))"

definition parse_query :: "string \<Rightarrow> uri \<Rightarrow> (string \<times> uri) http" where
  "parse_query str u =
     (if str = [] \<or> hd str \<noteq> CHR ''?'' then Inl BadUri
      else
        let query = takeWhile (\<lambda>c. c \<noteq> CHR ''#'') (tl str)
        in if \<not> query_valid query then Inl BadUri
           else rbind (set_query query u) (\<lambda>u. Inr (drop (1 + length query) str, u)))"

definition parse_fragment :: "string \<Rightarrow> uri \<Rightarrow> (string \<times> uri) http" where
  "parse_fragment str u =
     (if str = [] \<or> hd str \<noteq> CHR ''#'' then Inl BadUri
      else if \<not> fragment_valid (tl str) then Inl BadUri
      else rbind (set_fragment (tl str) u) (\<lambda>u. Inr ([], u)))"

text \<open>The first of \<^verbatim>\<open>:\<close> and \<^verbatim>\<open>/\<close> decides whether the text starts with a scheme.\<close>

definition starts_with_scheme :: "string \<Rightarrow> bool" where
  "starts_with_scheme str =
     (case dropWhile (\<lambda>c. c \<noteq> CHR '':'' \<and> c \<noteq> CHR ''/'') str of c # _ \<Rightarrow> c = CHR '':'' | [] \<Rightarrow> False)"

definition parse_step :: "(string \<Rightarrow> bool) \<Rightarrow> (string \<Rightarrow> bool) \<Rightarrow> bool \<Rightarrow> string \<Rightarrow> uri \<Rightarrow> (bool \<times> string \<times> uri) http" where
  "parse_step ip4 ip6 scheme_seen str u =
     (let go = (\<lambda>seen r. rbind r (\<lambda>(str, u). Inr (seen, str, u)))
      in if hd str = CHR ''/'' then
           (if take 2 str = ''//'' then go scheme_seen (parse_authority ip4 ip6 str u)
            else go scheme_seen (parse_path str u))
         else if hd str = CHR ''?'' then go scheme_seen (parse_query str u)
         else if hd str = CHR ''#'' then go scheme_seen (parse_fragment str u)
         else if scheme_seen then go scheme_seen (parse_path str u)
         else if starts_with_scheme str then go True (parse_scheme str u)
         else go scheme_seen (parse_path str u))"

lemma parse_path_shorter:
  assumes "parse_path str u = Inr (str', u')" "str \<noteq> []" "hd str \<noteq> CHR ''?''" "hd str \<noteq> CHR ''#''"
  shows "length str' < length str"
  using assms by (cases str) (auto simp: parse_path_def Let_def rbind_Inr split: if_splits)

lemma parse_step_shorter:
  assumes "parse_step ip4 ip6 seen str u = Inr (seen', str', u')" "str \<noteq> []"
  shows "length str' < length str"
  using assms
  by (auto simp: parse_step_def Let_def rbind_Inr parse_authority_def parse_query_def parse_fragment_def
      parse_scheme_def dest: parse_path_shorter split: if_splits)

function uri_parse_loop :: "(string \<Rightarrow> bool) \<Rightarrow> (string \<Rightarrow> bool) \<Rightarrow> bool \<Rightarrow> string \<Rightarrow> uri \<Rightarrow> uri http" where
  "uri_parse_loop ip4 ip6 seen str u =
     (if str = [] then Inr u
      else
        (case parse_step ip4 ip6 seen str u of
           Inl e \<Rightarrow> Inl e
         | Inr (seen, str, u) \<Rightarrow> uri_parse_loop ip4 ip6 seen str u))"
  by pat_completeness auto

termination uri_parse_loop
  by (relation "measure (\<lambda>(_, _, _, str, _). length str)") (auto dest: parse_step_shorter [OF sym] parse_step_shorter)

declare uri_parse_loop.simps [simp del]

definition uri_parse :: "(string \<Rightarrow> bool) \<Rightarrow> (string \<Rightarrow> bool) \<Rightarrow> string \<Rightarrow> uri http" where
  "uri_parse ip4 ip6 str = uri_parse_loop ip4 ip6 False str empty_uri"

section \<open>Printing and merging\<close>

definition uri_str :: "uri \<Rightarrow> string" where
  "uri_str u =
     (if u_scheme u \<noteq> [] then scheme_encode (u_scheme u) @ '':'' else []) @
     (if u_host u \<noteq> [] then
        ''//'' @ (if u_userinfo u \<noteq> [] then userinfo_encode (u_userinfo u) @ ''@'' else []) @
        host_encode (u_host u) @ (if u_port u \<noteq> [] then '':'' @ u_port u else [])
      else []) @
     (if p_component (u_path u) \<noteq> [] then path_encode (p_component (u_path u)) else []) @
     (if u_query u \<noteq> [] then ''?'' @ component_encode (u_query u) else []) @
     (if u_fragment u \<noteq> [] then ''#'' @ component_encode (u_fragment u) else [])"

definition uri_merge :: "uri \<Rightarrow> uri \<Rightarrow> uri http" where
  "uri_merge base rel =
     (if u_scheme rel \<noteq> [] then Inr rel
      else
        let target = empty_uri\<lparr>u_scheme := u_scheme base\<rparr>
        in rbind
          (if u_host rel \<noteq> [] then
             Inr (target\<lparr>u_userinfo := u_userinfo rel, u_host := u_host rel, u_port := u_port rel,
                         u_path := u_path rel, u_query := u_query rel\<rparr>)
           else
             let target = target\<lparr>u_userinfo := u_userinfo base, u_host := u_host base, u_port := u_port base\<rparr>
             in if p_component (u_path rel) \<noteq> [] then
                  rbind (path_merge (u_path base) (u_path rel)) (\<lambda>p.
                    Inr (target\<lparr>u_path := p, u_query := u_query rel\<rparr>))
                else
                  Inr (target\<lparr>u_path := u_path base,
                              u_query := (if u_query rel \<noteq> [] then u_query rel else u_query base)\<rparr>))
          (\<lambda>target. Inr (target\<lparr>u_fragment := u_fragment rel\<rparr>)))"

section \<open>Kept characters pass through\<close>

lemma encode_keep: "list_all keep s \<Longrightarrow> encode_with keep s = s"
  by (induction s) (simp_all add: encode_with_def)

lemma decode_keep: "list_all keep s \<Longrightarrow> decode_with keep s = Inr s"
  by (induction s) simp_all

lemma valid_keep: "list_all ok s \<Longrightarrow> valid_with ok s"
  by (induction s) simp_all

lemma takeWhile_until:
  "list_all P s \<Longrightarrow> rest = [] \<or> \<not> P (hd rest) \<Longrightarrow> takeWhile P (s @ rest) = s"
  by (induction s) (auto simp: takeWhile_eq_Nil_iff)

lemma not_kept:
  "\<not> component_char CHR ''#''" "\<not> userinfo_char CHR ''@''" "\<not> userinfo_char CHR ''/''" "\<not> userinfo_char CHR ''?''"
  "\<not> userinfo_char CHR ''#''" "\<not> path_char CHR ''?''" "\<not> path_char CHR ''#''"
  by code_simp+

lemma kept_without:
  "list_all P s \<Longrightarrow> \<not> P d \<Longrightarrow> list_all (\<lambda>c. c \<noteq> d) s"
  by (induction s) auto

lemma list_all_notin: "list_all P s \<Longrightarrow> \<not> P d \<Longrightarrow> d \<notin> set s"
  by (induction s) auto

section \<open>Dot segments\<close>

definition clean_segment :: "string \<Rightarrow> bool" where
  "clean_segment s \<longleftrightarrow> s \<noteq> [] \<and> s \<noteq> ''.'' \<and> s \<noteq> ''..'' \<and> CHR ''/'' \<notin> set s"

lemma add_segment_clean:
  "list_all clean_segment segs \<Longrightarrow> CHR ''/'' \<notin> set seg \<Longrightarrow> list_all clean_segment (add_segment True seg segs)"
  by (auto simp: add_segment_def clean_segment_def list_all_iff dest: in_set_butlastD)

lemma path_loop_clean:
  "list_all clean_segment segs \<Longrightarrow> list_all clean_segment (path_loop True p segs)"
proof (induction "True" p segs rule: path_loop.induct)
  case (1 p segs)
  have "CHR ''/'' \<notin> set (takeWhile (\<lambda>c. c \<noteq> CHR ''/'') p)" by (auto dest: set_takeWhileD)
  with 1 show ?case
    by (subst path_loop.simps) (simp add: Let_def add_segment_clean)
qed

text \<open>An absolute path has no empty, \<open>.\<close> or \<open>..\<close> segment, whatever was percent-encoded in it.\<close>

definition safe_path :: "uri_path \<Rightarrow> bool" where
  "safe_path p \<longleftrightarrow> (slash_at_start p \<longrightarrow> list_all clean_segment (p_segments p))"

lemma safe_no_path [simp]: "safe_path no_path"
  by (simp add: safe_path_def no_path_def)

lemma path_set_safe: "path_set s no_path = Inr p \<Longrightarrow> safe_path p"
  by (auto simp: path_set_def no_path_def rbind_Inr Let_def safe_path_def path_loop_clean split: if_splits)

lemma parse_path_rest:
  assumes "parse_path str u = Inr (str', u')"
  shows "str' = [] \<or> hd str' = CHR ''?'' \<or> hd str' = CHR ''#''"
proof -
  let ?P = "\<lambda>c. c \<noteq> CHR ''?'' \<and> c \<noteq> CHR ''#''"
  have "str' = drop (length (takeWhile ?P str)) str"
    using assms by (auto simp: parse_path_def Let_def rbind_Inr split: if_splits)
  then have "str' = dropWhile ?P str" by (simp add: dropWhile_eq_drop)
  then show ?thesis using hd_dropWhile [of ?P str] by auto
qed

text \<open>While there is still a path to parse, none has been stored.\<close>

definition path_pending :: "string \<Rightarrow> uri \<Rightarrow> bool" where
  "path_pending str u \<longleftrightarrow> safe_path (u_path u) \<and>
     (str = [] \<or> hd str = CHR ''?'' \<or> hd str = CHR ''#'' \<or> u_path u = no_path)"

lemma parse_path_pending:
  assumes "parse_path str u = Inr (str', u')" "u_path u = no_path"
  shows "path_pending str' u'"
proof -
  have "safe_path (u_path u')" using assms path_set_safe
    by (auto simp: parse_path_def set_path_def Let_def rbind_Inr split: if_splits)
  with parse_path_rest [OF assms(1)] show ?thesis by (auto simp: path_pending_def)
qed

lemma parse_query_rest:
  assumes "parse_query str u = Inr (str', u')"
  shows "(str' = [] \<or> hd str' = CHR ''#'') \<and> u_path u' = u_path u"
proof -
  have "drop (1 + length (takeWhile P (tl xs))) xs = dropWhile P (tl xs)" for P and xs :: string
    by (cases xs) (auto simp: dropWhile_eq_drop)
  then show ?thesis
    using assms hd_dropWhile [of "\<lambda>c. c \<noteq> CHR ''#''" "tl str"]
    by (auto simp: parse_query_def set_query_def Let_def rbind_Inr split: if_splits)
qed

lemma parse_step_pending:
  assumes "parse_step ip4 ip6 seen str u = Inr (seen', str', u')" "path_pending str u" "str \<noteq> []"
  shows "path_pending str' u'"
proof -
  have auth: "u_path u' = u_path u" if "parse_authority ip4 ip6 str u = Inr (str', u')" for str' u'
    using that
    by (auto simp: parse_authority_def parse_userinfo_def set_userinfo_def set_host_def set_port_def Let_def rbind_Inr
        split: if_splits)
  have frag: "str' = [] \<and> u_path u' = u_path u" if "parse_fragment str u = Inr (str', u')" for str' u'
    using that by (auto simp: parse_fragment_def set_fragment_def rbind_Inr split: if_splits)
  have sch: "u_path u' = u_path u" if "parse_scheme str u = Inr (str', u')" for str' u'
    using that by (auto simp: parse_scheme_def set_scheme_def Let_def rbind_Inr split: if_splits)
  have pend: "path_pending str' u'" if "u_path u' = u_path u" "hd str \<noteq> CHR ''?''" "hd str \<noteq> CHR ''#''" for str' u'
    using that assms(2,3) by (simp add: path_pending_def)
  have "path_pending str' u'" if "parse_query str u = Inr (str', u')" for str' u'
    using parse_query_rest [OF that] assms(2) by (auto simp: path_pending_def)
  moreover have "path_pending str' u'" if "parse_fragment str u = Inr (str', u')" for str' u'
    using frag [OF that] assms(2) by (auto simp: path_pending_def)
  moreover have "path_pending str' u'" if "parse_path str u = Inr (str', u')" "hd str \<noteq> CHR ''?''" "hd str \<noteq> CHR ''#''" for str' u'
    using parse_path_pending [OF that(1)] that assms(2,3) by (simp add: path_pending_def)
  ultimately show ?thesis using assms(1) pend auth sch
    by (auto simp: parse_step_def Let_def rbind_Inr split: if_splits)
qed

lemma parse_loop_safe:
  "uri_parse_loop ip4 ip6 seen str u = Inr v \<Longrightarrow> path_pending str u \<Longrightarrow> safe_path (u_path v)"
proof (induction ip4 ip6 seen str u rule: uri_parse_loop.induct)
  case (1 ip4 ip6 seen str u)
  show ?case
  proof (cases "str = []")
    case True
    with 1(2,3) show ?thesis by (simp add: uri_parse_loop.simps path_pending_def)
  next
    case False
    with 1(2) obtain seen' str' u' where p: "parse_step ip4 ip6 seen str u = Inr (seen', str', u')"
        "uri_parse_loop ip4 ip6 seen' str' u' = Inr v"
      by (subst (asm) uri_parse_loop.simps) (auto split: sum.splits)
    show ?thesis
      by (rule 1(1) [OF False p(1)]) (use p(2) parse_step_pending [OF p(1) 1(3) False] in auto)
  qed
qed

lemma uri_parse_safe: "uri_parse ip4 ip6 str = Inr u \<Longrightarrow> safe_path (u_path u)"
  unfolding uri_parse_def
  by (erule parse_loop_safe) (simp add: path_pending_def empty_uri_def safe_path_def no_path_def)

lemma path_merge_safe: "path_merge base rel = Inr p \<Longrightarrow> safe_path rel \<Longrightarrow> safe_path p"
  by (auto simp: path_merge_def Let_def dest: path_set_safe split: if_splits)

text \<open>
  C23: in a parsed URI, and in the merge of two parsed URIs, an absolute path has no empty, \<open>.\<close> or
  \<open>..\<close> segment and no segment with a slash, however its characters were percent-encoded: a
  server that maps segments to files cannot be led above its root.
\<close>

theorem no_dot_segments:
  assumes "uri_parse ip4 ip6 b = Inr base" "uri_parse ip4 ip6 r = Inr rel" "uri_merge base rel = Inr u"
    and "v \<in> {base, rel, u}" "slash_at_start (u_path v)" "s \<in> set (p_segments (u_path v))"
  shows "s \<noteq> [] \<and> s \<noteq> ''.'' \<and> s \<noteq> ''..'' \<and> CHR ''/'' \<notin> set s"
proof -
  note parsed = uri_parse_safe [OF assms(1)] uri_parse_safe [OF assms(2)]
  moreover have "safe_path (u_path u)"
    using assms(3) parsed path_merge_safe by (auto simp: uri_merge_def Let_def rbind_Inr split: if_splits)
  ultimately have "safe_path (u_path v)" using assms(4) by auto
  then show ?thesis using assms(5,6) by (auto simp: safe_path_def list_all_iff clean_segment_def)
qed

theorem no_dot_segments_witness:
  "\<exists>base rel u. uri_parse (\<lambda>_. False) (\<lambda>_. False) ''http://a/b/%2e%2e/c'' = Inr base \<and>
     uri_parse (\<lambda>_. False) (\<lambda>_. False) ''../../%2E%2E/g'' = Inr rel \<and> uri_merge base rel = Inr u \<and>
     p_segments (u_path u) = [''g''] \<and> ''g'' \<noteq> [] \<and> ''g'' \<noteq> ''.'' \<and> ''g'' \<noteq> ''..'' \<and> CHR ''/'' \<notin> set ''g''"
proof -
  have "\<exists>base rel u. uri_parse (\<lambda>_. False) (\<lambda>_. False) ''http://a/b/%2e%2e/c'' = Inr base \<and>
      uri_parse (\<lambda>_. False) (\<lambda>_. False) ''../../%2E%2E/g'' = Inr rel \<and> uri_merge base rel = Inr u \<and>
      slash_at_start (u_path u) \<and> p_segments (u_path u) = [''g'']"
    by (rule exI [of _ "projr (uri_parse (\<lambda>_. False) (\<lambda>_. False) ''http://a/b/%2e%2e/c'')"],
        rule exI [of _ "projr (uri_parse (\<lambda>_. False) (\<lambda>_. False) ''../../%2E%2E/g'')"],
        rule exI [of _ "projr (uri_merge (projr (uri_parse (\<lambda>_. False) (\<lambda>_. False) ''http://a/b/%2e%2e/c''))
           (projr (uri_parse (\<lambda>_. False) (\<lambda>_. False) ''../../%2E%2E/g'')))"]) code_simp
  then obtain base rel u where u: "uri_parse (\<lambda>_. False) (\<lambda>_. False) ''http://a/b/%2e%2e/c'' = Inr base"
      "uri_parse (\<lambda>_. False) (\<lambda>_. False) ''../../%2E%2E/g'' = Inr rel" "uri_merge base rel = Inr u"
      "slash_at_start (u_path u)" "p_segments (u_path u) = [''g'']" by blast
  from no_dot_segments [OF u(1-3) _ u(4)] u show ?thesis by auto
qed

section \<open>Printing and parsing\<close>

text \<open>
  URIs in normal form: a scheme in lower case, a registered host name in lower case, and every
  other part made of characters that need no percent encoding.
\<close>

definition plain_host :: "string \<Rightarrow> bool" where
  "plain_host h \<longleftrightarrow> h \<noteq> [] \<and>
     list_all (\<lambda>c. (uri_unreserved_character c \<or> uri_subcomponent_delimiter c) \<and> to_lower c = c) h"

definition plain_segment :: "string \<Rightarrow> bool" where
  "plain_segment s \<longleftrightarrow> clean_segment s \<and> list_all path_char s"

definition plain_path :: "uri_path \<Rightarrow> bool" where
  "plain_path p \<longleftrightarrow> p = no_path \<or>
     (p_segments p \<noteq> [] \<and> list_all plain_segment (p_segments p) \<and> slash_at_start p \<and>
      p_component p = segments_to_path (p_segments p) True (slash_at_end p) \<and> p_path p = p_component p)"

definition plain_uri :: "uri \<Rightarrow> bool" where
  "plain_uri u \<longleftrightarrow>
     scheme_valid (u_scheme u) \<and> list_all (\<lambda>c. to_lower c = c) (u_scheme u) \<and>
     plain_host (u_host u) \<and> list_all userinfo_char (u_userinfo u) \<and>
     (u_port u = [] \<or> port_valid (u_port u) = Inr True) \<and>
     plain_path (u_path u) \<and> list_all component_char (u_query u) \<and> list_all component_char (u_fragment u)"

definition fragment_text :: "uri \<Rightarrow> string" where
  "fragment_text u = (if u_fragment u \<noteq> [] then ''#'' @ u_fragment u else [])"

definition query_text :: "uri \<Rightarrow> string" where
  "query_text u = (if u_query u \<noteq> [] then ''?'' @ u_query u else [])"

definition authority_text :: "uri \<Rightarrow> string" where
  "authority_text u = (if u_userinfo u \<noteq> [] then u_userinfo u @ ''@'' else []) @ u_host u @
     (if u_port u \<noteq> [] then '':'' @ u_port u else [])"

lemma parse_loop_step:
  "str \<noteq> [] \<Longrightarrow> parse_step ip4 ip6 seen str u = Inr (seen', str', u') \<Longrightarrow>
     uri_parse_loop ip4 ip6 seen str u = uri_parse_loop ip4 ip6 seen' str' u'"
  by (subst uri_parse_loop.simps) simp

lemma parse_loop_Nil [simp]: "uri_parse_loop ip4 ip6 seen [] u = Inr u"
  by (simp add: uri_parse_loop.simps)

lemma loop_fragment:
  assumes "list_all component_char (u_fragment u)" "u_fragment v = []"
  shows "uri_parse_loop ip4 ip6 seen (fragment_text u) v = Inr (v\<lparr>u_fragment := u_fragment u\<rparr>)"
proof (cases "u_fragment u = []")
  case True
  with assms(2) show ?thesis by (simp add: fragment_text_def)
next
  case False
  then have "parse_step ip4 ip6 seen (fragment_text u) v = Inr (seen, [], v\<lparr>u_fragment := u_fragment u\<rparr>)"
    using assms(1)
    by (simp add: fragment_text_def parse_step_def parse_fragment_def fragment_valid_def valid_keep
        set_fragment_def component_decode_def decode_keep)
  from parse_loop_step [OF _ this] False show ?thesis by (simp add: fragment_text_def)
qed

lemma loop_query:
  assumes "list_all component_char (u_query u)" "list_all component_char (u_fragment u)" "u_query v = []" "u_fragment v = []"
  shows "uri_parse_loop ip4 ip6 seen (query_text u @ fragment_text u) v =
    Inr (v\<lparr>u_query := u_query u, u_fragment := u_fragment u\<rparr>)"
proof (cases "u_query u = []")
  case True
  with assms loop_fragment show ?thesis by (simp add: query_text_def)
next
  case False
  have "takeWhile (\<lambda>c. c \<noteq> CHR ''#'') (u_query u @ fragment_text u) = u_query u"
    by (rule takeWhile_until) (use kept_without [OF assms(1) not_kept(1)] in \<open>auto simp: fragment_text_def\<close>)
  then have "parse_step ip4 ip6 seen (query_text u @ fragment_text u) v = Inr (seen, fragment_text u, v\<lparr>u_query := u_query u\<rparr>)"
    using assms(1) False
    by (simp add: query_text_def parse_step_def parse_query_def query_valid_def valid_keep
        set_query_def component_decode_def decode_keep Let_def)
  from parse_loop_step [OF _ this] False loop_fragment assms show ?thesis by (simp add: query_text_def)
qed

abbreviation tail_slash :: "bool \<Rightarrow> string" where
  "tail_slash at_end \<equiv> (if at_end then ''/'' else [])"

lemma valid_segment:
  "list_all path_char s \<Longrightarrow> CHR ''/'' \<notin> set s \<Longrightarrow>
     path_valid_loop lc (s @ rest) = path_valid_loop (if s = [] then lc else Some (last s)) rest"
  by (induction s arbitrary: lc) (auto simp: path_char_def)

lemma plain_segment_last: "plain_segment s \<Longrightarrow> s \<noteq> [] \<and> last s \<noteq> CHR ''/'' \<and> hd s \<noteq> CHR ''/'' \<and> CHR ''/'' \<notin> set s"
  unfolding plain_segment_def clean_segment_def by (metis last_in_set hd_in_set)

lemma valid_segments:
  "segs \<noteq> [] \<Longrightarrow> list_all plain_segment segs \<Longrightarrow> path_valid_loop lc (join_slash segs @ tail_slash e)"
proof (induction segs arbitrary: lc rule: join_slash.induct)
  case (2 s)
  then show ?case using valid_segment [of s lc "tail_slash e"] plain_segment_last [of s]
    by (auto simp: plain_segment_def)
next
  case (3 s t ss)
  then show ?case using valid_segment [of s lc "''/'' @ join_slash (t # ss) @ tail_slash e"] plain_segment_last [of s]
    by (auto simp: plain_segment_def)
qed simp

lemma takeWhile_segment:
  assumes "plain_segment s"
  shows "takeWhile (\<lambda>c. c \<noteq> CHR ''/'') (s @ CHR ''/'' # rest) = s" "takeWhile (\<lambda>c. c \<noteq> CHR ''/'') s = s"
  using plain_segment_last [OF assms] by (auto simp: takeWhile_append takeWhile_eq_all_conv)

lemma path_loop_segment:
  assumes "plain_segment s" "rest = [] \<or> hd rest = CHR ''/''"
  shows "path_loop absolute (s @ rest) acc = path_loop absolute (tl rest) (acc @ [s])"
proof -
  have "takeWhile (\<lambda>c. c \<noteq> CHR ''/'') (s @ rest) = s"
    using takeWhile_segment [OF assms(1)] assms(2) by (cases rest) auto
  moreover have "add_segment absolute s acc = acc @ [s]"
    using assms(1) by (simp add: add_segment_def plain_segment_def clean_segment_def)
  moreover have "drop (length s + 1) (s @ rest) = tl rest" by (cases rest) auto
  moreover have "s \<noteq> []" using plain_segment_last [OF assms(1)] by auto
  ultimately show ?thesis by (subst path_loop.simps) (simp add: Let_def)
qed

lemma path_loop_segments:
  "segs \<noteq> [] \<Longrightarrow> list_all plain_segment segs \<Longrightarrow> path_loop absolute (join_slash segs @ tail_slash e) acc = acc @ segs"
proof (induction segs arbitrary: acc rule: join_slash.induct)
  case (2 s)
  then show ?case using path_loop_segment [of s "tail_slash e" absolute acc]
    by (auto simp: path_loop.simps [of _ "[]"])
next
  case (3 s t ss)
  then show ?case using path_loop_segment [of s "''/'' @ join_slash (t # ss) @ tail_slash e" absolute acc] by simp
qed simp

lemma join_slash_first:
  assumes "segs \<noteq> []" "list_all plain_segment segs"
  shows "\<exists>c cs. join_slash segs = c # cs \<and> c \<noteq> CHR ''/''"
proof -
  obtain s ss where s: "segs = s # ss" using assms(1) by (cases segs) auto
  then obtain c cs where "s = c # cs" "c \<noteq> CHR ''/''" using plain_segment_last [of s] assms(2) by (cases s) auto
  with s show ?thesis by (cases ss) auto
qed

lemma join_slash_last:
  assumes "segs \<noteq> []" "list_all plain_segment segs"
  shows "join_slash segs \<noteq> [] \<and> last (join_slash segs) \<noteq> CHR ''/''"
  using assms by (induction segs rule: join_slash.induct) (auto dest: plain_segment_last)

lemma join_slash_chars: "list_all plain_segment segs \<Longrightarrow> list_all path_char (join_slash segs)"
  by (induction segs rule: join_slash.induct) (auto simp: plain_segment_def path_char_def)

lemma loop_path:
  assumes "plain_path (u_path u)" "list_all component_char (u_query u)" "list_all component_char (u_fragment u)"
    and v: "u_path v = no_path" "u_query v = []" "u_fragment v = []"
  shows "uri_parse_loop ip4 ip6 seen (p_component (u_path u) @ query_text u @ fragment_text u) v =
    Inr (v\<lparr>u_path := u_path u, u_query := u_query u, u_fragment := u_fragment u\<rparr>)"
proof (cases "u_path u = no_path")
  case True
  then show ?thesis using loop_query [OF assms(2,3) v(2,3), of ip4 ip6 seen] v(1) by (simp add: no_path_def)
next
  case False
  let ?p = "u_path u" and ?rest = "query_text u @ fragment_text u"
  have p: "p_segments ?p \<noteq> []" "list_all plain_segment (p_segments ?p)" "slash_at_start ?p"
      "p_path ?p = p_component ?p" and comp: "p_component ?p = CHR ''/'' # join_slash (p_segments ?p) @ tail_slash (slash_at_end ?p)"
    using assms(1) False by (auto simp: plain_path_def segments_to_path_def)
  have chars: "list_all path_char (p_component ?p)" using comp join_slash_chars [OF p(2)] by (auto simp: path_char_def)
  obtain c cs where c: "join_slash (p_segments ?p) = c # cs" "c \<noteq> CHR ''/''" using join_slash_first [OF p(1,2)] by blast
  have "takeWhile (\<lambda>c. c \<noteq> CHR ''?'' \<and> c \<noteq> CHR ''#'') (p_component ?p @ ?rest) = p_component ?p"
    by (rule takeWhile_until)
      (use kept_without [OF chars not_kept(6)] kept_without [OF chars not_kept(7)] in
        \<open>auto simp: list_all_iff query_text_def fragment_text_def\<close>)
  moreover have "path_valid (p_component ?p)"
    using comp valid_segments [OF p(1,2), of "Some CHR ''/''" "slash_at_end ?p"]
    by (simp add: path_valid_def uri_unreserved_character_def uri_subcomponent_delimiter_def is_alpha_def is_digit_def)
  moreover have "path_set (p_component ?p) no_path = Inr ?p"
  proof -
    have ends: "last (p_component ?p) = CHR ''/'' \<longleftrightarrow> slash_at_end ?p" "p_component ?p \<noteq> []" "hd (p_component ?p) = CHR ''/''"
        "path_loop True (tl (p_component ?p)) [] = p_segments ?p"
      using comp join_slash_last [OF p(1,2)] path_loop_segments [OF p(1,2), of True "slash_at_end ?p" "[]"] by auto
    have "segments_to_path (p_segments ?p) True (slash_at_end ?p) = p_component ?p"
      using comp p(1) by (simp add: segments_to_path_def)
    with ends p decode_keep [OF chars] show ?thesis
      by (auto simp: path_set_def path_decode_def no_path_def intro!: uri_path.equality)
  qed
  ultimately have "parse_step ip4 ip6 seen (p_component ?p @ ?rest) v = Inr (seen, ?rest, v\<lparr>u_path := ?p\<rparr>)"
    using comp c v(1) by (simp add: parse_step_def parse_path_def set_path_def Let_def)
  from parse_loop_step [OF _ this] show ?thesis
    using comp loop_query [OF assms(2,3), of "v\<lparr>u_path := ?p\<rparr>"] v by simp
qed

lemma plain_host_chars:
  assumes "plain_host h"
  shows "list_all host_char h" "is_regular_hostname h" "hd h \<noteq> CHR ''[''"
    "list_all (\<lambda>c. c \<noteq> CHR '':'' \<and> c \<noteq> CHR ''/'' \<and> c \<noteq> CHR ''?'' \<and> c \<noteq> CHR ''#'' \<and> c \<noteq> CHR ''@'') h" "h \<noteq> []"
proof -
  let ?ok = "\<lambda>c. uri_unreserved_character c \<or> uri_subcomponent_delimiter c"
  have ok: "list_all ?ok h" and ne: "h \<noteq> []" using assms by (auto simp: plain_host_def list_all_iff)
  have "\<not> ?ok CHR '':''" "\<not> ?ok CHR ''/''" "\<not> ?ok CHR ''?''" "\<not> ?ok CHR ''#''" "\<not> ?ok CHR ''@''" "\<not> ?ok CHR ''[''"
    by code_simp+
  note no = kept_without [OF ok this(1)] kept_without [OF ok this(2)] kept_without [OF ok this(3)]
    kept_without [OF ok this(4)] kept_without [OF ok this(5)] kept_without [OF ok this(6)]
  show "list_all host_char h" using ok by (auto simp: list_all_iff host_char_def)
  show "is_regular_hostname h" using ok ne by (simp add: is_regular_hostname_def valid_keep)
  show "hd h \<noteq> CHR ''[''" using no(6) ne by (cases h) auto
  show "list_all (\<lambda>c. c \<noteq> CHR '':'' \<and> c \<noteq> CHR ''/'' \<and> c \<noteq> CHR ''?'' \<and> c \<noteq> CHR ''#'' \<and> c \<noteq> CHR ''@'') h"
    using no by (simp add: list_all_iff)
  show "h \<noteq> []" by fact
qed

lemma port_chars:
  assumes "port_valid port = Inr True"
  shows "list_all (\<lambda>c. c \<noteq> CHR ''/'' \<and> c \<noteq> CHR ''?'' \<and> c \<noteq> CHR ''#'' \<and> c \<noteq> CHR ''@'') port"
proof -
  have d: "list_all is_digit port" using assms by (auto simp: port_valid_def split: if_splits)
  have "\<not> is_digit CHR ''/''" "\<not> is_digit CHR ''?''" "\<not> is_digit CHR ''#''" "\<not> is_digit CHR ''@''" by code_simp+
  note no = kept_without [OF d this(1)] kept_without [OF d this(2)] kept_without [OF d this(3)] kept_without [OF d this(4)]
  then show ?thesis by (simp add: list_all_iff)
qed

abbreviation host_port :: "uri \<Rightarrow> string" where
  "host_port u \<equiv> u_host u @ (if u_port u \<noteq> [] then '':'' @ u_port u else [])"

lemma host_port_chars:
  assumes "plain_host (u_host u)" "u_port u = [] \<or> port_valid (u_port u) = Inr True"
  shows "list_all (\<lambda>c. c \<noteq> CHR ''/'' \<and> c \<noteq> CHR ''?'' \<and> c \<noteq> CHR ''#'' \<and> c \<noteq> CHR ''@'') (host_port u)"
  using plain_host_chars(4) [OF assms(1)] port_chars [of "u_port u"] assms(2) by (auto simp: list_all_iff)

lemma parse_userinfo_text:
  assumes "plain_uri u" "u_userinfo v = []"
  shows "parse_userinfo (authority_text u) v = Inr (host_port u, v\<lparr>u_userinfo := u_userinfo u\<rparr>)"
proof -
  have no: "CHR ''@'' \<notin> set (host_port u)" 
    by (rule list_all_notin [OF host_port_chars]) (use assms(1) in \<open>simp_all add: plain_uri_def\<close>)
  show ?thesis
  proof (cases "u_userinfo u = []")
    case True
    then show ?thesis using no assms(2) by (auto simp: parse_userinfo_def authority_text_def)
  next
    case False
    have ui: "list_all userinfo_char (u_userinfo u)" using assms(1) by (simp add: plain_uri_def)
    have "takeWhile (\<lambda>c. c \<noteq> CHR ''@'') (u_userinfo u @ ''@'' @ host_port u) = u_userinfo u"
      by (rule takeWhile_until) (use kept_without [OF ui not_kept(2)] in auto)
    then show ?thesis using False ui
      by (simp add: parse_userinfo_def authority_text_def userinfo_valid_def valid_keep set_userinfo_def
          userinfo_decode_def decode_keep Let_def)
  qed
qed

lemma parse_host_text:
  assumes "plain_uri u"
  shows "parse_host (host_port u) = Inr (u_host u, if u_port u \<noteq> [] then '':'' @ u_port u else [])"
proof -
  note h = plain_host_chars [of "u_host u"]
  have ph: "plain_host (u_host u)" using assms by (simp add: plain_uri_def)
  have "takeWhile (\<lambda>c. c \<noteq> CHR '':'' \<and> c \<noteq> CHR ''/'') (host_port u) = u_host u"
    by (rule takeWhile_until) (use h(4) [OF ph] in \<open>auto simp: list_all_iff\<close>)
  then show ?thesis using h(3,5) [OF ph] by (simp add: parse_host_def Let_def)
qed

lemma loop_authority:
  assumes u: "plain_uri u" and v: "v = empty_uri\<lparr>u_scheme := u_scheme u\<rparr>"
  shows "uri_parse_loop ip4 ip6 seen
    (''//'' @ authority_text u @ p_component (u_path u) @ query_text u @ fragment_text u) v = Inr u"
proof -
  let ?rest = "p_component (u_path u) @ query_text u @ fragment_text u"
  have ph: "plain_host (u_host u)" "u_port u = [] \<or> port_valid (u_port u) = Inr True"
    "list_all userinfo_char (u_userinfo u)" "plain_path (u_path u)" using u by (auto simp: plain_uri_def)
  have no: "list_all (\<lambda>c. c \<notin> set ''/?#'') (authority_text u)"
  proof -
    have "list_all (\<lambda>c. c \<notin> set ''/?#'') (host_port u)"
      by (rule list.pred_mono_strong [OF host_port_chars [OF ph(1,2)]]) simp
    moreover have "list_all (\<lambda>c. c \<notin> set ''/?#'') (u_userinfo u)"
      using kept_without [OF ph(3) not_kept(3)] kept_without [OF ph(3) not_kept(4)] kept_without [OF ph(3) not_kept(5)]
      by (simp add: list_all_iff)
    ultimately show ?thesis unfolding authority_text_def by simp
  qed
  have "?rest = [] \<or> hd ?rest \<in> set ''/?#''"
    using ph(4) by (auto simp: plain_path_def segments_to_path_def no_path_def query_text_def fragment_text_def)
  then have auth: "takeWhile (\<lambda>c. c \<notin> set ''/?#'') (authority_text u @ ?rest) = authority_text u"
    by (intro takeWhile_until [OF no]) auto
  let ?w = "v\<lparr>u_userinfo := u_userinfo u, u_host := u_host u\<rparr>"
  have host: "set_host ip4 ip6 (u_host u) (v\<lparr>u_userinfo := u_userinfo u\<rparr>) = Inr ?w"
    using plain_host_chars [OF ph(1)] by (simp add: set_host_def host_valid_def host_decode_def decode_keep)
  have "parse_authority ip4 ip6 (''//'' @ authority_text u @ ?rest) v = Inr (?rest, ?w\<lparr>u_port := u_port u\<rparr>)"
    using auth host ph(2) parse_userinfo_text [OF u, of v] parse_host_text [OF u] v
    by (auto simp: parse_authority_def Let_def set_port_def empty_uri_def)
  then have "parse_step ip4 ip6 seen (''//'' @ authority_text u @ ?rest) v = Inr (seen, ?rest, ?w\<lparr>u_port := u_port u\<rparr>)"
    by (simp add: parse_step_def)
  from parse_loop_step [OF _ this] loop_path [OF ph(4), of "?w\<lparr>u_port := u_port u\<rparr>" ip4 ip6 seen] u v
  show ?thesis by (auto simp: plain_uri_def empty_uri_def intro!: uri.equality)
qed

lemma uri_str_plain:
  assumes "plain_uri u"
  shows "uri_str u = u_scheme u @ '':'' @ ''//'' @ authority_text u @ p_component (u_path u) @ query_text u @ fragment_text u"
proof -
  have "map to_lower (u_scheme u) = u_scheme u" using assms by (simp add: plain_uri_def list_all_iff map_idI)
  moreover have "host_encode h = h" if "list_all (\<lambda>c. (uri_unreserved_character c \<or> uri_subcomponent_delimiter c) \<and> to_lower c = c) h" for h
    using that by (induction h) (auto simp: host_encode_def host_char_def)
  then have "host_encode (u_host u) = u_host u" using assms by (simp add: plain_uri_def plain_host_def)
  moreover have "userinfo_encode (u_userinfo u) = u_userinfo u" "component_encode (u_query u) = u_query u"
      "component_encode (u_fragment u) = u_fragment u"
    using assms by (simp_all add: plain_uri_def userinfo_encode_def component_encode_def encode_keep)
  moreover have "path_encode (p_component (u_path u)) = p_component (u_path u)"
  proof (cases "u_path u = no_path")
    case False
    then have "list_all path_char (p_component (u_path u))"
      using assms join_slash_chars [of "p_segments (u_path u)"]
      by (auto simp: plain_uri_def plain_path_def segments_to_path_def path_char_def)
    then show ?thesis by (simp add: path_encode_def encode_keep)
  qed (simp add: no_path_def path_encode_def encode_with_def)
  moreover have "u_scheme u \<noteq> []" "u_host u \<noteq> []"
    using assms by (auto simp: plain_uri_def plain_host_def scheme_valid_def)
  ultimately show ?thesis
    by (simp add: uri_str_def scheme_encode_def authority_text_def query_text_def fragment_text_def)
qed

lemma scheme_chars:
  assumes "scheme_valid s"
  shows "list_all (\<lambda>c. c \<noteq> CHR '':'' \<and> c \<noteq> CHR ''/'' \<and> c \<noteq> CHR ''?'' \<and> c \<noteq> CHR ''#'') s" "s \<noteq> []"
proof -
  have ok: "list_all scheme_char s" "s \<noteq> []" using assms by (auto simp: scheme_valid_def scheme_char_def split: list.splits)
  have "\<not> scheme_char CHR '':''" "\<not> scheme_char CHR ''/''" "\<not> scheme_char CHR ''?''" "\<not> scheme_char CHR ''#''" by code_simp+
  note no = kept_without [OF ok(1) this(1)] kept_without [OF ok(1) this(2)] kept_without [OF ok(1) this(3)]
    kept_without [OF ok(1) this(4)]
  then show "list_all (\<lambda>c. c \<noteq> CHR '':'' \<and> c \<noteq> CHR ''/'' \<and> c \<noteq> CHR ''?'' \<and> c \<noteq> CHR ''#'') s" by (simp add: list_all_iff)
qed (use assms in \<open>auto simp: scheme_valid_def\<close>)

lemma plain_uri_parses:
  assumes "plain_uri u"
  shows "uri_parse ip4 ip6 (uri_str u) = Inr u"
proof -
  let ?rest = "''//'' @ authority_text u @ p_component (u_path u) @ query_text u @ fragment_text u"
  have sv: "scheme_valid (u_scheme u)" using assms by (simp add: plain_uri_def)
  note sc = scheme_chars [OF sv]
  have tw: "takeWhile (\<lambda>c. c \<noteq> CHR '':'') (u_scheme u @ '':'' @ ?rest) = u_scheme u"
    by (rule takeWhile_until) (use sc in \<open>auto simp: list_all_iff\<close>)
  have "dropWhile (\<lambda>c. c \<noteq> CHR '':'' \<and> c \<noteq> CHR ''/'') (u_scheme u @ '':'' @ ?rest) = '':'' @ ?rest"
    using sc(1) by (subst dropWhile_append2) (auto simp: list_all_iff)
  then have "starts_with_scheme (u_scheme u @ '':'' @ ?rest)" by (simp add: starts_with_scheme_def)
  moreover have "parse_scheme (u_scheme u @ '':'' @ ?rest) empty_uri = Inr (?rest, empty_uri\<lparr>u_scheme := u_scheme u\<rparr>)"
    using tw sv by (simp add: parse_scheme_def set_scheme_def Let_def)
  moreover have "hd (u_scheme u) \<notin> {CHR ''/'', CHR ''?'', CHR ''#''}" using sc by (cases "u_scheme u") auto
  ultimately have "parse_step ip4 ip6 False (u_scheme u @ '':'' @ ?rest) empty_uri =
      Inr (True, ?rest, empty_uri\<lparr>u_scheme := u_scheme u\<rparr>)"
    using sc(2) by (simp add: parse_step_def Let_def)
  from parse_loop_step [OF _ this] loop_authority [OF assms refl, of ip4 ip6 True] uri_str_plain [OF assms]
  show ?thesis by (simp add: uri_parse_def)
qed

text \<open>
  C22: a URI with a scheme and a registered host name in lower case, no characters that need percent
  encoding, and an absolute path without dot segments or none, prints to a text that parses back to
  the same URI, whatever \<^verbatim>\<open>inet_pton\<close> says about addresses.
\<close>

theorem uri_print_parse:
  assumes "plain_uri u"
  shows "uri_parse ip4 ip6 (uri_str u) = Inr u"
  using assms by (rule plain_uri_parses)

theorem uri_print_parse_witness:
  "uri_parse (\<lambda>_. False) (\<lambda>_. False) (uri_str
     (empty_uri\<lparr>u_scheme := ''http'', u_userinfo := ''me'', u_host := ''example.com'', u_port := ''8042'',
       u_path := \<lparr>p_component = ''/a/b/'', p_path = ''/a/b/'', p_segments = [''a'', ''b''], slash_at_start = True, slash_at_end = True\<rparr>,
       u_query := ''k=v'', u_fragment := ''top''\<rparr>)) =
   Inr (empty_uri\<lparr>u_scheme := ''http'', u_userinfo := ''me'', u_host := ''example.com'', u_port := ''8042'',
       u_path := \<lparr>p_component = ''/a/b/'', p_path = ''/a/b/'', p_segments = [''a'', ''b''], slash_at_start = True, slash_at_end = True\<rparr>,
       u_query := ''k=v'', u_fragment := ''top''\<rparr>)"
  by (rule uri_print_parse) code_simp

text \<open>
  percent encoding writes the code of a character in decimal, so a space becomes \<^verbatim>\<open>%32\<close>, which
  decodes to the digit 2: a URI with an encoded character does not survive printing and parsing.
\<close>

lemma encode_in_decimal:
  "component_encode '' '' = ''%32'' \<and> component_decode ''%32'' = Inr ''2'' \<and>
   map_sum id uri_str (uri_parse (\<lambda>_. False) (\<lambda>_. False) ''http://a/b%20c'') = Inr ''http://a/b%32c''"
  by code_simp

text \<open>
  The segments of a base path are already decoded when \<open>uri_merge\<close> joins them and decodes the
  result again: a base path with an encoded space makes the merge fail, and an encoded percent sign
  is decoded twice. The copy constructor of a path has the same defect.
\<close>

lemma merge_decodes_twice:
  "rbind (uri_parse (\<lambda>_. False) (\<lambda>_. False) ''http://h/a%20b/c'') (\<lambda>base.
     rbind (uri_parse (\<lambda>_. False) (\<lambda>_. False) ''d'') (uri_merge base)) = Inl BadUri \<and>
   map_sum id (p_segments \<circ> u_path) (rbind (uri_parse (\<lambda>_. False) (\<lambda>_. False) ''http://h/a%2541/c'') (\<lambda>base.
     rbind (uri_parse (\<lambda>_. False) (\<lambda>_. False) ''d'') (uri_merge base))) = Inr [''aA'', ''d''] \<and>
   map_sum id p_component (rbind (path_set ''/a%2541'' no_path) path_copy) = Inr ''/aA'' \<and>
   rbind (path_set ''/a%20b'' no_path) path_copy = Inl BadUri"
  by code_simp

end
