(* ===== verification/Http_Scanner.thy ===== *)
theory Http_Scanner
  imports Http_Uri
begin

text \<open>
  The scanner of HTTP messages (\<^verbatim>\<open>include/common/scanner.h\<close>, \<^verbatim>\<open>src/common/scanner.cpp\<close>): a cursor
  into a string with an end position. A reader returns its answer, the text it appended to its
  output argument and the scanner it leaves; where the source throws, the result is an error.
  The scanners here satisfy \<open>s_len \<le> length s_str\<close>, which both constructors give.
\<close>

section \<open>The cursor\<close>

record scanner =
  s_cur :: nat
  s_len :: nat
  s_str :: string

definition new_scanner :: "string \<Rightarrow> scanner" where
  "new_scanner s = \<lparr>s_cur = 0, s_len = length s, s_str = s\<rparr>"

definition new_scanner_at :: "string \<Rightarrow> nat \<Rightarrow> nat \<Rightarrow> scanner" where
  "new_scanner_at s start len = \<lparr>s_cur = start, s_len = len, s_str = s\<rparr>"

definition sget :: "scanner \<Rightarrow> int \<times> scanner" where
  "sget s = (if s_cur s < s_len s then (to_int (s_str s ! s_cur s), s\<lparr>s_cur := s_cur s + 1\<rparr>) else (-1, s))"

definition unget :: "scanner \<Rightarrow> scanner" where
  "unget s = (if s_cur s < s_len s then s\<lparr>s_cur := s_cur s - 1\<rparr> else s)"

definition peek :: "scanner \<Rightarrow> int" where
  "peek s = (if s_cur s < s_len s then to_int (s_str s ! s_cur s) else -1)"

text \<open>\<^verbatim>\<open>push_back(c)\<close> keeps the low eight bits.\<close>

definition push_char :: "int \<Rightarrow> char" where
  "push_char c = mk (nat (c mod 256))"

text \<open>
  \<^verbatim>\<open>while (P(c = get())) ...; unget();\<close>, the loop all readers of a class of characters share: the
  text read and the scanner after the unget. The end of input, -1, is in none of the classes.
\<close>

lemma sget_forward: "sget s = (c, s') \<Longrightarrow> c \<noteq> -1 \<Longrightarrow> s_len s' - s_cur s' < s_len s - s_cur s"
  by (auto simp: sget_def split: if_splits)

function read_class :: "(int \<Rightarrow> bool) \<Rightarrow> string \<Rightarrow> scanner \<Rightarrow> string \<times> scanner" where
  "read_class P out s =
     (let (c, s') = sget s
      in if c \<noteq> -1 \<and> P c then read_class P (out @ [push_char c]) s' else (out, unget s'))"
  by pat_completeness auto

termination read_class
  by (relation "measure (\<lambda>(_, _, s). s_len s - s_cur s)") (auto dest: sget_forward [OF sym] sget_forward)

declare read_class.simps [simp del]

section \<open>Readers\<close>

definition read_space :: "scanner \<Rightarrow> bool \<times> scanner" where
  "read_space s = (let (sp, s) = read_class is_whitespace [] s in (sp \<noteq> [], s))"

definition read_opt_space :: "scanner \<Rightarrow> scanner" where
  "read_opt_space s = snd (read_class is_whitespace [] s)"

definition read_special :: "int \<Rightarrow> scanner \<Rightarrow> bool \<times> scanner" where
  "read_special c0 s = (let (c, s) = sget s in if c \<noteq> c0 then (False, unget s) else (True, s))"

definition read_crlf :: "scanner \<Rightarrow> bool \<times> scanner" where
  "read_crlf s =
     (let (c, s) = sget s
      in if c = -1 \<or> c = 0x0A then (True, s)
         else if c = 0x0D then
           (let (c, s) = sget s in (True, if c \<noteq> 0x0A then unget s else s))
         else (False, unget s))"

definition read_token :: "bool \<Rightarrow> scanner \<Rightarrow> bool \<times> string \<times> scanner" where
  "read_token lower s =
     (let (tok, s) = read_class is_tchar [] s
      in (tok \<noteq> [], if lower then map to_lower tok else tok, s))"

definition uri_text_char :: "int \<Rightarrow> bool" where
  "uri_text_char c \<longleftrightarrow> 0 \<le> c \<and>
     (uri_reserved_character (push_char c) \<or> uri_unreserved_character (push_char c) \<or> push_char c = CHR ''%'')"

text \<open>The text of a URI is parsed on the spot, only to raise an error when it is malformed.\<close>

definition read_uri :: "(string \<Rightarrow> bool) \<Rightarrow> (string \<Rightarrow> bool) \<Rightarrow> scanner \<Rightarrow> (bool \<times> string \<times> scanner) http" where
  "read_uri ip4 ip6 s =
     (let (u, s) = read_class uri_text_char [] s
      in if u = [] then Inr (False, [], s)
         else rbind (uri_parse ip4 ip6 u) (\<lambda>_. Inr (True, u, s)))"

definition read_version :: "scanner \<Rightarrow> bool \<times> string \<times> scanner" where
  "read_version s = (let (v, s) = read_class (\<lambda>c. is_tchar c \<or> c = 0x2F) [] s in (v \<noteq> [], v, s))"

definition read_status :: "scanner \<Rightarrow> bool \<times> string \<times> scanner" where
  "read_status s = (let (st, s) = read_class (\<lambda>c. 48 \<le> c \<and> c \<le> 57) [] s in (length st = 3, st, s))"

definition read_reason :: "scanner \<Rightarrow> bool \<times> string \<times> scanner" where
  "read_reason s =
     (let (r, s) = read_class (\<lambda>c. is_whitespace c \<or> is_vchar c \<or> is_opaque c) [] s;
          reason = trim r
      in (reason \<noteq> [], reason, s))"

text \<open>
  The body of a quoted string or a comment after its opening character: up to the closing
  character, with backslash escapes.
\<close>

function read_delimited :: "int \<Rightarrow> (int \<Rightarrow> bool) \<Rightarrow> string \<Rightarrow> scanner \<Rightarrow> (string \<times> scanner) http" where
  "read_delimited close ok out s =
     (let (c, s1) = sget s
      in if c = -1 then Inl InvalidArgument_h
         else if c = close then Inr (out @ [push_char c], s1)
         else if c = 0x5C then
           (let (d, s2) = sget s1
            in if d \<noteq> -1 \<and> is_escaped d then read_delimited close ok (out @ [push_char c, push_char d]) s2
               else Inl InvalidArgument_h)
         else if ok c then read_delimited close ok (out @ [push_char c]) s1
         else Inl InvalidArgument_h)"
  by pat_completeness auto

termination read_delimited
  by (relation "measure (\<lambda>(_, _, _, s). s_len s - s_cur s)")
    (auto dest!: sget_forward [OF sym] sget_forward)

declare read_delimited.simps [simp del]

definition read_qstring :: "scanner \<Rightarrow> (bool \<times> string \<times> scanner) http" where
  "read_qstring s =
     (let (c, s) = sget s
      in if c \<noteq> 0x22 then Inr (False, [], unget s)
         else rbind (read_delimited 0x22 is_quoted [push_char c] s) (\<lambda>(q, s). Inr (True, q, s)))"

definition read_comments :: "scanner \<Rightarrow> (bool \<times> string \<times> scanner) http" where
  "read_comments s =
     (let (c, s) = sget s
      in if c \<noteq> 0x28 then Inr (False, [], unget s)
         else rbind (read_delimited 0x29 is_commented [push_char c] s) (\<lambda>(q, s). Inr (True, q, s)))"

text \<open>Parameters: a vector of names and values; the loop ends with an error or after a value that no semicolon follows.\<close>

definition read_parameter :: "scanner \<Rightarrow> ((string \<times> string) \<times> scanner) http" where
  "read_parameter s =
     (let (found, name, s) = read_token True s
      in if \<not> found then Inl InvalidArgument_h
         else
           let (eq, s) = read_special 0x3D (read_opt_space s)
           in if \<not> eq then Inl InvalidArgument_h
              else
                let s = read_opt_space s; c = peek s
                in if c = 0x22 then rbind (read_qstring s) (\<lambda>(_, v, s). Inr ((name, v), s))
                   else if is_tchar c then (let (_, v, s) = read_token False s in Inr ((name, v), s))
                   else Inl InvalidArgument_h)"

text \<open>No reader moves the cursor back.\<close>

definition forward :: "scanner \<Rightarrow> scanner \<Rightarrow> bool" where
  "forward s s' \<longleftrightarrow> s_len s' = s_len s \<and> s_cur s \<le> s_cur s'"

lemma forward_trans [trans]: "forward s t \<Longrightarrow> forward t u \<Longrightarrow> forward s u"
  by (simp add: forward_def)

lemma forward_sget: "sget s = (c, s') \<Longrightarrow> forward s s' \<and> forward s (unget s')"
  by (auto simp: forward_def sget_def unget_def split: if_splits)

lemma forward_read_class: "forward s (snd (read_class P out s))"
proof (induction P out s rule: read_class.induct)
  case (1 P out s)
  obtain c s' where c: "sget s = (c, s')" by (cases "sget s")
  with 1 [OF c [symmetric]] forward_sget [OF c] show ?case
    by (subst read_class.simps) (auto intro: forward_trans)
qed

lemma forward_read_delimited: "read_delimited close ok out s = Inr (q, s') \<Longrightarrow> forward s s'"
proof (induction close ok out s rule: read_delimited.induct)
  case (1 close ok out s)
  obtain c s1 where c: "sget s = (c, s1)" by (cases "sget s")
  obtain d s2 where d: "sget s1 = (d, s2)" by (cases "sget s1")
  have f: "forward s s1" "forward s1 s2" using forward_sget c d by blast+
  then have f2: "forward s s2" by (rule forward_trans)
  from 1(3) c d f f2 1(1) [OF c [symmetric] refl _ _ _ d [symmetric] refl] 1(2) [OF c [symmetric] refl] show ?case
    by (subst (asm) read_delimited.simps) (auto split: if_splits intro: forward_trans)
qed

lemma forward_opt_space: "forward s (read_opt_space s)"
  by (simp add: read_opt_space_def forward_read_class)

lemma forward_read_token: "read_token lower s = (b, t, s') \<Longrightarrow> forward s s'"
  using forward_read_class [of s is_tchar "[]"] by (auto simp: read_token_def Let_def split: prod.splits)

lemma forward_read_special:
  "read_special c s = (b, s') \<Longrightarrow> forward s s' \<and> (b \<longrightarrow> c \<noteq> -1 \<longrightarrow> s_len s' - s_cur s' < s_len s - s_cur s)"
  by (cases "sget s") (auto simp: read_special_def dest: forward_sget sget_forward split: if_splits)

lemma forward_read_qstring: "read_qstring s = Inr (b, q, s') \<Longrightarrow> forward s s'"
  by (cases "sget s")
    (auto simp: read_qstring_def rbind_Inr dest!: forward_sget forward_read_delimited intro: forward_trans split: if_splits)

lemma forward_read_parameter: "read_parameter s = Inr (p, s') \<Longrightarrow> forward s s'"
  unfolding read_parameter_def
  by (auto simp: Let_def rbind_Inr dest!: forward_read_token forward_read_special forward_read_qstring
      split: prod.splits if_splits) (meson forward_trans forward_opt_space)+

function read_parameters_loop :: "(string \<times> string) list \<Rightarrow> scanner \<Rightarrow> ((string \<times> string) list \<times> scanner) http" where
  "read_parameters_loop pvec s =
     (case read_parameter s of
        Inl e \<Rightarrow> Inl e
      | Inr (p, s1) \<Rightarrow>
          (case read_special 0x3B (read_opt_space s1) of
             (again, s2) \<Rightarrow> if again then read_parameters_loop (pvec @ [p]) s2 else Inr (pvec @ [p], s2)))"
  by pat_completeness auto

lemma read_parameter_progress:
  assumes "read_parameter s = Inr (p, s1)" "read_special 0x3B (read_opt_space s1) = (True, s2)"
  shows "s_len s2 - s_cur s2 < s_len s - s_cur s"
proof -
  have "forward s (read_opt_space s1)"
    using forward_read_parameter [OF assms(1)] forward_opt_space by (rule forward_trans)
  moreover have "s_len s2 - s_cur s2 < s_len (read_opt_space s1) - s_cur (read_opt_space s1)"
    using forward_read_special [OF assms(2)] by simp
  ultimately show ?thesis by (auto simp: forward_def)
qed

termination read_parameters_loop
  by (relation "measure (\<lambda>(_, s). s_len s - s_cur s)") (auto dest: read_parameter_progress [OF _ sym])

declare read_parameters_loop.simps [simp del]

definition read_parameters :: "scanner \<Rightarrow> (bool \<times> (string \<times> string) list \<times> scanner) http" where
  "read_parameters s =
     rbind (read_parameters_loop [] s) (\<lambda>(pvec, s). Inr (pvec \<noteq> [], pvec, s))"

definition is_xdigit_int :: "int \<Rightarrow> bool" where
  "is_xdigit_int c \<longleftrightarrow> (48 \<le> c \<and> c \<le> 57) \<or> (65 \<le> c \<and> c \<le> 70) \<or> (97 \<le> c \<and> c \<le> 102)"

definition hex_value :: "string \<Rightarrow> int" where
  "hex_value ds = fold (\<lambda>d n. 16 * n + int (xdigit_value d)) ds 0"

text \<open>\<^verbatim>\<open>std::stoll(hex, 0, 16)\<close> throws beyond the range of a signed 64-bit number.\<close>

definition read_chunk_size :: "scanner \<Rightarrow> (int option \<times> scanner) http" where
  "read_chunk_size s =
     (let (hex, s) = read_class is_xdigit_int [] s
      in if hex = [] then Inr (None, s)
         else if hex_value hex \<ge> 2 ^ 63 then Inl OutOfRange_h
         else Inr (Some (hex_value hex), s))"

text \<open>Everything up to the end of input (or a character 255, which reads as -1).\<close>

function read_rest :: "(int \<Rightarrow> bool) \<Rightarrow> string \<Rightarrow> scanner \<Rightarrow> string \<times> int \<times> scanner" where
  "read_rest stop out s =
     (let (c, s') = sget s
      in if c = -1 \<or> stop c then (out, c, s') else read_rest stop (out @ [push_char c]) s')"
  by pat_completeness auto

termination read_rest
  by (relation "measure (\<lambda>(_, _, s). s_len s - s_cur s)") (auto dest: sget_forward [OF sym] sget_forward)

declare read_rest.simps [simp del]

definition any_segment :: string where
  "any_segment = ''[^/]+''"

definition read_path_parameter :: "scanner \<Rightarrow> bool \<times> string \<times> string \<times> scanner" where
  "read_path_parameter s =
     (let (found, name, s) = read_token True (read_opt_space s)
      in if \<not> found then (False, name, [], s)
         else
           let (eq, s) = read_special 0x3D (read_opt_space s);
               (l, s) = (if eq then (let (l, _, s) = read_rest (\<lambda>_. False) [] (read_opt_space s) in (l, s)) else ([], s));
               v = trim l
           in (True, name, if v = [] then any_segment else v, s))"

definition read_all :: "scanner \<Rightarrow> string \<times> scanner" where
  "read_all s =
     (let (l, c, s) = read_rest (\<lambda>c. c = 0x0D \<or> c = 0x0A) [] s
      in (trim l, if c = -1 then s else unget s))"

section \<open>Reading a known text\<close>

text \<open>A scanner of the whole of a string, standing before the text \<open>rest\<close>.\<close>

definition at :: "scanner \<Rightarrow> string \<Rightarrow> bool" where
  "at s rest \<longleftrightarrow> s_len s = length (s_str s) \<and> s_cur s \<le> s_len s \<and> drop (s_cur s) (s_str s) = rest"

lemma at_new [simp]: "at (new_scanner s) s"
  by (simp add: at_def new_scanner_def)

lemma sget_at:
  assumes "at s (c # rest)"
  shows "\<exists>s'. sget s = (to_int c, s') \<and> at s' rest \<and> (rest \<noteq> [] \<longrightarrow> at (unget s') (c # rest))"
proof -
  have lt: "s_cur s < length (s_str s)"
  proof (rule ccontr)
    assume "\<not> s_cur s < length (s_str s)"
    with assms show False by (simp add: at_def)
  qed
  have n: "s_str s ! s_cur s = c" "drop (Suc (s_cur s)) (s_str s) = rest"
    using assms Cons_nth_drop_Suc [OF lt] by (auto simp: at_def)
  have "rest \<noteq> [] \<longrightarrow> Suc (s_cur s) < length (s_str s)" using n(2) lt by auto
  with n lt assms show ?thesis
    by (intro exI [of _ "s\<lparr>s_cur := s_cur s + 1\<rparr>"]) (simp add: sget_def at_def unget_def)
qed

lemma sget_end: "at s [] \<Longrightarrow> sget s = (-1, s) \<and> unget s = s"
  by (auto simp: at_def sget_def unget_def)

lemma push_to_int: "push_char (to_int c) = c"
proof (cases "ch c < 128")
  case False
  have "(int (ch c) - 256) mod 256 = int (ch c)"
    using ch_less [of c] by (simp add: mod_diff_right_eq [symmetric])
  with False show ?thesis by (simp add: push_char_def to_int_def)
qed (simp add: push_char_def to_int_def)

text \<open>
  A run of characters of a class, followed by a character outside it that is not the last one:
  only then does \<open>unget\<close> put the character back.
\<close>

lemma read_class_at:
  assumes "at s (xs @ d # rest)" "\<forall>x\<in>set xs. to_int x \<noteq> -1 \<and> P (to_int x)" "\<not> P (to_int d)" "rest \<noteq> []"
  shows "\<exists>s'. read_class P out s = (out @ xs, s') \<and> at s' (d # rest)"
  using assms(1,2)
proof (induction xs arbitrary: s out)
  case Nil
  then obtain s' where "sget s = (to_int d, s')" "at (unget s') (d # rest)" using sget_at assms(4) by fastforce
  with assms(3) show ?case by (subst read_class.simps) simp
next
  case (Cons x xs)
  then obtain s' where s': "sget s = (to_int x, s')" "at s' (xs @ d # rest)" using sget_at by fastforce
  with Cons.IH [OF s'(2), of "out @ [x]"] Cons.prems(2) show ?case
    by (subst read_class.simps) (simp add: push_to_int)
qed

end
