(* ===== verification/Http_Message.thy ===== *)
theory Http_Message
  imports Http_Scanner
begin

text \<open>
  HTTP messages: methods, versions and status codes (\<^verbatim>\<open>src/common/method.cpp\<close>, \<^verbatim>\<open>version.cpp\<close>,
  \<^verbatim>\<open>status.h\<close>), header values (\<^verbatim>\<open>hval.cpp\<close>), the header list (\<^verbatim>\<open>headers.cpp\<close>), the request and
  status lines (\<^verbatim>\<open>request.cpp\<close>, \<^verbatim>\<open>response.cpp\<close>) and the framing of a message (\<^verbatim>\<open>message.cpp\<close>).
  Dates are a type variable: parsing one (\<^verbatim>\<open>snf::datetime::get\<close>) is an argument.
\<close>

section \<open>Methods, versions, status codes\<close>

datatype method_type = M_GET | M_HEAD | M_POST | M_PUT | M_DELETE | M_CONNECT | M_OPTIONS | M_TRACE

definition method_str :: "method_type \<Rightarrow> string" where
  "method_str m = (case m of M_GET \<Rightarrow> ''GET'' | M_HEAD \<Rightarrow> ''HEAD'' | M_POST \<Rightarrow> ''POST'' | M_PUT \<Rightarrow> ''PUT''
     | M_DELETE \<Rightarrow> ''DELETE'' | M_CONNECT \<Rightarrow> ''CONNECT'' | M_OPTIONS \<Rightarrow> ''OPTIONS'' | M_TRACE \<Rightarrow> ''TRACE'')"

definition method_of :: "string \<Rightarrow> method_type http" where
  "method_of str =
     (if str = ''GET'' then Inr M_GET else if str = ''HEAD'' then Inr M_HEAD
      else if str = ''POST'' then Inr M_POST else if str = ''PUT'' then Inr M_PUT
      else if str = ''DELETE'' then Inr M_DELETE else if str = ''CONNECT'' then Inr M_CONNECT
      else if str = ''OPTIONS'' then Inr M_OPTIONS else if str = ''TRACE'' then Inr M_TRACE
      else Inl BadMessage)"

record version =
  v_protocol :: string
  v_major :: nat
  v_minor :: nat

definition http_protocol :: string where "http_protocol = ''HTTP''"
definition MAJOR_VERSION :: nat where "MAJOR_VERSION = 1"
definition MINOR_VERSION :: nat where "MINOR_VERSION = 1"

text \<open>A read past the last character of a string gives the terminating null.\<close>

definition char_at :: "string \<Rightarrow> nat \<Rightarrow> char" where
  "char_at s i = (if i < length s then s ! i else CHR 0x00)"

definition version_of :: "string \<Rightarrow> version http" where
  "version_of vstr =
     (let proto = (if CHR ''/'' \<in> set vstr then takeWhile (\<lambda>c. c \<noteq> CHR ''/'') vstr else []);
          idx = (if CHR ''/'' \<in> set vstr then length proto + 1 else 0)
      in if \<not> is_digit (char_at vstr idx) then Inl BadMessage
         else if char_at vstr (idx + 1) \<noteq> CHR ''.'' then Inl BadMessage
         else if \<not> is_digit (char_at vstr (idx + 2)) then Inl BadMessage
         else Inr \<lparr>v_protocol = proto, v_major = ch (char_at vstr idx) - 48, v_minor = ch (char_at vstr (idx + 2)) - 48\<rparr>)"

definition version_str :: "version \<Rightarrow> string" where
  "version_str v = (if v_protocol v \<noteq> [] then v_protocol v @ ''/'' else []) @ nat_str (v_major v) @ ''.'' @ nat_str (v_minor v)"

definition is_info_status :: "int \<Rightarrow> bool" where "is_info_status e \<longleftrightarrow> e \<ge> 100 \<and> e < 200"
definition is_success_status :: "int \<Rightarrow> bool" where "is_success_status e \<longleftrightarrow> e \<ge> 200 \<and> e < 300"

section \<open>Header values\<close>

type_synonym params = "(string \<times> string) list"

datatype htoken = HToken (tk_name: string) (tk_params: params)

record host_port_v =
  hp_host :: string
  hp_port :: nat

record media_type =
  mt_type :: string
  mt_subtype :: string
  mt_params :: params

record via =
  via_ver :: version
  via_url :: uri
  via_comments :: string

text \<open>\<^verbatim>\<open>std::stoull\<close> throws \<^verbatim>\<open>invalid_argument\<close> on an empty text and \<^verbatim>\<open>out_of_range\<close> beyond 64 bits.\<close>

definition parse_number :: "string \<Rightarrow> int http" where
  "parse_number istr =
     (if \<not> list_all is_digit istr then Inl BadMessage
      else if istr = [] then Inl InvalidArgument_h
      else if decimal_value istr \<ge> 2 ^ 64 then Inl OutOfRange_h
      else Inr (decimal_value istr))"

text \<open>The separator between two elements of a list: the scanner after it, or the end of the list.\<close>

definition next_element :: "scanner \<Rightarrow> scanner option" where
  "next_element s =
     (let (more_elements, s) = read_special 0x2C (read_opt_space s)
      in if more_elements then Some (read_opt_space s) else None)"

lemma next_element_progress: "next_element s = Some s' \<Longrightarrow> s_len s' = s_len s \<and> s_len s' - s_cur s' < s_len s - s_cur s"
proof -
  assume n: "next_element s = Some s'"
  then obtain s1 where s1: "read_special 0x2C (read_opt_space s) = (True, s1)" "s' = read_opt_space s1"
    by (auto simp: next_element_def split: prod.splits if_splits)
  have "forward s (read_opt_space s)" "forward s1 s'" using s1(2) forward_opt_space by blast+
  then show ?thesis using forward_read_special [OF s1(1)] by (auto simp: forward_def)
qed

text \<open>Lists of elements, each read by \<open>elem\<close>; the end of the list ends the loop.\<close>

definition forward_reader :: "(scanner \<Rightarrow> ('a \<times> scanner) http) \<Rightarrow> bool" where
  "forward_reader elem \<longleftrightarrow> (\<forall>s x s'. elem s = Inr (x, s') \<longrightarrow> forward s s')"

fun read_list :: "nat \<Rightarrow> (scanner \<Rightarrow> ('a \<times> scanner) http) \<Rightarrow> 'a list \<Rightarrow> scanner \<Rightarrow> 'a list http" where
  "read_list 0 elem xs s = Inl Undefined"
| "read_list (Suc n) elem xs s =
     rbind (elem s) (\<lambda>(x, s).
       case next_element s of
         None \<Rightarrow> Inr (xs @ [x])
       | Some s \<Rightarrow> read_list n elem (xs @ [x]) s)"

definition parse_list :: "(scanner \<Rightarrow> ('a \<times> scanner) http) \<Rightarrow> string \<Rightarrow> 'a list http" where
  "parse_list elem istr = (if istr = [] then Inr [] else read_list (length istr + 1) elem [] (new_scanner istr))"

definition string_element :: "scanner \<Rightarrow> (string \<times> scanner) http" where
  "string_element s = (let (found, t, s) = read_token True s in if found then Inr (t, s) else Inl BadMessage)"

definition token_element :: "scanner \<Rightarrow> (htoken \<times> scanner) http" where
  "token_element s =
     (let (found, name, s) = read_token True s
      in if \<not> found then Inl BadMessage
         else
           let (semi, s) = read_special 0x3B (read_opt_space s)
           in if semi then
                rbind (read_parameters s) (\<lambda>(ok, ps, s). if ok then Inr (HToken name ps, s) else Inl BadMessage)
              else Inr (HToken name [], s))"

definition parse_strings :: "string \<Rightarrow> string list http" where
  "parse_strings = parse_list string_element"

definition parse_tokens :: "string \<Rightarrow> htoken list http" where
  "parse_tokens = parse_list token_element"

definition as_bad_message :: "'a http \<Rightarrow> 'a http" where
  "as_bad_message r = (case r of Inl e \<Rightarrow> Inl (if e = BadUri then BadMessage else e) | Inr x \<Rightarrow> Inr x)"

definition parse_uri_value :: "(string \<Rightarrow> bool) \<Rightarrow> (string \<Rightarrow> bool) \<Rightarrow> string \<Rightarrow> uri http" where
  "parse_uri_value ip4 ip6 s = as_bad_message (uri_parse ip4 ip6 s)"

definition parse_host_port :: "(string \<Rightarrow> bool) \<Rightarrow> (string \<Rightarrow> bool) \<Rightarrow> string \<Rightarrow> host_port_v http" where
  "parse_host_port ip4 ip6 hoststr =
     rbind (as_bad_message (uri_parse ip4 ip6 (''http://'' @ hoststr))) (\<lambda>u.
       if u_host u = [] then Inl BadMessage
       else Inr \<lparr>hp_host = u_host u, hp_port = (if u_port u = [] then 0 else nat (decimal_value (u_port u)))\<rparr>)"

definition parse_media_type :: "string \<Rightarrow> media_type http" where
  "parse_media_type istr =
     (let (found, ty, s) = read_token True (new_scanner istr)
      in if \<not> found then Inl BadMessage
         else
           let (slash, s) = read_special 0x2F s
           in if \<not> slash then Inl BadMessage
              else
                let (found, sub, s) = read_token True s
                in if \<not> found then Inl BadMessage
                   else
                     let (semi, s) = read_special 0x3B (read_opt_space s)
                     in if semi then
                          rbind (read_parameters (read_opt_space s)) (\<lambda>(ok, ps, s).
                            if ok then Inr \<lparr>mt_type = ty, mt_subtype = sub, mt_params = ps\<rparr> else Inl BadMessage)
                        else Inr \<lparr>mt_type = ty, mt_subtype = sub, mt_params = []\<rparr>)"

definition via_element :: "(string \<Rightarrow> bool) \<Rightarrow> (string \<Rightarrow> bool) \<Rightarrow> scanner \<Rightarrow> (via \<times> scanner) http" where
  "via_element ip4 ip6 s =
     (let (found, vs, s) = read_version (read_opt_space s)
      in if \<not> found then Inl BadMessage
         else rbind (version_of vs) (\<lambda>v.
           let (sp, s) = read_space s
           in if \<not> sp then Inl BadMessage
              else rbind (read_uri ip4 ip6 s) (\<lambda>(found, us, s).
                if \<not> found then Inl BadMessage
                else rbind (uri_parse ip4 ip6 (''http://'' @ us)) (\<lambda>u.
                  rbind (read_comments (snd (read_space s))) (\<lambda>(_, cs, s).
                    Inr (\<lparr>via_ver = v, via_url = u, via_comments = cs\<rparr>, s))))))"

definition parse_via :: "(string \<Rightarrow> bool) \<Rightarrow> (string \<Rightarrow> bool) \<Rightarrow> string \<Rightarrow> via list http" where
  "parse_via ip4 ip6 = parse_list (via_element ip4 ip6)"

definition valid_connection :: "string \<Rightarrow> unit http" where
  "valid_connection c = (if c \<in> {''close'', ''keep-alive'', ''upgrade''} then Inr () else Inl NotImplemented)"

definition valid_encoding :: "string \<Rightarrow> unit http" where
  "valid_encoding c =
     (if c \<in> {''compress'', ''x-compress'', ''gzip'', ''x-gzip'', ''deflate''} then Inr () else Inl NotImplemented)"

definition valid_media_type :: "media_type \<Rightarrow> unit http" where
  "valid_media_type mt =
     (if mt_type mt = ''text'' then (if mt_subtype mt \<noteq> ''plain'' then Inl (StatusError 415) else Inr ())
      else if mt_type mt = ''application'' then (if mt_subtype mt \<noteq> ''json'' then Inl (StatusError 415) else Inr ())
      else Inl (StatusError 415))"

fun check_all :: "('a \<Rightarrow> unit http) \<Rightarrow> 'a list \<Rightarrow> unit http" where
  "check_all v [] = Inr ()"
| "check_all v (x # xs) = rbind (v x) (\<lambda>_. check_all v xs)"

text \<open>Any fuel beyond the number of characters left gives the same list.\<close>

lemma read_list_fuel:
  "forward_reader elem \<Longrightarrow> s_len s - s_cur s < m \<Longrightarrow> s_len s - s_cur s < n \<Longrightarrow> read_list m elem xs s = read_list n elem xs s"
proof (induction m elem xs s arbitrary: n rule: read_list.induct)
  case (2 m elem xs s)
  obtain n' where n: "n = Suc n'" using 2(4) by (cases n) auto
  show ?case
  proof (cases "elem s")
    case (Inr y)
    obtain x s1 where y: "y = (x, s1)" by (cases y)
    show ?thesis
    proof (cases "next_element s1")
      case (Some s2)
      have "forward s s1" using 2(2) Inr y by (auto simp: forward_reader_def)
      then have "s_len s2 - s_cur s2 < m" "s_len s2 - s_cur s2 < n'"
        using next_element_progress [OF Some] 2(3,4) n by (auto simp: forward_def)
      with 2(1) [OF Some 2(2), of n'] Inr y Some n show ?thesis by simp
    qed (use Inr y n in simp)
  qed (simp add: n)
qed simp

section \<open>The header list\<close>

datatype 'd hval =
    NumV int
  | TokSeq "htoken list"
  | StrSeq "string list"
  | HostV host_port_v
  | ViaSeq "via list"
  | CnxnSeq "string list"
  | MediaV media_type
  | CeSeq "string list"
  | UriV uri
  | DateV 'd

record 'd base_value =
  m_raw :: string
  m_value :: "'d hval"

type_synonym 'd headers = "(string \<times> 'd base_value) list"

definition is_seq :: "'d hval \<Rightarrow> bool" where
  "is_seq v = (case v of TokSeq _ \<Rightarrow> True | StrSeq _ \<Rightarrow> True | ViaSeq _ \<Rightarrow> True | CnxnSeq _ \<Rightarrow> True | CeSeq _ \<Rightarrow> True | _ \<Rightarrow> False)"

definition header_find :: "string \<Rightarrow> 'd headers \<Rightarrow> 'd base_value option" where
  "header_find name hs = map_of hs name"

text \<open>The constructors of the value classes: parse, then validate every element.\<close>

definition checked :: "('a \<Rightarrow> unit http) \<Rightarrow> 'a list http \<Rightarrow> 'a list http" where
  "checked v r = rbind r (\<lambda>xs. rbind (check_all v xs) (\<lambda>_. Inr xs))"

definition header_value :: "(string \<Rightarrow> bool) \<Rightarrow> (string \<Rightarrow> bool) \<Rightarrow> (string \<Rightarrow> 'd option) \<Rightarrow> string \<Rightarrow> string \<Rightarrow> 'd hval http" where
  "header_value ip4 ip6 pdate name value =
     (if name = ''content-length'' then rbind (parse_number value) (\<lambda>n. Inr (NumV n))
      else if name = ''transfer-encoding'' \<or> name = ''te'' then rbind (parse_tokens value) (\<lambda>ts. Inr (TokSeq ts))
      else if name = ''trailers'' then rbind (parse_strings value) (\<lambda>ss. Inr (StrSeq ss))
      else if name = ''host'' then rbind (parse_host_port ip4 ip6 value) (\<lambda>h. Inr (HostV h))
      else if name = ''via'' then rbind (parse_via ip4 ip6 value) (\<lambda>vs. Inr (ViaSeq vs))
      else if name = ''connection'' then rbind (checked valid_connection (parse_strings value)) (\<lambda>ss. Inr (CnxnSeq ss))
      else if name = ''content-type'' then
        rbind (parse_media_type value) (\<lambda>mt. rbind (valid_media_type mt) (\<lambda>_. Inr (MediaV mt)))
      else if name = ''content-encoding'' then rbind (checked valid_encoding (parse_strings value)) (\<lambda>ss. Inr (CeSeq ss))
      else if name = ''content-location'' then rbind (parse_uri_value ip4 ip6 value) (\<lambda>u. Inr (UriV u))
      else if name = ''date'' then (case pdate value of None \<Rightarrow> Inl BadMessage | Some d \<Rightarrow> Inr (DateV d))
      else rbind (parse_strings value) (\<lambda>ss. Inr (StrSeq ss)))"

definition header_validate :: "(string \<Rightarrow> bool) \<Rightarrow> (string \<Rightarrow> bool) \<Rightarrow> (string \<Rightarrow> 'd option) \<Rightarrow> string \<Rightarrow> string \<Rightarrow> 'd base_value http" where
  "header_validate ip4 ip6 pdate name value =
     rbind (header_value ip4 ip6 pdate name value) (\<lambda>v. Inr \<lparr>m_raw = value, m_value = v\<rparr>)"

text \<open>\<^verbatim>\<open>*tgt += *src\<close>; when the dynamic types differ nothing is appended.\<close>

definition append_raw :: "string \<Rightarrow> string \<Rightarrow> string" where
  "append_raw raw raw' = (if raw \<noteq> [] then raw @ '', '' else []) @ raw'"

definition header_append :: "'d base_value \<Rightarrow> 'd base_value \<Rightarrow> 'd base_value http" where
  "header_append tgt src =
     (let both = (\<lambda>v. Inr \<lparr>m_raw = append_raw (m_raw tgt) (m_raw src), m_value = v\<rparr>)
      in case m_value tgt of
           CeSeq xs \<Rightarrow> (case m_value src of CeSeq ys \<Rightarrow> both (CeSeq (xs @ ys)) | _ \<Rightarrow> Inr tgt)
         | StrSeq xs \<Rightarrow> (case m_value src of StrSeq ys \<Rightarrow> both (StrSeq (xs @ ys)) | _ \<Rightarrow> Inr tgt)
         | TokSeq xs \<Rightarrow> (case m_value src of TokSeq ys \<Rightarrow> both (TokSeq (xs @ ys)) | _ \<Rightarrow> Inr tgt)
         | ViaSeq xs \<Rightarrow> (case m_value src of ViaSeq ys \<Rightarrow> both (ViaSeq (xs @ ys)) | _ \<Rightarrow> Inr tgt)
         | CnxnSeq xs \<Rightarrow> (case m_value src of CnxnSeq ys \<Rightarrow> both (CnxnSeq (xs @ ys)) | _ \<Rightarrow> Inr tgt)
         | _ \<Rightarrow> Inl BadMessage)"

fun replace_first :: "string \<Rightarrow> 'v \<Rightarrow> (string \<times> 'v) list \<Rightarrow> (string \<times> 'v) list" where
  "replace_first n v [] = []"
| "replace_first n v ((k, w) # hs) = (if k = n then (k, v) # hs else (k, w) # replace_first n v hs)"

fun remove_first :: "string \<Rightarrow> (string \<times> 'v) list \<Rightarrow> (string \<times> 'v) list" where
  "remove_first n [] = []"
| "remove_first n ((k, w) # hs) = (if k = n then hs else (k, w) # remove_first n hs)"

definition header_add :: "(string \<Rightarrow> bool) \<Rightarrow> (string \<Rightarrow> bool) \<Rightarrow> (string \<Rightarrow> 'd option) \<Rightarrow> string \<Rightarrow> string \<Rightarrow> 'd headers \<Rightarrow> 'd headers http" where
  "header_add ip4 ip6 pdate name value hs =
     (if name = [] then Inr hs
      else
        let n = map to_lower name
        in rbind (header_validate ip4 ip6 pdate n value) (\<lambda>v.
             case header_find n hs of
               None \<Rightarrow> Inr (hs @ [(n, v)])
             | Some tgt \<Rightarrow>
                 if is_seq (m_value v) then rbind (header_append tgt v) (\<lambda>w. Inr (replace_first n w hs))
                 else Inl BadMessage))"

definition header_add_line :: "(string \<Rightarrow> bool) \<Rightarrow> (string \<Rightarrow> bool) \<Rightarrow> (string \<Rightarrow> 'd option) \<Rightarrow> string \<Rightarrow> 'd headers \<Rightarrow> 'd headers http" where
  "header_add_line ip4 ip6 pdate istr hs =
     (let (found, name, s) = read_token True (new_scanner istr)
      in if \<not> found then Inl BadMessage
         else
           let (colon, s) = read_special 0x3A s
           in if \<not> colon then Inl BadMessage
              else
                let (value, s) = read_all (read_opt_space s);
                    (eol, s) = read_crlf (read_opt_space s)
                in if \<not> eol then Inl BadMessage else header_add ip4 ip6 pdate name value hs)"

definition header_update :: "(string \<Rightarrow> bool) \<Rightarrow> (string \<Rightarrow> bool) \<Rightarrow> (string \<Rightarrow> 'd option) \<Rightarrow> string \<Rightarrow> string \<Rightarrow> 'd headers \<Rightarrow> 'd headers http" where
  "header_update ip4 ip6 pdate name value hs =
     (if name = [] then Inr hs
      else
        let n = map to_lower name
        in rbind (header_validate ip4 ip6 pdate n value) (\<lambda>v.
             Inr (if header_find n hs = None then hs @ [(n, v)] else replace_first n v hs)))"

text \<open>The other overload stores a new name as it was given, not in lower case.\<close>

definition header_update_value :: "string \<Rightarrow> 'd base_value \<Rightarrow> 'd headers \<Rightarrow> 'd headers" where
  "header_update_value name v hs =
     (if name = [] then hs
      else
        let n = map to_lower name
        in if header_find n hs = None then hs @ [(name, v)] else replace_first n v hs)"

definition header_remove :: "string \<Rightarrow> 'd headers \<Rightarrow> 'd headers" where
  "header_remove name hs = (if name = [] then hs else remove_first (map to_lower name) hs)"

definition header_is_set :: "string \<Rightarrow> 'd headers \<Rightarrow> bool" where
  "header_is_set name hs \<longleftrightarrow> name \<noteq> [] \<and> header_find (map to_lower name) hs \<noteq> None"

definition header_get :: "string \<Rightarrow> 'd headers \<Rightarrow> 'd base_value http" where
  "header_get name hs =
     (if name = [] then Inl OutOfRange_h
      else (case header_find (map to_lower name) hs of None \<Rightarrow> Inl OutOfRange_h | Some v \<Rightarrow> Inr v))"

text \<open>A failed \<^verbatim>\<open>dynamic_cast\<close> gives a null pointer, which the typed accessors dereference.\<close>

definition content_length :: "'d headers \<Rightarrow> int http" where
  "content_length hs = rbind (header_get ''content-length'' hs) (\<lambda>v.
     case m_value v of NumV n \<Rightarrow> Inr n | _ \<Rightarrow> Inl Undefined)"

definition set_content_length :: "int \<Rightarrow> 'd headers \<Rightarrow> 'd headers" where
  "set_content_length n = header_update_value ''content-length'' \<lparr>m_raw = [], m_value = NumV n\<rparr>"

definition transfer_encoding :: "'d headers \<Rightarrow> htoken list http" where
  "transfer_encoding hs = rbind (header_get ''transfer-encoding'' hs) (\<lambda>v.
     case m_value v of TokSeq ts \<Rightarrow> Inr ts | _ \<Rightarrow> Inl Undefined)"

definition set_transfer_encoding :: "htoken list \<Rightarrow> 'd headers \<Rightarrow> 'd headers" where
  "set_transfer_encoding ts = header_update_value ''transfer-encoding'' \<lparr>m_raw = [], m_value = TokSeq ts\<rparr>"

definition set_transfer_encoding_str :: "string \<Rightarrow> 'd headers \<Rightarrow> 'd headers http" where
  "set_transfer_encoding_str coding hs = rbind (parse_tokens coding) (\<lambda>ts.
     Inr (header_update_value ''transfer-encoding'' \<lparr>m_raw = coding, m_value = TokSeq ts\<rparr> hs))"

definition is_message_chunked :: "'d headers \<Rightarrow> bool" where
  "is_message_chunked hs =
     (case header_find ''transfer-encoding'' hs of
        None \<Rightarrow> False
      | Some v \<Rightarrow> (case m_value v of TokSeq ts \<Rightarrow> list_ex (\<lambda>t. tk_name t = ''chunked'') ts | _ \<Rightarrow> False))"

definition close_connection :: "'d headers \<Rightarrow> bool http" where
  "close_connection hs = rbind (header_get ''connection'' hs) (\<lambda>v.
     case m_value v of CnxnSeq cs \<Rightarrow> Inr (list_ex (\<lambda>c. c = ''close'') cs) | _ \<Rightarrow> Inl Undefined)"

section \<open>Framing (message.cpp)\<close>

datatype body = ChunkedBody | LengthBody int

fun erase_token :: "htoken list \<Rightarrow> htoken list" where
  "erase_token [] = []"
| "erase_token (t # ts) = (if tk_name t = ''chunked'' then ts else t # erase_token ts)"

text \<open>A string converts to a token without parameters; tokens are compared by name.\<close>

definition validate_length_chunkiness :: "body option \<Rightarrow> 'd headers \<Rightarrow> 'd headers http" where
  "validate_length_chunkiness b hs =
     (case b of
        None \<Rightarrow> Inr hs
      | Some ChunkedBody \<Rightarrow>
          let hs = header_remove ''content-length'' hs
          in if header_is_set ''transfer-encoding'' hs then
               rbind (transfer_encoding hs) (\<lambda>ts.
                 Inr (if list_ex (\<lambda>t. tk_name t = ''chunked'') ts then hs
                      else set_transfer_encoding (ts @ [HToken ''chunked'' []]) hs))
             else set_transfer_encoding_str ''chunked'' hs
      | Some (LengthBody n) \<Rightarrow>
          rbind
            (if header_is_set ''transfer-encoding'' hs then
               rbind (transfer_encoding hs) (\<lambda>ts.
                 Inr (if list_ex (\<lambda>t. tk_name t = ''chunked'') ts then
                        (if erase_token ts = [] then header_remove ''transfer-encoding'' hs
                         else set_transfer_encoding (erase_token ts) hs)
                      else hs))
             else Inr hs)
            (\<lambda>hs. Inr (set_content_length n hs)))"

section \<open>Laws of the header list\<close>

abbreviation names :: "'d headers \<Rightarrow> string list" where "names hs \<equiv> map fst hs"

lemma find_replace_first:
  "header_find k (replace_first n v hs) = (if k = n \<and> header_find n hs \<noteq> None then Some v else header_find k hs)"
  by (induction n v hs rule: replace_first.induct) (auto simp: header_find_def)

lemma names_replace_first: "names (replace_first n v hs) = names hs"
  by (induction n v hs rule: replace_first.induct) auto

lemma find_append:
  "header_find k (hs @ [(n, v)]) = (if header_find k hs = None then (if k = n then Some v else None) else header_find k hs)"
  by (auto simp: header_find_def map_add_def split: option.splits)

lemma find_None: "header_find n hs = None \<longleftrightarrow> n \<notin> set (names hs)"
  by (simp add: header_find_def map_of_eq_None_iff)

lemma remove_first_filter: "distinct (names hs) \<Longrightarrow> remove_first n hs = filter (\<lambda>h. fst h \<noteq> n) hs"
proof (induction n hs rule: remove_first.induct)
  case (2 n k w hs)
  have "filter (\<lambda>h. fst h \<noteq> k) hs = hs" using 2(2) by (force simp: filter_id_conv)
  with 2 show ?case by auto
qed simp

lemma find_filter: "header_find k (filter (\<lambda>h. fst h \<noteq> n) hs) = (if k = n then None else header_find k hs)"
  by (induction hs) (auto simp: header_find_def)

lemma find_remove_first:
  "distinct (names hs) \<Longrightarrow> header_find k (remove_first n hs) = (if k = n then None else header_find k hs)"
  by (simp add: remove_first_filter find_filter)

lemma names_remove_first: "distinct (names hs) \<Longrightarrow> names (remove_first n hs) = filter (\<lambda>k. k \<noteq> n) (names hs)"
  by (simp add: remove_first_filter filter_map comp_def)

lemma to_lower_idem: "to_lower (to_lower c) = to_lower c"
  by (simp add: to_lower_def ch_mk)

lemma lower_idem: "map to_lower (map to_lower n) = map to_lower n"
  by (simp add: to_lower_idem)

lemma find_update_value:
  assumes "map to_lower n = n" "n \<noteq> []"
  shows "header_find k (header_update_value n v hs) = (if k = n then Some v else header_find k hs)"
  using assms by (auto simp: header_update_value_def find_append find_replace_first)

lemma distinct_update_value:
  assumes "map to_lower n = n" "distinct (names hs)"
  shows "distinct (names (header_update_value n v hs))"
  using assms by (auto simp: header_update_value_def names_replace_first find_None Let_def)

definition good_names :: "'d headers \<Rightarrow> bool" where
  "good_names hs \<longleftrightarrow> distinct (names hs) \<and> list_all (\<lambda>n. map to_lower n = n) (names hs)"

lemma good_append: "good_names hs \<Longrightarrow> header_find n hs = None \<Longrightarrow> map to_lower n = n \<Longrightarrow> good_names (hs @ [(n, v)])"
  by (auto simp: good_names_def find_None)

lemma good_replace: "good_names hs \<Longrightarrow> good_names (replace_first n v hs)"
  by (simp add: good_names_def names_replace_first)

lemma remove_laws:
  assumes "good_names hs" "name \<noteq> []"
  shows "good_names (header_remove name hs)"
    "header_find k (header_remove name hs) = (if k = map to_lower name then None else header_find k hs)"
proof -
  have d: "distinct (names hs)" using assms by (simp add: good_names_def)
  show "good_names (header_remove name hs)"
    using assms d by (auto simp: header_remove_def good_names_def names_remove_first list_all_iff)
  show "header_find k (header_remove name hs) = (if k = map to_lower name then None else header_find k hs)"
    using assms(2) d by (simp add: header_remove_def find_remove_first)
qed

lemma update_laws:
  assumes "good_names hs" "name \<noteq> []" "header_update ip4 ip6 pd name value hs = Inr hs'"
  shows "good_names hs' \<and> (\<exists>v. header_validate ip4 ip6 pd (map to_lower name) value = Inr v \<and>
    (\<forall>k. header_find k hs' = (if k = map to_lower name then Some v else header_find k hs)))"
proof -
  obtain v where v: "header_validate ip4 ip6 pd (map to_lower name) value = Inr v"
      "hs' = (if header_find (map to_lower name) hs = None then hs @ [(map to_lower name, v)] else replace_first (map to_lower name) v hs)"
    using assms(2,3) by (auto simp: header_update_def rbind_Inr Let_def)
  show ?thesis
  proof (cases "header_find (map to_lower name) hs")
    case None
    then show ?thesis using v good_append [OF assms(1) None lower_idem] by (auto simp: find_append)
  next
    case (Some w)
    then show ?thesis using v good_replace [OF assms(1)] by (auto simp: find_replace_first)
  qed
qed

lemma add_laws:
  assumes "good_names hs" "name \<noteq> []" "header_add ip4 ip6 pd name value hs = Inr hs'"
  shows "good_names hs' \<and> (\<exists>v. header_validate ip4 ip6 pd (map to_lower name) value = Inr v \<and>
      (\<not> header_is_set name hs \<longrightarrow> header_get name hs' = Inr v)) \<and>
    (\<forall>k. k \<noteq> map to_lower name \<longrightarrow> header_find k hs' = header_find k hs)"
proof -
  let ?n = "map to_lower name"
  obtain v where v: "header_validate ip4 ip6 pd ?n value = Inr v"
    using assms(2,3) by (auto simp: header_add_def rbind_Inr Let_def)
  show ?thesis
  proof (cases "header_find ?n hs")
    case None
    then have "hs' = hs @ [(?n, v)]" using assms(2,3) v by (simp add: header_add_def)
    then show ?thesis using v None assms(2) good_append [OF assms(1) None lower_idem]
      by (auto simp: find_append header_get_def)
  next
    case (Some tgt)
    then obtain w where "hs' = replace_first ?n w hs"
      using assms(2,3) v by (auto simp: header_add_def rbind_Inr split: if_splits)
    then show ?thesis using v Some assms(2) good_replace [OF assms(1)]
      by (auto simp: find_replace_first header_is_set_def)
  qed
qed



section \<open>Framing is unambiguous\<close>

lemma chunked_tokens: "parse_tokens ''chunked'' = Inr [HToken ''chunked'' []]"
  by code_simp

lemma lower_names: "map to_lower ''content-length'' = ''content-length''" "map to_lower ''transfer-encoding'' = ''transfer-encoding''"
  by code_simp+

abbreviation chunked :: "htoken \<Rightarrow> bool" where "chunked t \<equiv> tk_name t = ''chunked''"

lemma erase_token_other:
  "length (filter chunked ts) \<le> 1 \<Longrightarrow> \<not> list_ex chunked (erase_token ts)"
proof (induction ts)
  case (Cons t ts)
  show ?case
  proof (cases "chunked t")
    case True
    with Cons.prems have "filter chunked ts = []" by simp
    then have "\<forall>u\<in>set ts. \<not> chunked u" by (simp only: filter_empty_conv)
    with True show ?thesis by (simp add: list_ex_iff)
  next
    case False
    with Cons show ?thesis by simp
  qed
qed simp

lemma header_get_find:
  "map to_lower n = n \<Longrightarrow> n \<noteq> [] \<Longrightarrow> header_get n hs = (case header_find n hs of None \<Rightarrow> Inl OutOfRange_h | Some v \<Rightarrow> Inr v)"
  "map to_lower n = n \<Longrightarrow> n \<noteq> [] \<Longrightarrow> header_is_set n hs = (header_find n hs \<noteq> None)"
  "map to_lower n = n \<Longrightarrow> n \<noteq> [] \<Longrightarrow> header_remove n hs = remove_first n hs"
  by (simp_all add: header_get_def header_is_set_def header_remove_def)

lemma field_names: "''content-length'' \<noteq> []" "''transfer-encoding'' \<noteq> []" "''content-length'' \<noteq> ''transfer-encoding''"
  by simp_all

lemmas length_field = header_get_find [OF lower_names(1) field_names(1)] find_update_value [OF lower_names(1) field_names(1)]
lemmas coding_field = header_get_find [OF lower_names(2) field_names(2)] find_update_value [OF lower_names(2) field_names(2)]

lemma length_find: "header_find ''content-length'' hs = Some \<lparr>m_raw = r, m_value = NumV n\<rparr> \<Longrightarrow> content_length hs = Inr n"
  unfolding content_length_def length_field by simp

lemma set_length: "content_length (set_content_length n hs) = Inr n"
  by (rule length_find) (unfold set_content_length_def length_field, simp)

lemma set_length_chunked: "is_message_chunked (set_content_length n hs) = is_message_chunked hs"
  unfolding is_message_chunked_def set_content_length_def length_field by simp

lemma set_coding_chunked:
  "is_message_chunked (header_update_value ''transfer-encoding'' \<lparr>m_raw = r, m_value = TokSeq ts\<rparr> hs) = list_ex chunked ts"
  unfolding is_message_chunked_def coding_field by simp

lemma chunked_body_framed:
  assumes d: "distinct (names hs)" and v: "validate_length_chunkiness (Some ChunkedBody) hs = Inr hs'"
  shows "is_message_chunked hs' \<and> \<not> header_is_set ''content-length'' hs'"
proof -
  let ?hs = "remove_first ''content-length'' hs"
  have cl: "header_find ''content-length'' ?hs = None" by (simp only: find_remove_first [OF d] simp_thms if_True)
  have keep: "header_find ''content-length'' (header_update_value ''transfer-encoding'' w ?hs) = None" for w
    unfolding coding_field using cl field_names(3) by simp
  note v' = v [unfolded validate_length_chunkiness_def Let_def length_field(3) coding_field(2), simplified]
  show ?thesis
  proof (cases "header_find ''transfer-encoding'' ?hs")
    case None
    with v' have "hs' = header_update_value ''transfer-encoding'' \<lparr>m_raw = ''chunked'', m_value = TokSeq [HToken ''chunked'' []]\<rparr> ?hs"
      by (simp add: set_transfer_encoding_str_def chunked_tokens)
    then show ?thesis using keep unfolding length_field by (simp add: set_coding_chunked)
  next
    case (Some w)
    with v' obtain ts where ts: "transfer_encoding ?hs = Inr ts"
        "hs' = (if list_ex chunked ts then ?hs else set_transfer_encoding (ts @ [HToken ''chunked'' []]) ?hs)"
      by (auto simp: rbind_Inr)
    then have w: "m_value w = TokSeq ts"
      using Some unfolding transfer_encoding_def coding_field by (auto split: hval.splits)
    show ?thesis
    proof (cases "list_ex chunked ts")
      case True
      then show ?thesis using ts(2) cl Some w unfolding length_field is_message_chunked_def by simp
    next
      case False
      then show ?thesis using ts(2) keep unfolding length_field by (simp add: set_transfer_encoding_def set_coding_chunked)
    qed
  qed
qed

lemma length_body_framed:
  assumes d: "distinct (names hs)" and v: "validate_length_chunkiness (Some (LengthBody n)) hs = Inr hs'"
    and once: "\<And>ts. transfer_encoding hs = Inr ts \<Longrightarrow> length (filter chunked ts) \<le> 1"
  shows "content_length hs' = Inr n \<and> \<not> is_message_chunked hs'"
proof -
  note v' = v [unfolded validate_length_chunkiness_def Let_def coding_field(2,3), simplified]
  show ?thesis
  proof (cases "header_find ''transfer-encoding'' hs")
    case None
    with v' have "hs' = set_content_length n hs" by simp
    moreover have "\<not> is_message_chunked hs" using None by (simp add: is_message_chunked_def)
    ultimately show ?thesis by (simp only: set_length set_length_chunked simp_thms)
  next
    case (Some w)
    with v' obtain ts where ts: "transfer_encoding hs = Inr ts"
        "hs' = set_content_length n (if list_ex chunked ts then
           (if erase_token ts = [] then remove_first ''transfer-encoding'' hs else set_transfer_encoding (erase_token ts) hs) else hs)"
      by (auto simp: rbind_Inr)
    then have w: "m_value w = TokSeq ts"
      using Some unfolding transfer_encoding_def coding_field by (auto split: hval.splits)
    have "\<not> is_message_chunked (set_transfer_encoding (erase_token ts) hs)"
      using erase_token_other [OF once [OF ts(1)]] by (simp add: set_transfer_encoding_def set_coding_chunked)
    moreover have "\<not> is_message_chunked (remove_first ''transfer-encoding'' hs)"
      unfolding is_message_chunked_def find_remove_first [OF d] by simp
    moreover have "\<not> list_ex chunked ts \<Longrightarrow> \<not> is_message_chunked hs"
      using Some w unfolding is_message_chunked_def by simp
    ultimately show ?thesis unfolding ts(2) set_length set_length_chunked by simp
  qed
qed



text \<open>
  Only the first chunked coding is removed, so a message whose headers name it twice is sent with
  both a Content-Length and the chunked coding, a framing no recipient can interpret.
\<close>

lemma double_chunked_stays:
  "\<exists>hs' :: unit headers. validate_length_chunkiness (Some (LengthBody 5))
       [(''transfer-encoding'', \<lparr>m_raw = [], m_value = TokSeq [HToken ''chunked'' [], HToken ''chunked'' []]\<rparr>)] = Inr hs' \<and>
     content_length hs' = Inr 5 \<and> is_message_chunked hs'"
  by (rule exI [of _ "[(''transfer-encoding'', \<lparr>m_raw = [], m_value = TokSeq [HToken ''chunked'' []]\<rparr>),
      (''content-length'', \<lparr>m_raw = [], m_value = NumV 5\<rparr>)]"]) code_simp

end
