(* ===== verification/Http_Headers.thy ===== *)
theory Http_Headers
  imports Http_Message
begin

text \<open>
  The typed accessors of the header list, its output (\<^verbatim>\<open>src/common/headers.cpp\<close>,
  \<^verbatim>\<open>include/common/hval.h\<close>), and the round trip: what the output writes, reading the lines back
  restores.
\<close>

section \<open>Accessors\<close>

text \<open>
  A getter casts the stored value to the class it expects; when the cast fails the null pointer is
  dereferenced. A setter from a text parses and validates it, one from a value validates the value.
\<close>

definition header_as :: "('d hval \<Rightarrow> 'a option) \<Rightarrow> string \<Rightarrow> 'd headers \<Rightarrow> 'a http" where
  "header_as proj name hs = rbind (header_get name hs) (\<lambda>v.
     case proj (m_value v) of None \<Rightarrow> Inl Undefined | Some x \<Rightarrow> Inr x)"

definition as_toks :: "'d hval \<Rightarrow> htoken list option" where
  "as_toks v = (case v of TokSeq ts \<Rightarrow> Some ts | _ \<Rightarrow> None)"
definition as_strs :: "'d hval \<Rightarrow> string list option" where
  "as_strs v = (case v of StrSeq ss \<Rightarrow> Some ss | _ \<Rightarrow> None)"
definition as_cnxns :: "'d hval \<Rightarrow> string list option" where
  "as_cnxns v = (case v of CnxnSeq ss \<Rightarrow> Some ss | _ \<Rightarrow> None)"
definition as_encodings :: "'d hval \<Rightarrow> string list option" where
  "as_encodings v = (case v of CeSeq ss \<Rightarrow> Some ss | _ \<Rightarrow> None)"
definition as_vias :: "'d hval \<Rightarrow> via list option" where
  "as_vias v = (case v of ViaSeq vs \<Rightarrow> Some vs | _ \<Rightarrow> None)"
definition as_media :: "'d hval \<Rightarrow> media_type option" where
  "as_media v = (case v of MediaV mt \<Rightarrow> Some mt | _ \<Rightarrow> None)"
definition as_host :: "'d hval \<Rightarrow> host_port_v option" where
  "as_host v = (case v of HostV hp \<Rightarrow> Some hp | _ \<Rightarrow> None)"
definition as_uri :: "'d hval \<Rightarrow> uri option" where
  "as_uri v = (case v of UriV u \<Rightarrow> Some u | _ \<Rightarrow> None)"
definition as_date :: "'d hval \<Rightarrow> 'd option" where
  "as_date v = (case v of DateV d \<Rightarrow> Some d | _ \<Rightarrow> None)"

text \<open>\<open>set_parsed\<close> is \<^verbatim>\<open>update(NAME, new T(str))\<close>, \<open>set_value\<close> is \<^verbatim>\<open>update(NAME, new T(v))\<close>.\<close>

definition set_parsed :: "string \<Rightarrow> ('a \<Rightarrow> 'd hval) \<Rightarrow> (string \<Rightarrow> 'a http) \<Rightarrow> string \<Rightarrow> 'd headers \<Rightarrow> 'd headers http" where
  "set_parsed name con parse str hs = rbind (parse str) (\<lambda>x.
     Inr (header_update_value name \<lparr>m_raw = str, m_value = con x\<rparr> hs))"

definition set_value :: "string \<Rightarrow> 'd hval \<Rightarrow> 'd headers \<Rightarrow> 'd headers" where
  "set_value name v = header_update_value name \<lparr>m_raw = [], m_value = v\<rparr>"

definition set_content_length_str :: "string \<Rightarrow> 'd headers \<Rightarrow> 'd headers http" where
  "set_content_length_str = set_parsed ''content-length'' NumV parse_number"

definition set_transfer_encoding_token :: "htoken \<Rightarrow> 'd headers \<Rightarrow> 'd headers" where
  "set_transfer_encoding_token t = set_value ''transfer-encoding'' (TokSeq [t])"

definition te :: "'d headers \<Rightarrow> htoken list http" where "te = header_as as_toks ''te''"
definition set_te_token :: "htoken \<Rightarrow> 'd headers \<Rightarrow> 'd headers" where "set_te_token t = set_value ''te'' (TokSeq [t])"
definition set_te :: "htoken list \<Rightarrow> 'd headers \<Rightarrow> 'd headers" where "set_te ts = set_value ''te'' (TokSeq ts)"
definition set_te_str :: "string \<Rightarrow> 'd headers \<Rightarrow> 'd headers http" where "set_te_str = set_parsed ''te'' TokSeq parse_tokens"

definition has_trailers :: "'d headers \<Rightarrow> bool" where
  "has_trailers hs =
     (case header_find ''te'' hs of
        None \<Rightarrow> False
      | Some v \<Rightarrow> (case m_value v of TokSeq ts \<Rightarrow> list_ex (\<lambda>t. tk_name t = ''trailers'') ts | _ \<Rightarrow> False))"

definition trailers :: "'d headers \<Rightarrow> string list http" where "trailers = header_as as_strs ''trailers''"
definition set_trailers_str :: "string \<Rightarrow> 'd headers \<Rightarrow> 'd headers http" where
  "set_trailers_str = set_parsed ''trailers'' StrSeq parse_strings"
definition set_trailers :: "string list \<Rightarrow> 'd headers \<Rightarrow> 'd headers" where
  "set_trailers ss = set_value ''trailers'' (StrSeq ss)"

definition header_host :: "'d headers \<Rightarrow> (string \<times> nat) http" where
  "header_host hs = rbind (header_as as_host ''host'' hs) (\<lambda>hp. Inr (hp_host hp, hp_port hp))"

definition set_host_port :: "host_port_v \<Rightarrow> 'd headers \<Rightarrow> 'd headers" where
  "set_host_port hp = set_value ''host'' (HostV hp)"

definition set_host_str :: "(string \<Rightarrow> bool) \<Rightarrow> (string \<Rightarrow> bool) \<Rightarrow> string \<Rightarrow> nat \<Rightarrow> 'd headers \<Rightarrow> 'd headers http" where
  "set_host_str ip4 ip6 uristr port hs = rbind (parse_host_port ip4 ip6 uristr) (\<lambda>hp.
     Inr (set_host_port (if port \<noteq> 0 then hp\<lparr>hp_port := port\<rparr> else hp) hs))"

definition intermediary :: "'d headers \<Rightarrow> via list http" where "intermediary = header_as as_vias ''via''"
definition set_intermediary_one :: "via \<Rightarrow> 'd headers \<Rightarrow> 'd headers" where
  "set_intermediary_one v = set_value ''via'' (ViaSeq [v])"
definition set_intermediary :: "via list \<Rightarrow> 'd headers \<Rightarrow> 'd headers" where
  "set_intermediary vs = set_value ''via'' (ViaSeq vs)"
definition set_intermediary_str :: "(string \<Rightarrow> bool) \<Rightarrow> (string \<Rightarrow> bool) \<Rightarrow> string \<Rightarrow> 'd headers \<Rightarrow> 'd headers http" where
  "set_intermediary_str ip4 ip6 = set_parsed ''via'' ViaSeq (parse_via ip4 ip6)"

definition connection :: "'d headers \<Rightarrow> string list http" where "connection = header_as as_cnxns ''connection''"
definition set_connection_str :: "string \<Rightarrow> 'd headers \<Rightarrow> 'd headers http" where
  "set_connection_str = set_parsed ''connection'' CnxnSeq (\<lambda>s. checked valid_connection (parse_strings s))"
definition set_connection :: "string list \<Rightarrow> 'd headers \<Rightarrow> 'd headers http" where
  "set_connection ss hs = rbind (check_all valid_connection ss) (\<lambda>_. Inr (set_value ''connection'' (CnxnSeq ss) hs))"

definition content_type :: "'d headers \<Rightarrow> media_type http" where "content_type = header_as as_media ''content-type''"
definition set_content_type :: "media_type \<Rightarrow> 'd headers \<Rightarrow> 'd headers http" where
  "set_content_type mt hs = rbind (valid_media_type mt) (\<lambda>_. Inr (set_value ''content-type'' (MediaV mt) hs))"
definition set_content_type_names :: "string \<Rightarrow> string \<Rightarrow> 'd headers \<Rightarrow> 'd headers http" where
  "set_content_type_names ty sub = set_content_type \<lparr>mt_type = ty, mt_subtype = sub, mt_params = []\<rparr>"

definition content_encoding :: "'d headers \<Rightarrow> string list http" where
  "content_encoding = header_as as_encodings ''content-encoding''"
definition set_content_encoding :: "(string \<Rightarrow> bool) \<Rightarrow> (string \<Rightarrow> bool) \<Rightarrow> (string \<Rightarrow> 'd option) \<Rightarrow> string \<Rightarrow> 'd headers \<Rightarrow> 'd headers http" where
  "set_content_encoding ip4 ip6 pdate coding = header_update ip4 ip6 pdate ''content-encoding'' coding"

definition content_language :: "'d headers \<Rightarrow> string list http" where
  "content_language = header_as as_strs ''content-language''"
definition set_content_language_str :: "string \<Rightarrow> 'd headers \<Rightarrow> 'd headers http" where
  "set_content_language_str = set_parsed ''content-language'' StrSeq parse_strings"
definition set_content_language :: "string list \<Rightarrow> 'd headers \<Rightarrow> 'd headers" where
  "set_content_language ss = set_value ''content-language'' (StrSeq ss)"

definition content_location :: "'d headers \<Rightarrow> uri http" where "content_location = header_as as_uri ''content-location''"
definition set_content_location :: "uri \<Rightarrow> 'd headers \<Rightarrow> 'd headers" where
  "set_content_location u = set_value ''content-location'' (UriV u)"
definition set_content_location_str :: "(string \<Rightarrow> bool) \<Rightarrow> (string \<Rightarrow> bool) \<Rightarrow> string \<Rightarrow> 'd headers \<Rightarrow> 'd headers http" where
  "set_content_location_str ip4 ip6 s hs = rbind (uri_parse ip4 ip6 s) (\<lambda>u. Inr (set_content_location u hs))"

definition header_date :: "'d headers \<Rightarrow> 'd http" where "header_date = header_as as_date ''date''"
definition set_date :: "'d \<Rightarrow> 'd headers \<Rightarrow> 'd headers" where "set_date d = set_value ''date'' (DateV d)"
definition set_date_str :: "(string \<Rightarrow> 'd option) \<Rightarrow> string \<Rightarrow> 'd headers \<Rightarrow> 'd headers http" where
  "set_date_str pdate = set_parsed ''date'' DateV (\<lambda>s. case pdate s of None \<Rightarrow> Inl BadMessage | Some d \<Rightarrow> Inr d)"

section \<open>Output\<close>

definition to_upper :: "char \<Rightarrow> char" where
  "to_upper c = (if 97 \<le> ch c \<and> ch c \<le> 122 then mk (ch c - 32) else c)"

fun canonicalize_loop :: "bool \<Rightarrow> string \<Rightarrow> string" where
  "canonicalize_loop capitalize [] = []"
| "canonicalize_loop capitalize (c # cs) = (if capitalize then to_upper c else c) # canonicalize_loop (c = CHR ''-'') cs"

definition canonicalize_name :: "string \<Rightarrow> string" where
  "canonicalize_name = canonicalize_loop True"

definition params_str :: "params \<Rightarrow> string" where
  "params_str ps = concat (map (\<lambda>(k, v). '';'' @ k @ (if v \<noteq> [] then ''='' @ v else [])) ps)"

definition htoken_str :: "htoken \<Rightarrow> string" where
  "htoken_str t = tk_name t @ params_str (tk_params t)"

definition host_port_str :: "host_port_v \<Rightarrow> string" where
  "host_port_str hp = hp_host hp @ (if hp_port hp \<noteq> 0 then '':'' @ nat_str (hp_port hp) else [])"

definition media_type_str :: "media_type \<Rightarrow> string" where
  "media_type_str mt = mt_type mt @ ''/'' @ mt_subtype mt @ params_str (mt_params mt)"

definition via_str :: "via \<Rightarrow> string" where
  "via_str v = version_str (via_ver v) @ '' '' @
     (if u_host (via_url v) \<noteq> [] then
        u_host (via_url v) @ (if u_port (via_url v) \<noteq> [] then '':'' @ int_str (decimal_value (u_port (via_url v))) else [])
      else []) @
     (if via_comments v \<noteq> [] then '' '' @ via_comments v else [])"

fun seq_str :: "('a \<Rightarrow> string) \<Rightarrow> 'a list \<Rightarrow> string" where
  "seq_str f [] = []"
| "seq_str f [x] = f x"
| "seq_str f (x # y # xs) = f x @ '', '' @ seq_str f (y # xs)"

definition hval_str :: "('d \<Rightarrow> string) \<Rightarrow> 'd hval \<Rightarrow> string" where
  "hval_str show_date v =
     (case v of
        NumV n \<Rightarrow> int_str n
      | TokSeq ts \<Rightarrow> seq_str htoken_str ts
      | StrSeq ss \<Rightarrow> seq_str id ss
      | HostV hp \<Rightarrow> host_port_str hp
      | ViaSeq vs \<Rightarrow> seq_str via_str vs
      | CnxnSeq ss \<Rightarrow> seq_str id ss
      | MediaV mt \<Rightarrow> media_type_str mt
      | CeSeq ss \<Rightarrow> seq_str id ss
      | UriV u \<Rightarrow> uri_str u
      | DateV d \<Rightarrow> show_date d)"

definition header_line :: "('d \<Rightarrow> string) \<Rightarrow> string \<times> 'd base_value \<Rightarrow> string" where
  "header_line show_date h = canonicalize_name (fst h) @ '': '' @ hval_str show_date (m_value (snd h)) @ [CHR 0x0D, CHR 0x0A]"

definition headers_str :: "('d \<Rightarrow> string) \<Rightarrow> 'd headers \<Rightarrow> string" where
  "headers_str show_date hs = concat (map (header_line show_date) hs)"

section \<open>Reading at a known text\<close>

text \<open>Characters of a class the scanner can recognise, and lists of them.\<close>

definition in_class :: "(int \<Rightarrow> bool) \<Rightarrow> string \<Rightarrow> bool" where
  "in_class P xs \<longleftrightarrow> (\<forall>x\<in>set xs. to_int x \<noteq> -1 \<and> P (to_int x))"

lemma read_class_end:
  "at s xs \<Longrightarrow> in_class P xs \<Longrightarrow> \<exists>s'. read_class P out s = (out @ xs, s') \<and> at s' []"
proof (induction xs arbitrary: s out)
  case Nil
  then show ?case using sget_end [OF Nil(1)] by (subst read_class.simps) simp
next
  case (Cons x xs)
  then obtain s' where s': "sget s = (to_int x, s')" "at s' xs" using sget_at by fastforce
  with Cons.IH [OF s'(2), of "out @ [x]"] Cons.prems(2) show ?case
    by (subst read_class.simps) (simp add: push_to_int in_class_def)
qed

text \<open>What may follow a run of class characters for the scanner to stop right after it.\<close>

definition stops :: "(int \<Rightarrow> bool) \<Rightarrow> string \<Rightarrow> bool" where
  "stops P rest \<longleftrightarrow> rest = [] \<or> (\<not> P (to_int (hd rest)) \<and> tl rest \<noteq> [])"

lemma read_class_stops:
  assumes "at s (xs @ rest)" "in_class P xs" "stops P rest"
  shows "\<exists>s'. read_class P out s = (out @ xs, s') \<and> at s' rest"
proof (cases rest)
  case Nil
  with assms read_class_end show ?thesis by simp
next
  case (Cons d r)
  with assms read_class_at [of s xs d r P out] show ?thesis by (auto simp: in_class_def stops_def)
qed

lemma tchar_class: "in_class is_tchar xs \<longleftrightarrow> (\<forall>x\<in>set xs. is_tchar (to_int x))"
  by (auto simp: in_class_def is_tchar_def)

lemma read_token_stops:
  assumes "at s (xs @ rest)" "\<forall>x\<in>set xs. is_tchar (to_int x)" "stops is_tchar rest"
  shows "\<exists>s'. read_token lower s = (xs \<noteq> [], if lower then map to_lower xs else xs, s') \<and> at s' rest"
  using read_class_stops [OF assms(1) _ assms(3), of "[]"] assms(2) by (auto simp: read_token_def tchar_class)

lemma read_opt_space_stops:
  assumes "at s (sp @ rest)" "set sp \<subseteq> {CHR '' ''}" "stops is_whitespace rest"
  shows "at (read_opt_space s) rest"
proof -
  have "in_class is_whitespace sp" using assms(2) by (auto simp: in_class_def is_whitespace_def to_int_def)
  from read_class_stops [OF assms(1) this assms(3), of "[]"] show ?thesis by (auto simp: read_opt_space_def)
qed

lemma read_special_at:
  assumes "at s (c # rest)"
  shows "to_int c = k \<Longrightarrow> \<exists>s'. read_special k s = (True, s') \<and> at s' rest"
    and "to_int c \<noteq> k \<Longrightarrow> rest \<noteq> [] \<Longrightarrow> \<exists>s'. read_special k s = (False, s') \<and> at s' (c # rest)"
  using sget_at [OF assms] by (auto simp: read_special_def)

lemma read_special_end: "at s [] \<Longrightarrow> k \<noteq> -1 \<Longrightarrow> \<exists>s'. read_special k s = (False, s') \<and> at s' []"
  using sget_end [of s] by (auto simp: read_special_def)

lemma read_crlf_at: "at s [CHR 0x0D, CHR 0x0A] \<Longrightarrow> \<exists>s'. read_crlf s = (True, s') \<and> at s' []"
proof -
  assume "at s [CHR 0x0D, CHR 0x0A]"
  then obtain s1 where s1: "sget s = (to_int (CHR 0x0D), s1)" "at s1 [CHR 0x0A]" using sget_at by blast
  then obtain s2 where "sget s1 = (to_int (CHR 0x0A), s2)" "at s2 []" using sget_at by blast
  with s1 show ?thesis by (auto simp: read_crlf_def to_int_def)
qed

definition line_text :: "string \<Rightarrow> bool" where
  "line_text t \<longleftrightarrow> (\<forall>c\<in>set t. to_int c \<notin> {-1, 0x0D, 0x0A}) \<and> trim t = t"

lemma read_rest_at:
  "at s (t @ [CHR 0x0D, CHR 0x0A]) \<Longrightarrow> \<forall>c\<in>set t. to_int c \<notin> {-1, 0x0D, 0x0A} \<Longrightarrow>
    \<exists>s'. read_rest (\<lambda>c. c = 0x0D \<or> c = 0x0A) out s = (out @ t, 0x0D, s') \<and> at (unget s') [CHR 0x0D, CHR 0x0A]"
proof (induction t arbitrary: s out)
  case Nil
  then obtain s' where "sget s = (to_int (CHR 0x0D), s')" "at (unget s') [CHR 0x0D, CHR 0x0A]" using sget_at by fastforce
  then show ?case by (subst read_rest.simps) (simp add: to_int_def)
next
  case (Cons x xs)
  then obtain s' where s': "sget s = (to_int x, s')" "at s' (xs @ [CHR 0x0D, CHR 0x0A])" using sget_at by fastforce
  with Cons.IH [OF s'(2), of "out @ [x]"] Cons.prems(2) show ?case
    by (subst read_rest.simps) (simp add: push_to_int)
qed

lemma trim_hd: "trim t = t \<Longrightarrow> t \<noteq> [] \<Longrightarrow> \<not> trim_char (hd t)"
proof
  assume t: "trim t = t" "t \<noteq> []" "trim_char (hd t)"
  then obtain c cs where c: "t = c # cs" by (cases t) auto
  have "length (trim t) \<le> length (dropWhile trim_char t)"
    unfolding trim_def by (metis length_dropWhile_le length_rev)
  also have "\<dots> \<le> length cs" using t(3) c by (simp add: length_dropWhile_le)
  finally show False using t(1) c by simp
qed

lemma to_int_nonneg: "0 \<le> to_int c \<Longrightarrow> to_int c = int (ch c)"
proof (rule ccontr)
  assume c: "0 \<le> to_int c" "to_int c \<noteq> int (ch c)"
  then have "to_int c = int (ch c) - 256" by (simp add: to_int_def split: if_splits)
  then show False using c(1) ch_less [of c] by linarith
qed

lemma whitespace_trim: "is_whitespace (to_int c) \<Longrightarrow> trim_char c"
  using to_int_nonneg [of c] by (auto simp: is_whitespace_def trim_char_def)

lemma stops_line: "trim t = t \<Longrightarrow> stops is_whitespace (t @ [CHR 0x0D, CHR 0x0A])"
  using trim_hd [of t] whitespace_trim [of "hd t"] by (cases t) (auto simp: stops_def is_whitespace_def to_int_def)

section \<open>A header line\<close>

lemma ch_to_lower: "ch (to_lower c) = (if 65 \<le> ch c \<and> ch c \<le> 90 then ch c + 32 else ch c)"
  by (simp add: to_lower_def ch_mk)

lemma ch_to_upper: "ch (to_upper c) = (if 97 \<le> ch c \<and> ch c \<le> 122 then ch c - 32 else ch c)"
proof -
  have "97 \<le> ch c \<and> ch c \<le> 122 \<Longrightarrow> ch (mk (ch c - 32)) = ch c - 32" by (rule ch_mk) linarith
  then show ?thesis unfolding to_upper_def by presburger
qed

lemma to_lower_fix: "to_lower c = c \<longleftrightarrow> \<not> (65 \<le> ch c \<and> ch c \<le> 90)"
  using ch_to_lower [of c] by (auto simp: to_lower_def)

lemma to_lower_upper:
  assumes "to_lower c = c"
  shows "to_lower (to_upper c) = c"
proof -
  have "ch (to_lower (to_upper c)) = ch c" using assms by (auto simp: ch_to_lower ch_to_upper to_lower_fix)
  then show ?thesis by (simp only: of_char_eq_iff)
qed

lemma tchar_upper:
  assumes "is_tchar (to_int c)"
  shows "is_tchar (to_int (to_upper c))"
proof (cases "97 \<le> ch c \<and> ch c \<le> 122")
  case True
  then have "to_int (to_upper c) = int (ch c) - 32" by (simp add: to_int_def ch_to_upper, linarith?)
  with True show ?thesis unfolding is_tchar_def by linarith
next
  case False
  then have "to_upper c = c" by (auto simp: to_upper_def)
  with assms show ?thesis by simp
qed

definition token_text :: "string \<Rightarrow> bool" where
  "token_text t \<longleftrightarrow> t \<noteq> [] \<and> (\<forall>c\<in>set t. is_tchar (to_int c) \<and> to_lower c = c)"

lemma canonicalize_loop_lower:
  "\<forall>c\<in>set n. is_tchar (to_int c) \<and> to_lower c = c \<Longrightarrow>
     map to_lower (canonicalize_loop b n) = n \<and> (\<forall>c\<in>set (canonicalize_loop b n). is_tchar (to_int c))"
  by (induction n arbitrary: b) (auto simp: to_lower_upper tchar_upper)

lemma canonicalize_Nil: "canonicalize_name n = [] \<longleftrightarrow> n = []"
  by (cases n) (auto simp: canonicalize_name_def)

lemma add_line_text:
  assumes "token_text n" "line_text t"
  shows "header_add_line ip4 ip6 pd (canonicalize_name n @ '': '' @ t @ [CHR 0x0D, CHR 0x0A]) hs = header_add ip4 ip6 pd n t hs"
proof -
  let ?s = "new_scanner (canonicalize_name n @ '': '' @ t @ [CHR 0x0D, CHR 0x0A])"
  have n: "map to_lower (canonicalize_name n) = n" "\<forall>c\<in>set (canonicalize_name n). is_tchar (to_int c)"
    using assms(1) canonicalize_loop_lower [of n True] by (auto simp: token_text_def canonicalize_name_def)
  have ne: "canonicalize_name n \<noteq> []" using assms(1) by (simp add: token_text_def canonicalize_Nil)
  have "stops is_tchar ('': '' @ t @ [CHR 0x0D, CHR 0x0A])" by (simp add: stops_def is_tchar_def to_int_def)
  from read_token_stops [OF _ n(2) this, of ?s True] n(1) ne obtain s1 where
    s1: "read_token True ?s = (True, n, s1)" "at s1 ('': '' @ t @ [CHR 0x0D, CHR 0x0A])" by auto
  then obtain s2 where s2: "read_special 0x3A s1 = (True, s2)" "at s2 ('' '' @ t @ [CHR 0x0D, CHR 0x0A])"
    using read_special_at(1) [of s1 "CHR '':''" "'' '' @ t @ [CHR 0x0D, CHR 0x0A]" "0x3A"] by (auto simp: to_int_def)
  have s3: "at (read_opt_space s2) (t @ [CHR 0x0D, CHR 0x0A])"
    by (rule read_opt_space_stops [OF s2(2)]) (use assms(2) stops_line in \<open>auto simp: line_text_def\<close>)
  have lt: "\<forall>c\<in>set t. to_int c \<notin> {-1, 0x0D, 0x0A}" "trim t = t" using assms(2) by (auto simp: line_text_def)
  from read_rest_at [OF s3 lt(1), of "[]"] obtain s4 where
    s4: "read_all (read_opt_space s2) = (t, s4)" "at s4 [CHR 0x0D, CHR 0x0A]"
    using lt(2) by (auto simp: read_all_def)
  have "at (read_opt_space s4) [CHR 0x0D, CHR 0x0A]"
    by (rule read_opt_space_stops [of s4 "[]"]) (use s4(2) in \<open>auto simp: stops_def is_whitespace_def to_int_def\<close>)
  then obtain s5 where "read_crlf (read_opt_space s4) = (True, s5)" using read_crlf_at by blast
  then show ?thesis using s1(1) s2(1) s4(1) by (simp add: header_add_line_def)
qed

section \<open>Values\<close>

text \<open>Elements of a list: each reader gives the element back and stops before the separator.\<close>

definition ends_element :: "string \<Rightarrow> bool" where
  "ends_element rest \<longleftrightarrow> rest = [] \<or> (\<exists>r. r \<noteq> [] \<and> rest = '', '' @ r)"

definition reads_back :: "(scanner \<Rightarrow> ('a \<times> scanner) http) \<Rightarrow> ('a \<Rightarrow> string) \<Rightarrow> 'a \<Rightarrow> bool" where
  "reads_back elem f x \<longleftrightarrow> f x \<noteq> [] \<and> \<not> is_whitespace (to_int (hd (f x))) \<and>
     (\<forall>s rest. at s (f x @ rest) \<longrightarrow> ends_element rest \<longrightarrow> (\<exists>s'. elem s = Inr (x, s') \<and> at s' rest))"

lemma next_element_end: "at s [] \<Longrightarrow> next_element s = None"
proof -
  assume s: "at s []"
  have "at (read_opt_space s) []" by (rule read_opt_space_stops [of s "[]"]) (use s in \<open>auto simp: stops_def\<close>)
  from read_special_end [OF this, of "0x2C"] show ?thesis by (auto simp: next_element_def)
qed

lemma next_element_comma:
  assumes "at s ('', '' @ r)" "r \<noteq> []" "stops is_whitespace r"
  shows "\<exists>s'. next_element s = Some s' \<and> at s' r"
proof -
  have s1: "at (read_opt_space s) (CHR '','' # '' '' @ r)"
    by (rule read_opt_space_stops [of s "[]"]) (use assms in \<open>auto simp: stops_def is_whitespace_def to_int_def\<close>)
  then obtain s2 where s2: "read_special 0x2C (read_opt_space s) = (True, s2)" "at s2 ('' '' @ r)"
    using read_special_at(1) [OF s1, of "0x2C"] by (auto simp: to_int_def)
  have "at (read_opt_space s2) r" by (rule read_opt_space_stops [OF s2(2)]) (use assms in auto)
  with s2(1) show ?thesis by (auto simp: next_element_def)
qed

lemma seq_str_Nil: "(\<And>x. x \<in> set xs \<Longrightarrow> f x \<noteq> []) \<Longrightarrow> xs \<noteq> [] \<Longrightarrow> seq_str f xs \<noteq> []"
  by (induction f xs rule: seq_str.induct) auto

lemma hd_seq_str: "f x \<noteq> [] \<Longrightarrow> hd (seq_str f (x # xs)) = hd (f x)"
  by (cases xs) auto

lemma tl_seq_str: "tl (f x) \<noteq> [] \<Longrightarrow> tl (seq_str f (x # xs)) \<noteq> []"
  by (cases xs; cases "f x") auto

lemma read_list_str:
  assumes "xs \<noteq> []" "\<And>x. x \<in> set xs \<Longrightarrow> reads_back elem f x" "at s (seq_str f xs)" "length (seq_str f xs) < n"
    and "\<And>x. x \<in> set (tl xs) \<Longrightarrow> tl (f x) \<noteq> []"
  shows "read_list n elem acc s = Inr (acc @ xs)"
  using assms
proof (induction xs arbitrary: n acc s)
  case (Cons x xs)
  obtain m where n: "n = Suc m" using Cons.prems(4) by (cases n) auto
  have x: "reads_back elem f x" using Cons.prems(2) by simp
  show ?case
  proof (cases xs)
    case Nil
    then have "at s (f x @ [])" using Cons.prems(3) by simp
    then obtain s1 where "elem s = Inr (x, s1)" "at s1 []" using x unfolding reads_back_def ends_element_def by blast
    with next_element_end Nil n show ?thesis by simp
  next
    case (Cons y ys)
    let ?r = "seq_str f xs"
    have r: "?r \<noteq> []" using Cons seq_str_Nil [of xs f] Cons.prems(2) by (auto simp: reads_back_def)
    have "at s (f x @ '', '' @ ?r)" using Cons.prems(3) Cons by simp
    then obtain s1 where s1: "elem s = Inr (x, s1)" "at s1 ('', '' @ ?r)"
      using x r unfolding reads_back_def ends_element_def by blast
    have "reads_back elem f y" "tl (f y) \<noteq> []" using Cons.prems(2,5) Cons by simp_all
    then have "f y \<noteq> []" "\<not> is_whitespace (to_int (hd ?r))" "tl ?r \<noteq> []"
      using Cons by (auto simp: reads_back_def hd_seq_str tl_seq_str)
    then obtain s2 where s2: "next_element s1 = Some s2" "at s2 ?r"
      using next_element_comma [OF s1(2) r] by (auto simp: stops_def)
    have "set (tl xs) \<subseteq> set (tl (x # xs))" by (cases xs) auto
    then have "read_list m elem (acc @ [x]) s2 = Inr ((acc @ [x]) @ xs)"
      using Cons.IH [of s2 m "acc @ [x]"] Cons Cons.prems n s2(2) by auto
    then show ?thesis using s1(1) s2(1) n by simp
  qed
qed simp

lemma parse_list_str:
  assumes "\<And>x. x \<in> set xs \<Longrightarrow> reads_back elem f x" "\<And>x. x \<in> set (tl xs) \<Longrightarrow> tl (f x) \<noteq> []"
  shows "parse_list elem (seq_str f xs) = Inr xs"
proof (cases "xs = []")
  case False
  then have "seq_str f xs \<noteq> []" using assms(1) seq_str_Nil [of xs f] by (auto simp: reads_back_def)
  then show ?thesis using read_list_str [OF False assms(1) at_new _ assms(2), of "length (seq_str f xs) + 1" "[]"]
    by (simp add: parse_list_def del: read_list.simps)
qed (simp add: parse_list_def)

lemma ends_stops: "ends_element rest \<Longrightarrow> stops is_tchar rest \<and> stops is_whitespace rest"
  by (auto simp: ends_element_def stops_def is_tchar_def is_whitespace_def to_int_def)

lemma token_not_space: "token_text t \<Longrightarrow> t \<noteq> [] \<and> \<not> is_whitespace (to_int (hd t))"
  by (cases t) (auto simp: token_text_def is_tchar_def is_whitespace_def)

lemma lower_token: "token_text t \<Longrightarrow> map to_lower t = t"
  by (simp add: token_text_def map_idI)

lemma reads_back_string: "token_text t \<Longrightarrow> reads_back string_element id t"
  unfolding reads_back_def
proof (intro conjI allI impI)
  fix s rest
  assume t: "token_text t" "at s (id t @ rest)" "ends_element rest"
  then obtain s' where "read_token True s = (t \<noteq> [], map to_lower t, s')" "at s' rest"
    using read_token_stops [of s t rest True] ends_stops by (auto simp: token_text_def)
  then show "\<exists>s'. string_element s = Inr (t, s') \<and> at s' rest"
    using t(1) lower_token [OF t(1)] by (auto simp: string_element_def token_text_def)
qed (use token_not_space in auto)

lemma reads_back_token: "token_text (tk_name t) \<Longrightarrow> tk_params t = [] \<Longrightarrow> reads_back token_element htoken_str t"
  unfolding reads_back_def
proof (intro conjI allI impI)
  fix s rest
  assume t: "token_text (tk_name t)" "tk_params t = []" "at s (htoken_str t @ rest)" "ends_element rest"
  then obtain s1 where s1: "read_token True s = (True, tk_name t, s1)" "at s1 rest"
    using read_token_stops [of s "tk_name t" rest True] ends_stops lower_token [OF t(1)]
    by (auto simp: token_text_def htoken_str_def params_str_def)
  have s2: "at (read_opt_space s1) rest"
    by (rule read_opt_space_stops [of s1 "[]"]) (use s1 ends_stops [OF t(4)] in auto)
  have "\<exists>s'. read_special 0x3B (read_opt_space s1) = (False, s') \<and> at s' rest"
    using t(4) s2 read_special_end [of _ "0x3B"] read_special_at(2) [of "read_opt_space s1" _ _ "0x3B"]
    by (auto simp: ends_element_def to_int_def)
  with s1(1) t(1,2) show "\<exists>s'. token_element s = Inr (t, s') \<and> at s' rest"
    by (cases t) (auto simp: token_element_def)
qed (use token_not_space in \<open>auto simp: htoken_str_def params_str_def\<close>)

lemma decimal_value_snoc: "decimal_value (xs @ [d]) = 10 * decimal_value xs + (int (ch d) - 48)"
  by (simp add: decimal_value_def)

lemma nat_str_decimal: "nat_str n \<noteq> [] \<and> list_all is_digit (nat_str n) \<and> decimal_value (nat_str n) = int n"
proof (induction n rule: nat_str.induct)
  case (1 n)
  show ?case
  proof (cases "n < 10")
    case True
    then show ?thesis by (subst (1 2 3) nat_str.simps) (simp add: is_digit_def ch_mk decimal_value_def)
  next
    case False
    have d: "ch (mk (48 + n mod 10)) = 48 + n mod 10" by (rule ch_mk) (use mod_less_divisor [of 10 n] in linarith)
    have m: "n mod 10 < 10" by simp
    have "int (10 * (n div 10) + n mod 10) = int n" by simp
    then have "10 * int (n div 10) + int (n mod 10) = int n" by (simp only: of_nat_add of_nat_mult of_nat_numeral)
    moreover have "is_digit (mk (48 + n mod 10))" using d m unfolding is_digit_def by linarith
    ultimately show ?thesis
      using False 1 [OF False] d by (subst (1 2 3) nat_str.simps) (simp add: decimal_value_snoc)
  qed
qed

lemma parse_number_str: "0 \<le> n \<Longrightarrow> n < 2 ^ 64 \<Longrightarrow> parse_number (int_str n) = Inr n"
  using nat_str_decimal [of "nat n"] by (simp add: parse_number_def int_str_def)

definition host_uri :: "host_port_v \<Rightarrow> uri" where
  "host_uri hp = empty_uri\<lparr>u_scheme := ''http'', u_host := hp_host hp,
     u_port := (if hp_port hp = 0 then [] else nat_str (hp_port hp))\<rparr>"

lemma plain_host_uri:
  assumes "plain_host (hp_host hp)" "hp_port hp < 0x10000"
  shows "plain_uri (host_uri hp)" "uri_str (host_uri hp) = ''http://'' @ host_port_str hp"
proof -
  have sch: "scheme_valid ''http''" "list_all (\<lambda>c. to_lower c = c) ''http''" by code_simp+
  have "hp_port hp \<noteq> 0 \<Longrightarrow> port_valid (nat_str (hp_port hp)) = Inr True"
    using nat_str_decimal [of "hp_port hp"] assms(2) by (simp add: port_valid_def)
  with sch show p: "plain_uri (host_uri hp)"
    using assms(1) by (simp add: plain_uri_def host_uri_def empty_uri_def plain_path_def)
  show "uri_str (host_uri hp) = ''http://'' @ host_port_str hp"
    using uri_str_plain [OF p] nat_str_decimal [of "hp_port hp"]
    by (simp add: host_uri_def empty_uri_def authority_text_def query_text_def fragment_text_def no_path_def host_port_str_def)
qed

lemma parse_host_port_str:
  assumes "plain_host (hp_host hp)" "hp_port hp < 0x10000"
  shows "parse_host_port ip4 ip6 (host_port_str hp) = Inr hp"
proof -
  note u = plain_host_uri [OF assms]
  have "hp_host hp \<noteq> []" using assms(1) by (simp add: plain_host_def)
  moreover have "uri_parse ip4 ip6 (''http://'' @ host_port_str hp) = Inr (host_uri hp)"
    using plain_uri_parses [OF u(1), of ip4 ip6] unfolding u(2) .
  ultimately show ?thesis
    using nat_str_decimal [of "hp_port hp"] unfolding parse_host_port_def as_bad_message_def
    by (cases hp) (simp add: host_uri_def empty_uri_def)
qed

text \<open>
  Fields whose output reads back: a length, tokens in lower case, a host name that needs no
  encoding, a supported media type. In a list of several tokens each has two characters or more:
  the scanner cannot push the last character of its input back, so it skips over a single last one.
\<close>

definition tokens_text :: "string list \<Rightarrow> bool" where
  "tokens_text ts \<longleftrightarrow> list_all token_text ts \<and> list_all (\<lambda>t. tl t \<noteq> []) (tl ts)"

definition special_names :: "string list" where
  "special_names = [''content-length'', ''transfer-encoding'', ''te'', ''host'', ''via'', ''connection'', ''content-type'',
     ''content-encoding'', ''content-location'', ''date'']"

definition cnxn_names :: "string list" where "cnxn_names = [''close'', ''keep-alive'', ''upgrade'']"
definition coding_names :: "string list" where
  "coding_names = [''compress'', ''x-compress'', ''gzip'', ''x-gzip'', ''deflate'']"

definition plain_value :: "string \<Rightarrow> 'd hval \<Rightarrow> bool" where
  "plain_value n v =
     (case v of
        NumV k \<Rightarrow> n = ''content-length'' \<and> 0 \<le> k \<and> k < 2 ^ 64
      | TokSeq ts \<Rightarrow> n \<in> {''transfer-encoding'', ''te''} \<and> tokens_text (map tk_name ts) \<and> list_all (\<lambda>t. tk_params t = []) ts
      | StrSeq ss \<Rightarrow> n \<notin> set special_names \<and> tokens_text ss
      | HostV hp \<Rightarrow> n = ''host'' \<and> plain_host (hp_host hp) \<and> hp_port hp < 0x10000
      | CnxnSeq ss \<Rightarrow> n = ''connection'' \<and> set ss \<subseteq> set cnxn_names
      | CeSeq ss \<Rightarrow> n = ''content-encoding'' \<and> set ss \<subseteq> set coding_names
      | MediaV mt \<Rightarrow> n = ''content-type'' \<and>
          mt \<in> {\<lparr>mt_type = ''text'', mt_subtype = ''plain'', mt_params = []\<rparr>,
                \<lparr>mt_type = ''application'', mt_subtype = ''json'', mt_params = []\<rparr>}
      | _ \<Rightarrow> False)"

lemma tl_map_tokens: "list_all (\<lambda>t. tl t \<noteq> []) (tl (map tk_name ts)) \<Longrightarrow> t \<in> set (tl ts) \<Longrightarrow> tl (tk_name t) \<noteq> []"
  by (cases ts) (auto simp: list_all_iff)

lemma parse_strings_str: "tokens_text ss \<Longrightarrow> parse_strings (seq_str id ss) = Inr ss"
  unfolding parse_strings_def
  by (rule parse_list_str) (auto simp: tokens_text_def list_all_iff intro: reads_back_string)

lemma parse_tokens_str:
  "tokens_text (map tk_name ts) \<Longrightarrow> list_all (\<lambda>t. tk_params t = []) ts \<Longrightarrow> parse_tokens (seq_str htoken_str ts) = Inr ts"
  unfolding parse_tokens_def
proof (rule parse_list_str)
  assume ts: "tokens_text (map tk_name ts)" "list_all (\<lambda>t. tk_params t = []) ts"
  show "reads_back token_element htoken_str t" if "t \<in> set ts" for t
    using ts that by (intro reads_back_token) (auto simp: tokens_text_def list_all_iff)
  show "tl (htoken_str t) \<noteq> []" if "t \<in> set (tl ts)" for t
  proof -
    have "t \<in> set ts" using that by (cases ts) auto
    with ts that tl_map_tokens [of ts t] show ?thesis
      by (auto simp: tokens_text_def htoken_str_def params_str_def list_all_iff)
  qed
qed

lemma check_all_ok: "\<forall>x\<in>set xs. v x = Inr () \<Longrightarrow> check_all v xs = Inr ()"
  by (induction xs) auto

definition known :: "string list" where
  "known = [''close'', ''keep-alive'', ''upgrade'', ''compress'', ''x-compress'', ''gzip'', ''x-gzip'', ''deflate'']"

lemma known_tokens:
  assumes "set ss \<subseteq> set known"
  shows "tokens_text ss"
proof -
  have "list_all token_text known" "list_all (\<lambda>t. tl t \<noteq> []) known" by code_simp+
  moreover have "set (tl ss) \<subseteq> set ss" by (cases ss) auto
  ultimately show ?thesis using assms by (auto simp: tokens_text_def list_all_iff)
qed

lemma known_lists:
  "list_all (\<lambda>c. c \<in> set known \<and> valid_connection c = Inr ()) cnxn_names"
  "list_all (\<lambda>c. c \<in> set known \<and> valid_encoding c = Inr ()) coding_names"
  by code_simp+

lemma known_ok:
  "set ss \<subseteq> set cnxn_names \<Longrightarrow> tokens_text ss \<and> check_all valid_connection ss = Inr ()"
  "set ss \<subseteq> set coding_names \<Longrightarrow> tokens_text ss \<and> check_all valid_encoding ss = Inr ()"
  using known_lists known_tokens [of ss] check_all_ok [of ss] unfolding list_all_iff by blast+

lemma header_value_str:
  assumes "plain_value n v"
  shows "header_value ip4 ip6 pd n (hval_str sd v) = Inr v"
proof (cases v)
  case (NumV k)
  with assms show ?thesis by (simp add: plain_value_def header_value_def hval_str_def parse_number_str)
next
  case (TokSeq ts)
  with assms show ?thesis by (auto simp: plain_value_def header_value_def hval_str_def parse_tokens_str)
next
  case (StrSeq ss)
  with assms show ?thesis by (simp add: plain_value_def header_value_def hval_str_def parse_strings_str special_names_def)
next
  case (HostV hp)
  with assms show ?thesis by (simp add: plain_value_def header_value_def hval_str_def parse_host_port_str)
next
  case (CnxnSeq ss)
  with assms have "tokens_text ss" "check_all valid_connection ss = Inr ()"
    using known_ok(1) by (simp_all add: plain_value_def)
  with CnxnSeq assms show ?thesis
    by (simp add: plain_value_def header_value_def hval_str_def parse_strings_str checked_def)
next
  case (CeSeq ss)
  with assms have "tokens_text ss" "check_all valid_encoding ss = Inr ()"
    using known_ok(2) by (simp_all add: plain_value_def)
  with CeSeq assms show ?thesis
    by (simp add: plain_value_def header_value_def hval_str_def parse_strings_str checked_def)
next
  case (MediaV mt)
  have "parse_media_type ''text/plain'' = Inr \<lparr>mt_type = ''text'', mt_subtype = ''plain'', mt_params = []\<rparr>"
    "parse_media_type ''application/json'' = Inr \<lparr>mt_type = ''application'', mt_subtype = ''json'', mt_params = []\<rparr>"
    by code_simp+
  with MediaV assms show ?thesis
    by (auto simp: plain_value_def header_value_def hval_str_def media_type_str_def params_str_def valid_media_type_def)
qed (use assms in \<open>auto simp: plain_value_def\<close>)

section \<open>The text of a value\<close>

abbreviation visible :: "char \<Rightarrow> bool" where "visible c \<equiv> is_vchar (to_int c)"

lemma punctuation_visible: "visible (CHR '','')" "visible (CHR '':'')"
  by code_simp+

lemma trim_id: "t = [] \<or> (\<not> trim_char (hd t) \<and> \<not> trim_char (last t)) \<Longrightarrow> trim t = t"
proof -
  assume t: "t = [] \<or> (\<not> trim_char (hd t) \<and> \<not> trim_char (last t))"
  then have "dropWhile trim_char t = t" "dropWhile trim_char (rev t) = rev t"
    by (auto simp: dropWhile_eq_self_iff hd_rev)
  then show ?thesis by (simp add: trim_def)
qed

lemma visible_trim: "visible c \<Longrightarrow> \<not> trim_char c"
  using to_int_nonneg [of c] by (auto simp: is_vchar_def trim_char_def)

lemma line_textI:
  assumes "\<forall>c\<in>set t. visible c \<or> c = CHR '' ''" "t = [] \<or> (visible (hd t) \<and> visible (last t))"
  shows "line_text t"
proof -
  have "to_int c \<notin> {-1, 0x0D, 0x0A}" if "c \<in> set t" for c
    using that assms(1) by (auto simp: is_vchar_def to_int_def)
  then show ?thesis using assms(2) visible_trim by (auto simp: line_text_def intro!: trim_id)
qed

lemma line_text_visible: "\<forall>c\<in>set t. visible c \<Longrightarrow> line_text t"
  by (rule line_textI) auto

lemma set_seq_str: "set (seq_str f xs) \<subseteq> (\<Union>x\<in>set xs. set (f x)) \<union> {CHR '','', CHR '' ''}"
  by (induction f xs rule: seq_str.induct) auto

lemma last_seq_str: "(\<And>x. x \<in> set xs \<Longrightarrow> f x \<noteq> []) \<Longrightarrow> xs \<noteq> [] \<Longrightarrow> last (seq_str f xs) = last (f (last xs))"
proof (induction f xs rule: seq_str.induct)
  case (3 f x y xs)
  have "seq_str f (y # xs) \<noteq> []" by (rule seq_str_Nil) (use 3(2) in auto)
  with 3 show ?case by simp
qed simp_all

lemma line_text_seq:
  assumes "\<And>x. x \<in> set xs \<Longrightarrow> f x \<noteq> [] \<and> (\<forall>c\<in>set (f x). visible c)"
  shows "line_text (seq_str f xs)"
proof (cases xs)
  case (Cons x ys)
  have ne: "f x \<noteq> []" "f (last xs) \<noteq> []" using assms [of x] assms [of "last xs"] Cons by auto
  have "hd (seq_str f xs) \<in> set (f x)" "last (seq_str f xs) \<in> set (f (last xs))"
    using ne Cons last_seq_str [of xs f] assms by (auto simp: hd_seq_str)
  then have "visible (hd (seq_str f xs))" "visible (last (seq_str f xs))"
    using assms [of x] assms [of "last xs"] Cons by auto
  moreover have "visible c \<or> c = CHR '' ''" if "c \<in> set (seq_str f xs)" for c
    using that set_seq_str [of f xs] assms punctuation_visible(1) by blast
  ultimately show ?thesis by (intro line_textI) auto
qed (auto intro: line_textI)

lemma tchar_visible: "is_tchar (to_int c) \<Longrightarrow> visible c"
  by (auto simp: is_tchar_def is_vchar_def)

lemma digit_visible: "is_digit c \<Longrightarrow> visible c"
  by (auto simp: is_digit_def is_vchar_def to_int_def)

lemma nat_str_visible: "\<forall>c\<in>set (nat_str n). visible c"
  using nat_str_decimal [of n] digit_visible by (auto simp: list_all_iff)

lemma uri_char_visible: "uri_unreserved_character c \<or> uri_subcomponent_delimiter c \<Longrightarrow> visible c"
  by (auto simp: uri_unreserved_character_def uri_subcomponent_delimiter_def is_alpha_def is_digit_def is_vchar_def to_int_def)

lemma token_visible: "token_text t \<Longrightarrow> t \<noteq> [] \<and> (\<forall>c\<in>set t. visible c)"
  using tchar_visible by (auto simp: token_text_def)

lemma value_line_text:
  assumes "plain_value n v"
  shows "line_text (hval_str sd v)"
proof (cases v)
  case (NumV k)
  with assms nat_str_visible show ?thesis by (simp add: plain_value_def hval_str_def int_str_def line_text_visible)
next
  case (TokSeq ts)
  with assms show ?thesis
    using token_visible
    by (auto simp: plain_value_def hval_str_def htoken_str_def params_str_def tokens_text_def list_all_iff intro!: line_text_seq)
next
  case (StrSeq ss)
  with assms show ?thesis
    using token_visible by (auto simp: plain_value_def hval_str_def tokens_text_def list_all_iff intro!: line_text_seq)
next
  case (HostV hp)
  with assms show ?thesis
    using uri_char_visible nat_str_visible punctuation_visible(2)
    by (auto simp: plain_value_def hval_str_def host_port_str_def plain_host_def list_all_iff intro!: line_text_visible)
next
  case (CnxnSeq ss)
  with assms known_ok(1) [of ss] show ?thesis
    using token_visible by (auto simp: plain_value_def hval_str_def tokens_text_def list_all_iff intro!: line_text_seq)
next
  case (CeSeq ss)
  with assms known_ok(2) [of ss] show ?thesis
    using token_visible by (auto simp: plain_value_def hval_str_def tokens_text_def list_all_iff intro!: line_text_seq)
next
  case (MediaV mt)
  have "line_text ''text/plain''" "line_text ''application/json''" by code_simp+
  with MediaV assms show ?thesis by (auto simp: plain_value_def hval_str_def media_type_str_def params_str_def)
qed (use assms in \<open>auto simp: plain_value_def\<close>)

definition plain_field :: "string \<times> 'd base_value \<Rightarrow> bool" where
  "plain_field h \<longleftrightarrow> token_text (fst h) \<and> plain_value (fst h) (m_value (snd h))"

text \<open>The field as it is after output and input: the raw text is the text of the value.\<close>

definition reread :: "('d \<Rightarrow> string) \<Rightarrow> string \<times> 'd base_value \<Rightarrow> string \<times> 'd base_value" where
  "reread sd h = (fst h, \<lparr>m_raw = hval_str sd (m_value (snd h)), m_value = m_value (snd h)\<rparr>)"

lemma add_line_field:
  assumes "plain_field h" "fst h \<notin> set (names hs)"
  shows "header_add_line ip4 ip6 pd (header_line sd h) hs = Inr (hs @ [reread sd h])"
proof -
  have n: "token_text (fst h)" "plain_value (fst h) (m_value (snd h))" using assms(1) by (auto simp: plain_field_def)
  note l = add_line_text [OF n(1) value_line_text [OF n(2)], of ip4 ip6 pd sd hs]
  have "fst h \<noteq> []" "map to_lower (fst h) = fst h" using n(1) lower_token by (auto simp: token_text_def)
  moreover have "header_find (fst h) hs = None" using assms(2) by (simp only: find_None not_False_eq_True)
  ultimately show ?thesis
    using l header_value_str [OF n(2), of ip4 ip6 pd sd]
    by (simp add: header_line_def header_add_def header_validate_def reread_def)
qed

text \<open>
  The scanner cannot push back the last character of its input. The white space that follows a
  comma is read up to and including the next character, which is pushed back only if another one
  follows: a list whose last element is a single character is rejected, although the same element
  alone, or followed by another, is accepted.
\<close>

lemma last_character_lost:
  "parse_strings ''gzip, a'' = Inl BadMessage \<and> parse_strings ''a'' = Inr [''a''] \<and>
   parse_strings ''a, gzip'' = Inr [''a'', ''gzip''] \<and> parse_strings ''gzip,a'' = Inl BadMessage"
  by code_simp

end
