(* ===== verification/Net_Io.thy ===== *)
theory Net_Io
  imports Text_Format
begin

text \<open>
  Stream I/O of libnet: the reading and writing loops of a socket (\<^verbatim>\<open>src/sock.cpp\<close>, Unix branch)
  and the nio base class on top of them (\<^verbatim>\<open>src/nio.cpp\<close>, \<^verbatim>\<open>include/nio.h\<close>): an optional read
  buffer, characters, integers in network order, strings with a length prefix, and lines. The two
  virtual functions a device provides, \<^verbatim>\<open>readn\<close> and \<^verbatim>\<open>writen\<close>, are the operations of a locale,
  which is interpreted on the socket. The operating system below a socket is the data still to
  arrive and a schedule of what the next polls and transfers do. Bytes are characters.
\<close>

section \<open>The socket\<close>

definition E_connection_reset :: int where "E_connection_reset = -26"
definition E_broken_pipe :: int where "E_broken_pipe = -29"
definition E_timed_out :: int where "E_timed_out = -30"

datatype sys_errno = EAGAIN | ECONNRESET | ECONNABORTED | ETIMEDOUT | EPIPE | EOTHER

definition map_system_error :: "sys_errno option \<Rightarrow> int \<Rightarrow> int" where
  "map_system_error error default_retval =
     (if error = Some EAGAIN then E_try_again
      else if error = Some ECONNRESET \<or> error = Some ECONNABORTED then E_connection_reset
      else if error = Some ETIMEDOUT then E_timed_out
      else if error = Some EPIPE then E_broken_pipe
      else default_retval)"

text \<open>
  A transfer moves at most \<open>k + 1\<close> bytes, is interrupted, or fails; beyond the schedule it moves all
  it is asked for. A poll finds the socket ready, or not (after the time-out, or with an error).
\<close>

datatype xfer = Moves nat | Interrupted | Fails sys_errno

datatype poll_result = Ready | NotReady "sys_errno option"

record socket =
  sk_in :: string
  sk_out :: string
  sk_blocking :: bool
  sk_xfers :: "xfer list"
  sk_polls :: "poll_result list"

definition sock_poll :: "socket \<Rightarrow> poll_result \<times> socket" where
  "sock_poll s = (case sk_polls s of [] \<Rightarrow> (Ready, s) | p # ps \<Rightarrow> (p, s\<lparr>sk_polls := ps\<rparr>))"

definition next_xfer :: "socket \<Rightarrow> nat \<Rightarrow> (sys_errno option + nat) \<times> socket" where
  "next_xfer s want =
     (case sk_xfers s of
        [] \<Rightarrow> (Inr want, s)
      | x # xs \<Rightarrow>
          ((case x of Moves k \<Rightarrow> Inr (min want (Suc k)) | Interrupted \<Rightarrow> Inl None | Fails e \<Rightarrow> Inl (Some e)), s\<lparr>sk_xfers := xs\<rparr>))"

text \<open>\<open>Inl None\<close> is EINTR.\<close>

definition sys_recv :: "socket \<Rightarrow> nat \<Rightarrow> (sys_errno option + string) \<times> socket" where
  "sys_recv s n =
     (case next_xfer s n of
        (Inl e, s) \<Rightarrow> (Inl e, s)
      | (Inr k, s) \<Rightarrow> (Inr (take k (sk_in s)), s\<lparr>sk_in := drop k (sk_in s)\<rparr>))"

definition sys_send :: "socket \<Rightarrow> string \<Rightarrow> (sys_errno option + nat) \<times> socket" where
  "sys_send s bs =
     (case next_xfer s (length bs) of
        (Inl e, s) \<Rightarrow> (Inl e, s)
      | (Inr k, s) \<Rightarrow> (Inr k, s\<lparr>sk_out := sk_out s @ take k bs\<rparr>))"

text \<open>One wait of a non-blocking socket; a blocking one waits inside the transfer.\<close>

definition sock_wait :: "socket \<Rightarrow> sys_errno option option \<times> socket" where
  "sock_wait s =
     (if sk_blocking s then (None, s)
      else case sock_poll s of (Ready, s) \<Rightarrow> (None, s) | (NotReady e, s) \<Rightarrow> (Some e, s))"

lemma next_xfer_len:
  "next_xfer s n = (r, s') \<Longrightarrow> length (sk_xfers s') \<le> length (sk_xfers s) \<and> (\<forall>e. r = Inl e \<longrightarrow> length (sk_xfers s') < length (sk_xfers s)) \<and>
     (\<forall>k. r = Inr k \<longrightarrow> 0 < n \<longrightarrow> 0 < k \<and> k \<le> n)"
  by (auto simp: next_xfer_def split: list.splits xfer.splits)

lemma sock_wait_same: "sock_wait s = (r, s') \<Longrightarrow> sk_xfers s' = sk_xfers s \<and> sk_in s' = sk_in s \<and> sk_out s' = sk_out s"
  by (auto simp: sock_wait_def sock_poll_def split: if_splits list.splits poll_result.splits)

function readn_loop :: "socket \<Rightarrow> nat \<Rightarrow> string \<Rightarrow> int \<times> string \<times> socket" where
  "readn_loop s to_read acc =
     (case sock_wait s of
        (Some e, s1) \<Rightarrow> (map_system_error e E_read_failed, acc, s1)
      | (None, s1) \<Rightarrow>
          (case sys_recv s1 to_read of
             (Inl None, s2) \<Rightarrow> readn_loop s2 to_read acc
           | (Inl (Some e), s2) \<Rightarrow> (map_system_error (Some e) E_read_failed, acc, s2)
           | (Inr bs, s2) \<Rightarrow>
               if bs = [] then (E_ok, acc, s2)
               else if to_read > length bs then readn_loop s2 (to_read - length bs) (acc @ bs)
               else (E_ok, acc @ bs, s2)))"
  by pat_completeness auto

lemma sys_recv_len:
  "sys_recv s n = (r, s') \<Longrightarrow> length (sk_xfers s') \<le> length (sk_xfers s) \<and> (\<forall>e. r = Inl e \<longrightarrow> length (sk_xfers s') < length (sk_xfers s))"
  using next_xfer_len [of s n] by (fastforce simp: sys_recv_def split: prod.splits sum.splits)

termination readn_loop
proof (relation "measure (\<lambda>(s, n, _). length (sk_xfers s) + n)", simp, goal_cases)
  case (1 s to_read acc x s1 y s2 e)
  then show ?case using sys_recv_len [OF 1(3) [symmetric]] by (auto dest!: sock_wait_same [OF sym])
next
  case (2 s to_read acc x s1 y s2 bs)
  have "length (sk_xfers s2) \<le> length (sk_xfers s)"
    using sys_recv_len [OF 2(3) [symmetric]] sock_wait_same [OF 2(1) [symmetric]] by simp
  with 2(5,6) show ?case by (cases bs) auto
qed

declare readn_loop.simps [simp del]

function writen_loop :: "socket \<Rightarrow> string \<Rightarrow> nat \<Rightarrow> int \<times> nat \<times> socket" where
  "writen_loop s bs nbytes =
     (case sock_wait s of
        (Some e, s1) \<Rightarrow> (map_system_error e E_write_failed, nbytes, s1)
      | (None, s1) \<Rightarrow>
          (case sys_send s1 bs of
             (Inl None, s2) \<Rightarrow> writen_loop s2 bs nbytes
           | (Inl (Some e), s2) \<Rightarrow> (map_system_error (Some e) E_write_failed, nbytes, s2)
           | (Inr n, s2) \<Rightarrow>
               if n = 0 then (E_ok, nbytes, s2)
               else if length bs > n then writen_loop s2 (drop n bs) (nbytes + n)
               else (E_ok, nbytes + n, s2)))"
  by pat_completeness auto

lemma sys_send_len:
  "sys_send s n = (r, s') \<Longrightarrow> length (sk_xfers s') \<le> length (sk_xfers s) \<and> (\<forall>e. r = Inl e \<longrightarrow> length (sk_xfers s') < length (sk_xfers s))"
  using next_xfer_len [of s "length n"] by (fastforce simp: sys_send_def split: prod.splits sum.splits)

termination writen_loop
proof (relation "measure (\<lambda>(s, bs, _). length (sk_xfers s) + length bs)", simp, goal_cases)
  case (1 s bs nbytes x s1 y s2 e)
  then show ?case using sys_send_len [OF 1(3) [symmetric]] by (auto dest!: sock_wait_same [OF sym])
next
  case (2 s bs nbytes x s1 y s2 n)
  have "length (sk_xfers s2) \<le> length (sk_xfers s)"
    using sys_send_len [OF 2(3) [symmetric]] sock_wait_same [OF 2(1) [symmetric]] by simp
  with 2(5,6) show ?case by simp
qed

declare writen_loop.simps [simp del]

text \<open>
  A time-out other than "wait forever" makes a blocking socket non-blocking for the call; the mode is
  restored at the end. The pointers of the callers modelled here are not null.
\<close>

definition sock_readn :: "bool \<Rightarrow> socket \<Rightarrow> int \<Rightarrow> int \<times> string \<times> socket" where
  "sock_readn forever s to_read =
     (if to_read \<le> 0 then (E_invalid_arg, [], s)
      else
        let reset = (\<not> forever \<and> sk_blocking s);
            (r, bs, s1) = readn_loop (if reset then s\<lparr>sk_blocking := False\<rparr> else s) (nat to_read) []
        in (r, bs, if reset then s1\<lparr>sk_blocking := True\<rparr> else s1))"

definition sock_writen :: "bool \<Rightarrow> socket \<Rightarrow> string \<Rightarrow> int \<times> nat \<times> socket" where
  "sock_writen forever s bs =
     (if bs = [] then (E_invalid_arg, 0, s)
      else
        let reset = (\<not> forever \<and> sk_blocking s);
            (r, n, s1) = writen_loop (if reset then s\<lparr>sk_blocking := False\<rparr> else s) bs 0
        in (r, n, if reset then s1\<lparr>sk_blocking := True\<rparr> else s1))"

section \<open>The contract of a device\<close>

text \<open>
  A device without failures pending: a read gives the next bytes, as many as asked for unless the
  stream ends first; a write appends all its bytes.
\<close>

locale byte_device =
  fixes readn :: "'s \<Rightarrow> int \<Rightarrow> int \<times> string \<times> 's"
    and writen :: "'s \<Rightarrow> string \<Rightarrow> int \<times> nat \<times> 's"
    and incoming :: "'s \<Rightarrow> string"
    and sent :: "'s \<Rightarrow> string"
    and healthy :: "'s \<Rightarrow> bool"
  assumes read_law: "healthy s \<Longrightarrow> 0 < n \<Longrightarrow>
      \<exists>s'. readn s n = (E_ok, take (nat n) (incoming s), s') \<and> incoming s' = drop (nat n) (incoming s) \<and> sent s' = sent s \<and> healthy s'"
    and write_law: "healthy s \<Longrightarrow> bs \<noteq> [] \<Longrightarrow>
      \<exists>s'. writen s bs = (E_ok, length bs, s') \<and> sent s' = sent s @ bs \<and> incoming s' = incoming s \<and> healthy s'"
    and reject_law: "n \<le> 0 \<Longrightarrow> readn s n = (E_invalid_arg, [], s)" "writen s [] = (E_invalid_arg, 0, s)"

definition no_failure :: "socket \<Rightarrow> bool" where
  "no_failure s \<longleftrightarrow> (\<forall>x\<in>set (sk_xfers s). \<forall>e. x \<noteq> Fails e) \<and> (\<forall>p\<in>set (sk_polls s). p = Ready)"

lemma wait_ok: "no_failure s \<Longrightarrow> \<exists>s'. sock_wait s = (None, s') \<and> no_failure s' \<and> sk_in s' = sk_in s \<and> sk_out s' = sk_out s"
  by (auto simp: sock_wait_def sock_poll_def no_failure_def split: list.splits poll_result.splits)

lemma xfer_ok:
  assumes "no_failure s" "0 < n" "next_xfer s n = (r, s')"
  shows "no_failure s' \<and> sk_in s' = sk_in s \<and> sk_out s' = sk_out s \<and> (r = Inl None \<or> (\<exists>k. r = Inr k \<and> 0 < k \<and> k \<le> n))"
  using assms by (auto simp: next_xfer_def no_failure_def split: list.splits xfer.splits)

lemma readn_loop_ok:
  "no_failure s \<Longrightarrow> 0 < n \<Longrightarrow>
   \<exists>s'. readn_loop s n acc = (E_ok, acc @ take n (sk_in s), s') \<and> sk_in s' = drop n (sk_in s) \<and> sk_out s' = sk_out s \<and> no_failure s'"
proof (induction s n acc rule: readn_loop.induct)
  case (1 s n acc)
  obtain s1 where s1: "sock_wait s = (None, s1)" "no_failure s1" "sk_in s1 = sk_in s" "sk_out s1 = sk_out s"
    using wait_ok [OF 1(3)] by blast
  obtain r t where x: "next_xfer s1 n = (r, t)" by (cases "next_xfer s1 n")
  note ok = xfer_ok [OF s1(2) 1(4) x]
  from ok consider "r = Inl None" | k where "r = Inr k" "0 < k" "k \<le> n" by blast
  then show ?case
  proof cases
    case 1
    then have rc: "sys_recv s1 n = (Inl None, t)" using x by (simp add: sys_recv_def)
    from "1.IH"(1) [OF s1(1) [symmetric] refl rc [symmetric] refl refl] ok \<open>0 < n\<close> s1 show ?thesis
      by (subst readn_loop.simps) (simp add: rc)
  next
    case 2
    define t2 where "t2 = t\<lparr>sk_in := drop k (sk_in t)\<rparr>"
    have rc: "sys_recv s1 n = (Inr (take k (sk_in s)), t2)" using 2 x ok s1 by (simp add: sys_recv_def t2_def)
    have t2: "no_failure t2" "sk_in t2 = drop k (sk_in s)" "sk_out t2 = sk_out s"
      using ok s1 by (auto simp: t2_def no_failure_def)
    show ?thesis
    proof (cases "length (take k (sk_in s)) < n \<and> take k (sk_in s) \<noteq> []")
      case True
      have "length (take k (sk_in s)) = min (length (sk_in s)) k" by simp
      then have e: "take k (sk_in s) @ take (n - length (take k (sk_in s))) (drop k (sk_in s)) = take n (sk_in s)"
          "drop (n - length (take k (sk_in s))) (drop k (sk_in s)) = drop n (sk_in s)"
        using 2(3) by (cases "length (sk_in s) \<le> k"; simp flip: take_add)+
      have d: "drop (n + k - min (length (sk_in s)) k) (sk_in s) = drop n (sk_in s)"
        using 2(3) by (cases "length (sk_in s) \<le> k") (auto simp: min_def)
      from "1.IH"(2) [OF s1(1) [symmetric] refl rc [symmetric] refl] True t2 obtain s' where
        "readn_loop t2 (n - length (take k (sk_in s))) (acc @ take k (sk_in s)) =
           (E_ok, acc @ take n (sk_in s), s') \<and> sk_in s' = drop n (sk_in s) \<and> sk_out s' = sk_out s \<and> no_failure s'"
        by (auto simp: e [simplified] d)
      then show ?thesis using True by (subst readn_loop.simps) (simp add: s1(1) rc)
    next
      case False
      then have "take k (sk_in s) = take n (sk_in s)" "drop k (sk_in s) = drop n (sk_in s)"
        using 2 by (auto simp: min_def split: if_splits)
      with False t2 s1(1) rc show ?thesis by (subst readn_loop.simps) auto
    qed
  qed
qed

lemma writen_loop_ok:
  "no_failure s \<Longrightarrow> bs \<noteq> [] \<Longrightarrow>
   \<exists>s'. writen_loop s bs k = (E_ok, k + length bs, s') \<and> sk_out s' = sk_out s @ bs \<and> sk_in s' = sk_in s \<and> no_failure s'"
proof (induction s bs k rule: writen_loop.induct)
  case (1 s bs k)
  obtain s1 where s1: "sock_wait s = (None, s1)" "no_failure s1" "sk_in s1 = sk_in s" "sk_out s1 = sk_out s"
    using wait_ok [OF 1(3)] by blast
  obtain r t where x: "next_xfer s1 (length bs) = (r, t)" by (cases "next_xfer s1 (length bs)")
  have pos: "0 < length bs" using 1(4) by simp
  note ok = xfer_ok [OF s1(2) pos x]
  from ok consider "r = Inl None" | n where "r = Inr n" "0 < n" "n \<le> length bs" by blast
  then show ?case
  proof cases
    case 1
    then have rc: "sys_send s1 bs = (Inl None, t)" using x by (simp add: sys_send_def)
    from "1.IH"(1) [OF s1(1) [symmetric] refl rc [symmetric] refl refl] ok \<open>bs \<noteq> []\<close> s1 show ?thesis
      by (subst writen_loop.simps) (simp add: rc)
  next
    case 2
    define t2 where "t2 = t\<lparr>sk_out := sk_out t @ take n bs\<rparr>"
    have rc: "sys_send s1 bs = (Inr n, t2)" using 2 x by (simp add: sys_send_def t2_def)
    have t2: "no_failure t2" "sk_in t2 = sk_in s" "sk_out t2 = sk_out s @ take n bs"
      using ok s1 by (auto simp: t2_def no_failure_def)
    show ?thesis
    proof (cases "n < length bs")
      case True
      from "1.IH"(2) [OF s1(1) [symmetric] refl rc [symmetric] refl] True 2(2) t2 obtain s' where
        "writen_loop t2 (drop n bs) (k + n) = (E_ok, k + length bs, s')" "sk_out s' = sk_out s @ bs" "sk_in s' = sk_in s" "no_failure s'"
        by auto
      then show ?thesis using True 2(2) by (subst writen_loop.simps) (simp add: s1(1) rc)
    next
      case False
      with 2 t2 s1(1) rc show ?thesis by (subst writen_loop.simps) auto
    qed
  qed
qed

lemma no_failure_mode [simp]: "no_failure (s\<lparr>sk_blocking := b\<rparr>) = no_failure s"
  by (simp add: no_failure_def)

lemma sock_readn_ok:
  assumes "no_failure s" "0 < n"
  shows "\<exists>s'. sock_readn forever s n = (E_ok, take (nat n) (sk_in s), s') \<and> sk_in s' = drop (nat n) (sk_in s) \<and> sk_out s' = sk_out s \<and> no_failure s'"
  using assms readn_loop_ok [of "if \<not> forever \<and> sk_blocking s then s\<lparr>sk_blocking := False\<rparr> else s" "nat n" "[]"]
  by (cases "\<not> forever \<and> sk_blocking s") (auto simp: sock_readn_def)

lemma sock_writen_ok:
  assumes "no_failure s" "bs \<noteq> []"
  shows "\<exists>s'. sock_writen forever s bs = (E_ok, length bs, s') \<and> sk_out s' = sk_out s @ bs \<and> sk_in s' = sk_in s \<and> no_failure s'"
  using assms writen_loop_ok [of "if \<not> forever \<and> sk_blocking s then s\<lparr>sk_blocking := False\<rparr> else s" bs 0]
  by (cases "\<not> forever \<and> sk_blocking s") (auto simp: sock_writen_def)

interpretation sock: byte_device "sock_readn forever" "sock_writen forever" sk_in sk_out no_failure for forever
  by unfold_locales (use sock_readn_ok sock_writen_ok in \<open>auto simp: sock_readn_def sock_writen_def\<close>)

section \<open>nio\<close>

record 's nio =
  n_buffered :: bool
  n_buf :: string
  n_max :: nat
  n_len :: nat
  n_idx :: nat
  n_dev :: 's

definition new_nio :: "'s \<Rightarrow> 's nio" where
  "new_nio d = \<lparr>n_buffered = False, n_buf = [], n_max = 0, n_len = 0, n_idx = 0, n_dev = d\<rparr>"

definition nio_setbuf :: "int \<Rightarrow> 's nio \<Rightarrow> 's nio" where
  "nio_setbuf bufsize io =
     (if n_buffered io then io
      else
        let bufsize = (if bufsize < 64 then 64 else if bufsize > 65536 then 65536 else bufsize)
        in io\<lparr>n_buffered := True, n_buf := [], n_max := nat bufsize, n_len := 0, n_idx := 0\<rparr>)"

text \<open>
  The loop over the buffer; \<open>dest\<close> is the caller's memory, always written from its start. The refill
  at the end of a pass is guarded by data being left, which there never is.
\<close>

function read_buffered_loop ::
  "('s \<Rightarrow> int \<Rightarrow> int \<times> string \<times> 's) \<Rightarrow> 's nio \<Rightarrow> nat \<Rightarrow> string \<Rightarrow> nat \<Rightarrow> int \<times> nat \<times> string \<times> 's nio" where
  "read_buffered_loop rd io to_read dest nbytes =
     (if to_read = 0 then (E_ok, nbytes, dest, io)
      else
        let n = (if n_idx io < n_len io then min (n_len io - n_idx io) to_read else 0);
            dest1 = take n (drop (n_idx io) (n_buf io)) @ drop n dest;
            io1 = io\<lparr>n_idx := n_idx io + n\<rparr>
        in if to_read - n = 0 then (E_ok, nbytes + n, dest1, io1)
           else if n_idx io1 \<ge> n_len io1 then (E_invalid_state, nbytes + n, dest1, io1)
           else
             case rd (n_dev io1) (int (n_max io1)) of
               (r, bs, d) \<Rightarrow>
                 if r \<noteq> E_ok \<or> bs = [] then (r, nbytes + n, dest1, io1\<lparr>n_idx := 0, n_len := length bs, n_buf := bs, n_dev := d\<rparr>)
                 else read_buffered_loop rd (io1\<lparr>n_idx := 0, n_len := length bs, n_buf := bs, n_dev := d\<rparr>) (to_read - n) dest1 (nbytes + n))"
  by pat_completeness auto

termination read_buffered_loop
  by (relation "measure (\<lambda>_. 0)") (auto simp: min_def split: if_splits)

declare read_buffered_loop.simps [simp del]

definition nio_read :: "('s \<Rightarrow> int \<Rightarrow> int \<times> string \<times> 's) \<Rightarrow> 's nio \<Rightarrow> int \<Rightarrow> int \<times> string \<times> 's nio" where
  "nio_read rd io to_read =
     (if \<not> n_buffered io then (let (r, bs, d) = rd (n_dev io) to_read in (r, bs, io\<lparr>n_dev := d\<rparr>))
      else if to_read \<le> 0 then (E_invalid_arg, [], io)
      else let (r, nbytes, dest, io) = read_buffered_loop rd io (nat to_read) [] 0 in (r, take nbytes dest, io))"

definition nio_write :: "('s \<Rightarrow> string \<Rightarrow> int \<times> nat \<times> 's) \<Rightarrow> 's nio \<Rightarrow> string \<Rightarrow> int \<times> nat \<times> 's nio" where
  "nio_write wr io bs = (let (r, n, d) = wr (n_dev io) bs in (r, n, io\<lparr>n_dev := d\<rparr>))"

definition get_char :: "('s \<Rightarrow> int \<Rightarrow> int \<times> string \<times> 's) \<Rightarrow> 's nio \<Rightarrow> int \<times> char option \<times> 's nio" where
  "get_char rd io =
     (let (r, bs, io) = nio_read rd io 1;
          r = (if r = E_ok \<and> length bs \<noteq> 1 then E_read_failed else r)
      in (r, if r = E_ok then Some (hd bs) else None, io))"

definition put_char :: "('s \<Rightarrow> string \<Rightarrow> int \<times> nat \<times> 's) \<Rightarrow> 's nio \<Rightarrow> char \<Rightarrow> int \<times> 's nio" where
  "put_char wr io c =
     (let (r, n, io) = nio_write wr io [c] in (if r = E_ok \<and> n \<noteq> 1 then E_write_failed else r, io))"

text \<open>Integers of \<open>k\<close> bytes in network order, two's complement.\<close>

fun int_bytes :: "nat \<Rightarrow> int \<Rightarrow> string" where
  "int_bytes 0 n = []"
| "int_bytes (Suc k) n = int_bytes k (n div 256) @ [mk (nat (n mod 256))]"

definition bytes_unsigned :: "string \<Rightarrow> int" where
  "bytes_unsigned bs = fold (\<lambda>c n. 256 * n + int (ch c)) bs 0"

definition bytes_int :: "string \<Rightarrow> int" where
  "bytes_int bs = (let u = bytes_unsigned bs in if 2 * u < 256 ^ length bs then u else u - 256 ^ length bs)"

definition read_integral :: "('s \<Rightarrow> int \<Rightarrow> int \<times> string \<times> 's) \<Rightarrow> nat \<Rightarrow> 's nio \<Rightarrow> int \<times> int option \<times> 's nio" where
  "read_integral rd width io =
     (if width \<notin> {2, 4, 8} then (E_invalid_arg, None, io)
      else
        let (r, bs, io) = nio_read rd io (int width);
            r = (if r = E_ok \<and> length bs \<noteq> width then E_read_failed else r)
        in (r, if r = E_ok then Some (bytes_int bs) else None, io))"

definition write_integral :: "('s \<Rightarrow> string \<Rightarrow> int \<times> nat \<times> 's) \<Rightarrow> nat \<Rightarrow> int \<Rightarrow> 's nio \<Rightarrow> int \<times> 's nio" where
  "write_integral wr width data io =
     (if width \<notin> {2, 4, 8} then (E_invalid_arg, io)
      else
        let (r, n, io) = nio_write wr io (int_bytes width data)
        in (if r = E_ok \<and> n \<noteq> width then E_write_failed else r, io))"

text \<open>A negative length makes the allocation throw (\<open>None\<close>). The text read goes before what \<open>str\<close> holds.\<close>

definition read_string :: "('s \<Rightarrow> int \<Rightarrow> int \<times> string \<times> 's) \<Rightarrow> 's nio \<Rightarrow> string \<Rightarrow> (int \<times> string \<times> 's nio) option" where
  "read_string rd io str =
     (case read_integral rd 4 io of
        (r, None, io) \<Rightarrow> Some (r, str, io)
      | (r, Some to_read, io) \<Rightarrow>
          if to_read < 0 then None
          else
            let (r, bs, io) = nio_read rd io to_read;
                r = (if r = E_ok \<and> to_read \<noteq> int (length bs) then E_read_failed else r)
            in Some (r, if r = E_ok then bs @ str else str, io))"

definition write_string :: "('s \<Rightarrow> string \<Rightarrow> int \<times> nat \<times> 's) \<Rightarrow> 's nio \<Rightarrow> string \<Rightarrow> int \<times> 's nio" where
  "write_string wr io str =
     (let (r, io) = write_integral wr 4 (int (length str)) io
      in if r = E_ok then
           (let (r, n, io) = nio_write wr io str in (if r = E_ok \<and> n \<noteq> length str then E_write_failed else r, io))
         else (r, io))"

text \<open>The loop ends at a line feed, an error or the end of the stream: a device may deliver for ever.\<close>

partial_function (option) nio_readline ::
  "('s \<Rightarrow> int \<Rightarrow> int \<times> string \<times> 's) \<Rightarrow> 's nio \<Rightarrow> string \<Rightarrow> (int \<times> string \<times> 's nio) option" where
  "nio_readline rd io line =
     (case nio_read rd io 1 of
        (r, bs, io) \<Rightarrow>
          if r \<noteq> E_ok then Some (r, line, io)
          else if bs = [] then Some (E_read_failed, line, io)
          else if hd bs = CHR 0x0A then Some (E_ok, line @ [hd bs], io)
          else nio_readline rd io (line @ [hd bs]))"

section \<open>What nio promises over a healthy device\<close>

lemma int_bytes_length [simp]: "length (int_bytes k n) = k"
  by (induction k n rule: int_bytes.induct) auto

lemma bytes_unsigned_snoc: "bytes_unsigned (bs @ [c]) = 256 * bytes_unsigned bs + int (ch c)"
  by (simp add: bytes_unsigned_def)

lemma bytes_unsigned_int_bytes: "bytes_unsigned (int_bytes k n) = n mod 256 ^ k"
proof (induction k n rule: int_bytes.induct)
  case (2 k n)
  have "ch (mk (nat (n mod 256))) = nat (n mod 256)" by (rule ch_mk) (simp add: nat_less_iff)
  with 2 show ?case by (simp add: bytes_unsigned_snoc zmod_zmult2_eq)
qed (simp add: bytes_unsigned_def)

lemma bytes_int_small: "0 \<le> n \<Longrightarrow> 2 * n < 256 ^ k \<Longrightarrow> bytes_int (int_bytes k n) = n"
  by (simp add: bytes_int_def bytes_unsigned_int_bytes Let_def)

context byte_device
begin

definition ready :: "'s nio \<Rightarrow> bool" where
  "ready io \<longleftrightarrow> \<not> n_buffered io \<and> healthy (n_dev io)"

abbreviation arriving :: "'s nio \<Rightarrow> string" where "arriving io \<equiv> incoming (n_dev io)"
abbreviation written :: "'s nio \<Rightarrow> string" where "written io \<equiv> sent (n_dev io)"

lemma nio_read_law:
  assumes "ready io" "0 < n"
  obtains io' where "nio_read readn io n = (E_ok, take (nat n) (arriving io), io')" "arriving io' = drop (nat n) (arriving io)"
    "written io' = written io" "ready io'"
  using assms read_law [of "n_dev io" n] by (auto simp: nio_read_def ready_def)

lemma nio_write_law:
  assumes "ready io" "bs \<noteq> []"
  obtains io' where "nio_write writen io bs = (E_ok, length bs, io')" "written io' = written io @ bs" "arriving io' = arriving io" "ready io'"
  using assms write_law [of "n_dev io" bs] by (auto simp: nio_write_def ready_def)

lemma get_char_law:
  assumes "ready io"
  shows "\<exists>io'. get_char readn io =
      (case arriving io of [] \<Rightarrow> (E_read_failed, None, io') | c # _ \<Rightarrow> (E_ok, Some c, io')) \<and>
    arriving io' = tl (arriving io) \<and> ready io'"
proof -
  obtain io' where io': "nio_read readn io 1 = (E_ok, take 1 (arriving io), io')" "arriving io' = drop 1 (arriving io)" "ready io'"
    by (rule nio_read_law [OF assms, of 1]) (auto simp: eval_nat_numeral)
  then show ?thesis by (cases "arriving io") (auto simp: get_char_def E_defs Let_def)
qed

lemma readline_law:
  assumes "ready io" "CHR 0x0A \<notin> set l"
  shows "arriving io = l @ CHR 0x0A # rest \<Longrightarrow>
      \<exists>io'. nio_readline readn io line = Some (E_ok, line @ l @ [CHR 0x0A], io') \<and> arriving io' = rest \<and> ready io' \<and> written io' = written io"
    and "arriving io = l \<Longrightarrow>
      \<exists>io'. nio_readline readn io line = Some (E_read_failed, line @ l, io') \<and> arriving io' = [] \<and> ready io' \<and> written io' = written io"
proof -
  have "(arriving io = l @ CHR 0x0A # rest \<longrightarrow>
      (\<exists>io'. nio_readline readn io line = Some (E_ok, line @ l @ [CHR 0x0A], io') \<and> arriving io' = rest \<and> ready io' \<and> written io' = written io)) \<and>
    (arriving io = l \<longrightarrow>
      (\<exists>io'. nio_readline readn io line = Some (E_read_failed, line @ l, io') \<and> arriving io' = [] \<and> ready io' \<and> written io' = written io))"
    using assms
  proof (induction l arbitrary: io line)
    case Nil
    obtain io' where io': "nio_read readn io 1 = (E_ok, take 1 (arriving io), io')" "arriving io' = drop 1 (arriving io)" "ready io'" "written io' = written io"
      by (rule nio_read_law [OF Nil(1), of 1]) (auto simp: eval_nat_numeral)
    then show ?case by (subst (1 2) nio_readline.simps) (auto simp: io' E_defs)
  next
    case (Cons c l)
    obtain io' where io': "nio_read readn io 1 = (E_ok, take 1 (arriving io), io')" "arriving io' = drop 1 (arriving io)" "ready io'" "written io' = written io"
      by (rule nio_read_law [OF Cons(2), of 1]) (auto simp: eval_nat_numeral)
    with Cons(3) Cons.IH [OF io'(3), of "line @ [c]"] show ?case
      by (subst (1 2) nio_readline.simps) (auto simp: io')
  qed
  then show "arriving io = l @ CHR 0x0A # rest \<Longrightarrow>
      \<exists>io'. nio_readline readn io line = Some (E_ok, line @ l @ [CHR 0x0A], io') \<and> arriving io' = rest \<and> ready io' \<and> written io' = written io"
    and "arriving io = l \<Longrightarrow>
      \<exists>io'. nio_readline readn io line = Some (E_read_failed, line @ l, io') \<and> arriving io' = [] \<and> ready io' \<and> written io' = written io"
    by blast+
qed

lemma integral_laws:
  assumes "ready io" "k \<in> {2, 4, 8}"
  shows "\<exists>io'. write_integral writen k n io = (E_ok, io') \<and> written io' = written io @ int_bytes k n \<and> ready io'"
    and "arriving io = int_bytes k n @ rest \<Longrightarrow> 0 \<le> n \<Longrightarrow> 2 * n < 256 ^ k \<Longrightarrow>
      \<exists>io'. read_integral readn k io = (E_ok, Some n, io') \<and> arriving io' = rest \<and> ready io'"
proof -
  have ne: "int_bytes k n \<noteq> []" using assms(2) by (metis int_bytes_length insertE list.size(3) numeral_neq_zero emptyE)
  obtain io' where "nio_write writen io (int_bytes k n) = (E_ok, length (int_bytes k n), io')"
      "written io' = written io @ int_bytes k n" "ready io'"
    by (rule nio_write_law [OF assms(1) ne])
  then show "\<exists>io'. write_integral writen k n io = (E_ok, io') \<and> written io' = written io @ int_bytes k n \<and> ready io'"
    using assms(2) by (auto simp: write_integral_def)
next
  assume r: "arriving io = int_bytes k n @ rest" "0 \<le> n" "2 * n < 256 ^ k"
  have "0 < int k" using assms(2) by auto
  from nio_read_law [OF assms(1) this] obtain io' where
    "nio_read readn io (int k) = (E_ok, take k (arriving io), io')" "arriving io' = drop k (arriving io)" "ready io'" by auto
  with r assms(2) bytes_int_small [OF r(2,3)]
  show "\<exists>io'. read_integral readn k io = (E_ok, Some n, io') \<and> arriving io' = rest \<and> ready io'"
    by (auto simp: read_integral_def Let_def)
qed

lemma write_string_law:
  assumes "ready io" "str \<noteq> []"
  shows "\<exists>io'. write_string writen io str = (E_ok, io') \<and> written io' = written io @ int_bytes 4 (int (length str)) @ str \<and> ready io'"
proof -
  obtain io1 where io1: "write_integral writen 4 (int (length str)) io = (E_ok, io1)"
      "written io1 = written io @ int_bytes 4 (int (length str))" "ready io1"
    using integral_laws(1) [OF assms(1), of 4] by auto
  obtain io2 where "nio_write writen io1 str = (E_ok, length str, io2)" "written io2 = written io1 @ str" "ready io2"
    by (rule nio_write_law [OF io1(3) assms(2)])
  with io1 show ?thesis by (simp add: write_string_def)
qed

lemma read_string_law:
  assumes "ready io" "arriving io = int_bytes 4 (int (length str)) @ str @ rest" "str \<noteq> []" "length str < 2 ^ 31"
  shows "\<exists>io'. read_string readn io old = Some (E_ok, str @ old, io') \<and> arriving io' = rest \<and> ready io'"
proof -
  have "2 * int (length str) < 256 ^ 4" using assms(4) by simp
  with integral_laws(2) [OF assms(1) _ assms(2)] obtain io1 where
    io1: "read_integral readn 4 io = (E_ok, Some (int (length str)), io1)" "arriving io1 = str @ rest" "ready io1" by auto
  have "0 < int (length str)" using assms(3) by simp
  from nio_read_law [OF io1(3) this] io1(2) obtain io2 where
    "nio_read readn io1 (int (length str)) = (E_ok, str, io2)" "arriving io2 = rest" "ready io2" by auto
  with io1(1) show ?thesis by (simp add: read_string_def)
qed

end

section \<open>Properties\<close>

text \<open>
  C30: a string sent over a healthy socket arrives: whatever partial transfers and interruptions the
  two sockets see, \<open>write_string\<close> succeeds for any non-empty string shorter than 2 GB, and
  \<open>read_string\<close> on a socket to which those bytes arrive returns the string and leaves what follows.
\<close>

theorem string_transfer:
  assumes "no_failure w" "str \<noteq> []" "length str < 2 ^ 31"
  shows "\<exists>io bytes. write_string (sock_writen fw) (new_nio w) str = (E_ok, io) \<and> sk_out (n_dev io) = sk_out w @ bytes \<and>
    (\<forall>r rest. no_failure r \<and> sk_in r = bytes @ rest \<longrightarrow>
      (\<exists>io'. read_string (sock_readn fr) (new_nio r) [] = Some (E_ok, str, io') \<and> sk_in (n_dev io') = rest))"
proof -
  have fresh: "sock.ready (new_nio s)" if "no_failure s" for s using that by (simp add: sock.ready_def new_nio_def)
  have dev [simp]: "n_dev (new_nio s) = s" for s :: socket by (simp add: new_nio_def)
  obtain io where "write_string (sock_writen fw) (new_nio w) str = (E_ok, io)"
      "sk_out (n_dev io) = sk_out w @ int_bytes 4 (int (length str)) @ str"
    using sock.write_string_law [OF fresh [OF assms(1)] assms(2)] by auto
  moreover have "\<exists>io'. read_string (sock_readn fr) (new_nio r) [] = Some (E_ok, str, io') \<and> sk_in (n_dev io') = rest"
    if "no_failure r" "sk_in r = (int_bytes 4 (int (length str)) @ str) @ rest" for r rest
    using sock.read_string_law [OF fresh [OF that(1)] _ assms(2,3), of rest fr "[]"] that(2) by auto
  ultimately show ?thesis by blast
qed

definition quiet_socket :: "string \<Rightarrow> xfer list \<Rightarrow> socket" where
  "quiet_socket bs xs = \<lparr>sk_in = bs, sk_out = [], sk_blocking = True, sk_xfers = xs, sk_polls = []\<rparr>"

theorem string_transfer_witness:
  "\<exists>io bytes. write_string (sock_writen False) (new_nio (quiet_socket [] [Moves 1, Interrupted, Moves 0])) ''hello'' = (E_ok, io) \<and>
     sk_out (n_dev io) = bytes \<and>
     (\<exists>io'. read_string (sock_readn False) (new_nio (quiet_socket (bytes @ ''xyz'') [Interrupted, Moves 2])) [] = Some (E_ok, ''hello'', io') \<and>
       sk_in (n_dev io') = ''xyz'')"
proof -
  have w: "no_failure (quiet_socket [] [Moves 1, Interrupted, Moves 0])" by (simp add: no_failure_def quiet_socket_def)
  have r: "no_failure (quiet_socket bs [Interrupted, Moves 2])" for bs by (simp add: no_failure_def quiet_socket_def)
  have h: "''hello'' \<noteq> []" "length ''hello'' < 2 ^ 31" by simp_all
  from string_transfer [OF w h, of False False] obtain io bytes where
    "write_string (sock_writen False) (new_nio (quiet_socket [] [Moves 1, Interrupted, Moves 0])) ''hello'' = (E_ok, io)"
    "sk_out (n_dev io) = sk_out (quiet_socket [] [Moves 1, Interrupted, Moves 0]) @ bytes"
    "\<forall>r rest. no_failure r \<and> sk_in r = bytes @ rest \<longrightarrow>
       (\<exists>io'. read_string (sock_readn False) (new_nio r) [] = Some (E_ok, ''hello'', io') \<and> sk_in (n_dev io') = rest)"
    by blast
  moreover have "sk_in (quiet_socket (bytes @ ''xyz'') [Interrupted, Moves 2]) = bytes @ ''xyz''" by (simp add: quiet_socket_def)
  moreover have "sk_out (quiet_socket [] xs) = []" for xs by (simp add: quiet_socket_def)
  ultimately show ?thesis using r by (metis append_Nil)
qed

text \<open>
  With a read buffer nothing can be read. After \<open>setbuf\<close> on a new nio every read, whatever the
  device holds, reports an invalid state, delivers no byte, and never asks the device: the refill is
  guarded by the buffer not being empty.
\<close>

lemma buffered_reads_fail:
  fixes rd :: "'s \<Rightarrow> int \<Rightarrow> int \<times> string \<times> 's"
  shows "\<forall>n. nio_read rd (nio_setbuf b (new_nio d)) n =
      (if n \<le> 0 then E_invalid_arg else E_invalid_state, [], nio_setbuf b (new_nio d)) \<and>
    nio_readline rd (nio_setbuf b (new_nio d)) line = Some (E_invalid_state, line, nio_setbuf b (new_nio d))"
proof -
  have st: "n_buffered (nio_setbuf b (new_nio d))" "n_idx (nio_setbuf b (new_nio d)) = 0" "n_len (nio_setbuf b (new_nio d)) = 0"
    by (simp_all add: nio_setbuf_def new_nio_def Let_def)
  have r: "nio_read rd (nio_setbuf b (new_nio d)) n =
      (if n \<le> 0 then E_invalid_arg else E_invalid_state, [], nio_setbuf b (new_nio d))" for n
    using st unfolding nio_read_def by (subst read_buffered_loop.simps) (simp add: Let_def)
  then show ?thesis by (subst nio_readline.simps) (simp add: r E_defs)
qed

text \<open>An empty string cannot be sent: after its length has gone out the write of no bytes is rejected.\<close>

lemma empty_string_fails:
  assumes "no_failure w"
  shows "\<exists>io. write_string (sock_writen fw) (new_nio w) [] = (E_invalid_arg, io) \<and>
    sk_out (n_dev io) = sk_out w @ [CHR 0x00, CHR 0x00, CHR 0x00, CHR 0x00]"
proof -
  have "sock.ready (new_nio w)" using assms by (simp add: sock.ready_def new_nio_def)
  from sock.integral_laws(1) [OF this, of 4 fw 0] obtain io where
    "write_integral (sock_writen fw) 4 0 (new_nio w) = (E_ok, io)" "sk_out (n_dev io) = sk_out w @ int_bytes 4 0"
    by (auto simp: new_nio_def)
  moreover have "int_bytes 4 0 = [CHR 0x00, CHR 0x00, CHR 0x00, CHR 0x00]" by code_simp
  ultimately show ?thesis by (simp add: write_string_def nio_write_def sock_writen_def E_defs)
qed

lemma empty_string_fails_witness:
  "\<exists>io. write_string (sock_writen False) (new_nio (quiet_socket [] [])) [] = (E_invalid_arg, io) \<and>
    sk_out (n_dev io) = [CHR 0x00, CHR 0x00, CHR 0x00, CHR 0x00]"
  using empty_string_fails [of "quiet_socket [] []" False] by (simp add: no_failure_def quiet_socket_def)

end
