(* ===== verification/Http_Body.thy ===== *)
theory Http_Body
  imports Http_Headers Net_Io File_IO
begin

text \<open>
  Message bodies and their transmission (\<^verbatim>\<open>include/common/body.h\<close>, \<^verbatim>\<open>src/common/body.cpp\<close>,
  \<^verbatim>\<open>src/common/transmit.cpp\<close>, \<^verbatim>\<open>readline\<close> and \<^verbatim>\<open>read\<close> of \<^verbatim>\<open>src/common/scanner.cpp\<close>): a body is a
  source of blocks behind the virtual functions \<open>has_next\<close> and \<open>next\<close>. A functor is the sequence of
  what its calls deliver; the device below a socket body is that of \<open>Net_Io\<close>.
\<close>

section \<open>Input streams\<close>

record istream =
  is_rest :: string
  is_fail :: bool

definition is_getc :: "istream \<Rightarrow> char option \<times> istream" where
  "is_getc is =
     (if is_fail is then (None, is)
      else case is_rest is of [] \<Rightarrow> (None, is\<lparr>is_fail := True\<rparr>) | c # cs \<Rightarrow> (Some c, is\<lparr>is_rest := cs\<rparr>))"

fun is_readline_loop :: "string \<Rightarrow> string \<Rightarrow> bool \<times> string \<times> istream" where
  "is_readline_loop [] line = (False, line, \<lparr>is_rest = [], is_fail = True\<rparr>)"
| "is_readline_loop (c # cs) line =
     (if c = CHR 0x0A then (True, line @ [c], \<lparr>is_rest = cs, is_fail = False\<rparr>)
      else is_readline_loop cs (line @ [c]))"

definition is_readline :: "istream \<Rightarrow> bool \<times> string \<times> istream" where
  "is_readline is = (if is_fail is then (False, [], is) else is_readline_loop (is_rest is) [])"

text \<open>The loop \<^verbatim>\<open>while (is.get(c) && (n < to_read))\<close> takes a character before it looks at the count.\<close>

fun is_read_loop :: "string \<Rightarrow> int \<Rightarrow> string \<Rightarrow> string \<times> istream" where
  "is_read_loop [] to_read buf = (buf, \<lparr>is_rest = [], is_fail = True\<rparr>)"
| "is_read_loop (c # cs) to_read buf =
     (if int (length buf) < to_read then is_read_loop cs to_read (buf @ [c])
      else (buf, \<lparr>is_rest = cs, is_fail = False\<rparr>))"

definition is_read :: "istream \<Rightarrow> int \<Rightarrow> bool \<times> string \<times> istream" where
  "is_read is to_read =
     (let (buf, is) = (if is_fail is then ([], is) else is_read_loop (is_rest is) to_read [])
      in (\<not> is_fail is, buf, is))"

section \<open>Sources\<close>

definition CHUNKSIZE :: int where "CHUNKSIZE = 65536"

text \<open>A buffer or a string: handed out whole, once.\<close>

record buffer_body =
  bb_buf :: string
  bb_begin :: nat

record file_body =
  fl_file :: snf_file
  fl_size :: int
  fl_read :: int

record functor_body =
  fn_call :: "nat \<Rightarrow> (string \<times> params) option"
  fn_calls :: nat
  fn_size :: nat
  fn_buf :: string
  fn_ext :: params

record istream_body =
  ib_is :: istream
  ib_size :: int
  ib_read :: int
  ib_chunked :: bool
  ib_ext :: params

record 's socket_body =
  sb_io :: "'s nio"
  sb_size :: int
  sb_read :: int
  sb_chunked :: bool
  sb_ext :: params

datatype 's http_body =
    BufferBody buffer_body
  | FileBody file_body
  | FunctorBody functor_body
  | IstreamBody istream_body
  | SocketBody "'s socket_body"

definition body_from_string :: "string \<Rightarrow> 's http_body" where
  "body_from_string s = BufferBody \<lparr>bb_buf = s, bb_begin = 0\<rparr>"

definition from_buffer :: "string \<Rightarrow> 's http_body" where
  "from_buffer s = BufferBody \<lparr>bb_buf = s, bb_begin = 0\<rparr>"

definition from_file :: "snf_file \<Rightarrow> 's http_body http" where
  "from_file f =
     (case file_open f (open_flags0\<lparr>o_read := True\<rparr>) of
        (f, r) \<Rightarrow>
          if r \<noteq> E_ok then Inl SystemError
          else (case file_size f of (f, n) \<Rightarrow> Inr (FileBody \<lparr>fl_file = f, fl_size = n mod 2 ^ 64, fl_read = 0\<rparr>)))"

definition from_functor :: "(nat \<Rightarrow> (string \<times> params) option) \<Rightarrow> 's http_body" where
  "from_functor f = FunctorBody \<lparr>fn_call = f, fn_calls = 0, fn_size = 0, fn_buf = [], fn_ext = []\<rparr>"

definition from_istream_length :: "istream \<Rightarrow> int \<Rightarrow> 's http_body" where
  "from_istream_length is n = IstreamBody \<lparr>ib_is = is, ib_size = n, ib_read = 0, ib_chunked = False, ib_ext = []\<rparr>"

definition from_istream :: "istream \<Rightarrow> 's http_body" where
  "from_istream is = IstreamBody \<lparr>ib_is = is, ib_size = 0, ib_read = 0, ib_chunked = True, ib_ext = []\<rparr>"

definition from_socket_length :: "'s nio \<Rightarrow> int \<Rightarrow> 's http_body" where
  "from_socket_length io n = SocketBody \<lparr>sb_io = io, sb_size = n, sb_read = 0, sb_chunked = False, sb_ext = []\<rparr>"

definition from_socket :: "'s nio \<Rightarrow> 's http_body" where
  "from_socket io = SocketBody \<lparr>sb_io = io, sb_size = 0, sb_read = 0, sb_chunked = True, sb_ext = []\<rparr>"

text \<open>
  The virtual functions as a caller of the base class sees them. \<^verbatim>\<open>length()\<close> of the stream and socket
  bodies lacks the \<^verbatim>\<open>const\<close> of the base class and so does not override it.
\<close>

definition body_chunked :: "'s http_body \<Rightarrow> bool" where
  "body_chunked b = (case b of FunctorBody _ \<Rightarrow> True | IstreamBody i \<Rightarrow> ib_chunked i | SocketBody s \<Rightarrow> sb_chunked s | _ \<Rightarrow> False)"

definition body_length :: "'s http_body \<Rightarrow> int" where
  "body_length b = (case b of BufferBody x \<Rightarrow> int (length (bb_buf x)) | FileBody f \<Rightarrow> fl_size f | _ \<Rightarrow> 0)"

definition chunk_extensions :: "'s http_body \<Rightarrow> params" where
  "chunk_extensions b = (case b of FunctorBody f \<Rightarrow> fn_ext f | IstreamBody i \<Rightarrow> ib_ext i | SocketBody s \<Rightarrow> sb_ext s | _ \<Rightarrow> [])"

text \<open>The line before a chunk: its size and extensions.\<close>

definition chunk_line :: "params \<Rightarrow> string \<Rightarrow> (int \<times> params) http" where
  "chunk_line old line =
     rbind (read_chunk_size (new_scanner line)) (\<lambda>(n, s).
       case n of
         None \<Rightarrow> Inl BadMessage
       | Some n \<Rightarrow>
           let (semi, s) = read_special 0x3B s
           in rbind (if semi then rbind (read_parameters s) (\<lambda>(ok, ps, s). if ok then Inr (ps, s) else Inl BadMessage) else Inr (old, s))
                (\<lambda>(ext, s). if fst (read_crlf s) then Inr (n, ext) else Inl BadMessage))"

definition is_crlf :: "istream \<Rightarrow> bool \<times> istream" where
  "is_crlf is =
     (let (c, is) = is_getc is
      in if c \<noteq> Some (CHR 0x0D) then (False, is) else (let (c, is) = is_getc is in (c = Some (CHR 0x0A), is)))"

definition istream_has_next :: "istream_body \<Rightarrow> (bool \<times> istream_body) http" where
  "istream_has_next b =
     (if ib_read b < ib_size b then Inr (True, b)
      else if ib_chunked b then
        let (ok, line, is) = is_readline (ib_is b)
        in if \<not> ok then Inl RuntimeError
           else rbind (chunk_line (ib_ext b) line) (\<lambda>(n, ext).
             let (ended, is) = (if n = 0 then is_crlf is else (True, is))
             in if ended then Inr (ib_read b < n, b\<lparr>ib_is := is, ib_size := n, ib_ext := ext\<rparr>) else Inl BadMessage)
      else Inr (False, b))"

text \<open>\<^verbatim>\<open>static_cast<int>(m_size - m_read)\<close> of 64-bit unsigned numbers, capped.\<close>

definition next_count :: "int \<Rightarrow> int \<Rightarrow> int" where
  "next_count m_size m_read =
     (let d = (m_size - m_read) mod 2 ^ 32; n = (if d \<ge> 2 ^ 31 then d - 2 ^ 32 else d)
      in if n > CHUNKSIZE then CHUNKSIZE else n)"

definition istream_next :: "istream_body \<Rightarrow> (string \<times> istream_body) http" where
  "istream_next b =
     (let (ok, buf, is) = is_read (ib_is b) (next_count (ib_size b) (ib_read b))
      in if \<not> ok then Inl RuntimeError
         else
           let rd = ib_read b + int (length buf);
               (ended, is) = (if ib_chunked b \<and> rd \<ge> ib_size b then is_crlf is else (True, is))
           in if ended then Inr (buf, b\<lparr>ib_is := is, ib_read := rd\<rparr>) else Inl BadMessage)"

text \<open>The same over a socket; a failed read throws. \<open>None\<close>: the line never ends.\<close>

definition sock_crlf :: "('s \<Rightarrow> int \<Rightarrow> int \<times> string \<times> 's) \<Rightarrow> 's nio \<Rightarrow> (bool \<times> 's nio) http" where
  "sock_crlf rd io =
     (case get_char rd io of
        (_, None, _) \<Rightarrow> Inl SystemError
      | (_, Some c, io) \<Rightarrow>
          if c \<noteq> CHR 0x0D then Inr (False, io)
          else (case get_char rd io of
                  (_, None, _) \<Rightarrow> Inl SystemError
                | (_, Some c, io) \<Rightarrow> Inr (c = CHR 0x0A, io)))"

definition socket_has_next :: "('s \<Rightarrow> int \<Rightarrow> int \<times> string \<times> 's) \<Rightarrow> 's socket_body \<Rightarrow> (bool \<times> 's socket_body) http option" where
  "socket_has_next rd b =
     (if sb_read b < sb_size b then Some (Inr (True, b))
      else if sb_chunked b then
        (case nio_readline rd (sb_io b) [] of
           None \<Rightarrow> None
         | Some (r, line, io) \<Rightarrow> Some (
             if r \<noteq> E_ok then Inl SystemError
             else rbind (chunk_line (sb_ext b) line) (\<lambda>(n, ext).
               rbind (if n = 0 then sock_crlf rd io else Inr (True, io)) (\<lambda>(ended, io).
                 if ended then Inr (sb_read b < n, b\<lparr>sb_io := io, sb_size := n, sb_ext := ext\<rparr>) else Inl BadMessage))))
      else Some (Inr (False, b)))"

definition socket_next :: "('s \<Rightarrow> int \<Rightarrow> int \<times> string \<times> 's) \<Rightarrow> 's socket_body \<Rightarrow> (string \<times> 's socket_body) http" where
  "socket_next rd b =
     (case nio_read rd (sb_io b) (next_count (sb_size b) (sb_read b)) of
        (r, buf, io) \<Rightarrow>
          if r \<noteq> E_ok then Inl SystemError
          else
            let n = sb_read b + int (length buf)
            in rbind (if sb_chunked b \<and> n \<ge> sb_size b then sock_crlf rd io else Inr (True, io)) (\<lambda>(ended, io).
                 if ended then Inr (buf, b\<lparr>sb_io := io, sb_read := n\<rparr>) else Inl BadMessage))"

definition has_next :: "('s \<Rightarrow> int \<Rightarrow> int \<times> string \<times> 's) \<Rightarrow> 's http_body \<Rightarrow> (bool \<times> 's http_body) http option" where
  "has_next rd b =
     (case b of
        BufferBody x \<Rightarrow> Some (Inr (bb_begin x < length (bb_buf x), b))
      | FileBody f \<Rightarrow> Some (Inr (fl_read f < fl_size f, b))
      | FunctorBody f \<Rightarrow> Some (
          if fn_size f \<noteq> 0 then Inr (True, b)
          else case fn_call f (fn_calls f) of
            None \<Rightarrow> Inl RuntimeError
          | Some (data, ext) \<Rightarrow> Inr (data \<noteq> [],
              FunctorBody (f\<lparr>fn_calls := fn_calls f + 1, fn_size := length data, fn_buf := data, fn_ext := ext\<rparr>)))
      | IstreamBody i \<Rightarrow> Some (rbind (istream_has_next i) (\<lambda>(more_data, i). Inr (more_data, IstreamBody i)))
      | SocketBody s \<Rightarrow> map_option (\<lambda>r. rbind r (\<lambda>(more_data, s). Inr (more_data, SocketBody s))) (socket_has_next rd s))"

definition body_next :: "('s \<Rightarrow> int \<Rightarrow> int \<times> string \<times> 's) \<Rightarrow> 's http_body \<Rightarrow> (string \<times> 's http_body) http" where
  "body_next rd b =
     (case b of
        BufferBody x \<Rightarrow>
          Inr (if bb_begin x < length (bb_buf x) then (bb_buf x, BufferBody (x\<lparr>bb_begin := bb_begin x + length (bb_buf x)\<rparr>)) else ([], b))
      | FileBody f \<Rightarrow>
          (case file_read (fl_file f) True CHUNKSIZE True of
             (g, r, bs) \<Rightarrow>
               if r \<noteq> E_ok then Inl SystemError
               else Inr (map (\<lambda>w. mk (unat w)) bs, FileBody (f\<lparr>fl_file := g, fl_read := fl_read f + int (length bs)\<rparr>)))
      | FunctorBody f \<Rightarrow> Inr (if fn_size f \<noteq> 0 then (fn_buf f, FunctorBody (f\<lparr>fn_size := 0\<rparr>)) else ([], b))
      | IstreamBody i \<Rightarrow> rbind (istream_next i) (\<lambda>(buf, i). Inr (buf, IstreamBody i))
      | SocketBody s \<Rightarrow> rbind (socket_next rd s) (\<lambda>(buf, s). Inr (buf, SocketBody s)))"

section \<open>Reading and sending a body\<close>

text \<open>The reading loop that body.h prescribes for users of a body.\<close>

partial_function (option) read_body ::
  "('s \<Rightarrow> int \<Rightarrow> int \<times> string \<times> 's) \<Rightarrow> 's http_body \<Rightarrow> string \<Rightarrow> (string \<times> 's http_body) http option" where
  "read_body rd b acc =
     (case has_next rd b of
        None \<Rightarrow> None
      | Some (Inl e) \<Rightarrow> Some (Inl e)
      | Some (Inr (more_data, b)) \<Rightarrow>
          if \<not> more_data then Some (Inr (acc, b))
          else (case body_next rd b of
                  Inl e \<Rightarrow> Some (Inl e)
                | Inr (data, b) \<Rightarrow> read_body rd b (acc @ data)))"

definition hex_digit :: "nat \<Rightarrow> char" where
  "hex_digit d = mk (if d < 10 then 48 + d else 87 + d)"

fun hex_str :: "nat \<Rightarrow> string" where
  "hex_str n = (if n < 16 then [hex_digit n] else hex_str (n div 16) @ [hex_digit (n mod 16)])"

declare hex_str.simps [simp del]

definition send_data :: "('s \<Rightarrow> string \<Rightarrow> int \<times> nat \<times> 's) \<Rightarrow> 's nio \<Rightarrow> string \<Rightarrow> (int \<times> 's nio) http" where
  "send_data wr io data =
     (let (r, n, io) = nio_write wr io data
      in if r \<noteq> E_ok then Inl SystemError
         else Inr (if n \<noteq> length data then E_write_failed else E_ok, io))"

text \<open>Parts sent one after the other, up to the first that is cut short.\<close>

fun send_parts :: "('s \<Rightarrow> string \<Rightarrow> int \<times> nat \<times> 's) \<Rightarrow> 's nio \<Rightarrow> string list \<Rightarrow> (int \<times> 's nio) http" where
  "send_parts wr io [] = Inr (E_ok, io)"
| "send_parts wr io (p # ps) = rbind (send_data wr io p) (\<lambda>(r, io). if r \<noteq> E_ok then Inr (r, io) else send_parts wr io ps)"

definition chunk_parts :: "params \<Rightarrow> string \<Rightarrow> string list" where
  "chunk_parts cext data =
     [hex_str (length data) @ concat (map (\<lambda>(k, v). '';'' @ k @ ''='' @ v) cext), data, [CHR 0x0D, CHR 0x0A]]"

text \<open>One pass of the loop: its result if it ends there, or the state for the next pass.\<close>

definition send_step ::
  "('r \<Rightarrow> int \<Rightarrow> int \<times> string \<times> 'r) \<Rightarrow> ('s \<Rightarrow> string \<Rightarrow> int \<times> nat \<times> 's) \<Rightarrow> bool \<Rightarrow> 's nio \<Rightarrow> 'r http_body \<Rightarrow> int \<Rightarrow>
     ((int \<times> int \<times> 's nio) http + 's nio \<times> 'r http_body \<times> int) option" where
  "send_step rd wr chunked_body io b len =
     (case has_next rd b of
        None \<Rightarrow> None
      | Some (Inl e) \<Rightarrow> Some (Inl (Inl e))
      | Some (Inr (more_data, b)) \<Rightarrow> Some (
          if \<not> more_data then Inl (Inr (E_ok, len, io))
          else (case body_next rd b of
                  Inl e \<Rightarrow> Inl (Inl e)
                | Inr (data, b1) \<Rightarrow>
                    (case send_parts wr io (if chunked_body then chunk_parts (chunk_extensions b) data else [data]) of
                       Inl e \<Rightarrow> Inl (Inl e)
                     | Inr (r, io) \<Rightarrow>
                         if r \<noteq> E_ok then Inl (Inr (r, len, io))
                         else Inr (io, b1, if chunked_body then len else len - int (length data))))))"

partial_function (option) send_body_loop ::
  "('r \<Rightarrow> int \<Rightarrow> int \<times> string \<times> 'r) \<Rightarrow> ('s \<Rightarrow> string \<Rightarrow> int \<times> nat \<times> 's) \<Rightarrow> bool \<Rightarrow> 's nio \<Rightarrow> 'r http_body \<Rightarrow> int \<Rightarrow>
     (int \<times> int \<times> 's nio) http option" where
  "send_body_loop rd wr chunked_body io b len =
     (case send_step rd wr chunked_body io b len of
        None \<Rightarrow> None
      | Some (Inl result) \<Rightarrow> Some result
      | Some (Inr (io, b, len)) \<Rightarrow> send_body_loop rd wr chunked_body io b len)"

declare nio_readline.simps [code] read_body.simps [code] send_body_loop.simps [code]

definition send_body ::
  "('r \<Rightarrow> int \<Rightarrow> int \<times> string \<times> 'r) \<Rightarrow> ('s \<Rightarrow> string \<Rightarrow> int \<times> nat \<times> 's) \<Rightarrow> 's nio \<Rightarrow> 'r http_body \<Rightarrow> (int \<times> 's nio) http option" where
  "send_body rd wr io b =
     map_option (\<lambda>r. rbind r (\<lambda>(r, len, io).
       if r \<noteq> E_ok then Inr (r, io)
       else if body_chunked b then send_data wr io (''0'' @ [CHR 0x0D, CHR 0x0A, CHR 0x0D, CHR 0x0A])
       else Inr (if len \<noteq> 0 then E_write_failed else E_ok, io)))
     (send_body_loop rd wr (body_chunked b) io b (body_length b))"

section \<open>Chunk sizes\<close>

lemma hex_digit_ch: "d < 16 \<Longrightarrow> ch (hex_digit d) = (if d < 10 then 48 + d else 87 + d)"
  unfolding hex_digit_def by (rule ch_mk) auto

lemma hex_digit_ok: "d < 16 \<Longrightarrow> xdigit_value (hex_digit d) = d \<and> to_int (hex_digit d) \<noteq> -1 \<and> is_xdigit_int (to_int (hex_digit d))"
  using hex_digit_ch [of d] by (auto simp: xdigit_value_def is_digit_def to_int_def is_xdigit_int_def)

lemma hex_value_snoc: "hex_value (ds @ [d]) = 16 * hex_value ds + int (xdigit_value d)"
  by (simp add: hex_value_def)

lemma hex_str_ok: "hex_str n \<noteq> [] \<and> in_class is_xdigit_int (hex_str n) \<and> hex_value (hex_str n) = int n"
proof (induction n rule: hex_str.induct)
  case (1 n)
  show ?case
  proof (cases "n < 16")
    case True
    with hex_digit_ok [of n] show ?thesis by (subst (1 2 3) hex_str.simps) (simp add: in_class_def hex_value_def)
  next
    case False
    have m: "n mod 16 < 16" by simp
    have "int (16 * (n div 16) + n mod 16) = int n" by simp
    then have "16 * int (n div 16) + int (n mod 16) = int n" by (simp only: of_nat_add of_nat_mult of_nat_numeral)
    with 1 [OF False] False hex_digit_ok [OF m] show ?thesis
      by (subst (1 2 3) hex_str.simps) (auto simp: in_class_def hex_value_snoc)
  qed
qed

abbreviation crlf :: string where "crlf \<equiv> [CHR 0x0D, CHR 0x0A]"

lemma chunk_line_hex:
  assumes "int n < 2 ^ 63"
  shows "chunk_line old (hex_str n @ crlf) = Inr (int n, old)"
proof -
  have "stops is_xdigit_int crlf" by (simp add: stops_def is_xdigit_int_def to_int_def)
  with read_class_stops [OF at_new _ this, of "hex_str n" "[]"] hex_str_ok [of n] obtain s1 where
    s1: "read_class is_xdigit_int [] (new_scanner (hex_str n @ crlf)) = (hex_str n, s1)" "at s1 crlf" by auto
  then have r: "read_chunk_size (new_scanner (hex_str n @ crlf)) = Inr (Some (int n), s1)"
    using assms hex_str_ok [of n] by (simp add: read_chunk_size_def)
  obtain s2 where s2: "read_special 0x3B s1 = (False, s2)" "at s2 crlf"
    using read_special_at(2) [of s1 "CHR 0x0D" "[CHR 0x0A]" "0x3B"] s1(2) by (auto simp: to_int_def)
  then show ?thesis using read_crlf_at [OF s2(2)] r by (auto simp: chunk_line_def)
qed

lemma hex_no_newline: "CHR 0x0A \<notin> set (hex_str n)"
  using hex_str_ok [of n] by (auto simp: in_class_def is_xdigit_int_def to_int_def)

lemma next_count_range:
  assumes "r < s" "s - r < 2 ^ 31"
  shows "next_count s r = min (s - r) CHUNKSIZE"
proof -
  have "(s - r) mod 2 ^ 32 = s - r" using assms by (intro mod_pos_pos_trivial) auto
  with assms show ?thesis unfolding next_count_def Let_def CHUNKSIZE_def by simp
qed

section \<open>Bodies over a device\<close>

context byte_device
begin

lemma has_next_started: "sb_read b < sb_size b \<Longrightarrow> has_next readn (SocketBody b) = Some (Inr (True, SocketBody b))"
  by (simp add: has_next_def socket_has_next_def)

lemma sock_crlf_law: "ready io \<Longrightarrow> arriving io = crlf @ rest \<Longrightarrow> \<exists>io'. sock_crlf readn io = Inr (True, io') \<and> arriving io' = rest \<and> ready io'"
proof -
  assume io: "ready io" "arriving io = crlf @ rest"
  then obtain io1 where io1: "get_char readn io = (E_ok, Some (CHR 0x0D), io1)" "arriving io1 = CHR 0x0A # rest" "ready io1"
    using get_char_law [OF io(1)] by auto
  then obtain io2 where "get_char readn io1 = (E_ok, Some (CHR 0x0A), io2)" "arriving io2 = rest" "ready io2"
    using get_char_law [OF io1(3)] by auto
  with io1 show ?thesis by (simp add: sock_crlf_def)
qed

text \<open>A block, a whole length-delimited body or one chunk with its line end, is read completely.\<close>

lemma socket_next_law:
  assumes "ready (sb_io b)" "arriving (sb_io b) = d @ (if sb_chunked b then crlf else []) @ rest" "d \<noteq> []"
    and "sb_size b - sb_read b = int (length d)" "int (length d) < 2 ^ 31"
  shows "\<exists>io. (let n = min (length d) 65536 in
      socket_next readn b = Inr (take n d, b\<lparr>sb_io := io, sb_read := sb_read b + int n\<rparr>) \<and> ready io \<and>
      arriving io = (if n = length d then rest else drop n d @ (if sb_chunked b then crlf else []) @ rest))"
proof -
  define n where "n = min (length d) 65536"
  have pos: "0 < int n" "n \<le> length d" using assms(3) by (auto simp: n_def)
  have lt: "sb_read b < sb_size b" using assms(3,4) by (cases d) auto
  have "next_count (sb_size b) (sb_read b) = int n"
    using next_count_range [OF lt] assms(4,5) by (simp add: CHUNKSIZE_def n_def)
  moreover obtain io where io: "nio_read readn (sb_io b) (int n) = (E_ok, take n d, io)"
      "arriving io = drop n d @ (if sb_chunked b then crlf else []) @ rest" "ready io"
    by (rule nio_read_law [OF assms(1) pos(1)]) (use assms(2) pos(2) in auto)
  moreover have "sb_read b + int n \<ge> sb_size b \<longleftrightarrow> n = length d" using assms(4) pos(2) by auto
  ultimately have "\<exists>io. socket_next readn b = Inr (take n d, b\<lparr>sb_io := io, sb_read := sb_read b + int n\<rparr>) \<and> ready io \<and>
      arriving io = (if n = length d then rest else drop n d @ (if sb_chunked b then crlf else []) @ rest)"
    using sock_crlf_law [of io rest] pos(2) by (auto simp: socket_next_def min_def) blast
  then show ?thesis unfolding n_def Let_def .
qed

lemma read_block:
  assumes "ready (sb_io b)" "arriving (sb_io b) = d @ (if sb_chunked b then crlf else []) @ rest" "d \<noteq> []"
    and "sb_size b - sb_read b = int (length d)" "int (length d) < 2 ^ 31"
  shows "\<exists>io. read_body readn (SocketBody b) acc = read_body readn (SocketBody (b\<lparr>sb_io := io, sb_read := sb_size b\<rparr>)) (acc @ d) \<and>
    ready io \<and> arriving io = rest"
  using assms
proof (induction "length d" arbitrary: b d acc rule: less_induct)
  case less
  have lt: "sb_read b < sb_size b" using less.prems(3,4) by (cases d) auto
  define n where "n = min (length d) 65536"
  from socket_next_law [OF less.prems] obtain io where
    nx: "socket_next readn b = Inr (take n d, b\<lparr>sb_io := io, sb_read := sb_read b + int n\<rparr>)" "ready io"
      "arriving io = (if n = length d then rest else drop n d @ (if sb_chunked b then crlf else []) @ rest)"
    by (auto simp: Let_def n_def)
  let ?b = "b\<lparr>sb_io := io, sb_read := sb_read b + int n\<rparr>"
  have step: "read_body readn (SocketBody b) acc = read_body readn (SocketBody ?b) (acc @ take n d)"
    by (subst read_body.simps) (simp add: has_next_started [OF lt] body_next_def nx(1))
  show ?case
  proof (cases "n = length d")
    case True
    then have "?b = b\<lparr>sb_io := io, sb_read := sb_size b\<rparr>" using less.prems(4) by simp
    with step nx True show ?thesis by auto
  next
    case False
    then have n: "n < length d" "0 < n" using less.prems(3) by (auto simp: n_def)
    have "\<exists>io'. read_body readn (SocketBody ?b) (acc @ take n d) =
        read_body readn (SocketBody (?b\<lparr>sb_io := io', sb_read := sb_size ?b\<rparr>)) ((acc @ take n d) @ drop n d) \<and> ready io' \<and> arriving io' = rest"
      by (rule less.hyps) (use n nx False less.prems in auto)
    then show ?thesis using step by auto
  qed
qed

lemma read_length_body:
  assumes "ready io" "arriving io = d @ rest" "d \<noteq> []" "int (length d) < 2 ^ 31"
  shows "\<exists>b. read_body readn (from_socket_length io (int (length d))) [] = Some (Inr (d, SocketBody b)) \<and> arriving (sb_io b) = rest"
proof -
  define b where "b = \<lparr>sb_io = io, sb_size = int (length d), sb_read = 0, sb_chunked = False, sb_ext = []\<rparr>"
  have fs: "from_socket_length io (int (length d)) = SocketBody b" by (simp add: from_socket_length_def b_def)
  obtain io' where io': "read_body readn (SocketBody b) [] = read_body readn (SocketBody (b\<lparr>sb_io := io', sb_read := sb_size b\<rparr>)) d"
      "arriving io' = rest"
    using read_block [of b d rest "[]"] assms by (auto simp: b_def)
  have "read_body readn (SocketBody (b\<lparr>sb_io := io', sb_read := sb_size b\<rparr>)) d = Some (Inr (d, SocketBody (b\<lparr>sb_io := io', sb_read := sb_size b\<rparr>)))"
    by (subst read_body.simps) (simp add: has_next_def socket_has_next_def b_def)
  with io' fs show ?thesis by auto
qed

lemma chunk_start:
  assumes "ready (sb_io b)" "arriving (sb_io b) = hex_str n @ crlf @ rest" "sb_size b \<le> sb_read b" "sb_chunked b" "int n < 2 ^ 63"
  shows "n \<noteq> 0 \<Longrightarrow> \<exists>io. has_next readn (SocketBody b) = Some (Inr (sb_read b < int n, SocketBody (b\<lparr>sb_io := io, sb_size := int n\<rparr>))) \<and>
      ready io \<and> arriving io = rest"
    and "n = 0 \<Longrightarrow> rest = crlf @ rest' \<Longrightarrow> 0 \<le> sb_read b \<Longrightarrow>
      \<exists>io. has_next readn (SocketBody b) = Some (Inr (False, SocketBody (b\<lparr>sb_io := io, sb_size := 0\<rparr>))) \<and> ready io \<and> arriving io = rest'"
proof -
  have "CHR 0x0A \<notin> set (hex_str n @ [CHR 0x0D])" using hex_no_newline by auto
  moreover have "arriving (sb_io b) = (hex_str n @ [CHR 0x0D]) @ CHR 0x0A # rest" using assms(2) by simp
  ultimately obtain io where io: "nio_readline readn (sb_io b) [] = Some (E_ok, hex_str n @ crlf, io)" "arriving io = rest" "ready io"
    using readline_law(1) [OF assms(1), of "hex_str n @ [CHR 0x0D]" rest "[]"] by auto
  note line = chunk_line_hex [OF assms(5), of "sb_ext b"]
  show "n \<noteq> 0 \<Longrightarrow> \<exists>io. has_next readn (SocketBody b) = Some (Inr (sb_read b < int n, SocketBody (b\<lparr>sb_io := io, sb_size := int n\<rparr>))) \<and>
      ready io \<and> arriving io = rest"
    using assms(3,4) io line by (auto simp: has_next_def socket_has_next_def)
  show "n = 0 \<Longrightarrow> rest = crlf @ rest' \<Longrightarrow> 0 \<le> sb_read b \<Longrightarrow>
      \<exists>io. has_next readn (SocketBody b) = Some (Inr (False, SocketBody (b\<lparr>sb_io := io, sb_size := 0\<rparr>))) \<and> ready io \<and> arriving io = rest'"
    using assms(3,4) io line sock_crlf_law [of io rest'] by (auto simp: has_next_def socket_has_next_def)
qed

definition after_chunk :: "'s nio \<Rightarrow> nat \<Rightarrow> 's socket_body" where
  "after_chunk io n = \<lparr>sb_io = io, sb_size = int n, sb_read = int n, sb_chunked = True, sb_ext = []\<rparr>"

lemma read_first_chunk:
  assumes "ready io" "arriving io = hex_str (length d) @ crlf @ d @ crlf @ rest" "d \<noteq> []" "int (length d) < 2 ^ 31"
  shows "\<exists>io'. read_body readn (from_socket io) [] = read_body readn (SocketBody (after_chunk io' (length d))) d \<and>
    ready io' \<and> arriving io' = rest"
proof -
  define b where "b = \<lparr>sb_io = io, sb_size = 0, sb_read = 0, sb_chunked = True, sb_ext = []\<rparr>"
  have fs: "from_socket io = SocketBody b" by (simp add: from_socket_def b_def)
  have b: "sb_io b = io" "sb_read b = 0" "sb_size b = 0" "sb_chunked b" by (simp_all add: b_def)
  have "\<exists>io1. has_next readn (SocketBody b) = Some (Inr (sb_read b < int (length d), SocketBody (b\<lparr>sb_io := io1, sb_size := int (length d)\<rparr>))) \<and>
      ready io1 \<and> arriving io1 = d @ crlf @ rest"
    by (rule chunk_start(1)) (use assms b in auto)
  then obtain io1 where io1: "has_next readn (SocketBody b) = Some (Inr (True, SocketBody (b\<lparr>sb_io := io1, sb_size := int (length d)\<rparr>)))"
      "ready io1" "arriving io1 = d @ crlf @ rest"
    using assms(3) b by auto
  let ?b1 = "b\<lparr>sb_io := io1, sb_size := int (length d)\<rparr>"
  have "has_next readn (SocketBody ?b1) = Some (Inr (True, SocketBody ?b1))"
    by (rule has_next_started) (use assms(3) b in simp)
  then have "read_body readn (SocketBody b) [] = read_body readn (SocketBody ?b1) []"
    by (subst (1 2) read_body.simps) (simp add: io1(1))
  moreover have "\<exists>io'. read_body readn (SocketBody ?b1) [] = read_body readn (SocketBody (?b1\<lparr>sb_io := io', sb_read := sb_size ?b1\<rparr>)) ([] @ d) \<and>
      ready io' \<and> arriving io' = rest"
    by (rule read_block) (use io1 assms b in auto)
  ultimately show ?thesis unfolding fs by (auto simp: after_chunk_def b_def)
qed

lemma read_last_chunk:
  assumes "ready io" "arriving io = ''0'' @ crlf @ crlf @ rest"
  shows "\<exists>b. read_body readn (SocketBody (after_chunk io n)) acc = Some (Inr (acc, SocketBody b)) \<and> arriving (sb_io b) = rest"
proof -
  have "hex_str 0 = ''0''" by code_simp
  with assms(2) have "\<exists>io'. has_next readn (SocketBody (after_chunk io n)) =
      Some (Inr (False, SocketBody ((after_chunk io n)\<lparr>sb_io := io', sb_size := 0\<rparr>))) \<and> ready io' \<and> arriving io' = rest"
    by (intro chunk_start(2) [of _ 0]) (use assms(1) in \<open>auto simp: after_chunk_def\<close>)
  then show ?thesis by (subst read_body.simps) auto
qed

lemma read_smaller_chunk:
  assumes "ready io" "arriving io = hex_str m @ crlf @ rest" "0 < m" "m \<le> n" "int n < 2 ^ 31"
  shows "\<exists>b. read_body readn (SocketBody (after_chunk io n)) acc = Some (Inr (acc, SocketBody b)) \<and> arriving (sb_io b) = rest"
proof -
  have "\<exists>io'. has_next readn (SocketBody (after_chunk io n)) =
      Some (Inr (sb_read (after_chunk io n) < int m, SocketBody ((after_chunk io n)\<lparr>sb_io := io', sb_size := int m\<rparr>))) \<and> ready io' \<and> arriving io' = rest"
    by (rule chunk_start(1)) (use assms in \<open>auto simp: after_chunk_def\<close>)
  then show ?thesis using assms(4) by (subst read_body.simps) (auto simp: after_chunk_def)
qed

end

section \<open>Properties\<close>

lemma fresh_ready: "no_failure s \<Longrightarrow> sock.ready (new_nio s)" "n_dev (new_nio s) = s"
  by (simp_all add: sock.ready_def new_nio_def)

lemma send_string_body:
  assumes "no_failure w" "str \<noteq> []"
  shows "\<exists>io. send_body rd (sock_writen fw) (new_nio w) (body_from_string str) = Some (Inr (E_ok, io)) \<and> sk_out (n_dev io) = sk_out w @ str"
proof -
  let ?b = "BufferBody \<lparr>bb_buf = str, bb_begin = 0\<rparr>" and ?b1 = "BufferBody \<lparr>bb_buf = str, bb_begin = length str\<rparr>"
  obtain io where io: "nio_write (sock_writen fw) (new_nio w) str = (E_ok, length str, io)" "sk_out (n_dev io) = sk_out w @ str"
    by (rule sock.nio_write_law [OF fresh_ready(1) [OF assms(1)] assms(2), of fw]) (simp add: fresh_ready(2))
  have "send_step rd (sock_writen fw) False (new_nio w) ?b (int (length str)) = Some (Inr (io, ?b1, 0))"
    using assms(2) io(1) by (simp add: send_step_def has_next_def body_next_def send_data_def E_defs)
  moreover have "send_step rd (sock_writen fw) False io ?b1 0 = Some (Inl (Inr (E_ok, 0, io)))"
    by (simp add: send_step_def has_next_def)
  ultimately have "send_body_loop rd (sock_writen fw) False (new_nio w) ?b (int (length str)) = Some (Inr (E_ok, 0, io))"
    by (subst send_body_loop.simps, simp) (subst send_body_loop.simps, simp)
  then show ?thesis using io(2) by (simp add: send_body_def body_from_string_def body_chunked_def body_length_def E_defs)
qed



text \<open>
  A chunked body of a single chunk is received: for a chunk of data of up to 2 GB framed as HTTP
  prescribes, the reader gives exactly the data and consumes the whole body.
\<close>

lemma single_chunk_received:
  assumes "no_failure r" "d \<noteq> []" "length d < 2 ^ 31"
    and "sk_in r = hex_str (length d) @ crlf @ d @ crlf @ ''0'' @ crlf @ crlf @ rest"
  shows "\<exists>b. read_body (sock_readn fr) (from_socket (new_nio r)) [] = Some (Inr (d, SocketBody b)) \<and> sk_in (n_dev (sb_io b)) = rest"
proof -
  obtain io where io: "read_body (sock_readn fr) (from_socket (new_nio r)) [] = read_body (sock_readn fr) (SocketBody (sock.after_chunk io (length d))) d"
      "sock.ready io" "sk_in (n_dev io) = ''0'' @ crlf @ crlf @ rest"
    using sock.read_first_chunk [OF fresh_ready(1) [OF assms(1)] _ assms(2), of "''0'' @ crlf @ crlf @ rest" fr] assms(3,4) fresh_ready(2) [of r]
    by auto
  with sock.read_last_chunk [OF io(2,3), of fr] show ?thesis by simp
qed

lemma single_chunk_received_sample:
  "\<exists>b. read_body (sock_readn False) (from_socket (new_nio (quiet_socket (''5'' @ crlf @ ''hello'' @ crlf @ ''0'' @ crlf @ crlf @ ''GET'') [Moves 1]))) [] =
     Some (Inr (''hello'', SocketBody b)) \<and> sk_in (n_dev (sb_io b)) = ''GET''"
proof (rule single_chunk_received)
  have "hex_str (length ''hello'') = ''5''" by code_simp
  then show "sk_in (quiet_socket (''5'' @ crlf @ ''hello'' @ crlf @ ''0'' @ crlf @ crlf @ ''GET'') [Moves 1]) =
      hex_str (length ''hello'') @ crlf @ ''hello'' @ crlf @ ''0'' @ crlf @ crlf @ ''GET''"
    by (simp add: quiet_socket_def)
qed (simp_all add: no_failure_def quiet_socket_def)

text \<open>
  The count of bytes read is not reset between chunks. When the second chunk of a well-formed body
  is not longer than the first, the reader reports the end of the body after the first chunk, and the
  data of the second stays on the connection, where the next request line is expected.
\<close>

lemma second_chunk_dropped:
  assumes "no_failure r" "d1 \<noteq> []" "d2 \<noteq> []" "length d2 \<le> length d1" "length d1 < 2 ^ 31"
    and "sk_in r = hex_str (length d1) @ crlf @ d1 @ crlf @ hex_str (length d2) @ crlf @ d2 @ crlf @ rest"
  shows "\<exists>b. read_body (sock_readn fr) (from_socket (new_nio r)) [] = Some (Inr (d1, SocketBody b)) \<and>
    sk_in (n_dev (sb_io b)) = d2 @ crlf @ rest"
proof -
  let ?rest = "hex_str (length d2) @ crlf @ d2 @ crlf @ rest"
  obtain io where io: "read_body (sock_readn fr) (from_socket (new_nio r)) [] = read_body (sock_readn fr) (SocketBody (sock.after_chunk io (length d1))) d1"
      "sock.ready io" "sk_in (n_dev io) = ?rest"
    using sock.read_first_chunk [OF fresh_ready(1) [OF assms(1)] _ assms(2), of ?rest fr] assms(5,6) fresh_ready(2) [of r]
    by auto
  have "0 < length d2" "int (length d1) < 2 ^ 31" using assms(3,5) by simp_all
  with sock.read_smaller_chunk [OF io(2,3) _ assms(4), of fr] io(1) show ?thesis by simp
qed

lemma second_chunk_dropped_sample:
  "\<exists>b. read_body (sock_readn False) (from_socket (new_nio (quiet_socket (''5'' @ crlf @ ''hello'' @ crlf @ ''5'' @ crlf @ ''world'' @ crlf @ ''0'' @ crlf @ crlf) []))) [] =
     Some (Inr (''hello'', SocketBody b)) \<and> sk_in (n_dev (sb_io b)) = ''world'' @ crlf @ ''0'' @ crlf @ crlf"
proof (rule second_chunk_dropped)
  have "hex_str (length ''hello'') = ''5''" "hex_str (length ''world'') = ''5''" by code_simp+
  then show "sk_in (quiet_socket (''5'' @ crlf @ ''hello'' @ crlf @ ''5'' @ crlf @ ''world'' @ crlf @ ''0'' @ crlf @ crlf) []) =
      hex_str (length ''hello'') @ crlf @ ''hello'' @ crlf @ hex_str (length ''world'') @ crlf @ ''world'' @ crlf @ ''0'' @ crlf @ crlf"
    by (simp add: quiet_socket_def)
qed (simp_all add: no_failure_def quiet_socket_def)

definition once :: "nat \<Rightarrow> (string \<times> params) option" where
  "once n = Some (if n = 0 then (''hello'', []) else ([], []))"

definition sent_chunked :: string where
  "sent_chunked = ''5hello'' @ crlf @ ''0'' @ crlf @ crlf"

text \<open>
  The sender does not end the line with the size of a chunk. What it writes for a body delivered by
  a functor in one block of five bytes runs size and data together, and no receiver can read it.
\<close>

lemma chunk_size_unterminated:
  "(\<exists>io. send_body (sock_readn True) (sock_writen True) (new_nio (quiet_socket [] [])) (from_functor once :: socket http_body) = Some (Inr (E_ok, io)) \<and>
      sk_out (n_dev io) = sent_chunked) \<and>
   read_body (sock_readn True) (from_socket (new_nio (quiet_socket sent_chunked []))) [] = Some (Inl BadMessage)"
proof -
  have "map_option (map_sum id (\<lambda>(r, io). (r, sk_out (n_dev io))))
      (send_body (sock_readn True) (sock_writen True) (new_nio (quiet_socket [] [])) (from_functor once :: socket http_body)) = Some (Inr (E_ok, sent_chunked))"
    by code_simp
  then have "\<exists>io. send_body (sock_readn True) (sock_writen True) (new_nio (quiet_socket [] [])) (from_functor once :: socket http_body) = Some (Inr (E_ok, io)) \<and>
      sk_out (n_dev io) = sent_chunked"
    by (auto simp: map_sum_Inr)
  moreover have "map_option (map_sum id fst) (read_body (sock_readn True) (from_socket (new_nio (quiet_socket sent_chunked []))) []) = Some (Inl BadMessage)"
    by code_simp
  then have "read_body (sock_readn True) (from_socket (new_nio (quiet_socket sent_chunked []))) [] = Some (Inl BadMessage)"
    by (auto simp: map_sum_Inl)
  ultimately show ?thesis by blast
qed

lemma is_read_loop_exact: "int (length buf) + int (length s) = n \<Longrightarrow> is_read_loop s n buf = (buf @ s, \<lparr>is_rest = [], is_fail = True\<rparr>)"
  by (induction s arbitrary: buf) auto

lemma is_read_loop_over:
  "int (length buf) + int (length s) = n \<Longrightarrow> is_read_loop (s @ c # rest) n buf = (buf @ s, \<lparr>is_rest = rest, is_fail = False\<rparr>)"
  by (induction s arbitrary: buf) auto

text \<open>
  the loop that reads a block from an input stream takes one character too many. A body that ends
  with the stream cannot be read at all, and one that does not takes the first character of what
  follows with it.
\<close>

lemma stream_body_overread:
  fixes rd :: "'s \<Rightarrow> int \<Rightarrow> int \<times> string \<times> 's"
  assumes "s \<noteq> []" "int (length s) \<le> CHUNKSIZE"
  shows "read_body rd (from_istream_length \<lparr>is_rest = s, is_fail = False\<rparr> (int (length s))) [] = Some (Inl RuntimeError) \<and>
    (\<exists>b. read_body rd (from_istream_length \<lparr>is_rest = s @ c # rest, is_fail = False\<rparr> (int (length s))) [] = Some (Inr (s, IstreamBody b)) \<and>
      is_rest (ib_is b) = rest)"
proof -
  have n: "next_count (int (length s)) 0 = int (length s)"
    using next_count_range [of 0 "int (length s)"] assms by (simp add: CHUNKSIZE_def)
  define b where "b t r = \<lparr>ib_is = t, ib_size = int (length s), ib_read = r, ib_chunked = False, ib_ext = []\<rparr>" for t r
  have fs: "from_istream_length t (int (length s)) = IstreamBody (b t 0)" for t
    by (simp add: from_istream_length_def b_def)
  have hn: "has_next rd (IstreamBody (b t 0)) = Some (Inr (True, IstreamBody (b t 0)))" for t
    using assms(1) by (simp add: has_next_def istream_has_next_def b_def)
  have stop: "has_next rd (IstreamBody (b t (int (length s)))) = Some (Inr (False, IstreamBody (b t (int (length s)))))" for t
    by (simp add: has_next_def istream_has_next_def b_def)
  have "body_next rd (IstreamBody (b \<lparr>is_rest = s, is_fail = False\<rparr> 0)) = Inl RuntimeError"
    using is_read_loop_exact [of "[]" s] by (simp add: body_next_def istream_next_def b_def is_read_def n)
  then have "read_body rd (IstreamBody (b \<lparr>is_rest = s, is_fail = False\<rparr> 0)) [] = Some (Inl RuntimeError)"
    by (subst read_body.simps) (simp add: hn)
  moreover have "body_next rd (IstreamBody (b \<lparr>is_rest = s @ c # rest, is_fail = False\<rparr> 0)) =
      Inr (s, IstreamBody (b \<lparr>is_rest = rest, is_fail = False\<rparr> (int (length s))))"
    using is_read_loop_over [of "[]" s] by (simp add: body_next_def istream_next_def b_def is_read_def n)
  then have "read_body rd (IstreamBody (b \<lparr>is_rest = s @ c # rest, is_fail = False\<rparr> 0)) [] =
      Some (Inr (s, IstreamBody (b \<lparr>is_rest = rest, is_fail = False\<rparr> (int (length s)))))"
    by (subst read_body.simps, simp add: hn) (subst read_body.simps, simp add: stop)
  ultimately show ?thesis unfolding fs by (auto simp: b_def)
qed

theorem stream_body_overread_witness:
  "read_body (sock_readn True) (from_istream_length \<lparr>is_rest = ''hello'', is_fail = False\<rparr> 5) [] = Some (Inl RuntimeError) \<and>
   (\<exists>b. read_body (sock_readn True) (from_istream_length \<lparr>is_rest = ''hello, world'', is_fail = False\<rparr> 5) [] = Some (Inr (''hello'', IstreamBody b)) \<and>
     is_rest (ib_is b) = '' world'')"
  using stream_body_overread [of "''hello''" "sock_readn True" "CHR '',''" "'' world''"] by (simp add: CHUNKSIZE_def)

end
