(* ===== verification/Http_Request.thy ===== *)
theory Http_Request
  imports Http_Body
begin

text \<open>
  Requests and responses: their first lines, the builders that read a message head from a stream or a
  socket, validation and output (\<^verbatim>\<open>src/common/request.cpp\<close>, \<^verbatim>\<open>response.cpp\<close>, \<^verbatim>\<open>status.cpp\<close>,
  \<^verbatim>\<open>include/common/request.h\<close>, \<^verbatim>\<open>response.h\<close>, \<^verbatim>\<open>message.h\<close>). The parser of dates is an argument.
\<close>

section \<open>Messages\<close>

record ('d, 's) request =
  rq_type :: method_type
  rq_uri :: uri
  rq_version :: version
  rq_headers :: "'d headers"
  rq_body :: "'s http_body option"

record ('d, 's) response =
  rs_status :: int
  rs_reason :: string
  rs_version :: version
  rs_headers :: "'d headers"
  rs_body :: "'s http_body option"

definition version_1_1 :: version where
  "version_1_1 = \<lparr>v_protocol = http_protocol, v_major = MAJOR_VERSION, v_minor = MINOR_VERSION\<rparr>"

definition new_request :: "('d, 's) request" where
  "new_request = \<lparr>rq_type = M_GET, rq_uri = empty_uri, rq_version = version_1_1, rq_headers = [], rq_body = None\<rparr>"

definition new_response :: "('d, 's) response" where
  "new_response = \<lparr>rs_status = 200, rs_reason = [], rs_version = version_1_1, rs_headers = [], rs_body = None\<rparr>"

definition reason_phrases :: "(int \<times> string) list" where
  "reason_phrases =
    [(100, ''Continue''), (101, ''Switching Protocols''), (200, ''OK''), (201, ''Created''), (202, ''Accepted''),
     (203, ''Non-Authoritative Information''), (204, ''No Content''), (205, ''Reset Content''), (206, ''Partial Content''),
     (300, ''Multiple Choices''), (301, ''Moved Permanently''), (302, ''Found''), (303, ''See Other''), (304, ''Not Modified''),
     (305, ''Use Proxy''), (307, ''Temporary Redirect''), (400, ''Bad Request''), (401, ''Unauthorized''),
     (402, ''Payment Required''), (403, ''Forbidden''), (404, ''Not Found''), (405, ''Method Not Allowed''),
     (406, ''Not Acceptable''), (407, ''Proxy Authentication Required''), (408, ''Request Timeout''), (409, ''Conflict''),
     (410, ''Gone''), (411, ''Length Required''), (412, ''Precondition Failed''), (413, ''Payload Too Large''),
     (414, ''URI Too Long''), (415, ''Unsupported Media Type''), (416, ''Range Not Satisfiable''), (417, ''Expectation Failed''),
     (426, ''Upgrade Required''), (500, ''Internal Server Error''), (501, ''Not Implemented''), (502, ''Bad Gateway''),
     (503, ''Service Unavailable''), (504, ''Gateway Timeout''), (505, ''HTTP Version Not Supported'')]"

text \<open>\<open>None\<close> is the null pointer.\<close>

definition reason_phrase :: "int \<Rightarrow> string option" where
  "reason_phrase s = map_of reason_phrases s"

text \<open>What the framing of a message sees of its body.\<close>

definition body_view :: "'s http_body \<Rightarrow> body" where
  "body_view b = (if body_chunked b then ChunkedBody else LengthBody (body_length b))"

definition request_validate :: "('d, 's) request \<Rightarrow> ('d, 's) request http" where
  "request_validate req =
     (if header_is_set ''host'' (rq_headers req) then
        rbind (header_host (rq_headers req)) (\<lambda>(user_spec_host, user_spec_port).
          let u = rq_uri req
          in if u_host u \<noteq> [] \<and> user_spec_host \<noteq> u_host u then Inl BadMessage
             else if (if user_spec_port \<noteq> 0 then u_port u \<noteq> [] \<and> int user_spec_port \<noteq> decimal_value (u_port u) else u_port u \<noteq> [])
             then Inl BadMessage
             else rbind (validate_length_chunkiness (map_option body_view (rq_body req)) (rq_headers req)) (\<lambda>hs.
                    Inr (req\<lparr>rq_headers := hs\<rparr>)))
      else Inl BadMessage)"

text \<open>Assigning the null pointer to the reason string is undefined.\<close>

definition response_validate :: "('d, 's) response \<Rightarrow> ('d, 's) response http" where
  "response_validate resp =
     rbind (if rs_reason resp = [] then (case reason_phrase (rs_status resp) of None \<Rightarrow> Inl Undefined | Some r \<Rightarrow> Inr r)
            else Inr (rs_reason resp)) (\<lambda>reason.
       rbind (validate_length_chunkiness (map_option body_view (rs_body resp)) (rs_headers resp)) (\<lambda>hs.
         Inr (resp\<lparr>rs_reason := reason, rs_headers := hs\<rparr>)))"

definition request_build :: "bool \<Rightarrow> ('d, 's) request \<Rightarrow> ('d, 's) request http" where
  "request_build validate req = (if validate then request_validate req else Inr req)"

definition response_build :: "bool \<Rightarrow> ('d, 's) response \<Rightarrow> ('d, 's) response http" where
  "response_build validate resp = (if validate then response_validate resp else Inr resp)"

section \<open>Output\<close>

definition target_str :: "uri \<Rightarrow> string" where
  "target_str u = path_encode (p_component (u_path u)) @
     (if u_query u \<noteq> [] then ''?'' @ component_encode (u_query u) else []) @
     (if u_fragment u \<noteq> [] then ''#'' @ component_encode (u_fragment u) else [])"

definition request_str :: "('d \<Rightarrow> string) \<Rightarrow> ('d, 's) request \<Rightarrow> string" where
  "request_str sd req = method_str (rq_type req) @ '' '' @ target_str (rq_uri req) @ '' '' @ version_str (rq_version req) @ crlf @
     headers_str sd (rq_headers req) @ crlf"

definition response_str :: "('d \<Rightarrow> string) \<Rightarrow> ('d, 's) response \<Rightarrow> string" where
  "response_str sd resp = version_str (rs_version resp) @ '' '' @ int_str (rs_status resp) @ '' '' @ rs_reason resp @ crlf @
     headers_str sd (rs_headers resp) @ crlf"

section \<open>First lines\<close>

definition version_supported :: "version \<Rightarrow> unit http" where
  "version_supported v =
     (if v_protocol v \<noteq> http_protocol then Inl BadMessage
      else if v_major v \<noteq> MAJOR_VERSION \<or> v_minor v \<noteq> MINOR_VERSION then Inl (StatusError 505)
      else Inr ())"

definition request_line :: "(string \<Rightarrow> bool) \<Rightarrow> (string \<Rightarrow> bool) \<Rightarrow> string \<Rightarrow> ('d, 's) request \<Rightarrow> ('d, 's) request http" where
  "request_line ip4 ip6 istr req =
     (let (found, mstr, s) = read_token False (new_scanner istr)
      in if \<not> found then Inl BadMessage
         else
           let (sp, s) = read_space s
           in if \<not> sp then Inl BadMessage
              else rbind (read_uri ip4 ip6 s) (\<lambda>(found, ustr, s).
                if \<not> found then Inl BadMessage
                else
                  let (sp, s) = read_space s
                  in if \<not> sp then Inl BadMessage
                     else
                       let (found, vstr, s) = read_version s
                       in if \<not> found then Inl BadMessage
                          else if \<not> fst (read_crlf (read_opt_space s)) then Inl BadMessage
                          else rbind (method_of mstr) (\<lambda>m. rbind (uri_parse ip4 ip6 ustr) (\<lambda>u. rbind (version_of vstr) (\<lambda>v.
                                 rbind (version_supported v) (\<lambda>_. Inr (req\<lparr>rq_type := m, rq_uri := u, rq_version := v\<rparr>)))))))"

definition response_line :: "string \<Rightarrow> ('d, 's) response \<Rightarrow> ('d, 's) response http" where
  "response_line istr resp =
     (let (found, vstr, s) = read_version (new_scanner istr)
      in if \<not> found then Inl BadMessage
         else
           let (sp, s) = read_space s
           in if \<not> sp then Inl BadMessage
              else
                let (found, sstr, s) = read_status s
                in if \<not> found then Inl BadMessage
                   else
                     let (sp, s) = read_space s
                     in if \<not> sp then Inl BadMessage
                        else
                          let (found, rstr, s) = read_reason s
                          in if \<not> found then Inl BadMessage
                             else if \<not> fst (read_crlf (read_opt_space s)) then Inl BadMessage
                             else rbind (version_of vstr) (\<lambda>v. rbind (version_supported v) (\<lambda>_.
                               Inr (resp\<lparr>rs_version := v, rs_status := decimal_value sstr, rs_reason := rstr\<rparr>))))"

section \<open>Builders\<close>

text \<open>
  A source of lines: a stream, or a socket with a buffer of nio. \<open>None\<close> is a line that never ends,
  \<open>err\<close> the exception a failed read becomes. The loop goes on to the empty line.
\<close>

partial_function (option) read_headers ::
  "('i \<Rightarrow> (bool \<times> string \<times> 'i) option) \<Rightarrow> http_error \<Rightarrow> (string \<Rightarrow> 'd headers \<Rightarrow> 'd headers http) \<Rightarrow> 'i \<Rightarrow> 'd headers \<Rightarrow>
     ('d headers \<times> 'i) http option" where
  "read_headers rl err add src hs =
     (case rl src of
        None \<Rightarrow> None
      | Some (ok, line, src) \<Rightarrow>
          if \<not> ok then Some (Inl err)
          else if line = [] \<or> line = crlf then Some (Inr (hs, src))
          else (case add line hs of Inl e \<Rightarrow> Some (Inl e) | Inr hs \<Rightarrow> read_headers rl err add src hs))"

definition obind :: "'a http option \<Rightarrow> ('a \<Rightarrow> 'b http option) \<Rightarrow> 'b http option" where
  "obind m f = (case m of None \<Rightarrow> None | Some (Inl e) \<Rightarrow> Some (Inl e) | Some (Inr x) \<Rightarrow> f x)"

text \<open>\<open>chunked_from\<close> and \<open>length_from\<close> make the body of the rest of the source.\<close>

definition body_of :: "'d headers \<Rightarrow> ('i \<Rightarrow> 's http_body) \<Rightarrow> ('i \<Rightarrow> int \<Rightarrow> 's http_body) \<Rightarrow> 'i \<Rightarrow> 's http_body option http" where
  "body_of hs chunked_from length_from src =
     (if is_message_chunked hs then Inr (Some (chunked_from src))
      else rbind (content_length hs) (\<lambda>len. Inr (if len \<noteq> 0 then Some (length_from src len) else None)))"

definition read_head ::
  "('i \<Rightarrow> (bool \<times> string \<times> 'i) option) \<Rightarrow> http_error \<Rightarrow> (string \<Rightarrow> 'd headers \<Rightarrow> 'd headers http) \<Rightarrow> (string \<Rightarrow> 'm http) \<Rightarrow> 'i \<Rightarrow>
     ('m \<times> 'd headers \<times> 'i) http option" where
  "read_head rl err add first src =
     obind (map_option Inr (rl src)) (\<lambda>(ok, line, src).
       if \<not> ok then Some (Inl err)
       else case first line of
         Inl e \<Rightarrow> Some (Inl e)
       | Inr m \<Rightarrow>
           obind (read_headers rl err add src []) (\<lambda>(hs, src).
             Some (if hs = [] then Inl BadMessage else Inr (m, hs, src))))"

definition read_request ::
  "(string \<Rightarrow> bool) \<Rightarrow> (string \<Rightarrow> bool) \<Rightarrow> (string \<Rightarrow> 'd option) \<Rightarrow> ('i \<Rightarrow> (bool \<times> string \<times> 'i) option) \<Rightarrow> http_error \<Rightarrow>
     ('i \<Rightarrow> 's http_body) \<Rightarrow> ('i \<Rightarrow> int \<Rightarrow> 's http_body) \<Rightarrow> bool \<Rightarrow> 'i \<Rightarrow> (('d, 's) request \<times> 'i) http option" where
  "read_request ip4 ip6 pd rl err chunked_from length_from ignore_body src =
     obind (read_head rl err (header_add_line ip4 ip6 pd) (\<lambda>l. request_line ip4 ip6 l new_request) src) (\<lambda>(req, hs, src).
       Some (if ignore_body then Inr (req\<lparr>rq_headers := hs\<rparr>, src)
             else rbind (body_of hs chunked_from length_from src) (\<lambda>b. Inr (req\<lparr>rq_headers := hs, rq_body := b\<rparr>, src))))"

definition read_response ::
  "(string \<Rightarrow> bool) \<Rightarrow> (string \<Rightarrow> bool) \<Rightarrow> (string \<Rightarrow> 'd option) \<Rightarrow> ('i \<Rightarrow> (bool \<times> string \<times> 'i) option) \<Rightarrow> http_error \<Rightarrow>
     ('i \<Rightarrow> 's http_body) \<Rightarrow> ('i \<Rightarrow> int \<Rightarrow> 's http_body) \<Rightarrow> bool \<Rightarrow> 'i \<Rightarrow> (('d, 's) response \<times> 'i) http option" where
  "read_response ip4 ip6 pd rl err chunked_from length_from ignore_body src =
     obind (read_head rl err (header_add_line ip4 ip6 pd) (\<lambda>l. response_line l new_response) src) (\<lambda>(resp, hs, src).
       Some (if ignore_body then Inr (resp\<lparr>rs_headers := hs\<rparr>, src)
             else rbind (body_of hs chunked_from length_from src) (\<lambda>b. Inr (resp\<lparr>rs_headers := hs, rs_body := b\<rparr>, src))))"

definition stream_line :: "istream \<Rightarrow> (bool \<times> string \<times> istream) option" where
  "stream_line is = Some (is_readline is)"

definition nio_line :: "('s \<Rightarrow> int \<Rightarrow> int \<times> string \<times> 's) \<Rightarrow> 's nio \<Rightarrow> (bool \<times> string \<times> 's nio) option" where
  "nio_line rd io = map_option (\<lambda>(r, line, io). (r = E_ok, line, io)) (nio_readline rd io [])"

definition request_from_stream where
  "request_from_stream ip4 ip6 pd ignore_body is =
     read_request ip4 ip6 pd stream_line RuntimeError from_istream from_istream_length ignore_body is"

definition request_from_socket where
  "request_from_socket ip4 ip6 pd rd ignore_body io =
     read_request ip4 ip6 pd (nio_line rd) SystemError from_socket from_socket_length ignore_body io"

definition response_from_stream where
  "response_from_stream ip4 ip6 pd ignore_body is =
     read_response ip4 ip6 pd stream_line RuntimeError from_istream from_istream_length ignore_body is"

definition response_from_socket where
  "response_from_socket ip4 ip6 pd rd ignore_body io =
     read_response ip4 ip6 pd (nio_line rd) SystemError from_socket from_socket_length ignore_body io"

section \<open>The transmitter\<close>

definition send_message ::
  "('r \<Rightarrow> int \<Rightarrow> int \<times> string \<times> 'r) \<Rightarrow> ('s \<Rightarrow> string \<Rightarrow> int \<times> nat \<times> 's) \<Rightarrow> 's nio \<Rightarrow> string \<Rightarrow> 'r http_body option \<Rightarrow> (int \<times> 's nio) http option" where
  "send_message rd wr io head b =
     obind (Some (send_data wr io head)) (\<lambda>(r, io).
       if r = E_ok then (case b of None \<Rightarrow> Some (Inr (r, io)) | Some b \<Rightarrow> send_body rd wr io b) else Some (Inr (r, io)))"

definition send_request where
  "send_request sd rd wr io req = send_message rd wr io (request_str sd req) (rq_body req)"

definition send_response where
  "send_response sd rd wr io resp = send_message rd wr io (response_str sd resp) (rs_body resp)"

definition recv_request where
  "recv_request ip4 ip6 pd rd io =
     obind (request_from_socket ip4 ip6 pd rd False io) (\<lambda>(req, io). Some (rbind (request_build True req) (\<lambda>req. Inr (req, io))))"

definition recv_response where
  "recv_response ip4 ip6 pd rd io =
     obind (response_from_socket ip4 ip6 pd rd False io) (\<lambda>(resp, io). Some (rbind (response_build True resp) (\<lambda>resp. Inr (resp, io))))"

declare read_headers.simps [code]

section \<open>Reading what was written\<close>

definition plain_target :: "uri \<Rightarrow> bool" where
  "plain_target u \<longleftrightarrow> plain_path (u_path u) \<and> u_path u \<noteq> no_path \<and> list_all component_char (u_query u) \<and> list_all component_char (u_fragment u) \<and>
     u_scheme u = [] \<and> u_userinfo u = [] \<and> u_host u = [] \<and> u_port u = []"

lemma plain_target_text:
  assumes "plain_target u"
  shows "target_str u = p_component (u_path u) @ query_text u @ fragment_text u" "list_all path_char (p_component (u_path u))"
    "p_component (u_path u) \<noteq> []"
proof -
  have p: "p_segments (u_path u) \<noteq> []" "list_all plain_segment (p_segments (u_path u))"
      "p_component (u_path u) = segments_to_path (p_segments (u_path u)) True (slash_at_end (u_path u))"
    using assms by (auto simp: plain_target_def plain_path_def)
  show pc: "list_all path_char (p_component (u_path u))" "p_component (u_path u) \<noteq> []"
    using p join_slash_chars [of "p_segments (u_path u)"] by (auto simp: segments_to_path_def path_char_def)
  then show "target_str u = p_component (u_path u) @ query_text u @ fragment_text u"
    using assms by (simp add: plain_target_def target_str_def path_encode_def component_encode_def encode_keep query_text_def fragment_text_def)
qed

lemma plain_target_parses:
  assumes "plain_target u"
  shows "uri_parse ip4 ip6 (target_str u) = Inr u"
proof -
  have "uri_parse_loop ip4 ip6 False (p_component (u_path u) @ query_text u @ fragment_text u) empty_uri =
      Inr (empty_uri\<lparr>u_path := u_path u, u_query := u_query u, u_fragment := u_fragment u\<rparr>)"
    by (rule loop_path) (use assms in \<open>auto simp: plain_target_def empty_uri_def\<close>)
  moreover have "empty_uri\<lparr>u_path := u_path u, u_query := u_query u, u_fragment := u_fragment u\<rparr> = u"
    using assms by (cases u) (simp add: plain_target_def empty_uri_def)
  ultimately show ?thesis by (simp add: uri_parse_def plain_target_text [OF assms])
qed

lemma generic_visible: "uri_generic_delimiter c \<Longrightarrow> visible c"
proof -
  have "list_all visible '':/?#[]@''" by code_simp
  then show "uri_generic_delimiter c \<Longrightarrow> visible c" unfolding list_all_iff uri_generic_delimiter_def by blast
qed

lemma uri_reserved_cases: "uri_reserved_character c \<longleftrightarrow> uri_generic_delimiter c \<or> uri_subcomponent_delimiter c"
  by (simp add: uri_reserved_character_def)

lemma uri_text_intro:
  assumes "uri_reserved_character c \<or> uri_unreserved_character c"
  shows "to_int c \<noteq> -1 \<and> uri_text_char (to_int c)"
proof -
  have "visible c" using assms generic_visible uri_char_visible uri_reserved_cases by blast
  then have "0 \<le> to_int c" by (simp add: is_vchar_def)
  then show ?thesis using assms by (auto simp: uri_text_char_def push_to_int)
qed

lemma target_char:
  assumes "path_char c \<or> component_char c \<or> c \<in> {CHR ''?'', CHR ''#''}"
  shows "uri_reserved_character c \<or> uri_unreserved_character c"
proof -
  have "list_all uri_generic_delimiter ''@:/?#''" by code_simp
  then have "c \<in> set ''@:/'' \<or> c \<in> set '':@/?'' \<or> c \<in> {CHR ''?'', CHR ''#''} \<Longrightarrow> uri_generic_delimiter c" by auto
  with assms show ?thesis unfolding path_char_def component_char_def uri_reserved_cases by blast
qed

lemma target_class:
  assumes "plain_target u"
  shows "in_class uri_text_char (target_str u)"
proof -
  have "\<forall>c\<in>set (target_str u). path_char c \<or> component_char c \<or> c \<in> {CHR ''?'', CHR ''#''}"
    using plain_target_text [OF assms] assms by (auto simp: plain_target_def query_text_def fragment_text_def list_all_iff)
  then show ?thesis using target_char uri_text_intro unfolding in_class_def by blast
qed

lemma method_roundtrip: "method_of (method_str m) = Inr m"
  by (cases m) (simp_all add: method_of_def method_str_def)

lemma method_token: "method_str m \<noteq> [] \<and> (\<forall>c\<in>set (method_str m). is_tchar (to_int c))"
  by (cases m) (simp_all add: method_str_def is_tchar_def to_int_def)

abbreviation http11 :: string where "http11 \<equiv> ''HTTP/1.1''"

lemma version_text: "version_str version_1_1 = http11" "version_of http11 = Inr version_1_1" "version_supported version_1_1 = Inr ()"
  by code_simp+

lemma read_space_at:
  assumes "at s ('' '' @ rest)" "stops is_whitespace rest"
  shows "\<exists>s'. read_space s = (True, s') \<and> at s' rest"
proof -
  have "in_class is_whitespace '' ''" by (simp add: in_class_def is_whitespace_def to_int_def)
  from read_class_stops [OF assms(1) this assms(2), of "[]"] show ?thesis by (auto simp: read_space_def)
qed

lemma request_line_text:
  assumes "plain_target u"
  shows "request_line ip4 ip6 (method_str m @ '' '' @ target_str u @ '' '' @ http11 @ crlf) req =
    Inr (req\<lparr>rq_type := m, rq_uri := u, rq_version := version_1_1\<rparr>)"
proof -
  let ?t = "target_str u" and ?v = "'' '' @ http11 @ crlf"
  have t: "?t \<noteq> []" "in_class uri_text_char ?t" using plain_target_text [OF assms] target_class [OF assms] by auto
  have hd: "\<not> is_whitespace (to_int (hd ?t))"
  proof -
    have "uri_text_char (to_int (hd ?t))" using t by (simp add: in_class_def)
    moreover have "\<not> uri_text_char 0x20" "\<not> uri_text_char 0x09" by code_simp+
    ultimately show ?thesis by (auto simp: is_whitespace_def)
  qed
  obtain s1 where s1: "read_token False (new_scanner (method_str m @ '' '' @ ?t @ ?v)) = (True, method_str m, s1)" "at s1 ('' '' @ ?t @ ?v)"
    using read_token_stops [OF at_new, of "method_str m" "'' '' @ ?t @ ?v" False] method_token [of m]
    by (auto simp: stops_def is_tchar_def to_int_def)
  obtain s2 where s2: "read_space s1 = (True, s2)" "at s2 (?t @ ?v)"
    using read_space_at [OF s1(2)] t(1) hd by (cases ?t) (auto simp: stops_def)
  have "stops uri_text_char ?v"
  proof -
    have "\<not> uri_text_char (to_int (CHR '' ''))" by code_simp
    then show ?thesis by (simp add: stops_def)
  qed
  from read_class_stops [OF s2(2) t(2) this, of "[]"] obtain s3 where s3: "read_uri ip4 ip6 s2 = Inr (True, ?t, s3)" "at s3 ?v"
    using t(1) plain_target_parses [OF assms, of ip4 ip6] by (auto simp: read_uri_def)
  obtain s4 where s4: "read_space s3 = (True, s4)" "at s4 (http11 @ crlf)"
    using read_space_at [OF s3(2)] by (auto simp: stops_def is_whitespace_def to_int_def)
  obtain s5 where s5: "read_version s4 = (True, http11, s5)" "at s5 crlf"
    using read_class_stops [OF s4(2), of "\<lambda>c. is_tchar c \<or> c = 0x2F" "[]"]
    by (auto simp: read_version_def stops_def in_class_def is_tchar_def to_int_def)
  have "at (read_opt_space s5) crlf"
    by (rule read_opt_space_stops [of s5 "[]"]) (use s5(2) in \<open>auto simp: stops_def is_whitespace_def to_int_def\<close>)
  then have "fst (read_crlf (read_opt_space s5))" using read_crlf_at by fastforce
  then show ?thesis
    using s1(1) s2(1) s3(1) s4(1) s5(1) plain_target_parses [OF assms, of ip4 ip6]
    by (simp add: request_line_def method_roundtrip version_text)
qed

lemma newline_free: "line_text t \<Longrightarrow> CHR 0x0A \<notin> set t"
  by (auto simp: line_text_def to_int_def)

lemma header_line_text:
  assumes "plain_field h"
  shows "\<exists>l. header_line sd h = l @ [CHR 0x0A] \<and> CHR 0x0A \<notin> set l \<and> header_line sd h \<noteq> crlf"
proof -
  let ?n = "canonicalize_name (fst h)" and ?t = "hval_str sd (m_value (snd h))"
  have n: "token_text (fst h)" "plain_value (fst h) (m_value (snd h))" using assms by (auto simp: plain_field_def)
  have tc: "\<forall>c\<in>set ?n. is_tchar (to_int c)" "?n \<noteq> []"
    using canonicalize_loop_lower [of "fst h" True] n(1) canonicalize_Nil [of "fst h"]
    by (auto simp: token_text_def canonicalize_name_def)
  have no: "\<not> is_tchar (to_int (CHR 0x0A))" "\<not> is_tchar (to_int (CHR 0x0D))" by code_simp+
  then have nl: "CHR 0x0A \<notin> set ?n" using tc(1) by blast
  have "hd ?n \<noteq> CHR 0x0D" using tc hd_in_set [OF tc(2)] no(2) by metis
  then have "header_line sd h \<noteq> crlf" using tc(2) by (cases ?n) (auto simp: header_line_def)
  moreover have "CHR 0x0A \<notin> set (?n @ '': '' @ ?t @ [CHR 0x0D])"
    using nl newline_free [OF value_line_text [OF n(2), of sd]] by auto
  ultimately show ?thesis by (intro exI [of _ "?n @ '': '' @ ?t @ [CHR 0x0D]"]) (auto simp: header_line_def)
qed

context byte_device
begin

lemma nio_line_law:
  assumes "ready io" "arriving io = l @ CHR 0x0A # rest" "CHR 0x0A \<notin> set l"
  shows "\<exists>io'. nio_line readn io = Some (True, l @ [CHR 0x0A], io') \<and> arriving io' = rest \<and> ready io' \<and> written io' = written io"
  using readline_law(1) [OF assms(1,3,2), of "[]"] by (auto simp: nio_line_def)

lemma read_headers_law:
  assumes "ready io" "arriving io = headers_str sd hs @ crlf @ rest" "list_all plain_field hs"
    and "distinct (names hs)" "set (names hs) \<inter> set (names acc) = {}"
  shows "\<exists>io'. read_headers (nio_line readn) err (header_add_line ip4 ip6 pd) io acc = Some (Inr (acc @ map (reread sd) hs, io')) \<and>
    arriving io' = rest \<and> ready io' \<and> written io' = written io"
  using assms
proof (induction hs arbitrary: io acc)
  case Nil
  obtain io' where "nio_line readn io = Some (True, crlf, io')" "arriving io' = rest" "ready io'" "written io' = written io"
    using nio_line_law [OF Nil(1), of "[CHR 0x0D]" rest] Nil(2) by (auto simp: headers_str_def)
  then show ?case by (subst read_headers.simps) simp
next
  case (Cons h hs)
  from Cons.prems(3) have h: "plain_field h" by simp
  obtain l where l: "header_line sd h = l @ [CHR 0x0A]" "CHR 0x0A \<notin> set l" "header_line sd h \<noteq> crlf"
    using header_line_text [OF h] by blast
  have "arriving io = l @ CHR 0x0A # headers_str sd hs @ crlf @ rest" using Cons.prems(2) l(1) by (simp add: headers_str_def)
  from nio_line_law [OF Cons.prems(1) this l(2)] obtain io1 where
    io1: "nio_line readn io = Some (True, header_line sd h, io1)" "arriving io1 = headers_str sd hs @ crlf @ rest" "ready io1" "written io1 = written io"
    using l(1) by auto
  have add: "header_add_line ip4 ip6 pd (header_line sd h) acc = Inr (acc @ [reread sd h])"
    by (rule add_line_field [OF h]) (use Cons.prems(5) in auto)
  have "\<exists>io'. read_headers (nio_line readn) err (header_add_line ip4 ip6 pd) io1 (acc @ [reread sd h]) =
      Some (Inr ((acc @ [reread sd h]) @ map (reread sd) hs, io')) \<and> arriving io' = rest \<and> ready io' \<and> written io' = written io1"
    by (rule Cons.IH) (use io1 Cons.prems in \<open>auto simp: reread_def\<close>)
  moreover have "header_line sd h \<noteq> []" using l(1) by simp
  ultimately show ?case using l(3) io1(4) by (subst read_headers.simps) (simp add: io1(1) add)
qed

lemma read_request_law:
  assumes "ready io" "arriving io = request_str sd req @ rest" "plain_target (rq_uri req)" "rq_version req = version_1_1"
    and "list_all plain_field (rq_headers req)" "distinct (names (rq_headers req))" "rq_headers req \<noteq> []"
  shows "\<exists>io'. request_from_socket ip4 ip6 pd readn ignore io = Some (
      let req' = new_request\<lparr>rq_type := rq_type req, rq_uri := rq_uri req, rq_version := version_1_1, rq_headers := map (reread sd) (rq_headers req)\<rparr>
      in if ignore then Inr (req', io')
         else rbind (body_of (map (reread sd) (rq_headers req)) from_socket from_socket_length io') (\<lambda>b. Inr (req'\<lparr>rq_body := b\<rparr>, io'))) \<and>
    arriving io' = rest \<and> ready io' \<and> written io' = written io"
proof -
  let ?l = "method_str (rq_type req) @ '' '' @ target_str (rq_uri req) @ '' '' @ http11 @ [CHR 0x0D]"
  have "CHR 0x0A \<notin> set (target_str (rq_uri req))"
  proof -
    have "\<not> uri_text_char (to_int (CHR 0x0A))" by code_simp
    with target_class [OF assms(3)] show ?thesis by (auto simp: in_class_def)
  qed
  moreover have "CHR 0x0A \<notin> set (method_str (rq_type req))" using method_token [of "rq_type req"] by (auto simp: is_tchar_def to_int_def)
  ultimately have "CHR 0x0A \<notin> set ?l" by auto
  moreover have "arriving io = ?l @ CHR 0x0A # headers_str sd (rq_headers req) @ crlf @ rest"
    using assms(2,4) by (simp add: request_str_def version_text)
  ultimately obtain io1 where io1: "nio_line readn io = Some (True, ?l @ [CHR 0x0A], io1)"
      "arriving io1 = headers_str sd (rq_headers req) @ crlf @ rest" "ready io1" "written io1 = written io"
    using nio_line_law [OF assms(1)] by blast
  note line = request_line_text [OF assms(3), of ip4 ip6 "rq_type req"]
  obtain io2 where io2: "read_headers (nio_line readn) SystemError (header_add_line ip4 ip6 pd) io1 [] = Some (Inr (map (reread sd) (rq_headers req), io2))"
      "arriving io2 = rest" "ready io2" "written io2 = written io1"
    using read_headers_law [OF io1(3,2) assms(5,6), of "[]" SystemError ip4 ip6 pd] by auto
  show ?thesis
    using io1(1,4) io2 assms(7)
    by (intro exI [of _ io2]) (simp add: line [simplified] request_from_socket_def read_request_def read_head_def obind_def Let_def)
qed

end

section \<open>Properties\<close>

definition plain_request :: "('d, 's) request \<Rightarrow> bool" where
  "plain_request req \<longleftrightarrow> plain_target (rq_uri req) \<and> rq_version req = version_1_1 \<and> list_all plain_field (rq_headers req) \<and>
     distinct (names (rq_headers req)) \<and> rq_headers req \<noteq> [] \<and> rq_body req = None"

lemma request_str_ne: "request_str sd req \<noteq> []"
  by (simp add: request_str_def)

lemma send_head:
  assumes "no_failure w"
  shows "\<exists>io. send_request sd rd (sock_writen fw) (new_nio w) (req\<lparr>rq_body := None\<rparr>) = Some (Inr (E_ok, io)) \<and>
    sk_out (n_dev io) = sk_out w @ request_str sd (req\<lparr>rq_body := None\<rparr>)"
proof -
  obtain io where "nio_write (sock_writen fw) (new_nio w) (request_str sd (req\<lparr>rq_body := None\<rparr>)) = (E_ok, length (request_str sd (req\<lparr>rq_body := None\<rparr>)), io)"
      "sk_out (n_dev io) = sk_out w @ request_str sd (req\<lparr>rq_body := None\<rparr>)"
    by (rule sock.nio_write_law [OF fresh_ready(1) [OF assms] request_str_ne, of fw]) (simp add: fresh_ready(2))
  then show ?thesis by (simp add: send_request_def send_message_def obind_def send_data_def E_defs)
qed

lemma find_reread: "header_find n (map (reread sd) hs) = map_option (\<lambda>v. \<lparr>m_raw = hval_str sd (m_value v), m_value = m_value v\<rparr>) (header_find n hs)"
  by (induction hs) (auto simp: header_find_def reread_def)

lemma reread_request:
  "rq_version req = version_1_1 \<Longrightarrow> rq_body req = None \<Longrightarrow>
   new_request\<lparr>rq_type := rq_type req, rq_uri := rq_uri req, rq_version := version_1_1, rq_headers := hs\<rparr> = req\<lparr>rq_headers := hs\<rparr>"
  by (cases req) (simp add: new_request_def)


definition sample_request :: "(unit, socket) request" where
  "sample_request = \<lparr>rq_type = M_PUT,
     rq_uri = empty_uri\<lparr>u_path := \<lparr>p_component = ''/a/b'', p_path = ''/a/b'', p_segments = [''a'', ''b''], slash_at_start = True, slash_at_end = False\<rparr>,
       u_query := ''k=v''\<rparr>,
     rq_version = version_1_1,
     rq_headers = [(''host'', \<lparr>m_raw = [], m_value = HostV \<lparr>hp_host = ''example.com'', hp_port = 8080\<rparr>\<rparr>),
       (''te'', \<lparr>m_raw = [], m_value = TokSeq [HToken ''gzip'' [], HToken ''trailers'' []]\<rparr>)],
     rq_body = None\<rparr>"

lemma sample_plain: "plain_request sample_request"
  unfolding plain_request_def
proof (intro conjI)
  show "plain_target (rq_uri sample_request)" by code_simp
  show "rq_version sample_request = version_1_1" "rq_headers sample_request \<noteq> []" "rq_body sample_request = None"
    by (simp_all add: sample_request_def)
  have "token_text ''host''" "token_text ''te''" "plain_host ''example.com''" "tokens_text [''gzip'', ''trailers'']" by code_simp+
  then show "list_all plain_field (rq_headers sample_request)" by (simp add: sample_request_def plain_field_def plain_value_def)
  show "distinct (names (rq_headers sample_request))" by code_simp
qed

lemma quiet_ok: "no_failure (quiet_socket bs [])" "sk_in (quiet_socket bs []) = bs" "sk_out (quiet_socket bs []) = []"
  by (simp_all add: no_failure_def quiet_socket_def)


text \<open>
  A request without a body is not accepted. A well-formed request whose header has neither a
  Content-Length nor the chunked coding, such as any GET of a browser, ends in the exception for a
  missing header field, on every connection.
\<close>

lemma request_without_length_rejected:
  fixes req :: "('d, 's) request" and pd :: "string \<Rightarrow> 'd option"
  assumes "plain_request req" "''content-length'' \<notin> set (names (rq_headers req))" "\<not> is_message_chunked (rq_headers req)"
    and "no_failure r" "sk_in r = request_str sd req @ rest"
  shows "request_from_socket ip4 ip6 pd (sock_readn fr) False (new_nio r) = Some (Inl OutOfRange_h)"
proof -
  let ?hs = "map (reread sd) (rq_headers req)"
  have p: "plain_target (rq_uri req)" "rq_version req = version_1_1" "list_all plain_field (rq_headers req)"
      "distinct (names (rq_headers req))" "rq_headers req \<noteq> []"
    using assms(1) by (auto simp: plain_request_def)
  have "header_find ''content-length'' (rq_headers req) = None" using assms(2) by (simp only: find_None not_False_eq_True)
  then have "content_length ?hs = Inl OutOfRange_h" unfolding content_length_def length_field find_reread by simp
  moreover have "\<not> is_message_chunked ?hs"
    using assms(3) unfolding is_message_chunked_def find_reread by (auto split: option.splits hval.splits)
  ultimately have "body_of ?hs from_socket from_socket_length io' = Inl OutOfRange_h" for io' :: "socket nio"
    by (simp add: body_of_def)
  then show ?thesis
    using sock.read_request_law [OF fresh_ready(1) [OF assms(4)] _ p, of sd rest ip4 ip6 pd fr False] assms(5) fresh_ready(2) [of r]
    by auto
qed

lemma request_without_length_sample:
  "request_from_socket (\<lambda>_. False) (\<lambda>_. False) (\<lambda>_. None :: unit option) (sock_readn False) False
     (new_nio (quiet_socket (request_str (\<lambda>_. []) sample_request) [])) = Some (Inl OutOfRange_h)"
proof (rule request_without_length_rejected [OF sample_plain])
  show "''content-length'' \<notin> set (names (rq_headers sample_request))" by code_simp
  show "\<not> is_message_chunked (rq_headers sample_request)" by code_simp
  show "sk_in (quiet_socket (request_str (\<lambda>_. []) sample_request) []) = request_str (\<lambda>_. []) sample_request @ []" by (simp add: quiet_ok)
qed (rule quiet_ok)

text \<open>
  A received body is validated as if it were empty: the length functions of stream and socket
  bodies do not override the one of the base class, so building a request with a body of \<open>n\<close> bytes
  sets its Content-Length to 0.
\<close>

lemma received_length_zeroed:
  assumes "request_build True req = Inr req'" "rq_body req = Some (from_socket_length io n) \<or> rq_body req = Some (from_istream_length is n)"
  shows "content_length (rq_headers req') = Inr 0"
proof -
  have "body_view (from_socket_length io n) = LengthBody 0" "body_view (from_istream_length is n) = LengthBody 0"
    by (simp_all add: body_view_def from_socket_length_def from_istream_length_def body_chunked_def body_length_def)
  with assms(2) have "map_option body_view (rq_body req) = Some (LengthBody 0)" by (elim disjE) simp_all
  then obtain hs where "validate_length_chunkiness (Some (LengthBody 0)) (rq_headers req) = Inr hs" "rq_headers req' = hs"
    using assms(1) by (auto simp: request_build_def request_validate_def rbind_Inr Let_def split: if_splits)
  then obtain hs0 where "set_content_length 0 hs0 = rq_headers req'" by (auto simp: validate_length_chunkiness_def rbind_Inr)
  then show ?thesis using set_length [of 0 hs0] by simp
qed

lemma received_length_zeroed_sample:
  "\<exists>req'. request_build True (sample_request\<lparr>rq_body := Some (from_socket_length (new_nio (quiet_socket ''hello'' [])) 5)\<rparr>) = Inr req' \<and>
     content_length (rq_headers req') = Inr 0"
proof -
  have "map_sum id (\<lambda>_. ()) (request_build True (sample_request\<lparr>rq_body := Some (from_socket_length (new_nio (quiet_socket ''hello'' [])) 5)\<rparr>)) = Inr ()"
    by code_simp
  then obtain req' where "request_build True (sample_request\<lparr>rq_body := Some (from_socket_length (new_nio (quiet_socket ''hello'' [])) 5)\<rparr>) = Inr req'"
    by (auto simp: map_sum_Inr)
  from received_length_zeroed [OF this, of "new_nio (quiet_socket ''hello'' [])" 5] this show ?thesis by auto
qed

end
