(* ===== verification/Http_Router.thy ===== *)
theory Http_Router
  imports Http_Request
begin

text \<open>
  The router of the http server (\<^verbatim>\<open>include/server/router.h\<close>, \<^verbatim>\<open>src/server/router.cpp\<close>): a tree of path
  segments with handlers, built by \<open>add\<close> and searched by \<open>handle\<close>. A parameter segment holds a regular
  expression; which texts compile (\<open>rx_ok\<close>) and what they match (\<open>rx\<close>) are arguments. A handler is any
  value; running it is an argument of the outer \<open>handle\<close>.
\<close>

section \<open>Segments\<close>

datatype 'h path_segment =
  PathSegment (m_name: string) (m_param: string) (m_regexpr: bool) (m_children: "'h path_segment list") (m_handler: "'h option")

definition is_param :: "'h path_segment \<Rightarrow> bool" where
  "is_param seg \<longleftrightarrow> m_param seg \<noteq> []"

definition segment_char :: "char \<Rightarrow> bool" where
  "segment_char c \<longleftrightarrow> uri_unreserved_character c \<or> uri_subcomponent_delimiter c \<or> c = CHR ''@'' \<or> c = CHR '':''"

definition new_segment :: "(string \<Rightarrow> bool) \<Rightarrow> string \<Rightarrow> 'h path_segment http" where
  "new_segment rx_ok seg =
     (if seg \<noteq> [] \<and> hd seg = CHR ''{'' \<and> last seg = CHR ''}'' then
        let (found, param, name, _) = read_path_parameter (new_scanner_at seg 1 (length seg - 1))
        in if \<not> found then Inl InvalidArgument_h
           else if \<not> rx_ok name then Inl InvalidArgument_h
           else Inr (PathSegment name param True [] None)
      else if list_all segment_char seg then Inr (PathSegment seg [] False [] None)
      else Inl InvalidArgument_h)"

definition matches :: "(string \<Rightarrow> string \<Rightarrow> bool) \<Rightarrow> 'h path_segment \<Rightarrow> string \<Rightarrow> bool" where
  "matches rx seg elem = (if m_regexpr seg then rx (m_name seg) elem else elem = m_name seg)"

section \<open>The tree\<close>

text \<open>The elements of a path, without the empty ones between slashes.\<close>

fun split_loop :: "string \<Rightarrow> string \<Rightarrow> string list" where
  "split_loop [] elem = (if elem \<noteq> [] then [elem] else [])"
| "split_loop (c # cs) elem =
     (if c = CHR ''/'' then (if elem \<noteq> [] then elem # split_loop cs [] else split_loop cs [])
      else split_loop cs (elem @ [c]))"

definition split_path :: "string \<Rightarrow> string list" where
  "split_path path = split_loop path []"

text \<open>The position of the first segment with the name; \<open>add\<close> compares names, \<open>handle\<close> matches.\<close>

fun find_named :: "string \<Rightarrow> 'h path_segment list \<Rightarrow> nat option" where
  "find_named name [] = None"
| "find_named name (s # ss) = (if m_name s = name then Some 0 else map_option Suc (find_named name ss))"

fun set_children :: "'h path_segment list \<Rightarrow> 'h path_segment \<Rightarrow> 'h path_segment" where
  "set_children cs (PathSegment n p r _ h) = PathSegment n p r cs h"

fun set_handler :: "'h \<Rightarrow> 'h path_segment \<Rightarrow> 'h path_segment" where
  "set_handler h (PathSegment n p r cs _) = PathSegment n p r cs (Some h)"

text \<open>
  \<open>add\<close> walks down the existing segments, then makes the missing ones. When one of these cannot be made
  the exception leaves the segments made before it in the tree.
\<close>

fun add_elements :: "(string \<Rightarrow> bool) \<Rightarrow> string list \<Rightarrow> 'h \<Rightarrow> 'h path_segment list \<Rightarrow> unit http \<times> 'h path_segment list" where
  "add_elements rx_ok [] h segs = (Inr (), segs)"
| "add_elements rx_ok (e # es) h segs =
     (case find_named e segs of
        Some i \<Rightarrow>
          (if es = [] then (Inr (), segs[i := set_handler h (segs ! i)])
           else let (r, cs) = add_elements rx_ok es h (m_children (segs ! i)) in (r, segs[i := set_children cs (segs ! i)]))
      | None \<Rightarrow>
          (case new_segment rx_ok e of
             Inl err \<Rightarrow> (Inl err, segs)
           | Inr s \<Rightarrow>
               let (r, s1) = (if es = [] then (Inr (), set_handler h s)
                              else let (r, cs) = add_elements rx_ok es h (m_children s) in (r, set_children cs s))
               in (r, if m_regexpr s then segs @ [s1] else s1 # segs)))"

definition router_add :: "(string \<Rightarrow> bool) \<Rightarrow> string \<Rightarrow> 'h \<Rightarrow> 'h path_segment list \<Rightarrow> unit http \<times> 'h path_segment list" where
  "router_add rx_ok path h root = add_elements rx_ok (split_path path) h root"

section \<open>Finding a handler\<close>

text \<open>
  The search passes the current segment by reference: after a failed search below a segment the
  variable holds whatever that search visited last, and decides whether a parameter is popped.
  Popping an empty \<^verbatim>\<open>std::stack\<close> is undefined.
\<close>

type_synonym 'h found = "bool \<times> 'h path_segment option \<times> (string \<times> string) list"

function handle_loop ::
  "(string \<Rightarrow> string \<Rightarrow> bool) \<Rightarrow> 'h path_segment option \<Rightarrow> 'h path_segment list \<Rightarrow> string list \<Rightarrow> (string \<times> string) list \<Rightarrow> 'h found http" where
  "handle_loop rx seg segs [] stk = Inr (True, seg, stk)"
| "handle_loop rx seg [] (e # es) stk = Inr (False, seg, stk)"
| "handle_loop rx seg (s # ss) (e # es) stk =
     (if matches rx s e then
        case handle_loop rx (Some s) (m_children s) es (if is_param s then (m_name s, e) # stk else stk) of
          Inl err \<Rightarrow> Inl err
        | Inr (ok, seg1, stk1) \<Rightarrow>
            if ok then Inr (True, seg1, stk1)
            else if is_param (the seg1) then (if stk1 = [] then Inl Undefined else handle_loop rx seg1 ss (e # es) (tl stk1))
            else handle_loop rx seg1 ss (e # es) stk1
      else handle_loop rx (Some s) ss (e # es) stk)"
  by pat_completeness auto

termination handle_loop
  by (relation "measures [\<lambda>(_, _, _, es, _). length es, \<lambda>(_, _, segs, _, _). length segs]") auto

text \<open>\<^verbatim>\<open>std::map::insert\<close> keeps the value a key has.\<close>

definition set_path_parameter :: "string \<times> string \<Rightarrow> (string \<times> string) list \<Rightarrow> (string \<times> string) list" where
  "set_path_parameter kv m = (if map_of m (fst kv) = None then kv # m else m)"

definition find_handler :: "(string \<Rightarrow> string \<Rightarrow> bool) \<Rightarrow> 'h path_segment list \<Rightarrow> string \<Rightarrow> ('h option \<times> (string \<times> string) list) http" where
  "find_handler rx root path =
     rbind (handle_loop rx None root (split_path path) []) (\<lambda>(ok, seg, stk).
       if ok then Inr (case seg of None \<Rightarrow> None | Some s \<Rightarrow> m_handler s, fold set_path_parameter stk [])
       else Inl NotFound)"

definition no_body_status :: "int \<Rightarrow> bool" where
  "no_body_status s \<longleftrightarrow> is_info_status s \<or> s = 204 \<or> s = 304"

definition check_response :: "method_type \<Rightarrow> ('d, 's) response \<Rightarrow> ('d, 's) response http" where
  "check_response m resp =
     (if rs_body resp = None then Inr resp
      else
        let s = rs_status resp
        in if m = M_HEAD then Inl (StatusError 500)
           else if m = M_CONNECT \<and> is_success_status s then Inl (StatusError s)
           else if no_body_status s then Inl (StatusError s)
           else Inr resp)"

text \<open>Calling an empty \<^verbatim>\<open>std::function\<close> throws, which becomes \<^verbatim>\<open>not_implemented\<close>.\<close>

definition router_handle ::
  "(string \<Rightarrow> string \<Rightarrow> bool) \<Rightarrow> ('h \<Rightarrow> ('d, 's) request \<Rightarrow> (string \<times> string) list \<Rightarrow> ('d, 's) response http) \<Rightarrow>
     'h path_segment list \<Rightarrow> ('d, 's) request \<Rightarrow> ('d, 's) response http" where
  "router_handle rx call root req =
     rbind (find_handler rx root (p_component (u_path (rq_uri req)))) (\<lambda>(h, ps).
       case h of
         None \<Rightarrow> Inl NotImplemented
       | Some h \<Rightarrow> rbind (call h req ps) (check_response (rq_type req)))"

section \<open>The search against a plain search\<close>

text \<open>The first route in the order of the tree, depth first, with no variables shared between levels.\<close>

function first_route :: "(string \<Rightarrow> string \<Rightarrow> bool) \<Rightarrow> 'h path_segment list \<Rightarrow> string list \<Rightarrow> 'h path_segment list option" where
  "first_route rx segs [] = Some []"
| "first_route rx [] (e # es) = None"
| "first_route rx (s # ss) (e # es) =
     (case (if matches rx s e then first_route rx (m_children s) es else None) of
        Some p \<Rightarrow> Some (s # p)
      | None \<Rightarrow> first_route rx ss (e # es))"
  by pat_completeness auto

termination first_route
  by (relation "measures [\<lambda>(_, _, es). length es, \<lambda>(_, segs, _). length segs]") auto

lemma first_route_nonempty: "first_route rx segs (e # es) \<noteq> Some []"
  by (induction segs) (auto split: option.splits)

lemma handle_first_route:
  "handle_loop rx seg segs es stk = Inr (ok, seg1, stk1) \<Longrightarrow>
   (case first_route rx segs es of
      None \<Rightarrow> \<not> ok
    | Some p \<Rightarrow> ok \<and> seg1 = (if p = [] then seg else Some (last p)))"
proof (induction rx segs es arbitrary: seg stk ok seg1 stk1 rule: first_route.induct)
  case (3 rx s ss e es)
  let ?below = "if matches rx s e then first_route rx (m_children s) es else None"
  have rest: ?case if "?below = None" "handle_loop rx seg' ss (e # es) stk' = Inr (ok, seg1, stk1)" for seg' stk'
    using 3(2) [OF that] that(1) first_route_nonempty [of rx ss e es] by (auto split: option.splits)
  show ?case
  proof (cases "matches rx s e")
    case True
    let ?stk = "if is_param s then (m_name s, e) # stk else stk"
    from 3(3) True obtain ok' seg' stk' where r: "handle_loop rx (Some s) (m_children s) es ?stk = Inr (ok', seg', stk')"
      by (auto split: sum.splits prod.splits)
    note below = 3(1) [OF True r]
    show ?thesis
    proof (cases ok')
      case ok: True
      with below obtain p where p: "first_route rx (m_children s) es = Some p" "seg' = (if p = [] then Some s else Some (last p))"
        by (auto split: option.splits)
      with 3(3) True r ok show ?thesis by auto
    next
      case no: False
      with below True have "?below = None" by (auto split: option.splits)
      moreover from 3(3) True r no obtain stk'' where "handle_loop rx seg' ss (e # es) stk'' = Inr (ok, seg1, stk1)"
        by (auto split: if_splits)
      ultimately show ?thesis by (rule rest)
    qed
  next
    case False
    with 3(3) rest [of "Some s" stk] show ?thesis by auto
  qed
qed auto

section \<open>Trees of literal segments\<close>

fun lit_seg :: "'h path_segment \<Rightarrow> bool" where
  "lit_seg (PathSegment n p r cs h) \<longleftrightarrow> p = [] \<and> \<not> r \<and> list_all lit_seg cs \<and> distinct (map m_name cs)"

definition lit_tree :: "'h path_segment list \<Rightarrow> bool" where
  "lit_tree segs \<longleftrightarrow> list_all lit_seg segs \<and> distinct (map m_name segs)"

lemma lit_segD: "lit_seg s \<Longrightarrow> m_param s = [] \<and> \<not> m_regexpr s \<and> lit_tree (m_children s)"
  by (cases s) (simp add: lit_tree_def)

lemma lit_tree_Cons [simp]: "lit_tree (s # ss) \<longleftrightarrow> lit_seg s \<and> lit_tree ss \<and> m_name s \<notin> set (map m_name ss)"
  by (auto simp: lit_tree_def)

definition child :: "string \<Rightarrow> 'h path_segment list \<Rightarrow> 'h path_segment option" where
  "child e segs = map_option (\<lambda>i. segs ! i) (find_named e segs)"

lemma find_named_Some: "find_named e segs = Some i \<Longrightarrow> i < length segs \<and> m_name (segs ! i) = e"
  by (induction segs arbitrary: i) (auto split: if_splits simp: nth_Cons')

lemma find_named_None: "find_named e segs = None \<longleftrightarrow> e \<notin> set (map m_name segs)"
  by (induction segs) auto

lemma find_named_update: "m_name s = m_name (segs ! i) \<Longrightarrow> i < length segs \<Longrightarrow> find_named e (segs[i := s]) = find_named e segs"
  by (induction segs arbitrary: i) (auto simp: nth_Cons' split: nat.splits)

lemma child_Cons: "child e (s # segs) = (if m_name s = e then Some s else child e segs)"
  by (auto simp: child_def option.map_comp comp_def)

lemma child_update:
  assumes "distinct (map m_name segs)" "find_named e segs = Some i" "m_name s = e"
  shows "child q (segs[i := s]) = (if q = e then Some s else child q segs)"
proof -
  have i: "i < length segs" "m_name (segs ! i) = e" using find_named_Some [OF assms(2)] by auto
  have "find_named q (segs[i := s]) = find_named q segs" by (rule find_named_update) (use assms(3) i in auto)
  moreover have "j \<noteq> i" if "find_named q segs = Some j" "q \<noteq> e" for j using find_named_Some [OF that(1)] that(2) i(2) by auto
  ultimately show ?thesis using assms(2) i by (auto simp: child_def map_option_case split: option.splits)
qed

lemma child_lit: "lit_tree segs \<Longrightarrow> child e segs = Some s \<Longrightarrow> lit_seg s \<and> m_name s = e"
  using find_named_Some [of e segs] by (auto simp: child_def lit_tree_def list_all_length)

text \<open>The handler a path leads to: \<open>None\<close> no such path, \<open>Some None\<close> an inner segment without one.\<close>

definition outcome :: "(string \<Rightarrow> string \<Rightarrow> bool) \<Rightarrow> 'h path_segment list \<Rightarrow> string list \<Rightarrow> 'h option option" where
  "outcome rx segs es = map_option (\<lambda>p. if p = [] then None else m_handler (last p)) (first_route rx segs es)"

lemma outcome_Nil [simp]: "outcome rx segs [] = Some None"
  by (simp add: outcome_def)

lemma lit_matches: "lit_seg s \<Longrightarrow> matches rx s e \<longleftrightarrow> m_name s = e"
  using lit_segD by (auto simp: matches_def)

lemma lit_no_route: "lit_tree segs \<Longrightarrow> e \<notin> set (map m_name segs) \<Longrightarrow> first_route rx segs (e # es) = None"
  by (induction segs) (auto simp: lit_matches)

lemma lit_first_route:
  "lit_tree segs \<Longrightarrow> first_route rx segs (e # es) =
     (case child e segs of None \<Rightarrow> None | Some s \<Rightarrow> map_option ((#) s) (first_route rx (m_children s) es))"
proof (induction segs)
  case (Cons s segs)
  then show ?case using lit_no_route [of segs e rx es]
    by (auto simp: lit_matches child_Cons split: option.splits)
qed (simp add: child_def)

lemma outcome_last:
  "map_option (\<lambda>p. m_handler (if p = [] then s else last p)) (first_route rx segs (f # fs)) = outcome rx segs (f # fs)"
  using first_route_nonempty [of rx segs f fs] by (cases "first_route rx segs (f # fs)") (auto simp: outcome_def)

lemma outcome_Cons:
  assumes "lit_tree segs"
  shows "outcome rx segs (e # es) =
    (case child e segs of None \<Rightarrow> None | Some s \<Rightarrow> if es = [] then Some (m_handler s) else outcome rx (m_children s) es)"
proof (cases es)
  case Nil
  then show ?thesis by (auto simp: outcome_def lit_first_route [OF assms] split: option.splits)
next
  case (Cons f fs)
  then show ?thesis
    by (cases "child e segs")
      (simp_all add: outcome_def [of rx segs] lit_first_route [OF assms] option.map_comp comp_def outcome_last)
qed

definition literal :: "string \<Rightarrow> bool" where
  "literal e \<longleftrightarrow> e \<noteq> [] \<and> list_all segment_char e"

lemma new_literal: "literal e \<Longrightarrow> new_segment rx_ok e = Inr (PathSegment e [] False [] None)"
proof -
  assume e: "literal e"
  have "\<not> segment_char (CHR ''{'')" by code_simp
  with e have "hd e \<noteq> CHR ''{''" by (cases e) (auto simp: literal_def)
  with e show ?thesis by (simp add: new_segment_def literal_def)
qed

lemma set_simps [simp]:
  "m_name (set_children cs s) = m_name s" "m_children (set_children cs s) = cs" "m_handler (set_children cs s) = m_handler s"
  "m_name (set_handler h s) = m_name s" "m_children (set_handler h s) = m_children s" "m_handler (set_handler h s) = Some h"
  "lit_seg (set_handler h s) = lit_seg s" "lit_seg s \<Longrightarrow> lit_seg (set_children cs s) = lit_tree cs"
  by (cases s; simp add: lit_tree_def)+

lemma lit_tree_update:
  "lit_tree segs \<Longrightarrow> i < length segs \<Longrightarrow> lit_seg s \<Longrightarrow> m_name s = m_name (segs ! i) \<Longrightarrow> lit_tree (segs[i := s])"
proof -
  assume t: "lit_tree segs" "i < length segs" "lit_seg s" "m_name s = m_name (segs ! i)"
  then have "map m_name (segs[i := s]) = map m_name segs" by (simp add: map_update list_update_same_conv)
  moreover have "list_all lit_seg (segs[i := s])"
    using t set_update_subset_insert [of segs i s] by (auto simp: lit_tree_def list_all_iff)
  ultimately show ?thesis using t(1) by (simp add: lit_tree_def)
qed

text \<open>What adding a path does to the outcomes of all paths.\<close>

definition added :: "string list \<Rightarrow> 'h \<Rightarrow> string list \<Rightarrow> 'h option option \<Rightarrow> 'h option option" where
  "added es h qs old = (if qs = es then Some (Some h) else if strict_prefix qs es \<and> old = None then Some None else old)"

lemma added_Nil: "es \<noteq> [] \<Longrightarrow> added es h [] (Some None) = Some None"
  by (simp add: added_def)

lemma added_Cons:
  "added (e # es) h (q # qs) old = (if q = e then added es h qs old else old)"
  by (auto simp: added_def)

lemma outcome_empty: "outcome rx [] (q # qs) = None"
  by (simp add: outcome_def)

lemma strict_prefix_Nil: "strict_prefix [] es \<longleftrightarrow> es \<noteq> []"
  by (cases es) auto

text \<open>It is enough to say what happens to the child at the first element.\<close>

lemma added_child:
  assumes t: "lit_tree segs" "lit_tree segs'"
    and child: "\<And>q. child q segs' = (if q = e then Some s' else child q segs)"
    and s': "if es = [] then m_handler s' = Some h \<and> m_children s' = old
      else m_handler s' = hold \<and> (\<forall>qs. outcome rx (m_children s') qs = added es h qs (outcome rx old qs))"
    and old: "case child e segs of None \<Rightarrow> old = [] \<and> hold = None | Some s \<Rightarrow> old = m_children s \<and> hold = m_handler s"
  shows "outcome rx segs' qs = added (e # es) h qs (outcome rx segs qs)"
proof (cases qs)
  case Nil
  then show ?thesis by (simp add: added_def)
next
  case (Cons q qs')
  note simps = outcome_Cons [OF t(1)] outcome_Cons [OF t(2)] child added_Cons outcome_empty
  show ?thesis
  proof (cases "q = e")
    case False
    with Cons show ?thesis by (simp add: simps)
  next
    case True
    with Cons s' old show ?thesis
      by (cases qs'; cases "child e segs"; cases "es = []") (auto simp: simps, auto simp: added_def outcome_empty strict_prefix_Nil)
  qed
qed

lemma add_literal:
  assumes "lit_tree segs" "es \<noteq> []" "list_all literal es"
  shows "\<exists>segs'. add_elements rx_ok es h segs = (Inr (), segs') \<and> lit_tree segs' \<and>
    (\<forall>qs. outcome rx segs' qs = added es h qs (outcome rx segs qs))"
  using assms
proof (induction es arbitrary: segs)
  case (Cons e es)
  have e: "literal e" "list_all literal es" using Cons.prems(3) by auto
  show ?case
  proof (cases "find_named e segs")
    case (Some i)
    note i = find_named_Some [OF Some]
    have d: "distinct (map m_name segs)" using Cons.prems(1) by (simp add: lit_tree_def)
    have ch: "child e segs = Some (segs ! i)" using Some by (simp add: child_def)
    have l: "lit_seg (segs ! i)" using child_lit [OF Cons.prems(1) ch] by simp
    have fin: ?thesis if add: "add_elements rx_ok (e # es) h segs = (Inr (), segs[i := s'])" and s: "lit_seg s'" "m_name s' = e"
        and out: "if es = [] then m_handler s' = Some h \<and> m_children s' = m_children (segs ! i)
          else m_handler s' = m_handler (segs ! i) \<and> (\<forall>qs. outcome rx (m_children s') qs = added es h qs (outcome rx (m_children (segs ! i)) qs))" for s'
    proof -
      have t: "lit_tree (segs[i := s'])" by (rule lit_tree_update [OF Cons.prems(1)]) (use i s in auto)
      have "outcome rx (segs[i := s']) qs = added (e # es) h qs (outcome rx segs qs)" for qs
        by (rule added_child [OF Cons.prems(1) t child_update [OF d Some s(2)] out]) (simp add: ch)
      with add t show ?thesis by blast
    qed
    show ?thesis
    proof (cases "es = []")
      case True
      show ?thesis by (rule fin [of "set_handler h (segs ! i)"]) (use True Some i l in auto)
    next
      case False
      from Cons.IH [OF _ False e(2), of "m_children (segs ! i)"] lit_segD [OF l] obtain cs where
        cs: "add_elements rx_ok es h (m_children (segs ! i)) = (Inr (), cs)" "lit_tree cs"
          "\<forall>qs. outcome rx cs qs = added es h qs (outcome rx (m_children (segs ! i)) qs)" by auto
      show ?thesis by (rule fin [of "set_children cs (segs ! i)"]) (use False Some i l cs in auto)
    qed
  next
    case None
    then have new: "child e segs = None" "e \<notin> set (map m_name segs)" by (auto simp: child_def find_named_None)
    let ?s = "PathSegment e [] False [] None"
    have fin: ?thesis if add: "add_elements rx_ok (e # es) h segs = (Inr (), s' # segs)" and s: "lit_seg s'" "m_name s' = e"
        and out: "if es = [] then m_handler s' = Some h \<and> m_children s' = []
          else m_handler s' = None \<and> (\<forall>qs. outcome rx (m_children s') qs = added es h qs (outcome rx [] qs))" for s'
    proof -
      have t: "lit_tree (s' # segs)" using s new Cons.prems(1) by simp
      have "outcome rx (s' # segs) qs = added (e # es) h qs (outcome rx segs qs)" for qs
        by (rule added_child [OF Cons.prems(1) t _ out]) (use s new in \<open>auto simp: child_Cons\<close>)
      with add t show ?thesis by blast
    qed
    show ?thesis
    proof (cases "es = []")
      case True
      show ?thesis by (rule fin [of "set_handler h ?s"]) (use True None in \<open>auto simp: new_literal [OF e(1)]\<close>)
    next
      case False
      from Cons.IH [OF _ False e(2), of "[]"] obtain cs where
        cs: "add_elements rx_ok es h [] = (Inr (), cs)" "lit_tree cs" "\<forall>qs. outcome rx cs qs = added es h qs (outcome rx [] qs)"
        by (auto simp: lit_tree_def)
      show ?thesis by (rule fin [of "set_children cs ?s"]) (use False None cs in \<open>auto simp: lit_tree_def new_literal [OF e(1)]\<close>)
    qed
  qed
qed simp

lemma lit_handle_total:
  "lit_tree segs \<Longrightarrow> (case seg of None \<Rightarrow> True | Some s \<Rightarrow> lit_seg s) \<Longrightarrow>
   \<exists>ok seg1. handle_loop rx seg segs es stk = Inr (ok, seg1, stk) \<and> (case seg1 of None \<Rightarrow> seg = None | Some s \<Rightarrow> lit_seg s)"
proof (induction rx seg segs es stk rule: handle_loop.induct)
  case (3 rx seg s ss e es stk)
  have s: "lit_seg s" "lit_tree ss" "\<not> is_param s" "lit_tree (m_children s)"
    using 3(5) lit_segD [of s] by (auto simp: is_param_def)
  show ?case
  proof (cases "matches rx s e")
    case True
    from 3(1) [OF True] s obtain ok seg1 where r: "handle_loop rx (Some s) (m_children s) es stk = Inr (ok, seg1, stk)"
      "case seg1 of None \<Rightarrow> Some s = None | Some s \<Rightarrow> lit_seg s" by auto
    then obtain s1 where s1: "seg1 = Some s1" "lit_seg s1" by (auto split: option.splits)
    then have "\<not> is_param (the seg1)" using lit_segD [of s1] by (simp add: is_param_def)
    with True r s s1 3(3) show ?thesis by (cases ok) (fastforce split: option.splits)+
  next
    case False
    with 3(4) s show ?thesis by (fastforce split: option.splits)
  qed
qed (auto split: option.splits)

section \<open>Properties\<close>

text \<open>
  C28: Whatever the tree and the regular expressions, when the search of the router does not pop an
  empty stack it picks the handler at the end of the first route, depth first, that matches all
  elements of the path, and reports not-found exactly when there is no such route.
\<close>

theorem router_search_equivalence:
  assumes "find_handler rx root path \<noteq> Inl Undefined"
  shows "map_sum id fst (find_handler rx root path) =
    (case first_route rx root (split_path path) of
       None \<Rightarrow> Inl NotFound
     | Some p \<Rightarrow> Inr (if p = [] then None else m_handler (last p)))"
proof -
  have err: "handle_loop rx seg segs es stk = Inl x \<Longrightarrow> x = Undefined" for seg segs es stk x
    by (induction rx seg segs es stk rule: handle_loop.induct) (auto split: if_splits sum.splits prod.splits)
  from assms err [of None root "split_path path" "[]"] obtain ok seg stk where r: "handle_loop rx None root (split_path path) [] = Inr (ok, seg, stk)"
    by (cases "handle_loop rx None root (split_path path) []") (auto simp: find_handler_def)
  show ?thesis using handle_first_route [OF r] r
    by (auto simp: find_handler_def split: option.splits)
qed

theorem router_search_equivalence_witness:
  "let root = [PathSegment ''p'' [] False [PathSegment ''[0-9]+'' ''id'' True [] (Some (7::nat))] None]
   in map_sum id fst (find_handler (\<lambda>_ e. list_all (\<lambda>c. c \<in> set ''0123456789'') e) root ''/p/42'') = Inr (Some 7)"
proof -
  let ?rx = "\<lambda>(_::string) e. list_all (\<lambda>c. c \<in> set ''0123456789'') e"
  let ?root = "[PathSegment ''p'' [] False [PathSegment ''[0-9]+'' ''id'' True [] (Some (7::nat))] None]"
  have "find_handler ?rx ?root ''/p/42'' \<noteq> Inl Undefined" by code_simp
  from router_search_equivalence [OF this] show ?thesis
    by (simp add: split_path_def matches_def Let_def)
qed



text \<open>
  Whether a parameter is popped after a failed search is decided by the segment that search visited
  last. With the route \<open>/p/{id=[0-9]+}\<close> a request for \<open>/p/abc\<close> pops an empty stack.
\<close>

lemma pop_of_empty_stack:
  "\<exists>root. router_add (\<lambda>_. True) ''/p/{id=[0-9]+}'' (1::nat) [] = (Inr (), root) \<and>
     find_handler (\<lambda>_ e. list_all (\<lambda>c. c \<in> set ''0123456789'') e) root ''/p/abc'' = Inl Undefined"
proof -
  have "router_add (\<lambda>_. True) ''/p/{id=[0-9]+}'' (1::nat) [] =
    (Inr (), [PathSegment ''p'' [] False [PathSegment ''[0-9]+'' ''id'' True [] (Some 1)] None])"
    by code_simp
  moreover have "find_handler (\<lambda>_ e. list_all (\<lambda>c. c \<in> set ''0123456789'') e)
    [PathSegment ''p'' [] False [PathSegment ''[0-9]+'' ''id'' True [] (Some (1::nat))] None] ''/p/abc'' = Inl Undefined"
    by code_simp
  ultimately show ?thesis by blast
qed

end
