(* ===== verification/Reactor.thy ===== *)
theory Reactor
  imports Prelude
begin

unbundle bit_operations_syntax

text \<open>
  The reactor of libnet, \<^verbatim>\<open>libnet/include/reactor.h\<close> and \<^verbatim>\<open>libnet/src/reactor.cpp\<close>: event handlers by socket,
  the vector given to \<^verbatim>\<open>poll\<close>, and the calls of the handlers afterwards. The mutex is not recursive: a thread
  that locks it again while it holds it never gets on, which is the result \<^term>\<open>None\<close>. The clock and the
  outcome of \<^verbatim>\<open>poll\<close> are arguments; the writes to the socket pair that wake the reactor are counted.
\<close>

section \<open>Events and handlers\<close>

datatype event = Ev_read | Ev_write | Ev_error | Ev_hup | Ev_invalid | Ev_timeout

fun event_bits :: "event \<Rightarrow> 16 word" where
  "event_bits Ev_read = 0x0001"
| "event_bits Ev_write = 0x0004"
| "event_bits Ev_error = 0x0008"
| "event_bits Ev_hup = 0x0010"
| "event_bits Ev_invalid = 0x0020"
| "event_bits Ev_timeout = 0x1000"

record 'h ev_info =
  ei_event :: event
  ei_handler :: 'h
  ei_to :: int
  ei_exp :: "int option"

text \<open>The expiration \<open>None\<close> is the largest time point.\<close>

definition new_ev_info :: "int \<Rightarrow> event \<Rightarrow> int \<Rightarrow> 'h \<Rightarrow> 'h ev_info" where
  "new_ev_info now e timeout h =
     (if timeout \<le> 0 then \<lparr>ei_event = e, ei_handler = h, ei_to = 0, ei_exp = None\<rparr>
      else \<lparr>ei_event = e, ei_handler = h, ei_to = timeout, ei_exp = Some (now + timeout)\<rparr>)"

text \<open>The map from sockets to handlers, in the order of the sockets.\<close>

record 'h reactor =
  re_stopped :: bool
  re_locked :: bool
  re_handlers :: "(int \<times> 'h ev_info list) list"
  re_wakeups :: nat

definition INVALID_SOCKET :: int where "INVALID_SOCKET = -1"

fun map_put :: "int \<Rightarrow> 'v \<Rightarrow> (int \<times> 'v) list \<Rightarrow> (int \<times> 'v) list" where
  "map_put s v [] = [(s, v)]"
| "map_put s v (x # xs) = (if s < fst x then (s, v) # x # xs else if s = fst x then (s, v) # xs else x # map_put s v xs)"

definition map_erase :: "int \<Rightarrow> (int \<times> 'v) list \<Rightarrow> (int \<times> 'v) list" where
  "map_erase s m = filter (\<lambda>x. fst x \<noteq> s) m"

definition re_lock :: "'h reactor \<Rightarrow> 'h reactor option" where
  "re_lock r = (if re_locked r then None else Some (r\<lparr>re_locked := True\<rparr>))"

definition re_unlock :: "'h reactor \<Rightarrow> 'h reactor" where
  "re_unlock r = r\<lparr>re_locked := False\<rparr>"

definition wake_up :: "'h reactor \<Rightarrow> 'h reactor" where
  "wake_up r = r\<lparr>re_wakeups := re_wakeups r + 1\<rparr>"

text \<open>A handler for an event that has one is replaced; its timeout stays.\<close>

fun replace_handler :: "event \<Rightarrow> 'h \<Rightarrow> 'h ev_info list \<Rightarrow> 'h ev_info list option" where
  "replace_handler e h [] = None"
| "replace_handler e h (ei # eis) =
     (if ei_event ei = e then Some (ei\<lparr>ei_handler := h\<rparr> # eis) else map_option (Cons ei) (replace_handler e h eis))"

definition add_info :: "int \<Rightarrow> event \<Rightarrow> int \<Rightarrow> 'h \<Rightarrow> 'h ev_info list \<Rightarrow> 'h ev_info list" where
  "add_info now e timeout h eis = (case replace_handler e h eis of Some eis' \<Rightarrow> eis' | None \<Rightarrow> eis @ [new_ev_info now e timeout h])"

definition add_handler :: "int \<Rightarrow> int \<Rightarrow> event \<Rightarrow> 'h option \<Rightarrow> int \<Rightarrow> 'h reactor \<Rightarrow> (unit + 'h reactor) option" where
  "add_handler now s e h timeout r =
     (if s = INVALID_SOCKET then Some (Inl ())
      else if e \<noteq> Ev_read \<and> e \<noteq> Ev_write then Some (Inl ())
      else case h of
        None \<Rightarrow> Some (Inl ())
      | Some h \<Rightarrow>
          if re_stopped r then Some (Inr r)
          else do {
            r \<leftarrow> re_lock r;
            let eis = (case map_of (re_handlers r) s of Some eis \<Rightarrow> add_info now e timeout h eis | None \<Rightarrow> [new_ev_info now e timeout h]);
            Some (Inr (re_unlock (wake_up (r\<lparr>re_handlers := map_put s eis (re_handlers r)\<rparr>))))
          })"

definition remove_handlers :: "int \<Rightarrow> 'h reactor \<Rightarrow> 'h reactor option" where
  "remove_handlers s r = do {
     r \<leftarrow> re_lock r;
     Some (re_unlock (wake_up (r\<lparr>re_handlers := map_erase s (re_handlers r)\<rparr>)))
   }"

fun remove_event :: "event \<Rightarrow> 'h ev_info list \<Rightarrow> 'h ev_info list" where
  "remove_event e [] = []"
| "remove_event e (ei # eis) = (if ei_event ei = e then eis else ei # remove_event e eis)"

definition put_infos :: "int \<Rightarrow> 'h ev_info list \<Rightarrow> 'h reactor \<Rightarrow> 'h reactor" where
  "put_infos s eis r = r\<lparr>re_handlers := (if eis = [] then map_erase s (re_handlers r) else map_put s eis (re_handlers r))\<rparr>"

definition remove_handler :: "int \<Rightarrow> event \<Rightarrow> 'h reactor \<Rightarrow> 'h reactor option" where
  "remove_handler s e r = do {
     r \<leftarrow> re_lock r;
     let r = (case map_of (re_handlers r) s of None \<Rightarrow> r | Some eis \<Rightarrow> put_infos s (remove_event e eis) r);
     Some (re_unlock (wake_up r))
   }"

section \<open>Polling\<close>

definition poll_events :: "'h ev_info list \<Rightarrow> 16 word" where
  "poll_events eis = foldl (\<lambda>ev ei. if ei_event ei = Ev_read \<or> ei_event ei = Ev_write then ev OR event_bits (ei_event ei) else ev) 0 eis"

definition set_poll_vector :: "'h reactor \<Rightarrow> (int \<times> 16 word) list option" where
  "set_poll_vector r = do {
     r \<leftarrow> re_lock r;
     Some (filter (\<lambda>p. snd p \<noteq> 0) (map (\<lambda>(s, eis). (s, poll_events eis)) (re_handlers r)))
   }"

text \<open>The event with which a handler is called, if it is.\<close>

definition fired :: "int \<Rightarrow> 16 word \<Rightarrow> 'h ev_info \<Rightarrow> event option" where
  "fired now revents ei =
     (if revents \<noteq> 0 then
        if revents AND event_bits Ev_error \<noteq> 0 then Some Ev_error
        else if revents AND event_bits Ev_hup \<noteq> 0 then Some Ev_hup
        else if revents AND event_bits Ev_invalid \<noteq> 0 then Some Ev_invalid
        else if revents AND event_bits (ei_event ei) \<noteq> 0 then Some (ei_event ei)
        else None
      else case ei_exp ei of None \<Rightarrow> None | Some x \<Rightarrow> if now > x then Some Ev_timeout else None)"

text \<open>
  What a handler does: its result, its state afterwards, and the calls it makes on the reactor, in the
  thread that runs it and thus with the mutex held.
\<close>

datatype 'h reactor_call = AddHandler int event "'h option" int | RemoveHandlers int | RemoveHandler int event

fun call_reactor :: "int \<Rightarrow> 'h reactor_call \<Rightarrow> 'h reactor \<Rightarrow> (unit + 'h reactor) option" where
  "call_reactor now (AddHandler s e h timeout) r = add_handler now s e h timeout r"
| "call_reactor now (RemoveHandlers s) r = map_option Inr (remove_handlers s r)"
| "call_reactor now (RemoveHandler s e) r = map_option Inr (remove_handler s e r)"

fun run_requests :: "int \<Rightarrow> 'h reactor_call list \<Rightarrow> 'h reactor \<Rightarrow> (unit + 'h reactor) option" where
  "run_requests now [] r = Some (Inr r)"
| "run_requests now (q # qs) r = do {
     x \<leftarrow> call_reactor now q r;
     case x of Inl u \<Rightarrow> Some (Inl u) | Inr r \<Rightarrow> run_requests now qs r
   }"

type_synonym 'h calls = "'h \<Rightarrow> int \<Rightarrow> event \<Rightarrow> bool \<times> 'h \<times> 'h reactor_call list"

definition process_info ::
  "'h calls \<Rightarrow> int \<Rightarrow> int \<Rightarrow> 16 word \<Rightarrow> 'h ev_info \<Rightarrow> 'h reactor \<Rightarrow> (unit + 'h ev_info option \<times> 'h reactor) option" where
  "process_info call now s revents ei r =
     (case fired now revents ei of
        None \<Rightarrow> Some (Inr (Some ei, r))
      | Some e \<Rightarrow>
          case call (ei_handler ei) s e of
            (ok, h, qs) \<Rightarrow> do {
              x \<leftarrow> run_requests now qs r;
              case x of
                Inl u \<Rightarrow> Some (Inl u)
              | Inr r \<Rightarrow>
                  let ei = ei\<lparr>ei_handler := h\<rparr>;
                      ei = (if ok \<and> e = ei_event ei \<and> ei_to ei \<noteq> 0 then ei\<lparr>ei_exp := Some (now + ei_to ei)\<rparr> else ei)
                  in Some (Inr (if ok then Some ei else None, r))
            })"

fun process_infos ::
  "'h calls \<Rightarrow> int \<Rightarrow> int \<Rightarrow> 16 word \<Rightarrow> 'h ev_info list \<Rightarrow> 'h reactor \<Rightarrow> (unit + 'h ev_info list \<times> 'h reactor) option" where
  "process_infos call now s revents [] r = Some (Inr ([], r))"
| "process_infos call now s revents (ei # eis) r = do {
     x \<leftarrow> process_info call now s revents ei r;
     case x of
       Inl u \<Rightarrow> Some (Inl u)
     | Inr (kept, r) \<Rightarrow> do {
         y \<leftarrow> process_infos call now s revents eis r;
         case y of Inl u \<Rightarrow> Some (Inl u) | Inr (eis, r) \<Rightarrow> Some (Inr (case kept of None \<Rightarrow> eis | Some ei \<Rightarrow> ei # eis, r))
       }
   }"

fun process_poll_vector :: "'h calls \<Rightarrow> int \<Rightarrow> (int \<times> 16 word) list \<Rightarrow> 'h reactor \<Rightarrow> (unit + 'h reactor) option" where
  "process_poll_vector call now [] r = Some (Inr r)"
| "process_poll_vector call now ((s, revents) # fds) r = do {
     r \<leftarrow> re_lock r;
     case map_of (re_handlers r) s of
       None \<Rightarrow> process_poll_vector call now fds (re_unlock r)
     | Some eis \<Rightarrow> do {
         x \<leftarrow> process_infos call now s revents eis r;
         case x of
           Inl u \<Rightarrow> Some (Inl u)
         | Inr (eis, r) \<Rightarrow> process_poll_vector call now fds (re_unlock (put_infos s eis r))
       }
   }"

text \<open>
  One turn of the reactor's loop. \<open>poll\<close> gives the number of ready sockets, or a failure, and the events
  of each; handlers whose time has run out are only looked at when some socket is ready.
\<close>

definition reactor_turn ::
  "((int \<times> 16 word) list \<Rightarrow> int \<times> (int \<times> 16 word) list) \<Rightarrow> 'h calls \<Rightarrow> int \<Rightarrow> 'h reactor \<Rightarrow> (unit + 'h reactor) option" where
  "reactor_turn poll call now r = do {
     v \<leftarrow> set_poll_vector r;
     let (nready, v) = poll v;
     if nready = -1 then Some (Inl ()) else if nready > 0 then process_poll_vector call now v r else Some (Inr r)
   }"

text \<open>Stopping sets the flag and wakes the reactor; the wait for its thread is not part of the state.\<close>

definition reactor_stop :: "'h reactor \<Rightarrow> 'h reactor" where
  "reactor_stop r = (if re_stopped r then r else wake_up (r\<lparr>re_stopped := True\<rparr>))"

section \<open>The handlers as a map\<close>

definition infos_ok :: "'h ev_info list \<Rightarrow> bool" where
  "infos_ok eis \<longleftrightarrow> map ei_event eis \<noteq> [] \<and> distinct (map ei_event eis) \<and> set (map ei_event eis) \<subseteq> {Ev_read, Ev_write}"

definition reactor_ok :: "'h reactor \<Rightarrow> bool" where
  "reactor_ok r \<longleftrightarrow> \<not> re_locked r \<and> \<not> re_stopped r \<and> sorted_wrt (<) (map fst (re_handlers r)) \<and> (\<forall>x\<in>set (re_handlers r). infos_ok (snd x))"

definition handler_in :: "'h ev_info list \<Rightarrow> event \<Rightarrow> 'h option" where
  "handler_in eis e = map_of (map (\<lambda>ei. (ei_event ei, ei_handler ei)) eis) e"

definition registered :: "'h reactor \<Rightarrow> int \<Rightarrow> event \<Rightarrow> 'h option" where
  "registered r s e = (case map_of (re_handlers r) s of None \<Rightarrow> None | Some eis \<Rightarrow> handler_in eis e)"

definition new_reactor :: "'h reactor" where
  "new_reactor = \<lparr>re_stopped = False, re_locked = False, re_handlers = [], re_wakeups = 0\<rparr>"

lemma map_of_put: "sorted_wrt (<) (map fst m) \<Longrightarrow> map_of (map_put s v m) = (map_of m)(s \<mapsto> v)"
proof (induction m)
  case (Cons x m)
  show ?case
  proof (cases "s < fst x")
    case True
    then show ?thesis by (cases x) auto
  next
    case False
    then show ?thesis using Cons by (cases x) (auto simp: fun_eq_iff)
  qed
qed (simp add: fun_eq_iff)

lemma set_map_put: "set (map_put s v m) \<subseteq> insert (s, v) (set m)"
  by (induction m) auto

lemma sorted_put: "sorted_wrt (<) (map fst m) \<Longrightarrow> sorted_wrt (<) (map fst (map_put s v m))"
proof (induction m)
  case (Cons x m)
  have "fst y = s \<or> fst y \<in> fst ` set m" if "y \<in> set (map_put s v m)" for y using that set_map_put [of s v m] by auto
  then show ?case using Cons by (cases x) (fastforce simp: not_less)
qed simp

lemma map_of_erase: "map_of (map_erase s m) = (map_of m)(s := None)"
  by (induction m) (auto simp: map_erase_def fun_eq_iff)

lemma sorted_erase: "sorted_wrt (<) (map fst m) \<Longrightarrow> sorted_wrt (<) (map fst (map_erase s m))"
  by (induction m) (auto simp: map_erase_def)

lemma handler_in_simps [simp]: "handler_in [] e = None" "handler_in (ei # eis) e = (if ei_event ei = e then Some (ei_handler ei) else handler_in eis e)"
  by (simp_all add: handler_in_def)

lemma replace_handler_None: "replace_handler e h eis = None \<longleftrightarrow> e \<notin> ei_event ` set eis"
  by (induction eis) auto

lemma replace_handler_Some:
  "replace_handler e h eis = Some eis' \<Longrightarrow> map ei_event eis' = map ei_event eis \<and> handler_in eis' = (handler_in eis)(e \<mapsto> h)"
  by (induction eis arbitrary: eis') (auto split: if_splits simp: fun_eq_iff)

lemma handler_in_snoc: "ei_event ei \<notin> ei_event ` set eis \<Longrightarrow> handler_in (eis @ [ei]) = (handler_in eis)(ei_event ei \<mapsto> ei_handler ei)"
  by (induction eis) (auto simp: fun_eq_iff)

lemma new_ev_info_simps [simp]: "ei_event (new_ev_info now e t h) = e" "ei_handler (new_ev_info now e t h) = h"
  by (simp_all add: new_ev_info_def)

lemma add_info_ok:
  assumes "infos_ok eis" "e = Ev_read \<or> e = Ev_write"
  shows "infos_ok (add_info now e t h eis)" "handler_in (add_info now e t h eis) = (handler_in eis)(e \<mapsto> h)"
proof -
  have "infos_ok (add_info now e t h eis) \<and> handler_in (add_info now e t h eis) = (handler_in eis)(e \<mapsto> h)"
  proof (cases "replace_handler e h eis")
    case None
    then show ?thesis using assms replace_handler_None [of e h eis] handler_in_snoc [of "new_ev_info now e t h" eis]
      by (auto simp: add_info_def infos_ok_def)
  next
    case (Some eis')
    from replace_handler_Some [OF this] have m: "map ei_event eis' = map ei_event eis" "handler_in eis' = (handler_in eis)(e \<mapsto> h)" by auto
    have "infos_ok eis'" using assms(1) unfolding infos_ok_def m(1) .
    then show ?thesis using Some m(2) by (simp add: add_info_def)
  qed
  then show "infos_ok (add_info now e t h eis)" "handler_in (add_info now e t h eis) = (handler_in eis)(e \<mapsto> h)" by auto
qed

lemma remove_event_ok:
  assumes "distinct (map ei_event eis)"
  shows "set (remove_event e eis) \<subseteq> set eis" "distinct (map ei_event (remove_event e eis))" "handler_in (remove_event e eis) = (handler_in eis)(e := None)"
proof -
  have "set (remove_event e eis) \<subseteq> set eis \<and> distinct (map ei_event (remove_event e eis)) \<and> handler_in (remove_event e eis) = (handler_in eis)(e := None)"
    using assms
  proof (induction eis)
    case (Cons ei eis)
    have "handler_in eis (ei_event ei) = None" using Cons.prems by (simp add: handler_in_def map_of_eq_None_iff image_comp)
    then show ?case using Cons by (auto simp: fun_eq_iff image_iff subset_iff)
  qed (simp add: fun_eq_iff)
  then show "set (remove_event e eis) \<subseteq> set eis" "distinct (map ei_event (remove_event e eis))" "handler_in (remove_event e eis) = (handler_in eis)(e := None)" by auto
qed

lemma handlers_put:
  assumes "reactor_ok r" "infos_ok eis"
  shows "reactor_ok (r\<lparr>re_handlers := map_put s eis (re_handlers r), re_wakeups := w\<rparr>)"
    "registered (r\<lparr>re_handlers := map_put s eis (re_handlers r), re_wakeups := w\<rparr>) = (registered r)(s := handler_in eis)"
  using assms set_map_put [of s eis "re_handlers r"]
  by (auto simp: reactor_ok_def sorted_put registered_def map_of_put fun_eq_iff)

lemma handlers_erase:
  assumes "reactor_ok r"
  shows "reactor_ok (r\<lparr>re_handlers := map_erase s (re_handlers r), re_wakeups := w\<rparr>)"
    "registered (r\<lparr>re_handlers := map_erase s (re_handlers r), re_wakeups := w\<rparr>) = (registered r)(s := Map.empty)"
  using assms by (auto simp: reactor_ok_def sorted_erase registered_def map_of_erase fun_eq_iff) (auto simp: map_erase_def)

text \<open>The calls on the reactor as changes of the map from sockets and events to handlers.\<close>

fun call_valid :: "'h reactor_call \<Rightarrow> bool" where
  "call_valid (AddHandler s e h t) \<longleftrightarrow> s \<noteq> INVALID_SOCKET \<and> (e = Ev_read \<or> e = Ev_write) \<and> h \<noteq> None"
| "call_valid _ \<longleftrightarrow> True"

fun spec_call :: "'h reactor_call \<Rightarrow> (int \<Rightarrow> event \<Rightarrow> 'h option) \<Rightarrow> int \<Rightarrow> event \<Rightarrow> 'h option" where
  "spec_call (AddHandler s e h t) M = M(s := (M s)(e := h))"
| "spec_call (RemoveHandlers s) M = M(s := Map.empty)"
| "spec_call (RemoveHandler s e) M = M(s := (M s)(e := None))"

lemma unlock_upd: "\<not> re_locked r \<Longrightarrow> re_unlock (wake_up (r\<lparr>re_locked := True, re_handlers := m\<rparr>)) = r\<lparr>re_handlers := m, re_wakeups := re_wakeups r + 1\<rparr>"
  by (simp add: re_unlock_def wake_up_def)

lemma call_reactor_ok:
  assumes "reactor_ok r" "call_valid q"
  shows "\<exists>r'. call_reactor now q r = Some (Inr r') \<and> reactor_ok r' \<and> registered r' = spec_call q (registered r)"
proof -
  have l: "\<not> re_locked r" "\<not> re_stopped r" "re_lock r = Some (r\<lparr>re_locked := True\<rparr>)" using assms(1) by (auto simp: reactor_ok_def re_lock_def)
  have i: "infos_ok eis" if "map_of (re_handlers r) s = Some eis" for s eis
    using assms(1) map_of_SomeD [OF that] by (auto simp: reactor_ok_def)
  show ?thesis
  proof (cases q)
    case (AddHandler s e h t)
    with assms(2) obtain h' where h: "h = Some h'" "s \<noteq> INVALID_SOCKET" "e = Ev_read \<or> e = Ev_write" by auto
    define eis where "eis = (case map_of (re_handlers r) s of Some eis \<Rightarrow> add_info now e t h' eis | None \<Rightarrow> [new_ev_info now e t h'])"
    have e: "infos_ok eis" "handler_in eis = (registered r s)(e \<mapsto> h')"
    proof -
      have "infos_ok eis \<and> handler_in eis = (registered r s)(e \<mapsto> h')"
      proof (cases "map_of (re_handlers r) s")
        case None
        then show ?thesis using h(3) by (auto simp: eis_def registered_def infos_ok_def fun_eq_iff)
      next
        case (Some x)
        then show ?thesis using add_info_ok [OF i [OF Some] h(3), of now t h'] by (simp add: eis_def registered_def fun_eq_iff)
      qed
      then show "infos_ok eis" "handler_in eis = (registered r s)(e \<mapsto> h')" by auto
    qed
    have "call_reactor now q r = Some (Inr (r\<lparr>re_handlers := map_put s eis (re_handlers r), re_wakeups := re_wakeups r + 1\<rparr>))"
      using h l AddHandler unlock_upd [OF l(1)] by (auto simp: add_handler_def eis_def)
    then show ?thesis using handlers_put [OF assms(1) e(1)] e(2) AddHandler h(1) by (auto simp: fun_eq_iff)
  next
    case (RemoveHandlers s)
    have "call_reactor now q r = Some (Inr (r\<lparr>re_handlers := map_erase s (re_handlers r), re_wakeups := re_wakeups r + 1\<rparr>))"
      using l RemoveHandlers unlock_upd [OF l(1)] by (simp add: remove_handlers_def)
    then show ?thesis using handlers_erase [OF assms(1)] RemoveHandlers by (auto simp: fun_eq_iff)
  next
    case (RemoveHandler s e)
    show ?thesis
    proof (cases "map_of (re_handlers r) s")
      case None
      have "call_reactor now q r = Some (Inr (r\<lparr>re_wakeups := re_wakeups r + 1\<rparr>))"
        using l RemoveHandler None by (simp add: remove_handler_def re_unlock_def wake_up_def)
      then show ?thesis using assms(1) None RemoveHandler by (auto simp: reactor_ok_def registered_def fun_eq_iff)
    next
      case (Some eis)
      let ?eis = "remove_event e eis"
      have d: "infos_ok eis" "distinct (map ei_event eis)" using i [OF Some] by (auto simp: infos_ok_def)
      note re = remove_event_ok [OF d(2), of e]
      have run: "call_reactor now q r = Some (Inr (r\<lparr>re_handlers := (if ?eis = [] then map_erase s (re_handlers r) else map_put s ?eis (re_handlers r)),
          re_wakeups := re_wakeups r + 1\<rparr>))"
        using l RemoveHandler Some unlock_upd [OF l(1)] by (simp add: remove_handler_def put_infos_def)
      have reg: "registered r s = handler_in eis" using Some by (simp add: registered_def fun_eq_iff)
      show ?thesis
      proof (cases "?eis = []")
        case True
        have "(registered r s)(e := None) = handler_in ?eis" using re(3) reg by simp
        also have "\<dots> = Map.empty" using True by (simp add: fun_eq_iff)
        finally show ?thesis using handlers_erase [OF assms(1)] run True RemoveHandler by (auto simp: fun_eq_iff)
      next
        case False
        then have "infos_ok ?eis" using re d(1) by (auto simp: infos_ok_def)
        then show ?thesis using handlers_put [OF assms(1)] run False RemoveHandler re(3) reg by (auto simp: fun_eq_iff)
      qed
    qed
  qed
qed

lemma run_requests_ok:
  "reactor_ok r \<Longrightarrow> list_all call_valid qs \<Longrightarrow>
   \<exists>r'. run_requests now qs r = Some (Inr r') \<and> reactor_ok r' \<and> registered r' = fold spec_call qs (registered r)"
proof (induction qs arbitrary: r)
  case (Cons q qs)
  from call_reactor_ok [of r q now] Cons.prems obtain r1 where "call_reactor now q r = Some (Inr r1)" "reactor_ok r1" "registered r1 = spec_call q (registered r)"
    by auto
  with Cons.IH [of r1] Cons.prems(2) show ?case by simp
qed simp

definition events_of :: "(event \<Rightarrow> 'h option) \<Rightarrow> 16 word" where
  "events_of M = (if M Ev_read \<noteq> None then event_bits Ev_read else 0) OR (if M Ev_write \<noteq> None then event_bits Ev_write else 0)"

lemma poll_events_infos: "infos_ok eis \<Longrightarrow> poll_events eis = events_of (handler_in eis) \<and> poll_events eis \<noteq> 0"
proof -
  assume ok: "infos_ok eis"
  then obtain a l where eis: "eis = a # l" "ei_event a = Ev_read \<or> ei_event a = Ev_write" by (cases eis) (auto simp: infos_ok_def)
  show ?thesis
  proof (cases l)
    case Nil
    then show ?thesis using eis by (auto simp: poll_events_def events_of_def)
  next
    case (Cons b l')
    with ok eis have "l' = []" by (cases l') (auto simp: infos_ok_def)
    then show ?thesis using eis ok Cons by (auto simp: poll_events_def events_of_def infos_ok_def or.commute)
  qed
qed

text \<open>
  C35: whatever valid handlers are added, replaced and removed in whatever order on a new reactor, every call returns,
  the handler of a socket and an event is the one added last and not removed since, and the vector that is
  polled names every socket with a handler once, with exactly the events that have one.
\<close>

theorem reactor_refines_map:
  assumes "list_all call_valid qs"
  shows "\<exists>r v. run_requests now qs new_reactor = Some (Inr r) \<and> registered r = fold spec_call qs (\<lambda>_ _. None) \<and>
    set_poll_vector r = Some v \<and> distinct (map fst v) \<and>
    (\<forall>s ev. (s, ev) \<in> set v \<longleftrightarrow> ev = events_of (registered r s) \<and> (\<exists>e. registered r s e \<noteq> None))"
proof -
  have n: "reactor_ok new_reactor" "registered new_reactor = (\<lambda>_ _. None)" by (simp_all add: reactor_ok_def new_reactor_def registered_def fun_eq_iff)
  from run_requests_ok [OF n(1) assms, of now, unfolded n(2)] obtain r where
    r: "run_requests now qs new_reactor = Some (Inr r)" "reactor_ok r" "registered r = fold spec_call qs (\<lambda>_ _. None)" by blast
  let ?v = "map (\<lambda>(s, eis). (s, poll_events eis)) (re_handlers r)"
  have ok: "infos_ok eis" if "(s, eis) \<in> set (re_handlers r)" for s eis using r(2) that by (auto simp: reactor_ok_def)
  have d: "distinct (map fst (re_handlers r))" using r(2) strict_sorted_iff by (auto simp: reactor_ok_def)
  have "filter (\<lambda>p. snd p \<noteq> 0) ?v = ?v" using ok poll_events_infos by (intro filter_True) fastforce
  then have v: "set_poll_vector r = Some ?v" using r(2) by (simp add: set_poll_vector_def re_lock_def reactor_ok_def)
  have reg: "registered r s = (case map_of (re_handlers r) s of None \<Rightarrow> Map.empty | Some eis \<Rightarrow> handler_in eis)" for s
    by (auto simp: registered_def fun_eq_iff split: option.splits)
  have in_v: "(s, ev) \<in> set ?v \<longleftrightarrow> (\<exists>eis. map_of (re_handlers r) s = Some eis \<and> ev = poll_events eis)" for s ev
    by (force simp: map_of_eq_Some_iff [OF d] image_iff split_beta)
  have some: "\<exists>e. handler_in eis e \<noteq> None" if "infos_ok eis" for eis :: "'a ev_info list"
    using that by (cases eis) (auto simp: infos_ok_def)
  have "(s, ev) \<in> set ?v \<longleftrightarrow> ev = events_of (registered r s) \<and> (\<exists>e. registered r s e \<noteq> None)" for s ev
  proof (cases "map_of (re_handlers r) s")
    case None
    then show ?thesis unfolding in_v reg by simp
  next
    case (Some eis)
    then have "infos_ok eis" using ok map_of_SomeD by fastforce
    then show ?thesis using Some some [of eis] poll_events_infos [of eis] unfolding in_v reg by auto
  qed
  moreover have "map fst ?v = map fst (re_handlers r)" by (simp add: split_beta comp_def)
  then have "distinct (map fst ?v)" using d by metis
  ultimately show ?thesis using r(1,3) v by blast
qed

theorem reactor_refines_map_witness:
  "\<exists>r v. run_requests 0 [AddHandler 5 Ev_read (Some ''a'') 0, AddHandler 5 Ev_write (Some ''b'') 0, AddHandler 3 Ev_read (Some ''c'') 0, RemoveHandler 5 Ev_read]
      new_reactor = Some (Inr r) \<and> registered r 5 Ev_write = Some ''b'' \<and> registered r 5 Ev_read = None \<and> set_poll_vector r = Some v \<and> (5, 4) \<in> set v"
proof -
  let ?qs = "[AddHandler 5 Ev_read (Some ''a'') 0, AddHandler 5 Ev_write (Some ''b'') 0, AddHandler 3 Ev_read (Some ''c'') 0, RemoveHandler 5 Ev_read]"
  have "list_all call_valid ?qs" by (simp add: INVALID_SOCKET_def)
  from reactor_refines_map [OF this, of 0] obtain r v where r: "run_requests 0 ?qs new_reactor = Some (Inr r)"
    "registered r = fold spec_call ?qs (\<lambda>_ _. None)" "set_poll_vector r = Some v"
    "\<forall>s ev. (s, ev) \<in> set v \<longleftrightarrow> ev = events_of (registered r s) \<and> (\<exists>e. registered r s e \<noteq> None)" by blast
  then have g: "registered r 5 Ev_write = Some ''b''" "registered r 5 Ev_read = None" by simp_all
  then have "events_of (registered r 5) = 4" by (simp add: events_of_def)
  then have "(5, 4) \<in> set v" using r(4) g(1) by auto
  then show ?thesis using r(1,3) g by blast
qed

section \<open>Calls during a callback\<close>

text \<open>A handler that adds a handler, in the thread of the reactor, waits for the mutex its own thread holds.\<close>

lemma callback_blocks:
  assumes "\<not> re_stopped r" "map_of (re_handlers r) s = Some (ei # eis)" "fired now revents ei = Some e"
    and "call (ei_handler ei) s e = (ok, h, AddHandler s' e' (Some h') t # qs)" "call_valid (AddHandler s' e' (Some h') t)"
  shows "process_poll_vector call now ((s, revents) # fds) r = None"
  using assms by (auto simp: re_lock_def process_info_def add_handler_def)

end
