(* ===== verification/Http_Server.thy ===== *)
theory Http_Server
  imports Http_Router Json_Value Reactor
begin

text \<open>
  The server of the http library: the error response of \<^verbatim>\<open>http/src/common/transmit.cpp\<close> and the handlers of
  \<^verbatim>\<open>http/src/server/handler.cpp\<close> that the reactor calls and the pool runs. TLS connections are not modelled.
\<close>

section \<open>Serving a request\<close>

definition is_error_status :: "int \<Rightarrow> bool" where
  "is_error_status s \<longleftrightarrow> s \<ge> 400"

text \<open>
  \<open>now\<close> is the current time, \<open>sr\<close> prints reals. A value unescapes the text it is made of; a null reason phrase
  makes a null value. A text with an invalid escape, and one that is not UTF-8, end in an exception.
\<close>

definition error_body :: "('r \<Rightarrow> string) \<Rightarrow> string option \<Rightarrow> string \<Rightarrow> string http" where
  "error_body sr reason msg =
     (case rbind (case reason of None \<Rightarrow> Inr T_NULL | Some r \<Rightarrow> value_of_string r) (\<lambda>title.
           rbind (value_of_string msg) (\<lambda>detail.
             value_str sr True 0 (T_OBJECT [(''errors'', T_ARRAY [T_OBJECT (map_insert ''detail'' detail [(''title'', title)])])]))) of
        Inl _ \<Rightarrow> Inl InvalidArgument_h
      | Inr s \<Rightarrow> Inr s)"

definition gen_error_resp :: "('r \<Rightarrow> string) \<Rightarrow> 'd \<Rightarrow> int \<Rightarrow> string \<Rightarrow> ('d, 's) response http" where
  "gen_error_resp sr now code msg =
     rbind (set_connection_str ''close'' (set_date now [])) (\<lambda>hs.
     rbind (set_content_type_names ''application'' ''json'' hs) (\<lambda>hs.
     rbind (error_body sr (reason_phrase code) msg) (\<lambda>s.
       response_build True \<lparr>rs_status = code, rs_reason = [], rs_version = version_1_1, rs_headers = hs, rs_body = Some (body_from_string s)\<rparr>)))"

text \<open>The status the catch clauses give; the exceptions derived from \<^verbatim>\<open>std::logic_error\<close> are not caught.\<close>

fun error_status :: "http_error \<Rightarrow> int option" where
  "error_status BadMessage = Some 400"
| "error_status BadUri = Some 400"
| "error_status NotFound = Some 404"
| "error_status NotImplemented = Some 501"
| "error_status (StatusError s) = Some s"
| "error_status SystemError = Some 500"
| "error_status RuntimeError = Some 500"
| "error_status OutOfRange_h = None"
| "error_status InvalidArgument_h = None"
| "error_status Undefined = None"

text \<open>The body of the try block: the status, the result of sending, whether to close, and the connection.\<close>

definition serve where
  "serve ip4 ip6 pd sd rd wr rx call root io =
     obind (recv_request ip4 ip6 pd rd io) (\<lambda>(req, io).
     obind (Some (router_handle rx call root req)) (\<lambda>resp.
     obind (send_response sd rd wr io resp) (\<lambda>(retval, io).
       Some (rbind (close_connection (rq_headers req)) (\<lambda>c.
             rbind (if c then Inr True else close_connection (rs_headers resp)) (\<lambda>c.
               Inr (rs_status resp, retval, c, io)))))))"

text \<open>How a task ends: an exception leaves it and the connection is destroyed, or a new read handler is added.\<close>

datatype 's task_end = Escaped http_error | Served int int bool "'s nio"

definition finish where
  "finish sd rd wr sr now status retval c msg io =
     (if is_error_status status then
        case gen_error_resp sr now status msg of
          Inl e \<Rightarrow> Some (Escaped e)
        | Inr resp \<Rightarrow>
            (case send_response sd rd wr io resp of
               None \<Rightarrow> None
             | Some (Inl e) \<Rightarrow> Some (Escaped e)
             | Some (Inr (retval, io)) \<Rightarrow> Some (Served status retval True io))
      else Some (Served status retval (retval \<noteq> E_ok \<or> c) io))"

text \<open>\<open>what\<close> is the text of an exception, \<open>broken\<close> the connection as the step that threw left it.\<close>

definition process_request where
  "process_request ip4 ip6 pd sd rd wr rx call root sr now what broken io =
     (case serve ip4 ip6 pd sd rd wr rx call root io of
        None \<Rightarrow> None
      | Some (Inr (status, retval, c, io)) \<Rightarrow> finish sd rd wr sr now status retval c [] io
      | Some (Inl e) \<Rightarrow>
          (case error_status e of
             None \<Rightarrow> Some (Escaped e)
           | Some status \<Rightarrow> finish sd rd wr sr now status E_ok False (what e) broken))"

section \<open>The handlers\<close>

text \<open>
  \<open>accepted\<close> is what \<^verbatim>\<open>accept\<close> returns. A handler answers whether it stays registered, the calls it makes on the
  reactor, and its other actions: the tasks it submits to the pool and the socket it closes.
\<close>

datatype server_handler = AcceptHandler int bool | ReadHandler int bool

datatype server_act = SubmitHandshake int | SubmitRequest int | CloseSocket int

fun accept_handler :: "int option \<Rightarrow> int \<Rightarrow> bool \<Rightarrow> int \<Rightarrow> event \<Rightarrow> bool \<times> server_handler reactor_call list \<times> server_act list" where
  "accept_handler accepted sock secured s e =
     (if sock \<noteq> s then (False, [], [])
      else if e \<noteq> Ev_read then (False, [], [])
      else case accepted of
        None \<Rightarrow> (False, [], [])
      | Some nsock \<Rightarrow>
          if secured then (True, [], [SubmitHandshake nsock])
          else (True, [AddHandler nsock Ev_read (Some (ReadHandler nsock False)) 0], []))"

fun read_handler :: "int \<Rightarrow> bool \<Rightarrow> int \<Rightarrow> event \<Rightarrow> bool \<times> server_handler reactor_call list \<times> server_act list" where
  "read_handler sock shutting_down s e =
     (if shutting_down then (False, [], [CloseSocket sock])
      else if sock \<noteq> s then (False, [], [])
      else if e \<noteq> Ev_read then (False, [], [CloseSocket sock])
      else (False, [], [SubmitRequest sock]))"

text \<open>What a task does on the reactor when it ends; the socket of a response that closes is shut down for writing first.\<close>

fun task_calls :: "int \<Rightarrow> 's task_end \<Rightarrow> server_handler reactor_call list" where
  "task_calls sock (Escaped e) = []"
| "task_calls sock (Served status retval c io) = [AddHandler sock Ev_read (Some (ReadHandler sock c)) 0]"

definition server_call :: "int option \<Rightarrow> server_handler calls" where
  "server_call accepted h s e =
     (case (case h of AcceptHandler sock sec \<Rightarrow> accept_handler accepted sock sec s e | ReadHandler sock sd \<Rightarrow> read_handler sock sd s e) of
        (ok, qs, _) \<Rightarrow> (ok, h, qs))"

section \<open>Sending a response\<close>

lemma send_response_string:
  assumes "sock.ready io" "rs_body resp = Some (body_from_string str)" "str \<noteq> []"
  shows "\<exists>io'. send_response sd rd (sock_writen fw) io resp = Some (Inr (E_ok, io')) \<and>
    sk_out (n_dev io') = sk_out (n_dev io) @ response_str sd resp @ str \<and> sock.ready io'"
proof -
  have "response_str sd resp \<noteq> []" by (simp add: response_str_def)
  then obtain io1 where io1: "nio_write (sock_writen fw) io (response_str sd resp) = (E_ok, length (response_str sd resp), io1)"
    "sk_out (n_dev io1) = sk_out (n_dev io) @ response_str sd resp" "sock.ready io1"
    by (rule sock.nio_write_law [OF assms(1), of _ fw])
  obtain io2 where io2: "nio_write (sock_writen fw) io1 str = (E_ok, length str, io2)" "sk_out (n_dev io2) = sk_out (n_dev io1) @ str" "sock.ready io2"
    by (rule sock.nio_write_law [OF io1(3) assms(3), of fw])
  let ?b = "BufferBody \<lparr>bb_buf = str, bb_begin = 0\<rparr>" and ?b1 = "BufferBody \<lparr>bb_buf = str, bb_begin = length str\<rparr>"
  have "send_step rd (sock_writen fw) False io1 ?b (int (length str)) = Some (Inr (io2, ?b1, 0))"
    using assms(3) io2(1) by (simp add: send_step_def has_next_def body_next_def send_data_def E_defs)
  moreover have "send_step rd (sock_writen fw) False io2 ?b1 0 = Some (Inl (Inr (E_ok, 0, io2)))"
    by (simp add: send_step_def has_next_def)
  ultimately have "send_body_loop rd (sock_writen fw) False io1 ?b (int (length str)) = Some (Inr (E_ok, 0, io2))"
    by (subst send_body_loop.simps, simp) (subst send_body_loop.simps, simp)
  then have "send_body rd (sock_writen fw) io1 (body_from_string str) = Some (Inr (E_ok, io2))"
    by (simp add: send_body_def body_from_string_def body_chunked_def body_length_def E_defs)
  then show ?thesis using io1 io2 assms(2) by (simp add: send_response_def send_message_def send_data_def obind_def)
qed

section \<open>The error response\<close>

definition error_headers :: "'d \<Rightarrow> int \<Rightarrow> 'd headers" where
  "error_headers now n =
     [(''date'', \<lparr>m_raw = [], m_value = DateV now\<rparr>), (''connection'', \<lparr>m_raw = ''close'', m_value = CnxnSeq [''close'']\<rparr>),
      (''content-type'', \<lparr>m_raw = [], m_value = MediaV \<lparr>mt_type = ''application'', mt_subtype = ''json'', mt_params = []\<rparr>\<rparr>),
      (''content-length'', \<lparr>m_raw = [], m_value = NumV n\<rparr>)]"

text \<open>A text that goes into a JSON value and comes out again.\<close>

definition message_ok :: "string \<Rightarrow> bool" where
  "message_ok msg \<longleftrightarrow> (case string_unescape msg of Inl _ \<Rightarrow> False | Inr u \<Rightarrow> (case string_escape u of Inl _ \<Rightarrow> False | Inr _ \<Rightarrow> True))"

lemma message_okE: "message_ok msg \<Longrightarrow> (\<And>u m. string_unescape msg = Inr u \<Longrightarrow> string_escape u = Inr m \<Longrightarrow> thesis) \<Longrightarrow> thesis"
  by (auto simp: message_ok_def split: sum.splits)

lemma reasons_ok: "reason_phrase s = Some r \<Longrightarrow> message_ok r"
proof -
  assume "reason_phrase s = Some r"
  then have "(s, r) \<in> set reason_phrases" by (simp add: reason_phrase_def map_of_SomeD)
  moreover have "list_all (\<lambda>(s, r). message_ok r) reason_phrases" by code_simp
  ultimately show ?thesis by (auto simp: list_all_iff)
qed

lemma error_body_ok:
  assumes "message_ok reason" "message_ok msg"
  shows "\<exists>s. error_body sr (Some reason) msg = Inr s \<and> s \<noteq> []"
proof -
  from assms obtain r r' m m' where u: "string_unescape reason = Inr r" "string_escape r = Inr r'" "string_unescape msg = Inr m" "string_escape m = Inr m'"
    by (auto elim!: message_okE)
  have k: "string_escape ''errors'' = Inr ''errors''" "string_escape ''detail'' = Inr ''detail''" "string_escape ''title'' = Inr ''title''" by code_simp+
  have "''detail'' < ''title''" by code_simp
  then have "map_insert ''detail'' (T_STRING m) [(''title'', T_STRING r :: 'a json)] = [(''detail'', T_STRING m), (''title'', T_STRING r)]"
    by simp
  then show ?thesis using u by (simp add: error_body_def value_of_string_def k)
qed

text \<open>The text of an exception with a backslash that starts no escape keeps the server from answering.\<close>

lemma backslash_unanswered:
  "map_sum id (\<lambda>_. ()) (gen_error_resp (\<lambda>r::unit. []) () 400 [CHR 0x5C, CHR ''x''] :: (unit, unit) response http) = Inl InvalidArgument_h"
  by code_simp

lemma gen_error_resp_ok:
  assumes "reason_phrase code = Some reason" "message_ok msg"
  shows "\<exists>s. s \<noteq> [] \<and> error_body sr (Some reason) msg = Inr s \<and> gen_error_resp sr now code msg =
    Inr \<lparr>rs_status = code, rs_reason = reason, rs_version = version_1_1, rs_headers = error_headers now (int (length s)), rs_body = Some (body_from_string s)\<rparr>"
proof -
  from error_body_ok [OF reasons_ok [OF assms(1)] assms(2)] obtain s where s: "error_body sr (Some reason) msg = Inr s" "s \<noteq> []" by blast
  have c: "checked valid_connection (parse_strings ''close'') = Inr [''close'']" by code_simp
  have v: "valid_media_type \<lparr>mt_type = ''application'', mt_subtype = ''json'', mt_params = []\<rparr> = Inr ()" by code_simp
  have low: "map to_lower ''date'' = ''date''" "map to_lower ''connection'' = ''connection''" "map to_lower ''content-type'' = ''content-type''"
    "map to_lower ''content-length'' = ''content-length''" "map to_lower ''transfer-encoding'' = ''transfer-encoding''" by code_simp+
  note upd = header_update_value_def low header_find_def
  have h1: "set_date now [] = [(''date'', \<lparr>m_raw = [], m_value = DateV now\<rparr>)]" by (simp add: set_date_def set_value_def upd)
  then have h2: "set_connection_str ''close'' (set_date now []) =
      Inr [(''date'', \<lparr>m_raw = [], m_value = DateV now\<rparr>), (''connection'', \<lparr>m_raw = ''close'', m_value = CnxnSeq [''close'']\<rparr>)]"
    by (simp add: set_connection_str_def set_parsed_def c upd)
  let ?hs = "butlast (error_headers now 0)"
  have h3: "set_content_type_names ''application'' ''json'' (butlast ?hs) = Inr ?hs"
    by (simp add: set_content_type_names_def set_content_type_def v set_value_def upd error_headers_def)
  have h4: "validate_length_chunkiness (Some (LengthBody n)) ?hs = Inr (error_headers now n)" for n
    by (simp add: validate_length_chunkiness_def header_is_set_def set_content_length_def upd error_headers_def)
  have bv: "body_view (body_from_string s :: 'c http_body) = LengthBody (int (length s))"
    by (simp add: body_view_def body_from_string_def body_chunked_def body_length_def)
  have "butlast ?hs = [(''date'', \<lparr>m_raw = [], m_value = DateV now\<rparr>), (''connection'', \<lparr>m_raw = ''close'', m_value = CnxnSeq [''close'']\<rparr>)]"
    by (simp add: error_headers_def)
  then have "gen_error_resp sr now code msg =
    response_build True \<lparr>rs_status = code, rs_reason = [], rs_version = version_1_1, rs_headers = ?hs, rs_body = Some (body_from_string s :: 'c http_body)\<rparr>"
    using h2 h3 assms(1) s(1) by (simp add: gen_error_resp_def)
  then show ?thesis using s assms(1) h4 bv by (simp add: response_build_def response_validate_def)
qed

section \<open>What a client sees\<close>

definition connection_up :: "socket nio \<Rightarrow> bool" where
  "connection_up io \<longleftrightarrow> \<not> n_buffered io \<and> no_failure (n_dev io)"

lemma finish_error:
  fixes rd :: "'s \<Rightarrow> int \<Rightarrow> int \<times> string \<times> 's" and sd :: "'d \<Rightarrow> string"
  assumes "is_error_status status" "reason_phrase status = Some reason" "message_ok msg" "connection_up io"
  shows "\<exists>(resp :: ('d, 's) response) s io'. finish sd rd (sock_writen fw) sr now status r c msg io = Some (Served status E_ok True io') \<and>
    sk_out (n_dev io') = sk_out (n_dev io) @ response_str sd resp @ s \<and> rs_status resp = status \<and> rs_reason resp = reason \<and>
    content_length (rs_headers resp) = Inr (int (length s)) \<and> close_connection (rs_headers resp) = Inr True"
proof -
  from gen_error_resp_ok [OF assms(2,3), of sr now] obtain s where s: "s \<noteq> []" "gen_error_resp sr now status msg =
    Inr \<lparr>rs_status = status, rs_reason = reason, rs_version = version_1_1, rs_headers = error_headers now (int (length s)), rs_body = Some (body_from_string s :: 's http_body)\<rparr>"
    (is "_ = Inr ?resp") by blast
  have "sock.ready io" using assms(4) by (simp add: connection_up_def sock.ready_def)
  from send_response_string [OF this, of ?resp s sd rd fw] s(1) obtain io' where
    "send_response sd rd (sock_writen fw) io ?resp = Some (Inr (E_ok, io'))" "sk_out (n_dev io') = sk_out (n_dev io) @ response_str sd ?resp @ s" by auto
  moreover have "map to_lower ''content-length'' = ''content-length''" "map to_lower ''connection'' = ''connection''" by code_simp+
  then have "content_length (error_headers now (int (length s))) = Inr (int (length s))" "close_connection (error_headers now (int (length s))) = Inr True"
    by (simp_all add: content_length_def close_connection_def header_get_def header_find_def error_headers_def)
  ultimately show ?thesis using assms(1) s(2) by (intro exI [of _ ?resp] exI [of _ s] exI [of _ io']) (simp add: finish_def)
qed



text \<open>
  A response with an error status that a handler returns is sent, and then a second response with the same
  status, made by the server, is sent on the same connection.
\<close>

lemma handler_error_answered_twice:
  fixes rd :: "socket \<Rightarrow> int \<Rightarrow> int \<times> string \<times> socket" and sd :: "'d \<Rightarrow> string"
  assumes "recv_request ip4 ip6 pd rd io = Some (Inr (req, io1))" "router_handle rx call root req = Inr resp"
    and "rs_body resp = Some (body_from_string str)" "str \<noteq> []" "close_connection (rq_headers req) = Inr True" "connection_up io1"
    and "is_error_status (rs_status resp)" "reason_phrase (rs_status resp) = Some reason"
  shows "\<exists>(resp2 :: ('d, socket) response) s io'. process_request ip4 ip6 pd sd rd (sock_writen fw) rx call root sr now what broken io = Some (Served (rs_status resp) E_ok True io') \<and>
    sk_out (n_dev io') = sk_out (n_dev io1) @ (response_str sd resp @ str) @ (response_str sd resp2 @ s) \<and> rs_status resp2 = rs_status resp"
proof -
  have "sock.ready io1" using assms(6) by (simp add: connection_up_def sock.ready_def)
  from send_response_string [OF this assms(3,4), of sd rd fw] obtain io2 where
    io2: "send_response sd rd (sock_writen fw) io1 resp = Some (Inr (E_ok, io2))" "sk_out (n_dev io2) = sk_out (n_dev io1) @ response_str sd resp @ str"
      "sock.ready io2" by blast
  have "serve ip4 ip6 pd sd rd (sock_writen fw) rx call root io = Some (Inr (rs_status resp, E_ok, True, io2))"
    using assms(1,2,5) io2(1) by (simp add: serve_def obind_def)
  moreover have "message_ok []" by code_simp
  moreover have "connection_up io2" using io2(3) by (simp add: connection_up_def sock.ready_def)
  ultimately show ?thesis
    using finish_error [OF assms(7,8), where msg = "[]" and sd = sd and rd = rd and fw = fw and sr = sr and now = now and r = E_ok and c = True and io = io2] io2(2)
    by (auto simp: process_request_def)
qed

text \<open>
  C33: a well-formed request whose header has neither a length nor the chunked coding, as a GET has, is not
  answered at all: the exception is none of those the server catches, it leaves the task, and the connection is dropped.
\<close>

theorem bodyless_request_unanswered:
  fixes req :: "('d, socket) request" and pd :: "string \<Rightarrow> 'd option"
  assumes "plain_request req" "''content-length'' \<notin> set (names (rq_headers req))" "\<not> is_message_chunked (rq_headers req)"
    and "no_failure r" "sk_in r = request_str sd req @ rest"
  shows "process_request ip4 ip6 pd sd' (sock_readn fr) wr rx call root sr now what broken (new_nio r) = Some (Escaped OutOfRange_h)"
  using request_without_length_rejected [OF assms, of ip4 ip6 pd fr]
  by (simp add: process_request_def serve_def recv_request_def obind_def)

theorem bodyless_request_unanswered_witness:
  "process_request (\<lambda>_. False) (\<lambda>_. False) (\<lambda>_. None :: unit option) (\<lambda>_. []) (sock_readn False) (sock_writen False) (\<lambda>_ _. False)
     (\<lambda>(h::nat) _ _. Inl NotFound) [] (\<lambda>r. r) () (\<lambda>_. []) (new_nio (quiet_socket [] []))
     (new_nio (quiet_socket (request_str (\<lambda>_. []) sample_request) [])) = Some (Escaped OutOfRange_h)"
proof (rule bodyless_request_unanswered [OF sample_plain])
  show "''content-length'' \<notin> set (names (rq_headers sample_request))" by code_simp
  show "\<not> is_message_chunked (rq_headers sample_request)" by code_simp
  show "sk_in (quiet_socket (request_str (\<lambda>_. []) sample_request) []) = request_str (\<lambda>_. []) sample_request @ []" by (simp add: quiet_ok)
qed (rule quiet_ok)

text \<open>
  C34: the server without TLS stops at its first connection: when the plain listening socket is ready and a
  connection is accepted, the reactor's thread waits for the mutex it holds and never returns.
\<close>

theorem plain_accept_blocks:
  assumes "\<not> re_stopped r" "map_of (re_handlers r) s = Some (ei # eis)" "ei_event ei = Ev_read" "ei_handler ei = AcceptHandler s False"
    and "nsock \<noteq> INVALID_SOCKET"
  shows "process_poll_vector (server_call (Some nsock)) now ((s, event_bits Ev_read) # fds) r = None"
  by (rule callback_blocks [OF assms(1,2), where e = Ev_read and ok = True and h = "AcceptHandler s False" and s' = nsock and e' = Ev_read
        and h' = "ReadHandler nsock False" and t = 0 and qs = "[]"])
    (use assms(3-5) in \<open>simp_all add: fired_def server_call_def\<close>)

theorem plain_accept_blocks_witness:
  "\<exists>r. add_handler 0 3 Ev_read (Some (AcceptHandler 3 False)) 0 new_reactor = Some (Inr r) \<and>
     process_poll_vector (server_call (Some 4)) 0 [(3, event_bits Ev_read)] r = None"
proof -
  let ?r = "\<lparr>re_stopped = False, re_locked = False, re_handlers = [(3, [new_ev_info 0 Ev_read 0 (AcceptHandler 3 False)])], re_wakeups = 1\<rparr>"
  have "add_handler 0 3 Ev_read (Some (AcceptHandler 3 False)) 0 new_reactor = Some (Inr ?r)"
    by (simp add: add_handler_def INVALID_SOCKET_def re_lock_def re_unlock_def wake_up_def new_reactor_def)
  moreover have "process_poll_vector (server_call (Some 4)) 0 [(3, event_bits Ev_read)] ?r = None"
    by (rule plain_accept_blocks [where ei = "new_ev_info 0 Ev_read 0 (AcceptHandler 3 False)" and eis = "[]"]) (simp_all add: INVALID_SOCKET_def)
  ultimately show ?thesis by blast
qed

end
