(* ===== verification/Http_Exchange.thy ===== *)
theory Http_Exchange
  imports Http_Server
begin

text \<open>
  A whole exchange over a plain connection: what a client sends is what the server's task reads, and what the
  server answers is what the client reads. The theory adds the reading of a response head, and the
  server's side for a request without a body.
\<close>

section \<open>Accessors of fields read back\<close>

lemma access_reread:
  "content_length (map (reread sd) hs) = content_length hs"
  "close_connection (map (reread sd) hs) = close_connection hs"
  "is_message_chunked (map (reread sd) hs) = is_message_chunked hs"
  "header_is_set n (map (reread sd) hs) = header_is_set n hs"
  "header_host (map (reread sd) hs) = header_host hs"
  by (auto simp: content_length_def close_connection_def is_message_chunked_def header_is_set_def header_host_def header_as_def
      header_get_def find_reread split: option.splits)

section \<open>The head of a response\<close>

definition reason_text :: "string \<Rightarrow> bool" where
  "reason_text r \<longleftrightarrow> r \<noteq> [] \<and> visible (hd r) \<and> visible (last r) \<and> list_all (\<lambda>c. visible c \<or> c = CHR '' '') r"

lemma status_text:
  assumes "100 \<le> s" "s < 600"
  shows "length (int_str s) = 3 \<and> in_class (\<lambda>c. 48 \<le> c \<and> c \<le> 57) (int_str s) \<and> decimal_value (int_str s) = s"
proof -
  have "nat s \<ge> 100" "nat s < 600" using assms by auto
  then have "length (nat_str (nat s)) = 3" by (subst nat_str.simps, subst nat_str.simps, subst nat_str.simps) auto
  moreover have "int_str s = nat_str (nat s)" using assms by (simp add: int_str_def)
  ultimately show ?thesis using nat_str_decimal [of "nat s"] assms by (auto simp: in_class_def list_all_iff is_digit_def to_int_def)
qed

lemma response_line_text:
  assumes "100 \<le> s" "s < 600" "reason_text r"
  shows "response_line (http11 @ '' '' @ int_str s @ '' '' @ r @ crlf) resp = Inr (resp\<lparr>rs_version := version_1_1, rs_status := s, rs_reason := r\<rparr>)"
proof -
  note st = status_text [OF assms(1,2)]
  have ws: "stops is_whitespace (c # cs @ [CHR 0x0D, CHR 0x0A])" if "visible c" for c cs
    using that by (auto simp: stops_def is_whitespace_def is_vchar_def)
  obtain d ds where ds: "int_str s = d # ds" using st by (cases "int_str s") auto
  obtain c cs where cs: "r = c # cs" using assms(3) by (cases r) (auto simp: reason_text_def)
  have d: "visible d" using st ds digit_visible [of d] nat_str_decimal [of "nat s"] assms by (auto simp: int_str_def)
  have c: "visible c" using assms(3) cs by (simp add: reason_text_def)
  have "in_class (\<lambda>c. is_tchar c \<or> c = 0x2F) http11" by (auto simp: in_class_def is_tchar_def to_int_def)
  moreover have "stops (\<lambda>c. is_tchar c \<or> c = 0x2F) ('' '' @ int_str s @ '' '' @ r @ crlf)" by (simp add: stops_def is_tchar_def to_int_def)
  ultimately obtain s1 where s1: "read_version (new_scanner (http11 @ '' '' @ int_str s @ '' '' @ r @ crlf)) = (True, http11, s1)"
      "at s1 ('' '' @ int_str s @ '' '' @ r @ crlf)"
    using read_class_stops [where xs = http11 and rest = "'' '' @ int_str s @ '' '' @ r @ crlf" and P = "\<lambda>c. is_tchar c \<or> c = 0x2F" and out = "[]", OF at_new] by (auto simp: read_version_def)
  obtain s2 where s2: "read_space s1 = (True, s2)" "at s2 (int_str s @ '' '' @ r @ crlf)"
    using read_space_at [OF s1(2)] ws [OF d, of "ds @ '' '' @ r"] ds by auto
  have "stops (\<lambda>c. 48 \<le> c \<and> c \<le> 57) ('' '' @ r @ crlf)" by (simp add: stops_def to_int_def)
  from read_class_stops [OF s2(2) _ this, of "[]"] st obtain s3 where s3: "read_status s2 = (True, int_str s, s3)" "at s3 ('' '' @ r @ crlf)"
    by (auto simp: read_status_def)
  obtain s4 where s4: "read_space s3 = (True, s4)" "at s4 (r @ crlf)" using read_space_at [OF s3(2)] ws [OF c, of cs] cs by auto
  let ?P = "\<lambda>c. is_whitespace c \<or> is_vchar c \<or> is_opaque c"
  have "in_class ?P r" using assms(3) by (auto simp: in_class_def reason_text_def list_all_iff is_whitespace_def is_vchar_def to_int_def)
  moreover have "stops ?P crlf" by code_simp
  moreover have "line_text r" using assms(3) by (intro line_textI) (auto simp: reason_text_def list_all_iff)
  ultimately obtain s5 where s5: "read_reason s4 = (True, r, s5)" "at s5 crlf"
    using read_class_stops [OF s4(2), of ?P "[]"] assms(3) by (auto simp: read_reason_def line_text_def reason_text_def)
  have "at (read_opt_space s5) crlf"
    by (rule read_opt_space_stops [of s5 "[]"]) (use s5(2) in \<open>auto simp: stops_def is_whitespace_def to_int_def\<close>)
  then have "fst (read_crlf (read_opt_space s5))" using read_crlf_at by fastforce
  then show ?thesis
    using s1(1) s2(1) s3(1) s4(1) s5(1) st by (simp add: response_line_def version_text)
qed

context byte_device
begin

lemma read_response_law:
  assumes "ready io" "arriving io = response_str sd resp @ rest" "rs_version resp = version_1_1" "100 \<le> rs_status resp" "rs_status resp < 600"
    and "reason_text (rs_reason resp)" "list_all plain_field (rs_headers resp)" "distinct (names (rs_headers resp))" "rs_headers resp \<noteq> []"
  shows "\<exists>io'. response_from_socket ip4 ip6 pd readn False io = Some (
      rbind (body_of (map (reread sd) (rs_headers resp)) from_socket from_socket_length io') (\<lambda>b.
        Inr (resp\<lparr>rs_headers := map (reread sd) (rs_headers resp), rs_body := b\<rparr>, io'))) \<and>
    arriving io' = rest \<and> ready io' \<and> written io' = written io"
proof -
  let ?l = "http11 @ '' '' @ int_str (rs_status resp) @ '' '' @ rs_reason resp @ [CHR 0x0D]"
  have "CHR 0x0A \<notin> set (rs_reason resp)" using assms(6) by (auto simp: reason_text_def list_all_iff is_vchar_def to_int_def)
  moreover have "CHR 0x0A \<notin> set (int_str (rs_status resp))"
    using status_text [OF assms(4,5)] by (auto simp: in_class_def to_int_def)
  ultimately have "CHR 0x0A \<notin> set ?l" by auto
  moreover have "arriving io = ?l @ CHR 0x0A # headers_str sd (rs_headers resp) @ crlf @ rest"
    using assms(2,3) by (simp add: response_str_def version_text)
  ultimately obtain io1 where io1: "nio_line readn io = Some (True, ?l @ [CHR 0x0A], io1)"
      "arriving io1 = headers_str sd (rs_headers resp) @ crlf @ rest" "ready io1" "written io1 = written io"
    using nio_line_law [OF assms(1)] by blast
  note line = response_line_text [OF assms(4-6), of new_response]
  obtain io2 where io2: "read_headers (nio_line readn) SystemError (header_add_line ip4 ip6 pd) io1 [] = Some (Inr (map (reread sd) (rs_headers resp), io2))"
      "arriving io2 = rest" "ready io2" "written io2 = written io1"
    using read_headers_law [OF io1(3,2) assms(7,8), of "[]" SystemError ip4 ip6 pd] by auto
  have "new_response\<lparr>rs_version := version_1_1, rs_status := rs_status resp, rs_reason := rs_reason resp, rs_headers := hs, rs_body := b\<rparr> =
      resp\<lparr>rs_headers := hs, rs_body := b\<rparr>" for hs b
    using assms(3) by (cases resp) (simp add: new_response_def)
  then show ?thesis
    using io1(1,4) io2 assms(9)
    by (intro exI [of _ io2]) (simp add: line [simplified] response_from_socket_def read_response_def read_head_def obind_def)
qed

end

section \<open>The server's side\<close>

text \<open>A request that announces an empty body and asks to close the connection.\<close>

definition closing_request :: "('d, 's) request \<Rightarrow> bool" where
  "closing_request req \<longleftrightarrow> plain_request req \<and> content_length (rq_headers req) = Inr 0 \<and> \<not> is_message_chunked (rq_headers req) \<and>
     (\<exists>hp. header_host (rq_headers req) = Inr hp) \<and> close_connection (rq_headers req) = Inr True"

definition arrived :: "('d \<Rightarrow> string) \<Rightarrow> ('d, 's) request \<Rightarrow> ('d, 's) request" where
  "arrived sd req = req\<lparr>rq_headers := map (reread sd) (rq_headers req)\<rparr>"

lemma host_set: "header_host hs = Inr hp \<Longrightarrow> header_is_set ''host'' hs"
  by (auto simp: header_host_def header_as_def header_get_def header_is_set_def rbind_Inr split: option.splits)

lemma recv_closing_request:
  fixes req :: "('d, socket) request" and pd :: "string \<Rightarrow> 'd option"
  assumes "closing_request req" "no_failure r" "sk_in r = request_str sd req @ rest"
  shows "\<exists>io'. recv_request ip4 ip6 pd (sock_readn fr) (new_nio r) = Some (Inr (arrived sd req, io')) \<and>
    sk_in (n_dev io') = rest \<and> sk_out (n_dev io') = sk_out r \<and> sock.ready io'"
proof -
  have c: "plain_request req" "content_length (rq_headers req) = Inr 0" "\<not> is_message_chunked (rq_headers req)"
    using assms(1) by (auto simp: closing_request_def)
  obtain hp where hp: "header_host (rq_headers req) = Inr hp" using assms(1) by (auto simp: closing_request_def)
  have p: "plain_target (rq_uri req)" "rq_version req = version_1_1" "list_all plain_field (rq_headers req)"
      "distinct (names (rq_headers req))" "rq_headers req \<noteq> []" "rq_body req = None"
    using c(1) by (auto simp: plain_request_def)
  let ?hs = "map (reread sd) (rq_headers req)"
  from sock.read_request_law [OF fresh_ready(1) [OF assms(2)] _ p(1-5), of sd rest ip4 ip6 pd fr False] assms(3) fresh_ready(2) [of r]
  obtain io' where io': "request_from_socket ip4 ip6 pd (sock_readn fr) False (new_nio r) =
      Some (rbind (body_of ?hs from_socket from_socket_length io') (\<lambda>b. Inr ((req\<lparr>rq_headers := ?hs\<rparr>)\<lparr>rq_body := b\<rparr>, io')))"
      "sk_in (n_dev io') = rest" "sk_out (n_dev io') = sk_out r" "sock.ready io'"
    by (auto simp: reread_request [OF p(2,6)] Let_def)
  have "body_of ?hs from_socket from_socket_length io' = Inr None" using c(2,3) by (simp add: body_of_def access_reread)
  moreover have "(req\<lparr>rq_headers := ?hs\<rparr>)\<lparr>rq_body := None\<rparr> = arrived sd req" using p(6) by (cases req) (simp add: arrived_def)
  ultimately have "request_from_socket ip4 ip6 pd (sock_readn fr) False (new_nio r) = Some (Inr (arrived sd req, io'))"
    using io'(1) by simp
  moreover have "request_build True (arrived sd req) = Inr (arrived sd req)"
    using p hp host_set [OF hp]
    by (auto simp: request_build_def request_validate_def arrived_def access_reread validate_length_chunkiness_def plain_target_def Let_def split: prod.splits)
  ultimately show ?thesis using io' by (auto simp: recv_request_def obind_def)
qed

text \<open>A response that a handler gives: a success or a redirection with a non-empty body of the announced length.\<close>

definition plain_response :: "('d, 's) response \<Rightarrow> string \<Rightarrow> bool" where
  "plain_response resp str \<longleftrightarrow> rs_version resp = version_1_1 \<and> 100 \<le> rs_status resp \<and> rs_status resp < 400 \<and> reason_text (rs_reason resp) \<and>
     list_all plain_field (rs_headers resp) \<and> distinct (names (rs_headers resp)) \<and> ''transfer-encoding'' \<notin> set (names (rs_headers resp)) \<and>
     content_length (rs_headers resp) = Inr (int (length str)) \<and> rs_body resp = Some (body_from_string str) \<and> str \<noteq> [] \<and> length str < 2 ^ 31"

lemma server_answers:
  fixes req :: "('d, socket) request" and pd :: "string \<Rightarrow> 'd option"
  assumes "closing_request req" "no_failure r" "sk_in r = request_str sd req @ rest"
    and "router_handle rx call root (arrived sd req) = Inr resp" "plain_response resp str"
  shows "\<exists>io. process_request ip4 ip6 pd sd (sock_readn fr) (sock_writen fw) rx call root sr now what broken (new_nio r) =
      Some (Served (rs_status resp) E_ok True io) \<and> sk_out (n_dev io) = sk_out r @ response_str sd resp @ str"
proof -
  obtain io1 where io1: "recv_request ip4 ip6 pd (sock_readn fr) (new_nio r) = Some (Inr (arrived sd req, io1))" "sk_out (n_dev io1) = sk_out r" "sock.ready io1"
    using recv_closing_request [OF assms(1-3), of ip4 ip6 pd fr] by blast
  have b: "rs_body resp = Some (body_from_string str)" "str \<noteq> []" "\<not> is_error_status (rs_status resp)"
    using assms(5) by (auto simp: plain_response_def is_error_status_def)
  obtain io2 where io2: "send_response sd (sock_readn fr) (sock_writen fw) io1 resp = Some (Inr (E_ok, io2))"
      "sk_out (n_dev io2) = sk_out (n_dev io1) @ response_str sd resp @ str"
    using send_response_string [OF io1(3) b(1,2), of sd "sock_readn fr" fw] by blast
  have "close_connection (rq_headers (arrived sd req)) = Inr True"
    using assms(1) by (simp add: closing_request_def arrived_def access_reread)
  then have "serve ip4 ip6 pd sd (sock_readn fr) (sock_writen fw) rx call root (new_nio r) = Some (Inr (rs_status resp, E_ok, True, io2))"
    using io1(1) io2(1) assms(4) by (simp add: serve_def obind_def)
  then show ?thesis using io1(2) io2(2) b(3) by (auto simp: process_request_def finish_def)
qed

section \<open>The client's side\<close>

text \<open>The client gets the response with the length of its body announced as 0, since a received body has none; the body itself is complete.\<close>

lemma client_receives:
  fixes resp :: "('d, socket) response" and pd :: "string \<Rightarrow> 'd option"
  assumes "plain_response resp str" "no_failure c" "sk_in c = response_str sd resp @ str @ rest"
  shows "\<exists>resp' body b io. recv_response ip4 ip6 pd (sock_readn fr) (new_nio c) = Some (Inr (resp', io)) \<and>
    rs_status resp' = rs_status resp \<and> rs_reason resp' = rs_reason resp \<and>
    rs_headers resp' = set_content_length 0 (map (reread sd) (rs_headers resp)) \<and> rs_body resp' = Some body \<and>
    read_body (sock_readn fr) body [] = Some (Inr (str, SocketBody b)) \<and> sk_in (n_dev (sb_io b)) = rest"
proof -
  let ?hs = "map (reread sd) (rs_headers resp)"
  have p: "rs_version resp = version_1_1" "100 \<le> rs_status resp" "rs_status resp < 600" "reason_text (rs_reason resp)"
      "list_all plain_field (rs_headers resp)" "distinct (names (rs_headers resp))" "str \<noteq> []" "int (length str) < 2 ^ 31"
      "content_length (rs_headers resp) = Inr (int (length str))" "''transfer-encoding'' \<notin> set (names (rs_headers resp))"
    using assms(1) by (auto simp: plain_response_def)
  have ne: "rs_headers resp \<noteq> []" using p(9) by (auto simp: content_length_def header_get_def header_find_def)
  have "header_find ''transfer-encoding'' (rs_headers resp) = None" using p(10) by (simp only: find_None not_False_eq_True)
  then have te: "\<not> is_message_chunked (rs_headers resp)" "\<not> header_is_set ''transfer-encoding'' (rs_headers resp)"
    unfolding is_message_chunked_def header_is_set_def lower_names by simp_all
  from sock.read_response_law [OF fresh_ready(1) [OF assms(2)] _ p(1-6) ne, of sd "str @ rest" ip4 ip6 pd fr] assms(3) fresh_ready(2) [of c]
  obtain io where io: "response_from_socket ip4 ip6 pd (sock_readn fr) False (new_nio c) =
      Some (rbind (body_of ?hs from_socket from_socket_length io) (\<lambda>b. Inr (resp\<lparr>rs_headers := ?hs, rs_body := b\<rparr>, io)))"
      "sk_in (n_dev io) = str @ rest" "sock.ready io"
    by auto
  let ?b = "from_socket_length io (int (length str))"
  let ?r = "resp\<lparr>rs_headers := ?hs, rs_body := Some ?b\<rparr>"
  have "body_of ?hs from_socket from_socket_length io = Inr (Some ?b)" using p(7,9) te(1) by (simp add: body_of_def access_reread)
  then have r: "response_from_socket ip4 ip6 pd (sock_readn fr) False (new_nio c) = Some (Inr (?r, io))" using io(1) by simp
  have "body_view ?b = LengthBody 0" by (simp add: body_view_def from_socket_length_def body_chunked_def body_length_def)
  moreover have "rs_reason resp \<noteq> []" using p(4) by (simp add: reason_text_def)
  ultimately have "response_build True ?r = Inr (resp\<lparr>rs_headers := set_content_length 0 ?hs, rs_body := Some ?b\<rparr>)"
    using te(2) by (simp add: response_build_def response_validate_def validate_length_chunkiness_def access_reread)
  then have "recv_response ip4 ip6 pd (sock_readn fr) (new_nio c) = Some (Inr (resp\<lparr>rs_headers := set_content_length 0 ?hs, rs_body := Some ?b\<rparr>, io))"
    using r by (simp add: recv_response_def obind_def)
  moreover obtain b where "read_body (sock_readn fr) ?b [] = Some (Inr (str, SocketBody b))" "sk_in (n_dev (sb_io b)) = rest"
    using sock.read_length_body [OF io(3,2) p(7,8)] by blast
  ultimately show ?thesis by (intro exI [of _ "resp\<lparr>rs_headers := set_content_length 0 ?hs, rs_body := Some ?b\<rparr>"] exI [of _ ?b] exI [of _ b] exI [of _ io]) simp
qed

end
