(* ===== verification/Date_Time.thy ===== *)
theory Date_Time
  imports Text_Format "HOL-Library.Signed_Division"
begin

text \<open>
  Dates of libcom, \<^verbatim>\<open>libcom/include/timeutil.h\<close> and \<^verbatim>\<open>libcom/src/timeutil.cpp\<close> (Unix branch). The clock is an
  argument, and so are \<^verbatim>\<open>localtime_r\<close> and \<^verbatim>\<open>mktime\<close>, which depend on the time zone; \<^verbatim>\<open>gmtime_r\<close> is the
  proleptic Gregorian calendar.
\<close>

section \<open>The calendar\<close>

datatype time_unit = Millisecond | Second

datatype time_format = Common | Imf

definition days :: "string list" where
  "days = [''Sun'', ''Mon'', ''Tue'', ''Wed'', ''Thu'', ''Fri'', ''Sat'']"

definition months :: "string list" where
  "months = [''Jan'', ''Feb'', ''Mar'', ''Apr'', ''May'', ''Jun'', ''Jul'', ''Aug'', ''Sep'', ''Oct'', ''Nov'', ''Dec'']"

definition seconds_in_minute :: int where "seconds_in_minute = 60"
definition seconds_in_hour :: int where "seconds_in_hour = 3600"
definition seconds_in_day :: int where "seconds_in_day = 86400"

definition is_leap_year :: "int \<Rightarrow> bool" where
  "is_leap_year year =
     (if year smod 4 \<noteq> 0 then False
      else if year smod 100 \<noteq> 0 then True
      else if year smod 400 \<noteq> 0 then False
      else True)"

definition days_in_month :: "int list" where
  "days_in_month = [31, 28, 31, 30, 31, 30, 31, 31, 30, 31, 30, 31]"

definition seconds_in_month :: "nat \<Rightarrow> bool \<Rightarrow> int" where
  "seconds_in_month m leap_year = (if m = 1 \<and> leap_year then 29 else days_in_month ! m) * seconds_in_day"

definition seconds_in_year :: "bool \<Rightarrow> int" where
  "seconds_in_year leap_year = (if leap_year then 366 else 365) * seconds_in_day"

section \<open>The class\<close>

record tm =
  tm_year :: int
  tm_mon :: int
  tm_mday :: int
  tm_hour :: int
  tm_min :: int
  tm_sec :: int
  tm_wday :: int

record datetime =
  m_tm :: tm
  m_msec :: int
  m_epoch :: int
  m_utc :: bool
  m_recalc :: bool

text \<open>The library's \<^verbatim>\<open>gmtime_r\<close>: years, then months, taken off a day count from 1970.\<close>

definition year_days :: "int \<Rightarrow> int" where
  "year_days y = (if 4 dvd y \<and> (\<not> 100 dvd y \<or> 400 dvd y) then 366 else 365)"

definition month_days :: "int \<Rightarrow> nat \<Rightarrow> int" where
  "month_days y m = (if m = 1 \<and> year_days y = 366 then 29 else days_in_month ! m)"

function gm_forward :: "int \<Rightarrow> int \<Rightarrow> int \<times> int" where
  "gm_forward y d = (if d < year_days y then (y, d) else gm_forward (y + 1) (d - year_days y))"
  by pat_completeness auto

termination gm_forward
  by (relation "measure (\<lambda>(y, d). nat d)") (auto simp: year_days_def split: if_splits)

function gm_back :: "int \<Rightarrow> int \<Rightarrow> int \<times> int" where
  "gm_back y d = (if d < 0 then gm_back (y - 1) (d + year_days (y - 1)) else (y, d))"
  by pat_completeness auto

termination gm_back
  by (relation "measure (\<lambda>(y, d). nat (- d))") (auto simp: year_days_def split: if_splits)

declare gm_forward.simps [simp del] gm_back.simps [simp del]

fun gm_month :: "int \<Rightarrow> nat \<Rightarrow> nat \<Rightarrow> int \<Rightarrow> nat \<times> int" where
  "gm_month y m 0 d = (m, d)"
| "gm_month y m (Suc n) d = (if d < month_days y m then (m, d) else gm_month y (Suc m) n (d - month_days y m))"

definition gmtime :: "int \<Rightarrow> tm" where
  "gmtime e =
     (let d = e div 86400; s = e mod 86400;
          (y, yd) = (if 0 \<le> d then gm_forward 1970 d else gm_back 1970 d);
          (m, md) = gm_month y 0 11 yd
      in \<lparr>tm_year = y - 1900, tm_mon = int m, tm_mday = md + 1, tm_hour = s div 3600, tm_min = s mod 3600 div 60, tm_sec = s mod 60,
          tm_wday = (d + 4) mod 7\<rparr>)"

definition datetime_now :: "(int \<Rightarrow> tm) \<Rightarrow> int \<times> int \<Rightarrow> bool \<Rightarrow> datetime" where
  "datetime_now localtime ts utc =
     \<lparr>m_tm = (if utc then gmtime (fst ts) else localtime (fst ts)), m_msec = to_int32 (snd ts sdiv 1000000), m_epoch = fst ts,
      m_utc = utc, m_recalc = False\<rparr>"

definition datetime_of :: "(int \<Rightarrow> tm) \<Rightarrow> int \<Rightarrow> time_unit \<Rightarrow> bool \<Rightarrow> datetime" where
  "datetime_of localtime epoch u utc =
     (let e = (if u = Millisecond then epoch sdiv 1000 else epoch);
          ms = (if u = Millisecond then epoch smod 1000 else 0)
      in \<lparr>m_tm = (if utc then gmtime e else localtime e), m_msec = ms, m_epoch = e, m_utc = utc, m_recalc = False\<rparr>)"

definition get_year :: "datetime \<Rightarrow> int" where "get_year t = tm_year (m_tm t) + 1900"

definition set_year :: "int \<Rightarrow> datetime \<Rightarrow> datetime" where
  "set_year y t = t\<lparr>m_tm := (m_tm t)\<lparr>tm_year := y - 1900\<rparr>, m_recalc := True\<rparr>"

definition get_month :: "datetime \<Rightarrow> int" where "get_month t = tm_mon (m_tm t) + 1"

definition set_month :: "int \<Rightarrow> datetime \<Rightarrow> datetime" where
  "set_month m t = t\<lparr>m_tm := (m_tm t)\<lparr>tm_mon := m - 1\<rparr>, m_recalc := True\<rparr>"

definition set_day :: "int \<Rightarrow> datetime \<Rightarrow> datetime" where
  "set_day d t = t\<lparr>m_tm := (m_tm t)\<lparr>tm_mday := d\<rparr>, m_recalc := True\<rparr>"

definition set_hour :: "int \<Rightarrow> datetime \<Rightarrow> datetime" where
  "set_hour h t = t\<lparr>m_tm := (m_tm t)\<lparr>tm_hour := h\<rparr>, m_recalc := True\<rparr>"

definition set_minute :: "int \<Rightarrow> datetime \<Rightarrow> datetime" where
  "set_minute m t = t\<lparr>m_tm := (m_tm t)\<lparr>tm_min := m\<rparr>, m_recalc := True\<rparr>"

definition set_second :: "int \<Rightarrow> datetime \<Rightarrow> datetime" where
  "set_second s t = t\<lparr>m_tm := (m_tm t)\<lparr>tm_sec := s\<rparr>, m_recalc := True\<rparr>"

definition set_millisecond :: "int \<Rightarrow> datetime \<Rightarrow> datetime" where
  "set_millisecond ms t = t\<lparr>m_msec := ms, m_recalc := True\<rparr>"

definition set_day_of_week :: "int \<Rightarrow> datetime \<Rightarrow> datetime" where
  "set_day_of_week d t = t\<lparr>m_tm := (m_tm t)\<lparr>tm_wday := d\<rparr>, m_recalc := True\<rparr>"

definition datetime_epoch :: "datetime \<Rightarrow> time_unit \<Rightarrow> int" where
  "datetime_epoch t u = (if u = Millisecond then m_epoch t * 1000 + m_msec t else m_epoch t)"

text \<open>The two loops of \<open>recalculate\<close>.\<close>

function years_loop :: "int \<Rightarrow> int \<Rightarrow> int \<Rightarrow> int" where
  "years_loop y year acc = (if y < year then years_loop (y + 1) year (acc + seconds_in_year (is_leap_year y)) else acc)"
  by pat_completeness auto

termination years_loop
  by (relation "measure (\<lambda>(y, year, _). nat (year - y))") auto

function months_loop :: "nat \<Rightarrow> int \<Rightarrow> bool \<Rightarrow> int \<Rightarrow> int" where
  "months_loop m mon leap acc = (if int m < mon then months_loop (Suc m) mon leap (acc + seconds_in_month m leap) else acc)"
  by pat_completeness auto

termination months_loop
  by (relation "measure (\<lambda>(m, mon, _). nat (mon - int m))") auto

declare years_loop.simps [simp del] months_loop.simps [simp del]

definition utc_epoch :: "tm \<Rightarrow> int" where
  "utc_epoch t =
     (let year = tm_year t + 1900
      in months_loop 0 (tm_mon t) (is_leap_year year) (years_loop 1970 year 0) + (tm_mday t - 1) * seconds_in_day +
         tm_hour t * seconds_in_hour + tm_min t * seconds_in_minute + tm_sec t)"

text \<open>\<open>mktime\<close> also puts its argument in order.\<close>

definition recalculate :: "(tm \<Rightarrow> int \<times> tm) \<Rightarrow> datetime \<Rightarrow> datetime" where
  "recalculate mktime t =
     (if m_recalc t then
        if m_utc t then t\<lparr>m_epoch := utc_epoch (m_tm t), m_recalc := False\<rparr>
        else case mktime (m_tm t) of (e, tm) \<Rightarrow> t\<lparr>m_epoch := e, m_tm := tm, m_recalc := False\<rparr>
      else t)"

section \<open>Text\<close>

text \<open>\<^verbatim>\<open>setfill('0') << setw(n)\<close>.\<close>

definition pad :: "nat \<Rightarrow> int \<Rightarrow> string" where
  "pad n i = replicate (n - length (int_str i)) CHR ''0'' @ int_str i"

text \<open>An index outside the name tables is outside the arrays.\<close>

definition name_at :: "string list \<Rightarrow> int \<Rightarrow> string option" where
  "name_at xs i = (if 0 \<le> i \<and> nat i < length xs then Some (xs ! nat i) else None)"

definition datetime_str :: "time_format \<Rightarrow> datetime \<Rightarrow> string option" where
  "datetime_str fmt t =
     (case fmt of
        Imf \<Rightarrow> do {
          d \<leftarrow> name_at days (tm_wday (m_tm t));
          m \<leftarrow> name_at months (get_month t - 1);
          Some (d @ '', '' @ pad 2 (tm_mday (m_tm t)) @ '' '' @ m @ '' '' @ pad 4 (get_year t) @ '' '' @ pad 2 (tm_hour (m_tm t)) @ '':'' @
            pad 2 (tm_min (m_tm t)) @ '':'' @ pad 2 (tm_sec (m_tm t)) @ '' GMT'')
        }
      | Common \<Rightarrow>
          Some (pad 4 (get_year t) @ ''/'' @ pad 2 (get_month t) @ ''/'' @ pad 2 (tm_mday (m_tm t)) @ '' '' @ pad 2 (tm_hour (m_tm t)) @ '':'' @
            pad 2 (tm_min (m_tm t)) @ '':'' @ pad 2 (tm_sec (m_tm t)) @ ''.'' @ pad 3 (m_msec t)))"

text \<open>
  What stops the parser: one of two exceptions, or a read behind the end of the string, which the
  source does not guard against.
\<close>

datatype date_error = InvalidArgument | OutOfRange | Unguarded

definition date_substr :: "string \<Rightarrow> nat \<Rightarrow> nat \<Rightarrow> date_error + string" where
  "date_substr s pos n = (if pos \<le> length s then Inr (take n (drop pos s)) else Inl OutOfRange)"

definition char_is :: "string \<Rightarrow> nat \<Rightarrow> char \<Rightarrow> date_error + unit" where
  "char_is s i c =
     (if i < length s then (if s ! i = c then Inr () else Inl InvalidArgument)
      else if i = length s then (if c = CHR 0x00 then Inr () else Inl InvalidArgument)
      else Inl Unguarded)"

text \<open>\<^verbatim>\<open>std::stoi\<close> on the few characters of a field: spaces, a sign, digits; the rest is ignored.\<close>

definition is_space :: "char \<Rightarrow> bool" where
  "is_space c \<longleftrightarrow> ch c = 32 \<or> 9 \<le> ch c \<and> ch c \<le> 13"

definition is_dec :: "char \<Rightarrow> bool" where
  "is_dec c \<longleftrightarrow> 48 \<le> ch c \<and> ch c \<le> 57"

fun dec_value :: "int \<Rightarrow> string \<Rightarrow> int" where
  "dec_value acc [] = acc"
| "dec_value acc (c # cs) = dec_value (acc * 10 + (int (ch c) - 48)) cs"

definition stoi :: "string \<Rightarrow> date_error + int" where
  "stoi s =
     (let s = dropWhile is_space s;
          neg = (s \<noteq> [] \<and> hd s = CHR ''-'');
          s = (if s \<noteq> [] \<and> (hd s = CHR ''-'' \<or> hd s = CHR ''+'') then tl s else s);
          ds = takeWhile is_dec s
      in if ds = [] then Inl InvalidArgument else Inr (if neg then - dec_value 0 ds else dec_value 0 ds))"

text \<open>One number field and the character behind it: range test first, as the source does.\<close>

definition num_field :: "string \<Rightarrow> nat \<Rightarrow> nat \<Rightarrow> int \<Rightarrow> int \<Rightarrow> char \<Rightarrow> date_error + int" where
  "num_field s pos n lo hi c =
     rbind (date_substr s pos n) (\<lambda>f. rbind (stoi f) (\<lambda>i.
       if i < lo \<or> hi < i then Inl InvalidArgument else rbind (char_is s (pos + n) c) (\<lambda>_. Inr i)))"

fun index_in :: "string list \<Rightarrow> string \<Rightarrow> nat \<Rightarrow> nat option" where
  "index_in [] s i = None"
| "index_in (x # xs) s i = (if x = s then Some i else index_in xs s (Suc i))"

definition name_field :: "string list \<Rightarrow> string \<Rightarrow> nat \<Rightarrow> date_error + int" where
  "name_field names s pos =
     rbind (date_substr s pos 3) (\<lambda>f. case index_in names f 0 of None \<Rightarrow> Inl InvalidArgument | Some i \<Rightarrow> Inr (int i))"

definition get_imf :: "string \<Rightarrow> datetime \<Rightarrow> date_error + datetime" where
  "get_imf str t =
     rbind (name_field days str 0) (\<lambda>i. let t = set_day_of_week i t in
     rbind (char_is str 3 CHR '','') (\<lambda>_.
     rbind (char_is str 4 CHR '' '') (\<lambda>_.
     rbind (num_field str 5 2 1 31 CHR '' '') (\<lambda>i. let t = set_day i t in
     rbind (name_field months str 8) (\<lambda>i. let t = set_month (i + 1) t in
     rbind (char_is str 11 CHR '' '') (\<lambda>_.
     rbind (num_field str 12 4 0 9999 CHR '' '') (\<lambda>i. let t = set_year i t in
     rbind (num_field str 17 2 0 23 CHR '':'') (\<lambda>i. let t = set_hour i t in
     rbind (num_field str 20 2 0 59 CHR '':'') (\<lambda>i. let t = set_minute i t in
     rbind (num_field str 23 2 0 59 CHR '' '') (\<lambda>i. let t = set_second i t in
     rbind (date_substr str 26 3) (\<lambda>s. if s \<noteq> ''GMT'' then Inl InvalidArgument else Inr t)))))))))))"

definition get_common :: "string \<Rightarrow> datetime \<Rightarrow> date_error + datetime" where
  "get_common str t =
     rbind (num_field str 0 4 0 9999 CHR ''/'') (\<lambda>i. let t = set_year i t in
     rbind (num_field str 5 2 1 12 CHR ''/'') (\<lambda>i. let t = set_month i t in
     rbind (num_field str 8 2 1 31 CHR '' '') (\<lambda>i. let t = set_day i t in
     rbind (num_field str 11 2 0 23 CHR '':'') (\<lambda>i. let t = set_hour i t in
     rbind (num_field str 14 2 0 59 CHR '':'') (\<lambda>i. let t = set_minute i t in
     rbind (num_field str 17 2 0 59 CHR ''.'') (\<lambda>i. let t = set_second i t in
     rbind (date_substr str 20 3) (\<lambda>f.
     rbind (stoi f) (\<lambda>i. if i < 0 \<or> i > 999 then Inl InvalidArgument else Inr (set_millisecond i t)))))))))"

text \<open>A date starts as the current time; fields the text does not give keep their current values.\<close>

definition datetime_get ::
  "(int \<Rightarrow> tm) \<Rightarrow> (tm \<Rightarrow> int \<times> tm) \<Rightarrow> int \<times> int \<Rightarrow> string \<Rightarrow> time_format \<Rightarrow> bool \<Rightarrow> date_error + datetime" where
  "datetime_get localtime mktime ts str fmt utc =
     (let t = datetime_now localtime ts (if fmt = Imf then True else utc)
      in rbind (if fmt = Imf then get_imf str t else get_common str t) (\<lambda>t. Inr (recalculate mktime t)))"

section \<open>The calendar and back\<close>

lemma leap_days: "seconds_in_year (is_leap_year y) = year_days y * 86400" "is_leap_year y \<longleftrightarrow> year_days y = 366"
proof -
  have "400 dvd y \<Longrightarrow> 100 dvd y" "100 dvd y \<Longrightarrow> 4 dvd y" by (auto elim: dvd_trans [rotated])
  moreover have "y smod k = 0 \<longleftrightarrow> k dvd y" for k by (auto simp: signed_modulo_int_def sgn_0_0 dvd_eq_mod_eq_0 [symmetric])
  ultimately show "is_leap_year y \<longleftrightarrow> year_days y = 366" by (auto simp: is_leap_year_def year_days_def)
  then show "seconds_in_year (is_leap_year y) = year_days y * 86400" by (auto simp: seconds_in_year_def seconds_in_day_def year_days_def)
qed

lemma gm_forward_years:
  "0 \<le> d \<Longrightarrow> gm_forward y d = (y', d') \<Longrightarrow> 0 \<le> d' \<and> d' < year_days y' \<and> y \<le> y' \<and> years_loop y y' acc = acc + (d - d') * 86400"
proof (induction y d arbitrary: acc rule: gm_forward.induct)
  case (1 y d)
  show ?case
  proof (cases "d < year_days y")
    case True
    then show ?thesis using 1(2,3) by (simp add: gm_forward.simps years_loop.simps)
  next
    case False
    then have "gm_forward (y + 1) (d - year_days y) = (y', d')" using 1(3) by (simp add: gm_forward.simps)
    from 1(1) [OF False _ this, of "acc + year_days y * 86400"] False have ih: "0 \<le> d'" "d' < year_days y'" "y + 1 \<le> y'"
      "years_loop (y + 1) y' (acc + year_days y * 86400) = acc + year_days y * 86400 + (d - year_days y - d') * 86400" by auto
    then show ?thesis by (subst years_loop.simps) (simp add: leap_days(1) algebra_simps)
  qed
qed

definition rest_days :: "int \<Rightarrow> nat \<Rightarrow> int" where
  "rest_days y m = sum_list (map (month_days y) [m..<12])"

lemma rest_days_year: "rest_days y 0 = year_days y"
  by (simp add: rest_days_def upt_rec month_days_def days_in_month_def year_days_def numeral_2_eq_2)

lemma gm_month_months:
  "m + n = 11 \<Longrightarrow> 0 \<le> d \<Longrightarrow> d < rest_days y m \<Longrightarrow> gm_month y m n d = (m', d') \<Longrightarrow>
   0 \<le> d' \<and> d' < month_days y m' \<and> m' \<le> 11 \<and> m \<le> m' \<and> months_loop m (int m') (is_leap_year y) acc = acc + (d - d') * 86400"
proof (induction n arbitrary: m d acc)
  case 0
  then show ?case by (simp add: rest_days_def upt_rec months_loop.simps)
next
  case (Suc n)
  show ?case
  proof (cases "d < month_days y m")
    case True
    then show ?thesis using Suc.prems by (simp add: months_loop.simps)
  next
    case False
    have r: "rest_days y m = month_days y m + rest_days y (Suc m)" using Suc.prems(1) by (simp add: rest_days_def upt_conv_Cons)
    have s: "seconds_in_month m (is_leap_year y) = month_days y m * 86400" by (simp add: seconds_in_month_def month_days_def leap_days seconds_in_day_def)
    from False Suc.prems Suc.IH [of "Suc m" "d - month_days y m" "acc + month_days y m * 86400"] r have ih:
      "0 \<le> d'" "d' < month_days y m'" "m' \<le> 11" "Suc m \<le> m'"
      "months_loop (Suc m) (int m') (is_leap_year y) (acc + month_days y m * 86400) = acc + month_days y m * 86400 + (d - month_days y m - d') * 86400"
      by auto
    then show ?thesis by (subst months_loop.simps) (simp add: s algebra_simps)
  qed
qed

text \<open>A date the calendar can give.\<close>

definition tm_ok :: "tm \<Rightarrow> bool" where
  "tm_ok t \<longleftrightarrow> 0 \<le> tm_mon t \<and> tm_mon t \<le> 11 \<and> 1 \<le> tm_mday t \<and> tm_mday t \<le> 31 \<and> 0 \<le> tm_hour t \<and> tm_hour t \<le> 23 \<and>
     0 \<le> tm_min t \<and> tm_min t \<le> 59 \<and> 0 \<le> tm_sec t \<and> tm_sec t \<le> 59 \<and> 0 \<le> tm_wday t \<and> tm_wday t \<le> 6 \<and>
     0 \<le> tm_year t + 1900 \<and> tm_year t + 1900 \<le> 9999"

lemma month_days_31: "m \<le> 11 \<Longrightarrow> month_days y m \<le> 31"
  by (auto simp: month_days_def days_in_month_def nth_Cons' le_Suc_eq numeral_eq_Suc)

lemma clock_fields:
  fixes s :: int
  assumes "0 \<le> s" "s < 86400"
  shows "s div 3600 * 3600 + (s mod 3600 div 60 * 60 + s mod 60) = s"
    "0 \<le> s div 3600" "s div 3600 \<le> 23" "0 \<le> s mod 3600 div 60" "s mod 3600 div 60 \<le> 59" "0 \<le> s mod 60" "s mod 60 \<le> 59"
proof -
  have "s mod 3600 div 60 * 60 + s mod 3600 mod 60 = s mod 3600" by simp
  moreover have "s mod 3600 mod 60 = s mod 60" by (rule mod_mod_cancel) simp
  moreover have "s div 3600 * 3600 + s mod 3600 = s" by simp
  ultimately show "s div 3600 * 3600 + (s mod 3600 div 60 * 60 + s mod 60) = s" by simp
  have r: "0 \<le> s mod 3600" "s mod 3600 \<le> 3599" by (simp_all flip: zless_imp_add1_zle)
  show "0 \<le> s div 3600" "0 \<le> s mod 3600 div 60" "0 \<le> s mod 60" using assms(1) by (simp_all add: pos_imp_zdiv_nonneg_iff)
  show "s div 3600 \<le> 23" using zdiv_mono1 [of s 86399 3600] assms(2) by simp
  show "s mod 3600 div 60 \<le> 59" using zdiv_mono1 [of "s mod 3600" 3599 60] r(2) by simp
  show "s mod 60 \<le> 59" using pos_mod_bound [of 60 s] by linarith
qed

lemma gmtime_epoch:
  assumes "0 \<le> e"
  shows "utc_epoch (gmtime e) = e"
    "1970 \<le> tm_year (gmtime e) + 1900" "tm_year (gmtime e) + 1900 \<le> 9999 \<Longrightarrow> tm_ok (gmtime e)"
proof -
  let ?d = "e div 86400" and ?s = "e mod 86400"
  have d: "0 \<le> ?d" using assms by (simp add: pos_imp_zdiv_nonneg_iff)
  have s: "0 \<le> ?s" "?s < 86400" by simp_all
  obtain y yd where y: "gm_forward 1970 ?d = (y, yd)" by force
  obtain m md where m: "gm_month y 0 11 yd = (m, md)" by force
  note fy = gm_forward_years [OF d y, of 0]
  have fm: "0 \<le> md \<and> md < month_days y m \<and> m \<le> 11 \<and> months_loop 0 (int m) (is_leap_year y) acc = acc + (yd - md) * 86400" for acc
    using gm_month_months [OF _ _ _ m, of acc] fy by (simp add: rest_days_year)
  have g: "gmtime e = \<lparr>tm_year = y - 1900, tm_mon = int m, tm_mday = md + 1, tm_hour = ?s div 3600, tm_min = ?s mod 3600 div 60, tm_sec = ?s mod 60,
          tm_wday = (?d + 4) mod 7\<rparr>" using d y m by (simp add: gmtime_def Let_def)
  note cl = clock_fields [OF s]
  have "utc_epoch (gmtime e) = (?d - yd) * 86400 + (yd - md) * 86400 + md * 86400 + (?s div 3600 * 3600 + (?s mod 3600 div 60 * 60 + ?s mod 60))"
    using fy fm by (simp add: g utc_epoch_def seconds_in_day_def seconds_in_hour_def seconds_in_minute_def)
  also have "\<dots> = ?d * 86400 + ?s" unfolding cl(1) by (simp add: left_diff_distrib)
  finally show "utc_epoch (gmtime e) = e" by simp
  show "1970 \<le> tm_year (gmtime e) + 1900" using fy unfolding g tm.simps by linarith
  have w: "0 \<le> (?d + 4) mod 7" "(?d + 4) mod 7 \<le> 6" using pos_mod_bound [of 7 "?d + 4"] pos_mod_sign [of 7 "?d + 4"] by linarith+
  have md: "0 \<le> md" "md + 1 \<le> 31" "m \<le> 11" using fm [of 0] month_days_31 [of m y] by auto
  have "1970 \<le> y" using fy by simp
  then show "tm_ok (gmtime e)" if "tm_year (gmtime e) + 1900 \<le> 9999"
    using that md cl(2-7) w unfolding g tm_ok_def tm.simps by (intro conjI) (assumption | linarith)+
qed

section \<open>Text and back\<close>

fun digits :: "nat \<Rightarrow> nat \<Rightarrow> string" where
  "digits 0 n = []"
| "digits (Suc w) n = digits w (n div 10) @ [mk (48 + n mod 10)]"

lemma length_digits [simp]: "length (digits w n) = w"
  by (induction w arbitrary: n) simp_all

lemma digits_0: "digits w 0 = replicate w CHR ''0''"
proof (induction w)
  case (Suc w)
  have "mk 48 = CHR ''0''" by code_simp
  with Suc show ?case by (simp add: replicate_append_same)
qed simp

lemma nat_str_pad: "n < 10 ^ w \<Longrightarrow> 0 < w \<Longrightarrow> length (nat_str n) \<le> w \<and> replicate (w - length (nat_str n)) CHR ''0'' @ nat_str n = digits w n"
proof (induction w arbitrary: n)
  case (Suc w)
  show ?case
  proof (cases "n < 10")
    case True
    then show ?thesis by (subst (1 2 3) nat_str.simps) (simp add: digits_0)
  next
    case False
    then have w: "0 < w" "n div 10 < 10 ^ w" using Suc.prems(1) by (auto simp: less_mult_imp_div_less mult.commute intro: gr0I)
    from Suc.IH [OF w(2,1)] False show ?thesis by (subst (1 2 3) nat_str.simps) simp
  qed
qed simp

lemma pad_digits: "0 \<le> i \<Longrightarrow> nat i < 10 ^ w \<Longrightarrow> 0 < w \<Longrightarrow> pad w i = digits w (nat i)"
  using nat_str_pad [of "nat i" w] by (simp add: pad_def int_str_def del: nat_str.simps)

lemma dec_value_append: "dec_value acc (xs @ ys) = dec_value (dec_value acc xs) ys"
  by (induction xs arbitrary: acc) simp_all

lemma dec_value_digits: "n < 10 ^ w \<Longrightarrow> dec_value 0 (digits w n) = int n"
proof (induction w arbitrary: n)
  case (Suc w)
  then have "n div 10 < 10 ^ w" by (simp add: less_mult_imp_div_less mult.commute)
  from Suc.IH [OF this] have "dec_value 0 (digits (Suc w) n) = int (n div 10) * 10 + int (n mod 10)"
    by (simp add: dec_value_append of_char_of)
  also have "\<dots> = int n" by (metis mult.commute of_nat_add of_nat_mult of_nat_numeral mult_div_mod_eq)
  finally show ?case .
qed simp

lemma digits_dec: "c \<in> set (digits w n) \<Longrightarrow> is_dec c"
  by (induction w arbitrary: n) (auto simp: is_dec_def of_char_of)

lemma stoi_digits: "n < 10 ^ w \<Longrightarrow> 0 < w \<Longrightarrow> stoi (digits w n) = Inr (int n)"
proof -
  assume n: "n < 10 ^ w" "0 < w"
  then obtain c cs where c: "digits w n = c # cs" by (metis length_digits length_greater_0_conv list.exhaust)
  then have d: "is_dec c" and t: "takeWhile is_dec cs = cs" using digits_dec [of _ w n] by (auto simp: takeWhile_eq_all_conv)
  from d have "\<not> is_space c" "c \<noteq> CHR ''-''" "c \<noteq> CHR ''+''" by (auto simp: is_dec_def is_space_def)
  then show ?thesis using d dec_value_digits [OF n(1)] by (simp add: stoi_def c t Let_def)
qed

text \<open>A field of the text.\<close>

lemma num_field_digits:
  assumes "take w (drop pos s) = digits w n" "pos + w < length s" "s ! (pos + w) = c" "n < 10 ^ w" "0 < w" "lo \<le> int n" "int n \<le> hi"
  shows "num_field s pos w lo hi c = Inr (int n)"
  using assms by (simp add: num_field_def date_substr_def stoi_digits char_is_def not_less)

lemma index_in_nth: "distinct xs \<Longrightarrow> k < length xs \<Longrightarrow> index_in xs (xs ! k) i = Some (i + k)"
proof (induction xs arbitrary: i k)
  case (Cons x xs)
  then show ?case by (cases k) auto
qed simp

lemma name_field_nth:
  assumes "distinct names" "k < length names" "take 3 (drop pos s) = names ! k" "pos \<le> length s"
  shows "name_field names s pos = Inr (int k)"
  using assms index_in_nth [OF assms(1,2), of 0] by (simp add: name_field_def date_substr_def)

lemma names_ok: "distinct days" "length days = 7" "distinct months" "length months = 12"
  "x \<in> set days \<Longrightarrow> length x = 3" "x \<in> set months \<Longrightarrow> length x = 3"
  by (auto simp: days_def months_def)

definition imf_text :: "nat \<Rightarrow> nat \<Rightarrow> nat \<Rightarrow> nat \<Rightarrow> nat \<Rightarrow> nat \<Rightarrow> nat \<Rightarrow> string" where
  "imf_text wd d m y h mi s = days ! wd @ '', '' @ digits 2 d @ '' '' @ months ! m @ '' '' @ digits 4 y @ '' '' @ digits 2 h @ '':'' @ digits 2 mi @ '':'' @
     digits 2 s @ '' GMT''"

lemma tm_ok_bounds:
  assumes "tm_ok t"
  shows "nat (tm_wday t) < 7" "nat (tm_mon t) < 12" "nat (tm_mday t) < 10 ^ 2" "nat (tm_year t + 1900) < 10 ^ 4" "nat (tm_hour t) < 10 ^ 2"
    "nat (tm_min t) < 10 ^ 2" "nat (tm_sec t) < 10 ^ 2"
  using assms by (auto simp: tm_ok_def)

lemma str_imf:
  assumes "tm_ok (m_tm t)"
  shows "datetime_str Imf t = Some (imf_text (nat (tm_wday (m_tm t))) (nat (tm_mday (m_tm t))) (nat (tm_mon (m_tm t))) (nat (tm_year (m_tm t) + 1900))
    (nat (tm_hour (m_tm t))) (nat (tm_min (m_tm t))) (nat (tm_sec (m_tm t))))"
  using assms tm_ok_bounds [OF assms]
  by (simp add: datetime_str_def imf_text_def name_at_def names_ok get_month_def get_year_def pad_digits tm_ok_def)

lemma parse_imf:
  assumes "wd < 7" "m < 12" "1 \<le> d" "d \<le> 31" "y \<le> 9999" "h \<le> 23" "mi \<le> 59" "s \<le> 59"
  shows "get_imf (imf_text wd d m y h mi s) t =
    Inr (t\<lparr>m_tm := \<lparr>tm_year = int y - 1900, tm_mon = int m, tm_mday = int d, tm_hour = int h, tm_min = int mi, tm_sec = int s, tm_wday = int wd\<rparr>,
      m_recalc := True\<rparr>)"
proof -
  let ?s = "imf_text wd d m y h mi s"
  have l: "length (days ! wd) = 3" "length (months ! m) = 3" using names_ok assms(1,2) by (simp_all add: names_ok)
  have len: "length ?s = 29" by (simp add: imf_text_def l)
  have "name_field days ?s 0 = Inr (int wd)"
    by (rule name_field_nth) (simp_all add: names_ok assms imf_text_def l)
  moreover have "name_field months ?s 8 = Inr (int m)"
    by (rule name_field_nth) (simp_all add: names_ok assms imf_text_def l)
  moreover have "char_is ?s 3 CHR '','' = Inr ()" "char_is ?s 4 CHR '' '' = Inr ()" "char_is ?s 11 CHR '' '' = Inr ()"
    by (simp_all add: char_is_def len) (simp_all add: imf_text_def nth_append l)
  moreover have "num_field ?s 5 2 1 31 CHR '' '' = Inr (int d)"
    by (rule num_field_digits; use assms in \<open>simp add: imf_text_def nth_append l\<close>)
  moreover have "num_field ?s 12 4 0 9999 CHR '' '' = Inr (int y)"
    by (rule num_field_digits; use assms in \<open>simp add: imf_text_def nth_append l\<close>)
  moreover have "num_field ?s 17 2 0 23 CHR '':'' = Inr (int h)"
    by (rule num_field_digits; use assms in \<open>simp add: imf_text_def nth_append l\<close>)
  moreover have "num_field ?s 20 2 0 59 CHR '':'' = Inr (int mi)"
    by (rule num_field_digits; use assms in \<open>simp add: imf_text_def nth_append l\<close>)
  moreover have "num_field ?s 23 2 0 59 CHR '' '' = Inr (int s)"
    by (rule num_field_digits; use assms in \<open>simp add: imf_text_def nth_append l\<close>)
  moreover have "date_substr ?s 26 3 = Inr ''GMT''" by (simp add: date_substr_def len) (simp add: imf_text_def l)
  ultimately show ?thesis
    by (simp add: get_imf_def Let_def set_day_of_week_def set_day_def set_month_def set_year_def set_hour_def set_minute_def set_second_def)
qed

section \<open>Properties\<close>

text \<open>
  The text of a point in time from 1970 to 9999, written the way HTTP dates are, is read back as the same
  point in time, whatever the clock says and whatever the time zone is, and prints as the same text again.
\<close>

lemma imf_date_roundtrip:
  assumes "0 \<le> e" "get_year (datetime_of localtime e Second True) \<le> 9999"
  shows "\<exists>s t. datetime_str Imf (datetime_of localtime e Second True) = Some s \<and> datetime_get localtime mktime now s Imf utc = Inr t \<and>
    datetime_epoch t Second = e \<and> datetime_str Imf t = Some s"
proof -
  let ?t = "datetime_of localtime e Second True"
  have g: "m_tm ?t = gmtime e" by (simp add: datetime_of_def)
  with assms(2) have ok: "tm_ok (m_tm ?t)" using gmtime_epoch(3) [OF assms(1)] by (simp add: get_year_def)
  note str = str_imf [OF this]
  let ?s = "the (datetime_str Imf ?t)"
  have b: "nat (tm_wday (m_tm ?t)) < 7" "nat (tm_mon (m_tm ?t)) < 12" "1 \<le> nat (tm_mday (m_tm ?t))" "nat (tm_mday (m_tm ?t)) \<le> 31"
    "nat (tm_year (m_tm ?t) + 1900) \<le> 9999" "nat (tm_hour (m_tm ?t)) \<le> 23" "nat (tm_min (m_tm ?t)) \<le> 59" "nat (tm_sec (m_tm ?t)) \<le> 59"
    using ok by (auto simp: tm_ok_def)
  have "get_imf ?s t = Inr (t\<lparr>m_tm := m_tm ?t, m_recalc := True\<rparr>)" for t
    using ok by (simp add: str parse_imf [OF b] tm_ok_def)
  then have get: "datetime_get localtime mktime now ?s Imf utc =
    Inr ((datetime_now localtime now True)\<lparr>m_tm := m_tm ?t, m_epoch := utc_epoch (m_tm ?t), m_recalc := False\<rparr>)" (is "_ = Inr ?r")
    by (simp add: datetime_get_def recalculate_def datetime_now_def)
  have "datetime_epoch ?r Second = e" using gmtime_epoch(1) [OF assms(1)] g by (simp add: datetime_epoch_def)
  moreover have "datetime_str Imf ?r = Some ?s" using str str_imf [of ?r] ok by simp
  ultimately show ?thesis using get str by (intro exI [of _ ?s] exI [of _ ?r]) simp
qed

lemma imf_date_roundtrip_sample:
  "\<exists>t. datetime_str Imf (datetime_of gmtime 784111777 Second True) = Some ''Sun, 06 Nov 1994 08:49:37 GMT'' \<and>
     datetime_get gmtime (\<lambda>t. (0, t)) (0, 0) ''Sun, 06 Nov 1994 08:49:37 GMT'' Imf False = Inr t \<and> datetime_epoch t Second = 784111777"
proof -
  have "datetime_str Imf (datetime_of gmtime 784111777 Second True) = Some ''Sun, 06 Nov 1994 08:49:37 GMT''" by code_simp
  moreover have "get_year (datetime_of gmtime 784111777 Second True) \<le> 9999" by code_simp
  ultimately show ?thesis using imf_date_roundtrip [of 784111777 gmtime "\<lambda>t. (0, t)" "(0, 0)" False] by auto
qed

text \<open>The loop over the years does nothing for a year before 1970, and a text that ends early is read behind its end.\<close>

lemma early_date_misread:
  "map_sum id (\<lambda>t. (get_year t, datetime_epoch t Second)) (datetime_get gmtime (\<lambda>t. (0, t)) (0, 0) ''Sun, 06 Nov 1960 08:49:37 GMT'' Imf False) =
   Inr (1960, 26815777)"
  by code_simp

lemma short_date_unguarded: "datetime_get gmtime (\<lambda>t. (0, t)) (0, 0) ''Sun, 6'' Imf False = Inl Unguarded"
  by code_simp

text \<open>The milliseconds of a date that was read are those of the clock.\<close>

lemma date_keeps_clock_msec:
  "map_sum id (\<lambda>t. datetime_epoch t Millisecond) (datetime_get gmtime (\<lambda>t. (0, t)) (0, 5000000) ''Sun, 06 Nov 1994 08:49:37 GMT'' Imf False) =
   Inr 784111777005"
  by code_simp

end
