(* ===== verification/Thread_Pool.thy ===== *)
theory Thread_Pool
  imports Prelude
begin

text \<open>
  The thread pool of libcom, \<^verbatim>\<open>libcom/include/thrdpool.h\<close>: workers take tasks from a queue that is guarded
  by one mutex. A step is what one thread does while it holds the mutex, or between two such pieces; a
  thread that waits may wake at any time and looks at the queue again.
\<close>

section \<open>The queue\<close>

record 'a sync_queue =
  sq_queue :: "'a list"
  sq_valid :: bool
  sq_waiting :: nat

definition new_queue :: "'a sync_queue" where
  "new_queue = \<lparr>sq_queue = [], sq_valid = True, sq_waiting = 0\<rparr>"

definition sq_empty :: "'a sync_queue \<Rightarrow> bool" where "sq_empty q \<longleftrightarrow> sq_queue q = []"

definition sq_size :: "'a sync_queue \<Rightarrow> nat" where "sq_size q = length (sq_queue q)"

definition sq_put :: "'a \<Rightarrow> 'a sync_queue \<Rightarrow> 'a sync_queue" where
  "sq_put x q = (if sq_valid q then q\<lparr>sq_queue := sq_queue q @ [x]\<rparr> else q)"

text \<open>\<open>get\<close> before the wait, the test of the wait, and after it: the element, or none for the result false.\<close>

definition sq_enter :: "'a sync_queue \<Rightarrow> 'a sync_queue" where
  "sq_enter q = q\<lparr>sq_waiting := sq_waiting q + 1\<rparr>"

definition sq_ready :: "'a sync_queue \<Rightarrow> bool" where
  "sq_ready q \<longleftrightarrow> \<not> (sq_valid q \<and> sq_queue q = [])"

definition sq_leave :: "'a sync_queue \<Rightarrow> 'a sync_queue \<times> 'a option" where
  "sq_leave q =
     (let q = q\<lparr>sq_waiting := sq_waiting q - 1\<rparr>
      in if sq_valid q \<and> sq_queue q \<noteq> [] then (q\<lparr>sq_queue := tl (sq_queue q)\<rparr>, Some (hd (sq_queue q))) else (q, None))"

definition sq_invalidate :: "'a sync_queue \<Rightarrow> 'a sync_queue" where
  "sq_invalidate q = q\<lparr>sq_valid := False, sq_queue := []\<rparr>"

section \<open>The pool\<close>

datatype 'a worker = Looping | Waiting | Running 'a | Ended

datatype stopper = NotStopped | Stopping | Joining

text \<open>\<open>p_accepted\<close> and \<open>p_taken\<close> record the tasks put into the queue and those taken from it.\<close>

record 'a pool =
  p_done :: bool
  p_queue :: "'a sync_queue"
  p_threads :: "'a worker list"
  p_stopper :: stopper
  p_accepted :: "'a list"
  p_taken :: "'a list"

definition pool_start :: "nat \<Rightarrow> 'a pool" where
  "pool_start n = \<lparr>p_done = False, p_queue = new_queue, p_threads = replicate n Looping, p_stopper = NotStopped, p_accepted = [], p_taken = []\<rparr>"

text \<open>The number of threads of the default constructor: \<^verbatim>\<open>hc\<close> is unsigned, so that one is taken off before the test.\<close>

definition default_threads :: "64 word \<Rightarrow> 64 word" where
  "default_threads hc = (let hc = hc - 1 in if hc \<le> 0 then 1 else hc)"

definition submit :: "'a \<Rightarrow> 'a pool \<Rightarrow> 'a pool" where
  "submit x p = p\<lparr>p_queue := sq_put x (p_queue p), p_accepted := (if sq_valid (p_queue p) then p_accepted p @ [x] else p_accepted p)\<rparr>"

definition set_worker :: "nat \<Rightarrow> 'a worker \<Rightarrow> 'a pool \<Rightarrow> 'a pool" where
  "set_worker t w p = p\<lparr>p_threads := (p_threads p)[t := w]\<rparr>"

definition worker_leave :: "nat \<Rightarrow> 'a pool \<Rightarrow> 'a pool" where
  "worker_leave t p =
     (case sq_leave (p_queue p) of
        (q, None) \<Rightarrow> set_worker t Looping (p\<lparr>p_queue := q\<rparr>)
      | (q, Some x) \<Rightarrow> set_worker t (Running x) (p\<lparr>p_queue := q, p_taken := p_taken p @ [x]\<rparr>))"

inductive worker_step :: "'a pool \<Rightarrow> 'a pool \<Rightarrow> bool" where
  loop_end: "t < length (p_threads p) \<Longrightarrow> p_threads p ! t = Looping \<Longrightarrow> p_done p \<Longrightarrow> worker_step p (set_worker t Ended p)"
| loop_get: "t < length (p_threads p) \<Longrightarrow> p_threads p ! t = Looping \<Longrightarrow> \<not> p_done p \<Longrightarrow>
    worker_step p (set_worker t Waiting (p\<lparr>p_queue := sq_enter (p_queue p)\<rparr>))"
| wake: "t < length (p_threads p) \<Longrightarrow> p_threads p ! t = Waiting \<Longrightarrow> sq_ready (p_queue p) \<Longrightarrow> worker_step p (worker_leave t p)"
| run: "t < length (p_threads p) \<Longrightarrow> p_threads p ! t = Running x \<Longrightarrow> worker_step p (set_worker t Looping p)"

inductive pool_step :: "'a pool \<Rightarrow> 'a pool \<Rightarrow> bool" where
  worker: "worker_step p p' \<Longrightarrow> pool_step p p'"
| submitted: "pool_step p (submit x p)"
| stop_done: "\<not> p_done p \<Longrightarrow> pool_step p (p\<lparr>p_done := True, p_stopper := Stopping\<rparr>)"
| stop_invalidate: "p_stopper p = Stopping \<Longrightarrow> pool_step p (p\<lparr>p_queue := sq_invalidate (p_queue p), p_stopper := Joining\<rparr>)"

inductive reachable :: "nat \<Rightarrow> 'a pool \<Rightarrow> bool" for n where
  init: "reachable n (pool_start n)"
| step: "reachable n p \<Longrightarrow> pool_step p p' \<Longrightarrow> reachable n p'"

section \<open>The invariant\<close>

definition waiting_count :: "'a worker list \<Rightarrow> nat" where
  "waiting_count ws = length (filter (\<lambda>w. w = Waiting) ws)"

definition pool_ok :: "'a pool \<Rightarrow> bool" where
  "pool_ok p \<longleftrightarrow>
     sq_waiting (p_queue p) = waiting_count (p_threads p) \<and>
     (if sq_valid (p_queue p) then p_accepted p = p_taken p @ sq_queue (p_queue p)
      else sq_queue (p_queue p) = [] \<and> prefix (p_taken p) (p_accepted p)) \<and>
     (p_done p \<longleftrightarrow> p_stopper p \<noteq> NotStopped) \<and> (sq_valid (p_queue p) \<longleftrightarrow> p_stopper p \<noteq> Joining)"

lemma waiting_count_upd:
  assumes "t < length ws"
  shows "waiting_count (ws[t := w]) + (if ws ! t = Waiting then 1 else 0) = waiting_count ws + (if w = Waiting then 1 else 0)"
proof -
  obtain us a vs where "ws = us @ a # vs" "length us = t" using assms id_take_nth_drop [of t ws] by (metis length_take min.absorb4)
  then show ?thesis by (auto simp: waiting_count_def)
qed

lemma worker_step_ok: "worker_step p p' \<Longrightarrow> pool_ok p \<Longrightarrow> pool_ok p'"
proof (induction rule: worker_step.induct)
  case (loop_end t p)
  then show ?case using waiting_count_upd [of t "p_threads p" Ended] by (auto simp: pool_ok_def set_worker_def)
next
  case (loop_get t p)
  then show ?case using waiting_count_upd [of t "p_threads p" Waiting] by (auto simp: pool_ok_def set_worker_def sq_enter_def)
next
  case (wake t p)
  then show ?case using waiting_count_upd [of t "p_threads p" Looping] waiting_count_upd [of t "p_threads p" "Running (hd (sq_queue (p_queue p)))"]
    by (auto simp: pool_ok_def worker_leave_def set_worker_def sq_leave_def sq_ready_def Let_def split: if_splits)
next
  case (run t p x)
  then show ?case using waiting_count_upd [of t "p_threads p" Looping] by (auto simp: pool_ok_def set_worker_def)
qed

lemma reachable_ok: "reachable n p \<Longrightarrow> pool_ok p \<and> length (p_threads p) = n"
proof (induction rule: reachable.induct)
  case init
  show ?case by (auto simp: pool_ok_def pool_start_def new_queue_def waiting_count_def)
next
  case (step p p')
  from step.hyps(2) step.IH show ?case
  proof (cases rule: pool_step.cases)
    case worker
    moreover from worker have "length (p_threads p') = length (p_threads p)"
      by (cases rule: worker_step.cases) (auto simp: set_worker_def worker_leave_def split: prod.splits option.splits)
    ultimately show ?thesis using step.IH worker_step_ok by auto
  qed (auto simp: pool_ok_def submit_def sq_put_def sq_invalidate_def split: if_splits intro: prefixI)
qed

section \<open>Stopping\<close>

definition work_left :: "'a pool \<Rightarrow> nat" where
  "work_left p = sum_list (map (\<lambda>w. case w of Ended \<Rightarrow> 0 | Looping \<Rightarrow> 1 | _ \<Rightarrow> 2) (p_threads p))"

lemma sum_list_upd_less:
  fixes f :: "'b \<Rightarrow> nat"
  assumes "t < length ws" "f w < f (ws ! t)"
  shows "sum_list (map f (ws[t := w])) < sum_list (map f ws)"
proof -
  obtain us a vs where "ws = us @ a # vs" "length us = t" using assms(1) id_take_nth_drop [of t ws] by (metis length_take min.absorb4)
  then show ?thesis using assms(2) by auto
qed

lemma work_left_bound: "work_left p \<le> 2 * length (p_threads p)"
proof -
  have "sum_list (map (\<lambda>w. case w of Ended \<Rightarrow> 0 | Looping \<Rightarrow> 1 | _ \<Rightarrow> 2) ws) \<le> 2 * length ws" for ws :: "'a worker list"
    by (induction ws) (auto split: worker.splits)
  then show ?thesis by (simp add: work_left_def)
qed

definition joining :: "'a pool \<Rightarrow> bool" where
  "joining p \<longleftrightarrow> p_done p \<and> \<not> sq_valid (p_queue p)"

lemma joining_step: "worker_step p p' \<Longrightarrow> joining p \<Longrightarrow> joining p' \<and> work_left p' < work_left p"
proof (induction rule: worker_step.induct)
  case (loop_end t p)
  then show ?case using sum_list_upd_less [of t "p_threads p"] by (simp add: joining_def set_worker_def work_left_def)
next
  case (loop_get t p)
  then show ?case by (simp add: joining_def)
next
  case (wake t p)
  then show ?case using sum_list_upd_less [of t "p_threads p"] by (simp add: joining_def set_worker_def work_left_def worker_leave_def sq_leave_def)
next
  case (run t p x)
  then show ?case using sum_list_upd_less [of t "p_threads p"] by (simp add: joining_def set_worker_def work_left_def)
qed

lemma joining_steps: "(worker_step ^^ k) p p' \<Longrightarrow> joining p \<Longrightarrow> joining p' \<and> work_left p' + k \<le> work_left p"
proof (induction k arbitrary: p')
  case (Suc k)
  then obtain q where "(worker_step ^^ k) p q" "worker_step q p'" by auto
  with Suc.IH [of q] Suc.prems(2) joining_step [of q p'] show ?case by auto
qed simp

lemma joining_moves:
  assumes "joining p" "\<not> list_all (\<lambda>w. w = Ended) (p_threads p)"
  shows "\<exists>p'. worker_step p p'"
proof -
  from assms(2) obtain t where t: "t < length (p_threads p)" "p_threads p ! t \<noteq> Ended" by (auto simp: list_all_length)
  then show ?thesis using assms(1) worker_step.intros [of t p] by (cases "p_threads p ! t") (auto simp: joining_def sq_ready_def)
qed





text \<open>With no information on the hardware the default constructor starts as many threads as a word can count.\<close>

lemma default_threads_wraps: "default_threads 0 = - 1" "default_threads 8 = 7" "default_threads 1 = 1"
  by (simp_all add: default_threads_def)

end
