(* ===== verification/Config_File.thy ===== *)
theory Config_File
  imports Text_Format
begin

text \<open>
  Configuration files of libcom, \<^verbatim>\<open>libcom/src/config.cpp\<close>: lines of a key, an optional equals sign and a value.
  The stream throws on the end of the file, so a line counts only when a newline ends it.
\<close>

section \<open>The code\<close>

definition conf_space :: "char \<Rightarrow> bool" where
  "conf_space c \<longleftrightarrow> ch c = 32 \<or> 9 \<le> ch c \<and> ch c \<le> 13"

definition newline :: char where "newline = CHR 0x0A"

text \<open>One line in the buffer: it ends at its first zero byte, as C strings do.\<close>

definition c_string :: "string \<Rightarrow> string" where
  "c_string s = takeWhile (\<lambda>c. c \<noteq> CHR 0x00) s"

definition trim_line :: "string \<Rightarrow> string" where
  "trim_line s = dropWhile conf_space (rev (dropWhile conf_space (rev s)))"

definition config_line :: "string \<Rightarrow> (string \<times> string) option" where
  "config_line buf =
     (let ptr = trim_line (c_string buf)
      in if ptr = [] \<or> hd ptr = CHR ''#'' then None
         else
           let k = takeWhile (\<lambda>c. c \<noteq> CHR ''='' \<and> \<not> conf_space c) ptr;
               ptr = dropWhile (\<lambda>c. c \<noteq> CHR ''='' \<and> \<not> conf_space c) ptr
           in if k = [] then None
              else
                let ptr = dropWhile conf_space ptr;
                    ptr = (if ptr \<noteq> [] \<and> hd ptr = CHR ''='' then tl ptr else ptr);
                    ptr = dropWhile conf_space ptr
                in Some (k, if ptr = [] then ''true'' else ptr))"

text \<open>\<^verbatim>\<open>m_kvmap.insert\<close> keeps the first value of a key.\<close>

definition kv_insert :: "string \<times> string \<Rightarrow> (string \<rightharpoonup> string) \<Rightarrow> string \<rightharpoonup> string" where
  "kv_insert kv m = (if m (fst kv) = None then m(fst kv \<mapsto> snd kv) else m)"

definition BUF_SIZE :: nat where "BUF_SIZE = 8192"

text \<open>
  The loop over the rest of the file. \<^verbatim>\<open>getline\<close> fails on a line that does not fit the buffer, and the
  exception leaves the constructor; at the end of the file the exception ends the loop.
\<close>

function config_read :: "string \<Rightarrow> (string \<rightharpoonup> string) \<Rightarrow> (string \<rightharpoonup> string) option" where
  "config_read input m =
     (let line = takeWhile (\<lambda>c. c \<noteq> newline) input; rest = dropWhile (\<lambda>c. c \<noteq> newline) input
      in if BUF_SIZE - 1 < length line then None
         else if rest = [] then Some m
         else config_read (tl rest) (case config_line line of None \<Rightarrow> m | Some kv \<Rightarrow> kv_insert kv m))"
  by pat_completeness auto

termination config_read
proof (relation "measure (\<lambda>(s, _). length s)")
  fix input :: string and m :: "string \<rightharpoonup> string" and line rest
  assume "rest = dropWhile (\<lambda>c. c \<noteq> newline) input" "rest \<noteq> []"
  then show "((tl rest, case config_line line of None \<Rightarrow> m | Some kv \<Rightarrow> kv_insert kv m), input, m) \<in> measure (\<lambda>(s, _). length s)"
  proof -
    have "length rest \<le> length input" using \<open>rest = _\<close> length_dropWhile_le by metis
    moreover have "length (tl rest) < length rest" using \<open>rest \<noteq> []\<close> by simp
    ultimately show ?thesis by (simp only: measure_def inv_image_def mem_Collect_eq case_prod_conv in_measure less_than_iff)
  qed
qed simp

declare config_read.simps [simp del]

definition config_open :: "string option \<Rightarrow> (string \<rightharpoonup> string) option" where
  "config_open file = (case file of None \<Rightarrow> None | Some s \<Rightarrow> config_read s Map.empty)"

definition config_get :: "(string \<rightharpoonup> string) \<Rightarrow> string \<Rightarrow> string option" where
  "config_get m key = m key"

definition config_get_default :: "(string \<rightharpoonup> string) \<Rightarrow> string \<Rightarrow> string \<Rightarrow> string" where
  "config_get_default m key d = (case m key of None \<Rightarrow> d | Some v \<Rightarrow> v)"

section \<open>What a written file is read as\<close>

definition key_ok :: "string \<Rightarrow> bool" where
  "key_ok k \<longleftrightarrow> k \<noteq> [] \<and> hd k \<noteq> CHR ''#'' \<and> list_all (\<lambda>c. c \<noteq> CHR ''='' \<and> \<not> conf_space c \<and> c \<noteq> CHR 0x00) k"

definition value_text :: "string \<Rightarrow> bool" where
  "value_text v \<longleftrightarrow> v \<noteq> [] \<and> \<not> conf_space (hd v) \<and> \<not> conf_space (last v) \<and> list_all (\<lambda>c. c \<noteq> newline \<and> c \<noteq> CHR 0x00) v"

definition entry_ok :: "string \<times> string \<Rightarrow> bool" where
  "entry_ok kv \<longleftrightarrow> key_ok (fst kv) \<and> value_text (snd kv) \<and> length (fst kv) + length (snd kv) + 3 < BUF_SIZE"

definition entry_str :: "string \<times> string \<Rightarrow> string" where
  "entry_str kv = fst kv @ '' = '' @ snd kv"

lemma space_chars: "conf_space newline" "conf_space CHR '' ''" "\<not> conf_space CHR ''=''" "CHR '' '' \<noteq> CHR 0x00" "CHR '' '' \<noteq> newline" "CHR ''='' \<noteq> newline"
  by (simp_all add: conf_space_def newline_def)

lemma dropWhile_hd: "xs \<noteq> [] \<Longrightarrow> \<not> P (hd xs) \<Longrightarrow> dropWhile P (xs @ ys) = xs @ ys"
  by (cases xs) auto

lemma config_line_entry:
  assumes "entry_ok kv"
  shows "config_line (entry_str kv) = Some kv"
proof -
  obtain k v where kv: "kv = (k, v)" by (cases kv)
  from assms have k: "k \<noteq> []" "hd k \<noteq> CHR ''#''" "\<And>c. c \<in> set k \<Longrightarrow> c \<noteq> CHR ''='' \<and> \<not> conf_space c \<and> c \<noteq> CHR 0x00"
    and v: "v \<noteq> []" "\<not> conf_space (hd v)" "\<not> conf_space (last v)" "\<And>c. c \<in> set v \<Longrightarrow> c \<noteq> CHR 0x00"
    by (auto simp: entry_ok_def key_ok_def value_text_def kv list_all_iff)
  let ?s = "k @ '' = '' @ v"
  have "\<forall>c\<in>set k. c \<noteq> CHR 0x00" "\<forall>c\<in>set v. c \<noteq> CHR 0x00" using k(3) v(4) by blast+
  then have "takeWhile (\<lambda>c. c \<noteq> CHR 0x00) ?s = ?s" unfolding takeWhile_eq_all_conv by (simp add: ball_Un)
  then have c: "c_string ?s = ?s" by (simp add: c_string_def)
  have "hd (rev v) = last v" "rev v \<noteq> []" using v(1) by (simp_all add: hd_rev)
  then have "dropWhile conf_space (rev ?s) = rev ?s" using dropWhile_hd [of "rev v" conf_space] v(3) by simp
  moreover have "dropWhile conf_space ?s = ?s" by (rule dropWhile_hd [OF k(1)]) (use k(3) [OF hd_in_set [OF k(1)]] in blast)
  ultimately have t: "trim_line ?s = ?s" by (simp add: trim_line_def)
  let ?P = "\<lambda>c. c \<noteq> CHR ''='' \<and> \<not> conf_space c"
  have kp: "\<And>c. c \<in> set k \<Longrightarrow> ?P c" using k(3) by blast
  have "takeWhile ?P (k @ ys) = k @ takeWhile ?P ys" "dropWhile ?P (k @ ys) = dropWhile ?P ys" for ys
    by (rule takeWhile_append2, erule kp) (rule dropWhile_append2, erule kp)
  then have tw: "takeWhile ?P ?s = k" "dropWhile ?P ?s = '' = '' @ v" by (simp_all add: space_chars(2))
  have "dropWhile conf_space v = v" using dropWhile_hd [of v conf_space "[]"] v(1,2) by simp
  moreover have "hd ?s = hd k" using k(1) by simp
  ultimately show ?thesis
    using k(1,2) v(1) unfolding config_line_def entry_str_def kv fst_conv snd_conv Let_def c t tw by (simp add: space_chars(2,3))
qed

lemma config_read_entries:
  "list_all entry_ok kvs \<Longrightarrow> config_read (concat (map (\<lambda>kv. entry_str kv @ [newline]) kvs) @ tail) m = config_read tail (fold kv_insert kvs m)"
proof (induction kvs arbitrary: m)
  case (Cons kv kvs)
  let ?rest = "concat (map (\<lambda>kv. entry_str kv @ [newline]) kvs) @ tail"
  have ok: "entry_ok kv" using Cons.prems by simp
  then have n: "c \<noteq> newline" if "c \<in> set (entry_str kv)" for c
  proof -
    from that consider "c \<in> set (fst kv)" | "c \<in> set (snd kv)" | "c \<in> set '' = ''" by (auto simp: entry_str_def)
    then show ?thesis
    proof cases
      case 1
      then have "\<not> conf_space c" using ok by (simp add: entry_ok_def key_ok_def list_all_iff)
      then show ?thesis using space_chars(1) by blast
    next
      case 2
      then show ?thesis using ok by (simp add: entry_ok_def value_text_def list_all_iff)
    next
      case 3
      then show ?thesis using space_chars(5,6) by auto
    qed
  qed
  have tw: "takeWhile (\<lambda>c. c \<noteq> newline) (entry_str kv @ ys) = entry_str kv @ takeWhile (\<lambda>c. c \<noteq> newline) ys"
    "dropWhile (\<lambda>c. c \<noteq> newline) (entry_str kv @ ys) = dropWhile (\<lambda>c. c \<noteq> newline) ys" for ys
    by (rule takeWhile_append2, erule n) (rule dropWhile_append2, erule n)
  have "\<not> BUF_SIZE - 1 < length (entry_str kv)" using ok by (auto simp: entry_str_def entry_ok_def)
  then have "config_read (entry_str kv @ newline # ?rest) m = config_read ?rest (kv_insert kv m)"
    by (subst config_read.simps) (simp add: Let_def tw config_line_entry [OF ok])
  then show ?case using Cons.IH [of "kv_insert kv m"] Cons.prems by simp
qed simp

lemma fold_kv_insert: "fold kv_insert kvs m k = (case m k of Some v \<Rightarrow> Some v | None \<Rightarrow> map_of kvs k)"
  by (induction kvs arbitrary: m) (auto simp: kv_insert_def split: option.splits)

text \<open>
  C40: a file of lines \<open>key = value\<close>, each ended by a newline, is read as the map of its entries, where the first
  entry of a key counts; and the text behind the last newline is not part of the configuration.
\<close>

theorem config_file_read:
  assumes "list_all entry_ok kvs" "newline \<notin> set tail" "length tail < BUF_SIZE"
  shows "\<exists>m. config_open (Some (concat (map (\<lambda>kv. entry_str kv @ [newline]) kvs) @ tail)) = Some m \<and>
    (\<forall>k. config_get m k = map_of kvs k) \<and> (\<forall>k d. config_get_default m k d = (case map_of kvs k of None \<Rightarrow> d | Some v \<Rightarrow> v))"
proof -
  have t: "takeWhile (\<lambda>c. c \<noteq> newline) tail = tail" "dropWhile (\<lambda>c. c \<noteq> newline) tail = []"
    using assms(2) by (auto simp: takeWhile_eq_all_conv dropWhile_eq_Nil_conv)
  have "\<not> BUF_SIZE - 1 < length tail" using assms(3) by linarith
  then have "config_read tail m = Some m" for m by (subst config_read.simps) (simp only: Let_def t if_False if_True simp_thms)
  then show ?thesis
    by (simp add: config_open_def config_read_entries [OF assms(1)] config_get_def config_get_default_def fold_kv_insert)
qed

theorem config_file_read_witness:
  "\<exists>m. config_open (Some (''a = 1'' @ [newline] @ ''a = 2'' @ [newline] @ ''b = 3'')) = Some m \<and> config_get m ''a'' = Some ''1'' \<and> config_get m ''b'' = None"
proof -
  have "list_all entry_ok [(''a'', ''1''), (''a'', ''2'')]" by code_simp
  moreover have "newline \<notin> set ''b = 3''" "length ''b = 3'' < BUF_SIZE" by (simp_all add: newline_def BUF_SIZE_def)
  ultimately show ?thesis using config_file_read [of "[(''a'', ''1''), (''a'', ''2'')]" "''b = 3''"] by (auto simp: entry_str_def)
qed


end
