(* ===== verification/Command_Line.thy ===== *)
theory Command_Line
  imports Text_Format
begin

text \<open>
  Command lines of libcom, \<^verbatim>\<open>libcom/include/clap.h\<close> and \<^verbatim>\<open>libcom/src/clap.cpp\<close>: a command with options and
  subcommands that takes its part of the arguments. The help texts are output only and left out;
  \<^verbatim>\<open>std::stod\<close> is an argument.
\<close>

section \<open>Data\<close>

datatype cl_opt_type = T_none | T_bool | T_int | T_real | T_string | T_sequence

datatype 'r cl_opt_arg = NoArg | BoolArg bool | IntArg int | RealArg 'r | StringArg string | SequenceArg "string list"

record 'r cl_opt =
  op_name :: string
  op_longname :: string
  op_desc :: string
  op_required :: bool
  op_type :: cl_opt_type
  op_arg :: "'r cl_opt_arg"

definition opt_found :: "'r cl_opt \<Rightarrow> bool" where
  "opt_found opt \<longleftrightarrow> op_arg opt \<noteq> NoArg"

datatype 'r command =
  Command (c_name: string) (c_desc: string) (c_options: "'r cl_opt list") (c_subcmds: "'r command list") (c_found: bool)

text \<open>What ends the program: a conversion throws, or a string is made of the null pointer behind the last argument.\<close>

datatype clap_error = Conversion | NullArgument

section \<open>Conversions\<close>

definition cl_upper :: "char \<Rightarrow> char" where
  "cl_upper c = (if 97 \<le> ch c \<and> ch c \<le> 122 then mk (ch c - 32) else c)"

definition streq :: "string \<Rightarrow> string \<Rightarrow> bool" where
  "streq s1 s2 \<longleftrightarrow> map cl_upper s1 = map cl_upper s2"

definition digit_val :: "char \<Rightarrow> nat" where
  "digit_val c =
     (if 48 \<le> ch c \<and> ch c \<le> 57 then ch c - 48
      else if 97 \<le> ch c \<and> ch c \<le> 102 then ch c - 87
      else if 65 \<le> ch c \<and> ch c \<le> 70 then ch c - 55
      else 99)"

fun radix_value :: "nat \<Rightarrow> nat \<Rightarrow> string \<Rightarrow> nat" where
  "radix_value b acc [] = acc"
| "radix_value b acc (c # cs) = (if digit_val c < b then radix_value b (acc * b + digit_val c) cs else acc)"

text \<open>\<^verbatim>\<open>std::stoll\<close> with base 0: the prefix gives the base.\<close>

definition stoll_base0 :: "string \<Rightarrow> int option" where
  "stoll_base0 s =
     (let s = dropWhile (\<lambda>c. ch c = 32 \<or> 9 \<le> ch c \<and> ch c \<le> 13) s;
          neg = (s \<noteq> [] \<and> hd s = CHR ''-'');
          s = (if s \<noteq> [] \<and> (hd s = CHR ''-'' \<or> hd s = CHR ''+'') then tl s else s);
          hex = (length s \<ge> 3 \<and> hd s = CHR ''0'' \<and> cl_upper (s ! 1) = CHR ''X'' \<and> digit_val (s ! 2) < 16);
          b = (if hex then 16 else if s \<noteq> [] \<and> hd s = CHR ''0'' then 8 else 10);
          s = (if hex then drop 2 s else s)
      in if s = [] \<or> digit_val (hd s) \<ge> b then None
         else
           let n = (if neg then - int (radix_value b 0 s) else int (radix_value b 0 s))
           in if - (2 ^ 63) \<le> n \<and> n < 2 ^ 63 then Some n else None)"

text \<open>The pieces between commas, without the empty ones.\<close>

fun comma_loop :: "string \<Rightarrow> string \<Rightarrow> string list" where
  "comma_loop [] s = (if s \<noteq> [] then [s] else [])"
| "comma_loop (c # cs) s = (if c = CHR '','' then (if s \<noteq> [] then s # comma_loop cs [] else comma_loop cs []) else comma_loop cs (s @ [c]))"

section \<open>Options\<close>

definition arg_at :: "string list \<Rightarrow> nat \<Rightarrow> string option" where
  "arg_at argv i = (if i < length argv then Some (argv ! i) else None)"

text \<open>An option takes its value from the next argument; no result means that this is missing.\<close>

definition take_value :: "(string \<Rightarrow> 'r option) \<Rightarrow> string list \<Rightarrow> nat \<Rightarrow> 'r cl_opt \<Rightarrow> clap_error + ('r cl_opt \<times> nat) option" where
  "take_value stod argv idx opt =
     (case op_type opt of
        T_none \<Rightarrow> Inr (Some (opt, idx))
      | T_bool \<Rightarrow> Inr (Some (opt\<lparr>op_arg := BoolArg True\<rparr>, idx))
      | t \<Rightarrow>
          (case arg_at argv (idx + 1) of
             None \<Rightarrow> Inr None
           | Some s \<Rightarrow>
               (case t of
                  T_int \<Rightarrow> (case stoll_base0 s of None \<Rightarrow> Inl Conversion | Some n \<Rightarrow> Inr (Some (opt\<lparr>op_arg := IntArg n\<rparr>, idx + 1)))
                | T_real \<Rightarrow> (case stod s of None \<Rightarrow> Inl Conversion | Some x \<Rightarrow> Inr (Some (opt\<lparr>op_arg := RealArg x\<rparr>, idx + 1)))
                | T_string \<Rightarrow> Inr (Some (opt\<lparr>op_arg := StringArg s\<rparr>, idx + 1))
                | _ \<Rightarrow> Inr (Some (opt\<lparr>op_arg := SequenceArg (comma_loop s [])\<rparr>, idx + 1)))))"

text \<open>
  The loop over the options for one argument. It goes on after an option that fits, with the index
  where that option left it, and gives up at the first option that does not fit.
\<close>

fun opts_loop :: "(string \<Rightarrow> 'r option) \<Rightarrow> string list \<Rightarrow> nat \<Rightarrow> 'r cl_opt list \<Rightarrow> clap_error + (bool \<times> nat \<times> 'r cl_opt list)" where
  "opts_loop stod argv idx [] = Inr (True, idx, [])"
| "opts_loop stod argv idx (opt # opts) =
     (case arg_at argv idx of
        None \<Rightarrow> Inl NullArgument
      | Some s \<Rightarrow>
          if streq (op_name opt) s \<or> streq (op_longname opt) s then
            rbind (take_value stod argv idx opt) (\<lambda>r.
              case r of
                None \<Rightarrow> Inr (False, idx, opt # opts)
              | Some (opt, idx) \<Rightarrow>
                  rbind (opts_loop stod argv idx opts) (\<lambda>(ok, idx, opts). Inr (ok, idx, opt # opts)))
          else Inr (False, idx, opt # opts))"

lemma take_value_idx: "take_value stod argv idx opt = Inr (Some (opt', idx')) \<Longrightarrow> idx' = idx \<or> idx' = idx + 1"
  by (auto simp: take_value_def split: cl_opt_type.splits option.splits)

lemma opts_loop_idx: "opts_loop stod argv idx opts = Inr (ok, idx', opts') \<Longrightarrow> idx \<le> idx'"
proof (induction opts arbitrary: idx ok idx' opts')
  case (Cons opt opts)
  then show ?case
    by (fastforce simp: rbind_Inr split: option.splits if_splits prod.splits dest: take_value_idx)
qed simp

definition required_found :: "'r cl_opt list \<Rightarrow> bool" where
  "required_found opts \<longleftrightarrow> list_all (\<lambda>opt. op_required opt \<longrightarrow> opt_found opt) opts"

definition is_option :: "string \<Rightarrow> bool" where
  "is_option s \<longleftrightarrow> s \<noteq> [] \<and> hd s = CHR ''-''"

function parse_args :: "(string \<Rightarrow> 'r option) \<Rightarrow> string list \<Rightarrow> nat \<Rightarrow> 'r cl_opt list \<Rightarrow> clap_error + (bool \<times> nat \<times> 'r cl_opt list)" where
  "parse_args stod argv idx opts =
     (if idx < length argv \<and> is_option (argv ! idx) then
        if opts = [] then Inr (False, idx, opts)
        else case opts_loop stod argv idx opts of
          Inl e \<Rightarrow> Inl e
        | Inr (ok, idx', opts') \<Rightarrow> if ok then parse_args stod argv (idx' + 1) opts' else Inr (False, idx', opts')
      else Inr (required_found opts, idx, opts))"
  by pat_completeness auto

termination parse_args
  by (relation "measure (\<lambda>(_, argv, idx, _). length argv - idx)") (auto dest!: opts_loop_idx)

declare parse_args.simps [simp del]

section \<open>Commands\<close>

fun cmd_parse :: "(string \<Rightarrow> 'r option) \<Rightarrow> string list \<Rightarrow> nat \<Rightarrow> 'r command \<Rightarrow> clap_error + (bool \<times> 'r command)"
  and subs_parse :: "(string \<Rightarrow> 'r option) \<Rightarrow> string list \<Rightarrow> nat \<Rightarrow> 'r command list \<Rightarrow> clap_error + (bool \<times> 'r command list)" where
  "cmd_parse stod argv idx (Command name desc opts subs found) =
     (if idx + 1 = length argv then Inr (subs = [] \<and> opts = [], Command name desc opts subs found)
      else
        let idx = idx + 1
        in rbind (case arg_at argv idx of
                    None \<Rightarrow> Inl NullArgument
                  | Some s \<Rightarrow> if is_option s then parse_args stod argv idx opts else Inr (True, idx, opts)) (\<lambda>(ok, idx, opts).
             if \<not> ok then Inr (False, Command name desc opts subs True)
             else if subs \<noteq> [] then rbind (subs_parse stod argv idx subs) (\<lambda>(ok, subs). Inr (ok, Command name desc opts subs True))
             else Inr (True, Command name desc opts subs True)))"
| "subs_parse stod argv idx [] = Inr (False, [])"
| "subs_parse stod argv idx (sc # scs) =
     (case arg_at argv idx of
        None \<Rightarrow> Inl NullArgument
      | Some s \<Rightarrow>
          if streq (c_name sc) s then rbind (cmd_parse stod argv idx sc) (\<lambda>(ok, sc). Inr (ok, sc # scs))
          else rbind (subs_parse stod argv idx scs) (\<lambda>(ok, scs). Inr (ok, sc # scs)))"

definition cl_parse :: "(string \<Rightarrow> 'r option) \<Rightarrow> string list \<Rightarrow> 'r command \<Rightarrow> clap_error + (bool \<times> 'r command)" where
  "cl_parse stod argv cmd = cmd_parse stod argv 0 cmd"

section \<open>What is accepted\<close>

text \<open>A command with one option that takes a string, and no subcommand.\<close>

lemma one_option_parsed:
  assumes "op_type opt = T_string" "streq (op_name opt) a" "is_option a"
  shows "cl_parse stod [prog, a, v] (Command name desc [opt] [] False) =
    Inr (True, Command name desc [opt\<lparr>op_arg := StringArg v\<rparr>] [] True)"
  using assms
  by (simp add: cl_parse_def parse_args.simps arg_at_def take_value_def required_found_def opt_found_def Let_def)

lemma opts_loop_taken:
  assumes "opts_loop stod argv idx (opt # opts) = Inr (True, k, l)"
  shows "\<exists>o' i l'. take_value stod argv idx opt = Inr (Some (o', i)) \<and> opts_loop stod argv i opts = Inr (True, k, l')"
  using assms by (auto simp: rbind_Inr split: if_splits option.splits prod.splits)

text \<open>
  A command with two or more options takes an option only when the second option of the command is named
  by that argument or by the one behind it; any other use of an option is refused, whatever the options are.
\<close>

lemma second_option_refused:
  assumes "idx < length argv" "is_option (argv ! idx)" "parse_args stod argv idx (o1 # o2 # os) = Inr (ok, idx', opts')"
    and "\<And>i. i = idx \<or> i = idx + 1 \<Longrightarrow> i < length argv \<Longrightarrow> \<not> streq (op_name o2) (argv ! i) \<and> \<not> streq (op_longname o2) (argv ! i)"
  shows "\<not> ok"
proof -
  have no: "opts_loop stod argv i (o2 # os) \<noteq> Inr (True, k, l)" if "i = idx \<or> i = idx + 1" for i k l
  proof (cases "i < length argv")
    case True
    from assms(4) [OF that this] True show ?thesis by (simp add: arg_at_def)
  next
    case False
    then show ?thesis by (simp add: arg_at_def)
  qed
  have "opts_loop stod argv idx (o1 # o2 # os) \<noteq> Inr (True, k, l)" for k l
  proof
    assume a: "opts_loop stod argv idx (o1 # o2 # os) = Inr (True, k, l)"
    from opts_loop_taken [OF a] obtain o' i l' where t: "take_value stod argv idx o1 = Inr (Some (o', i))"
      "opts_loop stod argv i (o2 # os) = Inr (True, k, l')" by blast
    from no [OF take_value_idx [OF t(1)]] t(2) show False by simp
  qed
  then have f: "\<not> ok'" if "opts_loop stod argv idx (o1 # o2 # os) = Inr (ok', k, l)" for ok' k l using that by (cases ok') simp_all
  have c: "(idx < length argv \<and> is_option (argv ! idx)) = True" "(o1 # o2 # os = []) = False" using assms(1,2) by simp_all
  note p = assms(3) [unfolded parse_args.simps [of stod argv idx "o1 # o2 # os"] c if_True if_False]
  show ?thesis
  proof (cases "opts_loop stod argv idx (o1 # o2 # os)")
    case (Inl e)
    with p show ?thesis by (simp del: opts_loop.simps)
  next
    case (Inr r)
    obtain ok' k l where r: "r = (ok', k, l)" by (cases r)
    with f Inr have "\<not> ok'" by blast
    with p Inr r show ?thesis by (simp del: opts_loop.simps)
  qed
qed

lemma second_option_refused_sample:
  "let o1 = \<lparr>op_name = ''-dh'', op_longname = ''--dbhost'', op_desc = [], op_required = True, op_type = T_string, op_arg = NoArg :: int cl_opt_arg\<rparr>;
       o2 = \<lparr>op_name = ''-dp'', op_longname = ''--dbport'', op_desc = [], op_required = True, op_type = T_int, op_arg = NoArg\<rparr>
   in \<exists>idx' opts'. parse_args (\<lambda>_. None) [''-dh'', ''samplehost'', ''-dp'', ''123''] 0 [o1, o2] = Inr (False, idx', opts')"
proof -
  let ?o1 = "\<lparr>op_name = ''-dh'', op_longname = ''--dbhost'', op_desc = [], op_required = True, op_type = T_string, op_arg = NoArg :: int cl_opt_arg\<rparr>"
  let ?o2 = "\<lparr>op_name = ''-dp'', op_longname = ''--dbport'', op_desc = [], op_required = True, op_type = T_int, op_arg = NoArg :: int cl_opt_arg\<rparr>"
  let ?argv = "[''-dh'', ''samplehost'', ''-dp'', ''123'']"
  have "map_sum id (\<lambda>_. ()) (parse_args (\<lambda>_. None) ?argv 0 [?o1, ?o2]) = Inr ()" by code_simp
  then obtain ok idx' opts' where p: "parse_args (\<lambda>_. None) ?argv 0 [?o1, ?o2] = Inr (ok, idx', opts')" by (auto simp: map_sum_Inr)
  have "\<not> streq (op_name ?o2) (?argv ! i) \<and> \<not> streq (op_longname ?o2) (?argv ! i)" if "i = 0 \<or> i = 0 + 1" for i
    using that by (elim disjE; hypsubst) code_simp+
  from second_option_refused [OF _ _ p this] p show ?thesis by (auto simp: is_option_def)
qed

end
