(* ===== verification/Log_Record.thy ===== *)
theory Log_Record
  imports Date_Time Command_Line Json_Value
begin

text \<open>
  Log records of liblog, \<^verbatim>\<open>liblog/include/logsev.h\<close>, \<^verbatim>\<open>logrec.h\<close> and \<^verbatim>\<open>liblog/src/logrec.cpp\<close>: severities and the text of a record,
  by a format with percent items or as a JSON object. The text of a system error is an argument.
\<close>

section \<open>Severities\<close>

datatype severity = Sev_all | Sev_trace | Sev_debug | Sev_info | Sev_warning | Sev_error

fun severity_num :: "severity \<Rightarrow> int" where
  "severity_num Sev_all = 0"
| "severity_num Sev_trace = 1"
| "severity_num Sev_debug = 2"
| "severity_num Sev_info = 3"
| "severity_num Sev_warning = 4"
| "severity_num Sev_error = 5"

fun severity_string :: "severity \<Rightarrow> string" where
  "severity_string Sev_trace = ''TRC''"
| "severity_string Sev_debug = ''DBG''"
| "severity_string Sev_info = ''INF''"
| "severity_string Sev_warning = ''WRN''"
| "severity_string Sev_error = ''ERR''"
| "severity_string Sev_all = ''UNK''"

text \<open>The argument is a C string; \<^verbatim>\<open>strcasecmp\<close> ignores case as \<^verbatim>\<open>streq\<close> does.\<close>

definition string_to_severity :: "string \<Rightarrow> severity" where
  "string_to_severity s =
     (let s = takeWhile (\<lambda>c. c \<noteq> CHR 0x00) s
      in if s = [] then Sev_all
         else if streq s ''trc'' \<or> streq s ''trace'' then Sev_trace
         else if streq s ''dbg'' \<or> streq s ''debug'' then Sev_debug
         else if streq s ''inf'' \<or> streq s ''info'' then Sev_info
         else if streq s ''wrn'' \<or> streq s ''warning'' then Sev_warning
         else if streq s ''err'' \<or> streq s ''error'' then Sev_error
         else Sev_all)"

section \<open>Records\<close>

record log_record =
  lr_class :: string
  lr_file :: string
  lr_function :: string
  lr_lineno :: int
  lr_error :: int
  lr_timestamp :: datetime
  lr_pid :: int
  lr_tid :: int
  lr_severity :: severity
  lr_text :: string

definition named_or :: "string \<Rightarrow> string option \<Rightarrow> string" where
  "named_or d s = (case s of None \<Rightarrow> d | Some s \<Rightarrow> if s = [] then d else s)"

definition record_init :: "datetime \<Rightarrow> int \<Rightarrow> int \<Rightarrow> string option \<Rightarrow> string option \<Rightarrow> string option \<Rightarrow> int \<Rightarrow> int \<Rightarrow> severity \<Rightarrow> log_record" where
  "record_init now pid tid cls file fcn line error sev =
     \<lparr>lr_class = named_or ''no-class'' cls, lr_file = named_or ''no-file'' file, lr_function = named_or ''no-function'' fcn, lr_lineno = line, lr_error = error,
      lr_timestamp = now, lr_pid = pid, lr_tid = tid, lr_severity = sev, lr_text = []\<rparr>"

definition should_log :: "log_record \<Rightarrow> severity \<Rightarrow> bool" where
  "should_log rec sev \<longleftrightarrow> severity_num (lr_severity rec) \<ge> severity_num sev"

text \<open>
  The loops over a format: a percent sign takes the next character with it. Behind the last character
  a C++ string has a zero character, so a percent sign at the end takes that one.
\<close>

fun expand :: "(char \<Rightarrow> string) \<Rightarrow> string \<Rightarrow> string" where
  "expand item [] = []"
| "expand item [c] = (if c = CHR ''%'' then item (CHR 0x00) else [c])"
| "expand item (c # d # cs) = (if c = CHR ''%'' then item d @ expand item cs else c # expand item (d # cs))"

definition date_text :: "string \<Rightarrow> datetime \<Rightarrow> string" where
  "date_text sep t = pad 4 (get_year t) @ sep @ pad 2 (get_month t) @ sep @ pad 2 (tm_mday (m_tm t))"

definition record_item :: "(int \<Rightarrow> string) \<Rightarrow> log_record \<Rightarrow> char \<Rightarrow> string" where
  "record_item syserr rec c =
     (let t = lr_timestamp rec
      in if c = CHR ''%'' then ''%''
         else if c = CHR ''D'' then date_text ''/'' t
         else if c = CHR ''T'' then pad 2 (tm_hour (m_tm t)) @ '':'' @ pad 2 (tm_min (m_tm t)) @ '':'' @ pad 2 (tm_sec (m_tm t)) @ ''.'' @ pad 3 (m_msec t)
         else if c = CHR ''p'' then int_str (lr_pid rec)
         else if c = CHR ''t'' then int_str (lr_tid rec)
         else if c = CHR ''s'' then severity_string (lr_severity rec)
         else if c = CHR ''c'' then lr_class rec
         else if c = CHR ''F'' then lr_file rec
         else if c = CHR ''f'' then lr_function rec
         else if c = CHR ''l'' then int_str (lr_lineno rec)
         else if c = CHR ''m'' then
           lr_text rec @ (if lr_error rec \<noteq> 0 then '': '' @ syserr (lr_error rec) @ '' ('' @ int_str (lr_error rec) @ '')'' else [])
         else [CHR ''%'', c])"

text \<open>A value that is made of a string unescapes it.\<close>

definition record_str :: "bool \<Rightarrow> log_record \<Rightarrow> string result" where
  "record_str pretty rec =
     rbind (value_of_string (lr_class rec)) (\<lambda>cls.
     rbind (value_of_string (lr_file rec)) (\<lambda>file.
     rbind (value_of_string (lr_function rec)) (\<lambda>fcn.
     rbind (value_of_string (severity_string (lr_severity rec))) (\<lambda>sev.
     rbind (value_of_string (lr_text rec)) (\<lambda>txt.
       value_str (\<lambda>r::unit. []) pretty 0 (T_OBJECT (foldl (\<lambda>ms kv. object_add_pair kv ms) []
         [(''class'', cls), (''file'', file), (''function'', fcn), (''lineno'', T_INTEGER (lr_lineno rec)), (''error'', T_INTEGER (lr_error rec)),
          (''timestamp'', T_INTEGER (datetime_epoch (lr_timestamp rec) Millisecond)), (''pid'', T_INTEGER (lr_pid rec)), (''tid'', T_INTEGER (lr_tid rec)),
          (''severity'', sev), (''text'', txt)])))))))"

definition record_format :: "(int \<Rightarrow> string) \<Rightarrow> string \<Rightarrow> log_record \<Rightarrow> string result" where
  "record_format syserr fmt rec =
     (if streq fmt ''json-pretty'' then record_str True rec
      else if streq fmt ''json'' then record_str False rec
      else Inr (expand (record_item syserr rec) fmt))"

text \<open>A text with a backslash that starts no escape, such as a Windows path, cannot be logged as JSON.\<close>

lemma backslash_not_logged:
  "record_str False ((record_init (datetime_of gmtime 0 Second True) 1 1 None None None 1 0 Sev_info)\<lparr>lr_text := ''C:'' @ [CHR 0x5C, CHR ''x'']\<rparr>) = Inl InvalidArgument"
  by code_simp

end
