(* ===== verification/Log_File.thy ===== *)
theory Log_File
  imports Log_Record
begin

unbundle bit_operations_syntax

text \<open>
  Log files of liblog, \<^verbatim>\<open>liblog/include/flogger.h\<close> and \<^verbatim>\<open>liblog/src/flogger.cpp\<close>: a logger writes lines to a file of its directory, starts a
  new file when the day changes or the file is large, and removes old files. The directory is the list of
  its entries. Regular expressions are arguments: \<open>rx\<close> says whether a pattern matches a whole name, \<open>rxs\<close> gives the groups
  of a search. What the system does in a call is an argument as well; the mutex is left out.
\<close>

section \<open>The directory\<close>

record log_entry =
  le_name :: string
  le_text :: string
  le_mtime :: int

record log_dir =
  ld_exists :: bool
  ld_files :: "log_entry list"

text \<open>The system in one call: the clock, and which of its operations succeed; a failed write may have written a part.\<close>

record log_env =
  en_now :: int
  en_mkdir :: bool
  en_open :: bool
  en_write :: "nat option"
  en_unlink :: "string \<Rightarrow> bool"

definition healthy_env :: "log_env \<Rightarrow> bool" where
  "healthy_env env \<longleftrightarrow> en_mkdir env \<and> en_open env \<and> en_write env = None \<and> (\<forall>n. en_unlink env n)"

definition create_entry :: "int \<Rightarrow> string \<Rightarrow> log_dir \<Rightarrow> log_dir" where
  "create_entry now n d =
     (if n \<in> le_name ` set (ld_files d) then d else d\<lparr>ld_files := ld_files d @ [\<lparr>le_name = n, le_text = [], le_mtime = now\<rparr>]\<rparr>)"

definition append_entry :: "int \<Rightarrow> string \<Rightarrow> string \<Rightarrow> log_dir \<Rightarrow> log_dir" where
  "append_entry now n s d =
     d\<lparr>ld_files := map (\<lambda>e. if le_name e = n then e\<lparr>le_text := le_text e @ s, le_mtime := now\<rparr> else e) (ld_files d)\<rparr>"

definition remove_entries :: "log_env \<Rightarrow> string list \<Rightarrow> log_dir \<Rightarrow> log_dir" where
  "remove_entries env ns d = d\<lparr>ld_files := filter (\<lambda>e. \<not> (le_name e \<in> set ns \<and> en_unlink env (le_name e))) (ld_files d)\<rparr>"

definition matching :: "(string \<Rightarrow> string \<Rightarrow> bool) \<Rightarrow> string \<Rightarrow> log_dir \<Rightarrow> log_entry list" where
  "matching rx pattern d = filter (\<lambda>e. rx pattern (le_name e)) (ld_files d)"

section \<open>Rotation and retention\<close>

text \<open>The scheme is a set of bits: 1 for daily, 2 for the size.\<close>

record rotation =
  rot_scheme :: int
  rot_size :: int

definition default_size :: int where "default_size = 104857600"

definition rot_daily :: "rotation \<Rightarrow> bool" where "rot_daily r \<longleftrightarrow> rot_scheme r AND 1 = 1"
definition rot_by_size :: "rotation \<Rightarrow> bool" where "rot_by_size r \<longleftrightarrow> rot_scheme r AND 2 = 2"

text \<open>\<^verbatim>\<open>std::getline\<close> with a separator while the stream is good: a separator at the end is followed by an empty piece.\<close>

fun pieces :: "char \<Rightarrow> string \<Rightarrow> string \<Rightarrow> string list" where
  "pieces sep [] s = [s]"
| "pieces sep (c # cs) s = (if c = sep then s # pieces sep cs [] else pieces sep cs (s @ [c]))"

definition string_to_rotation :: "string \<Rightarrow> int" where
  "string_to_rotation str =
     (if str = [] then 0
      else foldl (\<lambda>s p. let t = trim p in if t = ''daily'' then s OR 1 else if t = ''by_size'' then s OR 2 else s) 0 (pieces CHR ''|'' str []))"

datatype retain = Retain_all | Last_n_days | Last_n_files

record retention =
  ret_scheme :: retain
  ret_argument :: int
  ret_pattern :: string

definition string_to_retention :: "string \<Rightarrow> retain" where
  "string_to_retention s = (if s = ''last_n_files'' then Last_n_files else if s = ''last_n_days'' then Last_n_days else Retain_all)"

text \<open>
  Which files go: all after the first so many, or all before a point in time. \<^verbatim>\<open>std::sort\<close> may order files of the same time
  either way. The product of the days overflows an \<^verbatim>\<open>int\<close> from 24856 days on.
\<close>

datatype log_error = ConversionFailed date_error | Overflow | JsonFailed json_error | NarrowingFailed

fun beyond :: "int \<Rightarrow> log_entry list \<Rightarrow> string list" where
  "beyond keep [] = []"
| "beyond keep (e # es) = (if keep = 0 then le_name e # beyond keep es else beyond (keep - 1) es)"

definition purge :: "(string \<Rightarrow> string \<Rightarrow> bool) \<Rightarrow> log_env \<Rightarrow> retention \<Rightarrow> log_dir \<Rightarrow> log_error + log_dir" where
  "purge rx env r d =
     (let es = sort_key (\<lambda>e. - le_mtime e) (matching rx (ret_pattern r) d)
      in case ret_scheme r of
           Last_n_files \<Rightarrow> Inr (remove_entries env (beyond (ret_argument r) es) d)
         | Last_n_days \<Rightarrow>
             (if 2 ^ 31 \<le> ret_argument r * 86400 \<or> ret_argument r * 86400 < - (2 ^ 31) then Inl Overflow
              else Inr (remove_entries env (map le_name (filter (\<lambda>e. le_mtime e < en_now env - ret_argument r * 86400) es)) d))
         | Retain_all \<Rightarrow> Inr d)"

section \<open>File names\<close>

record file_logger =
  fl_severity :: severity
  fl_format :: string
  fl_path :: string
  fl_make_path :: bool
  fl_sync :: bool
  fl_name_fmt :: string
  fl_name :: string
  fl_size :: int
  fl_seqno :: int
  fl_last_day :: int
  fl_rotation :: "rotation option"
  fl_retention :: "retention option"
  fl_file :: bool

definition default_format :: string where "default_format = ''%D %T %p.%t [%s] [%F:%c.%f.%l] %m''"
definition default_name_format :: string where "default_name_format = ''%D_%N.log''"

definition new_file_logger :: "string \<Rightarrow> severity \<Rightarrow> string \<Rightarrow> file_logger" where
  "new_file_logger path sev fmt =
     \<lparr>fl_severity = sev, fl_format = fmt, fl_path = path, fl_make_path = False, fl_sync = False, fl_name_fmt = [], fl_name = [], fl_size = 0, fl_seqno = 0,
      fl_last_day = 0, fl_rotation = None, fl_retention = None, fl_file = False\<rparr>"

definition rotate_daily :: "file_logger \<Rightarrow> int \<Rightarrow> bool" where
  "rotate_daily fl day \<longleftrightarrow> (case fl_rotation fl of None \<Rightarrow> False | Some r \<Rightarrow> rot_daily r \<and> day \<noteq> fl_last_day fl)"

definition rotate_by_size :: "file_logger \<Rightarrow> int \<Rightarrow> bool" where
  "rotate_by_size fl fsize \<longleftrightarrow> (case fl_rotation fl of None \<Rightarrow> False | Some r \<Rightarrow> rot_by_size r \<and> fsize > rot_size r)"

definition init_name_format :: "file_logger \<Rightarrow> file_logger" where
  "init_name_format fl = (if fl_name_fmt fl = [] then fl\<lparr>fl_name_fmt := default_name_format\<rparr> else fl)"

text \<open>The pattern and the groups of the date and the sequence number, -1 for none.\<close>

fun pattern_loop :: "bool \<Rightarrow> string \<Rightarrow> int \<times> int \<times> int \<Rightarrow> string \<times> int \<times> int" where
  "pattern_loop cap [] (i, di, si) = ([], di, si)"
| "pattern_loop cap [c] (i, di, si) = (if c = CHR ''%'' then [CHR ''%'', CHR 0x00] else [c], di, si)"
| "pattern_loop cap (c # d # cs) (i, di, si) =
     (if c \<noteq> CHR ''%'' then (case pattern_loop cap (d # cs) (i, di, si) of (p, x) \<Rightarrow> (c # p, x))
      else if d = CHR ''D'' then
        (case pattern_loop cap cs (if cap then (i + 1, i + 1, si) else (i, di, si)) of (p, x) \<Rightarrow>
           ((if cap then ''('' @ [CHR 0x5C] @ ''d{8})'' else [CHR 0x5C] @ ''d{8}'') @ p, x))
      else if d = CHR ''N'' then
        (case pattern_loop cap cs (if cap then (i + 1, di, i + 1) else (i, di, si)) of (p, x) \<Rightarrow>
           ((if cap then ''('' @ [CHR 0x5C] @ ''d{6})'' else [CHR 0x5C] @ ''d{6}'') @ p, x))
      else (case pattern_loop cap cs (i, di, si) of (p, x) \<Rightarrow> ((if d = CHR ''%'' then ''%'' else [CHR ''%'', d]) @ p, x)))"

definition regex_pattern :: "bool \<Rightarrow> file_logger \<Rightarrow> string \<times> int \<times> int" where
  "regex_pattern cap fl = pattern_loop cap (fl_name_fmt fl) (0, -1, -1)"

definition group_at :: "string list \<Rightarrow> int \<Rightarrow> string" where
  "group_at gs i = (if 1 \<le> i \<and> nat i \<le> length gs then gs ! (nat i - 1) else [])"

definition parse_name :: "(string \<Rightarrow> string \<Rightarrow> string list option) \<Rightarrow> string \<Rightarrow> file_logger \<Rightarrow> string \<times> string" where
  "parse_name rxs file_name fl =
     (case regex_pattern True fl of
        (pat, di, si) \<Rightarrow>
          if di = -1 \<and> si = -1 then ([], [])
          else case rxs pat file_name of
            None \<Rightarrow> ([], [])
          | Some gs \<Rightarrow> (if di \<noteq> -1 then group_at gs di else [], if si \<noteq> -1 then group_at gs si else []))"

definition name_item :: "file_logger \<Rightarrow> datetime \<Rightarrow> char \<Rightarrow> string" where
  "name_item fl lt c =
     (if c = CHR ''%'' then ''%''
      else if c = CHR ''D'' then date_text [] lt
      else if c = CHR ''N'' then pad 6 (fl_seqno fl)
      else [CHR ''%'', c])"

definition log_name :: "file_logger \<Rightarrow> datetime \<Rightarrow> string" where
  "log_name fl lt = expand (name_item fl lt) (fl_name_fmt fl)"

definition lift_date :: "date_error + 'a \<Rightarrow> log_error + 'a" where
  "lift_date r = (case r of Inl e \<Rightarrow> Inl (ConversionFailed e) | Inr x \<Rightarrow> Inr x)"

text \<open>The name to go on with after the newest file: that file, or one for the new day or the next number.\<close>

definition same_day :: "string \<Rightarrow> datetime \<Rightarrow> log_error + bool" where
  "same_day s lt =
     lift_date (rbind (date_substr s 0 4) (\<lambda>y. rbind (stoi y) (\<lambda>y.
       rbind (date_substr s 4 2) (\<lambda>m. rbind (stoi m) (\<lambda>m.
       rbind (date_substr s 6 2) (\<lambda>d. rbind (stoi d) (\<lambda>d.
         Inr (\<not> (d \<noteq> tm_mday (m_tm lt) \<or> m \<noteq> get_month lt \<or> y \<noteq> get_year lt)))))))))"

definition next_name :: "(string \<Rightarrow> string \<Rightarrow> string list option) \<Rightarrow> log_entry option \<Rightarrow> datetime \<Rightarrow> file_logger \<Rightarrow> log_error + string \<times> file_logger" where
  "next_name rxs fa lt fl =
     (case fa of
        None \<Rightarrow> Inr (log_name fl lt, fl)
      | Some e \<Rightarrow>
          if le_name e = [] then Inr (log_name fl lt, fl)
          else
            case parse_name rxs (le_name e) fl of
              (date_str, seq_str) \<Rightarrow>
                rbind (if date_str = [] then Inr True else same_day date_str lt) (\<lambda>same.
                  if \<not> same then (let fl = fl\<lparr>fl_seqno := 0\<rparr> in Inr (log_name fl lt, fl))
                  else
                    let reuse = (\<lambda>fl. Inr (le_name e, fl\<lparr>fl_size := int (length (le_text e))\<rparr>))
                    in if seq_str = [] then reuse fl
                       else rbind (lift_date (stoi seq_str)) (\<lambda>n.
                         let fl = fl\<lparr>fl_seqno := n\<rparr>
                         in if rotate_by_size fl (int (length (le_text e))) then
                              (let fl = fl\<lparr>fl_seqno := n + 1\<rparr> in Inr (log_name fl lt, fl))
                            else reuse fl)))"

section \<open>Logging\<close>

definition open_file :: "log_env \<Rightarrow> datetime \<Rightarrow> file_logger \<Rightarrow> log_dir \<Rightarrow> file_logger \<times> log_dir" where
  "open_file env lt fl d =
     (if en_open env then (fl\<lparr>fl_file := True, fl_last_day := tm_mday (m_tm lt)\<rparr>, create_entry (en_now env) (fl_name fl) d)
      else (fl\<lparr>fl_file := False\<rparr>, d))"

definition close_file :: "file_logger \<Rightarrow> file_logger" where
  "close_file fl = (if fl_file fl then fl\<lparr>fl_file := False, fl_size := 0\<rparr> else fl)"

text \<open>The newest of the entries, the first of those with the same time.\<close>

fun newest :: "log_entry option \<Rightarrow> int \<Rightarrow> log_entry list \<Rightarrow> log_entry option" where
  "newest fa mtime [] = fa"
| "newest fa mtime (e # es) = (if le_mtime e > mtime then newest (Some e) (le_mtime e) es else newest fa mtime es)"

definition purge_logs :: "(string \<Rightarrow> string \<Rightarrow> bool) \<Rightarrow> log_env \<Rightarrow> file_logger \<Rightarrow> log_dir \<Rightarrow> log_error + log_dir" where
  "purge_logs rx env fl d = (case fl_retention fl of None \<Rightarrow> Inr d | Some r \<Rightarrow> purge rx env r d)"

definition open_log :: "(string \<Rightarrow> string \<Rightarrow> bool) \<Rightarrow> (string \<Rightarrow> string \<Rightarrow> string list option) \<Rightarrow> log_env \<Rightarrow> datetime \<Rightarrow> file_logger \<Rightarrow> log_dir \<Rightarrow> log_error + file_logger \<times> log_dir" where
  "open_log rx rxs env lt fl d =
     (let fl = init_name_format fl;
          pattern = fst (regex_pattern False fl)
      in rbind (next_name rxs (newest None (-1) (matching rx pattern d)) lt fl) (\<lambda>(n, fl).
           let fl = fl\<lparr>fl_name := n, fl_retention := map_option (\<lambda>r. r\<lparr>ret_pattern := pattern\<rparr>) (fl_retention fl)\<rparr>
           in rbind (purge_logs rx env fl d) (\<lambda>d. Inr (open_file env lt fl d))))"

definition rotate_log :: "(string \<Rightarrow> string \<Rightarrow> bool) \<Rightarrow> log_env \<Rightarrow> datetime \<Rightarrow> file_logger \<Rightarrow> log_dir \<Rightarrow> log_error + file_logger \<times> log_dir" where
  "rotate_log rx env lt fl d =
     (let daily = rotate_daily fl (tm_mday (m_tm lt));
          size = rotate_by_size fl (fl_size fl);
          fl = (if daily then fl\<lparr>fl_seqno := 0\<rparr> else if size then fl\<lparr>fl_seqno := fl_seqno fl + 1\<rparr> else fl)
      in if daily \<or> size then
           let fl = close_file fl; fl = fl\<lparr>fl_name := log_name fl lt\<rparr>
           in rbind (purge_logs rx env fl d) (\<lambda>d. Inr (open_file env lt fl d))
         else Inr (fl, d))"

definition write_line :: "log_env \<Rightarrow> string \<Rightarrow> file_logger \<Rightarrow> log_dir \<Rightarrow> file_logger \<times> log_dir" where
  "write_line env line fl d =
     (case en_write env of
        None \<Rightarrow> (fl\<lparr>fl_size := fl_size fl + int (length line)\<rparr>, append_entry (en_now env) (fl_name fl) line d)
      | Some k \<Rightarrow> (fl, append_entry (en_now env) (fl_name fl) (take k line) d))"

definition file_log ::
  "(string \<Rightarrow> string \<Rightarrow> bool) \<Rightarrow> (string \<Rightarrow> string \<Rightarrow> string list option) \<Rightarrow> (int \<Rightarrow> string) \<Rightarrow> log_env \<Rightarrow> log_record \<Rightarrow> file_logger \<Rightarrow> log_dir \<Rightarrow>
     log_error + file_logger \<times> log_dir" where
  "file_log rx rxs syserr env rec fl d =
     (if \<not> should_log rec (fl_severity fl) then Inr (fl, d)
      else
        rbind
          (if \<not> fl_file fl then
             if ld_exists d then open_log rx rxs env (lr_timestamp rec) fl d
             else if fl_make_path fl \<and> en_mkdir env then open_log rx rxs env (lr_timestamp rec) fl (d\<lparr>ld_exists := True\<rparr>)
             else Inr (fl, d)
           else rotate_log rx env (lr_timestamp rec) fl d)
          (\<lambda>(fl, d).
             if \<not> fl_file fl then Inr (fl, d)
             else case record_format syserr (fl_format fl) rec of
               Inl e \<Rightarrow> Inl (JsonFailed e)
             | Inr s \<Rightarrow> Inr (write_line env (s @ [CHR 0x0A]) fl d)))"

definition file_reset :: "file_logger \<Rightarrow> file_logger" where
  "file_reset fl = close_file fl"

section \<open>Names\<close>

lemma dec_value_nat_str: "dec_value 0 (nat_str n) = int n"
proof (induction n rule: nat_str.induct)
  case (1 n)
  show ?case
  proof (cases "n < 10")
    case True
    then show ?thesis by (subst nat_str.simps) (simp add: ch_mk)
  next
    case False
    have "n mod 10 < 10" by simp
    then have "ch (mk (48 + n mod 10)) = 48 + n mod 10" by (intro ch_mk) linarith
    moreover have "int (n div 10) * 10 + int (n mod 10) = int n"
      using div_mult_mod_eq [of n 10] by (metis of_nat_add of_nat_mult of_nat_numeral)
    ultimately show ?thesis using False 1 by (subst nat_str.simps) (simp add: dec_value_append)
  qed
qed

lemma dec_value_zeros: "dec_value 0 (replicate k CHR ''0'' @ s) = dec_value 0 s"
  by (induction k) auto

lemma pad_inj: "pad w (int m) = pad w (int n) \<Longrightarrow> m = n"
proof -
  have "dec_value 0 (pad w (int k)) = int k" for k by (simp add: pad_def int_str_def dec_value_zeros dec_value_nat_str)
  then show "pad w (int m) = pad w (int n) \<Longrightarrow> m = n" by (metis of_nat_eq_iff)
qed

lemma nat_str_no: "c \<in> set (nat_str n) \<Longrightarrow> 48 \<le> ch c \<and> ch c \<le> 57"
proof (induction n rule: nat_str.induct)
  case (1 n)
  have "ch (mk (48 + n mod 10)) = 48 + n mod 10" by (rule ch_mk) (use mod_less_divisor [of 10 n] in linarith)
  moreover have "ch (mk (48 + n)) = 48 + n" if "n < 10" using that by (intro ch_mk) linarith
  moreover have "c \<in> set (if n < 10 then [mk (48 + n)] else nat_str (n div 10) @ [mk (48 + n mod 10)])"
    using 1(2) by (subst (asm) nat_str.simps)
  ultimately show ?case using 1(1) by (auto split: if_splits)
qed

lemma date_text_no: "CHR ''_'' \<notin> set (date_text [] t)"
proof -
  have "ch (CHR ''_'') = 95" by simp
  then have "CHR ''_'' \<notin> set (nat_str n)" for n using nat_str_no [of "CHR ''_''" n] by force
  then have "CHR ''_'' \<notin> set (pad w i)" for w i by (auto simp: pad_def int_str_def)
  then show ?thesis by (simp add: date_text_def)
qed

definition numbered :: "nat \<Rightarrow> string \<Rightarrow> bool" where
  "numbered k n \<longleftrightarrow> (\<exists>D. CHR ''_'' \<notin> set D \<and> n = D @ ''_'' @ pad 6 (int k) @ ''.log'')"

lemma numbered_unique:
  assumes "numbered j n" "numbered k n"
  shows "j = k"
proof -
  obtain D E where e: "D @ ''_'' @ pad 6 (int j) @ ''.log'' = E @ ''_'' @ pad 6 (int k) @ ''.log''" "CHR ''_'' \<notin> set D" "CHR ''_'' \<notin> set E"
    using assms by (auto simp: numbered_def)
  have "takeWhile (\<lambda>c. c \<noteq> CHR ''_'') (X @ CHR ''_'' # Y) = X" if "CHR ''_'' \<notin> set X" for X Y
    using that by (induction X) auto
  from this [OF e(2)] this [OF e(3)] e(1) have "D = E" by (metis append_Cons append_Nil)
  with e(1) show ?thesis by (simp add: pad_inj)
qed

lemma log_name_numbered: "fl_name_fmt fl = default_name_format \<Longrightarrow> fl_seqno fl = int k \<Longrightarrow> numbered k (log_name fl t)"
  unfolding numbered_def
  by (rule exI [of _ "date_text [] t"]) (simp add: log_name_def default_name_format_def name_item_def date_text_no)

section \<open>What the files hold\<close>

text \<open>
  The logger with its file open after the groups of records \<open>gs\<close>, one for each file. \<open>line\<close> is the text of a record
  with its newline, \<open>n\<close> the size of the rotation.
\<close>

definition texts :: "(log_record \<Rightarrow> string) \<Rightarrow> log_record list list \<Rightarrow> string list" where
  "texts line gs = map (\<lambda>g. concat (map line g)) gs"

definition by_size_only :: "int \<Rightarrow> file_logger \<Rightarrow> bool" where
  "by_size_only n fl \<longleftrightarrow> fl_retention fl = None \<and>
     (\<exists>r. fl_rotation fl = Some r \<and> rot_by_size r \<and> \<not> rot_daily r \<and> rot_size r = n)"

definition log_inv :: "(log_record \<Rightarrow> string) \<Rightarrow> int \<Rightarrow> log_record list list \<Rightarrow> file_logger \<Rightarrow> log_dir \<Rightarrow> bool" where
  "log_inv line n gs fl d \<longleftrightarrow> fl_file fl \<and> fl_name_fmt fl = default_name_format \<and> by_size_only n fl \<and> ld_exists d \<and>
     gs \<noteq> [] \<and> fl_seqno fl = int (length gs - 1) \<and> map le_text (ld_files d) = texts line gs \<and>
     (\<forall>i < length gs. numbered i (le_name (ld_files d ! i))) \<and> fl_name fl = le_name (last (ld_files d)) \<and>
     fl_size fl = int (length (last (texts line gs))) \<and>
     list_all (\<lambda>t. n < int (length t)) (butlast (texts line gs)) \<and> list_all (\<lambda>g. int (length (concat (map line (butlast g)))) \<le> n) gs"

lemma append_last:
  assumes "ld_files d = bs @ [b]" "\<forall>i < length (ld_files d). numbered i (le_name (ld_files d ! i))"
  shows "ld_files (append_entry now (le_name b) s d) = bs @ [b\<lparr>le_text := le_text b @ s, le_mtime := now\<rparr>]"
proof -
  have "numbered (length bs) (le_name b)" using assms(2) [rule_format, of "length bs"] assms(1) by simp
  moreover have "\<exists>i < length bs. numbered i (le_name e)" if e: "e \<in> set bs" for e
  proof -
    obtain i where "i < length bs" "e = bs ! i" using e by (metis in_set_conv_nth)
    then show ?thesis using assms(2) [rule_format, of i] assms(1) by (auto simp: nth_append)
  qed
  ultimately have "le_name e \<noteq> le_name b" if "e \<in> set bs" for e using that numbered_unique by (metis less_irrefl)
  then have "map (\<lambda>e. if le_name e = le_name b then e\<lparr>le_text := le_text e @ s, le_mtime := now\<rparr> else e) bs = bs"
    by (intro map_idI) auto
  then show ?thesis using assms(1) by (simp add: append_entry_def)
qed

lemma create_new:
  assumes "\<forall>i < length (ld_files d). numbered i (le_name (ld_files d ! i))" "numbered (length (ld_files d)) n"
  shows "create_entry now n d = d\<lparr>ld_files := ld_files d @ [\<lparr>le_name = n, le_text = [], le_mtime = now\<rparr>]\<rparr>"
proof -
  have "n \<notin> le_name ` set (ld_files d)"
  proof
    assume "n \<in> le_name ` set (ld_files d)"
    then obtain e where "e \<in> set (ld_files d)" "n = le_name e" by blast
    then obtain i where "i < length (ld_files d)" "n = le_name (ld_files d ! i)" by (metis in_set_conv_nth)
    with assms numbered_unique show False by (metis less_irrefl)
  qed
  then show ?thesis by (simp add: create_entry_def)
qed

lemma texts_snoc: "texts line (gs @ [g]) = texts line gs @ [concat (map line g)]"
  by (simp add: texts_def)

lemma concat_texts: "concat (texts line gs) = concat (map line (concat gs))"
  by (induction gs) (simp_all add: texts_def)

lemma log_inv_snoc:
  assumes "log_inv line n gs fl d"
  obtains gs0 g bs b where "gs = gs0 @ [g]" "ld_files d = bs @ [b]" "length bs = length gs0" "map le_text bs = texts line gs0" "le_text b = concat (map line g)"
    "\<forall>i < length (ld_files d). numbered i (le_name (ld_files d ! i))" "fl_name fl = le_name b" "fl_size fl = int (length (le_text b))" "fl_seqno fl = int (length bs)"
proof -
  from assms have "gs \<noteq> []" by (simp add: log_inv_def)
  then obtain gs0 g where gs: "gs = gs0 @ [g]" by (cases gs rule: rev_cases) auto
  with assms have m: "map le_text (ld_files d) = texts line gs0 @ [concat (map line g)]" by (simp add: log_inv_def texts_snoc)
  then obtain bs b where d: "ld_files d = bs @ [b]" by (cases "ld_files d" rule: rev_cases) auto
  with m have t: "map le_text bs = texts line gs0" "le_text b = concat (map line g)" by simp_all
  then have l: "length bs = length gs0" by (metis length_map texts_def)
  show ?thesis
    by (rule that [OF gs d l t]) (use assms gs d l t in \<open>auto simp: log_inv_def texts_snoc\<close>)
qed

lemma numbered_append:
  assumes "\<forall>i < length es. numbered i (le_name (es ! i))" "numbered (length es) (le_name e)"
  shows "\<forall>i < length (es @ [e]). numbered i (le_name ((es @ [e]) ! i))"
  using assms by (auto simp: nth_append less_Suc_eq)

lemma log_same_file:
  assumes "log_inv line n (gs @ [g]) fl d" "fl_size fl \<le> n"
  shows "case write_line env (line x) fl d of (fl', d') \<Rightarrow> en_write env = None \<longrightarrow> log_inv line n (gs @ [g @ [x]]) fl' d'"
proof -
  from assms(1) obtain gs0 g0 bs b where i: "gs @ [g] = gs0 @ [g0]" "ld_files d = bs @ [b]" "length bs = length gs0" "map le_text bs = texts line gs0" "le_text b = concat (map line g0)"
    "\<forall>i < length (ld_files d). numbered i (le_name (ld_files d ! i))" "fl_name fl = le_name b" "fl_size fl = int (length (le_text b))" "fl_seqno fl = int (length bs)"
    by (rule log_inv_snoc)
  let ?b = "b\<lparr>le_text := le_text b @ line x, le_mtime := en_now env\<rparr>"
  have f: "ld_files (append_entry (en_now env) (le_name b) (line x) d) = bs @ [?b]" by (rule append_last [OF i(2,6)])
  have "\<forall>k < length (bs @ [?b]). numbered k (le_name ((bs @ [?b]) ! k))"
    by (rule numbered_append) (use i(2,6) in \<open>auto simp: nth_append less_Suc_eq\<close>)
  moreover have "ld_exists (append_entry now m s d) = ld_exists d" for now m s by (simp add: append_entry_def)
  ultimately show ?thesis
    using assms i f by (auto simp: write_line_def log_inv_def by_size_only_def texts_snoc)
qed

text \<open>The logger with no file open, about to start the file after those of \<open>gs\<close>.\<close>

definition log_pre :: "(log_record \<Rightarrow> string) \<Rightarrow> int \<Rightarrow> log_record list list \<Rightarrow> file_logger \<Rightarrow> log_dir \<Rightarrow> bool" where
  "log_pre line n gs fl d \<longleftrightarrow> fl_name_fmt fl = default_name_format \<and> by_size_only n fl \<and> ld_exists d \<and> fl_seqno fl = int (length gs) \<and> fl_size fl = 0 \<and>
     map le_text (ld_files d) = texts line gs \<and> (\<forall>i < length gs. numbered i (le_name (ld_files d ! i))) \<and>
     list_all (\<lambda>t. n < int (length t)) (texts line gs) \<and> list_all (\<lambda>g. int (length (concat (map line (butlast g)))) \<le> n) gs"

lemma log_next_file:
  assumes "log_pre line n gs fl d" "0 \<le> n" "healthy_env env"
  shows "\<exists>fl' d' fl2 d2. open_file env lt (fl\<lparr>fl_name := log_name fl lt\<rparr>) d = (fl', d') \<and> fl_file fl' \<and> fl_severity fl' = fl_severity fl \<and> fl_format fl' = fl_format fl \<and>
    write_line env (line x) fl' d' = (fl2, d2) \<and> log_inv line n (gs @ [[x]]) fl2 d2 \<and> fl_severity fl2 = fl_severity fl \<and> fl_format fl2 = fl_format fl"
proof -
  have p: "fl_name_fmt fl = default_name_format" "fl_seqno fl = int (length gs)" "map le_text (ld_files d) = texts line gs"
      "\<forall>i < length gs. numbered i (le_name (ld_files d ! i))"
    using assms(1) by (auto simp: log_pre_def)
  have l: "length (ld_files d) = length gs" using p(3) by (metis length_map texts_def)
  have num: "numbered (length (ld_files d)) (log_name fl lt)" using log_name_numbered [OF p(1,2)] l by simp
  let ?e = "\<lparr>le_name = log_name fl lt, le_text = [], le_mtime = en_now env\<rparr>"
  let ?d = "d\<lparr>ld_files := ld_files d @ [?e]\<rparr>"
  let ?fl = "fl\<lparr>fl_name := log_name fl lt, fl_file := True, fl_last_day := tm_mday (m_tm lt)\<rparr>"
  have "create_entry (en_now env) (log_name fl lt) d = ?d" by (rule create_new) (use p(4) l num in auto)
  then have o: "open_file env lt (fl\<lparr>fl_name := log_name fl lt\<rparr>) d = (?fl, ?d)" using assms(3) by (simp add: open_file_def healthy_env_def)
  have all: "\<forall>i < length (ld_files ?d). numbered i (le_name (ld_files ?d ! i))"
    using numbered_append [of "ld_files d" ?e] p(4) l num by simp
  have "ld_files (append_entry (en_now env) (le_name ?e) (line x) ?d) = ld_files d @ [?e\<lparr>le_text := le_text ?e @ line x, le_mtime := en_now env\<rparr>]"
    by (rule append_last [OF _ all]) simp
  then have f: "ld_files (append_entry (en_now env) (log_name fl lt) (line x) ?d) = ld_files d @ [?e\<lparr>le_text := line x\<rparr>]" by simp
  let ?d2 = "append_entry (en_now env) (log_name fl lt) (line x) ?d" and ?fl2 = "?fl\<lparr>fl_size := int (length (line x))\<rparr>"
  have w: "write_line env (line x) ?fl ?d = (?fl2, ?d2)" using assms(1,3) by (simp add: write_line_def healthy_env_def log_pre_def)
  have n2: "\<forall>i < length (ld_files ?d2). numbered i (le_name (ld_files ?d2 ! i))"
    unfolding f by (rule numbered_append) (use p(4) l num in auto)
  have "ld_exists ?d2" using assms(1) by (simp add: append_entry_def log_pre_def)
  then have "log_inv line n (gs @ [[x]]) ?fl2 ?d2"
    using assms(1,2) n2 f l by (simp add: log_inv_def log_pre_def by_size_only_def texts_snoc)
  then show ?thesis using o w by (intro exI [of _ ?fl] exI [of _ ?d] exI [of _ ?fl2] exI [of _ ?d2]) simp
qed

definition fresh :: "int \<Rightarrow> file_logger \<Rightarrow> log_dir \<Rightarrow> bool" where
  "fresh n fl d \<longleftrightarrow> \<not> fl_file fl \<and> fl_name_fmt fl \<in> {[], default_name_format} \<and> fl_seqno fl = 0 \<and> fl_size fl = 0 \<and> by_size_only n fl \<and>
     ld_files d = [] \<and> (ld_exists d \<or> fl_make_path fl)"

definition log_state :: "(log_record \<Rightarrow> string) \<Rightarrow> int \<Rightarrow> log_record list list \<Rightarrow> file_logger \<Rightarrow> log_dir \<Rightarrow> bool" where
  "log_state line n gs fl d \<longleftrightarrow> (if gs = [] then fresh n fl d else log_inv line n gs fl d)"

definition line_of :: "(int \<Rightarrow> string) \<Rightarrow> string \<Rightarrow> log_record \<Rightarrow> string" where
  "line_of syserr fmt rec = (case record_format syserr fmt rec of Inl _ \<Rightarrow> [] | Inr s \<Rightarrow> s @ [CHR 0x0A])"

definition formats :: "(int \<Rightarrow> string) \<Rightarrow> string \<Rightarrow> log_record \<Rightarrow> bool" where
  "formats syserr fmt rec = (case record_format syserr fmt rec of Inl _ \<Rightarrow> False | Inr _ \<Rightarrow> True)"

lemma file_log_open:
  assumes "should_log rec (fl_severity fl)" "formats syserr (fl_format fl') rec" "fl_file fl'"
    and "(if \<not> fl_file fl then
            if ld_exists d then open_log rx rxs env (lr_timestamp rec) fl d
            else if fl_make_path fl \<and> en_mkdir env then open_log rx rxs env (lr_timestamp rec) fl (d\<lparr>ld_exists := True\<rparr>)
            else Inr (fl, d)
          else rotate_log rx env (lr_timestamp rec) fl d) = Inr (fl', d')"
  shows "file_log rx rxs syserr env rec fl d = Inr (write_line env (line_of syserr (fl_format fl') rec) fl' d')"
  using assms unfolding file_log_def by (auto simp: formats_def line_of_def split: sum.splits)

lemma log_first:
  assumes "fresh n fl d" "0 \<le> n" "healthy_env env" "should_log rec (fl_severity fl)" "formats syserr (fl_format fl) rec"
  shows "\<exists>fl' d'. file_log rx rxs syserr env rec fl d = Inr (fl', d') \<and> log_inv (line_of syserr (fl_format fl)) n [[rec]] fl' d' \<and>
    fl_severity fl' = fl_severity fl \<and> fl_format fl' = fl_format fl"
proof -
  let ?fl = "init_name_format fl" and ?d = "d\<lparr>ld_exists := True\<rparr>" and ?t = "lr_timestamp rec" and ?line = "line_of syserr (fl_format fl)"
  have k: "fl_severity ?fl = fl_severity fl" "fl_format ?fl = fl_format fl" by (simp_all add: init_name_format_def)
  have "log_pre ?line n [] ?fl ?d"
    using assms(1) by (auto simp: fresh_def log_pre_def init_name_format_def by_size_only_def texts_def)
  from log_next_file [OF this assms(2,3), of ?t rec] obtain fl1 d1 fl2 d2 where
    o: "open_file env ?t (?fl\<lparr>fl_name := log_name ?fl ?t\<rparr>) ?d = (fl1, d1)" "fl_file fl1" "fl_severity fl1 = fl_severity ?fl" "fl_format fl1 = fl_format ?fl"
      "write_line env (?line rec) fl1 d1 = (fl2, d2)" "log_inv ?line n [[rec]] fl2 d2" "fl_severity fl2 = fl_severity ?fl" "fl_format fl2 = fl_format ?fl"
    by auto
  have r: "fl_retention ?fl = None" using assms(1) by (simp add: fresh_def by_size_only_def init_name_format_def)
  then have e: "?fl\<lparr>fl_name := m, fl_retention := None\<rparr> = ?fl\<lparr>fl_name := m\<rparr>" for m by (cases ?fl) simp
  have ol: "open_log rx rxs env ?t fl ?d = Inr (fl1, d1)"
    using assms(1) o(1) r by (simp add: e open_log_def Let_def matching_def fresh_def next_name_def purge_logs_def)
  moreover have "open_log rx rxs env ?t fl d = Inr (fl1, d1)" if "ld_exists d"
  proof -
    have "?d = d" using that by (cases d) simp
    with ol show ?thesis by simp
  qed
  ultimately have "(if \<not> fl_file fl then
            if ld_exists d then open_log rx rxs env ?t fl d
            else if fl_make_path fl \<and> en_mkdir env then open_log rx rxs env ?t fl ?d
            else Inr (fl, d)
          else rotate_log rx env ?t fl d) = Inr (fl1, d1)"
    using assms(1,3) by (auto simp: fresh_def healthy_env_def)
  from file_log_open [OF assms(4) _ o(2) this] assms(5) k o show ?thesis by auto
qed

lemma log_later:
  assumes "log_inv (line_of syserr (fl_format fl)) n gs fl d" "0 \<le> n" "healthy_env env" "should_log rec (fl_severity fl)" "formats syserr (fl_format fl) rec"
  shows "\<exists>fl' d' gs'. file_log rx rxs syserr env rec fl d = Inr (fl', d') \<and> log_inv (line_of syserr (fl_format fl)) n gs' fl' d' \<and> concat gs' = concat gs @ [rec] \<and>
    fl_severity fl' = fl_severity fl \<and> fl_format fl' = fl_format fl"
proof -
  let ?t = "lr_timestamp rec" and ?line = "line_of syserr (fl_format fl)"
  from assms(1) obtain gs0 g where gs: "gs = gs0 @ [g]" by (rule log_inv_snoc)
  have i: "fl_file fl" "by_size_only n fl" using assms(1) by (auto simp: log_inv_def)
  then have r: "rotate_daily fl day = False" "rotate_by_size fl (fl_size fl) \<longleftrightarrow> n < fl_size fl" "fl_retention fl = None" for day
    by (auto simp: by_size_only_def rotate_daily_def rotate_by_size_def)
  show ?thesis
  proof (cases "n < fl_size fl")
    case False
    then have "rotate_log rx env ?t fl d = Inr (fl, d)" using r by (simp add: rotate_log_def Let_def)
    with file_log_open [OF assms(4,5) i(1), of d rx rxs env d] i(1)
    have "file_log rx rxs syserr env rec fl d = Inr (write_line env (?line rec) fl d)" by simp
    moreover have "log_inv ?line n (gs0 @ [g @ [rec]]) (fst (write_line env (?line rec) fl d)) (snd (write_line env (?line rec) fl d))"
      using log_same_file [of ?line n gs0 g fl d env rec] assms(1,3) gs False by (auto simp: healthy_env_def split: prod.splits)
    moreover have "fl_severity (fst (write_line env (?line rec) fl d)) = fl_severity fl" "fl_format (fst (write_line env (?line rec) fl d)) = fl_format fl"
      by (simp_all add: write_line_def split: option.splits)
    ultimately show ?thesis using gs
      by (intro exI [of _ "fst (write_line env (?line rec) fl d)"] exI [of _ "snd (write_line env (?line rec) fl d)"] exI [of _ "gs0 @ [g @ [rec]]"]) simp
  next
    case True
    let ?fl = "close_file (fl\<lparr>fl_seqno := fl_seqno fl + 1\<rparr>)"
    have k: "fl_severity ?fl = fl_severity fl" "fl_format ?fl = fl_format fl" "fl_retention ?fl = None" using r by (simp_all add: close_file_def)
    have "list_all (\<lambda>t. n < int (length t)) (texts ?line gs)"
      using assms(1) gs True by (simp add: log_inv_def texts_snoc)
    moreover have "length (ld_files d) = length gs" using assms(1) by (metis length_map log_inv_def texts_def)
    ultimately have "log_pre ?line n gs ?fl d"
      using assms(1) gs by (auto simp: log_inv_def log_pre_def close_file_def by_size_only_def)
    from log_next_file [OF this assms(2,3), of ?t rec] obtain fl1 d1 fl2 d2 where
      o: "open_file env ?t (?fl\<lparr>fl_name := log_name ?fl ?t\<rparr>) d = (fl1, d1)" "fl_file fl1" "fl_severity fl1 = fl_severity ?fl" "fl_format fl1 = fl_format ?fl"
        "write_line env (?line rec) fl1 d1 = (fl2, d2)" "log_inv ?line n (gs @ [[rec]]) fl2 d2" "fl_severity fl2 = fl_severity ?fl" "fl_format fl2 = fl_format ?fl"
      by auto
    have "rotate_log rx env ?t fl d = Inr (fl1, d1)" using r True k(3) o(1) by (simp add: rotate_log_def Let_def purge_logs_def)
    with file_log_open [OF assms(4) _ o(2), of syserr d rx rxs env d1] assms(5) k o i(1)
    have "file_log rx rxs syserr env rec fl d = Inr (fl2, d2)" by simp
    then show ?thesis using o k by (intro exI [of _ fl2] exI [of _ d2] exI [of _ "gs @ [[rec]]"]) simp
  qed
qed

section \<open>Properties\<close>

fun file_logs where
  "file_logs rx rxs syserr [] fl d = Inr (fl, d)"
| "file_logs rx rxs syserr ((env, rec) # xs) fl d = rbind (file_log rx rxs syserr env rec fl d) (\<lambda>(fl, d). file_logs rx rxs syserr xs fl d)"

lemma log_step:
  assumes "log_state (line_of syserr (fl_format fl)) n gs fl d" "0 \<le> n" "healthy_env env" "formats syserr (fl_format fl) rec"
  shows "\<exists>fl' d' gs'. file_log rx rxs syserr env rec fl d = Inr (fl', d') \<and> log_state (line_of syserr (fl_format fl)) n gs' fl' d' \<and>
    concat gs' = concat gs @ filter (\<lambda>r. should_log r (fl_severity fl)) [rec] \<and> fl_severity fl' = fl_severity fl \<and> fl_format fl' = fl_format fl"
proof (cases "should_log rec (fl_severity fl)")
  case False
  with assms(1) show ?thesis by (intro exI [of _ fl] exI [of _ d] exI [of _ gs]) (simp add: file_log_def)
next
  case True
  show ?thesis
  proof (cases "gs = []")
    case t: True
    then have "fresh n fl d" using assms(1) by (simp add: log_state_def)
    from log_first [OF this assms(2,3) True assms(4), of rx rxs] obtain fl' d' where
      "file_log rx rxs syserr env rec fl d = Inr (fl', d')" "log_inv (line_of syserr (fl_format fl)) n [[rec]] fl' d'"
      "fl_severity fl' = fl_severity fl" "fl_format fl' = fl_format fl" by blast
    then show ?thesis using t True by (intro exI [of _ fl'] exI [of _ d'] exI [of _ "[[rec]]"]) (simp add: log_state_def)
  next
    case f: False
    then have "log_inv (line_of syserr (fl_format fl)) n gs fl d" using assms(1) by (simp add: log_state_def)
    from log_later [OF this assms(2,3) True assms(4), of rx rxs] obtain fl' d' gs' where r:
      "file_log rx rxs syserr env rec fl d = Inr (fl', d')" "log_inv (line_of syserr (fl_format fl)) n gs' fl' d'" "concat gs' = concat gs @ [rec]"
      "fl_severity fl' = fl_severity fl" "fl_format fl' = fl_format fl" by blast
    then have "gs' \<noteq> []" by auto
    with r True show ?thesis by (intro exI [of _ fl'] exI [of _ d'] exI [of _ gs']) (simp add: log_state_def)
  qed
qed

lemma log_steps:
  assumes "log_state (line_of syserr (fl_format fl)) n gs fl d" "0 \<le> n" "\<forall>(env, rec) \<in> set xs. healthy_env env \<and> formats syserr (fl_format fl) rec"
  shows "\<exists>fl' d' gs'. file_logs rx rxs syserr xs fl d = Inr (fl', d') \<and> log_state (line_of syserr (fl_format fl)) n gs' fl' d' \<and>
    concat gs' = concat gs @ filter (\<lambda>r. should_log r (fl_severity fl)) (map snd xs)"
  using assms
proof (induction xs arbitrary: gs fl d)
  case Nil
  then show ?case by auto
next
  case (Cons x xs)
  obtain env rec where x: "x = (env, rec)" by (cases x)
  with Cons.prems log_step [of syserr fl n gs d env rec rx rxs] obtain fl1 d1 gs1 where
    s: "file_log rx rxs syserr env rec fl d = Inr (fl1, d1)" "log_state (line_of syserr (fl_format fl)) n gs1 fl1 d1"
      "concat gs1 = concat gs @ filter (\<lambda>r. should_log r (fl_severity fl)) [rec]" "fl_severity fl1 = fl_severity fl" "fl_format fl1 = fl_format fl"
    by auto
  from Cons.IH [of fl1 gs1 d1] s Cons.prems obtain fl2 d2 gs2 where
    "file_logs rx rxs syserr xs fl1 d1 = Inr (fl2, d2)" "log_state (line_of syserr (fl_format fl)) n gs2 fl2 d2"
    "concat gs2 = concat gs1 @ filter (\<lambda>r. should_log r (fl_severity fl)) (map snd xs)" by auto
  with s x show ?case by (intro exI [of _ fl2] exI [of _ d2] exI [of _ gs2]) simp
qed

lemma log_inv_names: "log_inv line n gs fl d \<Longrightarrow> distinct (map le_name (ld_files d))"
proof -
  assume "log_inv line n gs fl d"
  then have "\<forall>i < length (ld_files d). numbered i (le_name (ld_files d ! i))" by (rule log_inv_snoc)
  then show ?thesis unfolding distinct_conv_nth using numbered_unique by (metis length_map nth_map)
qed


definition sample_record :: "string \<Rightarrow> log_record" where
  "sample_record s = (record_init (datetime_of gmtime 784111777 Second True) 1 1 None None None 1 0 Sev_info)\<lparr>lr_text := s\<rparr>"

definition quiet_env :: log_env where
  "quiet_env = \<lparr>en_now = 784111777, en_mkdir = True, en_open = True, en_write = None, en_unlink = (\<lambda>_. True)\<rparr>"


text \<open>Retention by number keeps the newest files of the pattern and touches no other file.\<close>

lemma beyond_drop: "0 \<le> k \<Longrightarrow> beyond k es = map le_name (drop (nat k) es)"
proof (induction k es rule: beyond.induct)
  case (2 keep e es)
  then show ?case by (cases "nat keep") (auto simp: nat_diff_distrib')
qed simp

lemma purge_keeps_newest:
  assumes "distinct (map le_name (ld_files d))" "ret_scheme r = Last_n_files" "0 \<le> ret_argument r" "healthy_env env"
  shows "\<exists>d'. purge rx env r d = Inr d' \<and> set (ld_files d') \<subseteq> set (ld_files d) \<and>
    length (matching rx (ret_pattern r) d') = min (nat (ret_argument r)) (length (matching rx (ret_pattern r) d)) \<and>
    (\<forall>e \<in> set (ld_files d) - set (ld_files d'). rx (ret_pattern r) (le_name e) \<and> (\<forall>e' \<in> set (matching rx (ret_pattern r) d'). le_mtime e \<le> le_mtime e'))"
proof -
  let ?m = "matching rx (ret_pattern r) d" and ?k = "nat (ret_argument r)" and ?f = "\<lambda>e. - le_mtime e"
  let ?es = "sort_key ?f ?m"
  let ?P = "\<lambda>e. le_name e \<notin> set (map le_name (drop ?k ?es))"
  let ?d = "d\<lparr>ld_files := filter ?P (ld_files d)\<rparr>"
  have p: "purge rx env r d = Inr ?d"
    using assms(2-4) by (simp add: purge_def Let_def remove_entries_def beyond_drop healthy_env_def)
  have m': "matching rx (ret_pattern r) ?d = filter ?P ?m" by (simp add: matching_def filter_filter conj_commute)
  have "distinct (map le_name ?m)" using assms(1) by (simp add: matching_def distinct_map inj_on_def)
  then have "distinct (map le_name ?es)" by (simp add: distinct_map)
  then have dd: "distinct (map le_name (take ?k ?es) @ map le_name (drop ?k ?es))" unfolding map_append [symmetric] append_take_drop_id .
  have "filter ?P (take ?k ?es) = take ?k ?es" using dd unfolding filter_id_conv distinct_append set_map by blast
  moreover have "filter ?P (drop ?k ?es) = []" unfolding filter_empty_conv set_map by blast
  ultimately have "filter ?P (take ?k ?es @ drop ?k ?es) = take ?k ?es" by (simp only: filter_append append_Nil2)
  then have "filter ?P ?es = take ?k ?es" unfolding append_take_drop_id .
  then have s: "sort_key ?f (filter ?P ?m) = take ?k ?es" unfolding filter_sort .
  have "length (filter ?P ?m) = length (sort_key ?f (filter ?P ?m))" by (simp only: length_sort)
  then have len: "length (filter ?P ?m) = min ?k (length ?m)" unfolding s length_take length_sort by (simp only: min.commute)
  have "set (filter ?P ?m) = set (sort_key ?f (filter ?P ?m))" by (simp only: set_sort)
  then have set: "set (filter ?P ?m) = set (take ?k ?es)" unfolding s .
  have sorted: "sorted (map ?f (take ?k ?es) @ map ?f (drop ?k ?es))" unfolding map_append [symmetric] append_take_drop_id by (rule sorted_sort_key)
  have "rx (ret_pattern r) (le_name e) \<and> (\<forall>e' \<in> set (filter ?P ?m). le_mtime e \<le> le_mtime e')" if e: "e \<in> set (ld_files d) - set (ld_files ?d)" for e
  proof -
    from e have "e \<in> set (ld_files d)" "le_name e \<in> le_name ` set (drop ?k ?es)" by simp_all
    then obtain e1 where e1: "e1 \<in> set (drop ?k ?es)" "le_name e = le_name e1" by blast
    then have "e1 \<in> set ?m" using in_set_dropD [OF e1(1)] by simp
    then have m1: "e1 \<in> set (ld_files d)" "rx (ret_pattern r) (le_name e1)" by (simp_all add: matching_def)
    have "inj_on le_name (set (ld_files d))" using assms(1) by (simp add: distinct_map)
    then have "e = e1" using e1(2) \<open>e \<in> set (ld_files d)\<close> m1(1) by (rule inj_onD)
    moreover have "?f e' \<le> ?f e1" if "e' \<in> set (take ?k ?es)" for e'
      using sorted that e1(1) unfolding sorted_append set_map by blast
    ultimately show ?thesis using m1(2) unfolding set by simp
  qed
  then show ?thesis using p m' len by (intro exI [of _ ?d]) auto
qed

end
