(* ===== verification/Log_Manager.thy ===== *)
theory Log_Manager
  imports Log_File
begin

text \<open>
  The log manager, \<^verbatim>\<open>liblog/src/logmgr.cpp\<close>, and the console logger, \<^verbatim>\<open>liblog/src/logger.cpp\<close>: a record goes to all loggers that are
  registered, or to a console logger when there is none. Loggers are made from a JSON configuration. Every
  path is a directory of its own.
\<close>

section \<open>Loggers\<close>

datatype destination = Dest_out | Dest_err | Dest_var

datatype logger = ConsoleLogger severity string destination | FileLogger file_logger

record log_world =
  w_dirs :: "string \<Rightarrow> log_dir"
  w_out :: string
  w_err :: string

definition console_format :: string where "console_format = ''[%s] [%f] %m''"

definition lift_json :: "'a result \<Rightarrow> log_error + 'a" where
  "lift_json r = (case r of Inl e \<Rightarrow> Inl (JsonFailed e) | Inr x \<Rightarrow> Inr x)"

definition console_log :: "(int \<Rightarrow> string) \<Rightarrow> log_record \<Rightarrow> severity \<Rightarrow> string \<Rightarrow> destination \<Rightarrow> log_world \<Rightarrow> log_error + log_world" where
  "console_log syserr rec sev fmt dest w =
     (if should_log rec sev then
        rbind (lift_json (record_format syserr fmt rec)) (\<lambda>s.
          let line = s @ [CHR 0x0A]
          in Inr (if dest = Dest_out then w\<lparr>w_out := w_out w @ line\<rparr>
                  else if dest = Dest_err then w\<lparr>w_err := w_err w @ line\<rparr>
                  else if severity_num (lr_severity rec) > severity_num Sev_info then w\<lparr>w_err := w_err w @ line\<rparr>
                  else w\<lparr>w_out := w_out w @ line\<rparr>))
      else Inr w)"

fun logger_log where
  "logger_log rx rxs syserr env rec (ConsoleLogger sev fmt dest) w =
     rbind (console_log syserr rec sev fmt dest w) (\<lambda>w. Inr (ConsoleLogger sev fmt dest, w))"
| "logger_log rx rxs syserr env rec (FileLogger fl) w =
     rbind (file_log rx rxs syserr env rec fl (w_dirs w (fl_path fl))) (\<lambda>(fl', d).
       Inr (FileLogger fl', w\<lparr>w_dirs := (w_dirs w)(fl_path fl := d)\<rparr>))"

section \<open>The manager\<close>

text \<open>The loggers by their numbers, in ascending order; whether there is a default logger.\<close>

record log_manager =
  mg_next_id :: int
  mg_loggers :: "(int \<times> logger) list"
  mg_default :: bool

definition new_manager :: log_manager where
  "new_manager = \<lparr>mg_next_id = 0, mg_loggers = [], mg_default = False\<rparr>"

definition add_logger :: "logger \<Rightarrow> log_manager \<Rightarrow> int \<times> log_manager" where
  "add_logger l m = (mg_next_id m, m\<lparr>mg_next_id := mg_next_id m + 1, mg_loggers := mg_loggers m @ [(mg_next_id m, l)]\<rparr>)"

definition remove_logger :: "int \<Rightarrow> log_manager \<Rightarrow> log_manager" where
  "remove_logger i m = m\<lparr>mg_loggers := filter (\<lambda>x. fst x \<noteq> i) (mg_loggers m)\<rparr>"

fun loggers_log where
  "loggers_log rx rxs syserr env rec [] w = Inr ([], w)"
| "loggers_log rx rxs syserr env rec ((i, l) # ls) w =
     rbind (logger_log rx rxs syserr env rec l w) (\<lambda>(l, w).
       rbind (loggers_log rx rxs syserr env rec ls w) (\<lambda>(ls, w). Inr ((i, l) # ls, w)))"

definition manager_log where
  "manager_log rx rxs syserr env rec m w =
     rbind (loggers_log rx rxs syserr env rec (mg_loggers m) w) (\<lambda>(ls, w).
       let m = m\<lparr>mg_loggers := ls\<rparr>
       in if ls = [] then
            rbind (console_log syserr rec Sev_all console_format Dest_var w) (\<lambda>w. Inr (m\<lparr>mg_default := True\<rparr>, w))
          else Inr (m\<lparr>mg_default := False\<rparr>, w))"

fun logger_reset :: "logger \<Rightarrow> logger" where
  "logger_reset (FileLogger fl) = FileLogger (file_reset fl)"
| "logger_reset (ConsoleLogger sev fmt dest) = ConsoleLogger sev fmt dest"

definition manager_reset :: "log_manager \<Rightarrow> log_manager" where
  "manager_reset m = m\<lparr>mg_loggers := map (\<lambda>(i, l). (i, logger_reset l)) (mg_loggers m)\<rparr>"

text \<open>
  The text of the printf-style \<^verbatim>\<open>log\<close>, of the whole text that \<^verbatim>\<open>vsnprintf\<close> would produce: it keeps 8190 characters and returns the
  length of the whole text, at which a zero is stored; from 8192 characters on that is behind the buffer.
\<close>

definition printf_text :: "string \<Rightarrow> string option" where
  "printf_text s = (if length s \<ge> 8192 then None else Some (take 8190 s))"

section \<open>Configuration\<close>

definition conf_severity :: "'r members \<Rightarrow> log_error + severity" where
  "conf_severity obj = rbind (lift_json (object_get_string ''severity'' ''all'' obj)) (\<lambda>s. Inr (string_to_severity s))"

definition conf_destination :: "'r members \<Rightarrow> log_error + destination" where
  "conf_destination obj = rbind (lift_json (object_get_string ''destination'' ''var'' obj)) (\<lambda>s.
     Inr (if s = ''stdout'' then Dest_out else if s = ''stderr'' then Dest_err else Dest_var))"

definition conf_object :: "string \<Rightarrow> 'r members \<Rightarrow> log_error + 'r members option" where
  "conf_object key obj =
     rbind (lift_json (object_contains key obj)) (\<lambda>c.
       if c then rbind (lift_json (object_get key obj)) (\<lambda>v. Inr (case v of T_OBJECT o' \<Rightarrow> Some o' | _ \<Rightarrow> None)) else Inr None)"

definition conf_rotation :: "'r members \<Rightarrow> log_error + rotation option" where
  "conf_rotation obj =
     rbind (conf_object ''rotation'' obj) (\<lambda>c.
       case c of
         None \<Rightarrow> Inr None
       | Some o' \<Rightarrow>
           rbind (lift_json (object_get_string ''scheme'' ''none'' o')) (\<lambda>s.
           rbind (lift_json (object_get_integer ''size'' default_size o')) (\<lambda>n.
             Inr (Some \<lparr>rot_scheme = string_to_rotation s, rot_size = n\<rparr>))))"

definition conf_retention :: "'r members \<Rightarrow> log_error + retention option" where
  "conf_retention obj =
     rbind (conf_object ''retention'' obj) (\<lambda>c.
       case c of
         None \<Rightarrow> Inr None
       | Some o' \<Rightarrow>
           rbind (lift_json (object_get_string ''scheme'' ''all'' o')) (\<lambda>s.
           rbind (lift_json (object_get_integer ''argument'' 10 o')) (\<lambda>n.
             if - (2 ^ 31) \<le> n \<and> n < 2 ^ 31 then Inr (Some \<lparr>ret_scheme = string_to_retention s, ret_argument = n, ret_pattern = []\<rparr>)
             else Inl NarrowingFailed)))"

definition load_file_logger :: "'r members \<Rightarrow> log_error + file_logger" where
  "load_file_logger obj =
     rbind (conf_severity obj) (\<lambda>sev.
     rbind (lift_json (object_get_string ''format'' default_format obj)) (\<lambda>fmt.
     rbind (lift_json (object_get_string ''path'' ''.'' obj)) (\<lambda>path.
     rbind (lift_json (object_get_boolean ''make_path'' False obj)) (\<lambda>mp.
     rbind (lift_json (object_get_boolean ''sync'' False obj)) (\<lambda>sync.
     rbind (lift_json (object_get_string ''name_format'' default_name_format obj)) (\<lambda>nf.
     rbind (conf_rotation obj) (\<lambda>rot.
     rbind (conf_retention obj) (\<lambda>ret.
       Inr ((new_file_logger path sev fmt)\<lparr>fl_make_path := mp, fl_sync := sync, fl_name_fmt := nf, fl_rotation := rot, fl_retention := ret\<rparr>)))))))))"

definition load_logger :: "'r members \<Rightarrow> log_error + logger option" where
  "load_logger obj =
     rbind (lift_json (object_contains ''type'' obj)) (\<lambda>c.
       if \<not> c then Inr None
       else rbind (lift_json (object_get ''type'' obj)) (\<lambda>v.
         case v of
           T_STRING t \<Rightarrow>
             if t = ''console'' then
               rbind (conf_severity obj) (\<lambda>sev.
               rbind (lift_json (object_get_string ''format'' console_format obj)) (\<lambda>fmt.
               rbind (conf_destination obj) (\<lambda>dest. Inr (Some (ConsoleLogger sev fmt dest)))))
             else if t = ''file'' then rbind (load_file_logger obj) (\<lambda>fl. Inr (Some (FileLogger fl)))
             else Inr None
         | _ \<Rightarrow> Inr None))"

fun load_all :: "'r json list \<Rightarrow> log_manager \<Rightarrow> log_error + log_manager" where
  "load_all [] m = Inr m"
| "load_all (v # vs) m =
     (case v of
        T_OBJECT obj \<Rightarrow> rbind (load_logger obj) (\<lambda>l. load_all vs (case l of None \<Rightarrow> m | Some l \<Rightarrow> snd (add_logger l m)))
      | _ \<Rightarrow> load_all vs m)"

text \<open>The configuration as \<^verbatim>\<open>from_file\<close> has parsed it.\<close>

definition manager_load :: "'r json \<Rightarrow> string \<Rightarrow> log_manager \<Rightarrow> log_error + log_manager" where
  "manager_load conf module m =
     (case conf of
        T_OBJECT obj \<Rightarrow>
          rbind (lift_json (object_contains module obj)) (\<lambda>c.
            if \<not> c then Inr m
            else rbind (lift_json (object_get module obj)) (\<lambda>v. case v of T_ARRAY vs \<Rightarrow> load_all vs m | _ \<Rightarrow> Inr m))
      | _ \<Rightarrow> Inr m)"

section \<open>Numbers of loggers\<close>

definition manager_ok :: "log_manager \<Rightarrow> bool" where
  "manager_ok m \<longleftrightarrow> sorted_wrt (<) (map fst (mg_loggers m)) \<and> list_all (\<lambda>i. i < mg_next_id m) (map fst (mg_loggers m))"

lemma loggers_log_ids: "loggers_log rx rxs syserr env rec ls w = Inr (ls', w') \<Longrightarrow> map fst ls' = map fst ls"
  by (induction rx rxs syserr env rec ls w arbitrary: ls' w' rule: loggers_log.induct) (auto simp: rbind_Inr)

text \<open>A number names at most one logger, whatever is added, removed, logged and reset, and a logger that was added gets every record until it is removed.\<close>

lemma manager_keeps_numbers:
  assumes "manager_ok m"
  shows "manager_ok (snd (add_logger l m))" "manager_ok (remove_logger i m)" "manager_ok (manager_reset m)"
    "manager_log rx rxs syserr env rec m w = Inr (m', w') \<Longrightarrow> manager_ok m' \<and> map fst (mg_loggers m') = map fst (mg_loggers m)"
proof -
  show "manager_ok (snd (add_logger l m))"
    using assms by (auto simp: manager_ok_def add_logger_def sorted_wrt_append list_all_iff)
  show "manager_ok (remove_logger i m)"
    using assms by (auto simp: manager_ok_def remove_logger_def list_all_iff sorted_wrt_map intro: sorted_wrt_filter)
  have "map fst (mg_loggers (manager_reset m)) = map fst (mg_loggers m)" by (simp add: manager_reset_def split_beta comp_def)
  moreover have "mg_next_id (manager_reset m) = mg_next_id m" by (simp add: manager_reset_def)
  ultimately show "manager_ok (manager_reset m)" using assms by (simp only: manager_ok_def)
  assume "manager_log rx rxs syserr env rec m w = Inr (m', w')"
  then obtain ls w1 where l: "loggers_log rx rxs syserr env rec (mg_loggers m) w = Inr (ls, w1)" "mg_loggers m' = ls" "mg_next_id m' = mg_next_id m"
    by (auto simp: manager_log_def rbind_Inr Let_def split: if_splits)
  then show "manager_ok m' \<and> map fst (mg_loggers m') = map fst (mg_loggers m)"
    using assms loggers_log_ids [OF l(1)] by (simp only: manager_ok_def simp_thms)
qed

lemma default_logger_used:
  assumes "mg_loggers m = []" "record_format syserr console_format rec = Inr s" "severity_num (lr_severity rec) \<le> severity_num Sev_info"
  shows "manager_log rx rxs syserr env rec m w = Inr (m\<lparr>mg_default := True\<rparr>, w\<lparr>w_out := w_out w @ s @ [CHR 0x0A]\<rparr>)"
proof -
  have "should_log rec Sev_all" by (cases "lr_severity rec") (simp_all add: should_log_def)
  moreover have "m\<lparr>mg_loggers := []\<rparr> = m" using assms(1) by (cases m) simp
  ultimately show ?thesis using assms by (simp add: manager_log_def console_log_def lift_json_def)
qed

end
