(* ===== verification/Lock_Table.thy ===== *)
theory Lock_Table
  imports Prelude
begin

text \<open>
  The locks of hash table entries, \<^verbatim>\<open>librdb/src/rwlock.cpp\<close> and the lock operations of
  \<^verbatim>\<open>librdb/src/hashtable.cpp\<close>. A lock is taken from a pool when the first thread comes to an entry and
  goes back when the last one leaves. The table has one mutex, which \<open>rdlock\<close> and \<open>wrlock\<close> hold while
  they wait for the lock of the entry.
\<close>

section \<open>Reader-writer locks\<close>

definition E_lock_failed :: int where "E_lock_failed = -12"
definition E_unlock_failed :: int where "E_unlock_failed = -13"

definition EBUSY :: int where "EBUSY = 16"
definition EAGAIN :: int where "EAGAIN = 11"

text \<open>
  The lock of the system: it has readers or one writer. A call that waits has no result; \<open>e\<close> is the
  error the system reports, 0 for none.
\<close>

record prwlock =
  pr_readers :: nat
  pr_writer :: bool

definition pthread_rdlock :: "int \<Rightarrow> prwlock \<Rightarrow> (prwlock \<times> int) option" where
  "pthread_rdlock e l =
     (if e \<noteq> 0 then Some (l, e)
      else if pr_writer l then None
      else Some (l\<lparr>pr_readers := pr_readers l + 1\<rparr>, 0))"

definition pthread_wrlock :: "int \<Rightarrow> prwlock \<Rightarrow> (prwlock \<times> int) option" where
  "pthread_wrlock e l =
     (if e \<noteq> 0 then Some (l, e)
      else if pr_writer l \<or> pr_readers l > 0 then None
      else Some (l\<lparr>pr_writer := True\<rparr>, 0))"

definition pthread_try :: "(prwlock \<times> int) option \<Rightarrow> prwlock \<Rightarrow> prwlock \<times> int" where
  "pthread_try r l = (case r of None \<Rightarrow> (l, EBUSY) | Some x \<Rightarrow> x)"

definition pthread_unlock :: "int \<Rightarrow> prwlock \<Rightarrow> prwlock \<times> int" where
  "pthread_unlock e l =
     (if e \<noteq> 0 then (l, e)
      else if pr_writer l then (l\<lparr>pr_writer := False\<rparr>, 0)
      else (l\<lparr>pr_readers := pr_readers l - 1\<rparr>, 0))"

record rwlock =
  rw_cnt :: int
  rw_lock :: prwlock

definition RWLock :: rwlock where
  "RWLock = \<lparr>rw_cnt = 0, rw_lock = \<lparr>pr_readers = 0, pr_writer = False\<rparr>\<rparr>"

definition RWLock_unlock :: "int \<Rightarrow> rwlock \<Rightarrow> rwlock \<times> int" where
  "RWLock_unlock e l =
     (case pthread_unlock e (rw_lock l) of (p, r) \<Rightarrow> if r \<noteq> 0 then (l, E_unlock_failed) else (l\<lparr>rw_lock := p\<rparr>, E_ok))"

definition RWLock_rdlock :: "int \<Rightarrow> rwlock \<Rightarrow> (rwlock \<times> int) option" where
  "RWLock_rdlock e l =
     map_option (\<lambda>(p, r). if r \<noteq> 0 then (l, E_lock_failed) else (l\<lparr>rw_cnt := rw_cnt l + 1, rw_lock := p\<rparr>, E_ok))
       (pthread_rdlock e (rw_lock l))"

definition RWLock_tryrdlock :: "int \<Rightarrow> rwlock \<Rightarrow> rwlock \<times> int" where
  "RWLock_tryrdlock e l =
     (case pthread_try (pthread_rdlock e (rw_lock l)) (rw_lock l) of
        (p, r) \<Rightarrow>
          if r \<noteq> 0 then (l, if r = EBUSY \<or> r = EAGAIN then E_try_again else E_lock_failed)
          else (l\<lparr>rw_cnt := rw_cnt l + 1, rw_lock := p\<rparr>, E_ok))"

definition RWLock_rdunlock :: "int \<Rightarrow> rwlock \<Rightarrow> rwlock \<times> int" where
  "RWLock_rdunlock e l =
     (if rw_cnt l > 0 then
        (case RWLock_unlock e (l\<lparr>rw_cnt := rw_cnt l - 1\<rparr>) of
           (l, r) \<Rightarrow> if r \<noteq> E_ok then (l\<lparr>rw_cnt := rw_cnt l + 1\<rparr>, r) else (l, r))
      else (l, E_ok))"

definition RWLock_wrlock :: "int \<Rightarrow> rwlock \<Rightarrow> (rwlock \<times> int) option" where
  "RWLock_wrlock e l =
     map_option (\<lambda>(p, r). if r \<noteq> 0 then (l, E_lock_failed) else (l\<lparr>rw_cnt := rw_cnt l + 1, rw_lock := p\<rparr>, E_ok))
       (pthread_wrlock e (rw_lock l))"

definition RWLock_trywrlock :: "int \<Rightarrow> rwlock \<Rightarrow> rwlock \<times> int" where
  "RWLock_trywrlock e l =
     (case pthread_try (pthread_wrlock e (rw_lock l)) (rw_lock l) of
        (p, r) \<Rightarrow>
          if r \<noteq> 0 then (l, if r = EBUSY \<or> r = EAGAIN then E_try_again else E_lock_failed)
          else (l\<lparr>rw_cnt := rw_cnt l + 1, rw_lock := p\<rparr>, E_ok))"

definition RWLock_wrunlock :: "int \<Rightarrow> rwlock \<Rightarrow> rwlock \<times> int" where
  "RWLock_wrunlock e l =
     (if rw_cnt l > 0 then
        (case RWLock_unlock e (l\<lparr>rw_cnt := rw_cnt l - 1\<rparr>) of
           (l, r) \<Rightarrow> if r \<noteq> E_ok then (l\<lparr>rw_cnt := rw_cnt l + 1\<rparr>, r) else (l, r))
      else (l, E_ok))"

section \<open>Locks of table entries\<close>

text \<open>Locks have a number; the pool and the entries hold numbers.\<close>

record lock_table =
  lt_locks :: "rwlock list"
  lt_pool :: "nat list"
  lt_entry :: "nat option list"

definition RWLockPool_get :: "lock_table \<Rightarrow> lock_table \<times> nat" where
  "RWLockPool_get tb =
     (case lt_pool tb of
        k # rest \<Rightarrow> (tb\<lparr>lt_pool := rest\<rparr>, k)
      | [] \<Rightarrow> (tb\<lparr>lt_locks := lt_locks tb @ [RWLock]\<rparr>, length (lt_locks tb)))"

definition RWLockPool_put :: "lock_table \<Rightarrow> nat \<Rightarrow> lock_table" where
  "RWLockPool_put tb k = tb\<lparr>lt_pool := lt_pool tb @ [k]\<rparr>"

text \<open>
  The part of \<open>rdlock\<close> and \<open>wrlock\<close> before the wait, the wait, and the unlock operations; an index out
  of range or a failed call aborts.
\<close>

definition entry_lock :: "lock_table \<Rightarrow> nat \<Rightarrow> lock_table option" where
  "entry_lock tb i =
     (if i \<ge> length (lt_entry tb) then None
      else case lt_entry tb ! i of
        Some _ \<Rightarrow> Some tb
      | None \<Rightarrow> (case RWLockPool_get tb of (tb, k) \<Rightarrow> Some (tb\<lparr>lt_entry := (lt_entry tb)[i := Some k]\<rparr>)))"

definition entry_wait :: "bool \<Rightarrow> int \<Rightarrow> lock_table \<Rightarrow> nat \<Rightarrow> lock_table option" where
  "entry_wait excl e tb i =
     (if i \<ge> length (lt_entry tb) then None
      else case lt_entry tb ! i of
        None \<Rightarrow> None
      | Some k \<Rightarrow>
          (case (if excl then RWLock_wrlock else RWLock_rdlock) e (lt_locks tb ! k) of
             None \<Rightarrow> None
           | Some (l, r) \<Rightarrow> if r = E_ok then Some (tb\<lparr>lt_locks := (lt_locks tb)[k := l]\<rparr>) else None))"

definition ht_rdunlock :: "int \<Rightarrow> lock_table \<Rightarrow> nat \<Rightarrow> lock_table option" where
  "ht_rdunlock e tb i =
     (if i \<ge> length (lt_entry tb) then None
      else case lt_entry tb ! i of
        None \<Rightarrow> Some tb
      | Some k \<Rightarrow>
          (case RWLock_rdunlock e (lt_locks tb ! k) of
             (l, _) \<Rightarrow>
               let tb = tb\<lparr>lt_locks := (lt_locks tb)[k := l]\<rparr>
               in if rw_cnt l = 0 then Some ((RWLockPool_put tb k)\<lparr>lt_entry := (lt_entry tb)[i := None]\<rparr>) else Some tb))"

definition ht_wrunlock :: "int \<Rightarrow> lock_table \<Rightarrow> nat \<Rightarrow> lock_table option" where
  "ht_wrunlock e tb i =
     (if i \<ge> length (lt_entry tb) then None
      else case lt_entry tb ! i of
        None \<Rightarrow> Some tb
      | Some k \<Rightarrow>
          (case RWLock_wrunlock e (lt_locks tb ! k) of
             (l, _) \<Rightarrow>
               let tb = tb\<lparr>lt_locks := (lt_locks tb)[k := l]\<rparr>
               in Some ((RWLockPool_put tb k)\<lparr>lt_entry := (lt_entry tb)[i := None]\<rparr>)))"

section \<open>Threads\<close>

text \<open>
  Where a thread is with its lock guard: outside, before the table mutex, waiting for the lock of the
  entry with the mutex held, inside, or before the mutex on its way out. The flag tells a writer.
\<close>

datatype pc = Out | Acquire nat bool | Wait nat bool | Inside nat bool | Release nat bool

record sys =
  sy_table :: lock_table
  sy_mutex :: "nat option"
  sy_pc :: "nat \<Rightarrow> pc"

definition guard_release :: "bool \<Rightarrow> lock_table \<Rightarrow> nat \<Rightarrow> lock_table option" where
  "guard_release excl tb i = (if excl then ht_wrunlock 0 tb i else ht_rdunlock 0 tb i)"

inductive lock_step :: "sys \<Rightarrow> sys \<Rightarrow> bool" where
  call: "sy_pc s t = Out \<Longrightarrow> i < length (lt_entry (sy_table s)) \<Longrightarrow>
    lock_step s (s\<lparr>sy_pc := (sy_pc s)(t := Acquire i x)\<rparr>)"
| enter: "sy_pc s t = Acquire i x \<Longrightarrow> sy_mutex s = None \<Longrightarrow> entry_lock (sy_table s) i = Some tb \<Longrightarrow>
    lock_step s (s\<lparr>sy_table := tb, sy_mutex := Some t, sy_pc := (sy_pc s)(t := Wait i x)\<rparr>)"
| grant: "sy_pc s t = Wait i x \<Longrightarrow> entry_wait x 0 (sy_table s) i = Some tb \<Longrightarrow>
    lock_step s (s\<lparr>sy_table := tb, sy_mutex := None, sy_pc := (sy_pc s)(t := Inside i x)\<rparr>)"
| leave: "sy_pc s t = Inside i x \<Longrightarrow> lock_step s (s\<lparr>sy_pc := (sy_pc s)(t := Release i x)\<rparr>)"
| release: "sy_pc s t = Release i x \<Longrightarrow> sy_mutex s = None \<Longrightarrow> guard_release x (sy_table s) i = Some tb \<Longrightarrow>
    lock_step s (s\<lparr>sy_table := tb, sy_pc := (sy_pc s)(t := Out)\<rparr>)"

inductive_cases lock_stepE: "lock_step s s'"

definition lock_init :: "nat \<Rightarrow> sys" where
  "lock_init n = \<lparr>sy_table = \<lparr>lt_locks = [], lt_pool = [], lt_entry = replicate n None\<rparr>, sy_mutex = None, sy_pc = (\<lambda>_. Out)\<rparr>"

abbreviation lock_reach :: "nat \<Rightarrow> sys \<Rightarrow> bool" where
  "lock_reach n s \<equiv> lock_step\<^sup>*\<^sup>* (lock_init n) s"

section \<open>The invariant\<close>

definition hold :: "(nat \<Rightarrow> pc) \<Rightarrow> nat \<Rightarrow> bool \<Rightarrow> nat set" where
  "hold pcs i x = {t. pcs t = Inside i x \<or> pcs t = Release i x}"

definition waits :: "(nat \<Rightarrow> pc) \<Rightarrow> nat \<Rightarrow> bool" where
  "waits pcs i \<longleftrightarrow> (\<exists>t x. pcs t = Wait i x)"

lemma hold_upd:
  "hold (pcs(t := p)) i x = (if p = Inside i x \<or> p = Release i x then insert t (hold pcs i x) else hold pcs i x - {t})"
  by (auto simp: hold_def)

text \<open>What the lock of entry \<open>i\<close> says about the threads there.\<close>

definition lock_is :: "rwlock \<Rightarrow> (nat \<Rightarrow> pc) \<Rightarrow> nat \<Rightarrow> bool" where
  "lock_is l pcs i \<longleftrightarrow>
     rw_lock l = \<lparr>pr_readers = card (hold pcs i False), pr_writer = (hold pcs i True \<noteq> {})\<rparr> \<and>
     rw_cnt l = int (card (hold pcs i False) + card (hold pcs i True)) \<and>
     (hold pcs i True \<noteq> {} \<longrightarrow> card (hold pcs i True) = 1 \<and> hold pcs i False = {})"

definition entry_inv :: "lock_table \<Rightarrow> (nat \<Rightarrow> pc) \<Rightarrow> nat \<Rightarrow> bool" where
  "entry_inv tb pcs i \<longleftrightarrow>
     (case lt_entry tb ! i of
        None \<Rightarrow> hold pcs i False = {} \<and> hold pcs i True = {} \<and> \<not> waits pcs i
      | Some k \<Rightarrow> lock_is (lt_locks tb ! k) pcs i \<and> (hold pcs i False \<noteq> {} \<or> hold pcs i True \<noteq> {} \<or> waits pcs i))"

text \<open>Every lock is in the pool, free, or at exactly one entry.\<close>

definition pool_inv :: "lock_table \<Rightarrow> bool" where
  "pool_inv tb \<longleftrightarrow>
     distinct (lt_pool tb) \<and> (\<forall>k\<in>set (lt_pool tb). lt_locks tb ! k = RWLock \<and> Some k \<notin> set (lt_entry tb)) \<and>
     {..<length (lt_locks tb)} = set (lt_pool tb) \<union> {k. Some k \<in> set (lt_entry tb)} \<and>
     (\<forall>i j k. i < length (lt_entry tb) \<and> j < length (lt_entry tb) \<and> lt_entry tb ! i = Some k \<and> lt_entry tb ! j = Some k \<longrightarrow> i = j)"

definition lock_inv :: "sys \<Rightarrow> bool" where
  "lock_inv s \<longleftrightarrow>
     finite {t. sy_pc s t \<noteq> Out} \<and> (\<forall>t i x. sy_pc s t = Wait i x \<longrightarrow> sy_mutex s = Some t) \<and>
     (\<forall>t. sy_mutex s = Some t \<longrightarrow> (\<exists>i x. sy_pc s t = Wait i x)) \<and>
     (\<forall>i\<ge>length (lt_entry (sy_table s)). \<forall>x. hold (sy_pc s) i x = {}) \<and>
     (\<forall>i<length (lt_entry (sy_table s)). entry_inv (sy_table s) (sy_pc s) i) \<and> pool_inv (sy_table s)"

section \<open>Every step keeps the invariant\<close>

lemma waits_upd: "waits (pcs(t := p)) i \<longleftrightarrow> (\<exists>x. p = Wait i x) \<or> (\<exists>u x. u \<noteq> t \<and> pcs u = Wait i x)"
  by (auto simp: waits_def)

lemma hold_finite: "finite {t. pcs t \<noteq> Out} \<Longrightarrow> finite (hold pcs i x)"
  by (rule finite_subset [of _ "{t. pcs t \<noteq> Out}"]) (auto simp: hold_def)

lemma entry_inv_cong:
  assumes "entry_inv tb pcs j" "lt_entry tb' ! j = lt_entry tb ! j" "\<And>x. hold pcs' j x = hold pcs j x" "waits pcs' j = waits pcs j"
    "\<And>k. lt_entry tb ! j = Some k \<Longrightarrow> lt_locks tb' ! k = lt_locks tb ! k"
  shows "entry_inv tb' pcs' j"
  using assms by (auto simp: entry_inv_def lock_is_def split: option.splits)

lemma finite_pcs: "finite {t. pcs t \<noteq> Out} \<Longrightarrow> finite {u. (pcs(t := p)) u \<noteq> Out}"
  by (rule finite_subset [of _ "insert t {u. pcs u \<noteq> Out}"]) auto

lemma some_in_update:
  "i < length es \<Longrightarrow> es ! i = None \<Longrightarrow> Some m \<in> set (es[i := Some k]) \<longleftrightarrow> m = k \<or> Some m \<in> set es"
  by (auto simp: in_set_conv_nth nth_list_update) (metis option.distinct(1))+

lemma pool_get_inv:
  assumes "pool_inv tb" "i < length (lt_entry tb)" "lt_entry tb ! i = None" "RWLockPool_get tb = (tb1, k)"
  shows "pool_inv (tb1\<lparr>lt_entry := (lt_entry tb1)[i := Some k]\<rparr>)" "lt_locks tb1 ! k = RWLock" "lt_entry tb1 = lt_entry tb"
    "\<And>j m. j < length (lt_entry tb) \<Longrightarrow> lt_entry tb ! j = Some m \<Longrightarrow> m \<noteq> k \<and> lt_locks tb1 ! m = lt_locks tb ! m"
proof -
  note mem = some_in_update [OF assms(2,3)]
  have used: "m < length (lt_locks tb) \<and> m \<notin> set (lt_pool tb)" if "j < length (lt_entry tb)" "lt_entry tb ! j = Some m" for j m
  proof -
    have "Some m \<in> set (lt_entry tb)" using that nth_mem by fastforce
    then show ?thesis using assms(1) unfolding pool_inv_def by blast
  qed
  have tb1: "lt_entry tb1 = lt_entry tb" "(lt_pool tb = k # lt_pool tb1 \<and> lt_locks tb1 = lt_locks tb) \<or>
      (lt_pool tb = [] \<and> lt_pool tb1 = [] \<and> k = length (lt_locks tb) \<and> lt_locks tb1 = lt_locks tb @ [RWLock])"
    using assms(4) by (auto simp: RWLockPool_get_def split: list.splits)
  show k: "lt_locks tb1 ! k = RWLock" using tb1(2) assms(1) by (auto simp: pool_inv_def)
  show other: "m \<noteq> k \<and> lt_locks tb1 ! m = lt_locks tb ! m" if "j < length (lt_entry tb)" "lt_entry tb ! j = Some m" for j m
    using used [OF that] tb1(2) by (auto simp: nth_append)
  show "lt_entry tb1 = lt_entry tb" by (rule tb1(1))
  let ?es = "(lt_entry tb)[i := Some k]"
  have "distinct (lt_pool tb1)" using tb1(2) assms(1) by (auto simp: pool_inv_def)
  moreover have "{..<length (lt_locks tb1)} = set (lt_pool tb1) \<union> {m. Some m \<in> set ?es}"
    using tb1(2) assms(1) by (auto simp: pool_inv_def mem lessThan_Suc)
  moreover have "\<forall>m\<in>set (lt_pool tb1). lt_locks tb1 ! m = RWLock \<and> Some m \<notin> set ?es"
    using tb1(2) assms(1) by (auto simp: pool_inv_def mem)
  moreover have "a = b" if "a < length (lt_entry tb)" "b < length (lt_entry tb)" "?es ! a = Some m" "?es ! b = Some m" for a b m
  proof -
    have old: "a = i \<and> m = k \<or> a \<noteq> i \<and> lt_entry tb ! a = Some m" "b = i \<and> m = k \<or> b \<noteq> i \<and> lt_entry tb ! b = Some m"
      using that assms(2) by (auto simp: nth_list_update split: if_splits)
    then show ?thesis using other that(1,2) assms(1) unfolding pool_inv_def by blast
  qed
  ultimately show "pool_inv (tb1\<lparr>lt_entry := (lt_entry tb1)[i := Some k]\<rparr>)"
    by (simp add: pool_inv_def tb1(1))
qed

lemma some_in_clear:
  assumes "i < length es" "es ! i = Some k" "\<And>j. j < length es \<Longrightarrow> es ! j = Some k \<Longrightarrow> j = i"
  shows "Some m \<in> set (es[i := None]) \<longleftrightarrow> m \<noteq> k \<and> Some m \<in> set es"
proof
  assume "Some m \<in> set (es[i := None])"
  then obtain j where j: "j < length es" "es[i := None] ! j = Some m" by (auto simp: in_set_conv_nth)
  then have "j \<noteq> i" by auto
  with j have "es ! j = Some m" by simp
  with j(1) \<open>j \<noteq> i\<close> assms(3) show "m \<noteq> k \<and> Some m \<in> set es" by (metis nth_mem)
next
  assume m: "m \<noteq> k \<and> Some m \<in> set es"
  then obtain j where j: "j < length es" "es ! j = Some m" by (auto simp: in_set_conv_nth)
  with m assms(2) have "es[i := None] ! j = Some m" by (cases "j = i") auto
  with j(1) show "Some m \<in> set (es[i := None])" by (metis length_list_update nth_mem)
qed

lemma pool_put_inv:
  assumes "pool_inv tb" "i < length (lt_entry tb)" "lt_entry tb ! i = Some k" "l = RWLock"
  shows "pool_inv (tb\<lparr>lt_locks := (lt_locks tb)[k := l], lt_pool := lt_pool tb @ [k], lt_entry := (lt_entry tb)[i := None]\<rparr>)"
proof -
  let ?es = "(lt_entry tb)[i := None]" and ?ls = "(lt_locks tb)[k := l]"
  have k: "Some k \<in> set (lt_entry tb)" using assms(2,3) nth_mem by fastforce
  have only: "j = i" if "j < length (lt_entry tb)" "lt_entry tb ! j = Some k" for j
    using assms(1-3) that unfolding pool_inv_def by blast
  have mem: "Some m \<in> set ?es \<longleftrightarrow> m \<noteq> k \<and> Some m \<in> set (lt_entry tb)" for m
    by (rule some_in_clear [OF assms(2,3) only])
  have "k < length (lt_locks tb)" "k \<notin> set (lt_pool tb)" using assms(1) k unfolding pool_inv_def by blast+
  then have "distinct (lt_pool tb @ [k])" "\<forall>m\<in>set (lt_pool tb @ [k]). ?ls ! m = RWLock \<and> Some m \<notin> set ?es"
    using assms(1,4) mem unfolding pool_inv_def by (auto simp: nth_list_update)
  moreover have "{..<length ?ls} = set (lt_pool tb @ [k]) \<union> {m. Some m \<in> set ?es}"
    using assms(1) k unfolding pool_inv_def by (auto simp: mem)
  moreover have "a = b" if "a < length (lt_entry tb)" "b < length (lt_entry tb)" "?es ! a = Some m" "?es ! b = Some m" for a b m
  proof -
    have "lt_entry tb ! a = Some m" "lt_entry tb ! b = Some m"
      using that assms(2) by (metis nth_list_update_eq nth_list_update_neq option.distinct(1))+
    then show ?thesis using that(1,2) assms(1) unfolding pool_inv_def by blast
  qed
  ultimately show ?thesis by (simp add: pool_inv_def)
qed

lemma entry_lock_exists:
  assumes "pool_inv tb" "i < length (lt_entry tb)" "lt_entry tb ! i = Some k"
  shows "k < length (lt_locks tb)"
proof -
  have "Some k \<in> set (lt_entry tb)" using assms(2,3) nth_mem by fastforce
  then show ?thesis using assms(1) unfolding pool_inv_def by blast
qed

lemma other_lock:
  assumes "pool_inv tb" "j < length (lt_entry tb)" "i < length (lt_entry tb)" "lt_entry tb ! j = Some m" "lt_entry tb ! i = Some k" "j \<noteq> i"
  shows "m \<noteq> k"
  using assms unfolding pool_inv_def by blast

lemma pool_lock_inv:
  assumes "pool_inv tb" "i < length (lt_entry tb)" "lt_entry tb ! i = Some k"
  shows "pool_inv (tb\<lparr>lt_locks := (lt_locks tb)[k := l]\<rparr>)"
proof -
  have "Some k \<in> set (lt_entry tb)" using assms(2,3) nth_mem by fastforce
  then have "k \<notin> set (lt_pool tb)" using assms(1) unfolding pool_inv_def by blast
  then have "(lt_locks tb)[k := l] ! m = lt_locks tb ! m" if "m \<in> set (lt_pool tb)" for m
    using that by (metis nth_list_update_neq)
  then show ?thesis using assms(1) by (simp add: pool_inv_def)
qed

text \<open>The operations on the lock of an entry, in terms of the threads that hold it.\<close>

lemma wait_lock:
  assumes "lock_is l pcs i" "(if x then RWLock_wrlock else RWLock_rdlock) 0 l = Some (l', E_ok)"
    "finite {t. pcs t \<noteq> Out}" "pcs t = Wait i x"
  shows "lock_is l' (pcs(t := Inside i x)) i"
proof -
  have t: "t \<notin> hold pcs i y" for y using assms(4) by (simp add: hold_def)
  note fin = hold_finite [OF assms(3)]
  show ?thesis
  proof (cases x)
    case True
    with assms(1,2) have "hold pcs i False = {}" "hold pcs i True = {}"
      using fin by (auto simp: RWLock_wrlock_def pthread_wrlock_def lock_is_def split: if_splits)
    with True assms(1,2) t show ?thesis
      by (auto simp: RWLock_wrlock_def pthread_wrlock_def lock_is_def hold_upd split: if_splits)
  next
    case False
    with assms(1,2) t fin show ?thesis
      by (auto simp: RWLock_rdlock_def pthread_rdlock_def lock_is_def hold_upd split: if_splits)
  qed
qed

lemma unlock_rd:
  assumes "lock_is l pcs i" "finite {t. pcs t \<noteq> Out}" "pcs t = Release i False"
  shows "\<exists>l'. RWLock_rdunlock 0 l = (l', E_ok) \<and> lock_is l' (pcs(t := Out)) i"
proof -
  have t: "t \<in> hold pcs i False" "t \<notin> hold pcs i True" using assms(3) by (auto simp: hold_def)
  note fin = hold_finite [OF assms(2)]
  have w: "hold pcs i True = {}" using assms(1) t by (auto simp: lock_is_def)
  have "0 < card (hold pcs i False)" using t fin by (auto simp: card_gt_0_iff)
  then show ?thesis using assms(1) t fin w
    by (auto simp: RWLock_rdunlock_def RWLock_unlock_def pthread_unlock_def lock_is_def hold_upd)
qed

lemma unlock_wr:
  assumes "lock_is l pcs i" "finite {t. pcs t \<noteq> Out}" "pcs t = Release i True"
  shows "RWLock_wrunlock 0 l = (RWLock, E_ok) \<and> hold pcs i True = {t} \<and> hold pcs i False = {}"
proof -
  have t: "t \<in> hold pcs i True" using assms(3) by (auto simp: hold_def)
  have c: "card (hold pcs i True) = 1" "hold pcs i False = {}" using assms(1) t by (auto simp: lock_is_def)
  then have "hold pcs i True = {t}" using t by (metis card_1_singletonE singletonD)
  with assms(1) c show ?thesis
    by (auto simp: RWLock_wrunlock_def RWLock_unlock_def pthread_unlock_def lock_is_def RWLock_def)
qed

text \<open>A step of thread \<open>t\<close> at entry \<open>i\<close> leaves the other entries alone.\<close>

definition at_entry :: "pc \<Rightarrow> nat \<Rightarrow> bool" where
  "at_entry p i \<longleftrightarrow> (case p of Out \<Rightarrow> False | Acquire j x \<Rightarrow> False | Wait j x \<Rightarrow> j = i | Inside j x \<Rightarrow> j = i | Release j x \<Rightarrow> j = i)"

lemma elsewhere:
  assumes "\<not> at_entry (pcs t) j" "\<not> at_entry p j"
  shows "hold (pcs(t := p)) j x = hold pcs j x" "waits (pcs(t := p)) j = waits pcs j"
proof -
  show "hold (pcs(t := p)) j x = hold pcs j x" using assms by (auto simp: hold_def at_entry_def)
  have "pcs u = Wait j y \<Longrightarrow> u \<noteq> t" for u y using assms(1) by (auto simp: at_entry_def)
  moreover have "p \<noteq> Wait j y" for y using assms(2) by (auto simp: at_entry_def)
  ultimately show "waits (pcs(t := p)) j = waits pcs j" unfolding waits_upd by (auto simp: waits_def)
qed

lemma lock_invI:
  assumes "finite {u. sy_pc s u \<noteq> Out}" "\<And>u i x. sy_pc s u = Wait i x \<Longrightarrow> sy_mutex s = Some u"
    "\<And>u. sy_mutex s = Some u \<Longrightarrow> \<exists>i x. sy_pc s u = Wait i x" "pool_inv (sy_table s)"
    "\<And>i x. i \<ge> length (lt_entry (sy_table s)) \<Longrightarrow> hold (sy_pc s) i x = {}"
    "\<And>i. i < length (lt_entry (sy_table s)) \<Longrightarrow> entry_inv (sy_table s) (sy_pc s) i"
  shows "lock_inv s"
  using assms by (simp add: lock_inv_def)

lemma lock_invD:
  assumes "lock_inv s"
  shows "finite {u. sy_pc s u \<noteq> Out}" "sy_pc s u = Wait i x \<Longrightarrow> sy_mutex s = Some u"
    "sy_mutex s = Some u \<Longrightarrow> \<exists>i x. sy_pc s u = Wait i x" "pool_inv (sy_table s)"
    "i \<ge> length (lt_entry (sy_table s)) \<Longrightarrow> hold (sy_pc s) i x = {}"
    "i < length (lt_entry (sy_table s)) \<Longrightarrow> entry_inv (sy_table s) (sy_pc s) i"
proof -
  note c = assms [unfolded lock_inv_def]
  show "i \<ge> length (lt_entry (sy_table s)) \<Longrightarrow> hold (sy_pc s) i x = {}" using c by blast
  show "finite {u. sy_pc s u \<noteq> Out}" using c by blast
  show "sy_pc s u = Wait i x \<Longrightarrow> sy_mutex s = Some u" using c by blast
  show "sy_mutex s = Some u \<Longrightarrow> \<exists>i x. sy_pc s u = Wait i x" using c by blast
  show "pool_inv (sy_table s)" using c by blast
  show "i < length (lt_entry (sy_table s)) \<Longrightarrow> entry_inv (sy_table s) (sy_pc s) i" using c by blast
qed

lemma call_inv:
  assumes "lock_inv s" "sy_pc s t = Out" "i < length (lt_entry (sy_table s))"
  shows "lock_inv (s\<lparr>sy_pc := (sy_pc s)(t := Acquire i x)\<rparr>)"
proof -
  have e: "hold ((sy_pc s)(t := Acquire i x)) j y = hold (sy_pc s) j y" "waits ((sy_pc s)(t := Acquire i x)) j = waits (sy_pc s) j" for j y
    using elsewhere [of "sy_pc s" t j "Acquire i x"] assms(2) by (simp_all add: at_entry_def)
  note d = lock_invD [OF assms(1)]
  show ?thesis
  proof (rule lock_invI, goal_cases)
    case 1 then show ?case using finite_pcs [OF d(1), of t] by simp
  next
    case (2 u j y) then show ?case using d(2) [of u] by (cases "u = t") auto
  next
    case (3 u) then show ?case using d(3) [of u] assms(2) by auto
  next
    case (6 j) then show ?case using d(6) [of j] by (auto intro: entry_inv_cong [OF _ refl e])
  qed (use d(4,5) e in auto)
qed

lemma leave_inv:
  assumes "lock_inv s" "sy_pc s t = Inside i x"
  shows "lock_inv (s\<lparr>sy_pc := (sy_pc s)(t := Release i x)\<rparr>)"
proof -
  have h: "hold ((sy_pc s)(t := Release i x)) j y = hold (sy_pc s) j y" for j y using assms(2) by (auto simp: hold_def)
  have w: "waits ((sy_pc s)(t := Release i x)) j = waits (sy_pc s) j" for j
    unfolding waits_upd using assms(2) by (auto simp: waits_def) (metis pc.distinct(15))
  note d = lock_invD [OF assms(1)]
  show ?thesis
  proof (rule lock_invI, goal_cases)
    case 1 then show ?case using finite_pcs [OF d(1), of t] by simp
  next
    case (2 u j y) then show ?case using d(2) [of u] by (cases "u = t") auto
  next
    case (3 u) then show ?case using d(3) [of u] assms(2) by auto
  next
    case (6 j) then show ?case using d(6) [of j] by (auto intro: entry_inv_cong [OF _ refl h w])
  qed (use d(4,5) h in auto)
qed

lemma enter_inv:
  assumes "lock_inv s" "sy_pc s t = Acquire i x" "sy_mutex s = None" "entry_lock (sy_table s) i = Some tb"
  shows "lock_inv (s\<lparr>sy_table := tb, sy_mutex := Some t, sy_pc := (sy_pc s)(t := Wait i x)\<rparr>)"
proof -
  let ?p = "(sy_pc s)(t := Wait i x)" and ?tb = "sy_table s"
  note d = lock_invD [OF assms(1)]
  have i: "i < length (lt_entry ?tb)" using assms(4) by (auto simp: entry_lock_def split: if_splits)
  have h: "hold ?p j y = hold (sy_pc s) j y" for j y using assms(2) by (auto simp: hold_def)
  have nopc: "sy_pc s u \<noteq> Wait j y" for u j y using d(2) [of u] assms(3) by auto
  have w: "waits ?p j \<longleftrightarrow> j = i" for j unfolding waits_upd using nopc by auto
  have nw: "\<not> waits (sy_pc s) j" for j using nopc by (simp add: waits_def)
  have "pool_inv tb \<and> length (lt_entry tb) = length (lt_entry ?tb) \<and> (\<forall>j<length (lt_entry ?tb). entry_inv tb ?p j)"
  proof (cases "lt_entry ?tb ! i")
    case (Some k)
    then have tb: "tb = ?tb" using assms(4) i by (auto simp: entry_lock_def)
    have "entry_inv tb ?p j" if "j < length (lt_entry ?tb)" for j
      using d(6) [OF that] w nw h Some tb by (auto simp: entry_inv_def lock_is_def split: option.splits)
    then show ?thesis using tb d(4) by simp
  next
    case None
    obtain tb1 k where g: "RWLockPool_get ?tb = (tb1, k)" by fastforce
    note q = pool_get_inv [OF d(4) i None g]
    have tb: "tb = tb1\<lparr>lt_entry := (lt_entry tb1)[i := Some k]\<rparr>" using assms(4) i None g by (auto simp: entry_lock_def)
    have "entry_inv tb ?p j" if j: "j < length (lt_entry ?tb)" for j
    proof (cases "j = i")
      case True
      have "hold (sy_pc s) i y = {}" for y using d(6) [OF i] None by (cases y) (auto simp: entry_inv_def)
      then show ?thesis using True i q(2,3) w h by (simp add: entry_inv_def tb lock_is_def RWLock_def)
    next
      case False
      show ?thesis
        by (rule entry_inv_cong [OF d(6) [OF j]]) (use False j q(3,4) tb h w nw in auto)
    qed
    then show ?thesis using q(1,3) tb by simp
  qed
  then have r: "pool_inv tb" "length (lt_entry tb) = length (lt_entry ?tb)" "\<And>j. j < length (lt_entry ?tb) \<Longrightarrow> entry_inv tb ?p j" by auto
  show ?thesis
  proof (rule lock_invI, goal_cases)
    case 1 then show ?case using finite_pcs [OF d(1), of t] by simp
  next
    case (2 u j y) then show ?case using nopc [of u] by (cases "u = t") auto
  qed (use r d(5) h in auto)
qed

lemma grant_inv:
  assumes "lock_inv s" "sy_pc s t = Wait i x" "entry_wait x 0 (sy_table s) i = Some tb"
  shows "lock_inv (s\<lparr>sy_table := tb, sy_mutex := None, sy_pc := (sy_pc s)(t := Inside i x)\<rparr>)"
proof -
  let ?p = "(sy_pc s)(t := Inside i x)" and ?tb = "sy_table s"
  note d = lock_invD [OF assms(1)]
  from assms(3) obtain k l where k: "i < length (lt_entry ?tb)" "lt_entry ?tb ! i = Some k"
    "(if x then RWLock_wrlock else RWLock_rdlock) 0 (lt_locks ?tb ! k) = Some (l, E_ok)" "tb = ?tb\<lparr>lt_locks := (lt_locks ?tb)[k := l]\<rparr>"
    unfolding entry_wait_def by (auto split: if_splits option.splits)
  have li: "lock_is (lt_locks ?tb ! k) (sy_pc s) i" using d(6) [OF k(1)] k(2) by (simp add: entry_inv_def)
  have kl: "k < length (lt_locks ?tb)" by (rule entry_lock_exists [OF d(4) k(1,2)])
  have t: "t \<in> hold ?p i x" by (simp add: hold_def)
  have e: "entry_inv tb ?p j" if j: "j < length (lt_entry ?tb)" for j
  proof (cases "j = i")
    case True
    show ?thesis using wait_lock [OF li k(3) d(1) assms(2)] t True k(2,4) kl by (cases x) (auto simp: entry_inv_def)
  next
    case False
    have "\<not> at_entry (sy_pc s t) j" "\<not> at_entry (Inside i x) j" using False assms(2) by (auto simp: at_entry_def)
    note e = elsewhere [where pcs = "sy_pc s" and t = t and p = "Inside i x", OF this]
    show ?thesis
    proof (rule entry_inv_cong [OF d(6) [OF j] _ e])
      fix m assume "lt_entry ?tb ! j = Some m"
      then have "m \<noteq> k" using other_lock [OF d(4) j k(1) _ k(2)] False by blast
      then show "lt_locks tb ! m = lt_locks ?tb ! m" using k(4) by simp
    qed (use k(4) in simp)
  qed
  have only: "sy_pc s u = Wait j y \<Longrightarrow> u = t" for u j y using d(2) [of u] d(2) [OF assms(2)] by auto
  show ?thesis
  proof (rule lock_invI, goal_cases)
    case 1 then show ?case using finite_pcs [OF d(1), of t] by simp
  next
    case (2 u j y) then show ?case using only [of u] by (cases "u = t") auto
  next
    case (5 j y) then show ?case using d(5) [of j] k(1,4) by (auto simp: hold_upd)
  qed (use e pool_lock_inv [OF d(4) k(1,2)] k(4) in auto)
qed

lemma release_inv:
  assumes "lock_inv s" "sy_pc s t = Release i x" "sy_mutex s = None" "guard_release x (sy_table s) i = Some tb"
  shows "lock_inv (s\<lparr>sy_table := tb, sy_pc := (sy_pc s)(t := Out)\<rparr>)"
proof -
  let ?p = "(sy_pc s)(t := Out)" and ?tb = "sy_table s"
  note d = lock_invD [OF assms(1)]
  have nopc: "sy_pc s u \<noteq> Wait j y" for u j y using d(2) [of u] assms(3) by auto
  have nw: "\<not> waits (sy_pc s) j" "\<not> waits ?p j" for j using nopc by (auto simp: waits_def)
  have t: "t \<in> hold (sy_pc s) i x" using assms(2) by (simp add: hold_def)
  have i: "i < length (lt_entry ?tb)" using d(5) [of i x] t by (metis empty_iff not_le)
  from d(6) [OF i] t obtain k where k: "lt_entry ?tb ! i = Some k" by (cases x) (auto simp: entry_inv_def split: option.splits)
  have li: "lock_is (lt_locks ?tb ! k) (sy_pc s) i" using d(6) [OF i] k by (simp add: entry_inv_def)
  have kl: "k < length (lt_locks ?tb)" by (rule entry_lock_exists [OF d(4) i k])
  have "\<exists>l. (lock_is l ?p i \<and> (hold ?p i False \<noteq> {} \<or> hold ?p i True \<noteq> {}) \<and> tb = ?tb\<lparr>lt_locks := (lt_locks ?tb)[k := l]\<rparr>) \<or>
      ((\<forall>y. hold ?p i y = {}) \<and> l = RWLock \<and>
       tb = ?tb\<lparr>lt_locks := (lt_locks ?tb)[k := l], lt_pool := lt_pool ?tb @ [k], lt_entry := (lt_entry ?tb)[i := None]\<rparr>)"
  proof (cases x)
    case True
    from unlock_wr [OF li d(1)] assms(2) True have u: "RWLock_wrunlock 0 (lt_locks ?tb ! k) = (RWLock, E_ok)"
      "hold (sy_pc s) i True = {t}" "hold (sy_pc s) i False = {}" by auto
    have "hold ?p i y = {}" for y using u(2,3) by (cases y) (auto simp: hold_upd)
    then show ?thesis using assms(4) True i k u(1) by (auto simp: guard_release_def ht_wrunlock_def RWLockPool_put_def)
  next
    case False
    from unlock_rd [OF li d(1)] assms(2) False obtain l where u: "RWLock_rdunlock 0 (lt_locks ?tb ! k) = (l, E_ok)" "lock_is l ?p i" by auto
    have f: "finite (hold ?p i y)" for y by (rule hold_finite [OF finite_pcs [OF d(1)]])
    show ?thesis
    proof (cases "rw_cnt l = 0")
      case True
      then have z: "hold ?p i True = {}" "hold ?p i False = {}" using u(2) f by (auto simp: lock_is_def)
      then have "l = RWLock" "\<forall>y. hold ?p i y = {}" using u(2) by (auto simp: lock_is_def RWLock_def all_bool_eq)
      then show ?thesis using assms(4) False True i k u(1) by (auto simp: guard_release_def ht_rdunlock_def RWLockPool_put_def Let_def)
    next
      case nz: False
      then have "hold ?p i False \<noteq> {} \<or> hold ?p i True \<noteq> {}" using u(2) by (auto simp: lock_is_def)
      then show ?thesis using assms(4) False nz i k u by (auto simp: guard_release_def ht_rdunlock_def Let_def)
    qed
  qed
  then obtain l where l: "(lock_is l ?p i \<and> (hold ?p i False \<noteq> {} \<or> hold ?p i True \<noteq> {}) \<and> tb = ?tb\<lparr>lt_locks := (lt_locks ?tb)[k := l]\<rparr>) \<or>
      ((\<forall>y. hold ?p i y = {}) \<and> l = RWLock \<and>
       tb = ?tb\<lparr>lt_locks := (lt_locks ?tb)[k := l], lt_pool := lt_pool ?tb @ [k], lt_entry := (lt_entry ?tb)[i := None]\<rparr>)" by blast
  have pool: "pool_inv tb" using l pool_lock_inv [OF d(4) i k, of l] pool_put_inv [OF d(4) i k] by auto
  have len: "length (lt_entry tb) = length (lt_entry ?tb)" using l by auto
  have e: "entry_inv tb ?p j" if j: "j < length (lt_entry ?tb)" for j
  proof (cases "j = i")
    case True
    show ?thesis using l True i k kl nw by (auto simp: entry_inv_def)
  next
    case False
    have "\<not> at_entry (sy_pc s t) j" "\<not> at_entry Out j" using False assms(2) by (auto simp: at_entry_def)
    note e = elsewhere [where pcs = "sy_pc s" and t = t and p = Out, OF this]
    show ?thesis
    proof (rule entry_inv_cong [OF d(6) [OF j] _ e])
      fix m assume "lt_entry ?tb ! j = Some m"
      then have "m \<noteq> k" using other_lock [OF d(4) j i _ k] False by blast
      then show "lt_locks tb ! m = lt_locks ?tb ! m" using l by auto
    qed (use l False in auto)
  qed
  show ?thesis
  proof (rule lock_invI, goal_cases)
    case 1 then show ?case using finite_pcs [OF d(1), of t] by simp
  next
    case (2 u j y) then show ?case using nopc [of u] by (cases "u = t") auto
  next
    case (5 j y) then show ?case using d(5) [of j] len by (auto simp: hold_upd)
  qed (use e pool len assms(3) in auto)
qed

lemma lock_step_inv: "lock_step s s' \<Longrightarrow> lock_inv s \<Longrightarrow> lock_inv s'"
  by (erule lock_step.cases) (auto intro: call_inv enter_inv grant_inv leave_inv release_inv)

lemma lock_init_inv: "lock_inv (lock_init n)"
  by (rule lock_invI) (auto simp: lock_init_def pool_inv_def hold_def entry_inv_def waits_def)

lemma lock_reach_inv: "lock_reach n s \<Longrightarrow> lock_inv s"
  by (induction rule: rtranclp_induct) (auto intro: lock_init_inv lock_step_inv)

section \<open>What the locks guarantee\<close>

text \<open>
  C17: In every state the threads can reach, a thread inside a guard that writes an entry is the only
  thread inside at that entry; the count of an entry's lock is the number of threads that hold it;
  and when no thread is anywhere in the table every lock ever made is free in the pool.
\<close>

theorem entry_locks_exclude:
  assumes "lock_reach n s"
  shows "(\<forall>t u i x. sy_pc s t = Inside i True \<and> sy_pc s u = Inside i x \<longrightarrow> t = u) \<and>
    (\<forall>i k. i < length (lt_entry (sy_table s)) \<and> lt_entry (sy_table s) ! i = Some k \<longrightarrow>
       rw_cnt (lt_locks (sy_table s) ! k) = int (card (hold (sy_pc s) i False) + card (hold (sy_pc s) i True))) \<and>
    ((\<forall>t. sy_pc s t = Out) \<longrightarrow> set (lt_entry (sy_table s)) \<subseteq> {None} \<and>
       set (lt_pool (sy_table s)) = {..<length (lt_locks (sy_table s))} \<and> (\<forall>l\<in>set (lt_locks (sy_table s)). l = RWLock))"
proof (intro conjI allI impI)
  note d = lock_invD [OF lock_reach_inv [OF assms]]
  fix t u i x
  assume a: "sy_pc s t = Inside i True \<and> sy_pc s u = Inside i x"
  then have h: "t \<in> hold (sy_pc s) i True" "u \<in> hold (sy_pc s) i x" by (auto simp: hold_def)
  then have "i < length (lt_entry (sy_table s))" using d(5) [of i True] by (metis empty_iff not_le)
  from d(6) [OF this] h obtain k where "lock_is (lt_locks (sy_table s) ! k) (sy_pc s) i"
    by (auto simp: entry_inv_def split: option.splits)
  with h have "card (hold (sy_pc s) i True) = 1" "hold (sy_pc s) i False = {}" by (auto simp: lock_is_def)
  with h show "t = u" by (cases x) (auto simp: card_1_singleton_iff)
next
  note d = lock_invD [OF lock_reach_inv [OF assms]]
  fix i k assume "i < length (lt_entry (sy_table s)) \<and> lt_entry (sy_table s) ! i = Some k"
  then show "rw_cnt (lt_locks (sy_table s) ! k) = int (card (hold (sy_pc s) i False) + card (hold (sy_pc s) i True))"
    using d(6) [of i] by (simp add: entry_inv_def lock_is_def)
next
  note d = lock_invD [OF lock_reach_inv [OF assms]]
  assume out: "\<forall>t. sy_pc s t = Out"
  have none: "lt_entry (sy_table s) ! i = None" if "i < length (lt_entry (sy_table s))" for i
    using d(6) [OF that] out by (auto simp: entry_inv_def hold_def waits_def split: option.splits)
  then show "set (lt_entry (sy_table s)) \<subseteq> {None}" by (auto simp: in_set_conv_nth)
  then have "{k. Some k \<in> set (lt_entry (sy_table s))} = {}" by auto
  then show pool: "set (lt_pool (sy_table s)) = {..<length (lt_locks (sy_table s))}" using d(4) by (simp add: pool_inv_def)
  show "\<forall>l\<in>set (lt_locks (sy_table s)). l = RWLock"
    using d(4) pool by (auto simp: pool_inv_def in_set_conv_nth)
qed

definition reader_inside :: "nat \<Rightarrow> sys" where
  "reader_inside n =
     \<lparr>sy_table = \<lparr>lt_locks = [\<lparr>rw_cnt = 1, rw_lock = \<lparr>pr_readers = 1, pr_writer = False\<rparr>\<rparr>], lt_pool = [],
        lt_entry = (replicate n None)[0 := Some 0]\<rparr>, sy_mutex = None, sy_pc = (\<lambda>_. Out)(0 := Inside 0 False)\<rparr>"

lemma reader_reached:
  assumes "0 < n"
  shows "lock_reach n (reader_inside n)"
proof -
  let ?es = "(replicate n None)[0 := Some 0]"
  let ?tb = "\<lparr>lt_locks = [RWLock], lt_pool = [], lt_entry = ?es\<rparr>"
  let ?s1 = "(lock_init n)\<lparr>sy_pc := (sy_pc (lock_init n))(0 := Acquire 0 False)\<rparr>"
  let ?s2 = "?s1\<lparr>sy_table := ?tb, sy_mutex := Some 0, sy_pc := (sy_pc ?s1)(0 := Wait 0 False)\<rparr>"
  have "lock_reach n (lock_init n)" by simp
  also have "lock_step (lock_init n) ?s1" by (rule lock_step.call) (simp_all add: lock_init_def assms)
  also have "lock_step ?s1 ?s2"
    by (rule lock_step.enter) (use assms in \<open>simp_all add: lock_init_def entry_lock_def RWLockPool_get_def\<close>)
  also have "lock_step ?s2 (?s2\<lparr>sy_table := sy_table (reader_inside n), sy_mutex := None, sy_pc := (sy_pc ?s2)(0 := Inside 0 False)\<rparr>)"
    by (rule lock_step.grant)
      (use assms in \<open>simp_all add: reader_inside_def entry_wait_def RWLock_rdlock_def pthread_rdlock_def RWLock_def\<close>)
  finally show ?thesis by (simp add: reader_inside_def lock_init_def)
qed

theorem entry_locks_exclude_witness:
  "lock_reach 3 (reader_inside 3) \<and> sy_pc (reader_inside 3) 0 = Inside 0 False \<and>
   (\<forall>t. sy_pc (reader_inside 3) t \<noteq> Inside 0 True) \<and> rw_cnt (lt_locks (sy_table (reader_inside 3)) ! 0) = 1"
proof -
  have r: "lock_reach 3 (reader_inside 3)" by (rule reader_reached) simp
  have p: "sy_pc (reader_inside 3) 0 = Inside 0 False" by (simp add: reader_inside_def)
  have "sy_pc (reader_inside 3) t \<noteq> Inside 0 True" for t
  proof
    assume a: "sy_pc (reader_inside 3) t = Inside 0 True"
    from conjunct1 [OF entry_locks_exclude [OF r], rule_format, OF conjI [OF a p]] a p show False by simp
  qed
  moreover have "rw_cnt (lt_locks (sy_table (reader_inside 3)) ! 0) = 1" by (simp add: reader_inside_def)
  ultimately show ?thesis using r p by simp
qed

definition locked_up :: "sys \<Rightarrow> bool" where
  "locked_up s \<longleftrightarrow>
     sy_pc s 0 = Release 0 False \<and> sy_pc s 1 = Wait 0 True \<and> sy_mutex s = Some 1 \<and>
     (\<exists>k. lt_entry (sy_table s) ! 0 = Some k \<and> pr_readers (rw_lock (lt_locks (sy_table s) ! k)) > 0)"

lemma locked_up_stays:
  assumes "lock_step s s'" "locked_up s" "lock_inv s"
  shows "locked_up s'"
  using assms(1)
proof cases
  case (grant t i x tb)
  have "t = 1" using lock_invD(2) [OF assms(3) grant(2)] assms(2) by (simp add: locked_up_def)
  with grant assms(2) have "i = 0" "x" by (auto simp: locked_up_def)
  with grant(3) assms(2) show ?thesis
    by (auto simp: locked_up_def entry_wait_def RWLock_wrlock_def pthread_wrlock_def split: if_splits)
next
  case (call t i x)
  with assms(2) have "t \<noteq> 0" "t \<noteq> 1" unfolding locked_up_def by (metis pc.distinct)+
  with call assms(2) show ?thesis by (simp add: locked_up_def)
next
  case (leave t i x)
  with assms(2) have "t \<noteq> 0" "t \<noteq> 1" unfolding locked_up_def by (metis pc.distinct)+
  with leave assms(2) show ?thesis by (simp add: locked_up_def)
qed (use assms(2) in \<open>simp_all add: locked_up_def\<close>)

lemma locked_up_reached:
  assumes "0 < n"
  shows "\<exists>s. lock_reach n s \<and> locked_up s"
proof -
  let ?r = "reader_inside n"
  let ?s1 = "?r\<lparr>sy_pc := (sy_pc ?r)(1 := Acquire 0 True)\<rparr>"
  let ?s2 = "?s1\<lparr>sy_table := sy_table ?r, sy_mutex := Some 1, sy_pc := (sy_pc ?s1)(1 := Wait 0 True)\<rparr>"
  let ?s3 = "?s2\<lparr>sy_pc := (sy_pc ?s2)(0 := Release 0 False)\<rparr>"
  note reader_reached [OF assms]
  also have "lock_step ?r ?s1" by (rule lock_step.call) (use assms in \<open>simp_all add: reader_inside_def\<close>)
  also have "lock_step ?s1 ?s2" by (rule lock_step.enter) (use assms in \<open>simp_all add: reader_inside_def entry_lock_def\<close>)
  also have "lock_step ?s2 ?s3" by (rule lock_step.leave) (simp add: reader_inside_def)
  finally have "lock_reach n ?s3" .
  moreover have "locked_up ?s3" using assms by (simp add: locked_up_def reader_inside_def)
  ultimately show ?thesis by blast
qed

lemma locked_up_forever:
  assumes "lock_step\<^sup>*\<^sup>* s s'" "locked_up s" "lock_inv s"
  shows "locked_up s' \<and> lock_inv s'"
  using assms by (induction rule: rtranclp_induct) (auto intro: locked_up_stays lock_step_inv)

text \<open>
  C18: The table locks up as soon as a writer comes to an entry that is being read: \<open>wrlock\<close> waits for
  the readers of the entry with the table mutex held, and a reader needs that mutex to leave. From
  then on neither goes on and no thread anywhere in the table gets in or out.
\<close>

theorem entry_locks_deadlock:
  assumes "0 < n"
  shows "\<exists>s. lock_reach n s \<and> sy_pc s 0 = Release 0 False \<and> sy_pc s 1 = Wait 0 True \<and>
    (\<forall>s'. lock_step\<^sup>*\<^sup>* s s' \<longrightarrow> sy_pc s' 0 = Release 0 False \<and> sy_pc s' 1 = Wait 0 True \<and> sy_mutex s' = Some 1)"
proof -
  from locked_up_reached [OF assms] obtain s where s: "lock_reach n s" "locked_up s" by blast
  then have "\<forall>s'. lock_step\<^sup>*\<^sup>* s s' \<longrightarrow> locked_up s'" using locked_up_forever lock_reach_inv by blast
  with s show ?thesis unfolding locked_up_def by blast
qed

theorem entry_locks_deadlock_witness:
  "\<exists>s. lock_reach 1 s \<and> (\<forall>s'. lock_step\<^sup>*\<^sup>* s s' \<longrightarrow> sy_mutex s' = Some 1)"
  using entry_locks_deadlock [of 1] by auto

end
