(* ===== verification/Db_Files.thy ===== *)
theory Db_Files
  imports Free_Disk_Pages Key_Page
begin

text \<open>
  The three files of a database, \<^verbatim>\<open>librdb/src/dbfiles.cpp\<close>: the attributes, the key pages and
  the value pages. Pages are records in memory and bytes on the disk; the byte layout is that of
  the structures of \<^verbatim>\<open>dbstruct.h\<close> on a little-endian machine with natural alignment, with the
  words that no code reads left zero. A page is always \<^verbatim>\<open>kpSize\<close> bytes, a multiple of 64.
\<close>

section \<open>Layout\<close>

definition field :: "byte list \<Rightarrow> nat \<Rightarrow> nat \<Rightarrow> int" where
  "field bs pos n = to_signed (8 * n) (le_value (take n (drop pos bs)))"

definition key_rec_bytes :: "key_rec \<Rightarrow> byte list" where
  "key_rec_bytes r =
     le_bytes 1 (kr_flags r) @ le_bytes 1 (kr_height r) @ le_bytes 2 (kr_left r) @ le_bytes 2 (kr_right r) @
     le_bytes 2 (kr_klen r) @ kr_key r @ le_bytes 8 (kr_voff r)"

definition key_rec_of :: "byte list \<Rightarrow> key_rec" where
  "key_rec_of bs =
     \<lparr>kr_flags = field bs 0 1, kr_height = field bs 1 1, kr_left = field bs 2 2, kr_right = field bs 4 2,
      kr_klen = field bs 6 2, kr_key = take 48 (drop 8 bs), kr_voff = field bs 56 8\<rparr>"

definition key_hdr_bytes :: "key_page \<Rightarrow> byte list" where
  "key_hdr_bytes kp =
     le_bytes 2 (kp_flags kp) @ le_bytes 2 (kp_vcount kp) @ le_bytes 2 (kp_root kp) @ le_bytes 2 0 @
     le_bytes 4 (kp_hash kp) @ le_bytes 4 0 @ le_bytes 8 (kp_poff kp) @ le_bytes 8 (kp_noff kp) @ replicate 32 0"

definition key_page_bytes :: "key_page \<Rightarrow> byte list" where
  "key_page_bytes kp = key_hdr_bytes kp @ concat (map key_rec_bytes (kp_keys kp))"

definition key_page_of :: "byte list \<Rightarrow> key_page" where
  "key_page_of bs =
     \<lparr>kp_flags = field bs 0 2, kp_vcount = field bs 2 2, kp_root = field bs 4 2, kp_hash = field bs 8 4,
      kp_poff = field bs 16 8, kp_noff = field bs 24 8,
      kp_keys = map (\<lambda>i. key_rec_of (take 64 (drop (64 + 64 * i) bs))) [0..<(length bs - 64) div 64]\<rparr>"

definition KPAGE_DELETED :: int where "KPAGE_DELETED = 1"

definition IsKeyPageDeleted :: "key_page \<Rightarrow> bool" where
  "IsKeyPageDeleted kp \<longleftrightarrow> odd (kp_flags kp)"

record value_page =
  vp_flags :: int
  vp_klen :: int
  vp_vlen :: int
  vp_key :: "byte list"
  vp_value :: "byte list"

definition MAX_VALUE_LENGTH :: nat where "MAX_VALUE_LENGTH = 192"
definition VPAGE_DELETED :: int where "VPAGE_DELETED = 1"

definition IsValuePageDeleted :: "value_page \<Rightarrow> bool" where
  "IsValuePageDeleted vp \<longleftrightarrow> odd (vp_flags vp)"

definition InitValuePage :: "byte list \<Rightarrow> int \<Rightarrow> byte list \<Rightarrow> int \<Rightarrow> value_page option" where
  "InitValuePage key klen val vlen = do {
     k \<leftarrow> memcpy (replicate MAX_KEY_LENGTH 0) key klen;
     v \<leftarrow> memcpy (replicate MAX_VALUE_LENGTH 0) val vlen;
     Some \<lparr>vp_flags = 0, vp_klen = klen, vp_vlen = vlen, vp_key = k, vp_value = v\<rparr>
   }"

definition value_page_bytes :: "value_page \<Rightarrow> byte list" where
  "value_page_bytes vp =
     le_bytes 2 (vp_flags vp) @ le_bytes 2 0 @ le_bytes 4 0 @ le_bytes 4 (vp_klen vp) @ le_bytes 4 (vp_vlen vp) @
     vp_key vp @ vp_value vp"

definition value_page_of :: "byte list \<Rightarrow> value_page" where
  "value_page_of bs =
     \<lparr>vp_flags = field bs 0 2, vp_klen = field bs 8 4, vp_vlen = field bs 12 4,
      vp_key = take 48 (drop 16 bs), vp_value = take 192 (drop 64 bs)\<rparr>"

definition sizeof_value_page :: int where "sizeof_value_page = 256"

section \<open>Whole transfers\<close>

definition OpenFile :: "snf_file \<Rightarrow> bool \<Rightarrow> snf_file \<times> int" where
  "OpenFile f sync = file_open f (open_flags0\<lparr>o_read := True, o_write := True, o_create := True, o_sync := sync\<rparr>)"

definition ReadFile :: "snf_file \<Rightarrow> int \<Rightarrow> int \<Rightarrow> snf_file \<times> int \<times> byte list" where
  "ReadFile f off toRead =
     (case file_read_at f off True toRead True of
        (f, r, bs) \<Rightarrow>
          (f, if r \<noteq> E_ok then r else if bs = [] then E_eof_detected
              else if int (length bs) \<noteq> toRead then E_read_failed else r, bs))"

definition WriteFile :: "snf_file \<Rightarrow> int \<Rightarrow> byte list \<Rightarrow> int \<Rightarrow> snf_file \<times> int" where
  "WriteFile f off buf toWrite =
     (case file_write_at f off (Some buf) toWrite True of
        (f, r, bWritten) \<Rightarrow> (f, if r \<noteq> E_ok then r else if bWritten \<noteq> toWrite then E_write_failed else r))"

section \<open>The attributes file\<close>

record attr_file =
  af_file :: snf_file
  a_kpsize :: int
  a_htsize :: int

definition AttrFile :: "snf_file \<Rightarrow> attr_file" where
  "AttrFile f = \<lparr>af_file = f, a_kpsize = 0, a_htsize = 0\<rparr>"

definition attr_open :: "attr_file \<Rightarrow> attr_file \<times> int" where
  "attr_open a = (case OpenFile (af_file a) False of (f, r) \<Rightarrow> (a\<lparr>af_file := f\<rparr>, r))"

text \<open>A short read fills the structure only in part.\<close>

definition attr_read :: "attr_file \<Rightarrow> attr_file \<times> int" where
  "attr_read a =
     (case ReadFile (af_file a) 0 8 of
        (f, r, bs) \<Rightarrow>
          let old = le_bytes 4 (a_kpsize a) @ le_bytes 4 (a_htsize a);
              buf = bs @ drop (length bs) old
          in (a\<lparr>af_file := f, a_kpsize := field buf 0 4, a_htsize := field buf 4 4\<rparr>, r))"

definition attr_write :: "attr_file \<Rightarrow> attr_file \<times> int" where
  "attr_write a =
     (case WriteFile (af_file a) 0 (le_bytes 4 (a_kpsize a) @ le_bytes 4 (a_htsize a)) 8 of
        (f, r) \<Rightarrow> (a\<lparr>af_file := f\<rparr>, r))"

section \<open>The key file\<close>

text \<open>Both page files are a file with a free disk page manager, set once the database is open.\<close>

record db_file =
  df_file :: snf_file
  df_fdp :: "fdp_mgr option"

definition new_db_file :: "snf_file \<Rightarrow> db_file" where
  "new_db_file f = \<lparr>df_file = f, df_fdp = None\<rparr>"

definition kf_open :: "db_file \<Rightarrow> bool \<Rightarrow> db_file \<times> int" where
  "kf_open k sync = (case OpenFile (df_file k) sync of (f, r) \<Rightarrow> (k\<lparr>df_file := f\<rparr>, r))"

definition kf_read :: "db_file \<Rightarrow> int \<Rightarrow> int \<Rightarrow> db_file \<times> int \<times> byte list" where
  "kf_read k off toRead = (case ReadFile (df_file k) off toRead of (f, r, bs) \<Rightarrow> (k\<lparr>df_file := f\<rparr>, r, bs))"

definition kf_write :: "db_file \<Rightarrow> int \<Rightarrow> byte list \<Rightarrow> int \<Rightarrow> db_file \<times> int" where
  "kf_write k off buf toWrite = (case WriteFile (df_file k) off buf toWrite of (f, r) \<Rightarrow> (k\<lparr>df_file := f\<rparr>, r))"

text \<open>The offset is an output: it is set only on success.\<close>

definition kf_write_new :: "db_file \<Rightarrow> int \<Rightarrow> byte list \<Rightarrow> int \<Rightarrow> (db_file \<times> int \<times> int) option" where
  "kf_write_new k off buf toWrite = do {
     m \<leftarrow> df_fdp k;
     (m, newOffset) \<leftarrow> fdp_get m;
     let k = k\<lparr>df_fdp := Some m\<rparr>;
     if newOffset < 0 then Some (k, to_int32 newOffset, off)
     else
       (case kf_write k newOffset buf toWrite of
          (k, r) \<Rightarrow>
            if r \<noteq> E_ok then do { (m, _) \<leftarrow> fdp_free m newOffset; Some (k\<lparr>df_fdp := Some m\<rparr>, r, off) }
            else Some (k, r, newOffset))
   }"

text \<open>
  The flags are written as an \<^verbatim>\<open>int\<close>, over the two bytes of the flags and the two bytes of the key
  count that follow; the page in memory, when there is one, only gets the flags.
\<close>

definition kf_writeFlags :: "db_file \<Rightarrow> int \<Rightarrow> key_page option \<Rightarrow> int \<Rightarrow> db_file \<times> key_page option \<times> int" where
  "kf_writeFlags k off kp flags =
     (case kf_write k (off + 0) (le_bytes 4 flags) 4 of
        (k, r) \<Rightarrow> (k, if r = E_ok then map_option (kp_flags_update (\<lambda>_. to_short flags)) kp else kp, r))"

definition kf_writePrevOffset :: "db_file \<Rightarrow> int \<Rightarrow> key_page option \<Rightarrow> int \<Rightarrow> db_file \<times> key_page option \<times> int" where
  "kf_writePrevOffset k off kp prevOffset =
     (case kf_write k (off + 16) (le_bytes 8 prevOffset) 8 of
        (k, r) \<Rightarrow> (k, if r = E_ok then map_option (kp_poff_update (\<lambda>_. prevOffset)) kp else kp, r))"

definition kf_writeNextOffset :: "db_file \<Rightarrow> int \<Rightarrow> key_page option \<Rightarrow> int \<Rightarrow> db_file \<times> key_page option \<times> int" where
  "kf_writeNextOffset k off kp nextOffset =
     (case kf_write k (off + 24) (le_bytes 8 nextOffset) 8 of
        (k, r) \<Rightarrow> (k, if r = E_ok then map_option (kp_noff_update (\<lambda>_. nextOffset)) kp else kp, r))"

definition kf_freePage :: "db_file \<Rightarrow> int \<Rightarrow> (db_file \<times> int) option" where
  "kf_freePage k off =
     (case df_fdp k of
        Some m \<Rightarrow> map_option (\<lambda>(m, r). (k\<lparr>df_fdp := Some m\<rparr>, r)) (fdp_free m off)
      | None \<Rightarrow> Some (k, E_invalid_state))"

section \<open>The value file\<close>

definition vf_open :: "db_file \<Rightarrow> bool \<Rightarrow> db_file \<times> int" where
  "vf_open v sync = (case OpenFile (df_file v) sync of (f, r) \<Rightarrow> (v\<lparr>df_file := f\<rparr>, r))"

definition vf_read :: "db_file \<Rightarrow> int \<Rightarrow> db_file \<times> int \<times> byte list" where
  "vf_read v off = (case ReadFile (df_file v) off sizeof_value_page of (f, r, bs) \<Rightarrow> (v\<lparr>df_file := f\<rparr>, r, bs))"

definition vf_readFlags :: "db_file \<Rightarrow> int \<Rightarrow> db_file \<times> int \<times> int" where
  "vf_readFlags v off =
     (case ReadFile (df_file v) (off + 0) 4 of (f, r, bs) \<Rightarrow> (v\<lparr>df_file := f\<rparr>, r, field bs 0 4))"

definition vf_write :: "db_file \<Rightarrow> int \<Rightarrow> value_page \<Rightarrow> db_file \<times> int" where
  "vf_write v off vp =
     (case WriteFile (df_file v) off (value_page_bytes vp) sizeof_value_page of (f, r) \<Rightarrow> (v\<lparr>df_file := f\<rparr>, r))"

text \<open>A failed write gives the page back and leaves the offset alone, but reports success.\<close>

definition vf_write_new :: "db_file \<Rightarrow> int \<Rightarrow> value_page \<Rightarrow> (db_file \<times> int \<times> int) option" where
  "vf_write_new v off vp = do {
     m \<leftarrow> df_fdp v;
     (m, newOffset) \<leftarrow> fdp_get m;
     let v = v\<lparr>df_fdp := Some m\<rparr>;
     if newOffset < 0 then Some (v, to_int32 newOffset, off)
     else
       (case vf_write v newOffset vp of
          (v, r) \<Rightarrow>
            if r \<noteq> E_ok then do { (m, _) \<leftarrow> fdp_free m newOffset; Some (v\<lparr>df_fdp := Some m\<rparr>, E_ok, off) }
            else Some (v, E_ok, newOffset))
   }"

definition vf_writeFlags :: "db_file \<Rightarrow> int \<Rightarrow> value_page option \<Rightarrow> int \<Rightarrow> db_file \<times> value_page option \<times> int" where
  "vf_writeFlags v off vp flags =
     (case WriteFile (df_file v) (off + 0) (le_bytes 4 flags) 4 of
        (f, r) \<Rightarrow> (v\<lparr>df_file := f\<rparr>, if r = E_ok then map_option (vp_flags_update (\<lambda>_. to_short flags)) vp else vp, r))"

definition vf_freePage :: "db_file \<Rightarrow> int \<Rightarrow> (db_file \<times> int) option" where
  "vf_freePage v off =
     (case df_fdp v of
        Some m \<Rightarrow> map_option (\<lambda>(m, r). (v\<lparr>df_fdp := Some m\<rparr>, r)) (fdp_free m off)
      | None \<Rightarrow> Some (v, E_invalid_state))"

section \<open>Reading the layout back\<close>

definition fits :: "nat \<Rightarrow> int \<Rightarrow> bool" where
  "fits n x \<longleftrightarrow> - (2 ^ (8 * n - 1)) \<le> x \<and> x < 2 ^ (8 * n - 1)"

text \<open>What a field of \<open>n\<close> bytes keeps of a value.\<close>

definition narrow :: "nat \<Rightarrow> int \<Rightarrow> int" where
  "narrow n x = to_signed (8 * n) (x mod 256 ^ n)"

lemma narrow_fits: "0 < n \<Longrightarrow> fits n x \<Longrightarrow> narrow n x = x"
proof -
  assume n: "0 < n" and x: "fits n x"
  have w: "(256::int) ^ n = 2 ^ (8 * n)" by (simp add: power_mult)
  from n obtain m where m: "8 * n = Suc m" by (cases "8 * n") auto
  have "(x mod 2 ^ Suc m + 2 ^ m) mod 2 ^ Suc m = (x + 2 ^ m) mod 2 ^ Suc m" by (rule mod_add_left_eq)
  also have "\<dots> = x + 2 ^ m" using x m by (intro mod_pos_pos_trivial) (auto simp: fits_def)
  finally show ?thesis unfolding narrow_def to_signed_def w m by simp
qed

lemma field_le_bytes: "take n (drop pos bs) = le_bytes n x \<Longrightarrow> field bs pos n = narrow n x"
  by (simp add: field_def narrow_def le_value_le_bytes)

lemma fits_simps [simp]:
  "fits (Suc 0) x \<longleftrightarrow> - 128 \<le> x \<and> x < 128" "fits 2 x \<longleftrightarrow> - 32768 \<le> x \<and> x < 32768"
  "fits 4 x \<longleftrightarrow> - 2147483648 \<le> x \<and> x < 2147483648"
  by (simp_all add: fits_def)

lemma length_key_rec_bytes: "length (kr_key r) = 48 \<Longrightarrow> length (key_rec_bytes r) = 64"
  by (simp add: key_rec_bytes_def)

lemma length_key_hdr_bytes [simp]: "length (key_hdr_bytes kp) = 64"
  by (simp add: key_hdr_bytes_def)

definition keys_48 :: "key_page \<Rightarrow> bool" where
  "keys_48 kp \<longleftrightarrow> (\<forall>r\<in>set (kp_keys kp). length (kr_key r) = 48)"

lemma concat_chunks:
  "(\<forall>x\<in>set xs. length (f x) = n) \<Longrightarrow> i < length xs \<Longrightarrow> take n (drop (n * i) (concat (map f xs))) = f (xs ! i)"
proof (induction xs arbitrary: i)
  case (Cons x xs)
  then show ?case by (cases i) (auto simp: algebra_simps)
qed simp

lemma length_concat_chunks: "(\<forall>x\<in>set xs. length (f x) = n) \<Longrightarrow> length (concat (map f xs)) = n * length xs"
  by (induction xs) auto

lemma length_key_page_bytes: "keys_48 kp \<Longrightarrow> length (key_page_bytes kp) = 64 + 64 * length (kp_keys kp)"
  by (simp add: key_page_bytes_def keys_48_def length_key_rec_bytes length_concat_chunks [of _ _ 64])

definition narrow_rec :: "key_rec \<Rightarrow> key_rec" where
  "narrow_rec r =
     \<lparr>kr_flags = narrow 1 (kr_flags r), kr_height = narrow 1 (kr_height r), kr_left = narrow 2 (kr_left r),
      kr_right = narrow 2 (kr_right r), kr_klen = narrow 2 (kr_klen r), kr_key = kr_key r, kr_voff = narrow 8 (kr_voff r)\<rparr>"

definition narrow_page :: "key_page \<Rightarrow> key_page" where
  "narrow_page kp =
     \<lparr>kp_flags = narrow 2 (kp_flags kp), kp_vcount = narrow 2 (kp_vcount kp), kp_root = narrow 2 (kp_root kp),
      kp_hash = narrow 4 (kp_hash kp), kp_poff = narrow 8 (kp_poff kp), kp_noff = narrow 8 (kp_noff kp),
      kp_keys = map narrow_rec (kp_keys kp)\<rparr>"

lemma key_rec_of_bytes: "length (kr_key r) = 48 \<Longrightarrow> key_rec_of (key_rec_bytes r) = narrow_rec r"
  unfolding key_rec_of_def narrow_rec_def
  by (simp add: field_le_bytes key_rec_bytes_def)

lemma key_page_of_bytes:
  assumes "keys_48 kp"
  shows "key_page_of (key_page_bytes kp) = narrow_page kp"
proof -
  have hdr: "take n (drop pos (key_page_bytes kp)) = take n (drop pos (key_hdr_bytes kp))" if "pos + n \<le> 64" for pos n
    using that by (simp add: key_page_bytes_def)
  have "key_rec_of (take 64 (drop (64 + 64 * i) (key_page_bytes kp))) = narrow_rec (kp_keys kp ! i)"
    if "i < length (kp_keys kp)" for i
  proof -
    have "take 64 (drop (64 + 64 * i) (key_page_bytes kp)) = key_rec_bytes (kp_keys kp ! i)"
      using concat_chunks [of "kp_keys kp" key_rec_bytes 64 i] assms that
      by (simp add: key_page_bytes_def keys_48_def length_key_rec_bytes)
    then show ?thesis using assms that by (simp add: key_rec_of_bytes keys_48_def)
  qed
  then have keys: "map (\<lambda>i. key_rec_of (take 64 (drop (64 + 64 * i) (key_page_bytes kp))))
      [0..<(length (key_page_bytes kp) - 64) div 64] = map narrow_rec (kp_keys kp)"
    by (intro nth_equalityI) (simp_all add: length_key_page_bytes [OF assms])
  show ?thesis
    unfolding key_page_of_def narrow_page_def keys
    by (simp add: field_le_bytes hdr hdr [of 0, simplified] key_hdr_bytes_def)
qed

text \<open>A page every field of which has a value that fits.\<close>

definition rec_fits :: "key_rec \<Rightarrow> bool" where
  "rec_fits r \<longleftrightarrow> fits 1 (kr_flags r) \<and> fits 1 (kr_height r) \<and> fits 2 (kr_left r) \<and> fits 2 (kr_right r) \<and>
     fits 2 (kr_klen r) \<and> length (kr_key r) = 48 \<and> fits 8 (kr_voff r)"

definition page_fits :: "key_page \<Rightarrow> bool" where
  "page_fits kp \<longleftrightarrow> fits 2 (kp_flags kp) \<and> fits 2 (kp_vcount kp) \<and> fits 2 (kp_root kp) \<and> fits 4 (kp_hash kp) \<and>
     fits 8 (kp_poff kp) \<and> fits 8 (kp_noff kp) \<and> (\<forall>r\<in>set (kp_keys kp). rec_fits r)"

lemma page_fits_48: "page_fits kp \<Longrightarrow> keys_48 kp"
  by (simp add: page_fits_def keys_48_def rec_fits_def)

lemma narrow_page_fits: "page_fits kp \<Longrightarrow> narrow_page kp = kp"
proof -
  assume "page_fits kp"
  moreover have "narrow_rec r = r" if "rec_fits r" for r
    using that by (cases r) (simp add: narrow_rec_def rec_fits_def narrow_fits)
  ultimately show ?thesis by (cases kp) (simp add: narrow_page_def page_fits_def narrow_fits map_idI)
qed

definition value_page_fits :: "value_page \<Rightarrow> bool" where
  "value_page_fits vp \<longleftrightarrow> fits 2 (vp_flags vp) \<and> fits 4 (vp_klen vp) \<and> fits 4 (vp_vlen vp) \<and>
     length (vp_key vp) = 48 \<and> length (vp_value vp) = 192"

lemma length_value_page_bytes: "value_page_fits vp \<Longrightarrow> length (value_page_bytes vp) = 256"
  by (simp add: value_page_bytes_def value_page_fits_def)

lemma value_page_of_bytes: "value_page_fits vp \<Longrightarrow> value_page_of (value_page_bytes vp) = vp"
  unfolding value_page_of_def
  by (cases vp) (simp add: field_le_bytes value_page_bytes_def value_page_fits_def narrow_fits)

section \<open>Transfers without failures\<close>

lemma calm_WriteFile:
  assumes "calm f" "0 \<le> off" "bs \<noteq> []" "n = int (length bs)"
  shows "WriteFile f off bs n =
    (f\<lparr>f_disk := Some (overwrite (f_data f) (nat off) bs), f_pos := nat off + length bs\<rparr>, E_ok)"
  using assms
  by (auto simp: WriteFile_def file_write_at_def file_seek_def file_seek_wh_def sys_lseek_def file_write_def sys_write_def
      os_next_def calm_def f_data_def Let_def split: option.splits)

lemma calm_ReadFile:
  assumes "calm f" "0 \<le> off" "0 < n" "nat off + nat n \<le> length (f_data f)"
  shows "ReadFile f off n = (f\<lparr>f_pos := nat off + nat n\<rparr>, E_ok, take (nat n) (drop (nat off) (f_data f)))"
proof -
  let ?bs = "take (nat n) (drop (nat off) (f_data f))"
  have l: "length ?bs = nat n" using assms(4) by simp
  then have ne: "?bs \<noteq> []" using assms(3) by (cases ?bs) auto
  have "file_seek f off = (f\<lparr>f_pos := nat off\<rparr>, E_ok)"
    using assms(1,2) by (simp add: calm_def file_seek_def file_seek_wh_def sys_lseek_def os_next_def)
  moreover have "sys_read (f\<lparr>f_pos := nat off\<rparr>) (nat n) = (SysOk ?bs, f\<lparr>f_pos := nat off + nat n\<rparr>)"
    using assms(1) l by (simp add: calm_def sys_read_def os_next_def f_data_def)
  then have "file_read_loop (f\<lparr>f_pos := nat off\<rparr>) (nat n) [] = (f\<lparr>f_pos := nat off + nat n\<rparr>, E_ok, ?bs)"
    using assms(3) ne l by (simp add: file_read_loop.simps)
  ultimately show ?thesis
    using assms(1,3) ne l by (simp add: ReadFile_def file_read_at_def file_read_def calm_def)
qed

lemma calm_ReadFile_end:
  assumes "calm f" "int (length (f_data f)) \<le> off" "0 < n"
  shows "ReadFile f off n = (f\<lparr>f_pos := nat off\<rparr>, E_eof_detected, [])"
proof -
  have "file_seek f off = (f\<lparr>f_pos := nat off\<rparr>, E_ok)"
    using assms by (simp add: calm_def file_seek_def file_seek_wh_def sys_lseek_def os_next_def)
  moreover have "sys_read (f\<lparr>f_pos := nat off\<rparr>) (nat n) = (SysOk [], f\<lparr>f_pos := nat off\<rparr>)"
    using assms by (simp add: calm_def sys_read_def os_next_def f_data_def)
  ultimately show ?thesis
    using assms(1,3) by (simp add: ReadFile_def file_read_at_def file_read_def calm_def file_read_loop.simps)
qed

text \<open>The bytes of a region of the file, and a write inside it.\<close>

definition region :: "snf_file \<Rightarrow> int \<Rightarrow> nat \<Rightarrow> byte list" where
  "region f off n = take n (drop (nat off) (f_data f))"

definition in_file :: "snf_file \<Rightarrow> int \<Rightarrow> nat \<Rightarrow> bool" where
  "in_file f off n \<longleftrightarrow> 0 \<le> off \<and> nat off + n \<le> length (f_data f)"

lemma overwrite_inside:
  assumes "off \<le> p" "p + length bs \<le> off + n" "off + n \<le> length d"
  shows "take n (drop off (overwrite d p bs)) =
    take (p - off) (take n (drop off d)) @ bs @ drop (p - off + length bs) (take n (drop off d))"
proof -
  have "overwrite d p bs = take off d @ take (p - off) (drop off d) @ bs @ drop (p + length bs) d"
    using assms take_add [of off "p - off" d] by (simp add: overwrite_def)
  moreover have "drop (p - off + length bs) (take n (drop off d)) = take (off + n - (p + length bs)) (drop (p + length bs) d)"
    using assms by (simp add: drop_take add.commute)
  ultimately show ?thesis using assms by (auto simp: min_def add.commute)
qed

lemma f_data_disk [simp]: "f_data (f\<lparr>f_disk := Some d\<rparr>) = d" "f_data (f\<lparr>f_pos := p\<rparr>) = f_data f"
  by (simp_all add: f_data_def)

lemma calm_upd [simp]:
  "calm f \<Longrightarrow> calm (f\<lparr>f_disk := Some d\<rparr>)" "calm f \<Longrightarrow> calm (f\<lparr>f_pos := p\<rparr>)"
  by (simp_all add: calm_def)

definition regions_kept :: "snf_file \<Rightarrow> snf_file \<Rightarrow> int \<Rightarrow> nat \<Rightarrow> bool" where
  "regions_kept f f' off n \<longleftrightarrow>
     (\<forall>q m. in_file f q m \<and> (q + int m \<le> off \<or> off + int n \<le> q) \<longrightarrow> in_file f' q m \<and> region f' q m = region f q m)"

lemma write_frame:
  assumes "calm f" "0 \<le> off" "nat off \<le> length (f_data f)" "bs \<noteq> []" "n = int (length bs)"
  shows "\<exists>f'. WriteFile f off bs n = (f', E_ok) \<and> calm f' \<and> in_file f' off (length bs) \<and> region f' off (length bs) = bs \<and>
    length (f_data f') = max (length (f_data f)) (nat off + length bs) \<and> regions_kept f f' off (length bs)"
proof -
  note w = calm_WriteFile [OF assms(1,2,4,5)]
  have "region (f\<lparr>f_disk := Some (overwrite (f_data f) (nat off) bs), f_pos := p\<rparr>) q m = region f q m"
    if "in_file f q m" "q + int m \<le> off \<or> off + int (length bs) \<le> q" for q m p
    using that assms(2,3) by (auto simp: region_def in_file_def intro: overwrite_before overwrite_after)
  then show ?thesis
    using w assms by (auto simp: in_file_def regions_kept_def region_def overwrite_at length_overwrite)
qed

text \<open>A write inside a region changes its image there and nothing outside.\<close>

lemma write_inside:
  assumes "calm f" "in_file f off n" "off \<le> p" "nat p + length bs \<le> nat off + n" "bs \<noteq> []" "m = int (length bs)"
  shows "\<exists>f'. WriteFile f p bs m = (f', E_ok) \<and> calm f' \<and> in_file f' off n \<and>
    region f' off n = take (nat p - nat off) (region f off n) @ bs @ drop (nat p - nat off + length bs) (region f off n) \<and>
    length (f_data f') = length (f_data f) \<and> regions_kept f f' p (length bs)"
proof -
  have p: "0 \<le> p" "nat p \<le> length (f_data f)" using assms(2-4) by (auto simp: in_file_def)
  from write_frame [OF assms(1) p assms(5,6)] obtain f' where f': "WriteFile f p bs m = (f', E_ok)" "calm f'"
    "regions_kept f f' p (length bs)" "length (f_data f') = max (length (f_data f)) (nat p + length bs)" by blast
  have d: "f_data f' = overwrite (f_data f) (nat p) bs" using f'(1) calm_WriteFile [OF assms(1) p(1) assms(5,6)] by auto
  have le: "nat p + length bs \<le> length (f_data f)" "nat off \<le> nat p" using assms(2-4) by (auto simp: in_file_def)
  then show ?thesis
    using f' d overwrite_inside [of "nat off" "nat p" bs n "f_data f"] assms(2,4)
    by (auto simp: in_file_def region_def)
qed

section \<open>Pages on the disk\<close>

definition page_on_disk :: "db_file \<Rightarrow> int \<Rightarrow> key_page \<Rightarrow> bool" where
  "page_on_disk k off kp \<longleftrightarrow>
     keys_48 kp \<and> in_file (df_file k) off (length (key_page_bytes kp)) \<and>
     region (df_file k) off (length (key_page_bytes kp)) = key_page_bytes kp"

lemma page_on_disk_read:
  assumes "calm (df_file k)" "page_on_disk k off kp" "n = int (length (key_page_bytes kp))"
  shows "\<exists>k' bs. kf_read k off n = (k', E_ok, bs) \<and> key_page_of bs = narrow_page kp \<and>
    calm (df_file k') \<and> f_data (df_file k') = f_data (df_file k) \<and> df_fdp k' = df_fdp k"
proof -
  have b: "keys_48 kp" "in_file (df_file k) off (nat n)" "region (df_file k) off (nat n) = key_page_bytes kp"
    using assms(2,3) by (auto simp: page_on_disk_def)
  have n: "0 < n" using length_key_page_bytes [OF b(1)] assms(3) by simp
  have "ReadFile (df_file k) off n = (df_file k\<lparr>f_pos := nat off + nat n\<rparr>, E_ok, key_page_bytes kp)"
    using calm_ReadFile [OF assms(1), of off n] n b by (simp add: in_file_def region_def)
  then show ?thesis using assms(1) key_page_of_bytes [OF b(1)] by (simp add: kf_read_def)
qed

lemma page_on_disk_kept:
  assumes "regions_kept (df_file k) (df_file k') p m" "page_on_disk k off kp"
    "off + int (length (key_page_bytes kp)) \<le> p \<or> p + int m \<le> off"
  shows "page_on_disk k' off kp"
  using assms unfolding regions_kept_def page_on_disk_def by simp

text \<open>Writing one field of a page is writing the page with that field changed.\<close>

lemma kf_write_field:
  assumes "calm (df_file k)" "page_on_disk k off kp" "keys_48 kp'" "length (kp_keys kp') = length (kp_keys kp)"
    "key_page_bytes kp' = take pos (key_page_bytes kp) @ bs @ drop (pos + length bs) (key_page_bytes kp)"
    "bs \<noteq> []" "pos + length bs \<le> 64" "n = int (length bs)"
  shows "\<exists>k'. kf_write k (off + int pos) bs n = (k', E_ok) \<and> calm (df_file k') \<and> df_fdp k' = df_fdp k \<and>
    page_on_disk k' off kp' \<and> length (f_data (df_file k')) = length (f_data (df_file k)) \<and>
    regions_kept (df_file k) (df_file k') (off + int pos) (length bs)"
proof -
  have d: "in_file (df_file k) off (length (key_page_bytes kp))"
    "region (df_file k) off (length (key_page_bytes kp)) = key_page_bytes kp" "keys_48 kp"
    using assms(2) by (auto simp: page_on_disk_def)
  have l: "length (key_page_bytes kp') = length (key_page_bytes kp)" "64 \<le> length (key_page_bytes kp)"
    using length_key_page_bytes d(3) assms(3,4) by auto
  have off: "0 \<le> off" using d(1) by (simp add: in_file_def)
  have "nat (off + int pos) + length bs \<le> nat off + length (key_page_bytes kp)" "off \<le> off + int pos"
    "nat (off + int pos) - nat off = pos"
    using assms(7) l(2) off by (auto simp: nat_add_distrib)
  with write_inside [OF assms(1) d(1) _ _ assms(6,8), of "off + int pos"] show ?thesis
    using assms(3,5) d(2) l(1) by (fastforce simp: kf_write_def page_on_disk_def)
qed

text \<open>The page as \<open>writeFlags\<close> leaves it on the disk: the count takes the high half of the \<^verbatim>\<open>int\<close>.\<close>

definition flags_written :: "key_page \<Rightarrow> int \<Rightarrow> key_page" where
  "flags_written kp flags = kp\<lparr>kp_flags := flags, kp_vcount := flags div 65536\<rparr>"

lemma le_bytes_add: "le_bytes (m + n) x = le_bytes m x @ le_bytes n (x div 256 ^ m)"
  by (induction m arbitrary: x) (simp_all add: zdiv_zmult2_eq)

lemma field_bytes:
  "key_page_bytes (kp\<lparr>kp_noff := x\<rparr>) = take 24 (key_page_bytes kp) @ le_bytes 8 x @ drop 32 (key_page_bytes kp)"
  "key_page_bytes (kp\<lparr>kp_poff := x\<rparr>) = take 16 (key_page_bytes kp) @ le_bytes 8 x @ drop 24 (key_page_bytes kp)"
  "key_page_bytes (flags_written kp x) = le_bytes 4 x @ drop 4 (key_page_bytes kp)"
proof -
  have four: "le_bytes 4 x = le_bytes 2 x @ le_bytes 2 (x div 65536)" using le_bytes_add [of 2 2 x] by simp
  show "key_page_bytes (kp\<lparr>kp_noff := x\<rparr>) = take 24 (key_page_bytes kp) @ le_bytes 8 x @ drop 32 (key_page_bytes kp)"
    "key_page_bytes (kp\<lparr>kp_poff := x\<rparr>) = take 16 (key_page_bytes kp) @ le_bytes 8 x @ drop 24 (key_page_bytes kp)"
    "key_page_bytes (flags_written kp x) = le_bytes 4 x @ drop 4 (key_page_bytes kp)"
    unfolding four by (simp_all add: key_page_bytes_def key_hdr_bytes_def flags_written_def)
qed

lemma keys_48_hdr [simp]:
  "keys_48 (kp\<lparr>kp_noff := x\<rparr>) = keys_48 kp" "keys_48 (kp\<lparr>kp_poff := x\<rparr>) = keys_48 kp"
  "keys_48 (flags_written kp x) = keys_48 kp" "kp_keys (flags_written kp x) = kp_keys kp"
  by (simp_all add: keys_48_def flags_written_def)

lemma kf_fields:
  assumes "calm (df_file k)" "page_on_disk k off kp"
  shows "\<exists>k'. kf_writeNextOffset k off m x = (k', map_option (kp_noff_update (\<lambda>_. x)) m, E_ok) \<and> calm (df_file k') \<and>
      df_fdp k' = df_fdp k \<and> page_on_disk k' off (kp\<lparr>kp_noff := x\<rparr>) \<and>
      length (f_data (df_file k')) = length (f_data (df_file k)) \<and> regions_kept (df_file k) (df_file k') (off + 24) 8"
    "\<exists>k'. kf_writePrevOffset k off m x = (k', map_option (kp_poff_update (\<lambda>_. x)) m, E_ok) \<and> calm (df_file k') \<and>
      df_fdp k' = df_fdp k \<and> page_on_disk k' off (kp\<lparr>kp_poff := x\<rparr>) \<and>
      length (f_data (df_file k')) = length (f_data (df_file k)) \<and> regions_kept (df_file k) (df_file k') (off + 16) 8"
    "\<exists>k'. kf_writeFlags k off m x = (k', map_option (kp_flags_update (\<lambda>_. to_short x)) m, E_ok) \<and> calm (df_file k') \<and>
      df_fdp k' = df_fdp k \<and> page_on_disk k' off (flags_written kp x) \<and>
      length (f_data (df_file k')) = length (f_data (df_file k)) \<and> regions_kept (df_file k) (df_file k') off 4"
proof -
  have ne: "le_bytes 8 x \<noteq> []" "le_bytes 4 x \<noteq> []" by (metis length_le_bytes list.size(3) zero_neq_numeral)+
  have k: "keys_48 kp" using assms(2) by (simp add: page_on_disk_def)
  from kf_write_field [OF assms, of "kp\<lparr>kp_noff := x\<rparr>" 24 "le_bytes 8 x" 8] k ne field_bytes(1) [where kp = kp and x = x]
  show "\<exists>k'. kf_writeNextOffset k off m x = (k', map_option (kp_noff_update (\<lambda>_. x)) m, E_ok) \<and> calm (df_file k') \<and>
      df_fdp k' = df_fdp k \<and> page_on_disk k' off (kp\<lparr>kp_noff := x\<rparr>) \<and>
      length (f_data (df_file k')) = length (f_data (df_file k)) \<and> regions_kept (df_file k) (df_file k') (off + 24) 8"
    by (auto simp: kf_writeNextOffset_def)
  from kf_write_field [OF assms, of "kp\<lparr>kp_poff := x\<rparr>" 16 "le_bytes 8 x" 8] k ne field_bytes(2) [where kp = kp and x = x]
  show "\<exists>k'. kf_writePrevOffset k off m x = (k', map_option (kp_poff_update (\<lambda>_. x)) m, E_ok) \<and> calm (df_file k') \<and>
      df_fdp k' = df_fdp k \<and> page_on_disk k' off (kp\<lparr>kp_poff := x\<rparr>) \<and>
      length (f_data (df_file k')) = length (f_data (df_file k)) \<and> regions_kept (df_file k) (df_file k') (off + 16) 8"
    by (auto simp: kf_writePrevOffset_def)
  from kf_write_field [OF assms, of "flags_written kp x" 0 "le_bytes 4 x" 4] k ne field_bytes(3) [where kp = kp and x = x]
  show "\<exists>k'. kf_writeFlags k off m x = (k', map_option (kp_flags_update (\<lambda>_. to_short x)) m, E_ok) \<and> calm (df_file k') \<and>
      df_fdp k' = df_fdp k \<and> page_on_disk k' off (flags_written kp x) \<and>
      length (f_data (df_file k')) = length (f_data (df_file k)) \<and> regions_kept (df_file k) (df_file k') off 4"
    by (auto simp: kf_writeFlags_def)
qed

lemma kf_write_page:
  assumes "calm (df_file k)" "keys_48 kp" "0 \<le> off" "nat off \<le> length (f_data (df_file k))" "n = int (length (key_page_bytes kp))"
  shows "\<exists>k'. kf_write k off (key_page_bytes kp) n = (k', E_ok) \<and> calm (df_file k') \<and> df_fdp k' = df_fdp k \<and>
    page_on_disk k' off kp \<and> length (f_data (df_file k')) = max (length (f_data (df_file k))) (nat off + length (key_page_bytes kp)) \<and>
    regions_kept (df_file k) (df_file k') off (length (key_page_bytes kp))"
proof -
  have "key_page_bytes kp \<noteq> []" using length_key_page_bytes [OF assms(2)] by auto
  from write_frame [OF assms(1,3,4) this assms(5)] show ?thesis
    using assms(2) by (auto simp: kf_write_def page_on_disk_def)
qed

section \<open>What a page keeps on the disk\<close>

text \<open>
  Free records may hold values that do not fit, but what a page stands for survives: its tree, its
  map, and the header its callers use.
\<close>

definition entries_fit :: "key_page \<Rightarrow> bool" where
  "entries_fit kp \<longleftrightarrow> (\<forall>x v. kp_map kp x = Some v \<longrightarrow> fits 8 v)"

definition hdr_fits :: "key_page \<Rightarrow> bool" where
  "hdr_fits kp \<longleftrightarrow> fits 2 (kp_flags kp) \<and> fits 4 (kp_hash kp) \<and> fits 8 (kp_poff kp) \<and> fits 8 (kp_noff kp)"

lemma key_at_narrow: "key_at (narrow_page kp) i = map_option narrow_rec (key_at kp i)"
  by (simp add: key_at_def narrow_page_def)

lemma narrow_rec_ok:
  "rec_ok r \<Longrightarrow> kr_flags r = KEY_FREE \<or> kr_flags r = KEY_INUSE \<Longrightarrow>
   kr_flags (narrow_rec r) = kr_flags r \<and> kr_klen (narrow_rec r) = kr_klen r \<and> rec_key (narrow_rec r) = rec_key r \<and> rec_ok (narrow_rec r)"
  by (auto simp: narrow_rec_def rec_ok_def rec_key_def KEY_FREE_def KEY_INUSE_def MAX_KEY_LENGTH_def narrow_fits)

lemma tree_at_narrow:
  "tree_at kp r t \<Longrightarrow> Tree.height t \<le> 127 \<Longrightarrow> length (kp_keys kp) \<le> 127 \<Longrightarrow> tree_at (narrow_page kp) r t"
proof (induction t arbitrary: r)
  case (Node lt i rt)
  then obtain k where k: "r = i" "key_at kp i = Some k" "kr_height k = int (Tree.height (Node lt i rt))"
    "tree_at kp (kr_left k) lt" "tree_at kp (kr_right k) rt" by (auto split: option.splits)
  have link: "fits 2 q" if "tree_at kp q u" for q u
  proof (cases u)
    case Leaf
    with that show ?thesis by simp
  next
    case (Node lu j ru)
    with that Node.prems(3) have "key_at kp q \<noteq> None" by (auto split: option.splits)
    then show ?thesis using Node.prems(3) by (auto simp: key_at_def split: if_splits)
  qed
  have "narrow 1 (kr_height k) = kr_height k" using Node.prems(2) k(3) by (intro narrow_fits) auto
  moreover have "narrow 2 (kr_left k) = kr_left k" "narrow 2 (kr_right k) = kr_right k"
    using link k(4,5) by (auto intro: narrow_fits)
  ultimately show ?case using Node k by (auto simp: key_at_narrow narrow_rec_def)
qed simp

lemma page_rep_narrow:
  assumes "page_rep kp t" "hdr_fits kp" "entries_fit kp"
  shows "page_rep (narrow_page kp) t \<and> kp_map (narrow_page kp) = kp_map kp \<and> kp_frame (narrow_page kp) = kp_frame kp"
proof -
  have ok: "rec_ok r \<and> (kr_flags r = KEY_FREE \<or> kr_flags r = KEY_INUSE)" if "key_at kp i = Some r" for r i
    using assms(1) that by (auto simp: page_rep_def recs_ok_iff)
  have size: "size t \<le> 127" using page_rep_size [OF assms(1)] assms(1) by (auto simp: page_rep_def)
  then have h: "Tree.height t \<le> 127" using height_le_size [of t] by simp
  have keys: "key_of (narrow_page kp) = key_of kp" "slot_used (narrow_page kp) = slot_used kp"
    using ok narrow_rec_ok by (auto simp: fun_eq_iff key_of_def slot_used_def key_at_narrow split: option.splits)
  have root: "narrow 2 (kp_root kp) = kp_root kp"
  proof (cases t)
    case Leaf
    with assms(1) show ?thesis by (simp add: page_rep_def narrow_fits)
  next
    case (Node lt i rt)
    with assms(1) have "key_at kp (kp_root kp) \<noteq> None" "length (kp_keys kp) \<le> 127" by (auto simp: page_rep_def split: option.splits)
    then show ?thesis by (intro narrow_fits) (auto simp: key_at_def split: if_splits)
  qed
  have recs: "recs_ok (narrow_page kp)" using ok narrow_rec_ok by (fastforce simp: recs_ok_iff key_at_narrow)
  have flds: "kp_root (narrow_page kp) = kp_root kp" "kp_vcount (narrow_page kp) = int (size t)"
    "length (kp_keys (narrow_page kp)) = length (kp_keys kp)"
    using root size assms(1) by (auto simp: narrow_page_def page_rep_def narrow_fits)
  have rep: "page_rep (narrow_page kp) t"
    unfolding page_rep_def keys flds using assms(1) recs tree_at_narrow [of kp "kp_root kp" t] h
    by (simp add: page_rep_def)
  have "entry (narrow_page kp) i x v \<longleftrightarrow> entry kp i x v" for i x v
  proof -
    have "narrow 8 (kr_voff r) = kr_voff r" if "key_at kp i = Some r" "kr_flags r = KEY_INUSE" for r
    proof -
      have "entry kp i (rec_key r) (kr_voff r)" using that by (simp add: entry_def)
      then have "kp_map kp (rec_key r) = Some (kr_voff r)" using kp_map_iff [OF assms(1)] by blast
      then show ?thesis using assms(3) by (simp add: entries_fit_def narrow_fits)
    qed
    then show ?thesis using ok [of i] narrow_rec_ok by (auto simp: entry_def key_at_narrow) (auto simp: narrow_rec_def)
  qed
  then have "kp_map (narrow_page kp) = kp_map kp" by (intro kp_map_eqI [OF rep]) (simp add: kp_map_iff [OF assms(1)])
  moreover have "kp_frame (narrow_page kp) = kp_frame kp"
    using assms(2) by (simp add: kp_frame_def narrow_page_def hdr_fits_def narrow_fits)
  ultimately show ?thesis using rep by simp
qed

lemma page_rep_48: "page_rep kp t \<Longrightarrow> keys_48 kp"
  by (auto simp: page_rep_def recs_ok_def rec_ok_def keys_48_def MAX_KEY_LENGTH_def)

section \<open>Values on the disk\<close>

definition value_on_disk :: "db_file \<Rightarrow> int \<Rightarrow> value_page \<Rightarrow> bool" where
  "value_on_disk v off vp \<longleftrightarrow>
     value_page_fits vp \<and> in_file (df_file v) off 256 \<and> region (df_file v) off 256 = value_page_bytes vp"

lemma value_on_disk_read:
  assumes "calm (df_file v)" "value_on_disk v off vp"
  shows "\<exists>v' bs. vf_read v off = (v', E_ok, bs) \<and> value_page_of bs = vp \<and>
    calm (df_file v') \<and> f_data (df_file v') = f_data (df_file v) \<and> df_fdp v' = df_fdp v"
proof -
  have "ReadFile (df_file v) off 256 = (df_file v\<lparr>f_pos := nat off + 256\<rparr>, E_ok, value_page_bytes vp)"
    using calm_ReadFile [OF assms(1), of off 256] assms(2) by (simp add: value_on_disk_def in_file_def region_def)
  then show ?thesis
    using assms value_page_of_bytes [of vp] by (simp add: vf_read_def sizeof_value_page_def value_on_disk_def)
qed

lemma value_on_disk_kept:
  assumes "regions_kept (df_file v) (df_file v') p m" "value_on_disk v off vp" "off + 256 \<le> p \<or> p + int m \<le> off"
  shows "value_on_disk v' off vp"
  using assms unfolding regions_kept_def value_on_disk_def by simp

lemma vf_write_page:
  assumes "calm (df_file v)" "value_page_fits vp" "0 \<le> off" "nat off \<le> length (f_data (df_file v))"
  shows "\<exists>v'. vf_write v off vp = (v', E_ok) \<and> calm (df_file v') \<and> df_fdp v' = df_fdp v \<and> value_on_disk v' off vp \<and>
    length (f_data (df_file v')) = max (length (f_data (df_file v))) (nat off + 256) \<and>
    regions_kept (df_file v) (df_file v') off 256"
proof -
  have l: "length (value_page_bytes vp) = 256" using length_value_page_bytes [OF assms(2)] .
  then have "value_page_bytes vp \<noteq> []" by auto
  from write_frame [OF assms(1,3,4) this, of 256] show ?thesis
    using assms(2) l by (auto simp: vf_write_def sizeof_value_page_def value_on_disk_def)
qed

lemma vf_writeFlags_page:
  assumes "calm (df_file v)" "value_on_disk v off vp" "0 \<le> flags" "flags < 32768"
  shows "\<exists>v'. vf_writeFlags v off m flags = (v', map_option (vp_flags_update (\<lambda>_. to_short flags)) m, E_ok) \<and>
    calm (df_file v') \<and> df_fdp v' = df_fdp v \<and> value_on_disk v' off (vp\<lparr>vp_flags := flags\<rparr>) \<and>
    length (f_data (df_file v')) = length (f_data (df_file v)) \<and> regions_kept (df_file v) (df_file v') off 4"
proof -
  have "le_bytes 4 flags = le_bytes 2 flags @ le_bytes 2 (flags div 65536)" using le_bytes_add [of 2 2 flags] by simp
  then have "le_bytes 4 flags = le_bytes 2 flags @ le_bytes 2 0" using assms(3,4) by simp
  then have b: "value_page_bytes (vp\<lparr>vp_flags := flags\<rparr>) = le_bytes 4 flags @ drop 4 (value_page_bytes vp)"
    by (simp add: value_page_bytes_def)
  have f: "value_page_fits (vp\<lparr>vp_flags := flags\<rparr>)" using assms(2-4) by (simp add: value_on_disk_def value_page_fits_def)
  have ne: "le_bytes 4 flags \<noteq> []" by (metis length_le_bytes list.size(3) zero_neq_numeral)
  have d: "in_file (df_file v) off 256" "region (df_file v) off 256 = value_page_bytes vp"
    using assms(2) by (auto simp: value_on_disk_def)
  from write_inside [OF assms(1) d(1) order_refl _ ne, of 4] show ?thesis
    using b f d(2) by (auto simp: vf_writeFlags_def value_on_disk_def)
qed

section \<open>Round trip of a key page\<close>

lemma page_fits_links: "page_fits kp \<Longrightarrow> fits 8 x \<Longrightarrow> fits 8 y \<Longrightarrow> page_fits (kp\<lparr>kp_poff := x, kp_noff := y\<rparr>)"
  by (simp add: page_fits_def)

text \<open>
  C19: A key page that is written to the key file and whose links are then changed in place by
  \<open>writePrevOffset\<close> and \<open>writeNextOffset\<close> is read back as the page the caller holds in memory, with
  the two links changed and every record as it was; pages elsewhere in the file stay.
\<close>

theorem key_page_disk_roundtrip:
  assumes "calm (df_file k)" "page_fits kp" "fits 8 x" "fits 8 y" "0 \<le> off" "nat off \<le> length (f_data (df_file k))"
    "n = int (64 + 64 * length (kp_keys kp))"
  shows "\<exists>k1 k2 k3 k4 bs.
    kf_write k off (key_page_bytes kp) n = (k1, E_ok) \<and>
    kf_writePrevOffset k1 off (Some kp) x = (k2, Some (kp\<lparr>kp_poff := x\<rparr>), E_ok) \<and>
    kf_writeNextOffset k2 off (Some (kp\<lparr>kp_poff := x\<rparr>)) y = (k3, Some (kp\<lparr>kp_poff := x, kp_noff := y\<rparr>), E_ok) \<and>
    kf_read k3 off n = (k4, E_ok, bs) \<and> key_page_of bs = kp\<lparr>kp_poff := x, kp_noff := y\<rparr> \<and>
    (\<forall>q kq. page_on_disk k q kq \<and> (q + int (length (key_page_bytes kq)) \<le> off \<or> off + n \<le> q) \<longrightarrow> page_on_disk k4 q kq)"
proof -
  note f = page_fits_48 [OF assms(2)]
  have n: "n = int (length (key_page_bytes kp))" using length_key_page_bytes [OF f] assms(7) by simp
  from kf_write_page [OF assms(1) f assms(5,6) n] obtain k1 where k1: "kf_write k off (key_page_bytes kp) n = (k1, E_ok)"
    "calm (df_file k1)" "page_on_disk k1 off kp" "regions_kept (df_file k) (df_file k1) off (length (key_page_bytes kp))" by blast
  from kf_fields(2) [OF k1(2,3), of "Some kp" x] obtain k2 where k2:
    "kf_writePrevOffset k1 off (Some kp) x = (k2, Some (kp\<lparr>kp_poff := x\<rparr>), E_ok)" "calm (df_file k2)"
    "page_on_disk k2 off (kp\<lparr>kp_poff := x\<rparr>)" "regions_kept (df_file k1) (df_file k2) (off + 16) 8" by auto
  from kf_fields(1) [OF k2(2,3), of "Some (kp\<lparr>kp_poff := x\<rparr>)" y] obtain k3 where k3:
    "kf_writeNextOffset k2 off (Some (kp\<lparr>kp_poff := x\<rparr>)) y = (k3, Some (kp\<lparr>kp_poff := x, kp_noff := y\<rparr>), E_ok)"
    "calm (df_file k3)" "page_on_disk k3 off (kp\<lparr>kp_poff := x, kp_noff := y\<rparr>)" "regions_kept (df_file k2) (df_file k3) (off + 24) 8" by auto
  have n': "n = int (length (key_page_bytes (kp\<lparr>kp_poff := x, kp_noff := y\<rparr>)))"
    using length_key_page_bytes [of "kp\<lparr>kp_poff := x, kp_noff := y\<rparr>"] f assms(7) by simp
  from page_on_disk_read [OF k3(2,3) n'] obtain k4 bs where k4: "kf_read k3 off n = (k4, E_ok, bs)"
    "key_page_of bs = kp\<lparr>kp_poff := x, kp_noff := y\<rparr>" "f_data (df_file k4) = f_data (df_file k3)"
    using narrow_page_fits [OF page_fits_links [OF assms(2-4)]] by auto
  have "page_on_disk k4 q kq"
    if q: "page_on_disk k q kq" "q + int (length (key_page_bytes kq)) \<le> off \<or> off + n \<le> q" for q kq
  proof -
    have "page_on_disk k1 q kq" using page_on_disk_kept [OF k1(4) q(1)] q(2) n by auto
    from page_on_disk_kept [OF k2(4) this] have "page_on_disk k2 q kq" using q(2) assms(7) by auto
    from page_on_disk_kept [OF k3(4) this] have "page_on_disk k3 q kq" using q(2) assms(7) by auto
    then show ?thesis using k4(3) by (simp add: page_on_disk_def in_file_def region_def)
  qed
  then show ?thesis using k1(1) k2(1) k3(1) k4(1,2) by blast
qed

definition sample_disk :: db_file where
  "sample_disk =
     \<lparr>df_file = \<lparr>f_fd = True, f_rd = True, f_wr = True, f_append = False, f_pos = 0, f_disk = Some [], f_sched = []\<rparr>, df_fdp = None\<rparr>"

theorem key_page_disk_roundtrip_witness:
  "\<exists>k1 k2 k3 k4 bs.
    kf_write sample_disk 0 (key_page_bytes (InitKeyPage 1024)) 1024 = (k1, E_ok) \<and>
    kf_writePrevOffset k1 0 (Some (InitKeyPage 1024)) 4096 = (k2, Some ((InitKeyPage 1024)\<lparr>kp_poff := 4096\<rparr>), E_ok) \<and>
    kf_writeNextOffset k2 0 (Some ((InitKeyPage 1024)\<lparr>kp_poff := 4096\<rparr>)) 8192 =
      (k3, Some ((InitKeyPage 1024)\<lparr>kp_poff := 4096, kp_noff := 8192\<rparr>), E_ok) \<and>
    kf_read k3 0 1024 = (k4, E_ok, bs) \<and> key_page_of bs = (InitKeyPage 1024)\<lparr>kp_poff := 4096, kp_noff := 8192\<rparr>"
proof -
  have "calm (df_file sample_disk)" "fits 8 4096" "fits 8 8192" by (simp_all add: sample_disk_def calm_def fits_def)
  moreover have "page_fits (InitKeyPage 1024)"
    by (simp add: page_fits_def rec_fits_def InitKeyPage_def NUM_OF_KEYS_IN_PAGE_def KEY_PAGE_HDR_SIZE_def zero_key_rec_def fits_def MAX_KEY_LENGTH_def)
  moreover have "(1024::int) = int (64 + 64 * length (kp_keys (InitKeyPage 1024)))"
    by (simp add: InitKeyPage_def NUM_OF_KEYS_IN_PAGE_def KEY_PAGE_HDR_SIZE_def)
  ultimately show ?thesis using key_page_disk_roundtrip [of sample_disk "InitKeyPage 1024" 4096 8192 0 1024] by fastforce
qed

text \<open>
  Marking a page deleted writes four bytes where the flags have two: the count of the page on the
  disk becomes zero, while the page in memory keeps it.
\<close>

lemma writeFlags_clears_count:
  assumes "calm (df_file k)" "page_on_disk k off kp" "n = int (length (key_page_bytes kp))"
  shows "\<exists>k1 k2 bs. kf_writeFlags k off (Some kp) KPAGE_DELETED = (k1, Some (kp\<lparr>kp_flags := 1\<rparr>), E_ok) \<and>
    kf_read k1 off n = (k2, E_ok, bs) \<and> kp_flags (key_page_of bs) = 1 \<and> kp_vcount (key_page_of bs) = 0"
proof -
  have s: "to_short 1 = 1" by (simp add: to_short_def to_signed_def)
  from kf_fields(3) [OF assms(1,2), of "Some kp" KPAGE_DELETED] obtain k1 where k1:
    "kf_writeFlags k off (Some kp) KPAGE_DELETED = (k1, Some (kp\<lparr>kp_flags := 1\<rparr>), E_ok)" "calm (df_file k1)"
    "page_on_disk k1 off (flags_written kp 1)" by (auto simp: KPAGE_DELETED_def s)
  have "keys_48 kp" using assms(2) by (simp add: page_on_disk_def)
  then have "n = int (length (key_page_bytes (flags_written kp 1)))" using assms(3) by (simp add: length_key_page_bytes)
  from page_on_disk_read [OF k1(2,3) this] k1(1) show ?thesis
    by (auto simp: narrow_page_def flags_written_def narrow_fits)
qed

end
