(* ===== verification/Node_Heap.thy ===== *)
theory Node_Heap
  imports Db_Files Page_Mgr
begin

text \<open>
  The memory that the cache and the hash table of librdb share: key page nodes and cache nodes with
  their pointers, and the pages of the pool. A node pointer is \<open>None\<close> when null; a page is an
  address of the pool, \<open>0\<close> when null. Reading through a null or freed pointer has no result.
  \<open>h_malloc\<close> says which of the next allocations fail; later ones succeed.
\<close>

section \<open>Memory\<close>

record key_page_node =
  kpn_kp :: int
  kpn_kpoff :: int
  kpn_cnode :: "nat option"
  kpn_prev :: "nat option"
  kpn_next :: "nat option"

record cnode =
  c_kpn :: "nat option"
  c_prev :: "nat option"
  c_next :: "nat option"

record heap =
  h_kpn :: "nat \<Rightarrow> key_page_node option"
  h_cnode :: "nat \<Rightarrow> cnode option"
  h_page :: "int \<Rightarrow> key_page option"
  h_next :: nat
  h_malloc :: "bool list"

definition empty_heap :: "bool list \<Rightarrow> heap" where
  "empty_heap s = \<lparr>h_kpn = Map.empty, h_cnode = Map.empty, h_page = Map.empty, h_next = 0, h_malloc = s\<rparr>"

definition malloc_ok :: "heap \<Rightarrow> bool \<times> heap" where
  "malloc_ok h = (case h_malloc h of [] \<Rightarrow> (True, h) | b # bs \<Rightarrow> (b, h\<lparr>h_malloc := bs\<rparr>))"

definition new_cnode :: "heap \<Rightarrow> heap \<times> nat option" where
  "new_cnode h =
     (case malloc_ok h of
        (ok, h) \<Rightarrow>
          if ok then (h\<lparr>h_cnode := (h_cnode h)(h_next h \<mapsto> \<lparr>c_kpn = None, c_prev = None, c_next = None\<rparr>),
                        h_next := Suc (h_next h)\<rparr>, Some (h_next h))
          else (h, None))"

text \<open>\<^verbatim>\<open>malloc\<close> does not clear a node; every field is set before it is read.\<close>

definition new_kpn :: "heap \<Rightarrow> heap \<times> nat option" where
  "new_kpn h =
     (case malloc_ok h of
        (ok, h) \<Rightarrow>
          if ok then (h\<lparr>h_kpn := (h_kpn h)(h_next h \<mapsto> \<lparr>kpn_kp = 0, kpn_kpoff = 0, kpn_cnode = None, kpn_prev = None, kpn_next = None\<rparr>),
                        h_next := Suc (h_next h)\<rparr>, Some (h_next h))
          else (h, None))"

definition free_cnode :: "heap \<Rightarrow> nat \<Rightarrow> heap" where
  "free_cnode h p = h\<lparr>h_cnode := (h_cnode h)(p := None)\<rparr>"

definition free_kpn :: "heap \<Rightarrow> nat \<Rightarrow> heap" where
  "free_kpn h p = h\<lparr>h_kpn := (h_kpn h)(p := None)\<rparr>"

definition upd_cnode :: "heap \<Rightarrow> nat \<Rightarrow> (cnode \<Rightarrow> cnode) \<Rightarrow> heap option" where
  "upd_cnode h p f = map_option (\<lambda>c. h\<lparr>h_cnode := (h_cnode h)(p \<mapsto> f c)\<rparr>) (h_cnode h p)"

definition upd_kpn :: "heap \<Rightarrow> nat \<Rightarrow> (key_page_node \<Rightarrow> key_page_node) \<Rightarrow> heap option" where
  "upd_kpn h p f = map_option (\<lambda>k. h\<lparr>h_kpn := (h_kpn h)(p \<mapsto> f k)\<rparr>) (h_kpn h p)"

definition set_page :: "heap \<Rightarrow> int \<Rightarrow> key_page \<Rightarrow> heap" where
  "set_page h a kp = h\<lparr>h_page := (h_page h)(a \<mapsto> kp)\<rparr>"

text \<open>A page of zero bytes.\<close>

definition zero_key_page :: "int \<Rightarrow> key_page" where
  "zero_key_page kpSize =
     \<lparr>kp_flags = 0, kp_vcount = 0, kp_root = 0, kp_hash = 0, kp_poff = 0, kp_noff = 0,
      kp_keys = replicate (nat (NUM_OF_KEYS_IN_PAGE kpSize)) zero_key_rec\<rparr>"

section \<open>Doubly linked lists\<close>

text \<open>
  \<open>dseg m p xs n\<close>: the nodes \<open>xs\<close> are linked both ways by the links \<open>m\<close> (previous, next), coming from
  \<open>p\<close> and going on to \<open>n\<close>.
\<close>

type_synonym links = "nat \<Rightarrow> (nat option \<times> nat option) option"

definition first_of :: "nat list \<Rightarrow> nat option \<Rightarrow> nat option" where
  "first_of xs n = (case xs of [] \<Rightarrow> n | x # _ \<Rightarrow> Some x)"

definition last_of :: "nat list \<Rightarrow> nat option \<Rightarrow> nat option" where
  "last_of xs p = (if xs = [] then p else Some (last xs))"

fun dseg :: "links \<Rightarrow> nat option \<Rightarrow> nat list \<Rightarrow> nat option \<Rightarrow> bool" where
  "dseg m p [] n \<longleftrightarrow> True"
| "dseg m p (x # xs) n \<longleftrightarrow> m x = Some (p, first_of xs n) \<and> dseg m (Some x) xs n"

lemma first_of_simps [simp]: "first_of [] n = n" "first_of (x # xs) n = Some x"
  by (simp_all add: first_of_def)

lemma last_of_simps [simp]: "last_of [] p = p" "last_of (xs @ [x]) p = Some x" "last_of (x # xs) p = last_of xs (Some x)"
  by (simp_all add: last_of_def)

lemma first_of_append [simp]: "first_of (xs @ ys) n = first_of xs (first_of ys n)"
  by (cases xs) auto

lemma dseg_append: "dseg m p (xs @ ys) n \<longleftrightarrow> dseg m p xs (first_of ys n) \<and> dseg m (last_of xs p) ys n"
  by (induction xs arbitrary: p) auto

lemma dseg_cong: "(\<And>x. x \<in> set xs \<Longrightarrow> m' x = m x) \<Longrightarrow> dseg m' p xs n = dseg m p xs n"
  by (induction xs arbitrary: p) auto

lemma dseg_upd: "q \<notin> set xs \<Longrightarrow> dseg (m(q := v)) p xs n = dseg m p xs n"
  by (rule dseg_cong) auto

lemma dseg_dom: "dseg m p xs n \<Longrightarrow> x \<in> set xs \<Longrightarrow> m x \<noteq> None"
  by (induction xs arbitrary: p) auto

text \<open>Changing where a list comes from changes the first node, where it goes to the last.\<close>

lemma dseg_new_prev:
  "dseg m p xs n \<Longrightarrow> distinct xs \<Longrightarrow>
   dseg (case first_of xs None of None \<Rightarrow> m | Some x \<Rightarrow> m(x \<mapsto> (p', snd (the (m x))))) p' xs n"
  by (cases xs) (auto simp: dseg_upd)

lemma dseg_new_next:
  assumes "dseg m p xs n" "distinct xs"
  shows "dseg (case last_of xs None of None \<Rightarrow> m | Some x \<Rightarrow> m(x \<mapsto> (fst (the (m x)), n'))) p xs n'"
proof (cases xs rule: rev_cases)
  case (snoc ys y)
  with assms show ?thesis by (auto simp: dseg_append dseg_upd)
qed simp

text \<open>Closing the gap a node leaves.\<close>

lemma dseg_join:
  assumes "dseg m None as (Some cn)" "dseg m (Some cn) bs None" "distinct (as @ bs)"
    "m1 = (case last_of as None of None \<Rightarrow> m | Some p \<Rightarrow> m(p \<mapsto> (fst (the (m p)), first_of bs None)))"
    "m2 = (case first_of bs None of None \<Rightarrow> m1 | Some q \<Rightarrow> m1(q \<mapsto> (last_of as None, snd (the (m1 q)))))"
  shows "dseg m2 None (as @ bs) None"
proof -
  have a: "dseg m1 None as (first_of bs None)"
    using dseg_new_next [OF assms(1), of "first_of bs None"] assms(3,4) by simp
  have b1: "dseg m1 (Some cn) bs None"
  proof -
    have "last as \<notin> set bs" if "as \<noteq> []" using that assms(3) by (metis IntI distinct_append empty_iff last_in_set)
    then show ?thesis using assms(2) unfolding assms(4) last_of_def by (cases "as = []") (auto simp: dseg_upd)
  qed
  have b: "dseg m2 (last_of as None) bs None"
    using dseg_new_prev [OF b1, of "last_of as None"] assms(3,5) by simp
  have "first_of bs None \<noteq> None \<Longrightarrow> the (first_of bs None) \<notin> set as" using assms(3) by (cases bs) auto
  then have "dseg m2 None as (first_of bs None)" using a unfolding assms(5) by (auto simp: dseg_upd split: option.splits)
  with b show ?thesis by (simp add: dseg_append)
qed

definition klinks :: "heap \<Rightarrow> links" where
  "klinks h = (\<lambda>p. map_option (\<lambda>k. (kpn_prev k, kpn_next k)) (h_kpn h p))"

definition clinks :: "heap \<Rightarrow> links" where
  "clinks h = (\<lambda>p. map_option (\<lambda>c. (c_prev c, c_next c)) (h_cnode h p))"

end
