(* ===== verification/Hash_Table.thy ===== *)
theory Hash_Table
  imports Node_Heap
begin

text \<open>
  The hash table of librdb, \<^verbatim>\<open>librdb/include/hashtable.h\<close> and \<^verbatim>\<open>librdb/src/hashtable.cpp\<close>: for every
  hash value the offset of the first key page on the disk and the list of the key page nodes in
  memory. The lock of an entry is the subject of \<open>Lock_Table\<close>. An index out of range aborts.
\<close>

section \<open>The code\<close>

text \<open>Characters are signed; the sum is that of \<^verbatim>\<open>unsigned long\<close>.\<close>

fun hash_loop :: "byte list \<Rightarrow> 64 word \<Rightarrow> 64 word" where
  "hash_loop [] ih = ih"
| "hash_loop (c # cs) ih = hash_loop cs (of_int (sint c) + push_bit 6 ih + push_bit 16 ih - ih)"

definition hash :: "byte list \<Rightarrow> int \<Rightarrow> int \<Rightarrow> int" where
  "hash key klen table_size = to_int32 (uint (hash_loop (take (nat klen) key) 0 mod of_int table_size))"

record hash_entry =
  he_offset :: int
  he_head :: "nat option"
  he_tail :: "nat option"

type_synonym hash_table = "hash_entry list"

definition initHashEntry :: hash_entry where
  "initHashEntry = \<lparr>he_offset = -1, he_head = None, he_tail = None\<rparr>"

definition ht_allocate :: "heap \<Rightarrow> int \<Rightarrow> heap \<times> hash_table option \<times> int" where
  "ht_allocate h sz =
     (case malloc_ok h of
        (ok, h) \<Rightarrow> if ok then (h, Some (replicate (nat sz) initHashEntry), E_ok) else (h, None, E_no_memory))"

definition entry_at :: "hash_table \<Rightarrow> int \<Rightarrow> hash_entry option" where
  "entry_at ht i = (if 0 \<le> i \<and> nat i < length ht then Some (ht ! nat i) else None)"

definition getOffset :: "hash_table \<Rightarrow> int \<Rightarrow> int option" where
  "getOffset ht i = map_option he_offset (entry_at ht i)"

definition setOffset :: "hash_table \<Rightarrow> int \<Rightarrow> int \<Rightarrow> hash_table option" where
  "setOffset ht i off = map_option (\<lambda>e. ht[nat i := e\<lparr>he_offset := off\<rparr>]) (entry_at ht i)"

definition addKeyPageNode :: "hash_table \<Rightarrow> heap \<Rightarrow> int \<Rightarrow> nat \<Rightarrow> (hash_table \<times> heap) option" where
  "addKeyPageNode ht h i k = do {
     e \<leftarrow> entry_at ht i;
     h \<leftarrow> upd_kpn h k (\<lambda>n. n\<lparr>kpn_prev := None, kpn_next := None\<rparr>);
     node \<leftarrow> h_kpn h k;
     (case he_head e of
        None \<Rightarrow> Some (ht[nat i := \<lparr>he_offset = kpn_kpoff node, he_head = Some k, he_tail = Some k\<rparr>], h)
      | Some _ \<Rightarrow> do {
          h \<leftarrow> upd_kpn h k (kpn_prev_update (\<lambda>_. he_tail e));
          t \<leftarrow> he_tail e;
          h \<leftarrow> upd_kpn h t (kpn_next_update (\<lambda>_. Some k));
          Some (ht[nat i := e\<lparr>he_tail := Some k\<rparr>], h)
        })
   }"

definition removeKeyPageNode :: "hash_table \<Rightarrow> heap \<Rightarrow> int \<Rightarrow> nat \<Rightarrow> (hash_table \<times> heap) option" where
  "removeKeyPageNode ht h i k = do {
     e \<leftarrow> entry_at ht i;
     _ \<leftarrow> he_head e;
     _ \<leftarrow> he_tail e;
     node \<leftarrow> h_kpn h k;
     (e, h) \<leftarrow>
       (case kpn_prev node of
          Some p \<Rightarrow> do { h \<leftarrow> upd_kpn h p (kpn_next_update (\<lambda>_. kpn_next node)); Some (e, h) }
        | None \<Rightarrow>
            (case kpn_next node of
               Some q \<Rightarrow> do { n \<leftarrow> h_kpn h q; Some (e\<lparr>he_head := Some q, he_offset := kpn_kpoff n\<rparr>, h) }
             | None \<Rightarrow> Some (e\<lparr>he_head := None, he_offset := -1\<rparr>, h)));
     (e, h) \<leftarrow>
       (case kpn_next node of
          Some q \<Rightarrow> do { h \<leftarrow> upd_kpn h q (kpn_prev_update (\<lambda>_. kpn_prev node)); Some (e, h) }
        | None \<Rightarrow> Some (e\<lparr>he_tail := kpn_prev node\<rparr>, h));
     Some (ht[nat i := e], h)
   }"

definition getKeyPageNodeList :: "hash_table \<Rightarrow> int \<Rightarrow> nat option option" where
  "getKeyPageNodeList ht i = map_option he_head (entry_at ht i)"

text \<open>The loop frees the nodes; their cache nodes are not touched.\<close>

partial_function (option) free_nodes :: "heap \<Rightarrow> nat option \<Rightarrow> heap option" where
  "free_nodes h p =
     (case p of
        None \<Rightarrow> Some h
      | Some k \<Rightarrow> do { node \<leftarrow> h_kpn h k; free_nodes (free_kpn h k) (kpn_next node) })"

declare free_nodes.simps [code]

definition freeKeyPageNodeList :: "hash_table \<Rightarrow> heap \<Rightarrow> int \<Rightarrow> (hash_table \<times> heap) option" where
  "freeKeyPageNodeList ht h i = do {
     e \<leftarrow> entry_at ht i;
     h \<leftarrow> free_nodes h (he_head e);
     Some (ht[nat i := e\<lparr>he_head := None\<rparr>], h)
   }"

section \<open>The hash value\<close>

lemma hash_bounds: "0 < n \<Longrightarrow> n < 2 ^ 31 \<Longrightarrow> 0 \<le> hash key klen n \<and> hash key klen n < n"
proof -
  assume n: "0 < n" "n < 2 ^ 31"
  have u: "uint (of_int n :: 64 word) = n" using n by (simp add: uint_word_of_int)
  have m: "uint (w mod of_int n) = uint w mod n" for w :: "64 word" by (simp add: uint_mod_distrib u)
  let ?v = "uint (hash_loop (take (nat klen) key) 0) mod n"
  have v: "0 \<le> ?v" "?v < n" using n by simp_all
  have "n < 2147483648" using n(2) by simp
  with v have "to_int32 ?v = ?v" by (intro to_int32_id) linarith+
  then show ?thesis using v by (simp add: hash_def m)
qed

section \<open>The list of a bucket\<close>

definition bucket_list :: "hash_entry \<Rightarrow> heap \<Rightarrow> nat list \<Rightarrow> bool" where
  "bucket_list e h ks \<longleftrightarrow>
     distinct ks \<and> dseg (klinks h) None ks None \<and> he_head e = first_of ks None \<and> he_tail e = last_of ks None"

lemma klinks_upd [simp]:
  "klinks (h\<lparr>h_kpn := m(p \<mapsto> n)\<rparr>) = (klinks (h\<lparr>h_kpn := m\<rparr>))(p \<mapsto> (kpn_prev n, kpn_next n))"
  "klinks (h\<lparr>h_kpn := h_kpn h\<rparr>) = klinks h"
  by (auto simp: klinks_def)

text \<open>What relinking leaves alone.\<close>

definition kp_data :: "key_page_node \<Rightarrow> int \<times> int \<times> nat option" where
  "kp_data n = (kpn_kp n, kpn_kpoff n, kpn_cnode n)"

definition relinked_nodes :: "heap \<Rightarrow> heap \<Rightarrow> bool" where
  "relinked_nodes h h' \<longleftrightarrow>
     h_cnode h' = h_cnode h \<and> h_page h' = h_page h \<and> h_next h' = h_next h \<and> h_malloc h' = h_malloc h \<and>
     (\<forall>p. map_option kp_data (h_kpn h' p) = map_option kp_data (h_kpn h p))"

lemma relinked_nodes_refl [simp]: "relinked_nodes h h"
  by (simp add: relinked_nodes_def)

lemma relinked_nodes_trans: "relinked_nodes a b \<Longrightarrow> relinked_nodes b c \<Longrightarrow> relinked_nodes a c"
  by (simp add: relinked_nodes_def)

lemma upd_kpn_relinked:
  assumes "relinked_nodes h0 h" "klinks h p \<noteq> None" "\<And>n. kp_data (f n) = kp_data n"
  shows "\<exists>n h'. h_kpn h p = Some n \<and> upd_kpn h p f = Some h' \<and> relinked_nodes h0 h' \<and>
    klinks h' = (klinks h)(p \<mapsto> (kpn_prev (f n), kpn_next (f n)))"
proof -
  from assms(2) obtain n where n: "h_kpn h p = Some n" by (auto simp: klinks_def)
  let ?h = "h\<lparr>h_kpn := (h_kpn h)(p \<mapsto> f n)\<rparr>"
  have "map_option kp_data (h_kpn ?h q) = map_option kp_data (h_kpn h q)" for q using n assms(3) by simp
  then have "relinked_nodes h ?h" by (simp add: relinked_nodes_def)
  then have "relinked_nodes h0 ?h" by (rule relinked_nodes_trans [OF assms(1)])
  then show ?thesis using n by (simp add: upd_kpn_def)
qed

lemma bucket_add:
  assumes "entry_at ht i = Some e" "bucket_list e h ks" "h_kpn h k = Some node" "k \<notin> set ks"
  shows "\<exists>e' h'. addKeyPageNode ht h i k = Some (ht[nat i := e'], h') \<and> bucket_list e' h' (ks @ [k]) \<and> relinked_nodes h h' \<and>
    he_offset e' = (if ks = [] then kpn_kpoff node else he_offset e) \<and> (\<forall>q. q \<notin> set (ks @ [k]) \<longrightarrow> h_kpn h' q = h_kpn h q)"
proof -
  let ?n = "node\<lparr>kpn_prev := None, kpn_next := None\<rparr>"
  let ?h1 = "h\<lparr>h_kpn := (h_kpn h)(k \<mapsto> ?n)\<rparr>"
  have ks: "distinct ks" "dseg (klinks h) None ks None" "he_head e = first_of ks None" "he_tail e = last_of ks None"
    using assms(2) by (auto simp: bucket_list_def)
  show ?thesis
  proof (cases ks rule: rev_cases)
    case Nil
    have "relinked_nodes h ?h1" using assms(3) by (auto simp: relinked_nodes_def kp_data_def)
    with Nil ks assms(1,3) show ?thesis
      by (auto simp: addKeyPageNode_def upd_kpn_def bucket_list_def klinks_def)
  next
    case (snoc ks' t)
    from dseg_dom [OF ks(2), of t] snoc obtain tn where tn: "h_kpn h t = Some tn" by (auto simp: klinks_def)
    have tk: "t \<noteq> k" using assms(4) snoc by auto
    let ?h2 = "h\<lparr>h_kpn := (h_kpn h)(k \<mapsto> node\<lparr>kpn_next := None, kpn_prev := Some t\<rparr>, t \<mapsto> tn\<lparr>kpn_next := Some k\<rparr>)\<rparr>"
    obtain x where x: "he_head e = Some x" using ks(3) snoc by (cases ks') auto
    have "addKeyPageNode ht h i k = Some (ht[nat i := e\<lparr>he_tail := Some k\<rparr>], ?h2)"
      using assms(1,3) tn tk x ks(4) snoc by (simp add: addKeyPageNode_def upd_kpn_def)
    moreover have "relinked_nodes h ?h2" using assms(3) tn tk by (auto simp: relinked_nodes_def kp_data_def)
    moreover have "dseg (klinks ?h2) None (ks @ [k]) None"
    proof -
      have "klinks ?h2 = (klinks h)(t \<mapsto> (kpn_prev tn, Some k), k \<mapsto> (Some t, None))" using tk by (auto simp: klinks_def)
      moreover have "dseg ((klinks h)(t \<mapsto> (kpn_prev tn, Some k))) None ks (Some k)"
        using dseg_new_next [OF ks(2,1), of "Some k"] snoc tn by (simp add: klinks_def)
      ultimately show ?thesis using assms(4) tk snoc by (auto simp: dseg_append dseg_upd)
    qed
    ultimately show ?thesis using ks snoc assms(4) x tk by (auto simp: bucket_list_def last_of_def)
  qed
qed

lemma bucket_remove:
  assumes "entry_at ht i = Some e" "bucket_list e h ks" "k \<in> set ks"
  shows "\<exists>e' h'. removeKeyPageNode ht h i k = Some (ht[nat i := e'], h') \<and> bucket_list e' h' (remove1 k ks) \<and> relinked_nodes h h' \<and>
    (\<forall>q. q \<notin> set ks \<or> q = k \<longrightarrow> h_kpn h' q = h_kpn h q) \<and>
    he_offset e' = (if hd ks = k then (case tl ks of [] \<Rightarrow> -1 | q # _ \<Rightarrow> kpn_kpoff (the (h_kpn h q))) else he_offset e)"
proof -
  have ks: "distinct ks" "dseg (klinks h) None ks None" "he_head e = first_of ks None" "he_tail e = last_of ks None"
    using assms(2) by (auto simp: bucket_list_def)
  obtain as bs where s: "ks = as @ k # bs" "k \<notin> set as" using split_list_first [OF assms(3)] by blast
  then have d: "distinct (as @ bs)" "k \<notin> set (as @ bs)" "remove1 k ks = as @ bs" using ks(1) by (auto simp: remove1_append)
  have seg: "dseg (klinks h) None as (Some k)" "klinks h k = Some (last_of as None, first_of bs None)" "dseg (klinks h) (Some k) bs None"
    using ks(2) s(1) by (auto simp: dseg_append)
  then obtain node where node: "h_kpn h k = Some node" "kpn_prev node = last_of as None" "kpn_next node = first_of bs None"
    by (auto simp: klinks_def)
  obtain a b where ab: "he_head e = Some a" "he_tail e = Some b" using ks(3,4) s(1) by (cases as) (auto simp: last_of_def)
  define h1 where "h1 = (case last_of as None of None \<Rightarrow> h | Some p \<Rightarrow> h\<lparr>h_kpn := (h_kpn h)(p \<mapsto> (the (h_kpn h p))\<lparr>kpn_next := first_of bs None\<rparr>)\<rparr>)"
  define h2 where "h2 = (case first_of bs None of None \<Rightarrow> h1 | Some q \<Rightarrow> h1\<lparr>h_kpn := (h_kpn h1)(q \<mapsto> (the (h_kpn h1 q))\<lparr>kpn_prev := last_of as None\<rparr>)\<rparr>)"
  define off where "off = (if as = [] then (case bs of [] \<Rightarrow> -1 | q # _ \<Rightarrow> kpn_kpoff (the (h_kpn h q))) else he_offset e)"
  let ?e = "\<lparr>he_offset = off, he_head = first_of (as @ bs) None, he_tail = last_of (as @ bs) None\<rparr>"
  have in1: "h_kpn h p \<noteq> None" if "p \<in> set ks" for p using dseg_dom [OF ks(2) that] by (auto simp: klinks_def)
  have pa: "last as \<in> set as" "last as \<notin> set bs" if "as \<noteq> []" using that d(1) by (auto dest: last_in_set)
  have in2: "h_kpn h1 q = h_kpn h q" if "q \<in> set bs" for q using that pa by (auto simp: h1_def last_of_def)
  have rm: "removeKeyPageNode ht h i k = Some (ht[nat i := ?e], h2)"
  proof (cases as)
    case Nil
    show ?thesis
    proof (cases bs)
      case (Cons q bs')
      then obtain qn where "h_kpn h q = Some qn" using in1 s(1) by fastforce
      with Nil Cons assms(1) node ab ks(4) s(1) show ?thesis
        by (cases e) (simp add: removeKeyPageNode_def upd_kpn_def h1_def h2_def off_def last_of_def)
    qed (use Nil assms(1) node ab in \<open>cases e, simp add: removeKeyPageNode_def h1_def h2_def off_def\<close>)
  next
    case (Cons a' as')
    then have p: "last_of as None = Some (last as)" by (simp add: last_of_def)
    obtain pn where pn: "h_kpn h (last as) = Some pn" using in1 s(1) pa Cons by fastforce
    show ?thesis
    proof (cases bs)
      case Nil
      then show ?thesis using p pn assms(1) node ab ks(3) s(1) Cons
        by (cases e) (simp add: removeKeyPageNode_def upd_kpn_def h1_def h2_def off_def last_of_def)
    next
      case (Cons q bs')
      then obtain qn where qn: "h_kpn h q = Some qn" "q \<noteq> last as" using in1 s(1) pa \<open>as = a' # as'\<close> by fastforce
      then show ?thesis using p pn assms(1) node ab ks(3,4) s(1) Cons \<open>as = a' # as'\<close>
        by (cases e) (simp add: removeKeyPageNode_def upd_kpn_def h1_def h2_def off_def last_of_def)
    qed
  qed
  have r1: "relinked_nodes h h1"
    using in1 [of "last as"] s(1) pa by (auto simp: h1_def last_of_def relinked_nodes_def kp_data_def)
  have q1: "h_kpn h1 q \<noteq> None" if "q \<in> set bs" for q using in1 in2 s(1) that by auto
  have r2: "relinked_nodes h1 h2"
    using q1 [of "hd bs"] by (cases bs) (auto simp: h2_def relinked_nodes_def kp_data_def)
  have "dseg (klinks h2) None (as @ bs) None"
  proof (rule dseg_join [OF seg(1,3) d(1)])
    show "klinks h1 = (case last_of as None of None \<Rightarrow> klinks h | Some p \<Rightarrow> (klinks h)(p \<mapsto> (fst (the (klinks h p)), first_of bs None)))"
      using in1 [of "last as"] s(1) pa by (auto simp: h1_def last_of_def klinks_def fun_eq_iff)
    show "klinks h2 = (case first_of bs None of None \<Rightarrow> klinks h1 | Some q \<Rightarrow> (klinks h1)(q \<mapsto> (last_of as None, snd (the (klinks h1 q)))))"
      using q1 [of "hd bs"] by (cases bs) (auto simp: h2_def klinks_def fun_eq_iff)
  qed
  then have "bucket_list ?e h2 (remove1 k ks)" using d by (simp add: bucket_list_def)
  moreover have "\<forall>q. q \<notin> set ks \<or> q = k \<longrightarrow> h_kpn h2 q = h_kpn h q"
    using d(2) s(1) pa by (cases bs) (auto simp: h2_def h1_def last_of_def)
  moreover have "off = (if hd ks = k then (case tl ks of [] \<Rightarrow> -1 | q # _ \<Rightarrow> kpn_kpoff (the (h_kpn h q))) else he_offset e)"
    using s d(2) by (cases as) (auto simp: off_def)
  ultimately show ?thesis using rm relinked_nodes_trans [OF r1 r2] by auto
qed

lemma free_nodes_list:
  "distinct ks \<Longrightarrow> dseg (klinks h) p ks None \<Longrightarrow>
   free_nodes h (first_of ks None) = Some (h\<lparr>h_kpn := (\<lambda>q. if q \<in> set ks then None else h_kpn h q)\<rparr>)"
proof (induction ks arbitrary: h p)
  case Nil
  then show ?case by (simp add: free_nodes.simps)
next
  case (Cons k ks)
  then obtain node where node: "h_kpn h k = Some node" "kpn_next node = first_of ks None" by (auto simp: klinks_def)
  have "klinks (free_kpn h k) q = klinks h q" if "q \<in> set ks" for q using that Cons.prems(1) by (auto simp: klinks_def free_kpn_def)
  then have "dseg (klinks (free_kpn h k)) (Some k) ks None" using Cons.prems(2) dseg_cong [of ks] by (metis dseg.simps(2))
  with Cons.IH [of "free_kpn h k" "Some k"] Cons.prems(1)
  have "free_nodes (free_kpn h k) (first_of ks None) =
    Some ((free_kpn h k)\<lparr>h_kpn := (\<lambda>q. if q \<in> set ks then None else h_kpn (free_kpn h k) q)\<rparr>)" by simp
  moreover have "(free_kpn h k)\<lparr>h_kpn := (\<lambda>q. if q \<in> set ks then None else h_kpn (free_kpn h k) q)\<rparr> =
    h\<lparr>h_kpn := (\<lambda>q. if q \<in> set (k # ks) then None else h_kpn h q)\<rparr>"
    by (cases h) (auto simp: free_kpn_def fun_eq_iff)
  ultimately show ?case using node by (simp add: free_nodes.simps [of h])
qed

section \<open>Properties\<close>

text \<open>
  The hash of a key is an index of the table, for every key and every positive table size, so
  that the index assertions of the table never fire on it.
\<close>

lemma hash_in_table:
  assumes "0 < n" "n < 2 ^ 31" "length ht = nat n"
  shows "entry_at ht (hash key klen n) = Some (ht ! nat (hash key klen n)) \<and> nat (hash key klen n) < length ht"
  using hash_bounds [OF assms(1,2), of key klen] assms(3) by (simp add: entry_at_def)

lemma hash_in_table_sample:
  "entry_at (replicate 7 initHashEntry) (hash [107, 200] 2 7) \<noteq> None \<and> hash [107, 200] 2 7 < 7"
  using hash_in_table [of 7 "replicate 7 initHashEntry" "[107, 200]" 2] hash_bounds [of 7 "[107, 200]" 2] by simp

text \<open>
  C16: The nodes of a bucket form a list: adding a node appends it, removing one takes it out, head,
  tail and the links both ways follow, the first page's offset is that of the first node, the pages
  and cache nodes of all nodes stay, and freeing the bucket frees exactly its nodes.
\<close>

theorem bucket_refines_list:
  assumes "entry_at ht i = Some e" "bucket_list e h ks"
  shows "(\<forall>k node. k \<notin> set ks \<and> h_kpn h k = Some node \<longrightarrow>
      (\<exists>e' h'. addKeyPageNode ht h i k = Some (ht[nat i := e'], h') \<and> bucket_list e' h' (ks @ [k]) \<and> relinked_nodes h h' \<and>
        he_offset e' = (if ks = [] then kpn_kpoff node else he_offset e))) \<and>
    (\<forall>k. k \<in> set ks \<longrightarrow>
      (\<exists>e' h'. removeKeyPageNode ht h i k = Some (ht[nat i := e'], h') \<and> bucket_list e' h' (remove1 k ks) \<and> relinked_nodes h h' \<and>
        he_offset e' = (if hd ks = k then (case tl ks of [] \<Rightarrow> -1 | q # _ \<Rightarrow> kpn_kpoff (the (h_kpn h q))) else he_offset e))) \<and>
    (\<exists>ht' h'. freeKeyPageNodeList ht h i = Some (ht', h') \<and> (\<forall>q. h_kpn h' q = (if q \<in> set ks then None else h_kpn h q)))"
proof -
  have "\<exists>ht' h'. freeKeyPageNodeList ht h i = Some (ht', h') \<and> (\<forall>q. h_kpn h' q = (if q \<in> set ks then None else h_kpn h q))"
    using assms free_nodes_list [of ks h None] by (auto simp: freeKeyPageNodeList_def bucket_list_def)
  then show ?thesis using bucket_add [OF assms] bucket_remove [OF assms] by meson
qed

definition sample_nodes :: heap where
  "sample_nodes = (empty_heap [])\<lparr>h_kpn :=
     [1 \<mapsto> \<lparr>kpn_kp = 4096, kpn_kpoff = 0, kpn_cnode = None, kpn_prev = None, kpn_next = Some 2\<rparr>,
      2 \<mapsto> \<lparr>kpn_kp = 8192, kpn_kpoff = 4096, kpn_cnode = None, kpn_prev = Some 1, kpn_next = None\<rparr>]\<rparr>"

theorem bucket_refines_list_witness:
  "let e = \<lparr>he_offset = 0, he_head = Some 1, he_tail = Some 2\<rparr> in
   \<exists>e' h'. removeKeyPageNode [e] sample_nodes 0 1 = Some ([e'], h') \<and> bucket_list e' h' [2] \<and> he_offset e' = 4096"
proof -
  let ?e = "\<lparr>he_offset = 0, he_head = Some 1, he_tail = Some 2\<rparr>"
  have "entry_at [?e] 0 = Some ?e" by (simp add: entry_at_def)
  moreover have "bucket_list ?e sample_nodes [1, 2]" by (simp add: bucket_list_def sample_nodes_def klinks_def last_of_def)
  ultimately have "\<exists>e' h'. removeKeyPageNode [?e] sample_nodes 0 1 = Some ([?e][nat 0 := e'], h') \<and> bucket_list e' h' (remove1 1 [1, 2]) \<and>
      he_offset e' = kpn_kpoff (the (h_kpn sample_nodes 2))"
    using bucket_refines_list [of "[?e]" 0 ?e sample_nodes "[1, 2]"] by auto
  then show ?thesis by (simp add: sample_nodes_def)
qed

end
