(* ===== verification/Lru_Cache.thy ===== *)
theory Lru_Cache
  imports Node_Heap
begin

text \<open>
  The cache of key pages, \<^verbatim>\<open>librdb/src/cache.cpp\<close>: a doubly linked list of cache nodes, the most
  recently used first, each with the key page node whose page it keeps in memory.
\<close>

section \<open>The code\<close>

record lru_cache =
  lc_kpSize :: int
  lc_max :: int
  lc_num :: int
  lc_head :: "nat option"
  lc_tail :: "nat option"
  lc_pm :: page_mgr

definition LRUCache :: "int \<Rightarrow> page_mgr \<Rightarrow> lru_cache" where
  "LRUCache kpSize pm =
     \<lparr>lc_kpSize = kpSize, lc_max = numOfPages pm, lc_num = 0, lc_head = None, lc_tail = None, lc_pm = pm\<rparr>"

definition page_free :: "lru_cache \<Rightarrow> int \<Rightarrow> lru_cache option" where
  "page_free c a = map_option (\<lambda>pm. c\<lparr>lc_pm := pm\<rparr>) (PageMgr_free (lc_pm c) a)"

text \<open>The page of a node that leaves the cache goes back to the pool.\<close>

definition drop_page :: "lru_cache \<Rightarrow> heap \<Rightarrow> nat \<Rightarrow> (lru_cache \<times> heap) option" where
  "drop_page c h k = do {
     kpn \<leftarrow> h_kpn h k;
     c \<leftarrow> (if kpn_kp kpn \<noteq> 0 then page_free c (kpn_kp kpn) else Some c);
     h \<leftarrow> upd_kpn h k (\<lambda>n. n\<lparr>kpn_kp := 0, kpn_kpoff := -1, kpn_cnode := None\<rparr>);
     Some (c, h)
   }"

definition removeLast :: "lru_cache \<Rightarrow> heap \<Rightarrow> (lru_cache \<times> heap \<times> nat option) option" where
  "removeLast c h =
     (case lc_tail c of
        None \<Rightarrow> Some (c, h, None)
      | Some cn \<Rightarrow> do {
          n \<leftarrow> h_cnode h cn;
          (c, h) \<leftarrow>
            (case c_prev n of
               Some p \<Rightarrow> do { h \<leftarrow> upd_cnode h p (c_next_update (\<lambda>_. None)); Some (c\<lparr>lc_tail := Some p\<rparr>, h) }
             | None \<Rightarrow> Some (c\<lparr>lc_head := None, lc_tail := None\<rparr>, h));
          (c, h) \<leftarrow> (case c_kpn n of None \<Rightarrow> Some (c, h) | Some k \<Rightarrow> drop_page c h k);
          h \<leftarrow> upd_cnode h cn (\<lambda>_. \<lparr>c_kpn = None, c_prev = None, c_next = None\<rparr>);
          Some (c\<lparr>lc_num := lc_num c - 1\<rparr>, h, Some cn)
        })"

definition getCacheNode :: "lru_cache \<Rightarrow> heap \<Rightarrow> (lru_cache \<times> heap \<times> nat option) option" where
  "getCacheNode c h =
     (if lc_num c \<ge> lc_max c then removeLast c h else case new_cnode h of (h, cn) \<Rightarrow> Some (c, h, cn))"

definition cache_add :: "lru_cache \<Rightarrow> heap \<Rightarrow> nat \<Rightarrow> (lru_cache \<times> heap) option" where
  "cache_add c h cn = do {
     h \<leftarrow> upd_cnode h cn (\<lambda>n. n\<lparr>c_prev := None, c_next := lc_head c\<rparr>);
     (c, h) \<leftarrow>
       (case lc_head c of
          Some p \<Rightarrow> do { h \<leftarrow> upd_cnode h p (c_prev_update (\<lambda>_. Some cn)); Some (c, h) }
        | None \<Rightarrow> Some (c\<lparr>lc_tail := Some cn\<rparr>, h));
     Some (c\<lparr>lc_head := Some cn, lc_num := lc_num c + 1\<rparr>, h)
   }"

text \<open>The private \<open>free\<close> takes a node out of the list; the count stays.\<close>

definition cache_unlink :: "lru_cache \<Rightarrow> heap \<Rightarrow> nat \<Rightarrow> (lru_cache \<times> heap) option" where
  "cache_unlink c h cn = do {
     n \<leftarrow> h_cnode h cn;
     (c, h) \<leftarrow>
       (case c_prev n of
          Some p \<Rightarrow> do { h \<leftarrow> upd_cnode h p (c_next_update (\<lambda>_. c_next n)); Some (c, h) }
        | None \<Rightarrow>
            (case c_next n of
               Some q \<Rightarrow> do { h \<leftarrow> upd_cnode h q (c_prev_update (\<lambda>_. None)); Some (c\<lparr>lc_head := Some q\<rparr>, h) }
             | None \<Rightarrow> Some (c\<lparr>lc_head := None\<rparr>, h)));
     (c, h) \<leftarrow>
       (case c_next n of
          Some q \<Rightarrow> do { h \<leftarrow> upd_cnode h q (c_prev_update (\<lambda>_. c_prev n)); Some (c, h) }
        | None \<Rightarrow>
            (case c_prev n of
               Some p \<Rightarrow> do { h \<leftarrow> upd_cnode h p (c_next_update (\<lambda>_. None)); Some (c\<lparr>lc_tail := Some p\<rparr>, h) }
             | None \<Rightarrow> Some (c\<lparr>lc_tail := None\<rparr>, h)));
     Some (c, free_cnode h cn)
   }"

text \<open>A page from the pool is cleared; one with an offset is read from the key file.\<close>

definition getPage :: "lru_cache \<Rightarrow> heap \<Rightarrow> db_file \<Rightarrow> int \<Rightarrow> (lru_cache \<times> heap \<times> db_file \<times> int \<times> int) option" where
  "getPage c h kf off =
     (case PageMgr_get (lc_pm c) of
        (pm, kp) \<Rightarrow>
          let c = c\<lparr>lc_pm := pm\<rparr> in
          if kp = 0 then Some (c, h, kf, kp, E_no_memory)
          else
            let h = set_page h kp (zero_key_page (lc_kpSize c)) in
            if off \<noteq> -1 then
              (case kf_read kf off (lc_kpSize c) of
                 (kf, r, bs) \<Rightarrow>
                   if r \<noteq> E_ok then do { c \<leftarrow> page_free c kp; Some (c, h, kf, kp, r) }
                   else Some (c, set_page h kp (key_page_of bs), kf, kp, r))
            else Some (c, h, kf, kp, E_ok))"

definition set_node :: "heap \<Rightarrow> nat \<Rightarrow> nat \<Rightarrow> int \<Rightarrow> int \<Rightarrow> heap option" where
  "set_node h k cn kp off = do {
     h \<leftarrow> upd_kpn h k (\<lambda>_. \<lparr>kpn_kp = kp, kpn_kpoff = off, kpn_cnode = Some cn, kpn_prev = None, kpn_next = None\<rparr>);
     upd_cnode h cn (c_kpn_update (\<lambda>_. Some k))
   }"

definition cache_get :: "lru_cache \<Rightarrow> heap \<Rightarrow> db_file \<Rightarrow> int \<Rightarrow> (lru_cache \<times> heap \<times> db_file \<times> nat option \<times> int) option" where
  "cache_get c h kf off = do {
     (c, h, cn) \<leftarrow> getCacheNode c h;
     case cn of
       None \<Rightarrow> Some (c, h, kf, None, E_no_memory)
     | Some cn \<Rightarrow>
         (case new_kpn h of
            (h, None) \<Rightarrow> Some (c, free_cnode h cn, kf, None, E_no_memory)
          | (h, Some k) \<Rightarrow> do {
              (c, h, kf, kp, r) \<leftarrow> getPage c h kf off;
              if r \<noteq> E_ok then Some (c, free_cnode (free_kpn h k) cn, kf, Some k, r)
              else do {
                h \<leftarrow> set_node h k cn kp off;
                (c, h) \<leftarrow> cache_add c h cn;
                Some (c, h, kf, Some k, r)
              }
            })
   }"

text \<open>\<open>update\<close> gives a node a page again; it also clears the links of the node in its bucket.\<close>

definition cache_update :: "lru_cache \<Rightarrow> heap \<Rightarrow> db_file \<Rightarrow> nat \<Rightarrow> int \<Rightarrow> (lru_cache \<times> heap \<times> db_file \<times> int) option" where
  "cache_update c h kf k off = do {
     (c, h, cn) \<leftarrow> getCacheNode c h;
     case cn of
       None \<Rightarrow> Some (c, h, kf, E_no_memory)
     | Some cn \<Rightarrow> do {
         (c, h, kf, kp, r) \<leftarrow> getPage c h kf off;
         if r \<noteq> E_ok then Some (c, free_cnode h cn, kf, r)
         else do {
           h \<leftarrow> set_node h k cn kp off;
           (c, h) \<leftarrow> cache_add c h cn;
           Some (c, h, kf, r)
         }
       }
   }"

text \<open>\<open>touch\<close> moves a node to the front; the tail pointer stays as it is.\<close>

definition cache_touch :: "lru_cache \<Rightarrow> heap \<Rightarrow> nat option \<Rightarrow> (lru_cache \<times> heap) option" where
  "cache_touch c h kpn =
     (case kpn of
        None \<Rightarrow> Some (c, h)
      | Some k \<Rightarrow> do {
          node \<leftarrow> h_kpn h k;
          if kpn_kp node = 0 then Some (c, h)
          else
            (case kpn_cnode node of
               None \<Rightarrow> Some (c, h)
             | Some cn \<Rightarrow> do {
                 n \<leftarrow> h_cnode h cn;
                 (case c_prev n of
                    None \<Rightarrow> Some (c, h)
                  | Some p \<Rightarrow> do {
                      h \<leftarrow> upd_cnode h p (c_next_update (\<lambda>_. c_next n));
                      h \<leftarrow> (case c_next n of None \<Rightarrow> Some h | Some q \<Rightarrow> upd_cnode h q (c_prev_update (\<lambda>_. c_prev n)));
                      h \<leftarrow> upd_cnode h cn (\<lambda>n. n\<lparr>c_prev := None, c_next := lc_head c\<rparr>);
                      hd \<leftarrow> lc_head c;
                      h \<leftarrow> upd_cnode h hd (c_prev_update (\<lambda>_. Some cn));
                      Some (c\<lparr>lc_head := Some cn\<rparr>, h)
                    })
               })
        })"

definition cache_free :: "lru_cache \<Rightarrow> heap \<Rightarrow> nat \<Rightarrow> (lru_cache \<times> heap) option" where
  "cache_free c h k = do {
     node \<leftarrow> h_kpn h k;
     (case kpn_cnode node of
        None \<Rightarrow> Some (c, h)
      | Some cn \<Rightarrow> do {
          (c, h) \<leftarrow> cache_unlink c h cn;
          (c, h) \<leftarrow> drop_page c h k;
          Some (c, free_kpn h k)
        })
   }"

section \<open>The list of the cache\<close>

definition cache_list :: "lru_cache \<Rightarrow> heap \<Rightarrow> nat list \<Rightarrow> bool" where
  "cache_list c h xs \<longleftrightarrow> distinct xs \<and> dseg (clinks h) None xs None \<and> lc_head c = first_of xs None"

text \<open>The part of a heap the list operations leave alone.\<close>

definition relinked_heap :: "heap \<Rightarrow> heap \<Rightarrow> bool" where
  "relinked_heap h h' \<longleftrightarrow>
     h_kpn h' = h_kpn h \<and> h_page h' = h_page h \<and> h_next h' = h_next h \<and> h_malloc h' = h_malloc h \<and>
     (\<forall>p. map_option c_kpn (h_cnode h' p) = map_option c_kpn (h_cnode h p))"

definition same_cache :: "lru_cache \<Rightarrow> lru_cache \<Rightarrow> bool" where
  "same_cache c c' \<longleftrightarrow> lc_kpSize c' = lc_kpSize c \<and> lc_max c' = lc_max c \<and> lc_pm c' = lc_pm c"

lemma clinks_upd [simp]:
  "clinks (h\<lparr>h_cnode := m(p \<mapsto> n)\<rparr>) = (clinks (h\<lparr>h_cnode := m\<rparr>))(p \<mapsto> (c_prev n, c_next n))"
  "clinks (h\<lparr>h_cnode := m(p := None)\<rparr>) = (clinks (h\<lparr>h_cnode := m\<rparr>))(p := None)"
  "clinks (h\<lparr>h_cnode := h_cnode h\<rparr>) = clinks h"
  by (auto simp: clinks_def)

lemma clinks_Some: "clinks h p = Some (a, b) \<Longrightarrow> \<exists>n. h_cnode h p = Some n \<and> c_prev n = a \<and> c_next n = b"
  by (auto simp: clinks_def)

lemma upd_cnode_Some: "h_cnode h p = Some n \<Longrightarrow> upd_cnode h p f = Some (h\<lparr>h_cnode := (h_cnode h)(p \<mapsto> f n)\<rparr>)"
  by (simp add: upd_cnode_def)

lemma relinked_heap_refl [simp]: "relinked_heap h h"
  by (simp add: relinked_heap_def)

lemma relinked_heap_upd:
  "relinked_heap h h' \<Longrightarrow> h_cnode h' p = Some n \<Longrightarrow> c_kpn (f n) = c_kpn n \<Longrightarrow>
   relinked_heap h (h'\<lparr>h_cnode := (h_cnode h')(p \<mapsto> f n)\<rparr>)"
  by (auto simp: relinked_heap_def) (metis option.map(2))

lemma upd_cnode_relinked:
  assumes "relinked_heap h0 h" "clinks h p = Some ab" "\<And>n. c_kpn (f n) = c_kpn n"
  shows "\<exists>n h'. h_cnode h p = Some n \<and> (c_prev n, c_next n) = ab \<and> upd_cnode h p f = Some h' \<and> relinked_heap h0 h' \<and>
    clinks h' = (clinks h)(p \<mapsto> (c_prev (f n), c_next (f n)))"
proof -
  from assms(2) obtain n where n: "h_cnode h p = Some n" "(c_prev n, c_next n) = ab" by (auto simp: clinks_def)
  then show ?thesis using assms relinked_heap_upd [of h0 h p n f] by (simp add: upd_cnode_Some)
qed

lemma cache_add_list:
  assumes "cache_list c h xs" "clinks h cn \<noteq> None" "cn \<notin> set xs"
  shows "\<exists>c' h'. cache_add c h cn = Some (c', h') \<and> cache_list c' h' (cn # xs) \<and> relinked_heap h h' \<and> same_cache c c' \<and>
    lc_num c' = lc_num c + 1 \<and> (lc_tail c = last_of xs None \<longrightarrow> lc_tail c' = last_of (cn # xs) None)"
proof -
  have xs: "distinct xs" "dseg (clinks h) None xs None" "lc_head c = first_of xs None" using assms(1) by (auto simp: cache_list_def)
  from upd_cnode_relinked [OF relinked_heap_refl, of h cn _ "\<lambda>n. n\<lparr>c_prev := None, c_next := lc_head c\<rparr>"] assms(2)
  obtain h1 where h1: "upd_cnode h cn (\<lambda>n. n\<lparr>c_prev := None, c_next := lc_head c\<rparr>) = Some h1" "relinked_heap h h1"
    "clinks h1 = (clinks h)(cn \<mapsto> (None, lc_head c))" by auto
  show ?thesis
  proof (cases xs)
    case Nil
    with xs h1 show ?thesis by (simp add: cache_add_def cache_list_def same_cache_def)
  next
    case (Cons p ys)
    have "clinks h1 p = Some (None, first_of ys None)" using xs h1 Cons assms(3) by auto
    from upd_cnode_relinked [OF h1(2) this, of "c_prev_update (\<lambda>_. Some cn)"]
    obtain h2 where h2: "upd_cnode h1 p (c_prev_update (\<lambda>_. Some cn)) = Some h2" "relinked_heap h h2"
      "clinks h2 = (clinks h1)(p \<mapsto> (Some cn, first_of ys None))" by auto
    have "dseg (clinks h2) None (cn # xs) None"
      using h2(3) h1(3) xs Cons assms(3) by (auto simp: dseg_upd)
    with h1 h2 xs Cons assms(3) show ?thesis by (simp add: cache_add_def cache_list_def same_cache_def last_of_def)
  qed
qed

lemma cache_list_split: "cache_list c h xs \<Longrightarrow> cn \<in> set xs \<Longrightarrow>
   \<exists>as bs. xs = as @ cn # bs \<and> remove1 cn xs = as @ bs \<and> cn \<notin> set as \<and> cn \<notin> set bs \<and> distinct as \<and> distinct bs \<and> set as \<inter> set bs = {} \<and>
     clinks h cn = Some (last_of as None, first_of bs None) \<and>
     dseg (clinks h) None as (Some cn) \<and> dseg (clinks h) (Some cn) bs None"
proof -
  assume x: "cache_list c h xs" "cn \<in> set xs"
  then obtain as bs where s: "xs = as @ cn # bs" "cn \<notin> set as" using split_list_first [of cn xs] by blast
  have "distinct (as @ cn # bs)" "dseg (clinks h) None (as @ cn # bs) None" using x(1) s(1) by (simp_all add: cache_list_def)
  with s show ?thesis by (fastforce simp: dseg_append remove1_append)
qed

definition link_next :: "heap \<Rightarrow> nat option \<Rightarrow> nat option \<Rightarrow> heap option" where
  "link_next h p v = (case p of None \<Rightarrow> Some h | Some p \<Rightarrow> upd_cnode h p (c_next_update (\<lambda>_. v)))"

definition link_prev :: "heap \<Rightarrow> nat option \<Rightarrow> nat option \<Rightarrow> heap option" where
  "link_prev h q v = (case q of None \<Rightarrow> Some h | Some q \<Rightarrow> upd_cnode h q (c_prev_update (\<lambda>_. v)))"

lemma link_next_relinked:
  assumes "relinked_heap h0 h" "\<And>x. p = Some x \<Longrightarrow> clinks h x \<noteq> None"
  shows "\<exists>h'. link_next h p v = Some h' \<and> relinked_heap h0 h' \<and>
    clinks h' = (case p of None \<Rightarrow> clinks h | Some x \<Rightarrow> (clinks h)(x \<mapsto> (fst (the (clinks h x)), v)))"
proof (cases p)
  case (Some x)
  with assms(2) obtain ab where "clinks h x = Some ab" by auto
  from upd_cnode_relinked [OF assms(1) this, of "c_next_update (\<lambda>_. v)"] this Some show ?thesis
    by (auto simp: link_next_def)
qed (use assms in \<open>simp add: link_next_def\<close>)

lemma link_prev_relinked:
  assumes "relinked_heap h0 h" "\<And>x. q = Some x \<Longrightarrow> clinks h x \<noteq> None"
  shows "\<exists>h'. link_prev h q v = Some h' \<and> relinked_heap h0 h' \<and>
    clinks h' = (case q of None \<Rightarrow> clinks h | Some x \<Rightarrow> (clinks h)(x \<mapsto> (v, snd (the (clinks h x)))))"
proof (cases q)
  case (Some x)
  with assms(2) obtain ab where "clinks h x = Some ab" by auto
  from upd_cnode_relinked [OF assms(1) this, of "c_prev_update (\<lambda>_. v)"] this Some show ?thesis
    by (auto simp: link_prev_def)
qed (use assms in \<open>simp add: link_prev_def\<close>)

lemma close_gap:
  assumes "dseg (clinks h) None as (Some cn)" "dseg (clinks h) (Some cn) bs None" "distinct (as @ bs)" "cn \<notin> set (as @ bs)"
  shows "\<exists>h1 h2. link_next h (last_of as None) (first_of bs None) = Some h1 \<and>
    link_prev h1 (first_of bs None) (last_of as None) = Some h2 \<and> relinked_heap h h2 \<and>
    dseg (clinks h2) None (as @ bs) None \<and> clinks h2 cn = clinks h cn"
proof -
  have p: "x \<in> set as" if "last_of as None = Some x" for x using that by (auto simp: last_of_def split: if_splits)
  have q: "x \<in> set bs" if "first_of bs None = Some x" for x using that by (cases bs) auto
  have d: "clinks h x \<noteq> None" if "last_of as None = Some x" for x using dseg_dom [OF assms(1)] p [OF that] by blast
  from link_next_relinked [where p = "last_of as None" and v = "first_of bs None", OF relinked_heap_refl d] obtain h1 where
    h1: "link_next h (last_of as None) (first_of bs None) = Some h1" "relinked_heap h h1"
      "clinks h1 = (case last_of as None of None \<Rightarrow> clinks h | Some x \<Rightarrow> (clinks h)(x \<mapsto> (fst (the (clinks h x)), first_of bs None)))"
    by blast
  have d1: "clinks h1 x \<noteq> None" if "first_of bs None = Some x" for x
    using dseg_dom [OF assms(2)] q [OF that] h1(3) by (auto split: option.splits)
  from link_prev_relinked [where q = "first_of bs None" and v = "last_of as None", OF h1(2) d1] obtain h2 where
    h2: "link_prev h1 (first_of bs None) (last_of as None) = Some h2" "relinked_heap h h2"
      "clinks h2 = (case first_of bs None of None \<Rightarrow> clinks h1 | Some x \<Rightarrow> (clinks h1)(x \<mapsto> (last_of as None, snd (the (clinks h1 x)))))"
    by blast
  have "dseg (clinks h2) None (as @ bs) None" by (rule dseg_join [OF assms(1-3) h1(3) h2(3)])
  moreover have "clinks h2 cn = clinks h cn" using h1(3) h2(3) assms(4) p q by (auto split: option.splits)
  ultimately show ?thesis using h1(1) h2 by blast
qed

lemma cache_touch_list:
  assumes "cache_list c h xs" "h_kpn h k = Some node" "kpn_kp node \<noteq> 0" "kpn_cnode node = Some cn" "cn \<in> set xs"
  shows "\<exists>c' h'. cache_touch c h (Some k) = Some (c', h') \<and> cache_list c' h' (cn # remove1 cn xs) \<and> relinked_heap h h' \<and>
    same_cache c c' \<and> lc_num c' = lc_num c \<and> lc_tail c' = lc_tail c"
proof -
  from cache_list_split [OF assms(1,5)] obtain as bs where s: "xs = as @ cn # bs" "remove1 cn xs = as @ bs"
    "distinct (as @ bs)" "cn \<notin> set (as @ bs)" "clinks h cn = Some (last_of as None, first_of bs None)"
    "dseg (clinks h) None as (Some cn)" "dseg (clinks h) (Some cn) bs None" by auto
  from clinks_Some [OF s(5)] obtain n where n: "h_cnode h cn = Some n" "c_prev n = last_of as None" "c_next n = first_of bs None"
    by auto
  show ?thesis
  proof (cases "as = []")
    case True
    with s n assms show ?thesis by (auto simp: cache_touch_def same_cache_def)
  next
    case False
    then have p: "last_of as None = Some (last as)" by (simp add: last_of_def)
    obtain hd where hd: "lc_head c = Some hd" "first_of (as @ bs) None = Some hd"
      using assms(1) s(1) False by (cases as) (auto simp: cache_list_def)
    from close_gap [OF s(6,7,3,4)] obtain h1 h2 where
      h2: "link_next h (last_of as None) (first_of bs None) = Some h1" "link_prev h1 (first_of bs None) (last_of as None) = Some h2"
        "relinked_heap h h2" "dseg (clinks h2) None (as @ bs) None" "clinks h2 cn = clinks h cn" by blast
    have "cache_list c h2 (as @ bs)" using h2(4) s(3) hd by (simp add: cache_list_def)
    from cache_add_list [OF this, of cn] s(4,5) h2(5) obtain c' h' where
      a: "cache_add c h2 cn = Some (c', h')" "cache_list c' h' (cn # as @ bs)" "relinked_heap h2 h'" by auto
    then obtain h3 h4 where h4: "upd_cnode h2 cn (\<lambda>n. n\<lparr>c_prev := None, c_next := lc_head c\<rparr>) = Some h3"
      "upd_cnode h3 hd (c_prev_update (\<lambda>_. Some cn)) = Some h4" "h' = h4" "lc_head c' = Some cn"
      using hd(1) by (auto simp: cache_add_def split: bind_splits)
    have "cache_touch c h (Some k) = Some (c\<lparr>lc_head := Some cn\<rparr>, h')"
      using assms(2-4) n p h2(1,2) h4(1-3) hd(1)
      by (auto simp: cache_touch_def link_next_def link_prev_def split: option.splits bind_splits)
    moreover have "relinked_heap h h'" using h2(3) a(3) by (simp add: relinked_heap_def)
    moreover have "cache_list (c\<lparr>lc_head := Some cn\<rparr>) h' (cn # remove1 cn xs)" using a(2) s(2) by (simp add: cache_list_def)
    ultimately show ?thesis by (auto simp: same_cache_def)
  qed
qed

lemma upd_cnode_idem: "upd_cnode h p f = Some h' \<Longrightarrow> (\<And>n. f (f n) = f n) \<Longrightarrow> upd_cnode h' p f = Some h'"
  by (auto simp: upd_cnode_def)

lemma dseg_free: "cn \<notin> set xs \<Longrightarrow> dseg (clinks (free_cnode h cn)) p xs n = dseg (clinks h) p xs n"
  by (rule dseg_cong) (auto simp: free_cnode_def)

lemma cache_unlink_list:
  assumes "cache_list c h xs" "cn \<in> set xs"
  shows "\<exists>c' h'. cache_unlink c h cn = Some (c', free_cnode h' cn) \<and> cache_list c' (free_cnode h' cn) (remove1 cn xs) \<and>
    relinked_heap h h' \<and> same_cache c c' \<and> lc_num c' = lc_num c \<and>
    (lc_tail c = last_of xs None \<longrightarrow> lc_tail c' = last_of (remove1 cn xs) None)"
proof -
  from cache_list_split [OF assms] obtain as bs where s: "xs = as @ cn # bs" "remove1 cn xs = as @ bs"
    "distinct (as @ bs)" "cn \<notin> set (as @ bs)" "clinks h cn = Some (last_of as None, first_of bs None)"
    "dseg (clinks h) None as (Some cn)" "dseg (clinks h) (Some cn) bs None" by auto
  from clinks_Some [OF s(5)] obtain n where n: "h_cnode h cn = Some n" "c_prev n = last_of as None" "c_next n = first_of bs None"
    by auto
  from close_gap [OF s(6,7,3,4)] obtain h1 h2 where
    h2: "link_next h (last_of as None) (first_of bs None) = Some h1" "link_prev h1 (first_of bs None) (last_of as None) = Some h2"
      "relinked_heap h h2" "dseg (clinks h2) None (as @ bs) None" by blast
  let ?c = "c\<lparr>lc_head := first_of (as @ bs) None, lc_tail := (if bs = [] then last_of as None else lc_tail c)\<rparr>"
  have "cache_unlink c h cn = Some (?c, free_cnode h2 cn)"
  proof (cases as rule: rev_cases)
    case Nil
    show ?thesis
    proof (cases bs)
      case (Cons q bs')
      have "upd_cnode h2 q (c_prev_update (\<lambda>_. None)) = Some h2"
        by (rule upd_cnode_idem) (use h2(1,2) \<open>as = []\<close> Cons in \<open>auto simp: link_next_def link_prev_def\<close>)
      with h2(1,2) n \<open>as = []\<close> Cons show ?thesis by (simp add: cache_unlink_def link_next_def link_prev_def)
    qed (use h2(1,2) n \<open>as = []\<close> in \<open>simp add: cache_unlink_def link_next_def link_prev_def\<close>)
  next
    case (snoc as' p)
    then have hd: "lc_head c = first_of (as @ bs) None" using assms(1) s(1) by (cases as') (auto simp: cache_list_def)
    show ?thesis
    proof (cases bs)
      case Nil
      have "upd_cnode h2 p (c_next_update (\<lambda>_. None)) = Some h2"
        by (rule upd_cnode_idem) (use h2(1,2) snoc Nil in \<open>auto simp: link_next_def link_prev_def\<close>)
      with h2(1,2) n snoc Nil hd show ?thesis by (simp add: cache_unlink_def link_next_def link_prev_def)
    qed (use h2(1,2) n snoc hd in \<open>simp add: cache_unlink_def link_next_def link_prev_def\<close>)
  qed
  moreover have "cache_list ?c (free_cnode h2 cn) (remove1 cn xs)"
    using h2(4) s(2-4) dseg_free [of cn "as @ bs" h2] by (simp add: cache_list_def)
  moreover have "lc_tail c = last_of xs None \<longrightarrow> lc_tail ?c = last_of (remove1 cn xs) None"
    unfolding s(2) unfolding s(1) by (cases "bs = []") (auto simp: last_of_def)
  ultimately show ?thesis using h2(3) by (intro exI [of _ ?c] exI [of _ h2]) (simp add: same_cache_def)
qed

text \<open>A node with a page: what \<open>removeLast\<close> and \<open>free\<close> do to it.\<close>

lemma drop_page_node:
  assumes "h_kpn h k = Some node" "PageMgr_free (lc_pm c) (kpn_kp node) = Some pm" "kpn_kp node \<noteq> 0"
  shows "drop_page c h k = Some (c\<lparr>lc_pm := pm\<rparr>,
    h\<lparr>h_kpn := (h_kpn h)(k \<mapsto> node\<lparr>kpn_kp := 0, kpn_kpoff := -1, kpn_cnode := None\<rparr>)\<rparr>)"
  using assms by (simp add: drop_page_def page_free_def upd_kpn_def)

text \<open>The cache in good order, as a list of cache nodes.\<close>

definition cache_rep :: "lru_cache \<Rightarrow> heap \<Rightarrow> nat list \<Rightarrow> bool" where
  "cache_rep c h xs \<longleftrightarrow> cache_list c h xs \<and> lc_tail c = last_of xs None \<and> lc_num c = int (length xs)"

text \<open>A cache node that holds a page of the pool through its key page node.\<close>

definition holds_page :: "lru_cache \<Rightarrow> heap \<Rightarrow> nat \<Rightarrow> nat \<Rightarrow> bool" where
  "holds_page c h cn k \<longleftrightarrow>
     (case h_cnode h cn of None \<Rightarrow> False | Some n \<Rightarrow> c_kpn n = Some k) \<and>
     (case h_kpn h k of None \<Rightarrow> False | Some node \<Rightarrow>
        kpn_cnode node = Some cn \<and> kpn_kp node \<noteq> 0 \<and> PageMgr_free (lc_pm c) (kpn_kp node) \<noteq> None)"

lemma holds_pageD:
  assumes "holds_page c h cn k"
  obtains n node pm where "h_cnode h cn = Some n" "c_kpn n = Some k" "h_kpn h k = Some node"
    "kpn_cnode node = Some cn" "kpn_kp node \<noteq> 0" "PageMgr_free (lc_pm c) (kpn_kp node) = Some pm"
  using assms by (auto simp: holds_page_def split: option.splits)

lemma removeLast_list:
  assumes "cache_list c h xs" "lc_tail c = Some cn" "cn \<in> set xs" "holds_page c h cn k"
  shows "\<exists>c' h'. removeLast c h = Some (c', h', Some cn) \<and> lc_num c' = lc_num c - 1 \<and>
    (if xs = butlast xs @ [cn] then cache_list c' h' (butlast xs) \<and> lc_tail c' = last_of (butlast xs) None
     else hd xs = cn \<longrightarrow> lc_head c' = None \<and> lc_tail c' = None)"
proof -
  from holds_pageD [OF assms(4)] obtain n node pm where n: "h_cnode h cn = Some n" "c_kpn n = Some k"
    "h_kpn h k = Some node" "kpn_kp node \<noteq> 0" "PageMgr_free (lc_pm c) (kpn_kp node) = Some pm" by metis
  from cache_list_split [OF assms(1,3)] obtain as bs where s: "xs = as @ cn # bs" "distinct (as @ bs)" "cn \<notin> set (as @ bs)"
    "clinks h cn = Some (last_of as None, first_of bs None)" "dseg (clinks h) None as (Some cn)" by auto
  have pv: "c_prev n = last_of as None" using s(4) n(1) by (simp add: clinks_def)
  have bl: "xs = butlast xs @ [cn] \<longleftrightarrow> bs = []" using s(1,3) by (cases bs rule: rev_cases) (auto simp: butlast_append)
  note frees = drop_page_node [where k = k and node = node and pm = pm]
  show ?thesis
  proof (cases as rule: rev_cases)
    case Nil
    let ?h = "h\<lparr>h_kpn := (h_kpn h)(k \<mapsto> node\<lparr>kpn_kp := 0, kpn_kpoff := -1, kpn_cnode := None\<rparr>),
      h_cnode := (h_cnode h)(cn \<mapsto> \<lparr>c_kpn = None, c_prev = None, c_next = None\<rparr>)\<rparr>"
    have "removeLast c h = Some (c\<lparr>lc_head := None, lc_tail := None, lc_pm := pm, lc_num := lc_num c - 1\<rparr>, ?h, Some cn)"
      using n pv Nil assms(2) frees [of h "c\<lparr>lc_head := None, lc_tail := None\<rparr>"] by (simp add: removeLast_def upd_cnode_def)
    then show ?thesis using Nil s(1) bl by (auto simp: cache_list_def)
  next
    case (snoc as' p)
    have pn: "p \<noteq> cn" "clinks h p \<noteq> None" using s(3,5) snoc dseg_dom [of "clinks h" None as "Some cn" p] by auto
    then obtain m where m: "h_cnode h p = Some m" by (auto simp: clinks_def)
    let ?h1 = "h\<lparr>h_cnode := (h_cnode h)(p \<mapsto> m\<lparr>c_next := None\<rparr>)\<rparr>"
    let ?h = "?h1\<lparr>h_kpn := (h_kpn h)(k \<mapsto> node\<lparr>kpn_kp := 0, kpn_kpoff := -1, kpn_cnode := None\<rparr>),
      h_cnode := (h_cnode ?h1)(cn \<mapsto> \<lparr>c_kpn = None, c_prev = None, c_next = None\<rparr>)\<rparr>"
    have r: "removeLast c h = Some (c\<lparr>lc_tail := Some p, lc_pm := pm, lc_num := lc_num c - 1\<rparr>, ?h, Some cn)"
      using n pv snoc assms(2) m pn frees [of ?h1 "c\<lparr>lc_tail := Some p\<rparr>"] by (simp add: removeLast_def upd_cnode_def)
    have "dseg (clinks ?h) None as None"
    proof -
      have "clinks ?h = (clinks h)(p \<mapsto> (c_prev m, None), cn \<mapsto> (None, None))" by (auto simp: clinks_def)
      then show ?thesis using dseg_new_next [OF s(5), of None] s(2,3) snoc m by (simp add: dseg_upd clinks_def)
    qed
    moreover have "lc_head c = first_of as None" using assms(1) s(1) snoc by (cases as') (auto simp: cache_list_def)
    moreover have "hd xs \<noteq> cn" using s(1,3) snoc by (cases as') auto
    ultimately show ?thesis using r s(1,2) bl snoc by (auto simp: cache_list_def butlast_append)
  qed
qed

section \<open>Properties\<close>


text \<open>A pool of two pages, both in the cache.\<close>

definition sample_pm :: page_mgr where
  "sample_pm = \<lparr>pool = 4096, poolSize = 8192, numOfPages = 2, numOfFreePages = 0, pageSize = 4096, nextFreePage = []\<rparr>"

definition sample_cache :: lru_cache where
  "sample_cache = \<lparr>lc_kpSize = 4096, lc_max = 2, lc_num = 2, lc_head = Some 2, lc_tail = Some 0, lc_pm = sample_pm\<rparr>"

definition sample_heap :: heap where
  "sample_heap = \<lparr>
     h_kpn = [1 \<mapsto> \<lparr>kpn_kp = 4096, kpn_kpoff = 0, kpn_cnode = Some 0, kpn_prev = None, kpn_next = None\<rparr>,
              3 \<mapsto> \<lparr>kpn_kp = 8192, kpn_kpoff = 4096, kpn_cnode = Some 2, kpn_prev = None, kpn_next = None\<rparr>],
     h_cnode = [0 \<mapsto> \<lparr>c_kpn = Some 1, c_prev = Some 2, c_next = None\<rparr>, 2 \<mapsto> \<lparr>c_kpn = Some 3, c_prev = None, c_next = Some 0\<rparr>],
     h_page = [4096 \<mapsto> InitKeyPage 4096, 8192 \<mapsto> InitKeyPage 4096], h_next = 4, h_malloc = []\<rparr>"

lemma sample_cache_rep: "cache_rep sample_cache sample_heap [2, 0]"
  by (simp add: cache_rep_def cache_list_def sample_cache_def sample_heap_def clinks_def last_of_def)

lemma sample_holds_page: "holds_page sample_cache sample_heap 0 1" "holds_page sample_cache sample_heap 2 3"
  by (simp_all add: holds_page_def sample_cache_def sample_heap_def sample_pm_def PageMgr_free_def)


text \<open>
  C15: Touching the least recently used node leaves the tail pointer on it although it is now the
  first. The next \<open>removeLast\<close> then empties the list: the other nodes are lost with their pages,
  while the count still includes them.
\<close>

theorem touch_last_loses_cache:
  assumes "cache_rep c h xs" "2 \<le> length xs" "holds_page c h (last xs) k"
  shows "\<exists>c' h' c'' h''. cache_touch c h (Some k) = Some (c', h') \<and> cache_list c' h' (last xs # butlast xs) \<and>
    removeLast c' h' = Some (c'', h'', Some (last xs)) \<and> lc_head c'' = None \<and> lc_tail c'' = None \<and>
    lc_num c'' = int (length xs) - 1"
proof -
  have x: "cache_list c h xs" "lc_tail c = Some (last xs)" "lc_num c = int (length xs)" "last xs \<in> set xs"
    using assms(1,2) by (cases "xs = []"; auto simp: cache_rep_def last_of_def)+
  obtain ys y where ys: "xs = ys @ [y]" "ys \<noteq> []" using assms(2) by (cases xs rule: rev_cases) (simp, fastforce)
  then have rm: "remove1 (last xs) xs = butlast xs" "y \<notin> set ys" using x(1) by (auto simp: remove1_append cache_list_def)
  from holds_pageD [OF assms(3)] obtain n node pm where node: "h_cnode h (last xs) = Some n" "c_kpn n = Some k"
    "h_kpn h k = Some node" "kpn_cnode node = Some (last xs)" "kpn_kp node \<noteq> 0"
    "PageMgr_free (lc_pm c) (kpn_kp node) = Some pm" by metis
  from cache_touch_list [OF x(1) node(3,5,4) x(4)] rm(1) obtain c' h' where t: "cache_touch c h (Some k) = Some (c', h')"
    "cache_list c' h' (last xs # butlast xs)" "relinked_heap h h'" "lc_pm c' = lc_pm c" "lc_num c' = lc_num c" "lc_tail c' = lc_tail c"
    by (auto simp: same_cache_def)
  have "map_option c_kpn (h_cnode h' (last xs)) = Some (Some k)" using t(3) node(1,2) by (simp add: relinked_heap_def)
  then have "holds_page c' h' (last xs) k" using node t(3,4) by (auto simp: holds_page_def relinked_heap_def)
  from removeLast_list [OF t(2) _ _ this] x(2) t(6) obtain c'' h'' where r: "removeLast c' h' = Some (c'', h'', Some (last xs))"
    "lc_num c'' = lc_num c' - 1"
    "if last xs # butlast xs = butlast (last xs # butlast xs) @ [last xs] then cache_list c'' h'' (butlast (last xs # butlast xs)) \<and>
       lc_tail c'' = last_of (butlast (last xs # butlast xs)) None
     else hd (last xs # butlast xs) = last xs \<longrightarrow> lc_head c'' = None \<and> lc_tail c'' = None" by auto
  have "last xs # butlast xs \<noteq> butlast (last xs # butlast xs) @ [last xs]"
  proof
    assume "last xs # butlast xs = butlast (last xs # butlast xs) @ [last xs]"
    then have "last (y # ys) = y" using ys by (metis butlast_snoc last_snoc)
    then show False using ys(2) rm(2) by (simp split: if_splits) (metis last_in_set)
  qed
  with r t x(3) show ?thesis by auto
qed

theorem touch_last_loses_cache_witness:
  "\<exists>c' h' c'' h''. cache_touch sample_cache sample_heap (Some 1) = Some (c', h') \<and>
    removeLast c' h' = Some (c'', h'', Some 0) \<and> lc_head c'' = None \<and> lc_num c'' = 1"
  using touch_last_loses_cache [OF sample_cache_rep, of 1] sample_holds_page(1) by auto

end
