(* ===== verification/Unwind.thy ===== *)
theory Unwind
  imports Node_Heap
begin

text \<open>
  The unwind stack of librdb, \<^verbatim>\<open>librdb/src/unwind.cpp\<close>: compensations for the writes an operation
  has made so far, run top first when the operation fails. A compensation that fails aborts. A key
  page is given by its address, \<open>0\<close> for none; the value page of a caller, a local variable it does
  not read again, is left out.
\<close>

datatype unwind_op = WRITE_FLAGS | WRITE_NEXT_OFFSET | WRITE_PREV_OFFSET | FREE_PAGE

datatype unwind_file = KeyF | ValueF

record unwind_block =
  ub_op :: unwind_op
  ub_file :: unwind_file
  ub_page :: int
  ub_pageOff :: int
  ub_offset :: int
  ub_flags :: int

definition uw_writeFlags :: "unwind_file \<Rightarrow> int \<Rightarrow> int \<Rightarrow> int \<Rightarrow> unwind_block list \<Rightarrow> unwind_block list" where
  "uw_writeFlags file page pageOff flags stk =
     \<lparr>ub_op = WRITE_FLAGS, ub_file = file, ub_page = page, ub_pageOff = pageOff, ub_offset = -1, ub_flags = flags\<rparr> # stk"

definition uw_writeNextOffset :: "unwind_file \<Rightarrow> int \<Rightarrow> int \<Rightarrow> int \<Rightarrow> unwind_block list \<Rightarrow> unwind_block list" where
  "uw_writeNextOffset file page pageOff off stk =
     \<lparr>ub_op = WRITE_NEXT_OFFSET, ub_file = file, ub_page = page, ub_pageOff = pageOff, ub_offset = off, ub_flags = -1\<rparr> # stk"

definition uw_writePrevOffset :: "unwind_file \<Rightarrow> int \<Rightarrow> int \<Rightarrow> int \<Rightarrow> unwind_block list \<Rightarrow> unwind_block list" where
  "uw_writePrevOffset file page pageOff off stk =
     \<lparr>ub_op = WRITE_PREV_OFFSET, ub_file = file, ub_page = page, ub_pageOff = pageOff, ub_offset = off, ub_flags = -1\<rparr> # stk"

definition uw_freePage :: "unwind_file \<Rightarrow> int \<Rightarrow> unwind_block list \<Rightarrow> unwind_block list" where
  "uw_freePage file off stk =
     \<lparr>ub_op = FREE_PAGE, ub_file = file, ub_page = 0, ub_pageOff = -1, ub_offset = off, ub_flags = -1\<rparr> # stk"

text \<open>A page in memory that a write of the key file updates along with the disk.\<close>

definition page_ptr :: "heap \<Rightarrow> int \<Rightarrow> key_page option" where
  "page_ptr h a = (if a = 0 then None else h_page h a)"

definition put_page_ptr :: "heap \<Rightarrow> int \<Rightarrow> key_page option \<Rightarrow> heap" where
  "put_page_ptr h a kp = (case kp of None \<Rightarrow> h | Some kp \<Rightarrow> set_page h a kp)"

definition unwind_step :: "unwind_block \<Rightarrow> db_file \<times> db_file \<times> heap \<Rightarrow> (db_file \<times> db_file \<times> heap) option" where
  "unwind_step blk s =
     (case s of (kf, vf, h) \<Rightarrow> do {
        (kf, vf, h, r) \<leftarrow>
          (case ub_op blk of
             WRITE_FLAGS \<Rightarrow>
               (case ub_file blk of
                  KeyF \<Rightarrow>
                    (case kf_writeFlags kf (ub_pageOff blk) (page_ptr h (ub_page blk)) (ub_flags blk) of
                       (kf, kp, r) \<Rightarrow> Some (kf, vf, put_page_ptr h (ub_page blk) kp, r))
                | ValueF \<Rightarrow>
                    (case vf_writeFlags vf (ub_pageOff blk) None (ub_flags blk) of (vf, _, r) \<Rightarrow> Some (kf, vf, h, r)))
           | WRITE_NEXT_OFFSET \<Rightarrow>
               (case ub_file blk of
                  KeyF \<Rightarrow>
                    (case kf_writeNextOffset kf (ub_pageOff blk) (page_ptr h (ub_page blk)) (ub_offset blk) of
                       (kf, kp, r) \<Rightarrow> Some (kf, vf, put_page_ptr h (ub_page blk) kp, r))
                | ValueF \<Rightarrow> None)
           | WRITE_PREV_OFFSET \<Rightarrow>
               (case ub_file blk of
                  KeyF \<Rightarrow>
                    (case kf_writePrevOffset kf (ub_pageOff blk) (page_ptr h (ub_page blk)) (ub_offset blk) of
                       (kf, kp, r) \<Rightarrow> Some (kf, vf, put_page_ptr h (ub_page blk) kp, r))
                | ValueF \<Rightarrow> None)
           | FREE_PAGE \<Rightarrow>
               (case ub_file blk of
                  KeyF \<Rightarrow> map_option (\<lambda>(kf, r). (kf, vf, h, r)) (kf_freePage kf (ub_offset blk))
                | ValueF \<Rightarrow> map_option (\<lambda>(vf, r). (kf, vf, h, r)) (vf_freePage vf (ub_offset blk))));
        if r = E_ok then Some (kf, vf, h) else None
      })"

fun unwind_execute :: "unwind_block list \<Rightarrow> db_file \<times> db_file \<times> heap \<Rightarrow> (db_file \<times> db_file \<times> heap) option" where
  "unwind_execute [] s = Some s"
| "unwind_execute (blk # stk) s = do { s \<leftarrow> unwind_step blk s; unwind_execute stk s }"

definition unwind :: "unwind_block list \<Rightarrow> int \<Rightarrow> db_file \<times> db_file \<times> heap \<Rightarrow> (db_file \<times> db_file \<times> heap) option" where
  "unwind stk status s = (if status = E_ok then Some s else unwind_execute stk s)"

lemma unwind_ok [simp]: "unwind stk E_ok s = Some s"
  by (simp add: unwind_def)

end
