(* ===== verification/Rdb.thy ===== *)
theory Rdb
  imports Hash_Table Lru_Cache Unwind Prime_Size
begin

text \<open>
  The database of librdb, \<^verbatim>\<open>librdb/src/rdb.cpp\<close>: an open database is the hash table, the two page
  files, the cache and the memory they share. One call runs at a time; the locks are the subject of
  \<open>Lock_Table\<close>. An operation that aborts, runs through a bad pointer or never ends has no result.
\<close>

section \<open>State\<close>

datatype op = NIL | GET | SET | DEL

record core =
  r_kpSize :: int
  r_htSize :: int
  r_ht :: hash_table
  r_kf :: db_file
  r_vf :: db_file
  r_cache :: lru_cache
  r_heap :: heap
  r_opCount :: int

section \<open>Key pages\<close>

text \<open>
  The part of the two loops of \<open>processKeyPages\<close> that works on one page: the status with which the
  function returns, or none to go on to the next offset.
\<close>

definition next_page :: "core \<Rightarrow> key_info \<Rightarrow> int \<Rightarrow> int \<Rightarrow> key_page \<Rightarrow> core \<times> key_info \<times> int option \<times> int" where
  "next_page c ki a off kp = (c, ki\<lparr>ki_lkp := a, ki_lkpoff := off\<rparr>, None, kp_noff kp)"

definition write_page :: "core \<Rightarrow> int \<Rightarrow> key_page \<Rightarrow> core \<times> int" where
  "write_page c off kp =
     (case kf_write (r_kf c) off (key_page_bytes kp) (r_kpSize c) of (kf, r) \<Rightarrow> (c\<lparr>r_kf := kf\<rparr>, r))"

definition visit_page :: "op \<Rightarrow> nat \<Rightarrow> int \<Rightarrow> core \<Rightarrow> key_info \<Rightarrow> (core \<times> key_info \<times> int option \<times> int) option" where
  "visit_page p k off c ki = do {
     node \<leftarrow> h_kpn (r_heap c) k;
     let a = kpn_kp node;
     kp \<leftarrow> h_page (r_heap c) a;
     (case p of
        GET \<Rightarrow> do {
          i \<leftarrow> KR_get kp ki;
          let ki = ki\<lparr>ki_kidx := i\<rparr>;
          if i \<ge> 0 then do {
            krec \<leftarrow> key_at kp i;
            Some (c, ki\<lparr>ki_kpn := Some k, ki_voff := kr_voff krec\<rparr>, Some E_ok, off)
          } else Some (next_page c ki a off kp)
        }
      | DEL \<Rightarrow> do {
          (kp, i) \<leftarrow> KR_remove kp ki;
          let c = c\<lparr>r_heap := set_page (r_heap c) a kp\<rparr>;
          let ki = ki\<lparr>ki_kidx := i\<rparr>;
          if i \<ge> 0 then
            (if kp_vcount kp > 0 then (case write_page c off kp of (c, r) \<Rightarrow> Some (c, ki\<lparr>ki_kpn := Some k\<rparr>, Some r, off))
             else Some (c, ki\<lparr>ki_kpn := Some k\<rparr>, Some E_ok, off))
          else Some (next_page c ki a off kp)
        }
      | SET \<Rightarrow>
          if kp_vcount kp < NUM_OF_KEYS_IN_PAGE (r_kpSize c) then do {
            (kp, i) \<leftarrow> KR_put kp ki;
            let c = c\<lparr>r_heap := set_page (r_heap c) a kp\<rparr>;
            let ki = ki\<lparr>ki_kidx := i\<rparr>;
            if i \<ge> 0 then do {
              krec \<leftarrow> key_at kp i;
              (case write_page c off kp of
                 (c, r) \<Rightarrow> Some (c, ki\<lparr>ki_kpn := Some k, ki_voff := kr_voff krec\<rparr>, Some r, off))
            } else Some (next_page c ki a off kp)
          } else Some (next_page c ki a off kp)
      | NIL \<Rightarrow> Some (next_page c ki a off kp))
   }"

text \<open>A node of the bucket whose page has left the cache is read again.\<close>

definition load_node :: "nat \<Rightarrow> int \<Rightarrow> core \<Rightarrow> (core \<times> int) option" where
  "load_node k off c = do {
     (ca, h) \<leftarrow> cache_touch (r_cache c) (r_heap c) (Some k);
     node \<leftarrow> h_kpn h k;
     if kpn_kp node = 0 then do {
       (ca, h, kf, r) \<leftarrow> cache_update ca h (r_kf c) k off;
       Some (c\<lparr>r_cache := ca, r_heap := h, r_kf := kf\<rparr>, r)
     } else Some (c\<lparr>r_cache := ca, r_heap := h\<rparr>, E_ok)
   }"

definition loaded_step :: "op \<Rightarrow> nat \<Rightarrow> int \<Rightarrow> core \<Rightarrow> key_info \<Rightarrow> (core \<times> key_info \<times> int option \<times> int \<times> nat option) option" where
  "loaded_step p k off c ki = do {
     (c, r) \<leftarrow> load_node k off c;
     if r \<noteq> E_ok then Some (c, ki, Some r, off, None)
     else do {
       (c, ki, ret, off) \<leftarrow> visit_page p k off c ki;
       node \<leftarrow> h_kpn (r_heap c) k;
       Some (c, ki, ret, off, kpn_next node)
     }
   }"

partial_function (option) loaded_loop ::
  "op \<Rightarrow> nat option \<Rightarrow> int \<Rightarrow> core \<Rightarrow> key_info \<Rightarrow> (core \<times> key_info \<times> int option \<times> int) option" where
  "loaded_loop p k off c ki =
     (if off = -1 then Some (c, ki, None, off)
      else case k of
        None \<Rightarrow> Some (c, ki, None, off)
      | Some k \<Rightarrow> do {
          (c, ki, ret, off, k) \<leftarrow> loaded_step p k off c ki;
          case ret of Some r \<Rightarrow> Some (c, ki, Some r, off) | None \<Rightarrow> loaded_loop p k off c ki
        })"

declare loaded_loop.simps [code]

definition unloaded_step :: "op \<Rightarrow> int \<Rightarrow> core \<Rightarrow> key_info \<Rightarrow> (core \<times> key_info \<times> int option \<times> int) option" where
  "unloaded_step p off c ki = do {
     (ca, h, kf, kpn, r) \<leftarrow> cache_get (r_cache c) (r_heap c) (r_kf c) off;
     let c = c\<lparr>r_cache := ca, r_heap := h, r_kf := kf\<rparr>;
     if r \<noteq> E_ok then Some (c, ki, Some r, off)
     else do {
       k \<leftarrow> kpn;
       (ht, h) \<leftarrow> addKeyPageNode (r_ht c) (r_heap c) (ki_hash ki) k;
       visit_page p k off (c\<lparr>r_ht := ht, r_heap := h\<rparr>) ki
     }
   }"

partial_function (option) unloaded_loop :: "op \<Rightarrow> int \<Rightarrow> core \<Rightarrow> key_info \<Rightarrow> (core \<times> key_info \<times> int) option" where
  "unloaded_loop p off c ki =
     (if off = -1 then Some (c, ki, E_not_found)
      else do {
        (c, ki, ret, off) \<leftarrow> unloaded_step p off c ki;
        case ret of Some r \<Rightarrow> Some (c, ki, r) | None \<Rightarrow> unloaded_loop p off c ki
      })"

declare unloaded_loop.simps [code]

definition processKeyPages :: "op \<Rightarrow> core \<Rightarrow> key_info \<Rightarrow> (core \<times> key_info \<times> int) option" where
  "processKeyPages p c ki = do {
     off \<leftarrow> getOffset (r_ht c) (ki_hash ki);
     k \<leftarrow> getKeyPageNodeList (r_ht c) (ki_hash ki);
     (c, ki, ret, off) \<leftarrow> loaded_loop p k off c ki;
     case ret of Some r \<Rightarrow> Some (c, ki, r) | None \<Rightarrow> unloaded_loop p off c ki
   }"

text \<open>
  A new page at the end of the chain of a bucket. When a write fails the new node is freed before
  the writes are undone.
\<close>

definition link_last :: "core \<Rightarrow> key_info \<Rightarrow> int \<Rightarrow> unwind_block list \<Rightarrow> core \<times> unwind_block list \<times> int" where
  "link_last c ki pageOffset stk =
     (if ki_lkp ki \<noteq> 0 \<and> ki_lkpoff ki \<noteq> -1 then
        (case kf_writeNextOffset (r_kf c) (ki_lkpoff ki) (page_ptr (r_heap c) (ki_lkp ki)) pageOffset of
           (kf, kp, r) \<Rightarrow>
             let old = (case page_ptr (r_heap c) (ki_lkp ki) of None \<Rightarrow> -1 | Some kp \<Rightarrow> kp_noff kp)
             in (c\<lparr>r_kf := kf, r_heap := put_page_ptr (r_heap c) (ki_lkp ki) kp\<rparr>,
                 if r = E_ok then uw_writeNextOffset KeyF (ki_lkp ki) (ki_lkpoff ki) old stk else stk, r))
      else (c, stk, E_ok))"

definition unwind_core :: "unwind_block list \<Rightarrow> int \<Rightarrow> core \<Rightarrow> core option" where
  "unwind_core stk status c =
     map_option (\<lambda>(kf, vf, h). c\<lparr>r_kf := kf, r_vf := vf, r_heap := h\<rparr>) (unwind stk status (r_kf c, r_vf c, r_heap c))"

definition new_key_page :: "core \<Rightarrow> key_info \<Rightarrow> key_page" where
  "new_key_page c ki = (InitKeyPage (r_kpSize c))\<lparr>kp_hash := ki_hash ki, kp_poff := ki_lkpoff ki\<rparr>"

definition addNewPage :: "core \<Rightarrow> key_info \<Rightarrow> (core \<times> key_info \<times> int) option" where
  "addNewPage c ki = do {
     (ca, h, kf, kpn, r) \<leftarrow> cache_get (r_cache c) (r_heap c) (r_kf c) (-1);
     let c = c\<lparr>r_cache := ca, r_heap := h, r_kf := kf\<rparr>;
     if r \<noteq> E_ok then Some (c, ki, r)
     else do {
       k \<leftarrow> kpn;
       node \<leftarrow> h_kpn h k;
       (kp, i) \<leftarrow> KR_put (new_key_page c ki) ki;
       let ki = ki\<lparr>ki_kidx := i\<rparr>;
       if i < 0 then None
       else do {
         let c = c\<lparr>r_heap := set_page h (kpn_kp node) kp\<rparr>;
         (kf, r, pageOffset) \<leftarrow> kf_write_new (r_kf c) (-1) (key_page_bytes kp) (r_kpSize c);
         let c = c\<lparr>r_kf := kf\<rparr>;
         (c, stk, r) \<leftarrow>
           (if r \<noteq> E_ok then Some (c, [], r)
            else do {
              h \<leftarrow> upd_kpn (r_heap c) k (kpn_kpoff_update (\<lambda>_. pageOffset));
              let stk = uw_writeFlags KeyF (kpn_kp node) pageOffset KPAGE_DELETED (uw_freePage KeyF pageOffset []);
              Some (link_last (c\<lparr>r_heap := h\<rparr>) ki pageOffset stk)
            });
         (c, ki) \<leftarrow>
           (if r = E_ok then do {
              (ht, h) \<leftarrow> addKeyPageNode (r_ht c) (r_heap c) (ki_hash ki) k;
              Some (c\<lparr>r_ht := ht, r_heap := h\<rparr>, ki\<lparr>ki_kpn := Some k\<rparr>)
            } else do {
              (ca, h) \<leftarrow> cache_free (r_cache c) (r_heap c) k;
              Some (c\<lparr>r_cache := ca, r_heap := h\<rparr>, ki)
            });
         c \<leftarrow> unwind_core stk r c;
         Some (c, ki, r)
       }
     }
   }"

section \<open>Get\<close>

text \<open>Arguments are pointers, \<open>None\<close> when null; an empty key or value begins with its terminator.\<close>

definition bad_text :: "byte list option \<Rightarrow> bool" where
  "bad_text s \<longleftrightarrow> (case s of None \<Rightarrow> True | Some [] \<Rightarrow> True | Some (b # _) \<Rightarrow> b = 0)"

definition begin_op :: "core \<Rightarrow> core" where
  "begin_op c = c\<lparr>r_opCount := r_opCount c + 1\<rparr>"

definition end_op :: "core \<Rightarrow> core" where
  "end_op c = c\<lparr>r_opCount := r_opCount c - 1\<rparr>"

text \<open>The assertions after a key was found.\<close>

definition found_ok :: "core \<Rightarrow> key_info \<Rightarrow> bool" where
  "found_ok c ki \<longleftrightarrow>
     (case ki_kpn ki of None \<Rightarrow> False | Some k \<Rightarrow>
       (case h_kpn (r_heap c) k of None \<Rightarrow> False | Some node \<Rightarrow> kpn_kp node \<noteq> 0 \<and> kpn_kpoff node \<noteq> -1)) \<and>
     ki_kidx ki \<noteq> -1 \<and> ki_voff ki \<noteq> -1"

text \<open>The assertions after a value page was read.\<close>

definition value_ok :: "byte list \<Rightarrow> int \<Rightarrow> value_page \<Rightarrow> bool" where
  "value_ok key klen vp \<longleftrightarrow> \<not> IsValuePageDeleted vp \<and> klen = vp_klen vp \<and> memcmp key (vp_key vp) klen = Some 0"

definition start_op :: "core \<Rightarrow> byte list \<Rightarrow> int \<Rightarrow> key_info option" where
  "start_op c key klen = do {
     let hindex = hash key klen (r_htSize c);
     if 0 \<le> hindex \<and> hindex < r_htSize c then SetKeyInfo key klen hindex else None
   }"

definition give_value :: "byte list \<Rightarrow> int \<Rightarrow> value_page \<Rightarrow> (int \<times> byte list \<times> int) option" where
  "give_value buf vlen vp =
     (if vp_vlen vp > vlen then Some (E_insufficient_buffer, buf, vlen)
      else
        let vlen = (if vp_vlen vp < vlen then vp_vlen vp else vlen)
        in map_option (\<lambda>buf. (E_ok, buf, vlen)) (memcpy buf (vp_value vp) vlen))"

definition rdb_get ::
  "core \<Rightarrow> byte list option \<Rightarrow> int \<Rightarrow> byte list option \<Rightarrow> int option \<Rightarrow> (core \<times> int \<times> byte list option \<times> int option) option" where
  "rdb_get c key klen val vlen =
     (if bad_text key \<or> klen \<le> 0 then Some (c, E_invalid_arg, val, vlen)
      else case (key, val, vlen) of
        (Some key, Some buf, Some n) \<Rightarrow>
          if n \<le> 0 then Some (c, E_invalid_arg, val, vlen)
          else do {
            ki \<leftarrow> start_op c key klen;
            (c, ki, r) \<leftarrow> processKeyPages GET (begin_op c) ki;
            if r \<noteq> E_ok then Some (end_op c, r, val, vlen)
            else if \<not> found_ok c ki then None
            else
              (case vf_read (r_vf c) (ki_voff ki) of
                 (vf, r, bs) \<Rightarrow>
                   let c = c\<lparr>r_vf := vf\<rparr>; vp = value_page_of bs
                   in if r \<noteq> E_ok then Some (end_op c, r, val, vlen)
                      else if \<not> value_ok key klen vp then None
                      else do {
                        (r, buf, n) \<leftarrow> give_value buf n vp;
                        Some (end_op c, r, Some buf, Some n)
                      })
          }
      | _ \<Rightarrow> Some (c, E_invalid_arg, val, vlen))"

section \<open>Set\<close>

text \<open>
  An updater is an object of the caller: \<open>u_update\<close> sees the old value, \<open>u_value\<close> then fills the
  value buffer of the page.
\<close>

record updater =
  u_update :: "byte list \<Rightarrow> int \<Rightarrow> int"
  u_value :: "byte list \<Rightarrow> int \<Rightarrow> int \<times> byte list \<times> int"

definition run_updater :: "core \<Rightarrow> byte list \<Rightarrow> int \<Rightarrow> key_info \<Rightarrow> updater \<Rightarrow> value_page \<Rightarrow> (core \<times> value_page \<times> int) option" where
  "run_updater c key klen ki u vp =
     (case vf_read (r_vf c) (ki_voff ki) of
        (vf, r, bs) \<Rightarrow>
          let c = c\<lparr>r_vf := vf\<rparr>
          in if r \<noteq> E_ok then Some (c, vp, r)
             else
               let vp = value_page_of bs
               in if \<not> value_ok key klen vp then None
                  else
                    let r = u_update u (vp_value vp) (vp_vlen vp)
                    in if r \<noteq> E_ok then Some (c, vp, r)
                       else case u_value u (vp_value vp) (vp_vlen vp) of
                         (r, v, n) \<Rightarrow> Some (c, vp\<lparr>vp_value := v, vp_vlen := n\<rparr>, r))"

definition set_existing :: "core \<Rightarrow> byte list \<Rightarrow> int \<Rightarrow> key_info \<Rightarrow> updater option \<Rightarrow> value_page \<Rightarrow> (core \<times> int) option" where
  "set_existing c key klen ki updr vp = do {
     (c, vp, r) \<leftarrow> (case updr of None \<Rightarrow> Some (c, vp, E_ok) | Some u \<Rightarrow> run_updater c key klen ki u vp);
     if r = E_ok then (case vf_write (r_vf c) (ki_voff ki) vp of (vf, r) \<Rightarrow> Some (c\<lparr>r_vf := vf\<rparr>, r))
     else Some (c, r)
   }"

text \<open>
  A new value is written first; the offset it got goes into the key record. Note that a failed value
  write reports success and leaves the offset \<open>-1\<close>.
\<close>

definition set_new :: "core \<Rightarrow> key_info \<Rightarrow> value_page \<Rightarrow> (core \<times> int) option" where
  "set_new c ki vp = do {
     (vf, r, voff) \<leftarrow> vf_write_new (r_vf c) (ki_voff ki) vp;
     let c = c\<lparr>r_vf := vf\<rparr>;
     let ki = ki\<lparr>ki_voff := voff\<rparr>;
     if r \<noteq> E_ok then Some (c, r)
     else do {
       let stk = uw_writeFlags ValueF 0 voff VPAGE_DELETED (uw_freePage ValueF voff []);
       (c, ki, r) \<leftarrow> processKeyPages SET c ki;
       (c, ki, r) \<leftarrow> (if r = E_not_found then addNewPage c ki else Some (c, ki, r));
       c \<leftarrow> unwind_core stk r c;
       Some (c, r)
     }
   }"

definition rdb_set ::
  "core \<Rightarrow> byte list option \<Rightarrow> int \<Rightarrow> byte list option \<Rightarrow> int \<Rightarrow> updater option \<Rightarrow> (core \<times> int) option" where
  "rdb_set c key klen val vlen updr =
     (if bad_text key \<or> klen \<le> 0 \<or> bad_text val \<or> vlen \<le> 0 then Some (c, E_invalid_arg)
      else case (key, val) of
        (Some key, Some v) \<Rightarrow> do {
          ki \<leftarrow> start_op c key klen;
          vp \<leftarrow> InitValuePage key klen v vlen;
          (c, ki, r) \<leftarrow> processKeyPages GET (begin_op c) ki;
          (c, r) \<leftarrow>
            (if r = E_ok then (if found_ok c ki then set_existing c key klen ki updr vp else None)
             else if r = E_not_found then set_new c ki vp
             else Some (c, r));
          Some (end_op c, r)
        }
      | _ \<Rightarrow> Some (c, E_invalid_arg))"

section \<open>Remove\<close>

definition page_of_node :: "core \<Rightarrow> nat option \<Rightarrow> int" where
  "page_of_node c k = (case k of None \<Rightarrow> 0 | Some k \<Rightarrow> (case h_kpn (r_heap c) k of None \<Rightarrow> 0 | Some n \<Rightarrow> kpn_kp n))"

text \<open>A write of one field of a key page, on the disk and in memory, with its compensation.\<close>

definition link_prev_page :: "core \<Rightarrow> int \<Rightarrow> int \<Rightarrow> int \<Rightarrow> unwind_block list \<Rightarrow> core \<times> unwind_block list \<times> int" where
  "link_prev_page c a off next stk =
     (case kf_writeNextOffset (r_kf c) off (page_ptr (r_heap c) a) next of
        (kf, kp, r) \<Rightarrow>
          let old = (case page_ptr (r_heap c) a of None \<Rightarrow> -1 | Some kp \<Rightarrow> kp_noff kp)
          in (c\<lparr>r_kf := kf, r_heap := put_page_ptr (r_heap c) a kp\<rparr>,
              if r = E_ok then uw_writeNextOffset KeyF a off old stk else stk, r))"

definition link_next_page :: "core \<Rightarrow> int \<Rightarrow> int \<Rightarrow> int \<Rightarrow> unwind_block list \<Rightarrow> core \<times> unwind_block list \<times> int" where
  "link_next_page c a off prev stk =
     (case kf_writePrevOffset (r_kf c) off (page_ptr (r_heap c) a) prev of
        (kf, kp, r) \<Rightarrow>
          let old = (case page_ptr (r_heap c) a of None \<Rightarrow> -1 | Some kp \<Rightarrow> kp_poff kp)
          in (c\<lparr>r_kf := kf, r_heap := put_page_ptr (r_heap c) a kp\<rparr>,
              if r = E_ok then uw_writePrevOffset KeyF a off old stk else stk, r))"

text \<open>Loads the page after the one to be released when it is not in memory.\<close>

definition load_next :: "core \<Rightarrow> int \<Rightarrow> nat option \<Rightarrow> int \<Rightarrow> (core \<times> nat option \<times> int) option" where
  "load_next c hindex next_kpn next_kpoff =
     (if next_kpoff \<noteq> -1 \<and> next_kpn = None then do {
        (ca, h, kf, kpn, r) \<leftarrow> cache_get (r_cache c) (r_heap c) (r_kf c) next_kpoff;
        let c = c\<lparr>r_cache := ca, r_heap := h, r_kf := kf\<rparr>;
        if r \<noteq> E_ok then Some (c, kpn, r)
        else do {
          k \<leftarrow> kpn;
          (ht, h) \<leftarrow> addKeyPageNode (r_ht c) (r_heap c) hindex k;
          Some (c\<lparr>r_ht := ht, r_heap := h\<rparr>, kpn, r)
        }
      } else Some (c, next_kpn, E_ok))"

text \<open>Takes the emptied page of node \<open>k\<close> out of the chain, the bucket, the cache and the file.\<close>

definition release_page :: "core \<Rightarrow> int \<Rightarrow> nat \<Rightarrow> unwind_block list \<Rightarrow> (core \<times> unwind_block list \<times> int) option" where
  "release_page c hindex k stk = do {
     node \<leftarrow> h_kpn (r_heap c) k;
     kp \<leftarrow> h_page (r_heap c) (kpn_kp node);
     let prev_kpoff = kp_poff kp;
     let next_kpoff = kp_noff kp;
     (c, next_kpn, r) \<leftarrow> load_next c hindex (kpn_next node) next_kpoff;
     if r \<noteq> E_ok then Some (c, stk, r)
     else do {
       let prev_kp = (if prev_kpoff \<noteq> -1 \<and> kpn_prev node \<noteq> None then page_of_node c (kpn_prev node) else 0);
       let next_kp = (if next_kpoff \<noteq> -1 \<and> next_kpn \<noteq> None then page_of_node c next_kpn else 0);
       (case kf_writeFlags (r_kf c) (kpn_kpoff node) (page_ptr (r_heap c) (kpn_kp node)) KPAGE_DELETED of
          (kf, kp, r) \<Rightarrow>
            let c = c\<lparr>r_kf := kf, r_heap := put_page_ptr (r_heap c) (kpn_kp node) kp\<rparr>
            in if r \<noteq> E_ok then Some (c, stk, r)
               else do {
                 let stk = uw_writeFlags KeyF (kpn_kp node) (kpn_kpoff node) 0 stk;
                 let (c, stk, r) = (if prev_kp \<noteq> 0 then link_prev_page c prev_kp prev_kpoff next_kpoff stk else (c, stk, E_ok));
                 let (c, stk, r) = (if r = E_ok \<and> next_kp \<noteq> 0 then link_next_page c next_kp next_kpoff prev_kpoff stk else (c, stk, r));
                 if r \<noteq> E_ok then Some (c, stk, r)
                 else do {
                   (ht, h) \<leftarrow> removeKeyPageNode (r_ht c) (r_heap c) hindex k;
                   (ca, h) \<leftarrow> cache_free (r_cache c) h k;
                   (kf, r) \<leftarrow> kf_freePage (r_kf c) (kpn_kpoff node);
                   Some (c\<lparr>r_ht := ht, r_heap := h, r_cache := ca, r_kf := kf\<rparr>, stk, r)
                 }
               })
     }
   }"

definition node_page :: "core \<Rightarrow> nat option \<Rightarrow> key_page option" where
  "node_page c k = do { k \<leftarrow> k; node \<leftarrow> h_kpn (r_heap c) k; h_page (r_heap c) (kpn_kp node) }"

text \<open>
  The key is looked up, its value page marked deleted, the key removed, and an emptied page released.
  The removal must report the slot the lookup reported.
\<close>

definition remove_found :: "core \<Rightarrow> byte list \<Rightarrow> int \<Rightarrow> key_info \<Rightarrow> (core \<times> int) option" where
  "remove_found c key klen ki =
     (case vf_writeFlags (r_vf c) (ki_voff ki) None VPAGE_DELETED of
        (vf, _, r) \<Rightarrow>
          let c = c\<lparr>r_vf := vf\<rparr>
          in if r \<noteq> E_ok then Some (c, r)
             else do {
               let stk = uw_writeFlags ValueF 0 (ki_voff ki) 0 [];
               dki \<leftarrow> SetKeyInfo key klen (ki_hash ki);
               (c, dki, r) \<leftarrow> processKeyPages DEL c dki;
               if r \<noteq> E_ok \<or> ki_kpn ki \<noteq> ki_kpn dki \<or> ki_kidx ki \<noteq> ki_kidx dki then None
               else do {
                 k \<leftarrow> ki_kpn dki;
                 kp \<leftarrow> node_page c (Some k);
                 (c, stk, r) \<leftarrow> (if kp_vcount kp \<le> 0 then release_page c (ki_hash ki) k stk else Some (c, stk, r));
                 (c, r) \<leftarrow>
                   (if r = E_ok then map_option (\<lambda>(vf, r). (c\<lparr>r_vf := vf\<rparr>, r)) (vf_freePage (r_vf c) (ki_voff ki))
                    else Some (c, r));
                 c \<leftarrow> unwind_core stk r c;
                 Some (c, r)
               }
             })"

definition rdb_remove :: "core \<Rightarrow> byte list option \<Rightarrow> int \<Rightarrow> (core \<times> int) option" where
  "rdb_remove c key klen =
     (if bad_text key \<or> klen \<le> 0 then Some (c, E_invalid_arg)
      else case key of
        None \<Rightarrow> Some (c, E_invalid_arg)
      | Some key \<Rightarrow> do {
          ki \<leftarrow> start_op c key klen;
          (c, ki, r) \<leftarrow> processKeyPages GET (begin_op c) ki;
          (c, r) \<leftarrow> (if r \<noteq> E_ok then Some (c, r) else if found_ok c ki then remove_found c key klen ki else None);
          Some (end_op c, r)
        })"

section \<open>Opening\<close>

record rdb_options =
  o_memusage :: int
  o_syncdata :: bool
  o_syncidx :: bool

definition RdbOptions :: rdb_options where
  "RdbOptions = \<lparr>o_memusage = 75, o_syncdata = True, o_syncidx = False\<rparr>"

definition setMemoryUsage :: "rdb_options \<Rightarrow> int \<Rightarrow> rdb_options \<times> int" where
  "setMemoryUsage opt memusage =
     (if memusage < 2 \<or> memusage > 150 then (opt, E_invalid_arg) else (opt\<lparr>o_memusage := memusage\<rparr>, E_ok))"

text \<open>The files of a database by their extension; an open database holds three of them itself.\<close>

record rdb =
  db_kpSize :: int
  db_htSize :: int
  db_options :: rdb_options
  db_core :: "core option"

definition MIN_KEY_PAGE_SIZE :: int where "MIN_KEY_PAGE_SIZE = 1024"

definition rdb_init :: "int \<Rightarrow> int \<Rightarrow> rdb_options \<Rightarrow> rdb option" where
  "rdb_init kpsize htsize opt =
     (if kpsize \<ge> MIN_KEY_PAGE_SIZE \<and> kpsize mod KEY_PAGE_HDR_SIZE = 0 \<and> htsize > 0
      then map_option (\<lambda>n. \<lparr>db_kpSize = kpsize, db_htSize = n, db_options = opt, db_core = None\<rparr>) (NextPrime htsize)
      else None)"

definition setKeyPageSize :: "rdb \<Rightarrow> int \<Rightarrow> rdb \<times> int" where
  "setKeyPageSize db kpsize =
     (if kpsize < MIN_KEY_PAGE_SIZE \<or> kpsize mod KEY_PAGE_HDR_SIZE \<noteq> 0 then (db, E_invalid_arg)
      else if db_core db = None then (db\<lparr>db_kpSize := kpsize\<rparr>, E_ok)
      else (db, E_invalid_state))"

text \<open>The size that is rounded up to a prime is the member, not the argument.\<close>

definition setHashTableSize :: "rdb \<Rightarrow> int \<Rightarrow> (rdb \<times> int) option" where
  "setHashTableSize db htsize =
     (if htsize \<le> 0 then Some (db, E_invalid_arg)
      else if db_core db = None then map_option (\<lambda>n. (db\<lparr>db_htSize := n\<rparr>, E_ok)) (NextPrime (db_htSize db))
      else Some (db, E_invalid_state))"

text \<open>One page header of the key file: a free page, the first page of a bucket, or neither.\<close>

definition populate_page :: "hash_table \<Rightarrow> db_file \<Rightarrow> int \<Rightarrow> key_page \<Rightarrow> (hash_table \<times> db_file) option" where
  "populate_page ht kf off kp =
     (if IsKeyPageDeleted kp \<or> kp_vcount kp \<le> 0 then map_option (\<lambda>(kf, _). (ht, kf)) (kf_freePage kf off)
      else if kp_poff kp = -1 then do {
        o1 \<leftarrow> getOffset ht (kp_hash kp);
        if o1 = -1 then map_option (\<lambda>ht. (ht, kf)) (setOffset ht (kp_hash kp) off) else Some (ht, kf)
      } else Some (ht, kf))"

partial_function (option) populate_loop :: "int \<Rightarrow> hash_table \<Rightarrow> db_file \<Rightarrow> int \<Rightarrow> (hash_table \<times> db_file \<times> int) option" where
  "populate_loop kpSize ht kf off =
     (case kf_read kf off KEY_PAGE_HDR_SIZE of
        (kf, r, bs) \<Rightarrow>
          if r \<noteq> E_ok then Some (ht, kf, if r = E_eof_detected then E_ok else r)
          else do {
            (ht, kf) \<leftarrow> populate_page ht kf off (key_page_of bs);
            populate_loop kpSize ht kf (off + kpSize)
          })"

declare populate_loop.simps [code]

definition populateHashTable :: "int \<Rightarrow> hash_table \<Rightarrow> db_file \<Rightarrow> (hash_table \<times> db_file \<times> int) option" where
  "populateHashTable kpSize ht kf = do {
     let kf = kf\<lparr>df_fdp := Some (FreeDiskPageMgr kpSize None)\<rparr>;
     let (f, size) = file_size (df_file kf);
     (kf, r) \<leftarrow> kf_freePage (kf\<lparr>df_file := f\<rparr>) size;
     if r = E_ok then populate_loop kpSize ht kf 0 else Some (ht, kf, r)
   }"

partial_function (option) free_values_loop :: "fdp_mgr \<Rightarrow> db_file \<Rightarrow> int \<Rightarrow> (fdp_mgr \<times> db_file \<times> int) option" where
  "free_values_loop m vf off =
     (case vf_readFlags vf off of
        (vf, r, flags) \<Rightarrow>
          if r \<noteq> E_ok then Some (m, vf, if r = E_eof_detected then E_ok else r)
          else do {
            (m, r) \<leftarrow> (if odd flags then fdp_free m off else Some (m, E_ok));
            if r = E_ok then free_values_loop m vf (off + sizeof_value_page) else Some (m, vf, r)
          })"

declare free_values_loop.simps [code]

text \<open>The free pages of the value file: from the \<^verbatim>\<open>.fdp\<close> file, or by reading every flag word.\<close>

definition populateFreePages :: "snf_file \<Rightarrow> db_file \<Rightarrow> (db_file \<times> int) option" where
  "populateFreePages f vf =
     (case file_open f (open_flags0\<lparr>o_read := True, o_write := True, o_create := True\<rparr>) of
        (f, r) \<Rightarrow>
          if r \<noteq> E_ok then Some (vf, r)
          else do {
            (m, r) \<leftarrow> fdp_init (FreeDiskPageMgr sizeof_value_page (Some f));
            (m, vf, r, vfsize) \<leftarrow>
              (if r = E_ok then Some (m, vf, r, -1)
               else
                 (case fdp_reset m of
                    (m, r) \<Rightarrow>
                      if r \<noteq> E_ok then Some (m, vf, r, -1)
                      else do {
                        let (g, vfsize) = file_size (df_file vf);
                        let vf = vf\<lparr>df_file := g\<rparr>;
                        (m, r) \<leftarrow> fdp_free m vfsize;
                        (m, vf, r) \<leftarrow> (if r = E_ok then free_values_loop m vf 0 else Some (m, vf, r));
                        Some (m, vf, r, vfsize)
                      }));
            if r \<noteq> E_ok then Some (vf, r)
            else do {
              m \<leftarrow> (if fdp_size m = 0 then map_option fst (fdp_free m vfsize) else Some m);
              Some (vf\<lparr>df_fdp := Some m\<rparr>, r)
            }
          })"

text \<open>
  The attributes of an existing database replace those of the object. The pool is allocated by
  \<open>mkpool\<close>; when a step fails the database stays closed.
\<close>

definition read_attributes :: "rdb \<Rightarrow> snf_file \<Rightarrow> attr_file \<times> int" where
  "read_attributes db attr =
     (case attr_open (AttrFile attr) of
        (a, r) \<Rightarrow>
          if r \<noteq> E_ok then (a, r)
          else
            (case attr_read a of
               (a, r) \<Rightarrow>
                 let (a, r) = (if r = E_eof_detected then attr_write (a\<lparr>a_kpsize := db_kpSize db, a_htsize := db_htSize db\<rparr>) else (a, r))
                 in (a\<lparr>af_file := fst (file_close (af_file a))\<rparr>, r)))"

definition rdb_open ::
  "(int \<Rightarrow> int \<Rightarrow> page_mgr option) \<Rightarrow> bool list \<Rightarrow> rdb \<Rightarrow> snf_file \<Rightarrow> snf_file \<Rightarrow> snf_file \<Rightarrow> snf_file \<Rightarrow> (rdb \<times> attr_file \<times> int) option" where
  "rdb_open mkpool mallocs db attr idx val fdp =
     (case db_core db of
        Some _ \<Rightarrow> Some (db, AttrFile attr, E_ok)
      | None \<Rightarrow>
          (case read_attributes db attr of
             (a, r) \<Rightarrow>
               if r \<noteq> E_ok then Some (db, a, r)
               else
                 let db = db\<lparr>db_kpSize := a_kpsize a, db_htSize := a_htsize a\<rparr>;
                     (kf, r1) = kf_open (new_db_file idx) (o_syncidx (db_options db));
                     (vf, r2) = vf_open (new_db_file val) (o_syncdata (db_options db));
                     (h, ht, r3) = ht_allocate (empty_heap mallocs) (db_htSize db)
                 in if r1 \<noteq> E_ok then Some (db, a, r1)
                    else if r2 \<noteq> E_ok then Some (db, a, r2)
                    else case ht of
                      None \<Rightarrow> Some (db, a, r3)
                    | Some ht \<Rightarrow> do {
                        pm \<leftarrow> mkpool (db_kpSize db) (o_memusage (db_options db));
                        (ht, kf, r) \<leftarrow> populateHashTable (db_kpSize db) ht kf;
                        (vf, r) \<leftarrow> (if r = E_ok then populateFreePages fdp vf else Some (vf, r));
                        if r \<noteq> E_ok then Some (db, a, r)
                        else Some (db\<lparr>db_core := Some \<lparr>r_kpSize = db_kpSize db, r_htSize = db_htSize db, r_ht = ht, r_kf = kf, r_vf = vf,
                               r_cache = LRUCache (db_kpSize db) pm, r_heap = h, r_opCount = 0\<rparr>\<rparr>, a, r)
                      }))"

definition rdb_close :: "rdb \<Rightarrow> rdb \<times> int" where
  "rdb_close db =
     (case db_core db of
        None \<Rightarrow> (db, E_ok)
      | Some c \<Rightarrow> if r_opCount c > 0 then (db, E_try_again) else (db\<lparr>db_core := None\<rparr>, E_ok))"

end
