(* ===== verification/Rdb_Heap.thy ===== *)
theory Rdb_Heap
  imports Rdb
begin

text \<open>
  The memory of an open database: every key page node has a page of the pool of its own and a cache
  node that points back at it, and the cache list is in order. While the cache is not full, loading
  a page adds one node and one page and leaves all others alone.
\<close>

section \<open>The invariant\<close>

definition pages_of :: "heap \<Rightarrow> int set" where
  "pages_of h = (\<lambda>k. kpn_kp (the (h_kpn h k))) ` dom (h_kpn h)"

definition node_linked :: "heap \<Rightarrow> nat list \<Rightarrow> nat \<Rightarrow> key_page_node \<Rightarrow> bool" where
  "node_linked h xs k node \<longleftrightarrow>
     kpn_kp node \<noteq> 0 \<and> (\<exists>cn n. kpn_cnode node = Some cn \<and> cn \<in> set xs \<and> h_cnode h cn = Some n \<and> c_kpn n = Some k)"

definition nodes_fresh :: "heap \<Rightarrow> bool" where
  "nodes_fresh h \<longleftrightarrow> finite (dom (h_kpn h)) \<and> (\<forall>k\<in>dom (h_kpn h). k < h_next h) \<and> (\<forall>k\<in>dom (h_cnode h). k < h_next h) \<and> h_malloc h = []"

definition heap_ok :: "lru_cache \<Rightarrow> heap \<Rightarrow> nat list \<Rightarrow> bool" where
  "heap_ok ca h xs \<longleftrightarrow>
     cache_list ca h xs \<and> (\<forall>k node. h_kpn h k = Some node \<longrightarrow> node_linked h xs k node) \<and>
     inj_on (\<lambda>k. kpn_kp (the (h_kpn h k))) (dom (h_kpn h)) \<and> pm_holds (lc_pm ca) (pages_of h) \<and> nodes_fresh h \<and>
     int (card (dom (h_kpn h))) \<le> lc_num ca \<and> lc_max ca \<le> numOfPages (lc_pm ca)"

lemma heap_okD:
  assumes "heap_ok ca h xs"
  shows "cache_list ca h xs" "h_kpn h k = Some node \<Longrightarrow> node_linked h xs k node"
    "inj_on (\<lambda>k. kpn_kp (the (h_kpn h k))) (dom (h_kpn h))" "pm_holds (lc_pm ca) (pages_of h)" "nodes_fresh h"
    "int (card (dom (h_kpn h))) \<le> lc_num ca" "lc_max ca \<le> numOfPages (lc_pm ca)"
  using assms by (auto simp: heap_ok_def)

lemma heap_ok_page: "heap_ok ca h xs \<Longrightarrow> h_kpn h k = Some node \<Longrightarrow> kpn_kp node \<noteq> 0 \<and> kpn_kp node \<in> pages_of h"
  by (auto dest: heap_okD(2) simp: node_linked_def pages_of_def) (metis (mono_tags, lifting) domI image_eqI option.sel)

lemma heap_ok_inj:
  assumes "heap_ok ca h xs" "h_kpn h k = Some a" "h_kpn h q = Some b" "kpn_kp a = kpn_kp b"
  shows "k = q"
  by (rule inj_onD [OF heap_okD(3) [OF assms(1)]]) (use assms(2-4) in auto)

text \<open>The cache in front of the same nodes.\<close>

lemma heap_ok_relink:
  assumes "heap_ok ca h xs" "cache_list ca' h' ys" "relinked_heap h h'" "same_cache ca ca'" "lc_num ca' = lc_num ca" "set xs \<subseteq> set ys"
  shows "heap_ok ca' h' ys"
proof -
  note i = assms(1) [unfolded heap_ok_def]
  have r: "h_kpn h' = h_kpn h" "h_next h' = h_next h" "h_malloc h' = h_malloc h"
    "\<And>p. map_option c_kpn (h_cnode h' p) = map_option c_kpn (h_cnode h p)"
    using assms(3) by (auto simp: relinked_heap_def)
  have d: "dom (h_cnode h') = dom (h_cnode h)"
  proof -
    have "h_cnode h' p = None \<longleftrightarrow> h_cnode h p = None" for p using r(4) [of p] by (metis option.map_disc_iff)
    then show ?thesis by (simp add: dom_def)
  qed
  have "node_linked h' ys k node" if n: "node_linked h xs k node" for k node
  proof -
    from n obtain cn n where c: "kpn_kp node \<noteq> 0" "kpn_cnode node = Some cn" "cn \<in> set xs" "h_cnode h cn = Some n" "c_kpn n = Some k"
      by (auto simp: node_linked_def)
    from c(4,5) r(4) [of cn] obtain n' where "h_cnode h' cn = Some n'" "c_kpn n' = Some k" by auto
    then show ?thesis using c assms(6) by (auto simp: node_linked_def)
  qed
  then show ?thesis
    using i assms(2,4,5) r d unfolding heap_ok_def pages_of_def nodes_fresh_def same_cache_def by auto
qed

lemma touch_ok:
  assumes "heap_ok ca h xs" "h_kpn h k = Some node"
  shows "\<exists>ca' h' ys. cache_touch ca h (Some k) = Some (ca', h') \<and> heap_ok ca' h' ys \<and> h_kpn h' = h_kpn h \<and> h_page h' = h_page h \<and>
    lc_num ca' = lc_num ca \<and> same_cache ca ca'"
proof -
  from heap_okD(2) [OF assms] obtain cn where "kpn_kp node \<noteq> 0" "kpn_cnode node = Some cn" "cn \<in> set xs" by (auto simp: node_linked_def)
  from cache_touch_list [OF heap_okD(1) [OF assms(1)] assms(2) this] obtain ca' h' where
    t: "cache_touch ca h (Some k) = Some (ca', h')" "cache_list ca' h' (cn # remove1 cn xs)" "relinked_heap h h'" "same_cache ca ca'"
      "lc_num ca' = lc_num ca" by blast
  have "heap_ok ca' h' (cn # remove1 cn xs)" by (rule heap_ok_relink [OF assms(1) t(2-5)]) (metis in_set_remove1 insert_iff list.simps(15) subsetI)
  with t show ?thesis by (auto simp: relinked_heap_def)
qed

text \<open>Node links and page contents are no part of it.\<close>

lemma heap_ok_nodes:
  assumes "heap_ok ca h xs" "relinked_nodes h h'"
  shows "heap_ok ca h' xs"
proof -
  have r: "h_cnode h' = h_cnode h" "h_next h' = h_next h" "h_malloc h' = h_malloc h"
    "\<And>p. map_option kp_data (h_kpn h' p) = map_option kp_data (h_kpn h p)"
    using assms(2) by (auto simp: relinked_nodes_def)
  have s: "h_kpn h' p = None \<longleftrightarrow> h_kpn h p = None" for p using r(4) [of p] by (metis option.map_disc_iff)
  then have d: "dom (h_kpn h') = dom (h_kpn h)" by (simp add: dom_def)
  have e: "kp_data (the (h_kpn h' p)) = kp_data (the (h_kpn h p))" if "p \<in> dom (h_kpn h)" for p
    using r(4) [of p] s [of p] that by auto
  have kp: "kpn_kp (the (h_kpn h' p)) = kpn_kp (the (h_kpn h p))" "kpn_cnode (the (h_kpn h' p)) = kpn_cnode (the (h_kpn h p))"
    if "p \<in> dom (h_kpn h)" for p using e [OF that] by (auto simp: kp_data_def)
  have "pages_of h' = pages_of h" unfolding pages_of_def d using kp(1) by (auto intro!: image_cong)
  moreover have "inj_on (\<lambda>k. kpn_kp (the (h_kpn h' k))) (dom (h_kpn h'))"
    using heap_okD(3) [OF assms(1)] kp(1) unfolding d by (auto simp: inj_on_def)
  moreover have "node_linked h' xs k node" if n: "h_kpn h' k = Some node" for k node
  proof -
    have k: "k \<in> dom (h_kpn h)" using n s [of k] by auto
    then obtain node0 where "h_kpn h k = Some node0" by auto
    with heap_okD(2) [OF assms(1) this] kp [OF k] n show ?thesis using r(1) by (auto simp: node_linked_def)
  qed
  moreover have "cache_list ca h' xs" using heap_okD(1) [OF assms(1)] r(1) by (simp add: cache_list_def clinks_def)
  ultimately show ?thesis using heap_okD(4-7) [OF assms(1)] r d by (simp add: heap_ok_def nodes_fresh_def)
qed

lemma heap_ok_page_upd: "heap_ok ca (set_page h a kp) xs = heap_ok ca h xs"
  by (simp add: heap_ok_def set_page_def cache_list_def clinks_def node_linked_def pages_of_def nodes_fresh_def)

lemma heap_ok_kpoff: "heap_ok ca h xs \<Longrightarrow> upd_kpn h k (kpn_kpoff_update f) = Some h' \<Longrightarrow> heap_ok ca h' xs"
proof -
  assume i: "heap_ok ca h xs" and u: "upd_kpn h k (kpn_kpoff_update f) = Some h'"
  then obtain n where n: "h_kpn h k = Some n" "h' = h\<lparr>h_kpn := (h_kpn h)(k \<mapsto> kpn_kpoff_update f n)\<rparr>"
    by (auto simp: upd_kpn_def)
  have d: "dom (h_kpn h') = dom (h_kpn h)" using n by auto
  have kp: "kpn_kp (the (h_kpn h' p)) = kpn_kp (the (h_kpn h p))" for p using n by simp
  have "node_linked h' xs p node" if "h_kpn h' p = Some node" for p node
    using that n heap_okD(2) [OF i, of p] by (auto simp: node_linked_def split: if_splits)
  then show ?thesis
    using i n unfolding heap_ok_def pages_of_def d kp by (auto simp: cache_list_def clinks_def nodes_fresh_def)
qed

section \<open>Loading a page\<close>

lemma PageMgr_get_pages: "PageMgr_get m = (m', a) \<Longrightarrow> numOfPages m' = numOfPages m"
  by (auto simp: PageMgr_get_def Let_def split: list.splits if_splits)

lemma card_pages: "heap_ok ca h xs \<Longrightarrow> card (pages_of h) = card (dom (h_kpn h))"
  unfolding pages_of_def by (rule card_image) (rule heap_okD(3))

lemma room_page:
  assumes "heap_ok ca h xs" "lc_num ca < lc_max ca"
  shows "\<exists>pm a. PageMgr_get (lc_pm ca) = (pm, a) \<and> a \<notin> pages_of h \<and> a \<noteq> 0 \<and> pm_holds pm (insert a (pages_of h)) \<and>
    numOfPages pm = numOfPages (lc_pm ca)"
  using PageMgr_get_holds [OF heap_okD(4) [OF assms(1)]] card_pages [OF assms(1)] heap_okD(6,7) [OF assms(1)] assms(2)
    PageMgr_get_pages [of "lc_pm ca"] by force

text \<open>What the cache reads into the page it gives out.\<close>

definition page_read :: "lru_cache \<Rightarrow> db_file \<Rightarrow> int \<Rightarrow> db_file \<Rightarrow> key_page \<Rightarrow> bool" where
  "page_read ca kf off kf' kp \<longleftrightarrow>
     (if off = -1 then kf' = kf \<and> kp = zero_key_page (lc_kpSize ca)
      else (\<exists>bs. kf_read kf off (lc_kpSize ca) = (kf', E_ok, bs) \<and> kp = key_page_of bs))"

lemma getPage_ok:
  assumes "page_read ca kf off kf' kp" "PageMgr_get (lc_pm ca) = (pm, a)" "a \<noteq> 0"
  shows "getPage ca h kf off = Some (ca\<lparr>lc_pm := pm\<rparr>, h\<lparr>h_page := (h_page h)(a \<mapsto> kp)\<rparr>, kf', a, E_ok)"
  using assms by (auto simp: getPage_def page_read_def set_page_def Let_def split: if_splits)

definition new_node :: "int \<Rightarrow> int \<Rightarrow> nat \<Rightarrow> key_page_node" where
  "new_node a off cn = \<lparr>kpn_kp = a, kpn_kpoff = off, kpn_cnode = Some cn, kpn_prev = None, kpn_next = None\<rparr>"

text \<open>The heap after the two nodes were made and joined, before the cache takes them in.\<close>

lemma joined_ok:
  assumes "heap_ok ca h xs" "PageMgr_get (lc_pm ca) = (pm, a)" "a \<notin> pages_of h" "a \<noteq> 0" "pm_holds pm (insert a (pages_of h))"
    "numOfPages pm = numOfPages (lc_pm ca)"
    "h' = h\<lparr>h_next := Suc (Suc (h_next h)), h_page := (h_page h)(a \<mapsto> kp),
      h_kpn := (h_kpn h)(Suc (h_next h) \<mapsto> new_node a off (h_next h)),
      h_cnode := (h_cnode h)(h_next h \<mapsto> \<lparr>c_kpn = Some (Suc (h_next h)), c_prev = None, c_next = None\<rparr>)\<rparr>"
  shows "h_kpn h (Suc (h_next h)) = None \<and> h_next h \<notin> set xs \<and> clinks h' (h_next h) \<noteq> None \<and> cache_list (ca\<lparr>lc_pm := pm\<rparr>) h' xs \<and>
    (\<forall>ca2 h2. cache_list ca2 h2 (h_next h # xs) \<and> relinked_heap h' h2 \<and> same_cache (ca\<lparr>lc_pm := pm\<rparr>) ca2 \<and> lc_num ca2 = lc_num ca + 1 \<longrightarrow>
      heap_ok ca2 h2 (h_next h # xs))"
proof -
  let ?k = "Suc (h_next h)" and ?cn = "h_next h"
  note fresh = heap_okD(5) [OF assms(1), unfolded nodes_fresh_def]
  have fk: "h_kpn h ?k = None" "h_cnode h ?cn = None" using fresh by (metis domIff Suc_n_not_le_n less_imp_le_nat, metis domIff less_irrefl)
  have xs: "x \<in> set xs \<Longrightarrow> h_cnode h x \<noteq> None" for x
    using dseg_dom heap_okD(1) [OF assms(1)] by (fastforce simp: cache_list_def clinks_def)
  have cn: "?cn \<notin> set xs" using xs fk(2) by blast
  have cl: "cache_list (ca\<lparr>lc_pm := pm\<rparr>) h' xs"
  proof -
    have "dseg (clinks h') None xs None = dseg (clinks h) None xs None"
      by (rule dseg_cong) (use cn assms(7) in \<open>auto simp: clinks_def\<close>)
    then show ?thesis using heap_okD(1) [OF assms(1)] by (simp add: cache_list_def)
  qed
  have k': "h_kpn h' = (h_kpn h)(?k \<mapsto> new_node a off ?cn)" using assms(7) by simp
  have d: "dom (h_kpn h') = insert ?k (dom (h_kpn h))" using k' by simp
  have pg: "pages_of h' = insert a (pages_of h)"
  proof -
    have "(\<lambda>k. kpn_kp (the (h_kpn h' k))) ` dom (h_kpn h) = pages_of h"
      unfolding pages_of_def by (rule image_cong) (use fk(1) k' in auto)
    then show ?thesis unfolding pages_of_def d by (simp add: k' new_node_def)
  qed
  have inj: "inj_on (\<lambda>k. kpn_kp (the (h_kpn h' k))) (dom (h_kpn h'))"
  proof -
    have "inj_on (\<lambda>k. kpn_kp (the (h_kpn h' k))) (dom (h_kpn h))"
      using heap_okD(3) [OF assms(1)] fk(1) k' by (auto simp: inj_on_def)
    moreover have "a \<notin> (\<lambda>k. kpn_kp (the (h_kpn h' k))) ` (dom (h_kpn h) - {?k})"
      using assms(3) fk(1) k' by (auto simp: pages_of_def)
    ultimately show ?thesis unfolding d by (auto simp: k' new_node_def)
  qed
  have nl: "node_linked h' (?cn # xs) k node" if "h_kpn h' k = Some node" for k node
  proof (cases "k = ?k")
    case True
    with that k' have "node = new_node a off ?cn" by simp
    then show ?thesis using True assms(4,7) by (auto simp: node_linked_def new_node_def)
  next
    case False
    with that k' have "node_linked h xs k node" using heap_okD(2) [OF assms(1)] by simp
    then show ?thesis using cn xs assms(7) by (auto simp: node_linked_def)
  qed
  have cd: "card (dom (h_kpn h')) = Suc (card (dom (h_kpn h)))" using d fk(1) fresh by (simp add: domIff)
  have fr: "nodes_fresh h'" using fresh assms(7) unfolding nodes_fresh_def by (auto simp: less_Suc_eq)
  have "heap_ok ca2 h2 (?cn # xs)"
    if t: "cache_list ca2 h2 (?cn # xs)" "relinked_heap h' h2" "same_cache (ca\<lparr>lc_pm := pm\<rparr>) ca2" "lc_num ca2 = lc_num ca + 1" for ca2 h2
  proof -
    have r: "h_kpn h2 = h_kpn h'" "h_next h2 = h_next h'" "h_malloc h2 = h_malloc h'"
      "\<And>p. map_option c_kpn (h_cnode h2 p) = map_option c_kpn (h_cnode h' p)"
      using t(2) by (auto simp: relinked_heap_def)
    have "h_cnode h2 p = None \<longleftrightarrow> h_cnode h' p = None" for p using r(4) [of p] by (metis option.map_disc_iff)
    then have dc: "dom (h_cnode h2) = dom (h_cnode h')" by (simp add: dom_def)
    have "node_linked h2 (?cn # xs) k node" if "h_kpn h2 k = Some node" for k node
    proof -
      have "h_kpn h' k = Some node" using that r(1) by simp
      from nl [OF this] obtain c n where c: "kpn_kp node \<noteq> 0" "kpn_cnode node = Some c" "c \<in> set (?cn # xs)" "h_cnode h' c = Some n"
        "c_kpn n = Some k" by (auto simp: node_linked_def)
      from c(4,5) r(4) [of c] obtain n' where "h_cnode h2 c = Some n'" "c_kpn n' = Some k" by auto
      then show ?thesis using c by (auto simp: node_linked_def)
    qed
    then show ?thesis
      unfolding heap_ok_def using t(1,3,4) r(1-3) dc inj pg fr cd assms(5,6) heap_okD(6,7) [OF assms(1)]
      by (auto simp: same_cache_def pages_of_def nodes_fresh_def)
  qed
  then show ?thesis using fk(1) cn cl assms(7) by (auto simp: clinks_def)
qed

lemma cache_get_ok:
  assumes "heap_ok ca h xs" "lc_num ca < lc_max ca" "page_read ca kf off kf' kp"
  shows "\<exists>ca' h' k a cn ys. cache_get ca h kf off = Some (ca', h', kf', Some k, E_ok) \<and> heap_ok ca' h' ys \<and>
    h_kpn h k = None \<and> a \<notin> pages_of h \<and> a \<noteq> 0 \<and> h_kpn h' = (h_kpn h)(k \<mapsto> new_node a off cn) \<and>
    h_page h' = (h_page h)(a \<mapsto> kp) \<and> lc_num ca' = lc_num ca + 1 \<and> lc_max ca' = lc_max ca \<and> lc_kpSize ca' = lc_kpSize ca"
proof -
  from room_page [OF assms(1,2)] obtain pm a where p: "PageMgr_get (lc_pm ca) = (pm, a)" "a \<notin> pages_of h" "a \<noteq> 0"
    "pm_holds pm (insert a (pages_of h))" "numOfPages pm = numOfPages (lc_pm ca)" by blast
  let ?h = "h\<lparr>h_next := Suc (Suc (h_next h)), h_page := (h_page h)(a \<mapsto> kp),
      h_kpn := (h_kpn h)(Suc (h_next h) \<mapsto> new_node a off (h_next h)),
      h_cnode := (h_cnode h)(h_next h \<mapsto> \<lparr>c_kpn = Some (Suc (h_next h)), c_prev = None, c_next = None\<rparr>)\<rparr>"
  note j = joined_ok [where h' = ?h and kp = kp and off = off, OF assms(1) p(1-5) refl]
  have m: "h_malloc h = []" using heap_okD(5) [OF assms(1)] by (simp add: nodes_fresh_def)
  from cache_add_list [of "ca\<lparr>lc_pm := pm\<rparr>" ?h xs "h_next h"] j obtain ca2 h2 where
    a: "cache_add (ca\<lparr>lc_pm := pm\<rparr>) ?h (h_next h) = Some (ca2, h2)" "cache_list ca2 h2 (h_next h # xs)" "relinked_heap ?h h2"
      "same_cache (ca\<lparr>lc_pm := pm\<rparr>) ca2" "lc_num ca2 = lc_num ca + 1" by auto
  have "cache_get ca h kf off = Some (ca2, h2, kf', Some (Suc (h_next h)), E_ok)"
    using assms(2) m getPage_ok [OF assms(3) p(1,3)] a(1)
    by (simp add: cache_get_def getCacheNode_def new_cnode_def new_kpn_def malloc_ok_def set_node_def upd_kpn_def upd_cnode_def new_node_def)
  moreover have "heap_ok ca2 h2 (h_next h # xs)" using j a by blast
  moreover have "h_kpn h2 = h_kpn ?h" "h_page h2 = h_page ?h" using a(3) by (auto simp: relinked_heap_def)
  ultimately show ?thesis using j p(2,3) a(4,5) by (fastforce simp: same_cache_def)
qed

end
