(* ===== verification/Rdb_Rep.thy ===== *)
theory Rdb_Rep
  imports Rdb_Heap
begin

text \<open>
  What an open database stands for. Every bucket of the hash table is a chain of key pages on the
  disk, linked both ways by offsets; the nodes in memory hold the first pages of the chain with the
  same contents. Each key of a page lies in the bucket of its hash and has a value page of its own
  that repeats the key.
\<close>

section \<open>Free pages of a file\<close>

text \<open>\<open>L\<close> are the pages in use and \<open>d\<close> is the length of the file they are in.\<close>

definition fdp_live :: "fdp_mgr \<Rightarrow> int set \<Rightarrow> nat \<Rightarrow> bool" where
  "fdp_live m L d \<longleftrightarrow> fdp_holds m L \<and> (fdp_file m = None \<or> mirrors m) \<and> (\<forall>x\<in>set (nextFreeOffset m). 0 \<le> x \<and> x \<le> int d)"

definition free_top :: "fdp_mgr \<Rightarrow> int" where
  "free_top m = Max (set (nextFreeOffset m))"

lemma fdp_get_no_file:
  "fdp_file m = None \<Longrightarrow> nextFreeOffset m = x # rest \<Longrightarrow> \<exists>m'. fdp_get m = Some (m', x) \<and> fdp_file m' = None"
  by (auto simp: fdp_get_def removeOffsetFromFile_def addOffsetToFile_def E_ok_def)

lemma fdp_live_get:
  assumes "fdp_live m L d"
  shows "\<exists>m' x. fdp_get m = Some (m', x) \<and> 0 \<le> x \<and> x \<le> int d \<and> x \<notin> L \<and> x mod fdp_pageSize m = 0 \<and>
    fdp_pageSize m' = fdp_pageSize m \<and> fdp_live m' (insert x L) (max d (nat (x + fdp_pageSize m))) \<and>
    x \<le> free_top m \<and> free_top m' \<le> free_top m + fdp_pageSize m"
proof -
  have h: "fdp_holds m L" and b: "\<And>x. x \<in> set (nextFreeOffset m) \<Longrightarrow> 0 \<le> x \<and> x \<le> int d" using assms by (auto simp: fdp_live_def)
  from fdp_get_cases [OF h] obtain m' r where g: "fdp_get m = Some (m', r)" "fdp_pageSize m' = fdp_pageSize m"
    "r < 0 \<and> nextFreeOffset m' = nextFreeOffset m \<or>
     (\<exists>rest. nextFreeOffset m = r # rest \<and> nextFreeOffset m' = (if rest = [] then [r + fdp_pageSize m] else rest))" by blast
  have ps: "0 < fdp_pageSize m" using h by (simp add: fdp_holds_def)
  have "nextFreeOffset m \<noteq> []" using h by (auto simp: fdp_holds_def fdp_parts_def)
  then obtain x rest where st: "nextFreeOffset m = x # rest" by (cases "nextFreeOffset m") auto
  have mir: "\<exists>m'. fdp_get m = Some (m', x) \<and> (fdp_file m' = None \<or> mirrors m')"
    using assms st mirrors_get [of m] fdp_get_no_file [of m] by (auto simp: fdp_live_def)
  then have r: "r = x" and m': "fdp_file m' = None \<or> mirrors m'" using g(1) by auto
  have x: "0 \<le> x" "x \<le> int d" using b st by auto
  from g(3) r x(1) st have nx: "nextFreeOffset m' = (if rest = [] then [x + fdp_pageSize m] else rest)" by auto
  from fdp_get_holds [OF h] g(1) r x(1) have L: "x \<notin> L" "x mod fdp_pageSize m = 0" "fdp_holds m' (insert x L)" by auto
  have "\<forall>y\<in>set (nextFreeOffset m'). 0 \<le> y \<and> y \<le> int (max d (nat (x + fdp_pageSize m)))"
  proof
    fix y assume y: "y \<in> set (nextFreeOffset m')"
    show "0 \<le> y \<and> y \<le> int (max d (nat (x + fdp_pageSize m)))"
    proof (cases "rest = []")
      case True
      with y nx have "y = x + fdp_pageSize m" by simp
      then show ?thesis using x ps by simp
    next
      case False
      with y nx st have "y \<in> set (nextFreeOffset m)" by simp
      from b [OF this] show ?thesis by (simp add: of_nat_max le_max_iff_disj)
    qed
  qed
  moreover have top: "x \<le> free_top m" using st by (simp add: free_top_def)
  moreover have "free_top m' \<le> free_top m + fdp_pageSize m"
  proof (cases "rest = []")
    case True
    then show ?thesis using nx top by (simp add: free_top_def)
  next
    case False
    then have "free_top m' \<le> free_top m" using nx st by (simp add: free_top_def)
    then show ?thesis using ps by simp
  qed
  ultimately show ?thesis using g(1,2) r L m' x by (auto simp: fdp_live_def)
qed

section \<open>Pages in memory and on the disk\<close>

definition page_good :: "nat \<Rightarrow> nat \<Rightarrow> key_page \<Rightarrow> bool" where
  "page_good N i kp \<longleftrightarrow> page_ok kp \<and> hdr_fits kp \<and> entries_fit kp \<and> kp_hash kp = int i \<and> kp_flags kp = 0 \<and> length (kp_keys kp) = N"

lemma le_bytes_mod: "x mod 256 ^ n = y mod 256 ^ n \<Longrightarrow> le_bytes n x = le_bytes n y"
proof (induction n arbitrary: x y)
  case (Suc n)
  have "x mod 256 = y mod 256" using Suc.prems by (metis mod_mod_cancel dvd_triv_left power_Suc)
  moreover have "x div 256 mod 256 ^ n = y div 256 mod 256 ^ n"
    using Suc.prems zmod_zmult2_eq [of "256 ^ n" x 256] zmod_zmult2_eq [of "256 ^ n" y 256] \<open>x mod 256 = y mod 256\<close> by simp
  ultimately show ?case using Suc.IH [of "x div 256" "y div 256"] by (simp add: word_of_int_eq_iff take_bit_eq_mod)
qed simp

lemma narrow_bytes: "0 < n \<Longrightarrow> le_bytes n (narrow n x) = le_bytes n x"
proof (rule le_bytes_mod)
  assume "0 < n"
  have w: "(2::int) ^ (8 * n) = 256 ^ n" by (simp add: power_mult)
  show "narrow n x mod 256 ^ n = x mod 256 ^ n"
    unfolding narrow_def to_signed_def w by (simp add: mod_simps)
qed

lemma narrow_rec_bytes: "key_rec_bytes (narrow_rec r) = key_rec_bytes r"
  by (simp only: key_rec_bytes_def narrow_rec_def key_rec.simps narrow_bytes zero_less_one zero_less_numeral)

lemma narrow_page_bytes: "key_page_bytes (narrow_page kp) = key_page_bytes kp"
  by (simp add: key_page_bytes_def key_hdr_bytes_def narrow_page_def narrow_rec_bytes narrow_bytes comp_def)

lemma narrow_page_48: "keys_48 (narrow_page kp) = keys_48 kp"
  by (simp add: keys_48_def narrow_page_def narrow_rec_def)

lemma page_good_narrow:
  assumes "page_good N i kp"
  shows "page_good N i (narrow_page kp) \<and> kp_map (narrow_page kp) = kp_map kp \<and> kp_noff (narrow_page kp) = kp_noff kp \<and>
    kp_poff (narrow_page kp) = kp_poff kp"
proof -
  from assms obtain t where t: "page_rep kp t" "hdr_fits kp" "entries_fit kp" by (auto simp: page_good_def page_ok_def)
  from page_rep_narrow [OF t] have n: "page_rep (narrow_page kp) t" "kp_map (narrow_page kp) = kp_map kp" "kp_frame (narrow_page kp) = kp_frame kp"
    by auto
  then show ?thesis using assms by (auto simp: page_good_def page_ok_def hdr_fits_def entries_fit_def kp_frame_def)
qed

lemma page_on_disk_narrow: "page_on_disk k off (narrow_page kp) = page_on_disk k off kp"
  by (simp add: page_on_disk_def narrow_page_bytes narrow_page_48)

lemma page_good_48: "page_good N i kp \<Longrightarrow> keys_48 kp"
  by (auto simp: page_good_def page_ok_def dest: page_rep_48)

lemma page_good_length: "page_good N i kp \<Longrightarrow> length (key_page_bytes kp) = 64 + 64 * N"
  using length_key_page_bytes [OF page_good_48] by (simp add: page_good_def)

text \<open>Two pages at one place of the disk are in the same bucket.\<close>

lemma same_place:
  assumes "page_good N i kp" "page_good N j kq" "page_on_disk k off kp" "page_on_disk k off kq"
  shows "i = j"
proof -
  have "key_page_bytes kp = key_page_bytes kq"
    using assms page_good_length [OF assms(1)] page_good_length [OF assms(2)] by (simp add: page_on_disk_def)
  then have "kp_hash (narrow_page kp) = kp_hash (narrow_page kq)"
    using key_page_of_bytes [OF page_good_48] assms(1,2) by metis
  then show ?thesis using page_good_narrow [OF assms(1)] page_good_narrow [OF assms(2)] by (simp add: page_good_def)
qed

section \<open>Buckets\<close>

definition first_off :: "(int \<times> key_page) list \<Rightarrow> int" where
  "first_off ps = (case ps of [] \<Rightarrow> -1 | p # _ \<Rightarrow> fst p)"

fun linked_pages :: "int \<Rightarrow> (int \<times> key_page) list \<Rightarrow> bool" where
  "linked_pages prev [] \<longleftrightarrow> True"
| "linked_pages prev (p # ps) \<longleftrightarrow> kp_poff (snd p) = prev \<and> kp_noff (snd p) = first_off ps \<and> linked_pages (fst p) ps"

definition node_holds :: "heap \<Rightarrow> nat \<Rightarrow> int \<times> key_page \<Rightarrow> bool" where
  "node_holds h k p \<longleftrightarrow> (\<exists>node. h_kpn h k = Some node \<and> kpn_kpoff node = fst p \<and> h_page h (kpn_kp node) = Some (snd p))"

definition cap_of :: "core \<Rightarrow> nat" where
  "cap_of c = nat (NUM_OF_KEYS_IN_PAGE (r_kpSize c))"

definition keys_apart :: "(int \<times> key_page) list \<Rightarrow> bool" where
  "keys_apart ps \<longleftrightarrow> (\<forall>p\<in>set ps. \<forall>q\<in>set ps. fst p \<noteq> fst q \<longrightarrow> dom (kp_map (snd p)) \<inter> dom (kp_map (snd q)) = {})"

definition bucket_ok :: "core \<Rightarrow> nat \<Rightarrow> (int \<times> key_page) list \<Rightarrow> nat list \<Rightarrow> bool" where
  "bucket_ok c i ps ks \<longleftrightarrow>
     bucket_list (r_ht c ! i) (r_heap c) ks \<and> he_offset (r_ht c ! i) = first_off ps \<and> linked_pages (-1) ps \<and>
     distinct (map fst ps) \<and> length ks \<le> length ps \<and> list_all2 (node_holds (r_heap c)) ks (take (length ks) ps) \<and>
     (\<forall>p\<in>set ps. page_good (cap_of c) i (snd p) \<and> page_on_disk (r_kf c) (fst p) (snd p)) \<and> keys_apart ps"

fun chain_find :: "(int \<times> key_page) list \<Rightarrow> dbkey \<Rightarrow> offset option" where
  "chain_find [] x = None"
| "chain_find (p # ps) x = (case kp_map (snd p) x of Some v \<Rightarrow> Some v | None \<Rightarrow> chain_find ps x)"

text \<open>A value page that belongs to a key.\<close>

definition value_good :: "db_file \<Rightarrow> dbkey \<Rightarrow> int \<Rightarrow> value_page \<Rightarrow> bool" where
  "value_good vf x v vp \<longleftrightarrow>
     value_on_disk vf v vp \<and> vp_flags vp = 0 \<and> vp_klen vp = int (length (key_bytes x)) \<and>
     take (length (key_bytes x)) (vp_key vp) = key_bytes x \<and> 0 \<le> vp_vlen vp \<and> vp_vlen vp \<le> 192"

definition bucket_of :: "core \<Rightarrow> dbkey \<Rightarrow> nat" where
  "bucket_of c x = nat (hash (key_bytes x) (int (length (key_bytes x))) (r_htSize c))"

definition values_ok :: "core \<Rightarrow> nat \<Rightarrow> (int \<times> key_page) list \<Rightarrow> bool" where
  "values_ok c i ps \<longleftrightarrow> (\<forall>p\<in>set ps. \<forall>x v. kp_map (snd p) x = Some v \<longrightarrow> bucket_of c x = i \<and> (\<exists>vp. value_good (r_vf c) x v vp))"

definition key_offs :: "core \<Rightarrow> (nat \<Rightarrow> (int \<times> key_page) list) \<Rightarrow> int set" where
  "key_offs c P = (\<Union>i<length (r_ht c). fst ` set (P i))"

definition val_offs :: "core \<Rightarrow> (nat \<Rightarrow> (int \<times> key_page) list) \<Rightarrow> int set" where
  "val_offs c P = (\<Union>i<length (r_ht c). \<Union>p\<in>set (P i). ran (kp_map (snd p)))"

definition sizes_ok :: "core \<Rightarrow> bool" where
  "sizes_ok c \<longleftrightarrow>
     lc_kpSize (r_cache c) = r_kpSize c \<and> length (r_ht c) = nat (r_htSize c) \<and> 0 < r_htSize c \<and> r_htSize c < 2 ^ 31 \<and>
     0 < cap_of c \<and> cap_of c \<le> 127 \<and> r_kpSize c = 64 + 64 * int (cap_of c)"

definition files_ok :: "core \<Rightarrow> (nat \<Rightarrow> (int \<times> key_page) list) \<Rightarrow> bool" where
  "files_ok c P \<longleftrightarrow> calm (df_file (r_kf c)) \<and> calm (df_file (r_vf c)) \<and>
     (case df_fdp (r_kf c) of None \<Rightarrow> False | Some m \<Rightarrow>
        fdp_pageSize m = r_kpSize c \<and> fdp_live m (key_offs c P) (length (f_data (df_file (r_kf c))))) \<and>
     (case df_fdp (r_vf c) of None \<Rightarrow> False | Some m \<Rightarrow>
        fdp_pageSize m = sizeof_value_page \<and> fdp_live m (val_offs c P) (length (f_data (df_file (r_vf c)))))"

text \<open>\<open>P\<close> gives the chains, \<open>K\<close> the nodes in memory, \<open>xs\<close> the order of the cache.\<close>

definition core_ok :: "core \<Rightarrow> (nat \<Rightarrow> (int \<times> key_page) list) \<Rightarrow> (nat \<Rightarrow> nat list) \<Rightarrow> nat list \<Rightarrow> bool" where
  "core_ok c P K xs \<longleftrightarrow>
     sizes_ok c \<and> heap_ok (r_cache c) (r_heap c) xs \<and> files_ok c P \<and>
     (\<forall>i<length (r_ht c). bucket_ok c i (P i) (K i) \<and> values_ok c i (P i))"

text \<open>The value a key has.\<close>

definition value_at :: "db_file \<Rightarrow> int \<Rightarrow> byte list" where
  "value_at vf v = (let vp = value_page_of (region (df_file vf) v 256) in take (nat (vp_vlen vp)) (vp_value vp))"

definition db_map :: "core \<Rightarrow> (nat \<Rightarrow> (int \<times> key_page) list) \<Rightarrow> dbkey \<Rightarrow> byte list option" where
  "db_map c P x = map_option (value_at (r_vf c)) (chain_find (P (bucket_of c x)) x)"

lemma value_good_at: "value_good vf x v vp \<Longrightarrow> value_at vf v = take (nat (vp_vlen vp)) (vp_value vp)"
  by (simp add: value_good_def value_at_def value_on_disk_def value_page_of_bytes)

lemma chain_find_append: "chain_find (ps @ qs) x = (case chain_find ps x of Some v \<Rightarrow> Some v | None \<Rightarrow> chain_find qs x)"
  by (induction ps) (auto split: option.splits)

lemma chain_find_Some: "chain_find ps x = Some v \<Longrightarrow> \<exists>p\<in>set ps. kp_map (snd p) x = Some v"
  by (induction ps) (auto split: option.splits)

lemma chain_find_None: "chain_find ps x = None \<longleftrightarrow> (\<forall>p\<in>set ps. kp_map (snd p) x = None)"
  by (induction ps) (auto split: option.splits)

text \<open>The parts of a database the invariant is about; the cache order is not among them.\<close>

definition same_db :: "core \<Rightarrow> core \<Rightarrow> bool" where
  "same_db c c' \<longleftrightarrow>
     r_ht c' = r_ht c \<and> h_kpn (r_heap c') = h_kpn (r_heap c) \<and> h_page (r_heap c') = h_page (r_heap c) \<and> r_vf c' = r_vf c \<and>
     r_kf c' = r_kf c \<and> r_kpSize c' = r_kpSize c \<and> r_htSize c' = r_htSize c \<and> lc_kpSize (r_cache c') = lc_kpSize (r_cache c) \<and>
     lc_num (r_cache c') = lc_num (r_cache c) \<and> lc_max (r_cache c') = lc_max (r_cache c) \<and> r_opCount c' = r_opCount c"

lemma same_db_refl [simp]: "same_db c c"
  by (simp add: same_db_def)

lemma same_db_trans: "same_db a b \<Longrightarrow> same_db b c \<Longrightarrow> same_db a c"
  by (simp add: same_db_def)

lemma same_db_ok:
  assumes "same_db c c'" "core_ok c P K xs" "heap_ok (r_cache c') (r_heap c') ys"
  shows "core_ok c' P K ys" "db_map c' P = db_map c P"
proof -
  have e: "r_ht c' = r_ht c" "h_kpn (r_heap c') = h_kpn (r_heap c)" "h_page (r_heap c') = h_page (r_heap c)" "r_vf c' = r_vf c"
    "r_kf c' = r_kf c" "r_kpSize c' = r_kpSize c" "r_htSize c' = r_htSize c" "lc_kpSize (r_cache c') = lc_kpSize (r_cache c)"
    using assms(1) by (auto simp: same_db_def)
  then have f: "cap_of c' = cap_of c" "klinks (r_heap c') = klinks (r_heap c)" "node_holds (r_heap c') = node_holds (r_heap c)"
    "bucket_of c' = bucket_of c" "key_offs c' = key_offs c" "val_offs c' = val_offs c"
    by (auto simp: cap_of_def klinks_def node_holds_def bucket_of_def key_offs_def val_offs_def fun_eq_iff)
  show "core_ok c' P K ys"
    using assms(2,3) unfolding core_ok_def sizes_ok_def files_ok_def bucket_ok_def bucket_list_def values_ok_def e f by blast
  show "db_map c' P = db_map c P" by (simp add: db_map_def e f fun_eq_iff)
qed

end
