(* ===== verification/Rdb_Walk.thy ===== *)
theory Rdb_Walk
  imports Rdb_Rep
begin

text \<open>
  The walk of \<open>processKeyPages\<close> along the chain of a bucket: pages in memory first, then pages it
  loads. A page without the key (for a lookup) or without room (for an insertion) is passed.
\<close>

section \<open>One page\<close>

lemma core_okD:
  assumes "core_ok c P K xs"
  shows "sizes_ok c" "heap_ok (r_cache c) (r_heap c) xs" "files_ok c P"
    "i < length (r_ht c) \<Longrightarrow> bucket_ok c i (P i) (K i)" "i < length (r_ht c) \<Longrightarrow> values_ok c i (P i)"
  using assms by (auto simp: core_ok_def)

lemma bucket_okD:
  assumes "bucket_ok c i ps ks"
  shows "bucket_list (r_ht c ! i) (r_heap c) ks" "he_offset (r_ht c ! i) = first_off ps" "linked_pages (-1) ps" "distinct (map fst ps)"
    "length ks \<le> length ps" "list_all2 (node_holds (r_heap c)) ks (take (length ks) ps)"
    "p \<in> set ps \<Longrightarrow> page_good (cap_of c) i (snd p)" "p \<in> set ps \<Longrightarrow> page_on_disk (r_kf c) (fst p) (snd p)" "keys_apart ps"
  using assms by (auto simp: bucket_ok_def)

lemma linked_next: "linked_pages prev (as @ p # bs) \<Longrightarrow> kp_noff (snd p) = first_off bs"
  by (induction as arbitrary: prev) auto

lemma disk_off: "page_on_disk k off kp \<Longrightarrow> 0 \<le> off"
  by (simp add: page_on_disk_def in_file_def)

lemma bucket_node:
  assumes "bucket_ok c i (as' @ p # bs') (as @ k # bs)" "length as' = length as"
  shows "\<exists>node. h_kpn (r_heap c) k = Some node \<and> kpn_next node = first_of bs None \<and> kpn_kpoff node = fst p \<and>
    h_page (r_heap c) (kpn_kp node) = Some (snd p) \<and> kp_noff (snd p) = first_off bs' \<and> 0 \<le> fst p \<and>
    page_good (cap_of c) i (snd p) \<and> page_on_disk (r_kf c) (fst p) (snd p)"
proof -
  have "take (length (as @ k # bs)) (as' @ p # bs') = as' @ p # take (length bs) bs'" using assms(2) by simp
  then have "list_all2 (node_holds (r_heap c)) (as @ k # bs) (as' @ p # take (length bs) bs')"
    using bucket_okD(6) [OF assms(1)] by simp
  then have "node_holds (r_heap c) k p" using assms(2) by (auto simp: list_all2_append)
  then obtain node where n: "h_kpn (r_heap c) k = Some node" "kpn_kpoff node = fst p" "h_page (r_heap c) (kpn_kp node) = Some (snd p)"
    by (auto simp: node_holds_def)
  have "klinks (r_heap c) k = Some (last_of as None, first_of bs None)"
    using bucket_okD(1) [OF assms(1)] by (simp add: bucket_list_def dseg_append)
  with n(1) have "kpn_next node = first_of bs None" by (simp add: klinks_def)
  with n linked_next [OF bucket_okD(3) [OF assms(1)]] bucket_okD(7,8) [OF assms(1), of p] disk_off show ?thesis by auto
qed

definition info_same :: "key_info \<Rightarrow> key_info \<Rightarrow> bool" where
  "info_same ki ki' \<longleftrightarrow> ki_key ki' = ki_key ki \<and> ki_klen ki' = ki_klen ki \<and> ki_hash ki' = ki_hash ki \<and> ki_voff ki' = ki_voff ki \<and>
     ki_kpn ki' = ki_kpn ki"

lemma info_same_refl [simp]: "info_same ki ki"
  by (simp add: info_same_def)

lemma info_same_trans: "info_same a b \<Longrightarrow> info_same b c \<Longrightarrow> info_same a c"
  by (simp add: info_same_def)

lemma info_sameD: "info_same ki ki' \<Longrightarrow> info_key ki' = info_key ki \<and> info_ok ki' = info_ok ki \<and> ki_hash ki' = ki_hash ki"
  by (simp add: info_same_def info_key_def info_ok_def)

definition skips :: "op \<Rightarrow> core \<Rightarrow> key_info \<Rightarrow> key_page \<Rightarrow> bool" where
  "skips p c ki kp \<longleftrightarrow>
     (case p of
        GET \<Rightarrow> kp_map kp (info_key ki) = None
      | SET \<Rightarrow> \<not> kp_vcount kp < NUM_OF_KEYS_IN_PAGE (r_kpSize c)
      | _ \<Rightarrow> False)"

definition last_seen :: "heap \<Rightarrow> nat \<Rightarrow> int \<Rightarrow> key_info \<Rightarrow> bool" where
  "last_seen h k off ki \<longleftrightarrow> ki_lkp ki = kpn_kp (the (h_kpn h k)) \<and> ki_lkpoff ki = off"

lemma visit_skip:
  assumes "h_kpn (r_heap c) k = Some node" "h_page (r_heap c) (kpn_kp node) = Some kp" "page_ok kp" "info_ok ki" "skips p c ki kp"
  shows "\<exists>ki1. visit_page p k off c ki = Some (c, ki1, None, kp_noff kp) \<and> info_same ki ki1 \<and> last_seen (r_heap c) k off ki1"
proof (cases p)
  case GET
  from assms(3) obtain t where "page_rep kp t" by (auto simp: page_ok_def)
  from get_page [OF this assms(4)] GET assms(5) have "KR_get kp ki = Some (-1)" by (auto simp: skips_def)
  then show ?thesis using assms(1,2) GET by (simp add: visit_page_def next_page_def info_same_def last_seen_def)
qed (use assms in \<open>auto simp: skips_def visit_page_def next_page_def info_same_def last_seen_def\<close>)

lemma entry_nonneg: "entry kp i x v \<Longrightarrow> 0 \<le> i"
  by (auto simp: entry_def key_at_def split: if_splits)

definition found_at :: "nat \<Rightarrow> int \<Rightarrow> key_info \<Rightarrow> key_info \<Rightarrow> bool" where
  "found_at k v ki ki' \<longleftrightarrow> ki_key ki' = ki_key ki \<and> ki_klen ki' = ki_klen ki \<and> ki_hash ki' = ki_hash ki \<and>
     ki_kpn ki' = Some k \<and> ki_voff ki' = v \<and> 0 \<le> ki_kidx ki'"

lemma visit_get:
  assumes "h_kpn (r_heap c) k = Some node" "h_page (r_heap c) (kpn_kp node) = Some kp" "page_ok kp" "info_ok ki"
    "kp_map kp (info_key ki) = Some v"
  shows "\<exists>ki1. visit_page GET k off c ki = Some (c, ki1, Some E_ok, off) \<and> found_at k v ki ki1"
proof -
  from assms(3) obtain t where "page_rep kp t" by (auto simp: page_ok_def)
  from get_page [OF this assms(4)] assms(5) obtain i where i: "KR_get kp ki = Some i" "entry kp i (info_key ki) v" by auto
  from i(2) obtain krec where "key_at kp i = Some krec" "kr_voff krec = v" by (auto simp: entry_def)
  with i entry_nonneg [OF i(2)] assms(1,2) show ?thesis by (simp add: visit_page_def found_at_def)
qed

section \<open>Pages in memory\<close>

lemma load_node_ok:
  assumes "heap_ok (r_cache c) (r_heap c) xs" "h_kpn (r_heap c) k = Some node"
  shows "\<exists>c' ys. load_node k off c = Some (c', E_ok) \<and> same_db c c' \<and> heap_ok (r_cache c') (r_heap c') ys"
proof -
  from touch_ok [OF assms] obtain ca h ys where t: "cache_touch (r_cache c) (r_heap c) (Some k) = Some (ca, h)" "heap_ok ca h ys"
    "h_kpn h = h_kpn (r_heap c)" "h_page h = h_page (r_heap c)" "lc_num ca = lc_num (r_cache c)" "same_cache (r_cache c) ca" by blast
  have "kpn_kp node \<noteq> 0" using heap_ok_page [OF assms] by simp
  with t assms(2) show ?thesis by (auto simp: load_node_def same_db_def same_cache_def)
qed

lemma loaded_skip:
  assumes "core_ok c P K xs" "i < length (r_ht c)" "K i = as @ ks @ bs" "P i = as' @ ps @ bs'" "length as' = length as"
    "length ps = length ks" "info_ok ki" "\<forall>q\<in>set ps. skips p c ki (snd q)"
  shows "\<exists>c' ki' ys. loaded_loop p (first_of (ks @ bs) None) (first_off (ps @ bs')) c ki =
      loaded_loop p (first_of bs None) (first_off bs') c' ki' \<and> same_db c c' \<and> heap_ok (r_cache c') (r_heap c') ys \<and>
    info_same ki ki' \<and> (if ks = [] then ki' = ki else last_seen (r_heap c') (last ks) (fst (last ps)) ki')"
  using assms
proof (induction ks arbitrary: as as' ps c ki xs)
  case Nil
  then show ?case using core_okD(2) by fastforce
next
  case (Cons k ks)
  then obtain q ps' where ps: "ps = q # ps'" by (cases ps) auto
  have b: "bucket_ok c i (as' @ q # (ps' @ bs')) (as @ k # (ks @ bs))" using core_okD(4) [OF Cons.prems(1,2)] Cons.prems(3,4) ps by simp
  from bucket_node [OF b Cons.prems(5)] obtain node where n: "h_kpn (r_heap c) k = Some node" "kpn_next node = first_of (ks @ bs) None"
    "h_page (r_heap c) (kpn_kp node) = Some (snd q)" "kp_noff (snd q) = first_off (ps' @ bs')" "0 \<le> fst q" "page_ok (snd q)"
    by (auto simp: page_good_def)
  from load_node_ok [OF core_okD(2) [OF Cons.prems(1)] n(1), of "fst q"] obtain c1 ys where
    l: "load_node k (fst q) c = Some (c1, E_ok)" "same_db c c1" "heap_ok (r_cache c1) (r_heap c1) ys" by blast
  have e: "h_kpn (r_heap c1) = h_kpn (r_heap c)" "h_page (r_heap c1) = h_page (r_heap c)" "r_ht c1 = r_ht c" "r_kpSize c1 = r_kpSize c"
    using l(2) by (auto simp: same_db_def)
  have sk: "skips p c1 = skips p c" using e(4) by (auto simp: skips_def fun_eq_iff split: op.splits)
  have "skips p c1 ki (snd q)" using Cons.prems(8) ps sk by simp
  from visit_skip [of c1 k node "snd q" ki p "fst q", OF _ _ n(6) Cons.prems(7) this] n(1,3) e obtain ki1 where
    v: "visit_page p k (fst q) c1 ki = Some (c1, ki1, None, kp_noff (snd q))" "info_same ki ki1" "last_seen (r_heap c1) k (fst q) ki1" by auto
  have step: "loaded_loop p (first_of ((k # ks) @ bs) None) (first_off (ps @ bs')) c ki =
      loaded_loop p (first_of (ks @ bs) None) (first_off (ps' @ bs')) c1 ki1"
    using n(1,2,4,5) l(1) v(1) e(1) ps
    by (subst loaded_loop.simps) (simp add: first_off_def loaded_step_def)
  have c1: "core_ok c1 P K ys" by (rule same_db_ok(1) [OF l(2) Cons.prems(1) l(3)])
  have "\<forall>q\<in>set ps'. skips p c1 ki1 (snd q)"
    using Cons.prems(8) ps sk info_sameD [OF v(2)] by (auto simp: skips_def split: op.splits)
  from Cons.IH [OF c1, of "as @ [k]" "as' @ [q]" ps' ki1] this Cons.prems(2-7) ps e(3) info_sameD [OF v(2)]
  obtain c' ki' zs where ih: "loaded_loop p (first_of (ks @ bs) None) (first_off (ps' @ bs')) c1 ki1 =
      loaded_loop p (first_of bs None) (first_off bs') c' ki'" "same_db c1 c'" "heap_ok (r_cache c') (r_heap c') zs"
    "info_same ki1 ki'" "if ks = [] then ki' = ki1 else last_seen (r_heap c') (last ks) (fst (last ps')) ki'" by auto
  have "h_kpn (r_heap c') = h_kpn (r_heap c1)" using ih(2) by (simp add: same_db_def)
  then have "last_seen (r_heap c') (last (k # ks)) (fst (last ps)) ki'"
    using ih(5) v(3) ps Cons.prems(6) by (auto simp: last_seen_def split: if_splits)
  then show ?case using step ih same_db_trans [OF l(2) ih(2)] info_same_trans [OF v(2) ih(4)]
    by (intro exI [of _ c'] exI [of _ ki'] exI [of _ zs]) simp
qed

section \<open>Other buckets\<close>

lemma bucket_holds:
  assumes "bucket_ok c i ps ks" "k \<in> set ks"
  shows "\<exists>p\<in>set ps. node_holds (r_heap c) k p"
proof -
  from assms(2) obtain n where "n < length ks" "k = ks ! n" by (auto simp: in_set_conv_nth)
  with bucket_okD(5,6) [OF assms(1)] have "node_holds (r_heap c) k (ps ! n)" "n < length ps"
    by (auto simp: list_all2_conv_all_nth)
  then show ?thesis by (metis nth_mem)
qed

lemma nodes_disjoint:
  assumes "bucket_ok c i ps ks" "bucket_ok c j qs js" "i \<noteq> j"
  shows "set ks \<inter> set js = {}"
proof -
  have False if k: "k \<in> set ks" "k \<in> set js" for k
  proof -
    from bucket_holds [OF assms(1) k(1)] obtain p where p: "p \<in> set ps" "node_holds (r_heap c) k p" by blast
    from bucket_holds [OF assms(2) k(2)] obtain q where q: "q \<in> set qs" "node_holds (r_heap c) k q" by blast
    have "snd p = snd q" using p(2) q(2) by (auto simp: node_holds_def)
    with bucket_okD(7) [OF assms(1) p(1)] bucket_okD(7) [OF assms(2) q(1)] assms(3) show False by (auto simp: page_good_def)
  qed
  then show ?thesis by blast
qed

lemma bucket_other:
  assumes "bucket_ok c j ps ks" "r_ht c' ! j = r_ht c ! j" "\<And>k. k \<in> set ks \<Longrightarrow> h_kpn (r_heap c') k = h_kpn (r_heap c) k"
    "\<And>k node. k \<in> set ks \<Longrightarrow> h_kpn (r_heap c) k = Some node \<Longrightarrow> h_page (r_heap c') (kpn_kp node) = h_page (r_heap c) (kpn_kp node)"
    "\<And>p. p \<in> set ps \<Longrightarrow> page_on_disk (r_kf c') (fst p) (snd p)" "cap_of c' = cap_of c"
  shows "bucket_ok c' j ps ks"
proof -
  note b = bucket_okD [OF assms(1)]
  have "dseg (klinks (r_heap c')) None ks None = dseg (klinks (r_heap c)) None ks None"
    by (rule dseg_cong) (simp add: klinks_def assms(3))
  then have "bucket_list (r_ht c' ! j) (r_heap c') ks" using b(1) assms(2) by (simp add: bucket_list_def)
  moreover have "list_all2 (node_holds (r_heap c')) ks (take (length ks) ps)"
  proof (rule list.rel_mono_strong [OF b(6)])
    fix k p assume "k \<in> set ks" "p \<in> set (take (length ks) ps)" "node_holds (r_heap c) k p"
    then show "node_holds (r_heap c') k p" using assms(3,4) by (fastforce simp: node_holds_def)
  qed
  ultimately show ?thesis using b assms(2,5,6) by (simp add: bucket_ok_def)
qed

section \<open>Pages on the disk\<close>

definition narrowed :: "int \<times> key_page \<Rightarrow> int \<times> key_page" where
  "narrowed p = (fst p, narrow_page (snd p))"

lemma linked_narrowed:
  assumes "page_good N i (snd p)"
  shows "linked_pages prev (as @ narrowed p # bs) = linked_pages prev (as @ p # bs)"
proof (induction as arbitrary: prev)
  case Nil
  then show ?case using page_good_narrow [OF assms] by (auto simp: narrowed_def)
next
  case (Cons a as)
  then show ?case by (cases as) (auto simp: first_off_def narrowed_def)
qed

lemma chain_find_narrowed: "page_good N i (snd p) \<Longrightarrow> chain_find (as @ narrowed p # bs) x = chain_find (as @ p # bs) x"
  using page_good_narrow [of N i "snd p"] by (simp add: chain_find_append narrowed_def split: option.splits)

lemma first_off_narrowed: "first_off (as @ narrowed p # bs) = first_off (as @ p # bs)"
  by (cases as) (auto simp: first_off_def narrowed_def)

lemma keys_apart_narrowed:
  "page_good N i (snd p) \<Longrightarrow> keys_apart (as @ p # bs) \<Longrightarrow> keys_apart (as @ narrowed p # bs)"
  using page_good_narrow [of N i "snd p"] unfolding keys_apart_def by (auto simp: narrowed_def)

text \<open>Reading the next page of a chain: it is the page on the disk up to values that did not fit.\<close>

definition load_core :: "core \<Rightarrow> int \<Rightarrow> int \<Rightarrow> (core \<times> nat) option" where
  "load_core c i off = do {
     (ca, h, kf, kpn, r) \<leftarrow> cache_get (r_cache c) (r_heap c) (r_kf c) off;
     if r \<noteq> E_ok then None
     else do {
       k \<leftarrow> kpn;
       (ht, h) \<leftarrow> addKeyPageNode (r_ht c) h i k;
       Some (c\<lparr>r_cache := ca, r_kf := kf, r_ht := ht, r_heap := h\<rparr>, k)
     }
   }"

lemma unloaded_step_load:
  "load_core c (ki_hash ki) off = Some (c', k) \<Longrightarrow> unloaded_step p off c ki = visit_page p k off c' ki"
  by (auto simp: load_core_def unloaded_step_def split: bind_splits if_splits)

lemma load_core_ok:
  assumes ok: "core_ok c P K xs" and i: "i < length (r_ht c)" and room: "lc_num (r_cache c) < lc_max (r_cache c)"
    and P: "P i = as @ p # bs" and K: "length (K i) = length as"
  shows "\<exists>c' k ys. load_core c (int i) (fst p) = Some (c', k) \<and>
    core_ok c' (P(i := as @ narrowed p # bs)) (K(i := K i @ [k])) ys \<and> db_map c' (P(i := as @ narrowed p # bs)) = db_map c P \<and>
    lc_num (r_cache c') = lc_num (r_cache c) + 1 \<and> lc_max (r_cache c') = lc_max (r_cache c) \<and>
    length (r_ht c') = length (r_ht c) \<and> r_vf c' = r_vf c \<and> r_kpSize c' = r_kpSize c \<and> r_htSize c' = r_htSize c \<and>
    df_fdp (r_kf c') = df_fdp (r_kf c) \<and> r_opCount c' = r_opCount c \<and>
    key_offs c' (P(i := as @ narrowed p # bs)) = key_offs c P \<and> val_offs c' (P(i := as @ narrowed p # bs)) = val_offs c P"
proof -
  let ?h = "r_heap c"
  note b = core_okD(4) [OF ok i, unfolded P]
  note hk = core_okD(2) [OF ok]
  have p: "page_good (cap_of c) i (snd p)" "page_on_disk (r_kf c) (fst p) (snd p)" using bucket_okD(7,8) [OF b, of p] by auto
  note pn = page_good_narrow [OF p(1)]
  have off: "fst p \<noteq> -1" using disk_off [OF p(2)] by simp
  have kp: "lc_kpSize (r_cache c) = int (length (key_page_bytes (snd p)))"
    using core_okD(1) [OF ok] page_good_length [OF p(1)] by (simp add: sizes_ok_def)
  have calm: "calm (df_file (r_kf c))" using core_okD(3) [OF ok] by (simp add: files_ok_def)
  from page_on_disk_read [OF calm p(2) kp] obtain kf' bs' where rd: "kf_read (r_kf c) (fst p) (lc_kpSize (r_cache c)) = (kf', E_ok, bs')"
    "key_page_of bs' = narrow_page (snd p)" "calm (df_file kf')" "f_data (df_file kf') = f_data (df_file (r_kf c))" "df_fdp kf' = df_fdp (r_kf c)"
    by blast
  have "page_read (r_cache c) (r_kf c) (fst p) kf' (narrow_page (snd p))" using off rd(1,2) by (auto simp: page_read_def)
  from cache_get_ok [OF hk room this] obtain ca h1 k a cn ys where
    g: "cache_get (r_cache c) ?h (r_kf c) (fst p) = Some (ca, h1, kf', Some k, E_ok)" "heap_ok ca h1 ys" "h_kpn ?h k = None"
      "a \<notin> pages_of ?h" "h_kpn h1 = (h_kpn ?h)(k \<mapsto> new_node a (fst p) cn)" "h_page h1 = (h_page ?h)(a \<mapsto> narrow_page (snd p))"
      "lc_num ca = lc_num (r_cache c) + 1" "lc_max ca = lc_max (r_cache c)" "lc_kpSize ca = lc_kpSize (r_cache c)" by blast
  have live: "h_kpn ?h q \<noteq> None" if "j < length (r_ht c)" "q \<in> set (K j)" for j q
    using bucket_holds [OF core_okD(4) [OF ok that(1)] that(2)] by (auto simp: node_holds_def)
  have kK: "k \<notin> set (K j)" if "j < length (r_ht c)" for j using live [OF that] g(3) by blast
  have "dseg (klinks h1) None (K i) None = dseg (klinks ?h) None (K i) None"
    by (rule dseg_cong) (use kK [OF i] g(5) in \<open>auto simp: klinks_def\<close>)
  then have bl: "bucket_list (r_ht c ! i) h1 (K i)" using bucket_okD(1) [OF b] by (simp add: bucket_list_def)
  have e: "entry_at (r_ht c) (int i) = Some (r_ht c ! i)" using i by (simp add: entry_at_def)
  have nk: "h_kpn h1 k = Some (new_node a (fst p) cn)" using g(5) by simp
  from bucket_add [OF e bl nk kK [OF i]] obtain e' h2 where
    a: "addKeyPageNode (r_ht c) h1 (int i) k = Some ((r_ht c)[i := e'], h2)" "bucket_list e' h2 (K i @ [k])" "relinked_nodes h1 h2"
      "he_offset e' = (if K i = [] then fst p else he_offset (r_ht c ! i))" "\<And>q. q \<notin> set (K i @ [k]) \<Longrightarrow> h_kpn h2 q = h_kpn h1 q"
    by (auto simp: new_node_def)
  let ?c = "c\<lparr>r_cache := ca, r_heap := h2, r_kf := kf', r_ht := (r_ht c)[i := e']\<rparr>"
  let ?P = "P(i := as @ narrowed p # bs)" and ?K = "K(i := K i @ [k])"
  have pg: "h_page h2 = (h_page ?h)(a \<mapsto> narrow_page (snd p))" using a(3) g(6) by (simp add: relinked_nodes_def)
  have dat: "map_option kp_data (h_kpn h2 q) = map_option kp_data (h_kpn h1 q)" for q using a(3) by (simp add: relinked_nodes_def)
  have keep: "node_holds h2 q r" if n: "node_holds ?h q r" for q r
  proof -
    from n obtain node where node: "h_kpn ?h q = Some node" "kpn_kpoff node = fst r" "h_page ?h (kpn_kp node) = Some (snd r)"
      by (auto simp: node_holds_def)
    have qk: "q \<noteq> k" using node(1) g(3) by auto
    have "kpn_kp node \<noteq> a" using g(4) heap_ok_page [OF hk node(1)] by auto
    moreover have "map_option kp_data (h_kpn h2 q) = Some (kp_data node)" using dat [of q] g(5) qk node(1) by simp
    then obtain node' where "h_kpn h2 q = Some node'" "kp_data node' = kp_data node" by auto
    ultimately show ?thesis using node pg by (auto simp: node_holds_def kp_data_def)
  qed
  have knew: "node_holds h2 k (narrowed p)"
  proof -
    have "map_option kp_data (h_kpn h2 k) = Some (kp_data (new_node a (fst p) cn))" using dat [of k] nk by simp
    then obtain node' where "h_kpn h2 k = Some node'" "kp_data node' = (a, fst p, Some cn)" by (auto simp: kp_data_def new_node_def)
    then show ?thesis using pg by (auto simp: node_holds_def narrowed_def kp_data_def)
  qed
  have disk: "page_on_disk kf' = page_on_disk (r_kf c)" using rd(4) by (simp add: page_on_disk_def in_file_def region_def fun_eq_iff)
  have cap: "cap_of ?c = cap_of c" by (simp add: cap_of_def)
  have bi: "bucket_ok ?c i (as @ narrowed p # bs) (K i @ [k])"
  proof -
    have "list_all2 (node_holds h2) (K i) as"
      using bucket_okD(6) [OF b] K keep by (auto intro: list_all2_mono)
    then have "list_all2 (node_holds h2) (K i @ [k]) (take (length (K i @ [k])) (as @ narrowed p # bs))"
      using knew K by (auto simp: list_all2_append)
    moreover have "he_offset e' = first_off (as @ narrowed p # bs)"
      using a(4) bucket_okD(2) [OF b] K first_off_narrowed [of as p bs] by (cases as) (auto simp: first_off_def)
    moreover have "distinct (map fst (as @ narrowed p # bs))" using bucket_okD(4) [OF b] by (simp add: narrowed_def)
    moreover have "\<forall>q\<in>set (as @ narrowed p # bs). page_good (cap_of c) i (snd q) \<and> page_on_disk (r_kf c) (fst q) (snd q)"
      using bucket_okD(7,8) [OF b] pn by (auto simp: narrowed_def page_on_disk_narrow)
    ultimately show ?thesis
      using a(2) i K bucket_okD(3,9) [OF b] linked_narrowed [OF p(1)] keys_apart_narrowed [OF p(1)] cap disk by (simp add: bucket_ok_def)
  qed
  have bj: "bucket_ok ?c j (P j) (K j)" if j: "j < length (r_ht c)" "j \<noteq> i" for j
  proof (rule bucket_other [OF core_okD(4) [OF ok j(1)]])
    fix q assume q: "q \<in> set (K j)"
    have "q \<notin> set (K i @ [k])" using nodes_disjoint [OF core_okD(4) [OF ok j(1)] core_okD(4) [OF ok i] j(2)] kK [OF j(1)] q by auto
    then have s: "h_kpn h2 q = h_kpn ?h q" using a(5) g(5) by auto
    then show "h_kpn (r_heap ?c) q = h_kpn (r_heap c) q" by simp
    fix node assume "h_kpn (r_heap c) q = Some node"
    then have "kpn_kp node \<noteq> a" using g(4) heap_ok_page [OF hk] by auto
    then show "h_page (r_heap ?c) (kpn_kp node) = h_page (r_heap c) (kpn_kp node)" using pg by simp
  qed (use j cap disk bucket_okD(8) [OF core_okD(4) [OF ok j(1)]] in auto)
  have same: "bucket_of ?c = bucket_of c" by (simp add: bucket_of_def fun_eq_iff)
  have vals: "values_ok ?c j (?P j)" if "j < length (r_ht c)" for j
    using core_okD(5) [OF ok that] P pn same unfolding values_ok_def
    by (cases "j = i") (simp_all add: narrowed_def ball_Un)
  have at_j: "fst ` set (?P j) = fst ` set (P j)" "(\<Union>q\<in>set (?P j). ran (kp_map (snd q))) = (\<Union>q\<in>set (P j). ran (kp_map (snd q)))" for j
    using P pn by (cases "j = i"; simp add: narrowed_def)+
  have offs: "key_offs ?c ?P = key_offs c P" "val_offs ?c ?P = val_offs c P"
    unfolding key_offs_def val_offs_def at_j by simp_all
  have "core_ok ?c ?P ?K ys"
    unfolding core_ok_def
  proof (intro conjI allI impI)
    show "sizes_ok ?c" using core_okD(1) [OF ok] g(9) cap by (simp add: sizes_ok_def)
    show "heap_ok (r_cache ?c) (r_heap ?c) ys" using heap_ok_nodes [OF g(2) a(3)] by simp
    show "files_ok ?c ?P" using core_okD(3) [OF ok] rd(3-5) unfolding files_ok_def offs by (auto split: option.splits)
    fix j assume "j < length (r_ht ?c)"
    then have j: "j < length (r_ht c)" by simp
    then show "bucket_ok ?c j (?P j) (?K j)" using bi bj by auto
    show "values_ok ?c j (?P j)" by (rule vals [OF j])
  qed
  moreover have "load_core c (int i) (fst p) = Some (?c, k)" using g(1) a(1) by (simp add: load_core_def)
  moreover have "db_map ?c ?P = db_map c P"
    using chain_find_narrowed [OF p(1)] P same by (auto simp: db_map_def fun_eq_iff)
  ultimately show ?thesis using g(7,8) rd(5) offs by fastforce
qed

end
