(* ===== verification/Rdb_Search.thy ===== *)
theory Rdb_Search
  imports Rdb_Walk
begin

text \<open>
  The whole search of \<open>processKeyPages\<close>: it stops at the first page that holds the key (for a lookup)
  or has room (for an insertion), or passes all pages, and then every page of the bucket is in memory.
  Loading pages changes nothing a key stands for.
\<close>

section \<open>What loading keeps\<close>

definition unloaded :: "(nat \<Rightarrow> (int \<times> key_page) list) \<Rightarrow> (nat \<Rightarrow> nat list) \<Rightarrow> nat \<Rightarrow> nat" where
  "unloaded P K n = (\<Sum>i<n. length (P i) - length (K i))"

text \<open>The cache has room for all pages on the disk and \<open>m\<close> more.\<close>

definition room :: "core \<Rightarrow> (nat \<Rightarrow> (int \<times> key_page) list) \<Rightarrow> (nat \<Rightarrow> nat list) \<Rightarrow> nat \<Rightarrow> bool" where
  "room c P K m \<longleftrightarrow> lc_num (r_cache c) + int (unloaded P K (length (r_ht c))) + int m \<le> lc_max (r_cache c)"

definition frame :: "core \<Rightarrow> core \<Rightarrow> bool" where
  "frame c c' \<longleftrightarrow> length (r_ht c') = length (r_ht c) \<and> r_vf c' = r_vf c \<and> r_kpSize c' = r_kpSize c \<and> r_htSize c' = r_htSize c \<and>
     df_fdp (r_kf c') = df_fdp (r_kf c) \<and> r_opCount c' = r_opCount c"

lemma frame_refl [simp]: "frame c c"
  by (simp add: frame_def)

lemma frame_trans: "frame a b \<Longrightarrow> frame b c \<Longrightarrow> frame a c"
  by (simp add: frame_def)

definition kept :: "core \<Rightarrow> (nat \<Rightarrow> (int \<times> key_page) list) \<Rightarrow> core \<Rightarrow> (nat \<Rightarrow> (int \<times> key_page) list) \<Rightarrow> bool" where
  "kept c P c' P' \<longleftrightarrow> frame c c' \<and> (\<forall>i. map fst (P' i) = map fst (P i)) \<and> db_map c' P' = db_map c P \<and> key_offs c' P' = key_offs c P \<and> val_offs c' P' = val_offs c P"

lemma kept_refl [simp]: "kept c P c P"
  by (simp add: kept_def)

lemma kept_trans: "kept a P b Q \<Longrightarrow> kept b Q c R \<Longrightarrow> kept a P c R"
  by (auto simp: kept_def intro: frame_trans)

lemma unloaded_upd:
  assumes "i < n" "length ps = length (P i)" "length ks = Suc (length (K i))" "length (K i) < length (P i)"
  shows "unloaded P K n = Suc (unloaded (P(i := ps)) (K(i := ks)) n)"
proof -
  have "(\<Sum>j\<in>{..<n} - {i}. length ((P(i := ps)) j) - length ((K(i := ks)) j)) = (\<Sum>j\<in>{..<n} - {i}. length (P j) - length (K j))"
    by (rule sum.cong) auto
  then show ?thesis using assms unfolding unloaded_def by (simp add: sum.remove [of "{..<n}" i])
qed

lemma skips_cong: "r_kpSize c' = r_kpSize c \<Longrightarrow> info_key ki' = info_key ki \<Longrightarrow> skips p c' ki' kp = skips p c ki kp"
  by (auto simp: skips_def split: op.splits)

section \<open>The search\<close>

definition seen :: "core \<Rightarrow> nat list \<Rightarrow> (int \<times> key_page) list \<Rightarrow> key_info \<Rightarrow> key_info \<Rightarrow> bool" where
  "seen c ks ps ki0 ki \<longleftrightarrow> info_same ki0 ki \<and>
     (if ks = [] then ki_lkp ki = ki_lkp ki0 \<and> ki_lkpoff ki = ki_lkpoff ki0 else last_seen (r_heap c) (last ks) (fst (last ps)) ki)"

text \<open>
  The result \<open>res\<close> of a search that began with \<open>c\<close>: all pages were passed, or the search stopped at page
  \<open>q\<close> in node \<open>k\<close>, where the result is the one the visit of that page gives.
\<close>

definition passed :: "op \<Rightarrow> nat \<Rightarrow> core \<Rightarrow> (nat \<Rightarrow> (int \<times> key_page) list) \<Rightarrow> (nat \<Rightarrow> nat list) \<Rightarrow> key_info \<Rightarrow> key_info \<Rightarrow> bool" where
  "passed p i c P K ki0 ki \<longleftrightarrow>
     length (K i) = length (P i) \<and> (\<forall>q\<in>set (P i). skips p c ki (snd q)) \<and> seen c (K i) (P i) ki0 ki"

definition stopped :: "op \<Rightarrow> nat \<Rightarrow> core \<Rightarrow> (nat \<Rightarrow> (int \<times> key_page) list) \<Rightarrow> (nat \<Rightarrow> nat list) \<Rightarrow> key_info \<Rightarrow> nat \<Rightarrow> int \<times> key_page \<Rightarrow> bool" where
  "stopped p i c P K ki k q \<longleftrightarrow>
     (\<exists>as bs ks ks'. P i = as @ q # bs \<and> K i = ks @ k # ks' \<and> length ks = length as \<and> (\<forall>r\<in>set as. skips p c ki (snd r)) \<and>
        \<not> skips p c ki (snd q))"

definition outcome ::
  "op \<Rightarrow> nat \<Rightarrow> core \<Rightarrow> (nat \<Rightarrow> (int \<times> key_page) list) \<Rightarrow> (nat \<Rightarrow> nat list) \<Rightarrow> key_info \<Rightarrow> key_info \<Rightarrow> (core \<times> key_info \<times> int) option \<Rightarrow> bool" where
  "outcome p i c P K ki0 ki res \<longleftrightarrow>
     res = Some (c, ki, E_not_found) \<and> passed p i c P K ki0 ki \<or>
     (\<exists>k q. stopped p i c P K ki k q \<and>
        (\<forall>c2 ki2 r off2. visit_page p k (fst q) c ki = Some (c2, ki2, Some r, off2) \<and> h_kpn (r_heap c2) k \<noteq> None \<longrightarrow>
           res = Some (c2, ki2, r)))"

definition searched ::
  "op \<Rightarrow> nat \<Rightarrow> core \<Rightarrow> (nat \<Rightarrow> (int \<times> key_page) list) \<Rightarrow> nat \<Rightarrow> key_info \<Rightarrow> (core \<times> key_info \<times> int) option \<Rightarrow> bool" where
  "searched p i c P m ki0 res \<longleftrightarrow>
     (\<exists>c' P' K' ys ki. core_ok c' P' K' ys \<and> room c' P' K' m \<and> kept c P c' P' \<and> info_same ki0 ki \<and> outcome p i c' P' K' ki0 ki res)"

lemma searchedI:
  "core_ok c' P' K' ys \<Longrightarrow> room c' P' K' m \<Longrightarrow> kept c P c' P' \<Longrightarrow> info_same ki0 ki \<Longrightarrow> outcome p i c' P' K' ki0 ki res \<Longrightarrow>
   searched p i c P m ki0 res"
  by (auto simp: searched_def)

lemma searched_kept: "kept c P c' P' \<Longrightarrow> searched p i c' P' m ki0 res \<Longrightarrow> searched p i c P m ki0 res"
  unfolding searched_def by (blast intro: kept_trans)

lemma unloaded_walk:
  assumes "core_ok c P K xs" "i < length (r_ht c)" "room c P K m" "P i = as @ bs" "length (K i) = length as" "info_ok ki"
    "ki_hash ki = int i" "\<forall>q\<in>set as. skips p c ki (snd q)" "seen c (K i) as ki0 ki"
  shows "searched p i c P m ki0 (unloaded_loop p (first_off bs) c ki)"
  using assms
proof (induction bs arbitrary: as c ki P K xs)
  case Nil
  have "unloaded_loop p (first_off []) c ki = Some (c, ki, E_not_found)" by (subst unloaded_loop.simps) (simp add: first_off_def)
  moreover have "passed p i c P K ki0 ki" using Nil by (simp add: passed_def)
  moreover have "info_same ki0 ki" using Nil.prems(9) by (simp add: seen_def)
  ultimately show ?case using Nil.prems(1,3) by (intro searchedI [OF _ _ kept_refl]) (auto simp: outcome_def)
next
  case (Cons q bs)
  note b = core_okD(4) [OF Cons.prems(1,2)]
  have off: "fst q \<noteq> -1" using bucket_okD(8) [OF b, of q] Cons.prems(4) disk_off by fastforce
  have nl: "length (K i) < length (P i)" using Cons.prems(4,5) by simp
  let ?P = "P(i := as @ narrowed q # bs)"
  have ul: "unloaded P K (length (r_ht c)) = Suc (unloaded ?P (K(i := K i @ [k])) (length (r_ht c)))" for k
    by (rule unloaded_upd) (use Cons.prems(2,4) nl in simp_all)
  have "lc_num (r_cache c) < lc_max (r_cache c)" using Cons.prems(3) ul [of 0] by (simp add: room_def)
  from load_core_ok [OF Cons.prems(1,2) this, of as q bs] Cons.prems(4,5) obtain c1 k ys where l: "load_core c (int i) (fst q) = Some (c1, k)"
    "core_ok c1 ?P (K(i := K i @ [k])) ys" "kept c P c1 ?P"
    "lc_num (r_cache c1) = lc_num (r_cache c) + 1" "lc_max (r_cache c1) = lc_max (r_cache c)"
    by (auto simp: kept_def frame_def narrowed_def)
  have fr: "length (r_ht c1) = length (r_ht c)" "r_kpSize c1 = r_kpSize c" using l(3) by (auto simp: kept_def frame_def)
  have room: "room c1 ?P (K(i := K i @ [k])) m" using Cons.prems(3) ul [of k] l(4,5) fr(1) by (simp add: room_def)
  have step: "unloaded_step p (fst q) c ki = visit_page p k (fst q) c1 ki"
    using unloaded_step_load [of c ki] l(1) Cons.prems(7) by simp
  have b1: "bucket_ok c1 i (as @ narrowed q # bs) (K i @ k # [])" using core_okD(4) [OF l(2), of i] Cons.prems(2) fr(1) by simp
  from bucket_node [OF b1] Cons.prems(5) obtain node where n: "h_kpn (r_heap c1) k = Some node" "kpn_kpoff node = fst q"
    "h_page (r_heap c1) (kpn_kp node) = Some (snd (narrowed q))" "kp_noff (snd (narrowed q)) = first_off bs" "page_ok (snd (narrowed q))"
    by (auto simp: page_good_def narrowed_def)
  have sk: "\<forall>r\<in>set as. skips p c1 ki (snd r)" using Cons.prems(8) skips_cong [OF fr(2) refl] by blast
  show ?case
  proof (cases "skips p c1 ki (snd (narrowed q))")
    case True
    from visit_skip [OF n(1,3,5) Cons.prems(6) True, of "fst q"] n(4) obtain ki1 where v:
      "visit_page p k (fst q) c1 ki = Some (c1, ki1, None, first_off bs)" "info_same ki ki1" "last_seen (r_heap c1) k (fst q) ki1" by auto
    note e = info_sameD [OF v(2)]
    have "unloaded_loop p (first_off (q # bs)) c ki = unloaded_loop p (first_off bs) c1 ki1"
      using off step v(1) by (subst unloaded_loop.simps) (simp add: first_off_def)
    moreover have "searched p i c1 ?P m ki0 (unloaded_loop p (first_off bs) c1 ki1)"
    proof (rule Cons.IH [OF l(2) _ room, of "as @ [narrowed q]"])
      show "\<forall>r\<in>set (as @ [narrowed q]). skips p c1 ki1 (snd r)"
        using sk True skips_cong [OF refl, where ki' = ki1 and ki = ki] e by auto
      show "seen c1 ((K(i := K i @ [k])) i) (as @ [narrowed q]) ki0 ki1"
        using Cons.prems(9) info_same_trans [OF _ v(2)] v(3) by (simp add: seen_def narrowed_def)
    qed (use Cons.prems fr(1) e in simp_all)
    ultimately show ?thesis using searched_kept [OF l(3)] by simp
  next
    case False
    have "stopped p i c1 ?P (K(i := K i @ [k])) ki k (narrowed q)"
      unfolding stopped_def using False sk Cons.prems(5) by (intro exI [of _ as] exI [of _ bs] exI [of _ "K i"] exI [of _ "[]"]) simp
    moreover have "unloaded_loop p (first_off (q # bs)) c ki = Some (c2, ki2, r)"
      if "visit_page p k (fst (narrowed q)) c1 ki = Some (c2, ki2, Some r, off2)" for c2 ki2 r off2
      using off step that by (subst unloaded_loop.simps) (simp add: first_off_def narrowed_def)
    ultimately have "outcome p i c1 ?P (K(i := K i @ [k])) ki0 ki (unloaded_loop p (first_off (q # bs)) c ki)"
      unfolding outcome_def by blast
    moreover have "info_same ki0 ki" using Cons.prems(9) by (simp add: seen_def)
    ultimately show ?thesis by (intro searchedI [OF l(2) room l(3)])
  qed
qed

lemma same_db_kept: "same_db c c' \<Longrightarrow> kept c P c' P"
  by (auto simp: same_db_def kept_def frame_def key_offs_def val_offs_def db_map_def bucket_of_def fun_eq_iff)

lemma same_db_room: "same_db c c' \<Longrightarrow> room c' P K m = room c P K m"
  by (auto simp: same_db_def room_def)

lemma loaded_step_visit:
  assumes "load_node k off c = Some (c1, E_ok)" "visit_page p k off c1 ki = Some (c2, ki2, Some r, off2)" "h_kpn (r_heap c2) k \<noteq> None" "off \<noteq> -1"
  shows "loaded_loop p (Some k) off c ki = Some (c2, ki2, Some r, off2)"
  using assms by (subst loaded_loop.simps) (auto simp: loaded_step_def)

lemma first_stop:
  "(\<forall>x\<in>set xs. Q x) \<or> (\<exists>as y bs. xs = as @ y # bs \<and> (\<forall>x\<in>set as. Q x) \<and> \<not> Q y)"
  using split_list_first_prop [of xs "\<lambda>x. \<not> Q x"] by blast

lemma process_start:
  assumes "bucket_ok c i ps ks" "i < length (r_ht c)" "ki_hash ki = int i"
    "loaded_loop p (first_of ks None) (first_off ps) c ki = Some (c1, ki1, ret, off)"
  shows "processKeyPages p c ki = (case ret of Some r \<Rightarrow> Some (c1, ki1, r) | None \<Rightarrow> unloaded_loop p off c1 ki1)"
proof -
  have "getOffset (r_ht c) (ki_hash ki) = Some (first_off ps)" "getKeyPageNodeList (r_ht c) (ki_hash ki) = Some (first_of ks None)"
    using bucket_okD(1,2) [OF assms(1)] assms(2,3) by (simp_all add: getOffset_def getKeyPageNodeList_def entry_at_def bucket_list_def)
  then show ?thesis using assms(4) by (simp add: processKeyPages_def)
qed

lemma search_passed:
  assumes ok: "core_ok c P K xs" and i: "i < length (r_ht c)" and room: "room c P K m" and ki: "info_ok ki" "ki_hash ki = int i"
    and P: "P i = ps @ rest" "length ps = length (K i)" and all: "\<forall>q\<in>set ps. skips p c ki (snd q)"
  shows "searched p i c P m ki (processKeyPages p c ki)"
proof -
  note b = core_okD(4) [OF ok i]
  from loaded_skip [OF ok i, of "[]" "K i" "[]" "[]" ps rest ki p] P ki(1) all obtain c1 ki1 ys where
    l: "loaded_loop p (first_of (K i) None) (first_off (P i)) c ki = loaded_loop p None (first_off rest) c1 ki1" "same_db c c1"
      "heap_ok (r_cache c1) (r_heap c1) ys" "info_same ki ki1"
      "if K i = [] then ki1 = ki else last_seen (r_heap c1) (last (K i)) (fst (last ps)) ki1"
    by (auto simp: first_of_def)
  have "loaded_loop p None (first_off rest) c1 ki1 = Some (c1, ki1, None, first_off rest)" by (subst loaded_loop.simps) simp
  then have res: "processKeyPages p c ki = unloaded_loop p (first_off rest) c1 ki1"
    using process_start [OF b i ki(2), of p] l(1) by simp
  note ok1 = same_db_ok [OF l(2) ok l(3)]
  note e1 = info_sameD [OF l(4)]
  have "searched p i c1 P m ki (unloaded_loop p (first_off rest) c1 ki1)"
  proof (rule unloaded_walk [OF ok1(1), of i m ps])
    show "\<forall>q\<in>set ps. skips p c1 ki1 (snd q)" using all l(2) e1 skips_cong [of c1 c ki1 ki p] by (simp add: same_db_def)
    show "seen c1 (K i) ps ki ki1" using l(4,5) by (simp add: seen_def split: if_splits)
  qed (use i ki room l(2) e1 P same_db_room [OF l(2)] in \<open>simp_all add: same_db_def\<close>)
  then show ?thesis unfolding res by (rule searched_kept [OF same_db_kept [OF l(2)]])
qed

lemma search_stopped:
  assumes ok: "core_ok c P K xs" and i: "i < length (r_ht c)" and room: "room c P K m" and ki: "info_ok ki" "ki_hash ki = int i"
    and P: "P i = as @ q # bs" "K i = ks @ k # ks'" "length ks = length as"
    and stop: "\<forall>r\<in>set as. skips p c ki (snd r)" "\<not> skips p c ki (snd q)"
  shows "searched p i c P m ki (processKeyPages p c ki)"
proof -
  note b = core_okD(4) [OF ok i]
  from loaded_skip [OF ok i, of "[]" ks "k # ks'" "[]" as "q # bs" ki p] P ki(1) stop(1) obtain c1 ki1 ys where
    l: "loaded_loop p (first_of (K i) None) (first_off (P i)) c ki = loaded_loop p (Some k) (fst q) c1 ki1" "same_db c c1"
      "heap_ok (r_cache c1) (r_heap c1) ys" "info_same ki ki1"
    by (auto simp: first_of_def first_off_def)
  note ok1 = same_db_ok [OF l(2) ok l(3)]
  have b1: "bucket_ok c1 i (as @ q # bs) (ks @ k # ks')" using core_okD(4) [OF ok1(1), of i] i l(2) P by (simp add: same_db_def)
  from bucket_node [OF b1] P(3) obtain node where n: "h_kpn (r_heap c1) k = Some node" "0 \<le> fst q" by auto
  from load_node_ok [OF core_okD(2) [OF ok1(1)] n(1), of "fst q"] obtain c2 zs where
    l2: "load_node k (fst q) c1 = Some (c2, E_ok)" "same_db c1 c2" "heap_ok (r_cache c2) (r_heap c2) zs" by blast
  note ok2 = same_db_ok [OF l2(2) ok1(1) l2(3)]
  have s: "same_db c c2" by (rule same_db_trans [OF l(2) l2(2)])
  have sk: "skips p c2 ki1 kp = skips p c ki kp" for kp
    using s info_sameD [OF l(4)] by (intro skips_cong) (auto simp: same_db_def)
  have "stopped p i c2 P K ki1 k q"
    unfolding stopped_def using P stop sk by (intro exI [of _ as] exI [of _ bs] exI [of _ ks] exI [of _ ks']) simp
  moreover have "processKeyPages p c ki = Some (c3, ki3, r)"
    if "visit_page p k (fst q) c2 ki1 = Some (c3, ki3, Some r, off3)" "h_kpn (r_heap c3) k \<noteq> None" for c3 ki3 r off3
  proof -
    have "loaded_loop p (Some k) (fst q) c1 ki1 = Some (c3, ki3, Some r, off3)"
      by (rule loaded_step_visit [OF l2(1) that]) (use n(2) in simp)
    then show ?thesis using process_start [OF b i ki(2), of p] l(1) by simp
  qed
  ultimately have "outcome p i c2 P K ki ki1 (processKeyPages p c ki)" unfolding outcome_def by blast
  moreover have "room c2 P K m" using room same_db_room [OF s] by simp
  ultimately show ?thesis using searchedI [OF ok2(1) _ same_db_kept [OF s] l(4)] by blast
qed

lemma search:
  assumes ok: "core_ok c P K xs" and i: "i < length (r_ht c)" and room: "room c P K m" and ki: "info_ok ki" "ki_hash ki = int i"
  shows "searched p i c P m ki (processKeyPages p c ki)"
proof -
  have len: "length (K i) \<le> length (P i)" using bucket_okD(5) [OF core_okD(4) [OF ok i]] .
  then obtain ps rest where P: "P i = ps @ rest" "length ps = length (K i)" by (metis append_take_drop_id length_take min.absorb2)
  consider "\<forall>q\<in>set ps. skips p c ki (snd q)"
    | as q bs where "ps = as @ q # bs" "\<forall>r\<in>set as. skips p c ki (snd r)" "\<not> skips p c ki (snd q)"
    using first_stop [of ps "\<lambda>q. skips p c ki (snd q)"] by blast
  then show ?thesis
  proof cases
    case 1
    then show ?thesis by (rule search_passed [OF ok i room ki P])
  next
    case (2 as q bs)
    have "length as < length (K i)" using P(2) 2(1) by simp
    from id_take_nth_drop [OF this] obtain ks k ks' where "K i = ks @ k # ks'" "length ks = length as"
      using \<open>length as < length (K i)\<close> by (metis length_take min.absorb4)
    with 2 P show ?thesis by (intro search_stopped [OF ok i room ki]) auto
  qed
qed

end
