(* ===== verification/Rdb_Get.thy ===== *)
theory Rdb_Get
  imports Rdb_Search
begin

text \<open>
  Lookups: the search with \<open>GET\<close> finds the value offset of the key in the chain of its bucket, and
  \<open>Rdb::get\<close> copies the value of the value page.
\<close>

section \<open>Arguments\<close>

definition key_arg :: "byte list \<Rightarrow> int \<Rightarrow> dbkey \<Rightarrow> bool" where
  "key_arg key klen x \<longleftrightarrow>
     \<not> bad_text (Some key) \<and> 0 < klen \<and> klen \<le> 48 \<and> nat klen \<le> length key \<and> x = DbKey (take (nat klen) key)"

definition fresh_info :: "key_info \<Rightarrow> dbkey \<Rightarrow> nat \<Rightarrow> int \<Rightarrow> bool" where
  "fresh_info ki x i klen \<longleftrightarrow> info_ok ki \<and> info_key ki = x \<and> ki_hash ki = int i \<and> ki_klen ki = klen \<and> ki_voff ki = -1 \<and>
     ki_lkp ki = 0 \<and> ki_lkpoff ki = -1"

lemma bucket_range: "sizes_ok c \<Longrightarrow> bucket_of c x < length (r_ht c)"
  using hash_bounds [of "r_htSize c" "key_bytes x" "int (length (key_bytes x))"] by (simp add: sizes_ok_def bucket_of_def)

lemma start_ok:
  assumes "sizes_ok c" "key_arg key klen x"
  shows "bucket_of c x < length (r_ht c)" "\<exists>ki. start_op c key klen = Some ki \<and> fresh_info ki x (bucket_of c x) klen"
proof -
  have k: "0 < klen" "klen \<le> 48" "nat klen \<le> length key" "x = DbKey (take (nat klen) key)" using assms(2) by (auto simp: key_arg_def)
  have n: "0 < r_htSize c" "r_htSize c < 2 ^ 31" "length (r_ht c) = nat (r_htSize c)" using assms(1) by (auto simp: sizes_ok_def)
  have h: "hash key klen (r_htSize c) = hash (key_bytes x) (int (length (key_bytes x))) (r_htSize c)"
    using k by (simp add: hash_def)
  note r = hash_bounds [OF n(1,2), of key klen]
  show "bucket_of c x < length (r_ht c)" using r n(3) h by (simp add: bucket_of_def)
  show "\<exists>ki. start_op c key klen = Some ki \<and> fresh_info ki x (bucket_of c x) klen"
    using r h k by (auto simp: start_op_def SetKeyInfo_def memcpy_def MAX_KEY_LENGTH_def fresh_info_def info_ok_def info_key_def bucket_of_def Let_def)
qed

section \<open>Lookup\<close>

definition found :: "core \<Rightarrow> key_info \<Rightarrow> key_info \<Rightarrow> int \<Rightarrow> bool" where
  "found c ki ki' v \<longleftrightarrow> found_ok c ki' \<and> ki_voff ki' = v \<and> ki_hash ki' = ki_hash ki"

lemma stopped_node:
  assumes "core_ok c P K xs" "i < length (r_ht c)" "stopped p i c P K ki k q"
  shows "\<exists>node. h_kpn (r_heap c) k = Some node \<and> kpn_kpoff node = fst q \<and> h_page (r_heap c) (kpn_kp node) = Some (snd q) \<and>
    0 \<le> fst q \<and> page_good (cap_of c) i (snd q) \<and> page_on_disk (r_kf c) (fst q) (snd q) \<and> kpn_kp node \<noteq> 0 \<and> q \<in> set (P i) \<and> k \<in> set (K i)"
proof -
  from assms(3) obtain as bs ks ks' where s: "P i = as @ q # bs" "K i = ks @ k # ks'" "length ks = length as" by (auto simp: stopped_def)
  with core_okD(4) [OF assms(1,2)] have b: "bucket_ok c i (as @ q # bs) (ks @ k # ks')" by simp
  from bucket_node [OF b] s(3) heap_ok_page [OF core_okD(2) [OF assms(1)]] s(1,2) show ?thesis by fastforce
qed

lemma value_off:
  assumes "core_ok c P K xs" "i < length (r_ht c)" "q \<in> set (P i)" "kp_map (snd q) x = Some v"
  shows "\<exists>vp. value_good (r_vf c) x v vp" "0 \<le> v" "bucket_of c x = i" "v \<in> val_offs c P"
proof -
  from core_okD(5) [OF assms(1,2)] assms(3,4) show "\<exists>vp. value_good (r_vf c) x v vp" "bucket_of c x = i" unfolding values_ok_def by blast+
  then show "0 \<le> v" by (auto simp: value_good_def value_on_disk_def in_file_def)
  show "v \<in> val_offs c P" using assms(2-4) unfolding val_offs_def by (auto intro!: ranI)
qed

lemma lookup:
  assumes ok: "core_ok c P K xs" and i: "i < length (r_ht c)" and room: "room c P K m" and ki: "info_ok ki" "ki_hash ki = int i"
  shows "\<exists>c' P' K' ys ki' r. processKeyPages GET c ki = Some (c', ki', r) \<and> core_ok c' P' K' ys \<and> room c' P' K' m \<and> kept c P c' P' \<and>
    (case chain_find (P' i) (info_key ki) of
       Some v \<Rightarrow> r = E_ok \<and> found c' ki ki' v
     | None \<Rightarrow> r = E_not_found \<and> passed GET i c' P' K' ki ki')"
proof -
  from search [OF assms, of GET] obtain c' P' K' ys ki1 where s: "core_ok c' P' K' ys" "room c' P' K' m" "kept c P c' P'" "info_same ki ki1"
    "outcome GET i c' P' K' ki ki1 (processKeyPages GET c ki)" unfolding searched_def by blast
  have i': "i < length (r_ht c')" using i s(3) by (simp add: kept_def frame_def)
  note e = info_sameD [OF s(4)]
  from s(5) consider (none) "processKeyPages GET c ki = Some (c', ki1, E_not_found)" "passed GET i c' P' K' ki ki1"
    | (stop) k q where "stopped GET i c' P' K' ki1 k q" "\<forall>c2 ki2 r off2. visit_page GET k (fst q) c' ki1 = Some (c2, ki2, Some r, off2) \<and>
        h_kpn (r_heap c2) k \<noteq> None \<longrightarrow> processKeyPages GET c ki = Some (c2, ki2, r)"
    unfolding outcome_def by blast
  then show ?thesis
  proof cases
    case none
    have "chain_find (P' i) (info_key ki) = None"
      unfolding chain_find_None using none(2) e by (auto simp: passed_def skips_def)
    with none s show ?thesis by (intro exI [of _ c'] exI [of _ P'] exI [of _ K'] exI [of _ ys] exI [of _ ki1] exI [of _ E_not_found]) simp
  next
    case (stop k q)
    from stopped_node [OF s(1) i' stop(1)] obtain node where n: "h_kpn (r_heap c') k = Some node" "kpn_kpoff node = fst q"
      "h_page (r_heap c') (kpn_kp node) = Some (snd q)" "0 \<le> fst q" "page_ok (snd q)" "kpn_kp node \<noteq> 0" "q \<in> set (P' i)"
      by (auto simp: page_good_def)
    from stop(1) e obtain as bs v where q: "P' i = as @ q # bs" "\<forall>r\<in>set as. kp_map (snd r) (info_key ki) = None" "kp_map (snd q) (info_key ki) = Some v"
      by (auto simp: stopped_def skips_def)
    have cf: "chain_find (P' i) (info_key ki) = Some v" using q by (simp add: chain_find_append chain_find_None [THEN iffD2])
    have "info_ok ki1" "kp_map (snd q) (info_key ki1) = Some v" using ki(1) e q(3) by auto
    from visit_get [OF n(1,3,5) this, of "fst q"] obtain ki2 where v: "visit_page GET k (fst q) c' ki1 = Some (c', ki2, Some E_ok, fst q)"
      "found_at k v ki1 ki2" by blast
    have "processKeyPages GET c ki = Some (c', ki2, E_ok)" using stop(2) v(1) n(1) by blast
    moreover have "found c' ki ki2 v"
      using v(2) n value_off(2) [OF s(1) i' n(7) q(3)] e by (auto simp: found_def found_ok_def found_at_def)
    ultimately show ?thesis using s(1-3) cf
      by (intro exI [of _ c'] exI [of _ P'] exI [of _ K'] exI [of _ ys] exI [of _ ki2] exI [of _ E_ok]) simp
  qed
qed

section \<open>Fields the invariant does not read\<close>

lemma opCount_parts [simp]:
  "cap_of (c\<lparr>r_opCount := n\<rparr>) = cap_of c" "bucket_of (c\<lparr>r_opCount := n\<rparr>) = bucket_of c" "key_offs (c\<lparr>r_opCount := n\<rparr>) = key_offs c"
  "val_offs (c\<lparr>r_opCount := n\<rparr>) = val_offs c"
  by (simp_all add: fun_eq_iff cap_of_def bucket_of_def key_offs_def val_offs_def)

lemma core_ok_opCount [simp]: "core_ok (c\<lparr>r_opCount := n\<rparr>) = core_ok c" "db_map (c\<lparr>r_opCount := n\<rparr>) = db_map c"
  "room (c\<lparr>r_opCount := n\<rparr>) = room c"
proof -
  have "files_ok (c\<lparr>r_opCount := n\<rparr>) P = files_ok c P" for P by (simp add: files_ok_def split: option.split)
  then show "core_ok (c\<lparr>r_opCount := n\<rparr>) = core_ok c" by (simp add: fun_eq_iff core_ok_def sizes_ok_def bucket_ok_def values_ok_def)
qed (simp_all add: fun_eq_iff db_map_def room_def)

definition same_data :: "db_file \<Rightarrow> db_file \<Rightarrow> bool" where
  "same_data v v' \<longleftrightarrow> calm (df_file v') \<and> f_data (df_file v') = f_data (df_file v) \<and> df_fdp v' = df_fdp v"

lemma vf_same_data:
  assumes "same_data (r_vf c) v'"
  shows "core_ok c P K xs \<Longrightarrow> core_ok (c\<lparr>r_vf := v'\<rparr>) P K xs" "db_map (c\<lparr>r_vf := v'\<rparr>) = db_map c" "room (c\<lparr>r_vf := v'\<rparr>) = room c"
proof -
  have d: "region (df_file v') = region (df_file (r_vf c))" "in_file (df_file v') = in_file (df_file (r_vf c))"
    using assms by (auto simp: same_data_def region_def in_file_def fun_eq_iff)
  then have g: "value_good v' = value_good (r_vf c)" "value_at v' = value_at (r_vf c)"
    by (simp_all add: fun_eq_iff value_good_def value_on_disk_def value_at_def)
  have b: "bucket_ok (c\<lparr>r_vf := v'\<rparr>) = bucket_ok c" "bucket_of (c\<lparr>r_vf := v'\<rparr>) = bucket_of c" "key_offs (c\<lparr>r_vf := v'\<rparr>) = key_offs c"
    "val_offs (c\<lparr>r_vf := v'\<rparr>) = val_offs c" "cap_of (c\<lparr>r_vf := v'\<rparr>) = cap_of c"
    by (simp_all add: fun_eq_iff bucket_ok_def cap_of_def bucket_of_def key_offs_def val_offs_def)
  show "core_ok (c\<lparr>r_vf := v'\<rparr>) P K xs" if "core_ok c P K xs"
  proof -
    have "files_ok (c\<lparr>r_vf := v'\<rparr>) P" using core_okD(3) [OF that] assms by (simp add: files_ok_def b same_data_def split: option.splits)
    then show ?thesis using that by (simp add: core_ok_def sizes_ok_def values_ok_def b g)
  qed
  show "db_map (c\<lparr>r_vf := v'\<rparr>) = db_map c" by (simp add: fun_eq_iff db_map_def b g)
  show "room (c\<lparr>r_vf := v'\<rparr>) = room c" by (simp add: fun_eq_iff room_def)
qed

section \<open>Get\<close>

text \<open>What the caller of \<open>get\<close> sees: the status, the buffer and its length.\<close>

definition get_answer :: "byte list option \<Rightarrow> byte list \<Rightarrow> int \<Rightarrow> int \<times> byte list option \<times> int option" where
  "get_answer val buf n =
     (case val of
        None \<Rightarrow> (E_not_found, Some buf, Some n)
      | Some v \<Rightarrow>
          if int (length v) > n then (E_insufficient_buffer, Some buf, Some n)
          else (E_ok, Some (v @ drop (length v) buf), Some (int (length v))))"

lemma value_answer:
  assumes "value_good vf x v vp" "key_arg key klen x" "0 < n" "nat n \<le> length buf"
  shows "value_ok key klen vp" "\<exists>r b l. give_value buf n vp = Some (r, b, l) \<and> (r, Some b, Some l) = get_answer (Some (value_at vf v)) buf n"
proof -
  have g: "value_page_fits vp" "vp_flags vp = 0" "vp_klen vp = int (length (key_bytes x))" "take (length (key_bytes x)) (vp_key vp) = key_bytes x"
    "0 \<le> vp_vlen vp" "vp_vlen vp \<le> 192" using assms(1) by (auto simp: value_good_def value_on_disk_def)
  have k: "key_bytes x = take (nat klen) key" "nat klen \<le> length key" "0 < klen" "klen \<le> 48" using assms(2) by (auto simp: key_arg_def)
  have l: "length (vp_key vp) = 48" "length (vp_value vp) = 192" using g(1) by (auto simp: value_page_fits_def)
  have "length (key_bytes x) = nat klen" using k(1,2) by simp
  then have "take (nat klen) (vp_key vp) = take (nat klen) key" using g(4) k(1) by simp
  then have "memcmp key (vp_key vp) klen = Some 0" using k l by (simp add: memcmp_def memcmp_bytes_eq_0)
  then show "value_ok key klen vp" using g(2,3) k by (simp add: value_ok_def IsValuePageDeleted_def)
  have v: "value_at vf v = take (nat (vp_vlen vp)) (vp_value vp)" by (rule value_good_at [OF assms(1)])
  then have lv: "int (length (value_at vf v)) = vp_vlen vp" using g(5,6) l by (auto simp: min_def)
  show "\<exists>r b l. give_value buf n vp = Some (r, b, l) \<and> (r, Some b, Some l) = get_answer (Some (value_at vf v)) buf n"
  proof (cases "vp_vlen vp > n")
    case True
    then show ?thesis using lv by (simp add: give_value_def get_answer_def)
  next
    case False
    then show ?thesis using lv v g(5,6) l assms(4) by (auto simp: give_value_def get_answer_def memcpy_def Let_def)
  qed
qed

lemma get_found:
  assumes "core_ok c P K xs" "found c ki0 ki v" "value_good (r_vf c) x v vp" "key_arg key klen x" "0 < n" "nat n \<le> length buf"
  shows "\<exists>vf bs. vf_read (r_vf c) (ki_voff ki) = (vf, E_ok, bs) \<and> same_data (r_vf c) vf \<and> value_ok key klen (value_page_of bs) \<and>
    (\<exists>r b l. give_value buf n (value_page_of bs) = Some (r, b, l) \<and> (r, Some b, Some l) = get_answer (Some (value_at (r_vf c) v)) buf n)"
proof -
  have "calm (df_file (r_vf c))" using core_okD(3) [OF assms(1)] by (simp add: files_ok_def)
  moreover have "value_on_disk (r_vf c) v vp" using assms(3) by (simp add: value_good_def)
  ultimately obtain vf bs where "vf_read (r_vf c) v = (vf, E_ok, bs)" "value_page_of bs = vp" "same_data (r_vf c) vf"
    using value_on_disk_read unfolding same_data_def by blast
  then show ?thesis using value_answer [OF assms(3-6)] assms(2) by (auto simp: found_def)
qed

lemma get_correct:
  assumes ok: "core_ok c P K xs" and room: "room c P K m" and key: "key_arg key klen x" and n: "0 < n" "nat n \<le> length buf"
  shows "\<exists>c' P' K' ys. rdb_get c (Some key) klen (Some buf) (Some n) = Some (c', get_answer (db_map c P x) buf n) \<and>
    core_ok c' P' K' ys \<and> room c' P' K' m \<and> db_map c' P' = db_map c P \<and>
    df_fdp (r_kf c') = df_fdp (r_kf c) \<and> df_fdp (r_vf c') = df_fdp (r_vf c) \<and> r_kpSize c' = r_kpSize c"
proof -
  let ?i = "bucket_of c x"
  note st = start_ok [OF core_okD(1) [OF ok] key]
  from st(2) obtain ki where ki: "start_op c key klen = Some ki" "fresh_info ki x ?i klen" by blast
  have b: "core_ok (begin_op c) P K xs" "room (begin_op c) P K m" "?i < length (r_ht (begin_op c))"
    using ok room st(1) by (simp_all add: begin_op_def)
  from lookup [OF b(1,3,2), of ki] ki(2) obtain c1 P1 K1 ys ki1 r where l:
    "processKeyPages GET (begin_op c) ki = Some (c1, ki1, r)" "core_ok c1 P1 K1 ys" "room c1 P1 K1 m" "kept (begin_op c) P c1 P1"
    "case chain_find (P1 ?i) x of Some v \<Rightarrow> r = E_ok \<and> found c1 ki ki1 v | None \<Rightarrow> r = E_not_found \<and> passed GET ?i c1 P1 K1 ki ki1"
    by (auto simp: fresh_info_def)
  have f: "db_map c1 P1 = db_map c P" "bucket_of c1 = bucket_of c" "df_fdp (r_kf c1) = df_fdp (r_kf c)" "df_fdp (r_vf c1) = df_fdp (r_vf c)"
    "r_kpSize c1 = r_kpSize c" "length (r_ht c1) = length (r_ht c)"
    using l(4) by (auto simp: kept_def frame_def begin_op_def bucket_of_def fun_eq_iff)
  have M: "db_map c P x = map_option (value_at (r_vf c1)) (chain_find (P1 ?i) x)" using f(1,2) by (metis db_map_def)
  have arg: "\<not> (bad_text (Some key) \<or> klen \<le> 0)" using key by (auto simp: key_arg_def)
  show ?thesis
  proof (cases "chain_find (P1 ?i) x")
    case None
    then have "rdb_get c (Some key) klen (Some buf) (Some n) = Some (end_op c1, get_answer (db_map c P x) buf n)"
      using l(1,5) ki(1) arg n M by (simp add: rdb_get_def get_answer_def E_ok_def E_not_found_def)
    then show ?thesis using l(2,3) f by (intro exI [of _ "end_op c1"] exI [of _ P1] exI [of _ K1] exI [of _ ys]) (simp add: end_op_def)
  next
    case (Some v)
    then have r: "r = E_ok" "found c1 ki ki1 v" using l(5) by auto
    from chain_find_Some [OF Some] obtain q where q: "q \<in> set (P1 ?i)" "kp_map (snd q) x = Some v" by blast
    have "?i < length (r_ht c1)" using st(1) f(6) by simp
    from value_off(1) [OF l(2) this q] obtain vp where "value_good (r_vf c1) x v vp" by blast
    from get_found [OF l(2) r(2) this key n] obtain vf bs rr b0 ll where g: "vf_read (r_vf c1) (ki_voff ki1) = (vf, E_ok, bs)"
      "same_data (r_vf c1) vf" "value_ok key klen (value_page_of bs)" "give_value buf n (value_page_of bs) = Some (rr, b0, ll)"
      "(rr, Some b0, Some ll) = get_answer (Some (value_at (r_vf c1) v)) buf n" by blast
    note s = vf_same_data [OF g(2)]
    have "found_ok c1 ki1" using r(2) by (simp add: found_def)
    then have "rdb_get c (Some key) klen (Some buf) (Some n) = Some (end_op (c1\<lparr>r_vf := vf\<rparr>), get_answer (db_map c P x) buf n)"
      using l(1) r ki(1) arg n g M Some by (simp add: rdb_get_def Let_def)
    then show ?thesis using l(2,3) f s(1) [OF l(2)] s(2,3) g(2)
      by (intro exI [of _ "end_op (c1\<lparr>r_vf := vf\<rparr>)"] exI [of _ P1] exI [of _ K1] exI [of _ ys]) (simp add: end_op_def same_data_def)
  qed
qed

end
