(* ===== verification/Rdb_Values.thy ===== *)
theory Rdb_Values
  imports Rdb_Get
begin

text \<open>
  Value pages: a page that is written over or added changes the value of one key only, since value
  pages are aligned and each names its key.
\<close>

section \<open>Pages of different keys\<close>

lemma value_page_unique:
  assumes "value_good vf x v vp" "value_good vf y v vq"
  shows "x = y"
proof -
  have "value_page_bytes vp = value_page_bytes vq" "value_page_fits vp" "value_page_fits vq"
    using assms by (auto simp: value_good_def value_on_disk_def)
  then have "vp = vq" using value_page_of_bytes by metis
  then have "length (key_bytes x) = length (key_bytes y)" "key_bytes x = key_bytes y" using assms by (auto simp: value_good_def)
  then show ?thesis by (simp add: dbkey.expand)
qed

lemma fdp_live_sub: "fdp_live m L d \<Longrightarrow> L' \<subseteq> L \<Longrightarrow> fdp_live m L' d"
  unfolding fdp_live_def fdp_holds_def fdp_parts_def by blast

lemma fdp_live_aligned: "fdp_live m L d \<Longrightarrow> x \<in> L \<Longrightarrow> fdp_pageSize m dvd x"
  unfolding fdp_live_def fdp_holds_def fdp_parts_def by blast

lemma val_aligned:
  assumes "core_ok c P K xs" "v \<in> val_offs c P"
  shows "256 dvd v"
proof -
  from core_okD(3) [OF assms(1)] obtain m where "fdp_pageSize m = 256" "fdp_live m (val_offs c P) (length (f_data (df_file (r_vf c))))"
    by (auto simp: files_ok_def sizeof_value_page_def split: option.splits)
  then show ?thesis using fdp_live_aligned assms(2) by metis
qed

lemma key_aligned:
  assumes "core_ok c P K xs" "off \<in> key_offs c P"
  shows "r_kpSize c dvd off"
proof -
  from core_okD(3) [OF assms(1)] obtain m where "fdp_pageSize m = r_kpSize c" "fdp_live m (key_offs c P) (length (f_data (df_file (r_kf c))))"
    by (auto simp: files_ok_def split: option.splits)
  then show ?thesis using fdp_live_aligned assms(2) by metis
qed

lemma apart_aligned:
  fixes a b s :: int
  assumes "s dvd a" "s dvd b" "a \<noteq> b" "0 < s"
  shows "a + s \<le> b \<or> b + s \<le> a"
proof -
  from assms(1,2) obtain i j where "a = s * i" "b = s * j" by (auto simp: dvd_def)
  moreover from this assms(3) have "i \<noteq> j" by auto
  moreover have "i + 1 \<le> j \<Longrightarrow> s * i + s \<le> s * j" "j + 1 \<le> i \<Longrightarrow> s * j + s \<le> s * i"
    using assms(4) mult_left_mono [of "i + 1" j s] mult_left_mono [of "j + 1" i s] by (simp_all add: distrib_left)
  ultimately show ?thesis by linarith
qed

lemma value_kept:
  assumes "value_good vf y w vq" "regions_kept (df_file vf) (df_file vf') v 256" "256 dvd v" "256 dvd w" "v \<noteq> w"
  shows "value_good vf' y w vq"
  using assms(1) value_on_disk_kept [OF assms(2), of w vq] apart_aligned [OF assms(3,4,5)] by (auto simp: value_good_def)

section \<open>A value page of the caller\<close>

definition val_arg :: "byte list \<Rightarrow> int \<Rightarrow> byte list \<Rightarrow> bool" where
  "val_arg val vlen b \<longleftrightarrow> \<not> bad_text (Some val) \<and> 0 < vlen \<and> vlen \<le> 192 \<and> nat vlen \<le> length val \<and> b = take (nat vlen) val"

definition page_for :: "value_page \<Rightarrow> dbkey \<Rightarrow> byte list \<Rightarrow> bool" where
  "page_for vp x b \<longleftrightarrow> value_page_fits vp \<and> vp_flags vp = 0 \<and> vp_klen vp = int (length (key_bytes x)) \<and>
     take (length (key_bytes x)) (vp_key vp) = key_bytes x \<and> 0 \<le> vp_vlen vp \<and> vp_vlen vp \<le> 192 \<and> take (nat (vp_vlen vp)) (vp_value vp) = b"

lemma page_for_good: "page_for vp x b \<Longrightarrow> value_on_disk vf v vp \<Longrightarrow> value_good vf x v vp \<and> value_at vf v = b"
  using value_good_at by (auto simp: page_for_def value_good_def)

lemma init_value_page:
  assumes "key_arg key klen x" "val_arg val vlen b"
  shows "\<exists>vp. InitValuePage key klen val vlen = Some vp \<and> page_for vp x b"
  using assms by (auto simp: InitValuePage_def memcpy_def key_arg_def val_arg_def page_for_def value_page_fits_def MAX_KEY_LENGTH_def MAX_VALUE_LENGTH_def)

section \<open>Writing over a value\<close>

lemma rewrite_value:
  assumes ok: "core_ok c P K xs" and i: "bucket_of c x < length (r_ht c)" and f: "chain_find (P (bucket_of c x)) x = Some v" and vp: "page_for vp x b"
  shows "\<exists>vf. vf_write (r_vf c) v vp = (vf, E_ok) \<and> core_ok (c\<lparr>r_vf := vf\<rparr>) P K xs \<and> db_map (c\<lparr>r_vf := vf\<rparr>) P = (db_map c P)(x \<mapsto> b) \<and>
    df_fdp vf = df_fdp (r_vf c)"
proof -
  from chain_find_Some [OF f] obtain q where q: "q \<in> set (P (bucket_of c x))" "kp_map (snd q) x = Some v" by blast
  note o = value_off [OF ok i q]
  from o(1) obtain vq where vq: "value_good (r_vf c) x v vq" by blast
  then have inf: "in_file (df_file (r_vf c)) v 256" by (simp add: value_good_def value_on_disk_def)
  note al = val_aligned [OF ok]
  have "calm (df_file (r_vf c))" using core_okD(3) [OF ok] by (simp add: files_ok_def)
  from vf_write_page [OF this, of vp v] vp inf obtain vf where w: "vf_write (r_vf c) v vp = (vf, E_ok)" "calm (df_file vf)"
    "df_fdp vf = df_fdp (r_vf c)" "value_on_disk vf v vp" "length (f_data (df_file vf)) = length (f_data (df_file (r_vf c)))"
    "regions_kept (df_file (r_vf c)) (df_file vf) v 256"
    by (auto simp: page_for_def in_file_def)
  let ?c = "c\<lparr>r_vf := vf\<rparr>"
  note new = page_for_good [OF vp w(4)]
  have other: "\<exists>vp. value_good vf y w' vp \<and> (y \<noteq> x \<longrightarrow> value_at vf w' = value_at (r_vf c) w')"
    if "j < length (r_ht c)" "r \<in> set (P j)" "kp_map (snd r) y = Some w'" for j r y w'
  proof (cases "w' = v")
    case True
    from value_off(1) [OF ok that] obtain vr where "value_good (r_vf c) y w' vr" by blast
    with vq True have "y = x" using value_page_unique by blast
    then show ?thesis using new True by blast
  next
    case False
    from value_off(1,4) [OF ok that] obtain vr where vr: "value_good (r_vf c) y w' vr" "w' \<in> val_offs c P" by blast
    have g: "value_good vf y w' vr" using value_kept [OF vr(1) w(6) al [OF o(4)] al [OF vr(2)]] False by simp
    then show ?thesis using value_good_at [OF g] value_good_at [OF vr(1)] by auto
  qed
  have b: "bucket_ok ?c = bucket_ok c" "bucket_of ?c = bucket_of c" "key_offs ?c = key_offs c" "val_offs ?c = val_offs c" "cap_of ?c = cap_of c"
    by (simp_all add: fun_eq_iff bucket_ok_def cap_of_def bucket_of_def key_offs_def val_offs_def)
  have "files_ok ?c P" using core_okD(3) [OF ok] w(2,3,5) by (simp add: files_ok_def b split: option.splits)
  moreover have "values_ok ?c j (P j)" if "j < length (r_ht c)" for j
    unfolding values_ok_def using value_off(3) [OF ok that] other [OF that] b(2) by auto
  ultimately have "core_ok ?c P K xs" using ok by (simp add: core_ok_def sizes_ok_def b)
  moreover have "db_map ?c P y = ((db_map c P)(x \<mapsto> b)) y" for y
  proof (cases "y = x")
    case True
    then show ?thesis using f new by (simp add: db_map_def b)
  next
    case False
    show ?thesis
    proof (cases "chain_find (P (bucket_of c y)) y")
      case (Some w')
      from chain_find_Some [OF this] obtain r where r: "r \<in> set (P (bucket_of c y))" "kp_map (snd r) y = Some w'" by blast
      have "bucket_of c y < length (r_ht c)" using core_okD(1) [OF ok] bucket_range by blast
      from other [OF this r] False Some show ?thesis by (auto simp: db_map_def b)
    qed (simp add: db_map_def b False)
  qed
  ultimately show ?thesis using w(1,3) by blast
qed

section \<open>A new value\<close>

lemma new_value:
  assumes ok: "core_ok c P K xs" and vp: "page_for vp x b"
  shows "\<exists>vf v m m'. vf_write_new (r_vf c) off vp = Some (vf, E_ok, v) \<and> core_ok (c\<lparr>r_vf := vf\<rparr>) P K xs \<and>
    db_map (c\<lparr>r_vf := vf\<rparr>) P = db_map c P \<and> value_good vf x v vp \<and> value_at vf v = b \<and>
    df_fdp (r_vf c) = Some m \<and> df_fdp vf = Some m' \<and> fdp_live m' (insert v (val_offs c P)) (length (f_data (df_file vf))) \<and>
    fdp_pageSize m' = 256 \<and> v \<le> free_top m \<and> free_top m' \<le> free_top m + 256"
proof -
  from core_okD(3) [OF ok] obtain m where m: "df_fdp (r_vf c) = Some m" "fdp_pageSize m = 256"
    "fdp_live m (val_offs c P) (length (f_data (df_file (r_vf c))))" and cl: "calm (df_file (r_vf c))"
    by (auto simp: files_ok_def sizeof_value_page_def split: option.splits)
  from fdp_live_get [OF m(3)] m(2) obtain m' v where g: "fdp_get m = Some (m', v)" "0 \<le> v" "v \<le> int (length (f_data (df_file (r_vf c))))"
    "v \<notin> val_offs c P" "256 dvd v" "fdp_pageSize m' = 256"
    "fdp_live m' (insert v (val_offs c P)) (max (length (f_data (df_file (r_vf c)))) (nat (v + 256)))" "v \<le> free_top m" "free_top m' \<le> free_top m + 256"
    by (auto simp: dvd_eq_mod_eq_0)
  let ?v = "(r_vf c)\<lparr>df_fdp := Some m'\<rparr>"
  have "nat v \<le> length (f_data (df_file (r_vf c)))" using g(2,3) by simp
  with vf_write_page [of ?v vp v] cl vp g(2) obtain vf where w: "vf_write ?v v vp = (vf, E_ok)" "calm (df_file vf)"
    "df_fdp vf = Some m'" "value_on_disk vf v vp" "length (f_data (df_file vf)) = max (length (f_data (df_file (r_vf c)))) (nat v + 256)"
    "regions_kept (df_file (r_vf c)) (df_file vf) v 256"
    by (auto simp: page_for_def)
  let ?c = "c\<lparr>r_vf := vf\<rparr>"
  note new = page_for_good [OF vp w(4)]
  have live: "fdp_live m' (insert v (val_offs c P)) (length (f_data (df_file vf)))" using g(7) w(5) g(2) by (simp add: nat_add_distrib)
  have other: "\<exists>vp. value_good vf y w' vp \<and> value_at vf w' = value_at (r_vf c) w'"
    if "j < length (r_ht c)" "r \<in> set (P j)" "kp_map (snd r) y = Some w'" for j r y w'
  proof -
    from value_off(1,4) [OF ok that] obtain vr where vr: "value_good (r_vf c) y w' vr" "w' \<in> val_offs c P" by blast
    have "v \<noteq> w'" using g(4) vr(2) by blast
    then have gd: "value_good vf y w' vr" using value_kept [OF vr(1) w(6) g(5) val_aligned [OF ok vr(2)]] by simp
    then show ?thesis using value_good_at [OF gd] value_good_at [OF vr(1)] by auto
  qed
  have e: "bucket_ok ?c = bucket_ok c" "bucket_of ?c = bucket_of c" "key_offs ?c = key_offs c" "val_offs ?c = val_offs c" "cap_of ?c = cap_of c"
    by (simp_all add: fun_eq_iff bucket_ok_def cap_of_def bucket_of_def key_offs_def val_offs_def)
  have "files_ok ?c P"
    using core_okD(3) [OF ok] w(2,3) g(6) fdp_live_sub [OF live] by (auto simp: files_ok_def e sizeof_value_page_def split: option.splits)
  moreover have "values_ok ?c j (P j)" if "j < length (r_ht c)" for j
    unfolding values_ok_def using value_off(3) [OF ok that] other [OF that] e(2) by auto
  ultimately have "core_ok ?c P K xs" using ok by (simp add: core_ok_def sizes_ok_def e)
  moreover have "db_map ?c P y = db_map c P y" for y
  proof (cases "chain_find (P (bucket_of c y)) y")
    case (Some w')
    from chain_find_Some [OF this] obtain r where r: "r \<in> set (P (bucket_of c y))" "kp_map (snd r) y = Some w'" by blast
    from other [OF bucket_range [OF core_okD(1) [OF ok]] r] Some show ?thesis by (auto simp: db_map_def e)
  qed (simp add: db_map_def e)
  moreover have "vf_write_new (r_vf c) off vp = Some (vf, E_ok, v)" using m(1) g(1,2) w(1) by (simp add: vf_write_new_def)
  ultimately show ?thesis using w(3) new m(1) live g(6,8,9) by (intro exI [of _ vf] exI [of _ v] exI [of _ m] exI [of _ m']) (auto simp: fun_eq_iff)
qed

end
