(* ===== verification/Rdb_Put.thy ===== *)
theory Rdb_Put
  imports Rdb_Values
begin

text \<open>
  A new key goes into the first page of its bucket with room: the page changes in memory and on the
  disk, all other pages and buckets stay as they are.
\<close>

section \<open>Other buckets\<close>

lemma key_off: "i < length (r_ht c) \<Longrightarrow> p \<in> set (P i) \<Longrightarrow> fst p \<in> key_offs c P"
  by (auto simp: key_offs_def)

lemma page_length:
  assumes "core_ok c P K xs" "page_good (cap_of c) i kp"
  shows "int (length (key_page_bytes kp)) = r_kpSize c" "0 < r_kpSize c"
  using core_okD(1) [OF assms(1)] page_good_length [OF assms(2)] by (auto simp: sizes_ok_def)

lemma other_place:
  assumes ok: "core_ok c P K xs" and "i < length (r_ht c)" "j < length (r_ht c)" "i \<noteq> j" "p \<in> set (P i)" "q \<in> set (P j)"
  shows "fst p \<noteq> fst q"
proof
  assume e: "fst p = fst q"
  note p = bucket_okD(7,8) [OF core_okD(4) [OF ok assms(2)] assms(5)] and q = bucket_okD(7,8) [OF core_okD(4) [OF ok assms(3)] assms(6)]
  show False using same_place [OF p(1) q(1) p(2)] q(2) e assms(4) by simp
qed

text \<open>A write inside the page at \<open>off\<close> keeps the pages at other offsets.\<close>

lemma disk_kept:
  assumes ok: "core_ok c P K xs" and j: "j < length (r_ht c)" "q \<in> set (P j)" and off: "r_kpSize c dvd off" "fst q \<noteq> off"
    and w: "regions_kept (df_file (r_kf c)) (df_file kf) p n" "off \<le> p" "p + int n \<le> off + r_kpSize c"
  shows "page_on_disk kf (fst q) (snd q)"
proof -
  note q = bucket_okD(7,8) [OF core_okD(4) [OF ok j(1)] j(2)]
  note l = page_length [OF ok q(1)]
  have "fst q + r_kpSize c \<le> off \<or> off + r_kpSize c \<le> fst q"
    by (rule apart_aligned [OF key_aligned [OF ok key_off [where P = P, OF j]] off(1,2) l(2)])
  then show ?thesis using page_on_disk_kept [OF w(1) q(2)] l(1) w(2,3) by auto
qed

lemma other_bucket:
  assumes ok: "core_ok c P K xs" and ij: "i < length (r_ht c)" "j < length (r_ht c)" "j \<noteq> i"
    and ht: "r_ht c' ! j = r_ht c ! j" "cap_of c' = cap_of c"
    and kpn: "\<And>k node. k \<notin> set (K i) \<Longrightarrow> h_kpn (r_heap c) k = Some node \<Longrightarrow>
      h_kpn (r_heap c') k = Some node \<and> h_page (r_heap c') (kpn_kp node) = h_page (r_heap c) (kpn_kp node)"
    and disk: "\<And>p. p \<in> set (P j) \<Longrightarrow> page_on_disk (r_kf c') (fst p) (snd p)"
  shows "bucket_ok c' j (P j) (K j)"
proof -
  note b = core_okD(4) [OF ok ij(2)]
  have ni: "k \<notin> set (K i)" if "k \<in> set (K j)" for k using nodes_disjoint [OF b core_okD(4) [OF ok ij(1)] ij(3)] that by blast
  show ?thesis
  proof (rule bucket_other [OF b ht(1) _ _ disk ht(2)])
    fix k assume k: "k \<in> set (K j)"
    from bucket_holds [OF b k] obtain node where n: "h_kpn (r_heap c) k = Some node" by (auto simp: node_holds_def)
    then show "h_kpn (r_heap c') k = h_kpn (r_heap c) k" using kpn [OF ni [OF k] n] by simp
    fix node' assume "h_kpn (r_heap c) k = Some node'"
    then show "h_page (r_heap c') (kpn_kp node') = h_page (r_heap c) (kpn_kp node')" using kpn [OF ni [OF k]] by simp
  qed
qed

section \<open>A key in a page\<close>

text \<open>The chain of a bucket with one page replaced by one that has one more key.\<close>

definition with_key :: "key_page \<Rightarrow> key_page \<Rightarrow> dbkey \<Rightarrow> int \<Rightarrow> bool" where
  "with_key kp kp' x v \<longleftrightarrow> page_ok kp' \<and> kp_frame kp' = kp_frame kp \<and> kp_map kp' = (kp_map kp)(x \<mapsto> v)"

lemma with_key_good: "page_good N i kp \<Longrightarrow> with_key kp kp' x v \<Longrightarrow> fits 8 v \<Longrightarrow> page_good N i kp'"
  by (auto simp: page_good_def with_key_def kp_frame_def hdr_fits_def entries_fit_def)

lemma linked_frame: "kp_frame kp' = kp_frame kp \<Longrightarrow> linked_pages prev (as @ (off, kp') # bs) = linked_pages prev (as @ (off, kp) # bs)"
proof (induction as arbitrary: prev)
  case (Cons a as)
  then show ?case by (cases as) (auto simp: first_off_def)
qed (simp add: kp_frame_def)

lemma keys_apart_put:
  assumes "keys_apart (as @ (off, kp) # bs)" "\<forall>q\<in>set (as @ bs). kp_map (snd q) x = None" "kp_map kp' = (kp_map kp)(x \<mapsto> v)"
    "distinct (map fst (as @ (off, kp) # bs))"
  shows "keys_apart (as @ (off, kp') # bs)"
proof -
  let ?qs = "as @ (off, kp) # bs"
  have ap: "dom (kp_map (snd q)) \<inter> dom (kp_map kp) = {}" if "q \<in> set (as @ bs)" for q
  proof -
    have "fst q \<noteq> off" using assms(4) that by auto
    then show ?thesis using assms(1) that unfolding keys_apart_def by fastforce
  qed
  have new: "dom (kp_map (snd q)) \<inter> dom (kp_map kp') = {}" if "q \<in> set (as @ bs)" for q
    using ap [OF that] assms(2,3) that by (auto simp: domIff)
  show ?thesis
    unfolding keys_apart_def
  proof (intro ballI impI)
    fix p q assume p: "p \<in> set (as @ (off, kp') # bs)" and q: "q \<in> set (as @ (off, kp') # bs)" and ne: "fst p \<noteq> fst q"
    consider "p = (off, kp')" "q \<in> set (as @ bs)" | "q = (off, kp')" "p \<in> set (as @ bs)" | "p \<in> set (as @ bs)" "q \<in> set (as @ bs)"
      using p q ne by auto
    then show "dom (kp_map (snd p)) \<inter> dom (kp_map (snd q)) = {}"
    proof cases
      case 3
      then have "p \<in> set ?qs" "q \<in> set ?qs" by auto
      then show ?thesis using assms(1) ne unfolding keys_apart_def by blast
    qed (use new in \<open>auto simp: Int_commute\<close>)
  qed
qed

lemma put_with_key:
  assumes "page_good N i kp" "info_ok ki" "kp_vcount kp < int N"
  shows "\<exists>kp' n krec. KR_put kp ki = Some (kp', n) \<and> 0 \<le> n \<and> key_at kp' n = Some krec \<and> kr_voff krec = ki_voff ki \<and>
    with_key kp kp' (info_key ki) (ki_voff ki)"
proof -
  from assms(1) obtain t where t: "page_rep kp t" "length (kp_keys kp) = N" by (auto simp: page_good_def page_ok_def)
  have "card (dom (kp_map kp)) < N" using card_kp_map [OF t(1)] t assms(3) by (simp add: page_rep_def)
  with put_page [OF t(1) assms(2)] t(2) obtain kp' n where p: "KR_put kp ki = Some (kp', n)" "kp_frame kp' = kp_frame kp" "page_ok kp'"
    "kp_map kp' = (kp_map kp)(info_key ki \<mapsto> ki_voff ki)" "entry kp' n (info_key ki) (ki_voff ki)"
    by (auto simp: spec_step_def page_ok_def)
  from p(5) obtain krec where "key_at kp' n = Some krec" "kr_voff krec = ki_voff ki" by (auto simp: entry_def)
  then show ?thesis using p entry_nonneg [OF p(5)] by (auto simp: with_key_def)
qed

section \<open>Replacing the page of a node\<close>

definition swap :: "core \<Rightarrow> key_page_node \<Rightarrow> key_page \<Rightarrow> db_file \<Rightarrow> core" where
  "swap c node kp kf = c\<lparr>r_heap := set_page (r_heap c) (kpn_kp node) kp, r_kf := kf\<rparr>"

lemma swap_simps [simp]:
  "cap_of (swap c node kp kf) = cap_of c" "bucket_of (swap c node kp kf) = bucket_of c" "r_ht (swap c node kp kf) = r_ht c"
  "r_vf (swap c node kp kf) = r_vf c" "h_kpn (r_heap (swap c node kp kf)) = h_kpn (r_heap c)" "r_cache (swap c node kp kf) = r_cache c"
  "r_kf (swap c node kp kf) = kf" "r_kpSize (swap c node kp kf) = r_kpSize c" "r_htSize (swap c node kp kf) = r_htSize c"
  "h_page (r_heap (swap c node kp kf)) = (h_page (r_heap c))(kpn_kp node \<mapsto> kp)" "r_opCount (swap c node kp kf) = r_opCount c"
  "klinks (r_heap (swap c node kp kf)) = klinks (r_heap c)"
  by (simp_all add: swap_def cap_of_def bucket_of_def set_page_def fun_eq_iff klinks_def)

lemma swap_others:
  assumes "heap_ok (r_cache c) (r_heap c) xs" "h_kpn (r_heap c) k = Some node" "k' \<noteq> k" "h_kpn (r_heap c) k' = Some node'"
  shows "h_page (r_heap (swap c node kp kf)) (kpn_kp node') = h_page (r_heap c) (kpn_kp node')"
  using heap_ok_inj [OF assms(1,4,2)] assms(3) by auto

lemma swap_holds:
  assumes "heap_ok (r_cache c) (r_heap c) xs" "h_kpn (r_heap c) k = Some node" "node_holds (r_heap c) k' p" "k' \<noteq> k"
  shows "node_holds (r_heap (swap c node kp kf)) k' p"
proof -
  from assms(3) obtain node' where n: "h_kpn (r_heap c) k' = Some node'" "kpn_kpoff node' = fst p" "h_page (r_heap c) (kpn_kp node') = Some (snd p)"
    by (auto simp: node_holds_def)
  have "h_page (r_heap (swap c node kp kf)) (kpn_kp node') = Some (snd p)" unfolding swap_others [OF assms(1,2,4) n(1)] by (rule n(3))
  then show ?thesis unfolding node_holds_def swap_simps(5) using n(1,2) by blast
qed

lemma swap_bucket:
  assumes hk: "heap_ok (r_cache c) (r_heap c) xs" and node: "h_kpn (r_heap c) k = Some node"
    and b: "bucket_ok c i (as @ (off, kp) # bs) (ks @ k # ks')" "length ks = length as"
    and new: "kp_frame kp' = kp_frame kp" "keys_apart (as @ (off, kp') # bs)"
    and good: "\<And>q. q \<in> set (as @ (off, kp') # bs) \<Longrightarrow> page_good (cap_of c) i (snd q) \<and> page_on_disk kf (fst q) (snd q)"
  shows "bucket_ok (swap c node kp' kf) i (as @ (off, kp') # bs) (ks @ k # ks')"
proof -
  let ?h' = "r_heap (swap c node kp' kf)"
  have off: "kpn_kpoff node = off" using bucket_node [OF b(1) b(2) [symmetric]] node by auto
  have dk: "distinct (ks @ k # ks')" using bucket_okD(1) [OF b(1)] by (simp add: bucket_list_def)
  have "list_all2 (node_holds (r_heap c)) (ks @ k # ks') (as @ (off, kp) # take (length ks') bs)"
    using bucket_okD(6) [OF b(1)] b(2) by simp
  then have l: "list_all2 (node_holds (r_heap c)) ks as" "list_all2 (node_holds (r_heap c)) ks' (take (length ks') bs)"
    using b(2) by (auto simp: list_all2_append)
  have "list_all2 (node_holds ?h') ks as" by (rule list.rel_mono_strong [OF l(1)]) (use dk in \<open>auto intro: swap_holds [OF hk node]\<close>)
  moreover have "list_all2 (node_holds ?h') ks' (take (length ks') bs)"
    by (rule list.rel_mono_strong [OF l(2)]) (use dk in \<open>auto intro: swap_holds [OF hk node]\<close>)
  moreover have "node_holds ?h' k (off, kp')" using node off by (simp add: node_holds_def)
  ultimately have "list_all2 (node_holds ?h') (ks @ k # ks') (take (length (ks @ k # ks')) (as @ (off, kp') # bs))"
    using b(2) by (simp add: list_all2_append)
  moreover have "first_off (as @ (off, kp') # bs) = first_off (as @ (off, kp) # bs)" by (cases as) (auto simp: first_off_def)
  moreover have "linked_pages (-1) (as @ (off, kp') # bs)" using linked_frame [OF new(1)] bucket_okD(3) [OF b(1)] by simp
  moreover have "bucket_list (r_ht c ! i) ?h' (ks @ k # ks')" using bucket_okD(1) [OF b(1)] by (simp add: bucket_list_def)
  ultimately show ?thesis using bucket_okD(2,4,5) [OF b(1)] new(2) good by (simp add: bucket_ok_def)
qed

lemma UN_insert_at: "i < n \<Longrightarrow> (\<Union>j<n. (if j = i then insert v else id) (F j)) = insert v (\<Union>j<n. F j)"
proof -
  assume i: "i < n"
  have "(\<Union>j<n. (if j = i then insert v else id) (F j)) = (\<Union>j<n. F j \<union> (if j = i then {v} else {}))" by (intro SUP_cong) auto
  also have "\<dots> = (\<Union>j<n. F j) \<union> (\<Union>j<n. if j = i then {v} else {})" by (rule UN_Un_distrib)
  also have "(\<Union>j<n. if j = i then {v} else {}) = {v}" using i by auto
  finally show ?thesis by simp
qed

lemma swap_offs:
  assumes "i < length (r_ht c)" "P i = as @ (off, kp) # bs" "kp_map kp' = (kp_map kp)(x \<mapsto> v)" "kp_map kp x = None"
  shows "key_offs (swap c node kp' kf) (P(i := as @ (off, kp') # bs)) = key_offs c P"
    "val_offs (swap c node kp' kf) (P(i := as @ (off, kp') # bs)) = insert v (val_offs c P)"
proof -
  let ?P = "P(i := as @ (off, kp') # bs)"
  have "fst ` set (?P j) = fst ` set (P j)" for j using assms(2) by (cases "j = i") auto
  then show "key_offs (swap c node kp' kf) ?P = key_offs c P" by (simp only: key_offs_def swap_simps)
  have ran: "ran (kp_map kp') = insert v (ran (kp_map kp))" using assms(3,4) by (simp add: ran_map_upd)
  have "(\<Union>p\<in>set (?P j). ran (kp_map (snd p))) = (if j = i then insert v else id) (\<Union>p\<in>set (P j). ran (kp_map (snd p)))" for j
    using assms(2) ran by (cases "j = i") simp_all
  then have "val_offs (swap c node kp' kf) ?P =
      (\<Union>j<length (r_ht c). (if j = i then insert v else id) (\<Union>p\<in>set (P j). ran (kp_map (snd p))))"
    by (simp only: val_offs_def swap_simps)
  also have "\<dots> = insert v (val_offs c P)" using UN_insert_at [OF assms(1)] by (simp add: val_offs_def)
  finally show "val_offs (swap c node kp' kf) ?P = insert v (val_offs c P)" .
qed

lemma swap_values:
  assumes ok: "core_ok c P K xs" and i: "i < length (r_ht c)" and P: "P i = as @ (off, kp) # bs"
    and new: "kp_map kp' = (kp_map kp)(x \<mapsto> v)" "bucket_of c x = i" "value_good (r_vf c) x v vp"
  shows "values_ok (swap c node kp' kf) i (as @ (off, kp') # bs)"
  unfolding values_ok_def swap_simps
proof (intro ballI allI impI)
  fix q y w assume q: "q \<in> set (as @ (off, kp') # bs)" "kp_map (snd q) y = Some w"
  show "bucket_of c y = i \<and> (\<exists>vp. value_good (r_vf c) y w vp)"
  proof (cases "q \<in> set (P i)")
    case True
    from value_off [OF ok i True q(2)] show ?thesis by auto
  next
    case False
    then have qe: "q = (off, kp')" using q(1) P by auto
    show ?thesis
    proof (cases "y = x")
      case True
      with qe q(2) new show ?thesis by auto
    next
      case False
      with qe q(2) new(1) have "kp_map (snd (off, kp)) y = Some w" by simp
      from value_off [OF ok i _ this] P show ?thesis by auto
    qed
  qed
qed

lemma replace_page:
  assumes ok: "core_ok c P K xs" and i: "i < length (r_ht c)"
    and P: "P i = as @ (off, kp) # bs" "K i = ks @ k # ks'" "length ks = length as"
    and node: "h_kpn (r_heap c) k = Some node"
    and new: "with_key kp kp' x v" "fits 8 v" "\<forall>q\<in>set (P i). kp_map (snd q) x = None" "bucket_of c x = i" "value_good (r_vf c) x v vp"
    and vf: "df_fdp (r_vf c) = Some m'" "fdp_live m' (insert v (val_offs c P)) (length (f_data (df_file (r_vf c))))"
    and w: "calm (df_file kf)" "df_fdp kf = df_fdp (r_kf c)" "page_on_disk kf off kp'"
      "length (f_data (df_file kf)) = length (f_data (df_file (r_kf c)))" "regions_kept (df_file (r_kf c)) (df_file kf) off n" "int n = r_kpSize c"
  shows "core_ok (swap c node kp' kf) (P(i := as @ (off, kp') # bs)) K xs"
    "db_map (swap c node kp' kf) (P(i := as @ (off, kp') # bs)) = (db_map c P)(x \<mapsto> value_at (r_vf c) v)"
proof -
  let ?P = "P(i := as @ (off, kp') # bs)" and ?c = "swap c node kp' kf"
  note b = core_okD(4) [OF ok i, unfolded P(1,2)]
  note hk = core_okD(2) [OF ok]
  have kp: "kp_map kp' = (kp_map kp)(x \<mapsto> v)" "kp_frame kp' = kp_frame kp" "kp_map kp x = None" using new(1,3) P(1) by (auto simp: with_key_def)
  have al: "r_kpSize c dvd off" using key_aligned [OF ok key_off [of i c "(off, kp)"]] i P(1) by simp
  have good: "page_good (cap_of c) i kp'" using with_key_good [OF _ new(1,2)] bucket_okD(7) [OF b, of "(off, kp)"] by simp
  have place: "page_on_disk kf (fst q) (snd q)" if "j < length (r_ht c)" "q \<in> set (P j)" "fst q \<noteq> off" for j q
    using disk_kept [OF ok that(1,2) al that(3) w(5)] w(6) by simp
  have dis: "distinct (map fst (as @ (off, kp) # bs))" using bucket_okD(4) [OF b] .
  have gd: "page_good (cap_of c) i (snd q) \<and> page_on_disk kf (fst q) (snd q)" if "q \<in> set (as @ (off, kp') # bs)" for q
  proof (cases "q = (off, kp')")
    case True
    then show ?thesis using good w(3) by simp
  next
    case False
    then have "q \<in> set (as @ bs)" using that by auto
    then have "fst q \<noteq> off" "q \<in> set (P i)" using dis P(1) by auto
    then show ?thesis using place [OF i] bucket_okD(7) [OF b, of q] P(1) by simp
  qed
  have ap: "keys_apart (as @ (off, kp') # bs)"
    by (rule keys_apart_put [OF bucket_okD(9) [OF b] _ kp(1) dis]) (use new(3) P(1) in simp)
  have bj: "bucket_ok ?c j (P j) (K j)" if j: "j < length (r_ht c)" "j \<noteq> i" for j
  proof (rule other_bucket [OF ok i j])
    fix k' node' assume k': "k' \<notin> set (K i)" "h_kpn (r_heap c) k' = Some node'"
    then have "k' \<noteq> k" using P(2) by auto
    from swap_others [OF hk node this k'(2)] k'(2)
    show "h_kpn (r_heap ?c) k' = Some node' \<and> h_page (r_heap ?c) (kpn_kp node') = h_page (r_heap c) (kpn_kp node')" by simp
  next
    fix p assume p: "p \<in> set (P j)"
    have "(off, kp) \<in> set (P i)" using P(1) by simp
    from other_place [OF ok j(1) i j(2) p this] show "page_on_disk (r_kf ?c) (fst p) (snd p)" using place [OF j(1) p] by simp
  qed simp_all
  note offs = swap_offs [where P = P and node = node and kf = kf, OF i P(1) kp(1,3)]
  show "core_ok ?c ?P K xs"
    unfolding core_ok_def
  proof (intro conjI allI impI)
    show "sizes_ok ?c" using core_okD(1) [OF ok] by (simp add: sizes_ok_def)
    show "heap_ok (r_cache ?c) (r_heap ?c) xs" using hk heap_ok_page_upd by (simp add: swap_def)
    show "files_ok ?c ?P" using core_okD(3) [OF ok] w(1,2,4) vf unfolding files_ok_def offs swap_simps by (auto split: option.splits)
    fix j assume "j < length (r_ht ?c)"
    then have j: "j < length (r_ht c)" by simp
    then show "bucket_ok ?c j (?P j) (K j)" using swap_bucket [OF hk node b P(3) kp(2) ap gd] bj P(2) by auto
    show "values_ok ?c j (?P j)"
    proof (cases "j = i")
      case True
      then show ?thesis using swap_values [where P = P, OF ok i P(1) kp(1) new(4,5)] by simp
    next
      case False
      then show ?thesis using core_okD(5) [OF ok j] by (simp add: values_ok_def)
    qed
  qed
  have "chain_find as x = None" using new(3) P(1) by (simp add: chain_find_None)
  then have "chain_find (as @ (off, kp') # bs) y = (if y = x then Some v else chain_find (as @ (off, kp) # bs) y)" for y
    using kp(1) by (auto simp: chain_find_append split: option.splits)
  then show "db_map ?c ?P = (db_map c P)(x \<mapsto> value_at (r_vf c) v)" using new(4) P(1) by (auto simp: db_map_def fun_eq_iff)
qed

text \<open>The visit of the page at which the search of an insertion stops.\<close>

lemma stopped_put:
  assumes ok: "core_ok c P K xs" and i: "i < length (r_ht c)" and st: "stopped SET i c P K ki k q"
    and ki: "info_ok ki" "info_key ki = x" "ki_voff ki = v"
    and new: "fits 8 v" "chain_find (P i) x = None" "bucket_of c x = i" "value_good (r_vf c) x v vp"
    and vf: "df_fdp (r_vf c) = Some m'" "fdp_live m' (insert v (val_offs c P)) (length (f_data (df_file (r_vf c))))"
    and room: "room c P K m"
  shows "\<exists>c' ki' P'. visit_page SET k (fst q) c ki = Some (c', ki', Some E_ok, fst q) \<and> h_kpn (r_heap c') k \<noteq> None \<and>
    core_ok c' P' K xs \<and> room c' P' K m \<and> db_map c' P' = (db_map c P)(x \<mapsto> value_at (r_vf c) v) \<and> frame c c'"
proof -
  from stopped_node [OF ok i st] obtain node where n: "h_kpn (r_heap c) k = Some node" "h_page (r_heap c) (kpn_kp node) = Some (snd q)"
    "0 \<le> fst q" "page_good (cap_of c) i (snd q)" "page_on_disk (r_kf c) (fst q) (snd q)" "q \<in> set (P i)" by blast
  from st obtain as bs ks ks' where s: "P i = as @ q # bs" "K i = ks @ k # ks'" "length ks = length as" "\<not> skips SET c ki (snd q)"
    by (auto simp: stopped_def)
  have N: "int (cap_of c) = NUM_OF_KEYS_IN_PAGE (r_kpSize c)" using core_okD(1) [OF ok] by (simp add: sizes_ok_def cap_of_def)
  have "kp_vcount (snd q) < int (cap_of c)" using s(4) N by (simp add: skips_def)
  from put_with_key [OF n(4) ki(1) this] ki(2,3) obtain kp' j krec where p: "KR_put (snd q) ki = Some (kp', j)" "0 \<le> j"
    "key_at kp' j = Some krec" "kr_voff krec = v" "with_key (snd q) kp' x v" by auto
  have good: "page_good (cap_of c) i kp'" by (rule with_key_good [OF n(4) p(5) new(1)])
  note len = page_length [OF ok good] and len0 = page_length [OF ok n(4)]
  have calm: "calm (df_file (r_kf c))" using core_okD(3) [OF ok] by (simp add: files_ok_def)
  have inf: "nat (fst q) + length (key_page_bytes kp') \<le> length (f_data (df_file (r_kf c)))"
    using n(5) len(1) len0(1) by (simp add: page_on_disk_def in_file_def)
  from kf_write_page [OF calm page_good_48 [OF good] n(3), of "r_kpSize c"] len(1) inf obtain kf where w:
    "kf_write (r_kf c) (fst q) (key_page_bytes kp') (r_kpSize c) = (kf, E_ok)" "calm (df_file kf)" "df_fdp kf = df_fdp (r_kf c)"
    "page_on_disk kf (fst q) kp'" "length (f_data (df_file kf)) = length (f_data (df_file (r_kf c)))"
    "regions_kept (df_file (r_kf c)) (df_file kf) (fst q) (length (key_page_bytes kp'))" by auto
  let ?c = "swap c node kp' kf" and ?P = "P(i := as @ (fst q, kp') # bs)"
  have none: "\<forall>q\<in>set (P i). kp_map (snd q) x = None" using new(2) by (simp add: chain_find_None)
  have Pi: "P i = as @ (fst q, snd q) # bs" using s(1) by simp
  note r = replace_page [OF ok i Pi s(2,3) n(1) p(5) new(1) none new(3,4) vf w(2-6) len(1)]
  have "visit_page SET k (fst q) c ki = Some (?c, ki\<lparr>ki_kidx := j, ki_kpn := Some k, ki_voff := v\<rparr>, Some E_ok, fst q)"
    using n(1,2) s(4) p(1-4) w(1) by (simp add: visit_page_def skips_def write_page_def swap_def)
  moreover have "room ?c ?P K m"
  proof -
    have "length (?P j) = length (P j)" for j using s(1) by simp
    then have "unloaded ?P K = unloaded P K" by (simp add: unloaded_def fun_eq_iff)
    then show ?thesis using room by (simp add: room_def)
  qed
  moreover have "frame c ?c" using w(3) by (simp add: frame_def)
  ultimately show ?thesis using r n(1) by (intro exI [of _ ?c] exI exI [of _ ?P]) auto
qed

end
