(* ===== verification/Rdb_New.thy ===== *)
theory Rdb_New
  imports Rdb_Put
begin

text \<open>
  A new page at the end of a bucket: it is written at a free offset, the page before it is linked to it
  in memory and on the disk, and its node goes to the end of the list of the bucket.
\<close>

section \<open>Headers of pages\<close>

lemma key_at_header [simp]: "key_at (kp\<lparr>kp_noff := a\<rparr>) = key_at kp" "key_at (kp\<lparr>kp_poff := a\<rparr>) = key_at kp" "key_at (kp\<lparr>kp_hash := n\<rparr>) = key_at kp"
  by (simp_all add: fun_eq_iff key_at_def)

lemma tree_at_keys_cong: "key_at kp' = key_at kp \<Longrightarrow> tree_at kp' r t = tree_at kp r t"
proof (induction t arbitrary: r)
  case (Node lt i rt)
  from Node.prems have "key_at kp' i = key_at kp i" by simp
  then show ?case using Node.IH(1) [OF Node.prems] Node.IH(2) [OF Node.prems] by (simp split: option.split)
qed simp

lemma page_rep_cong:
  assumes "kp_keys kp' = kp_keys kp" "kp_root kp' = kp_root kp" "kp_vcount kp' = kp_vcount kp"
  shows "page_rep kp' t = page_rep kp t" "kp_map kp' = kp_map kp"
proof -
  have k: "key_at kp' = key_at kp" using assms(1) by (simp add: fun_eq_iff key_at_def)
  then have "key_of kp' = key_of kp" "slot_used kp' = slot_used kp" by (simp_all add: fun_eq_iff key_of_def slot_used_def)
  moreover have "recs_ok kp' = recs_ok kp" using assms(1) by (simp add: recs_ok_def)
  ultimately show "page_rep kp' t = page_rep kp t" using assms tree_at_keys_cong [OF k] by (simp add: page_rep_def)
  show "kp_map kp' = kp_map kp" using assms(1) by (simp add: kp_map_def)
qed

lemma page_good_noff: "page_good N i kp \<Longrightarrow> fits 8 a \<Longrightarrow> page_good N i (kp\<lparr>kp_noff := a\<rparr>) \<and> kp_map (kp\<lparr>kp_noff := a\<rparr>) = kp_map kp"
  using page_rep_cong [of "kp\<lparr>kp_noff := a\<rparr>" kp] by (simp add: page_good_def page_ok_def hdr_fits_def entries_fit_def)

lemma new_page_good:
  assumes "sizes_ok c" "int i < 2 ^ 31" "fits 8 poff"
  shows "page_good (cap_of c) i ((InitKeyPage (r_kpSize c))\<lparr>kp_hash := int i, kp_poff := poff\<rparr>)" (is "page_good _ _ ?kp")
    "kp_map ((InitKeyPage (r_kpSize c))\<lparr>kp_hash := int i, kp_poff := poff\<rparr>) = Map.empty"
proof -
  have n: "NUM_OF_KEYS_IN_PAGE (r_kpSize c) \<le> 127" using assms(1) by (simp add: sizes_ok_def cap_of_def nat_le_iff)
  note c = page_rep_cong [of ?kp "InitKeyPage (r_kpSize c)"]
  show m: "kp_map ?kp = Map.empty" using c(2) by simp
  have "page_ok ?kp" using InitKeyPage_ok [OF n] c(1) by (simp add: page_ok_def)
  then show "page_good (cap_of c) i ?kp"
    using assms(2,3) m by (simp add: page_good_def hdr_fits_def entries_fit_def cap_of_def InitKeyPage_def) (simp add: fits_def)
qed

section \<open>The end of a chain\<close>

definition relast :: "int \<Rightarrow> (int \<times> key_page) list \<Rightarrow> (int \<times> key_page) list" where
  "relast a ps = (if ps = [] then [] else butlast ps @ [(fst (last ps), (snd (last ps))\<lparr>kp_noff := a\<rparr>)])"

lemma relast_simps [simp]: "relast a [] = []" "relast a (ps @ [p]) = ps @ [(fst p, (snd p)\<lparr>kp_noff := a\<rparr>)]"
  by (simp_all add: relast_def)

lemma relast_fst [simp]: "map fst (relast a ps) = map fst ps" "fst ` set (relast a ps) = fst ` set ps" "length (relast a ps) = length ps"
  "relast a ps = [] \<longleftrightarrow> ps = []"
  by (cases ps rule: rev_cases; simp add: image_Un)+

lemma relast_first_off: "first_off (relast a ps @ qs) = first_off (ps @ qs)"
proof (cases ps)
  case (Cons p ps')
  then show ?thesis by (cases ps' rule: rev_cases) (auto simp: relast_def first_off_def)
qed simp

lemma linked_relast:
  assumes "linked_pages prev ps" "kp_poff kp = (if ps = [] then prev else fst (last ps))" "kp_noff kp = -1"
  shows "linked_pages prev (relast a ps @ [(a, kp)])"
  using assms
proof (induction ps arbitrary: prev)
  case Nil
  then show ?case by (simp add: first_off_def)
next
  case (Cons p ps)
  show ?case
  proof (cases ps rule: rev_cases)
    case Nil
    then show ?thesis using Cons.prems by (simp add: relast_def first_off_def)
  next
    case (snoc qs q)
    then have r: "relast a (p # ps) = p # relast a ps" by (simp add: relast_def)
    have "linked_pages (fst p) (relast a ps @ [(a, kp)])" using Cons.IH [of "fst p"] Cons.prems snoc by simp
    moreover have "first_off (relast a ps @ [(a, kp)]) = first_off ps" using relast_first_off [of a ps] snoc by (cases qs) (simp_all add: first_off_def)
    ultimately show ?thesis using Cons.prems(1) r by simp
  qed
qed

lemma chain_find_relast: "chain_find (relast a ps) x = chain_find ps x"
proof (cases ps rule: rev_cases)
  case (snoc qs q)
  then show ?thesis using page_rep_cong(2) [of "(snd q)\<lparr>kp_noff := a\<rparr>" "snd q"] by (simp add: chain_find_append split: option.splits)
qed simp

lemma relast_pages:
  assumes "p \<in> set (relast a ps)"
  shows "\<exists>q\<in>set ps. fst q = fst p \<and> kp_map (snd q) = kp_map (snd p)"
proof (cases ps rule: rev_cases)
  case (snoc qs q)
  then show ?thesis using assms page_rep_cong(2) [of "(snd q)\<lparr>kp_noff := a\<rparr>" "snd q"] by auto
qed (use assms in simp)

lemma relast_ran: "(\<Union>p\<in>set (relast a ps). ran (kp_map (snd p))) = (\<Union>p\<in>set ps. ran (kp_map (snd p)))"
proof (cases ps rule: rev_cases)
  case (snoc qs q)
  then show ?thesis using page_rep_cong(2) [of "(snd q)\<lparr>kp_noff := a\<rparr>" "snd q"] by simp
qed simp

lemma keys_apart_relast:
  assumes "keys_apart ps" "\<forall>q\<in>set ps. kp_map (snd q) x = None" "kp_map kp = [x \<mapsto> v]"
  shows "keys_apart (relast a ps @ [(b, kp)])"
  unfolding keys_apart_def
proof (intro ballI impI)
  fix p q assume p: "p \<in> set (relast a ps @ [(b, kp)])" and q: "q \<in> set (relast a ps @ [(b, kp)])" and ne: "fst p \<noteq> fst q"
  have none: "kp_map (snd r) x = None" if "r \<in> set (relast a ps)" for r using relast_pages [OF that] assms(2) by auto
  consider "p \<in> set (relast a ps)" "q \<in> set (relast a ps)" | "p = (b, kp)" "q \<in> set (relast a ps)" | "q = (b, kp)" "p \<in> set (relast a ps)"
    using p q ne by auto
  then show "dom (kp_map (snd p)) \<inter> dom (kp_map (snd q)) = {}"
  proof cases
    case 1
    from relast_pages [OF 1(1)] obtain p' where p': "p' \<in> set ps" "fst p' = fst p" "kp_map (snd p') = kp_map (snd p)" by blast
    from relast_pages [OF 1(2)] obtain q' where q': "q' \<in> set ps" "fst q' = fst q" "kp_map (snd q') = kp_map (snd q)" by blast
    have "dom (kp_map (snd p')) \<inter> dom (kp_map (snd q')) = {}" using assms(1) p' q' ne unfolding keys_apart_def by metis
    then show ?thesis using p'(3) q'(3) by simp
  qed (use none [of p] none [of q] assms(3) in auto)
qed

section \<open>The new page on the disk\<close>

lemma page_apart_kept:
  assumes "page_on_disk kf q kq" "int (length (key_page_bytes kq)) = s" "s dvd q" "s dvd off" "q \<noteq> off" "0 < s"
    "regions_kept (df_file kf) (df_file kf') p n" "off \<le> p" "p + int n \<le> off + s"
  shows "page_on_disk kf' q kq"
  using page_on_disk_kept [OF assms(7,1)] apart_aligned [OF assms(3-6)] assms(2,8,9) by auto

lemma fdp_live_below: "fdp_live m L d \<Longrightarrow> x \<in> L \<Longrightarrow> 0 \<le> x \<and> x < free_top m"
proof -
  assume l: "fdp_live m L d" and x: "x \<in> L"
  then obtain fr hw where "nextFreeOffset m = fr @ [hw]" "0 \<le> x" "x < hw"
    unfolding fdp_live_def fdp_holds_def fdp_parts_def by blast
  moreover from this have "hw \<le> free_top m" by (simp add: free_top_def)
  ultimately show ?thesis by simp
qed

lemma key_fdp:
  assumes "core_ok c P K xs"
  shows "\<exists>m. df_fdp (r_kf c) = Some m \<and> fdp_pageSize m = r_kpSize c \<and> fdp_live m (key_offs c P) (length (f_data (df_file (r_kf c)))) \<and> calm (df_file (r_kf c))"
  using core_okD(3) [OF assms] by (auto simp: files_ok_def split: option.splits)

lemma new_page_disk:
  assumes ok: "core_ok c P K xs" and good: "page_good (cap_of c) i kp" and m: "df_fdp (r_kf c) = Some m"
  shows "\<exists>kf off m1. kf_write_new (r_kf c) o0 (key_page_bytes kp) (r_kpSize c) = Some (kf, E_ok, off) \<and> calm (df_file kf) \<and> df_fdp kf = Some m1 \<and>
    fdp_pageSize m1 = r_kpSize c \<and> fdp_live m1 (insert off (key_offs c P)) (length (f_data (df_file kf))) \<and> page_on_disk kf off kp \<and>
    (\<forall>j<length (r_ht c). \<forall>q\<in>set (P j). page_on_disk kf (fst q) (snd q)) \<and> 0 \<le> off \<and> off \<notin> key_offs c P \<and> r_kpSize c dvd off \<and>
    off \<le> free_top m \<and> free_top m1 \<le> free_top m + r_kpSize c"
proof -
  note len = page_length [OF ok good]
  from key_fdp [OF ok] m have f: "fdp_pageSize m = r_kpSize c" "fdp_live m (key_offs c P) (length (f_data (df_file (r_kf c))))" "calm (df_file (r_kf c))"
    by auto
  from fdp_live_get [OF f(2)] f(1) obtain m1 off where g: "fdp_get m = Some (m1, off)" "0 \<le> off" "off \<le> int (length (f_data (df_file (r_kf c))))"
    "off \<notin> key_offs c P" "r_kpSize c dvd off" "fdp_pageSize m1 = r_kpSize c"
    "fdp_live m1 (insert off (key_offs c P)) (max (length (f_data (df_file (r_kf c)))) (nat (off + r_kpSize c)))"
    "off \<le> free_top m" "free_top m1 \<le> free_top m + r_kpSize c" by (auto simp: dvd_eq_mod_eq_0)
  let ?k = "(r_kf c)\<lparr>df_fdp := Some m1\<rparr>"
  have "nat off \<le> length (f_data (df_file ?k))" "calm (df_file ?k)" using g(2,3) f(3) by simp_all
  from kf_write_page [OF this(2) page_good_48 [OF good] g(2) this(1), of "r_kpSize c"] len(1) obtain kf where w:
    "kf_write ?k off (key_page_bytes kp) (r_kpSize c) = (kf, E_ok)" "calm (df_file kf)" "df_fdp kf = Some m1" "page_on_disk kf off kp"
    "length (f_data (df_file kf)) = max (length (f_data (df_file (r_kf c)))) (nat off + length (key_page_bytes kp))"
    "regions_kept (df_file (r_kf c)) (df_file kf) off (length (key_page_bytes kp))" by auto
  have "nat (off + r_kpSize c) = nat off + length (key_page_bytes kp)" using g(2) len by (simp add: nat_add_distrib flip: len(1))
  then have "fdp_live m1 (insert off (key_offs c P)) (length (f_data (df_file kf)))" using g(7) w(5) by simp
  moreover have "page_on_disk kf (fst q) (snd q)" if "j < length (r_ht c)" "q \<in> set (P j)" for j q
    using disk_kept [OF ok that g(5) _ w(6)] key_off [where P = P, OF that] g(4) len(1) by auto
  moreover have "kf_write_new (r_kf c) o0 (key_page_bytes kp) (r_kpSize c) = Some (kf, E_ok, off)"
    using m g(1,2) w(1) by (simp add: kf_write_new_def)
  ultimately show ?thesis using w g by (intro exI [of _ kf] exI [of _ off] exI [of _ m1]) blast
qed

text \<open>Linking the last page to it.\<close>

lemma link_disk:
  assumes ok: "core_ok c P K xs" and i: "i < length (r_ht c)" and last: "P i = ps @ [(lo, kl)]"
    and kf: "calm (df_file kf)" "\<forall>j<length (r_ht c). \<forall>q\<in>set (P j). page_on_disk kf (fst q) (snd q)"
    and new: "page_on_disk kf off kp" "page_good (cap_of c) i kp" "off \<notin> key_offs c P" "r_kpSize c dvd off"
  shows "\<exists>kf2. kf_writeNextOffset kf lo (Some kl) off = (kf2, Some (kl\<lparr>kp_noff := off\<rparr>), E_ok) \<and> calm (df_file kf2) \<and> df_fdp kf2 = df_fdp kf \<and>
    length (f_data (df_file kf2)) = length (f_data (df_file kf)) \<and> page_on_disk kf2 off kp \<and>
    (\<forall>q\<in>set (relast off (P i)). page_on_disk kf2 (fst q) (snd q)) \<and>
    (\<forall>j<length (r_ht c). j \<noteq> i \<longrightarrow> (\<forall>q\<in>set (P j). page_on_disk kf2 (fst q) (snd q)))"
proof -
  have l: "(lo, kl) \<in> set (P i)" using last by simp
  have "page_on_disk kf lo kl" using kf(2) i l by fastforce
  from kf_fields(1) [OF kf(1) this, of "Some kl" off] obtain kf2 where w: "kf_writeNextOffset kf lo (Some kl) off = (kf2, Some (kl\<lparr>kp_noff := off\<rparr>), E_ok)"
    "calm (df_file kf2)" "df_fdp kf2 = df_fdp kf" "page_on_disk kf2 lo (kl\<lparr>kp_noff := off\<rparr>)"
    "length (f_data (df_file kf2)) = length (f_data (df_file kf))" "regions_kept (df_file kf) (df_file kf2) (lo + 24) 8" by auto
  have al: "r_kpSize c dvd lo" "lo \<in> key_offs c P" using key_aligned [OF ok] key_off [where P = P, OF i l] by auto
  have s: "64 < r_kpSize c" using core_okD(1) [OF ok] by (simp add: sizes_ok_def)
  have keep: "page_on_disk kf2 q kq" if "page_on_disk kf q kq" "int (length (key_page_bytes kq)) = r_kpSize c" "r_kpSize c dvd q" "q \<noteq> lo" for q kq
    by (rule page_apart_kept [OF that(1-3) al(1) that(4) _ w(6)]) (use s in auto)
  have pages: "page_on_disk kf2 (fst q) (snd q)" if "j < length (r_ht c)" "q \<in> set (P j)" "fst q \<noteq> lo" for j q
  proof (rule keep)
    show "page_on_disk kf (fst q) (snd q)" using kf(2) that by blast
    show "int (length (key_page_bytes (snd q))) = r_kpSize c"
      using page_length(1) [OF ok bucket_okD(7) [OF core_okD(4) [OF ok that(1)] that(2)]] core_okD(1) [OF ok]
        page_good_length [OF bucket_okD(7) [OF core_okD(4) [OF ok that(1)] that(2)]] by (simp add: sizes_ok_def)
  qed (use key_aligned [OF ok key_off [where P = P, OF that(1,2)]] that(3) in auto)
  have "off \<noteq> lo" using new(3) al(2) by blast
  then have "page_on_disk kf2 off kp" using keep [OF new(1) page_length(1) [OF ok new(2)] new(4)] by simp
  moreover have "page_on_disk kf2 (fst q) (snd q)" if "q \<in> set (relast off (P i))" for q
  proof (cases "q = (lo, kl\<lparr>kp_noff := off\<rparr>)")
    case False
    then have "q \<in> set ps" using that last by auto
    moreover have "distinct (map fst (P i))" by (rule bucket_okD(4) [OF core_okD(4) [OF ok i]])
    ultimately show ?thesis using pages [OF i, of q] last by auto
  qed (use w(4) in simp)
  moreover have "page_on_disk kf2 (fst q) (snd q)" if "j < length (r_ht c)" "j \<noteq> i" "q \<in> set (P j)" for j q
    using pages [OF that(1,3)] other_place [OF ok that(1) i that(2,3) l] by simp
  ultimately show ?thesis using w by blast
qed

end
