(* ===== verification/Rdb_Grow.thy ===== *)
theory Rdb_Grow
  imports Rdb_New
begin

text \<open>The state after \<open>addNewPage\<close>: a bucket with one more page and one more node.\<close>

section \<open>Memory\<close>

definition grown_heap ::
  "core \<Rightarrow> (int \<times> key_page) list \<Rightarrow> nat list \<Rightarrow> heap \<Rightarrow> nat \<Rightarrow> int \<Rightarrow> int \<Rightarrow> nat \<Rightarrow> key_page \<Rightarrow> bool" where
  "grown_heap c ps ks h k a off cn kp \<longleftrightarrow>
     h_kpn (r_heap c) k = None \<and> h_kpn h = (h_kpn (r_heap c))(k \<mapsto> new_node a off cn) \<and> h_page h a = Some kp \<and>
     (\<forall>k' n. h_kpn (r_heap c) k' = Some n \<longrightarrow>
        h_page h (kpn_kp n) = (if ks \<noteq> [] \<and> k' = last ks then Some ((snd (last ps))\<lparr>kp_noff := off\<rparr>) else h_page (r_heap c) (kpn_kp n)))"

lemma relinked_holds:
  assumes "relinked_nodes h h2" "node_holds h k p"
  shows "node_holds h2 k p"
proof -
  from assms(2) obtain n where n: "h_kpn h k = Some n" "kpn_kpoff n = fst p" "h_page h (kpn_kp n) = Some (snd p)" by (auto simp: node_holds_def)
  have "map_option kp_data (h_kpn h2 k) = Some (kp_data n)" "h_page h2 = h_page h" using assms(1) n(1) by (auto simp: relinked_nodes_def)
  then obtain n' where "h_kpn h2 k = Some n'" "kp_data n' = kp_data n" by auto
  then show ?thesis using n(2,3) \<open>h_page h2 = h_page h\<close> by (auto simp: node_holds_def kp_data_def)
qed

lemma grown_holds:
  assumes "grown_heap c ps ks h k a off cn kp"
  shows "node_holds h k (off, kp)"
    "node_holds (r_heap c) k' p \<Longrightarrow> \<not> (ks \<noteq> [] \<and> k' = last ks) \<Longrightarrow> node_holds h k' p"
    "ks \<noteq> [] \<Longrightarrow> node_holds (r_heap c) (last ks) (last ps) \<Longrightarrow> node_holds h (last ks) (fst (last ps), (snd (last ps))\<lparr>kp_noff := off\<rparr>)"
proof -
  have g: "h_kpn (r_heap c) k = None" "h_kpn h = (h_kpn (r_heap c))(k \<mapsto> new_node a off cn)" "h_page h a = Some kp"
    "\<And>k' n. h_kpn (r_heap c) k' = Some n \<Longrightarrow>
       h_page h (kpn_kp n) = (if ks \<noteq> [] \<and> k' = last ks then Some ((snd (last ps))\<lparr>kp_noff := off\<rparr>) else h_page (r_heap c) (kpn_kp n))"
    using assms unfolding grown_heap_def by blast+
  show "node_holds h k (off, kp)" using g(2,3) by (simp add: node_holds_def new_node_def)
  show "node_holds h k' p" if h: "node_holds (r_heap c) k' p" and l: "\<not> (ks \<noteq> [] \<and> k' = last ks)"
  proof -
    from h obtain n where n: "h_kpn (r_heap c) k' = Some n" "kpn_kpoff n = fst p" "h_page (r_heap c) (kpn_kp n) = Some (snd p)" by (auto simp: node_holds_def)
    have "k' \<noteq> k" using n(1) g(1) by auto
    then show ?thesis using n g(2) g(4) [OF n(1)] l by (auto simp: node_holds_def)
  qed
  show "node_holds h (last ks) (fst (last ps), (snd (last ps))\<lparr>kp_noff := off\<rparr>)" if ne: "ks \<noteq> []" and h: "node_holds (r_heap c) (last ks) (last ps)"
  proof -
    from h obtain n where n: "h_kpn (r_heap c) (last ks) = Some n" "kpn_kpoff n = fst (last ps)" by (auto simp: node_holds_def)
    have "last ks \<noteq> k" using n(1) g(1) by auto
    then show ?thesis using n g(2) g(4) [OF n(1)] ne by (auto simp: node_holds_def)
  qed
qed

lemma grown_nodes:
  assumes g: "grown_heap c ps ks h k a off cn kp" and r: "relinked_nodes h h2" and d: "distinct ks" and l: "list_all2 (node_holds (r_heap c)) ks ps"
  shows "list_all2 (node_holds h2) (ks @ [k]) (relast off ps @ [(off, kp)])"
proof -
  have len: "length ks = length ps" using l by (rule list_all2_lengthD)
  have "list_all2 (node_holds h2) ks (relast off ps)"
  proof (cases ks rule: rev_cases)
    case (snoc ks' q)
    with len obtain ps' p where ps: "ps = ps' @ [p]" by (cases ps rule: rev_cases) auto
    have l2: "list_all2 (node_holds (r_heap c)) ks' ps'" "node_holds (r_heap c) q p" using l snoc ps len by (auto simp: list_all2_append)
    have "list_all2 (node_holds h2) ks' ps'"
    proof (rule list.rel_mono_strong [OF l2(1)])
      fix k' p' assume "k' \<in> set ks'" "p' \<in> set ps'" "node_holds (r_heap c) k' p'"
      moreover from this have "k' \<noteq> last ks" using d snoc by auto
      ultimately show "node_holds h2 k' p'" using grown_holds(2) [OF g] relinked_holds [OF r] by blast
    qed
    moreover have "node_holds h2 q (fst p, (snd p)\<lparr>kp_noff := off\<rparr>)"
      using grown_holds(3) [OF g] relinked_holds [OF r] l2(2) snoc ps by simp
    ultimately show ?thesis using snoc ps len by (simp add: list_all2_append)
  qed (use len in simp)
  moreover have "node_holds h2 k (off, kp)" using grown_holds(1) [OF g] relinked_holds [OF r] by blast
  ultimately show ?thesis using len by (simp add: list_all2_append)
qed

section \<open>The bucket\<close>

lemma grown_bucket:
  assumes b: "bucket_ok c i ps ks" "length ks = length ps"
    and g: "grown_heap c ps ks h k a off cn kp" and r: "relinked_nodes h h2" "bucket_list e' h2 (ks @ [k])"
      "he_offset e' = (if ks = [] then off else he_offset (r_ht c ! i))"
    and c': "r_ht c' ! i = e'" "r_heap c' = h2" "cap_of c' = cap_of c"
    and kp: "page_good (cap_of c) i kp" "kp_map kp = [x \<mapsto> v]" "kp_poff kp = (if ps = [] then -1 else fst (last ps))" "kp_noff kp = -1"
    and x: "\<forall>q\<in>set ps. kp_map (snd q) x = None" and off: "off \<notin> fst ` set ps" "fits 8 off"
    and disk: "page_on_disk (r_kf c') off kp" "\<forall>q\<in>set (relast off ps). page_on_disk (r_kf c') (fst q) (snd q)"
  shows "bucket_ok c' i (relast off ps @ [(off, kp)]) (ks @ [k])"
proof -
  have d: "distinct ks" using bucket_okD(1) [OF b(1)] by (simp add: bucket_list_def)
  have "list_all2 (node_holds (r_heap c)) ks ps" using bucket_okD(6) [OF b(1)] b(2) by simp
  from grown_nodes [OF g r(1) d this]
  have "list_all2 (node_holds h2) (ks @ [k]) (take (length (ks @ [k])) (relast off ps @ [(off, kp)]))" using b(2) by simp
  moreover have "he_offset e' = first_off (relast off ps @ [(off, kp)])"
    using r(3) bucket_okD(2) [OF b(1)] b(2) relast_first_off [of off ps] by (cases ps) (auto simp: first_off_def)
  moreover have "linked_pages (-1) (relast off ps @ [(off, kp)])" by (rule linked_relast [OF bucket_okD(3) [OF b(1)] kp(3,4)])
  moreover have "distinct (map fst (relast off ps @ [(off, kp)]))" using bucket_okD(4) [OF b(1)] off(1) by simp
  moreover have "keys_apart (relast off ps @ [(off, kp)])" by (rule keys_apart_relast [OF bucket_okD(9) [OF b(1)] x kp(2)])
  moreover have "page_good (cap_of c) i (snd q)" if "q \<in> set (relast off ps)" for q
  proof (cases ps rule: rev_cases)
    case (snoc qs p)
    with that show ?thesis
      using bucket_okD(7) [OF b(1), of p] bucket_okD(7) [OF b(1), of q] page_good_noff [OF _ off(2), of "cap_of c" i "snd p"] by auto
  qed (use that in simp)
  ultimately show ?thesis using r(2) c' kp(1) disk b(2) by (auto simp: bucket_ok_def)
qed

section \<open>The database\<close>

lemma grown_offs:
  assumes "i < length (r_ht c)" "length (r_ht c') = length (r_ht c)" "kp_map kp = [x \<mapsto> v]"
  shows "key_offs c' (P(i := relast off (P i) @ [(off, kp)])) = insert off (key_offs c P)"
    "val_offs c' (P(i := relast off (P i) @ [(off, kp)])) = insert v (val_offs c P)"
proof -
  let ?P = "P(i := relast off (P i) @ [(off, kp)])"
  have "fst ` set (?P j) = (if j = i then insert off else id) (fst ` set (P j))" for j by (simp add: image_Un)
  then have "key_offs c' ?P = (\<Union>j<length (r_ht c). (if j = i then insert off else id) (fst ` set (P j)))" by (simp only: key_offs_def assms(2))
  then show "key_offs c' ?P = insert off (key_offs c P)" using UN_insert_at [OF assms(1)] by (simp add: key_offs_def)
  have "(\<Union>p\<in>set (?P j). ran (kp_map (snd p))) = (if j = i then insert v else id) (\<Union>p\<in>set (P j). ran (kp_map (snd p)))" for j
    using relast_ran [of off "P i"] assms(3) by simp
  then have "val_offs c' ?P = (\<Union>j<length (r_ht c). (if j = i then insert v else id) (\<Union>p\<in>set (P j). ran (kp_map (snd p))))"
    by (simp only: val_offs_def assms(2))
  then show "val_offs c' ?P = insert v (val_offs c P)" using UN_insert_at [OF assms(1)] by (simp add: val_offs_def)
qed

lemma grown_values:
  assumes ok: "core_ok c P K xs" and i: "i < length (r_ht c)" and c': "bucket_of c' = bucket_of c" "r_vf c' = r_vf c"
    and kp: "kp_map kp = [x \<mapsto> v]" "bucket_of c x = i" "value_good (r_vf c) x v vp"
  shows "values_ok c' i (relast off (P i) @ [(off, kp)])"
  unfolding values_ok_def c'
proof (intro ballI allI impI)
  fix q y w assume q: "q \<in> set (relast off (P i) @ [(off, kp)])" "kp_map (snd q) y = Some w"
  show "bucket_of c y = i \<and> (\<exists>vp. value_good (r_vf c) y w vp)"
  proof (cases "q \<in> set (relast off (P i))")
    case True
    from relast_pages [OF this] q(2) obtain p where p: "p \<in> set (P i)" "kp_map (snd p) y = Some w" by auto
    from value_off [OF ok i p] show ?thesis by auto
  next
    case False
    then have "q = (off, kp)" using q(1) by auto
    then show ?thesis using q(2) kp by (auto split: if_splits)
  qed
qed

lemma grown:
  assumes ok: "core_ok c P K xs" and i: "i < length (r_ht c)" and len: "length (K i) = length (P i)"
    and hp: "heap_ok ca h ys" "grown_heap c (P i) (K i) h k a off cn kp" and r: "relinked_nodes h h2" "bucket_list e' h2 (K i @ [k])"
      "he_offset e' = (if K i = [] then off else he_offset (r_ht c ! i))" "\<forall>q. q \<notin> set (K i @ [k]) \<longrightarrow> h_kpn h2 q = h_kpn h q"
    and kp: "page_good (cap_of c) i kp" "kp_map kp = [x \<mapsto> v]" "kp_poff kp = (if P i = [] then -1 else fst (last (P i)))" "kp_noff kp = -1"
    and x: "chain_find (P i) x = None" "bucket_of c x = i" "value_good (r_vf c) x v vp" and off: "off \<notin> key_offs c P" "fits 8 off"
    and disk: "page_on_disk kf off kp" "\<forall>q\<in>set (relast off (P i)). page_on_disk kf (fst q) (snd q)"
      "\<forall>j<length (r_ht c). j \<noteq> i \<longrightarrow> (\<forall>q\<in>set (P j). page_on_disk kf (fst q) (snd q))"
    and kf: "calm (df_file kf)" "df_fdp kf = Some m1" "fdp_pageSize m1 = r_kpSize c" "fdp_live m1 (insert off (key_offs c P)) (length (f_data (df_file kf)))"
    and vf: "df_fdp (r_vf c) = Some m'" "fdp_live m' (insert v (val_offs c P)) (length (f_data (df_file (r_vf c))))"
    and ca: "lc_kpSize ca = lc_kpSize (r_cache c)"
    and c': "c' = c\<lparr>r_ht := (r_ht c)[i := e'], r_kf := kf, r_cache := ca, r_heap := h2\<rparr>"
  shows "core_ok c' (P(i := relast off (P i) @ [(off, kp)])) (K(i := K i @ [k])) ys"
    "db_map c' (P(i := relast off (P i) @ [(off, kp)])) = (db_map c P)(x \<mapsto> value_at (r_vf c) v)"
proof -
  let ?P = "P(i := relast off (P i) @ [(off, kp)])" and ?K = "K(i := K i @ [k])"
  have e: "cap_of c' = cap_of c" "bucket_of c' = bucket_of c" "r_vf c' = r_vf c" "length (r_ht c') = length (r_ht c)" "r_ht c' ! i = e'"
    "\<And>j. j \<noteq> i \<Longrightarrow> r_ht c' ! j = r_ht c ! j" "r_heap c' = h2" "r_kf c' = kf" "r_cache c' = ca" "r_kpSize c' = r_kpSize c" "r_htSize c' = r_htSize c"
    using i by (auto simp: c' cap_of_def bucket_of_def fun_eq_iff)
  note b = core_okD(4) [OF ok i]
  have none: "\<forall>q\<in>set (P i). kp_map (snd q) x = None" using x(1) by (simp add: chain_find_None)
  have "off \<notin> fst ` set (P i)" using off(1) i by (auto simp: key_offs_def)
  from grown_bucket [OF b len hp(2) r(1-3) e(5,7,1) kp none this off(2)] disk(1,2) e(8)
  have bi: "bucket_ok c' i (relast off (P i) @ [(off, kp)]) (K i @ [k])" by simp
  have g: "h_kpn (r_heap c) k = None" "h_kpn h = (h_kpn (r_heap c))(k \<mapsto> new_node a off cn)"
    "\<And>k' n. h_kpn (r_heap c) k' = Some n \<Longrightarrow> k' \<notin> set (K i) \<Longrightarrow> h_page h (kpn_kp n) = h_page (r_heap c) (kpn_kp n)"
    using hp(2) unfolding grown_heap_def by (blast, blast, metis last_in_set)
  have pg: "h_page h2 = h_page h" using r(1) by (simp add: relinked_nodes_def)
  have bj: "bucket_ok c' j (P j) (K j)" if j: "j < length (r_ht c)" "j \<noteq> i" for j
  proof (rule other_bucket [OF ok i j e(6) [OF j(2)] e(1)])
    fix k' n assume k': "k' \<notin> set (K i)" "h_kpn (r_heap c) k' = Some n"
    then have "k' \<noteq> k" using g(1) by auto
    then show "h_kpn (r_heap c') k' = Some n \<and> h_page (r_heap c') (kpn_kp n) = h_page (r_heap c) (kpn_kp n)"
      using k' spec [OF r(4), of k'] g(2) g(3) [OF k'(2,1)] pg e(7) by simp
  qed (use disk(3) j e(8) in simp)
  note offs = grown_offs [OF i e(4) kp(2)]
  show "core_ok c' ?P ?K ys"
    unfolding core_ok_def
  proof (intro conjI allI impI)
    show "sizes_ok c'" using core_okD(1) [OF ok] ca by (simp add: sizes_ok_def e)
    show "heap_ok (r_cache c') (r_heap c') ys" using heap_ok_nodes [OF hp(1) r(1)] e by simp
    show "files_ok c' ?P" using core_okD(3) [OF ok] kf vf unfolding files_ok_def offs e by (auto split: option.splits)
    fix j assume "j < length (r_ht c')"
    then have j: "j < length (r_ht c)" by (simp add: e)
    then show "bucket_ok c' j (?P j) (?K j)" using bi bj by auto
    show "values_ok c' j (?P j)"
    proof (cases "j = i")
      case True
      then show ?thesis using grown_values [OF ok i e(2,3) kp(2) x(2,3)] by simp
    next
      case False
      then show ?thesis using core_okD(5) [OF ok j] by (simp add: values_ok_def e)
    qed
  qed
  have "chain_find (relast off (P i) @ [(off, kp)]) y = (if y = x then Some v else chain_find (P i) y)" for y
    using x(1) kp(2) by (auto simp: chain_find_append chain_find_relast split: option.splits)
  then show "db_map c' ?P = (db_map c P)(x \<mapsto> value_at (r_vf c) v)" using x(2) by (auto simp: db_map_def e fun_eq_iff)
qed

section \<open>The code\<close>

lemma add_node:
  assumes ok: "core_ok c P K xs" and i: "i < length (r_ht c)" and g: "grown_heap c (P i) (K i) h k a off cn kp"
  shows "\<exists>e' h2. addKeyPageNode (r_ht c) h (int i) k = Some ((r_ht c)[i := e'], h2) \<and> relinked_nodes h h2 \<and> bucket_list e' h2 (K i @ [k]) \<and>
    he_offset e' = (if K i = [] then off else he_offset (r_ht c ! i)) \<and> (\<forall>q. q \<notin> set (K i @ [k]) \<longrightarrow> h_kpn h2 q = h_kpn h q)"
proof -
  note b = core_okD(4) [OF ok i]
  have h: "h_kpn (r_heap c) k = None" "h_kpn h = (h_kpn (r_heap c))(k \<mapsto> new_node a off cn)" using g unfolding grown_heap_def by blast+
  have k: "k \<notin> set (K i)" using bucket_holds [OF b, of k] h(1) by (auto simp: node_holds_def)
  have "dseg (klinks h) None (K i) None = dseg (klinks (r_heap c)) None (K i) None"
    by (rule dseg_cong) (use k h(2) in \<open>auto simp: klinks_def\<close>)
  then have "bucket_list (r_ht c ! i) h (K i)" using bucket_okD(1) [OF b] by (simp add: bucket_list_def)
  moreover have "entry_at (r_ht c) (int i) = Some (r_ht c ! i)" using i by (simp add: entry_at_def)
  moreover have "h_kpn h k = Some (new_node a off cn)" using h(2) by simp
  ultimately show ?thesis using bucket_add [of "r_ht c" "int i" "r_ht c ! i" h "K i" k] k by (fastforce simp: new_node_def)
qed

lemma room_grown:
  assumes "room c P K (Suc m)" "i < length (r_ht c)" "length (r_ht c') = length (r_ht c)" "lc_num (r_cache c') = lc_num (r_cache c) + 1"
    "lc_max (r_cache c') = lc_max (r_cache c)" "length ps = Suc (length (P i))" "length ks = Suc (length (K i))"
  shows "room c' (P(i := ps)) (K(i := ks)) m"
proof -
  have "length ((P(i := ps)) j) - length ((K(i := ks)) j) = length (P j) - length (K j)" for j using assms(6,7) by simp
  then have "unloaded (P(i := ps)) (K(i := ks)) = unloaded P K" by (simp add: unloaded_def fun_eq_iff)
  then show ?thesis using assms by (simp add: room_def)
qed

text \<open>The new page: its record, its place in the pool and on the disk.\<close>

definition last_page :: "core \<Rightarrow> (int \<times> key_page) list \<Rightarrow> nat list \<Rightarrow> key_info \<Rightarrow> bool" where
  "last_page c ps ks ki \<longleftrightarrow>
     (if ks = [] then ki_lkp ki = 0 \<and> ki_lkpoff ki = -1 else last_seen (r_heap c) (last ks) (fst (last ps)) ki)"

lemma last_page_off:
  assumes ok: "core_ok c P K xs" and i: "i < length (r_ht c)" and len: "length (K i) = length (P i)" and lp: "last_page c (P i) (K i) ki"
    and m: "df_fdp (r_kf c) = Some mk" "free_top mk < 2 ^ 63"
  shows "ki_lkpoff ki = (if P i = [] then -1 else fst (last (P i)))" "fits 8 (ki_lkpoff ki)"
proof -
  show o: "ki_lkpoff ki = (if P i = [] then -1 else fst (last (P i)))"
    using lp len by (auto simp: last_page_def last_seen_def split: if_splits)
  show "fits 8 (ki_lkpoff ki)"
  proof (cases "P i = []")
    case False
    then have "fst (last (P i)) \<in> key_offs c P" using key_off [OF i, of "last (P i)" P] by simp
    with key_fdp [OF ok] m(1) have "0 \<le> fst (last (P i))" "fst (last (P i)) < free_top mk" using fdp_live_below by auto
    then show ?thesis using m(2) o False by (simp add: fits_def)
  qed (simp add: o fits_def)
qed

lemma link_step:
  assumes ok: "core_ok c P K xs" and i: "i < length (r_ht c)" and len: "length (K i) = length (P i)" and lp: "last_page c (P i) (K i) ki"
    and h: "h_kpn (r_heap c) k = None" "h_kpn hC = (h_kpn (r_heap c))(k \<mapsto> new_node a off cn)" "h_page hC = (h_page (r_heap c))(a \<mapsto> kp)"
      "a \<notin> pages_of (r_heap c)"
    and kf: "calm (df_file kf)" "\<forall>j<length (r_ht c). \<forall>q\<in>set (P j). page_on_disk kf (fst q) (snd q)"
    and new: "page_on_disk kf off kp" "page_good (cap_of c) i kp" "off \<notin> key_offs c P" "r_kpSize c dvd off"
    and c1: "r_kf c1 = kf" "r_heap c1 = hC"
  shows "\<exists>kf2 hA stk'. link_last c1 ki off stk = (c1\<lparr>r_kf := kf2, r_heap := hA\<rparr>, stk', E_ok) \<and> grown_heap c (P i) (K i) hA k a off cn kp \<and>
    (\<forall>ca xs. heap_ok ca hA xs = heap_ok ca hC xs) \<and> calm (df_file kf2) \<and> df_fdp kf2 = df_fdp kf \<and>
    length (f_data (df_file kf2)) = length (f_data (df_file kf)) \<and> page_on_disk kf2 off kp \<and>
    (\<forall>q\<in>set (relast off (P i)). page_on_disk kf2 (fst q) (snd q)) \<and>
    (\<forall>j<length (r_ht c). j \<noteq> i \<longrightarrow> (\<forall>q\<in>set (P j). page_on_disk kf2 (fst q) (snd q)))"
proof (cases "P i" rule: rev_cases)
  case Nil
  then have "ki_lkp ki = 0" "K i = []" using lp len by (auto simp: last_page_def)
  then have "link_last c1 ki off stk = (c1\<lparr>r_kf := kf, r_heap := hC\<rparr>, stk, E_ok)" using c1 by (simp add: link_last_def)
  moreover have "grown_heap c (P i) (K i) hC k a off cn kp"
  proof -
    have "h_page hC (kpn_kp n) = h_page (r_heap c) (kpn_kp n)" if "h_kpn (r_heap c) k' = Some n" for k' n
      using heap_ok_page [OF core_okD(2) [OF ok] that] h(3,4) by auto
    then show ?thesis using h(1-3) \<open>K i = []\<close> by (simp add: grown_heap_def)
  qed
  ultimately show ?thesis using kf new(1) Nil by (intro exI [of _ kf] exI [of _ hC] exI [of _ stk]) auto
next
  case (snoc ps p)
  obtain lo kl where p: "p = (lo, kl)" by (cases p)
  from len snoc obtain ks kq where K: "K i = ks @ [kq]" by (cases "K i" rule: rev_cases) auto
  have b: "bucket_ok c i (ps @ p # []) (ks @ kq # [])" using core_okD(4) [OF ok i] snoc K by simp
  from bucket_node [OF b] len snoc K p obtain nl where n: "h_kpn (r_heap c) kq = Some nl" "kpn_kpoff nl = lo" "h_page (r_heap c) (kpn_kp nl) = Some kl" "0 \<le> lo"
    by auto
  note np = heap_ok_page [OF core_okD(2) [OF ok] n(1)]
  have lk: "ki_lkp ki = kpn_kp nl" "ki_lkpoff ki = lo" using lp K snoc p n(1) by (auto simp: last_page_def last_seen_def)
  have ptr: "page_ptr hC (ki_lkp ki) = Some kl" using np h(3,4) n(3) lk(1) by (auto simp: page_ptr_def)
  have Pi: "P i = ps @ [(lo, kl)]" using snoc p by simp
  from link_disk [where P = P, OF ok i Pi kf new] obtain kf2 where w: "kf_writeNextOffset kf lo (Some kl) off = (kf2, Some (kl\<lparr>kp_noff := off\<rparr>), E_ok)"
    "calm (df_file kf2)" "df_fdp kf2 = df_fdp kf" "length (f_data (df_file kf2)) = length (f_data (df_file kf))" "page_on_disk kf2 off kp"
    "\<forall>q\<in>set (relast off (P i)). page_on_disk kf2 (fst q) (snd q)"
    "\<forall>j<length (r_ht c). j \<noteq> i \<longrightarrow> (\<forall>q\<in>set (P j). page_on_disk kf2 (fst q) (snd q))" by blast
  let ?hA = "set_page hC (ki_lkp ki) (kl\<lparr>kp_noff := off\<rparr>)"
  have "\<exists>stk'. link_last c1 ki off stk = (c1\<lparr>r_kf := kf2, r_heap := ?hA\<rparr>, stk', E_ok)"
    using c1 np lk n(4) ptr w(1) by (simp add: link_last_def put_page_ptr_def)
  moreover have "grown_heap c (P i) (K i) ?hA k a off cn kp"
  proof -
    have "h_page ?hA (kpn_kp n') = (if k' = kq then Some (kl\<lparr>kp_noff := off\<rparr>) else h_page (r_heap c) (kpn_kp n'))" if n': "h_kpn (r_heap c) k' = Some n'" for k' n'
      using heap_ok_inj [OF core_okD(2) [OF ok] n' n(1)] heap_ok_page [OF core_okD(2) [OF ok] n'] h(3,4) lk(1) n' n(1) by (auto simp: set_page_def)
    moreover have "h_page ?hA a = Some kp" using h(3,4) np lk(1) by (auto simp: set_page_def)
    ultimately show ?thesis using h(1,2) K Pi by (simp add: grown_heap_def set_page_def)
  qed
  moreover have "heap_ok ca ?hA xs = heap_ok ca hC xs" for ca xs by (rule heap_ok_page_upd)
  ultimately show ?thesis using w by blast
qed

lemma new_record:
  assumes ok: "core_ok c P K xs" and i: "i < length (r_ht c)" and len: "length (K i) = length (P i)" and lp: "last_page c (P i) (K i) ki"
    and m: "df_fdp (r_kf c) = Some mk" "free_top mk < 2 ^ 63"
    and ki: "info_ok ki" "ki_hash ki = int i" "info_key ki = x" "ki_voff ki = v" "fits 8 v" and c1: "r_kpSize c1 = r_kpSize c"
  shows "\<exists>kp j. KR_put (new_key_page c1 ki) ki = Some (kp, j) \<and> 0 \<le> j \<and> page_good (cap_of c) i kp \<and> kp_map kp = [x \<mapsto> v] \<and>
    kp_poff kp = (if P i = [] then -1 else fst (last (P i))) \<and> kp_noff kp = -1"
proof -
  let ?kp = "(InitKeyPage (r_kpSize c))\<lparr>kp_hash := int i, kp_poff := ki_lkpoff ki\<rparr>"
  note lo = last_page_off [OF ok i len lp m]
  have sz: "sizes_ok c" by (rule core_okD(1) [OF ok])
  have "int i < r_htSize c" "r_htSize c < 2 ^ 31" using i sz by (auto simp: sizes_ok_def)
  then have "int i < 2 ^ 31" by linarith
  note g = new_page_good [OF sz this lo(2)]
  have "kp_vcount ?kp < int (cap_of c)" using sz by (simp add: sizes_ok_def InitKeyPage_def)
  from put_with_key [OF g(1) ki(1) this] ki(3,4) obtain kp j where p: "KR_put ?kp ki = Some (kp, j)" "0 \<le> j" "with_key ?kp kp x v" by auto
  have "page_good (cap_of c) i kp" by (rule with_key_good [OF g(1) p(3) ki(5)])
  moreover have "new_key_page c1 ki = ?kp" using ki(2) c1 by (simp add: new_key_page_def)
  ultimately show ?thesis using p g(2) lo(1) by (auto simp: with_key_def kp_frame_def InitKeyPage_def)
qed

lemma add_new_page:
  assumes ok: "core_ok c P K xs" and i: "i < length (r_ht c)" and room: "room c P K (Suc m)"
    and len: "length (K i) = length (P i)" and lp: "last_page c (P i) (K i) ki"
    and mk: "df_fdp (r_kf c) = Some mk" "free_top mk < 2 ^ 63"
    and ki: "info_ok ki" "ki_hash ki = int i" "info_key ki = x" "ki_voff ki = v" "fits 8 v"
    and x: "chain_find (P i) x = None" "bucket_of c x = i" "value_good (r_vf c) x v vp"
    and vf: "df_fdp (r_vf c) = Some m'" "fdp_live m' (insert v (val_offs c P)) (length (f_data (df_file (r_vf c))))"
  shows "\<exists>c' ki' P' K' ys m1. addNewPage c ki = Some (c', ki', E_ok) \<and> core_ok c' P' K' ys \<and> room c' P' K' m \<and>
    db_map c' P' = (db_map c P)(x \<mapsto> value_at (r_vf c) v) \<and> r_vf c' = r_vf c \<and> r_kpSize c' = r_kpSize c \<and>
    df_fdp (r_kf c') = Some m1 \<and> free_top m1 \<le> free_top mk + r_kpSize c"
proof -
  have "page_read (r_cache c) (r_kf c) (-1) (r_kf c) (zero_key_page (lc_kpSize (r_cache c)))" by (simp add: page_read_def)
  from cache_get_ok [OF core_okD(2) [OF ok] _ this] room obtain ca h1 k a cn ys where
    g: "cache_get (r_cache c) (r_heap c) (r_kf c) (-1) = Some (ca, h1, r_kf c, Some k, E_ok)" "heap_ok ca h1 ys" "h_kpn (r_heap c) k = None"
      "a \<notin> pages_of (r_heap c)" "h_kpn h1 = (h_kpn (r_heap c))(k \<mapsto> new_node a (-1) cn)"
      "h_page h1 = (h_page (r_heap c))(a \<mapsto> zero_key_page (lc_kpSize (r_cache c)))"
      "lc_num ca = lc_num (r_cache c) + 1" "lc_max ca = lc_max (r_cache c)" "lc_kpSize ca = lc_kpSize (r_cache c)"
    by (fastforce simp: room_def)
  let ?c1 = "c\<lparr>r_cache := ca, r_heap := h1, r_kf := r_kf c\<rparr>"
  from new_record [OF ok i len lp mk ki, of ?c1] obtain kp j where p: "KR_put (new_key_page ?c1 ki) ki = Some (kp, j)" "0 \<le> j"
    "page_good (cap_of c) i kp" "kp_map kp = [x \<mapsto> v]" "kp_poff kp = (if P i = [] then -1 else fst (last (P i)))" "kp_noff kp = -1" by auto
  from new_page_disk [OF ok p(3) mk(1), of "-1"] obtain kf off m1 where
    w: "kf_write_new (r_kf c) (-1) (key_page_bytes kp) (r_kpSize c) = Some (kf, E_ok, off)" "calm (df_file kf)" "df_fdp kf = Some m1"
      "fdp_pageSize m1 = r_kpSize c" "fdp_live m1 (insert off (key_offs c P)) (length (f_data (df_file kf)))" "page_on_disk kf off kp"
      "\<forall>j<length (r_ht c). \<forall>q\<in>set (P j). page_on_disk kf (fst q) (snd q)" "0 \<le> off" "off \<notin> key_offs c P" "r_kpSize c dvd off"
      "off \<le> free_top mk" "free_top m1 \<le> free_top mk + r_kpSize c" by blast
  have fo: "fits 8 off" using w(8,11) mk(2) by (simp add: fits_def)
  let ?hB = "set_page h1 a kp" and ?ki = "ki\<lparr>ki_kidx := j\<rparr>"
  define hC where "hC = ?hB\<lparr>h_kpn := (h_kpn (r_heap c))(k \<mapsto> new_node a off cn)\<rparr>"
  have uk: "upd_kpn ?hB k (kpn_kpoff_update (\<lambda>_. off)) = Some hC" using g(5) by (simp add: hC_def upd_kpn_def set_page_def new_node_def)
  have hC: "h_kpn hC = (h_kpn (r_heap c))(k \<mapsto> new_node a off cn)" "h_page hC = (h_page (r_heap c))(a \<mapsto> kp)"
    using g(6) by (simp_all add: hC_def set_page_def)
  have okC: "heap_ok ca hC ys" using heap_ok_kpoff [OF _ uk] g(2) heap_ok_page_upd by blast
  let ?stk = "uw_writeFlags KeyF a off KPAGE_DELETED (uw_freePage KeyF off [])"
  let ?c2 = "c\<lparr>r_cache := ca, r_kf := kf, r_heap := hC\<rparr>"
  have lp': "last_page c (P i) (K i) ?ki" using lp by (auto simp: last_page_def last_seen_def split: if_splits)
  from link_step [OF ok i len lp' g(3) hC g(4) w(2,7,6) p(3) w(9,10), of ?c2 ?stk] obtain kf2 hA stk' where
    l: "link_last ?c2 ?ki off ?stk = (?c2\<lparr>r_kf := kf2, r_heap := hA\<rparr>, stk', E_ok)" "grown_heap c (P i) (K i) hA k a off cn kp"
      "\<forall>ca xs. heap_ok ca hA xs = heap_ok ca hC xs" "calm (df_file kf2)" "df_fdp kf2 = df_fdp kf"
      "length (f_data (df_file kf2)) = length (f_data (df_file kf))" "page_on_disk kf2 off kp"
      "\<forall>q\<in>set (relast off (P i)). page_on_disk kf2 (fst q) (snd q)"
      "\<forall>j<length (r_ht c). j \<noteq> i \<longrightarrow> (\<forall>q\<in>set (P j). page_on_disk kf2 (fst q) (snd q))" by auto
  from add_node [OF ok i l(2)] obtain e' h2 where
    an: "addKeyPageNode (r_ht c) hA (int i) k = Some ((r_ht c)[i := e'], h2)" "relinked_nodes hA h2" "bucket_list e' h2 (K i @ [k])"
      "he_offset e' = (if K i = [] then off else he_offset (r_ht c ! i))" "\<forall>q. q \<notin> set (K i @ [k]) \<longrightarrow> h_kpn h2 q = h_kpn hA q" by blast
  let ?c' = "c\<lparr>r_ht := (r_ht c)[i := e'], r_kf := kf2, r_cache := ca, r_heap := h2\<rparr>"
  have okA: "heap_ok ca hA ys" using l(3) okC by blast
  have live: "fdp_live m1 (insert off (key_offs c P)) (length (f_data (df_file kf2)))" using w(5) l(6) by simp
  note gr = grown [OF ok i len okA l(2) an(2-5) p(3-6) x w(9) fo l(7-9,4) _ w(4) live vf g(9) refl, unfolded l(5) w(3), OF refl]
  have node: "h_kpn h1 k = Some (new_node a (-1) cn)" using g(5) by simp
  have "addNewPage c ki = Some (?c', ?ki\<lparr>ki_kpn := Some k\<rparr>, E_ok)"
    using g(1) node p(1,2) w(1) uk l(1) an(1) ki(2) by (simp add: addNewPage_def new_node_def unwind_core_def)
  moreover have "room ?c' (P(i := relast off (P i) @ [(off, kp)])) (K(i := K i @ [k])) m"
    by (rule room_grown [OF room i]) (use g(7,8) in simp_all)
  ultimately show ?thesis using gr w(3,12) l(5)
    by (intro exI [of _ ?c'] exI exI [of _ "P(i := relast off (P i) @ [(off, kp)])"] exI [of _ "K(i := K i @ [k])"] exI [of _ ys] exI [of _ m1] conjI)
       simp_all
qed

end
