(* ===== verification/Rdb_Map.thy ===== *)
theory Rdb_Map
  imports Rdb_Grow
begin

text \<open>
  An open database is a map from keys to values: \<open>get\<close> reads it and \<open>set\<close> changes it at one key.
\<close>

section \<open>Set\<close>

text \<open>Room for \<open>m\<close> more pages below the largest 64-bit offset in both files.\<close>

definition space :: "core \<Rightarrow> nat \<Rightarrow> bool" where
  "space c m \<longleftrightarrow>
     (\<exists>mk mv. df_fdp (r_kf c) = Some mk \<and> free_top mk + int m * r_kpSize c < 2 ^ 63 \<and>
        df_fdp (r_vf c) = Some mv \<and> free_top mv + int m * 256 < 2 ^ 63)"

lemma room_less: "room c P K (Suc m) \<Longrightarrow> room c P K m"
  by (simp add: room_def)

lemma space_less: "space c (Suc m) \<Longrightarrow> sizes_ok c \<Longrightarrow> space c m"
  by (auto simp: space_def sizes_ok_def distrib_right)

lemma space_cong: "df_fdp (r_kf c') = df_fdp (r_kf c) \<Longrightarrow> df_fdp (r_vf c') = df_fdp (r_vf c) \<Longrightarrow> r_kpSize c' = r_kpSize c \<Longrightarrow> space c' m = space c m"
  by (simp add: space_def)

text \<open>Adding a key that is not there, after the search that did not find it.\<close>

lemma set_absent:
  assumes ok: "core_ok c P K xs" and i: "i < length (r_ht c)" and room: "room c P K (Suc m)" and space: "space c (Suc m)"
    and ki: "info_ok ki" "ki_hash ki = int i" "info_key ki = x" and bx: "bucket_of c x = i" and none: "db_map c P x = None"
    and lp: "P i = [] \<Longrightarrow> ki_lkp ki = 0 \<and> ki_lkpoff ki = -1" and vp: "page_for vp x b"
  shows "\<exists>c' P' K' ys. set_new c ki vp = Some (c', E_ok) \<and> core_ok c' P' K' ys \<and> room c' P' K' m \<and> space c' m \<and> db_map c' P' = (db_map c P)(x \<mapsto> b)"
proof -
  from space obtain mk mv where sp: "df_fdp (r_kf c) = Some mk" "free_top mk + int (Suc m) * r_kpSize c < 2 ^ 63"
    "df_fdp (r_vf c) = Some mv" "free_top mv + int (Suc m) * 256 < 2 ^ 63" unfolding space_def by blast
  have ps: "0 < r_kpSize c" using core_okD(1) [OF ok] by (simp add: sizes_ok_def)
  from new_value [OF ok vp, of "ki_voff ki"] sp(3) obtain vf v m' where nv: "vf_write_new (r_vf c) (ki_voff ki) vp = Some (vf, E_ok, v)"
    "core_ok (c\<lparr>r_vf := vf\<rparr>) P K xs" "db_map (c\<lparr>r_vf := vf\<rparr>) P = db_map c P" "value_good vf x v vp" "value_at vf v = b" "df_fdp vf = Some m'"
    "fdp_live m' (insert v (val_offs c P)) (length (f_data (df_file vf)))" "v \<le> free_top mv" "free_top m' \<le> free_top mv + 256" by auto
  let ?c = "c\<lparr>r_vf := vf\<rparr>" and ?ki = "ki\<lparr>ki_voff := v\<rparr>"
  have "0 \<le> v" using nv(4) by (auto simp: value_good_def value_on_disk_def in_file_def)
  then have fv: "fits 8 v" using nv(8) sp(4) by (simp add: fits_def)
  have ki': "info_ok ?ki" "ki_hash ?ki = int i" "info_key ?ki = x" using ki by (simp_all add: info_ok_def info_key_def)
  have i': "i < length (r_ht ?c)" "room ?c P K (Suc m)" using i room by (simp_all add: room_def)
  from search [OF nv(2) i'(1,2) ki'(1,2), of SET] obtain c3 P3 K3 ys ki3 where s: "core_ok c3 P3 K3 ys" "room c3 P3 K3 (Suc m)" "kept ?c P c3 P3"
    "info_same ?ki ki3" "outcome SET i c3 P3 K3 ?ki ki3 (processKeyPages SET ?c ?ki)" unfolding searched_def by blast
  have vo: "val_offs ?c P = val_offs c P" by (simp add: val_offs_def)
  have f: "r_vf c3 = vf" "r_kpSize c3 = r_kpSize c" "df_fdp (r_kf c3) = Some mk" "length (r_ht c3) = length (r_ht c)" "bucket_of c3 x = i"
    "val_offs c3 P3 = val_offs c P" "db_map c3 P3 = db_map c P" "map fst (P3 i) = map fst (P i)"
    using s(3) sp(1) bx nv(3) vo by (simp_all add: kept_def frame_def bucket_of_def)
  have cf: "chain_find (P3 i) x = None" using none f(5,7) by (metis db_map_def map_option_is_None)
  have ki3: "info_ok ki3" "ki_hash ki3 = int i" "info_key ki3 = x" "ki_voff ki3 = v" using s(4) ki' by (auto simp: info_same_def info_ok_def info_key_def)
  have vg: "value_good (r_vf c3) x v vp" "df_fdp (r_vf c3) = Some m'" "fdp_live m' (insert v (val_offs c3 P3)) (length (f_data (df_file (r_vf c3))))"
    "value_at (r_vf c3) v = b" using nv(4-7) f(1,6) by simp_all
  have i3: "i < length (r_ht c3)" using i f(4) by simp
  have spc: "space c4 m" if "r_vf c4 = vf" "r_kpSize c4 = r_kpSize c" "df_fdp (r_kf c4) = Some m4" "free_top m4 \<le> free_top mk + r_kpSize c" for c4 m4
    using that sp(2,4) nv(6,9) by (auto simp: space_def distrib_right)
  have ftk: "free_top mk < 2 ^ 63" using sp(2) ps by (smt (verit) mult_nonneg_nonneg of_nat_0_le_iff)
  note res = set_new_def nv(1) unwind_core_def
  from s(5) consider (none) "processKeyPages SET ?c ?ki = Some (c3, ki3, E_not_found)" "passed SET i c3 P3 K3 ?ki ki3"
    | (stop) k q where "stopped SET i c3 P3 K3 ki3 k q" "\<forall>c2 ki2 r off2. visit_page SET k (fst q) c3 ki3 = Some (c2, ki2, Some r, off2) \<and>
        h_kpn (r_heap c2) k \<noteq> None \<longrightarrow> processKeyPages SET ?c ?ki = Some (c2, ki2, r)"
    unfolding outcome_def by blast
  then show ?thesis
  proof cases
    case none
    have len: "length (K3 i) = length (P3 i)" using none(2) by (simp add: passed_def)
    have "P3 i = [] \<Longrightarrow> P i = []" using f(8) by (metis map_is_Nil_conv)
    then have "last_page c3 (P3 i) (K3 i) ki3" using none(2) lp len by (auto simp: passed_def seen_def last_page_def)
    from add_new_page [OF s(1) i3 s(2) len this _ ftk ki3 fv cf f(5) vg(1-3)] f(1,2,3,7) vg(4)
    obtain c4 ki4 P4 K4 zs m4 where a: "addNewPage c3 ki3 = Some (c4, ki4, E_ok)" "core_ok c4 P4 K4 zs" "room c4 P4 K4 m"
      "db_map c4 P4 = (db_map c P)(x \<mapsto> b)" "r_vf c4 = vf" "r_kpSize c4 = r_kpSize c" "df_fdp (r_kf c4) = Some m4" "free_top m4 \<le> free_top mk + r_kpSize c"
      by auto
    have "set_new c ki vp = Some (c4, E_ok)" using none(1) a(1) by (simp add: res)
    then show ?thesis using a(2-4) spc [OF a(5-8)] by blast
  next
    case (stop k q)
    from stopped_put [OF s(1) i3 stop(1) ki3(1,3,4) fv cf f(5) vg(1-3) s(2)] f(7) vg(4) obtain c4 ki4 P4 where
      p: "visit_page SET k (fst q) c3 ki3 = Some (c4, ki4, Some E_ok, fst q)" "h_kpn (r_heap c4) k \<noteq> None" "core_ok c4 P4 K3 ys" "room c4 P4 K3 (Suc m)"
        "db_map c4 P4 = (db_map c P)(x \<mapsto> b)" "frame c3 c4" by auto
    have "processKeyPages SET ?c ?ki = Some (c4, ki4, E_ok)" using stop(2) p(1,2) by blast
    moreover have "E_ok \<noteq> E_not_found" by (simp add: E_ok_def E_not_found_def)
    ultimately have "set_new c ki vp = Some (c4, E_ok)" by (simp add: res)
    moreover have "space c4 m" by (rule spc [of _ mk]) (use p(6) f ps in \<open>auto simp: frame_def\<close>)
    ultimately show ?thesis using p(3,5) room_less [OF p(4)] by blast
  qed
qed

lemma set_correct:
  assumes ok: "core_ok c P K xs" and room: "room c P K (Suc m)" and space: "space c (Suc m)"
    and key: "key_arg key klen x" and val: "val_arg val vlen b"
  shows "\<exists>c' P' K' ys. rdb_set c (Some key) klen (Some val) vlen None = Some (c', E_ok) \<and> core_ok c' P' K' ys \<and> room c' P' K' m \<and> space c' m \<and>
    db_map c' P' = (db_map c P)(x \<mapsto> b)"
proof -
  let ?i = "bucket_of c x"
  note st = start_ok [OF core_okD(1) [OF ok] key]
  from st(2) obtain ki where ki: "start_op c key klen = Some ki" "fresh_info ki x ?i klen" by blast
  from init_value_page [OF key val] obtain vp where vp: "InitValuePage key klen val vlen = Some vp" "page_for vp x b" by blast
  have b: "core_ok (begin_op c) P K xs" "room (begin_op c) P K (Suc m)" "?i < length (r_ht (begin_op c))"
    using ok room st(1) by (simp_all add: begin_op_def)
  from lookup [OF b(1,3,2), of ki] ki(2) obtain c1 P1 K1 ys ki1 r where l:
    "processKeyPages GET (begin_op c) ki = Some (c1, ki1, r)" "core_ok c1 P1 K1 ys" "room c1 P1 K1 (Suc m)" "kept (begin_op c) P c1 P1"
    "case chain_find (P1 ?i) x of Some v \<Rightarrow> r = E_ok \<and> found c1 ki ki1 v | None \<Rightarrow> r = E_not_found \<and> passed GET ?i c1 P1 K1 ki ki1"
    by (auto simp: fresh_info_def)
  have f: "db_map c1 P1 = db_map c P" "bucket_of c1 x = ?i" "df_fdp (r_kf c1) = df_fdp (r_kf c)" "df_fdp (r_vf c1) = df_fdp (r_vf c)"
    "r_kpSize c1 = r_kpSize c" "length (r_ht c1) = length (r_ht c)"
    using l(4) by (auto simp: kept_def frame_def begin_op_def bucket_of_def)
  have sp: "space c1 (Suc m)" using space space_cong [OF f(3-5)] by simp
  have i1: "?i < length (r_ht c1)" using st(1) f(6) by simp
  have arg: "\<not> (bad_text (Some key) \<or> klen \<le> 0 \<or> bad_text (Some val) \<or> vlen \<le> 0)" using key val by (auto simp: key_arg_def val_arg_def)
  have run: "rdb_set c (Some key) klen (Some val) vlen None = Some (end_op c2, E_ok)"
    if "(if r = E_ok then (if found_ok c1 ki1 then set_existing c1 key klen ki1 None vp else None)
         else if r = E_not_found then set_new c1 ki1 vp else Some (c1, r)) = Some (c2, E_ok)" for c2
    using that arg ki(1) vp(1) l(1) by (simp add: rdb_set_def)
  have fin: "core_ok (end_op c2) = core_ok c2" "room (end_op c2) = room c2" "db_map (end_op c2) = db_map c2" "space (end_op c2) = space c2" for c2
    by (simp_all add: end_op_def space_def fun_eq_iff)
  show ?thesis
  proof (cases "chain_find (P1 ?i) x")
    case (Some v)
    then have r: "r = E_ok" "found_ok c1 ki1" "ki_voff ki1 = v" using l(5) by (auto simp: found_def)
    from rewrite_value [OF l(2) _ _ vp(2)] Some f(2) i1 obtain vf where w: "vf_write (r_vf c1) v vp = (vf, E_ok)" "core_ok (c1\<lparr>r_vf := vf\<rparr>) P1 K1 ys"
      "db_map (c1\<lparr>r_vf := vf\<rparr>) P1 = (db_map c1 P1)(x \<mapsto> b)" "df_fdp vf = df_fdp (r_vf c1)" by metis
    have "rdb_set c (Some key) klen (Some val) vlen None = Some (end_op (c1\<lparr>r_vf := vf\<rparr>), E_ok)"
      by (rule run) (use r w(1) in \<open>simp add: set_existing_def\<close>)
    moreover have "space (c1\<lparr>r_vf := vf\<rparr>) m"
      using space_less [OF sp core_okD(1) [OF l(2)]] space_cong [of "c1\<lparr>r_vf := vf\<rparr>" c1] w(4) by simp
    moreover have "room (c1\<lparr>r_vf := vf\<rparr>) P1 K1 m" using room_less [OF l(3)] by (simp add: room_def)
    ultimately show ?thesis using w(2,3) f(1) by (metis fin)
  next
    case None
    then have r: "r = E_not_found" "passed GET ?i c1 P1 K1 ki ki1" using l(5) by auto
    then have sm: "info_same ki ki1" "P1 ?i = [] \<Longrightarrow> ki_lkp ki1 = 0 \<and> ki_lkpoff ki1 = -1"
      using ki(2) by (auto simp: passed_def seen_def fresh_info_def)
    have k1: "info_ok ki1" "ki_hash ki1 = int ?i" "info_key ki1 = x" using info_sameD [OF sm(1)] ki(2) by (auto simp: fresh_info_def)
    have "db_map c1 P1 x = None" using None f(2) by (simp add: db_map_def)
    from set_absent [OF l(2) i1 l(3) sp k1 f(2) this sm(2) vp(2)] obtain c2 P2 K2 zs where
      n: "set_new c1 ki1 vp = Some (c2, E_ok)" "core_ok c2 P2 K2 zs" "room c2 P2 K2 m" "space c2 m" "db_map c2 P2 = (db_map c1 P1)(x \<mapsto> b)" by blast
    have "rdb_set c (Some key) klen (Some val) vlen None = Some (end_op c2, E_ok)"
      by (rule run) (use r(1) n(1) in \<open>simp add: E_ok_def E_not_found_def\<close>)
    then show ?thesis using n(2-5) f(1) by (metis fin)
  qed
qed

section \<open>A database over time\<close>

definition db_rep :: "core \<Rightarrow> (dbkey \<rightharpoonup> byte list) \<Rightarrow> nat \<Rightarrow> bool" where
  "db_rep c M m \<longleftrightarrow> (\<exists>P K xs. core_ok c P K xs \<and> room c P K m \<and> space c m \<and> db_map c P = M)"

definition db_get :: "core \<Rightarrow> byte list \<times> int \<times> byte list \<Rightarrow> (core \<times> int \<times> byte list option \<times> int option) option" where
  "db_get c q = (case q of (key, klen, buf) \<Rightarrow> rdb_get c (Some key) klen (Some buf) (Some (int (length buf))))"

definition db_set :: "core \<Rightarrow> byte list \<times> int \<times> byte list \<Rightarrow> byte list \<times> int \<Rightarrow> (core \<times> int) option" where
  "db_set c q v = (case (q, v) of ((key, klen, _), val, vlen) \<Rightarrow> rdb_set c (Some key) klen (Some val) vlen None)"

definition db_query :: "byte list \<times> int \<times> byte list \<Rightarrow> bool" where
  "db_query q \<longleftrightarrow> (case q of (key, klen, buf) \<Rightarrow> \<not> bad_text (Some key) \<and> 0 < klen \<and> klen \<le> 48 \<and> nat klen \<le> length key \<and> buf \<noteq> [])"

definition db_value :: "byte list \<times> int \<Rightarrow> bool" where
  "db_value v \<longleftrightarrow> (case v of (val, vlen) \<Rightarrow> \<not> bad_text (Some val) \<and> 0 < vlen \<and> vlen \<le> 192 \<and> nat vlen \<le> length val)"

definition db_key :: "byte list \<times> int \<times> byte list \<Rightarrow> dbkey" where
  "db_key q = (case q of (key, klen, _) \<Rightarrow> DbKey (take (nat klen) key))"

definition db_answer :: "byte list option \<Rightarrow> byte list \<times> int \<times> byte list \<Rightarrow> int \<times> byte list option \<times> int option" where
  "db_answer v q = (case q of (_, _, buf) \<Rightarrow> get_answer v buf (int (length buf)))"

lemma db_get_rep:
  assumes "db_rep c M m" "db_query q"
  shows "\<exists>c'. db_get c q = Some (c', db_answer (M (db_key q)) q) \<and> db_rep c' M m"
proof -
  obtain key klen buf where q: "q = (key, klen, buf)" by (cases q)
  from assms(1) obtain P K xs where r: "core_ok c P K xs" "room c P K m" "space c m" "db_map c P = M" by (auto simp: db_rep_def)
  have k: "key_arg key klen (db_key q)" "0 < int (length buf)" "nat (int (length buf)) \<le> length buf"
    using assms(2) by (simp_all add: q db_query_def key_arg_def db_key_def)
  from get_correct [OF r(1,2) k] obtain c' P' K' ys where g:
    "rdb_get c (Some key) klen (Some buf) (Some (int (length buf))) = Some (c', get_answer (db_map c P (db_key q)) buf (int (length buf)))"
    "core_ok c' P' K' ys" "room c' P' K' m" "db_map c' P' = db_map c P" "df_fdp (r_kf c') = df_fdp (r_kf c)" "df_fdp (r_vf c') = df_fdp (r_vf c)"
    "r_kpSize c' = r_kpSize c" by blast
  have "space c' m" using r(3) space_cong [OF g(5-7)] by simp
  then have "db_rep c' M m" using g(2-4) r(4) unfolding db_rep_def by blast
  then show ?thesis using g(1) r(4) by (simp add: db_get_def db_answer_def q)
qed

lemma db_set_rep:
  assumes "db_rep c M (Suc m)" "db_query q" "db_value v"
  shows "\<exists>c'. db_set c q v = Some (c', E_ok) \<and> db_rep c' (M(db_key q \<mapsto> take (nat (snd v)) (fst v))) m"
proof -
  obtain key klen buf val vlen where q: "q = (key, klen, buf)" "v = (val, vlen)" by (cases q, cases v) auto
  from assms(1) obtain P K xs where r: "core_ok c P K xs" "room c P K (Suc m)" "space c (Suc m)" "db_map c P = M" by (auto simp: db_rep_def)
  have k: "key_arg key klen (db_key q)" "val_arg val vlen (take (nat vlen) val)"
    using assms(2,3) by (simp_all add: q db_query_def db_value_def key_arg_def val_arg_def db_key_def)
  from set_correct [OF r(1-3) k] obtain c' P' K' ys where "rdb_set c (Some key) klen (Some val) vlen None = Some (c', E_ok)"
    "core_ok c' P' K' ys" "room c' P' K' m" "space c' m" "db_map c' P' = (db_map c P)(db_key q \<mapsto> take (nat vlen) val)" by blast
  then show ?thesis using r(4) unfolding db_rep_def by (simp add: db_set_def q) blast
qed

lemma db_rep_less: "db_rep c M (Suc m) \<Longrightarrow> db_rep c M m"
  unfolding db_rep_def by (metis core_okD(1) room_less space_less)

section \<open>A new database\<close>

definition fresh_file :: snf_file where
  "fresh_file = \<lparr>f_fd = True, f_rd = True, f_wr = True, f_append = False, f_pos = 0, f_disk = Some [], f_sched = []\<rparr>"

lemma fresh_calm [simp]: "calm fresh_file" "f_data fresh_file = []"
  by (simp_all add: fresh_file_def calm_def f_data_def)

lemma open_fresh: "OpenFile (new_file None []) s = (fresh_file, E_ok)"
  "file_open (new_file None []) (open_flags0\<lparr>o_read := True, o_write := True, o_create := True\<rparr>) = (fresh_file, E_ok)"
  by (simp_all add: OpenFile_def file_open_def new_file_def open_flags0_def os_next_def fresh_file_def f_data_def Let_def)

lemma fresh_read: "0 < n \<Longrightarrow> ReadFile fresh_file 0 n = (fresh_file, E_eof_detected, [])"
proof -
  assume "0 < n"
  moreover have "fresh_file\<lparr>f_pos := 0\<rparr> = fresh_file" by (simp add: fresh_file_def)
  ultimately show ?thesis using calm_ReadFile_end [of fresh_file 0 n] by simp
qed

lemma attributes_fresh:
  "\<exists>a. read_attributes db (new_file None []) = (a, E_ok) \<and> a_kpsize a = db_kpSize db \<and> a_htsize a = db_htSize db"
proof -
  have e: "E_eof_detected \<noteq> E_ok" by (simp add: E_defs)
  have r: "ReadFile fresh_file 0 8 = (fresh_file, E_eof_detected, [])" by (simp add: fresh_read)
  have "WriteFile fresh_file 0 (le_bytes 4 x @ le_bytes 4 y) 8 = (fresh_file\<lparr>f_disk := Some (le_bytes 4 x @ le_bytes 4 y), f_pos := 8\<rparr>, E_ok)" for x y
    using calm_WriteFile [of fresh_file 0 "le_bytes 4 x @ le_bytes 4 y" 8]
    by (simp del: le_bytes.simps add: overwrite_def flip: length_0_conv)
  then show ?thesis
    by (simp add: read_attributes_def attr_open_def AttrFile_def open_fresh attr_read_def r attr_write_def e Let_def split_beta del: le_bytes.simps)
qed

lemma keys_fresh:
  assumes "0 < kps"
  shows "\<exists>m kf. populateHashTable kps ht \<lparr>df_file = fresh_file, df_fdp = None\<rparr> = Some (ht, kf, E_ok) \<and> calm (df_file kf) \<and> f_data (df_file kf) = [] \<and>
    df_fdp kf = Some m \<and> fdp_pageSize m = kps \<and> nextFreeOffset m = [0] \<and> fdp_file m = None"
proof -
  define kf where "kf = \<lparr>df_file = fresh_file, df_fdp = Some ((FreeDiskPageMgr kps None)\<lparr>nextFreeOffset := [0]\<rparr>)\<rparr>"
  have "kf_freePage \<lparr>df_file = fresh_file, df_fdp = Some (FreeDiskPageMgr kps None)\<rparr> 0 = Some (kf, E_ok)"
    by (simp add: kf_freePage_def fdp_free_def FreeDiskPageMgr_def addOffsetToFile_def kf_def)
  moreover have "populate_loop kps ht kf 0 = Some (ht, kf, E_ok)"
    by (subst populate_loop.simps) (simp add: kf_read_def kf_def KEY_PAGE_HDR_SIZE_def fresh_read E_defs)
  moreover have "file_size fresh_file = (fresh_file, 0)" by (simp add: file_size_def fresh_file_def os_next_def f_data_def)
  ultimately have "populateHashTable kps ht \<lparr>df_file = fresh_file, df_fdp = None\<rparr> = Some (ht, kf, E_ok)" by (simp add: populateHashTable_def)
  then show ?thesis by (simp add: kf_def FreeDiskPageMgr_def)
qed


lemma values_fresh:
  "\<exists>m vf. populateFreePages (new_file None []) \<lparr>df_file = fresh_file, df_fdp = None\<rparr> = Some (vf, E_ok) \<and> calm (df_file vf) \<and> f_data (df_file vf) = [] \<and>
    df_fdp vf = Some m \<and> fdp_pageSize m = 256 \<and> nextFreeOffset m = [0] \<and> mirrors m"
proof -
  define m0 where "m0 = FreeDiskPageMgr 256 (Some fresh_file)"
  define m where "m = m0\<lparr>nextFreeOffset := [0], fdp_file := Some (fresh_file\<lparr>f_disk := Some (int64_bytes 0), f_pos := 8\<rparr>), fdp_fsize := 8\<rparr>"
  have p: "fresh_file\<lparr>f_pos := 0\<rparr> = fresh_file" "fresh_file\<lparr>f_pos := 0, f_disk := Some []\<rparr> = fresh_file" by (simp_all add: fresh_file_def)
  have sk: "file_seek fresh_file 0 = (fresh_file, E_ok)"
    by (simp add: file_seek_def file_seek_wh_def sys_lseek_def os_next_def fresh_file_def)
  have "file_read fresh_file True 8 True = (fresh_file, E_ok, [])"
    by (subst file_read_def) (simp add: file_read_loop.simps sys_read_def os_next_def fresh_file_def f_data_def)
  then have "fdp_init_loop m0 fresh_file = Some (m0, E_eof_detected)"
    by (subst fdp_init_loop.simps) (simp add: m0_def FreeDiskPageMgr_def Let_def)
  then have init: "fdp_init m0 = Some (m0, E_eof_detected)" using sk by (simp add: fdp_init_def m0_def FreeDiskPageMgr_def)
  have "file_truncate fresh_file 0 = (fresh_file, E_ok)"
    using calm_truncate [of fresh_file 0] p by (simp add: E_ok_def)
  then have reset: "fdp_reset m0 = (m0, E_ok)" by (simp add: fdp_reset_def m0_def FreeDiskPageMgr_def)
  have "file_write fresh_file (Some (int64_bytes 0)) 8 True = (fresh_file\<lparr>f_disk := Some (int64_bytes 0), f_pos := 8\<rparr>, E_ok, 8)"
    by (simp add: file_write_def sys_write_def os_next_def fresh_file_def f_data_def overwrite_def Let_def)
  then have free: "fdp_free m0 0 = Some (m, E_ok)"
    by (simp add: fdp_free_def addOffsetToFile_def m0_def m_def FreeDiskPageMgr_def Let_def)
  have vl: "free_values_loop m \<lparr>df_file = fresh_file, df_fdp = None\<rparr> 0 = Some (m, \<lparr>df_file = fresh_file, df_fdp = None\<rparr>, E_ok)"
    by (subst free_values_loop.simps) (simp add: vf_readFlags_def fresh_read E_defs)
  have sz: "file_size fresh_file = (fresh_file, 0)" by (simp add: file_size_def fresh_file_def os_next_def f_data_def)
  have e: "E_eof_detected \<noteq> E_ok" by (simp add: E_defs)
  have "fdp_size m \<noteq> 0" by (simp add: fdp_size_def m_def)
  then have "populateFreePages (new_file None []) \<lparr>df_file = fresh_file, df_fdp = None\<rparr> = Some (\<lparr>df_file = fresh_file, df_fdp = Some m\<rparr>, E_ok)"
    by (simp add: populateFreePages_def open_fresh sizeof_value_page_def flip: m0_def) (simp add: init e reset sz free vl)
  moreover have "mirrors m" by (simp add: mirrors_def m_def stack_bytes_def)
  ultimately show ?thesis by (simp add: m_def m0_def FreeDiskPageMgr_def)
qed

end
