(* ===== verification/Key_Store.thy ===== *)
theory Key_Store
  imports Prelude
begin

text \<open>
  The contract of a persistent store with a limited number of pages: a map from keys to values that
  can take \<open>m\<close> more writes before it may run out. A client that relies on the contract alone runs
  any sequence of calls and reads the outcome off the map.
\<close>

datatype ('q, 'w) store_call = Lookup 'q | Store 'q 'w

datatype 'r reply = Answer 'r | Status int

fun store_run ::
  "('s \<Rightarrow> 'q \<Rightarrow> ('s \<times> 'r) option) \<Rightarrow> ('s \<Rightarrow> 'q \<Rightarrow> 'w \<Rightarrow> ('s \<times> int) option) \<Rightarrow> 's \<Rightarrow> ('q, 'w) store_call list \<Rightarrow>
   ('s \<times> 'r reply list) option" where
  "store_run get put s [] = Some (s, [])"
| "store_run get put s (Lookup q # xs) = do {
     (s, r) \<leftarrow> get s q;
     (s, rs) \<leftarrow> store_run get put s xs;
     Some (s, Answer r # rs)
   }"
| "store_run get put s (Store q w # xs) = do {
     (s, r) \<leftarrow> put s q w;
     (s, rs) \<leftarrow> store_run get put s xs;
     Some (s, Status r # rs)
   }"

fun map_run :: "('q \<Rightarrow> 'k) \<Rightarrow> ('w \<Rightarrow> 'v) \<Rightarrow> ('v option \<Rightarrow> 'q \<Rightarrow> 'r) \<Rightarrow> ('k \<rightharpoonup> 'v) \<Rightarrow> ('q, 'w) store_call list \<Rightarrow> 'r reply list" where
  "map_run key val ans M [] = []"
| "map_run key val ans M (Lookup q # xs) = Answer (ans (M (key q)) q) # map_run key val ans M xs"
| "map_run key val ans M (Store q w # xs) = Status E_ok # map_run key val ans (M(key q \<mapsto> val w)) xs"

fun writes :: "('q, 'w) store_call list \<Rightarrow> nat" where
  "writes [] = 0"
| "writes (Lookup q # xs) = writes xs"
| "writes (Store q w # xs) = Suc (writes xs)"

fun call_ok :: "('q \<Rightarrow> bool) \<Rightarrow> ('w \<Rightarrow> bool) \<Rightarrow> ('q, 'w) store_call \<Rightarrow> bool" where
  "call_ok query_ok value_ok (Lookup q) \<longleftrightarrow> query_ok q"
| "call_ok query_ok value_ok (Store q w) \<longleftrightarrow> query_ok q \<and> value_ok w"

locale key_store =
  fixes rep :: "'s \<Rightarrow> ('k \<rightharpoonup> 'v) \<Rightarrow> nat \<Rightarrow> bool"
    and query_ok :: "'q \<Rightarrow> bool"
    and value_ok :: "'w \<Rightarrow> bool"
    and key :: "'q \<Rightarrow> 'k"
    and val :: "'w \<Rightarrow> 'v"
    and ans :: "'v option \<Rightarrow> 'q \<Rightarrow> 'r"
    and get :: "'s \<Rightarrow> 'q \<Rightarrow> ('s \<times> 'r) option"
    and put :: "'s \<Rightarrow> 'q \<Rightarrow> 'w \<Rightarrow> ('s \<times> int) option"
  assumes get_law: "rep s M m \<Longrightarrow> query_ok q \<Longrightarrow> \<exists>s'. get s q = Some (s', ans (M (key q)) q) \<and> rep s' M m"
    and put_law: "rep s M (Suc m) \<Longrightarrow> query_ok q \<Longrightarrow> value_ok w \<Longrightarrow>
      \<exists>s'. put s q w = Some (s', E_ok) \<and> rep s' (M(key q \<mapsto> val w)) m"
begin

lemma run: "rep s M m \<Longrightarrow> writes xs \<le> m \<Longrightarrow> list_all (call_ok query_ok value_ok) xs \<Longrightarrow>
  \<exists>s'. store_run get put s xs = Some (s', map_run key val ans M xs)"
proof (induction xs arbitrary: s M m)
  case (Cons x xs)
  show ?case
  proof (cases x)
    case (Lookup q)
    with Cons.prems get_law [of s M m q] obtain s' where "get s q = Some (s', ans (M (key q)) q)" "rep s' M m" by auto
    with Cons.IH [of s' M m] Cons.prems Lookup show ?thesis by auto
  next
    case (Store q w)
    with Cons.prems(2) obtain n where n: "m = Suc n" by (cases m) auto
    with Cons.prems Store put_law [of s M n q w] obtain s' where "put s q w = Some (s', E_ok)" "rep s' (M(key q \<mapsto> val w)) n" by auto
    moreover from this(2) Cons.IH Cons.prems(2,3) Store n obtain s'' where "store_run get put s' xs = Some (s'', map_run key val ans (M(key q \<mapsto> val w)) xs)"
      by fastforce
    ultimately show ?thesis using Store by simp
  qed
qed simp

end

end
