(* ===== verification/Rdb_Store.thy ===== *)
theory Rdb_Store
  imports Rdb_Map Key_Store
begin

text \<open>
  The database as a key store, from the moment it is created: the constructor, \<open>open\<close> on files that do
  not exist yet, and any sequence of \<open>get\<close> and \<open>set\<close>.
\<close>

definition put_value :: "byte list \<times> int \<Rightarrow> byte list" where
  "put_value v = take (nat (snd v)) (fst v)"

interpretation rdb: key_store db_rep db_query db_value db_key put_value db_answer db_get db_set
  by unfold_locales (auto simp: put_value_def dest: db_get_rep db_set_rep)

lemma new_core_rep:
  assumes N: "kps = 64 + 64 * int N" "15 \<le> N" "N \<le> 127" and hts: "0 < hts" "hts < 2 ^ 31"
    and pm: "pm_holds pm {}" "int m \<le> numOfPages pm" "int m * kps < 2 ^ 63"
    and kf: "calm (df_file kf)" "f_data (df_file kf) = []" "df_fdp kf = Some mk" "fdp_pageSize mk = kps" "nextFreeOffset mk = [0]" "fdp_file mk = None"
    and vf: "calm (df_file vf)" "f_data (df_file vf) = []" "df_fdp vf = Some mv" "fdp_pageSize mv = 256" "nextFreeOffset mv = [0]" "mirrors mv"
  shows "db_rep \<lparr>r_kpSize = kps, r_htSize = hts, r_ht = replicate (nat hts) initHashEntry, r_kf = kf, r_vf = vf, r_cache = LRUCache kps pm,
    r_heap = empty_heap [], r_opCount = 0\<rparr> Map.empty m"
    (is "db_rep ?c _ _")
proof -
  have cap: "cap_of ?c = N" using N by (simp add: cap_of_def NUM_OF_KEYS_IN_PAGE_def KEY_PAGE_HDR_SIZE_def)
  have "sizes_ok ?c" using N hts cap by (simp add: sizes_ok_def LRUCache_def)
  moreover have "heap_ok (r_cache ?c) (r_heap ?c) []"
    using pm(1) by (simp add: heap_ok_def cache_list_def LRUCache_def pages_of_def empty_heap_def nodes_fresh_def)
  moreover have "fdp_live mk {} 0" "fdp_live mv {} 0"
    using kf(4-6) vf(4-6) N by (auto simp: fdp_live_def fdp_holds_def fdp_parts_def)
  then have "files_ok ?c (\<lambda>_. [])" using kf vf by (simp add: files_ok_def key_offs_def val_offs_def sizeof_value_page_def)
  moreover have "bucket_ok ?c i [] [] \<and> values_ok ?c i []" if "i < length (r_ht ?c)" for i
    using that by (simp add: bucket_ok_def values_ok_def bucket_list_def initHashEntry_def first_off_def keys_apart_def)
  ultimately have "core_ok ?c (\<lambda>_. []) (\<lambda>_. []) []" by (simp add: core_ok_def)
  moreover have "room ?c (\<lambda>_. []) (\<lambda>_. []) m" using pm(2) by (simp add: room_def unloaded_def LRUCache_def)
  moreover have "int m * 256 < 2 ^ 63"
  proof -
    have "int m * 256 \<le> int m * kps" using N by (intro mult_left_mono) auto
    then show ?thesis using pm(3) by linarith
  qed
  then have "space ?c m" using kf(3,5) vf(3,5) pm(3) by (simp add: space_def free_top_def)
  moreover have "db_map ?c (\<lambda>_. []) = Map.empty" by (simp add: db_map_def fun_eq_iff)
  ultimately show ?thesis unfolding db_rep_def by blast
qed

lemma NextPrime_start_pos: "NextPrime_start n i nxt = Some p \<Longrightarrow> 0 < n \<Longrightarrow> 0 < p"
  using NextPrime_start.raw_induct [of "\<lambda>n i nxt p. 0 < n \<longrightarrow> 0 < p" n i nxt p] by (fastforce split: if_splits)

lemma NextPrime_search_pos: "NextPrime_search nxt ni = Some p \<Longrightarrow> 0 < nxt \<Longrightarrow> 0 \<le> ni \<Longrightarrow> ni \<le> 6 \<Longrightarrow> 0 < p"
  using NextPrime_search.raw_induct [of "\<lambda>nxt ni p. 0 < nxt \<and> 0 \<le> ni \<and> ni \<le> 6 \<longrightarrow> 0 < p" nxt ni p]
  by (fastforce simp: bind_eq_Some_conv split: if_splits)

lemma NextPrime_pos: "NextPrime n = Some p \<Longrightarrow> 0 < n \<Longrightarrow> 0 < p"
  by (auto simp: NextPrime_def Let_def bind_eq_Some_conv dest: NextPrime_start_pos NextPrime_search_pos split: if_splits)

lemma open_new:
  assumes db: "rdb_init kps hts opt = Some db" "kps \<le> 8192" "db_htSize db < 2 ^ 31"
    and pm: "mkpool kps (o_memusage opt) = Some pm" "pm_holds pm {}" "int m \<le> numOfPages pm" "int m * kps < 2 ^ 63"
  shows "\<exists>db' a c. rdb_open mkpool [] db (new_file None []) (new_file None []) (new_file None []) (new_file None []) = Some (db', a, E_ok) \<and>
    db_core db' = Some c \<and> db_rep c Map.empty m"
proof -
  from db(1) have d: "db_kpSize db = kps" "db_options db = opt" "db_core db = None" "1024 \<le> kps" "kps mod 64 = 0" "NextPrime hts = Some (db_htSize db)"
    by (auto simp: rdb_init_def MIN_KEY_PAGE_SIZE_def KEY_PAGE_HDR_SIZE_def split: if_splits)
  define N where "N = nat (kps div 64 - 1)"
  have N: "kps = 64 + 64 * int N" "15 \<le> N" "N \<le> 127" using d(4,5) db(2) by (auto simp: N_def)
  have hts: "0 < db_htSize db" using NextPrime_pos d(6) db(1) by (auto simp: rdb_init_def split: if_splits)
  from attributes_fresh [of db] obtain a where a: "read_attributes db (new_file None []) = (a, E_ok)" "a_kpsize a = kps" "a_htsize a = db_htSize db"
    using d(1) by auto
  have o: "kf_open (new_db_file (new_file None [])) s = (\<lparr>df_file = fresh_file, df_fdp = None\<rparr>, E_ok)"
    "vf_open (new_db_file (new_file None [])) s = (\<lparr>df_file = fresh_file, df_fdp = None\<rparr>, E_ok)" for s
    by (simp_all add: kf_open_def vf_open_def new_db_file_def open_fresh)
  let ?ht = "replicate (nat (db_htSize db)) initHashEntry"
  have al: "ht_allocate (empty_heap []) (db_htSize db) = (empty_heap [], Some ?ht, E_ok)"
    by (simp add: ht_allocate_def malloc_ok_def empty_heap_def)
  from N(1) have "0 < kps" by simp
  from keys_fresh [OF this, of ?ht] obtain kf mk where kf: "populateHashTable kps ?ht \<lparr>df_file = fresh_file, df_fdp = None\<rparr> = Some (?ht, kf, E_ok)"
    "calm (df_file kf)" "f_data (df_file kf) = []" "df_fdp kf = Some mk" "fdp_pageSize mk = kps" "nextFreeOffset mk = [0]" "fdp_file mk = None" by blast
  from values_fresh obtain vf mv where vf: "populateFreePages (new_file None []) \<lparr>df_file = fresh_file, df_fdp = None\<rparr> = Some (vf, E_ok)"
    "calm (df_file vf)" "f_data (df_file vf) = []" "df_fdp vf = Some mv" "fdp_pageSize mv = 256" "nextFreeOffset mv = [0]" "mirrors mv" by blast
  note rep = new_core_rep [OF N hts db(3) pm(2-4) kf(2-7) vf(2-7)]
  show ?thesis using rep d pm(1) by (simp add: rdb_open_def a o al kf(1) vf(1))
qed



end
