(* ===== verification/Spec2Isabelle.thy ===== *)
theory Spec2Isabelle
  imports Key_Page Prime_Size Page_Mgr Free_Disk_Pages Json_Roundtrip Http_Exchange Date_Time Thread_Pool Config_File Log_Manager Lock_Table Rdb_Store
begin

text \<open>
  A verification development for simple-n-fast, a C++ library collection: a key/value database (librdb), a JSON
  library (libjson), an http library with client and server parts (http), and the libraries below them for
  files, dates, threads and configuration (libcom) and for sockets (libnet). Paths are relative to the
  repository; the Unix branches of the sources are modelled.

  \<^bold>\<open>Conventions.\<close> Operations are functions with the state passed explicitly, in the order the code has them.
  Exceptions and status codes are values: the integer codes of \<^verbatim>\<open>libcom/include/error.h\<close>, or the left of a sum.
  Where a result is of type option, \<^term>\<open>None\<close> stands for an abort (\<^verbatim>\<open>ASSERT\<close>), an access outside an object,
  a thread that waits for ever, or a loop that does not end; a theorem that gives \<^term>\<open>Some\<close> excludes all of these. What
  lies outside the repository is an argument or a schedule: the outcomes of system calls (short transfers,
  interruptions, failures), \<^verbatim>\<open>malloc\<close>, the clock, \<^verbatim>\<open>localtime\<close> and \<^verbatim>\<open>mktime\<close>, \<^verbatim>\<open>inet_pton\<close>, \<^verbatim>\<open>std::stold\<close>, \<^verbatim>\<open>std::stod\<close>,
  the text of reals, regular expressions, \<^verbatim>\<open>accept\<close> and \<^verbatim>\<open>poll\<close>, and the handlers a user registers. Threads appear in
  two places, as steps of an inductive relation; everywhere else one call runs at a time.

  \<^bold>\<open>librdb.\<close> A database is three files and a hash table; a bucket of the table is a chain of key pages, a key page is a
  balanced tree of key records in an array, a record names a value page.
  \<^item> \<^verbatim>\<open>Key_Records\<close> is \<^verbatim>\<open>keyrec.cpp\<close> and the layouts of \<^verbatim>\<open>dbstruct.h\<close>. \<^verbatim>\<open>Index_Tree\<close> is the reference for its trees, \<^verbatim>\<open>Key_Tree\<close>
    shows that the methods on the array compute the operations on trees, \<^verbatim>\<open>Key_Page_Map\<close> that these are a map, and \<^verbatim>\<open>Key_Page\<close>
    interprets the contract \<^verbatim>\<open>bounded_map\<close> of \<^verbatim>\<open>Bounded_Map\<close>: any sequence of calls answers as a bounded map. A page of the
    default size has 127 records and, filled by insertions, height at most 8.
  \<^item> \<^verbatim>\<open>Prime_Size\<close> is \<^verbatim>\<open>prime.cpp\<close>; its searches end, by measures.
  \<^item> \<^verbatim>\<open>Page_Mgr\<close> (\<^verbatim>\<open>pagemgr.cpp\<close>) and \<^verbatim>\<open>Free_Disk_Pages\<close> (\<^verbatim>\<open>fdpmgr.cpp\<close>) interpret the contract \<^verbatim>\<open>allocator\<close> of \<^verbatim>\<open>Allocator\<close>: no page is
    handed out twice. The latter rests on \<^verbatim>\<open>File_IO\<close>, \<^verbatim>\<open>libcom/src/file.cpp\<close> over a schedule of system outcomes.
  \<^item> \<^verbatim>\<open>Db_Files\<close> (\<^verbatim>\<open>dbfiles.cpp\<close>) has the bytes of pages on the disk and their round trip. \<^verbatim>\<open>Node_Heap\<close> is the memory that \<^verbatim>\<open>Lru_Cache\<close>
    (\<^verbatim>\<open>cache.cpp\<close>), \<^verbatim>\<open>Hash_Table\<close> (\<^verbatim>\<open>hashtable.cpp\<close>) and \<^verbatim>\<open>Unwind\<close> (\<^verbatim>\<open>unwind.cpp\<close>) share; the first two refine lists.
  \<^item> \<^verbatim>\<open>Rdb\<close> is \<^verbatim>\<open>rdb.cpp\<close>. \<^verbatim>\<open>Rdb_Heap\<close> and \<^verbatim>\<open>Rdb_Rep\<close> say what an open database stands for; \<^verbatim>\<open>Rdb_Walk\<close>, \<^verbatim>\<open>Rdb_Search\<close> and \<^verbatim>\<open>Rdb_Get\<close> are the
    lookup; \<^verbatim>\<open>Rdb_Values\<close>, \<^verbatim>\<open>Rdb_Put\<close>, \<^verbatim>\<open>Rdb_New\<close> and \<^verbatim>\<open>Rdb_Grow\<close> the insertion; \<^verbatim>\<open>Rdb_Map\<close> the two as operations on a map. \<^verbatim>\<open>Rdb_Store\<close>
    interprets the contract \<^verbatim>\<open>key_store\<close> of \<^verbatim>\<open>Key_Store\<close> and concludes that a created database is a map under any sequence
    of \<^verbatim>\<open>set\<close> and \<^verbatim>\<open>get\<close>. The hypotheses bound the number of writes by the pages of the pool, one for each, so that the cache never
    evicts, and the offsets by \<open>2 ^ 63\<close>; the system calls succeed.
  \<^item> \<^verbatim>\<open>Lock_Table\<close> is \<^verbatim>\<open>rwlock.cpp\<close> and the lock operations of \<^verbatim>\<open>hashtable.cpp\<close> as steps of threads: the locks exclude, and they can
    block for ever.

  \<^bold>\<open>libjson.\<close> \<^verbatim>\<open>Json_Text\<close> (\<^verbatim>\<open>utf.cpp\<close>, \<^verbatim>\<open>misc.cpp\<close>), \<^verbatim>\<open>Json_Value\<close> (\<^verbatim>\<open>json.h\<close>, \<^verbatim>\<open>json.cpp\<close>), \<^verbatim>\<open>Json_Lexer\<close> (\<^verbatim>\<open>lexer.cpp\<close>) and \<^verbatim>\<open>Json_Parser\<close>
  (\<^verbatim>\<open>parser.cpp\<close>) follow the sources; \<^verbatim>\<open>Json_Roundtrip\<close> is printing against parsing. The parser has fuel, twice the length of the input and
  two; that this is enough on every input is a theorem.

  \<^bold>\<open>libnet.\<close> \<^verbatim>\<open>Net_Io\<close> is the stream class of \<^verbatim>\<open>nio.cpp\<close> over the read and write loops of \<^verbatim>\<open>sock.cpp\<close>; the contract \<^verbatim>\<open>byte_device\<close> is what
  a device promises, and the laws of characters, lines, integers, strings, bodies and message heads are proved from it
  alone and used on the socket. \<^verbatim>\<open>Reactor\<close> is \<^verbatim>\<open>reactor.cpp\<close>: the registered handlers refine a map.

  \<^bold>\<open>http.\<close> \<^verbatim>\<open>Http_Chars\<close> (\<^verbatim>\<open>charset.h\<close>), \<^verbatim>\<open>Http_Uri\<close> (\<^verbatim>\<open>uri.cpp\<close>), \<^verbatim>\<open>Http_Scanner\<close> (\<^verbatim>\<open>scanner.cpp\<close>), \<^verbatim>\<open>Http_Message\<close> and \<^verbatim>\<open>Http_Headers\<close> (\<^verbatim>\<open>hval.cpp\<close>,
  \<^verbatim>\<open>headers.cpp\<close>, \<^verbatim>\<open>message.cpp\<close>), \<^verbatim>\<open>Http_Body\<close> (\<^verbatim>\<open>body.cpp\<close>, \<^verbatim>\<open>transmit.cpp\<close>), \<^verbatim>\<open>Http_Request\<close> (\<^verbatim>\<open>request.cpp\<close>, \<^verbatim>\<open>response.cpp\<close>, \<^verbatim>\<open>status.cpp\<close>),
  \<^verbatim>\<open>Http_Router\<close> (\<^verbatim>\<open>router.cpp\<close>) and \<^verbatim>\<open>Http_Server\<close> (\<^verbatim>\<open>handler.cpp\<close>): round trips of URIs, header fields, request heads and bodies;
  the framing of messages; the router against a plain search and as a map; what a client sees of a failed request.
  Lists in header values are read with fuel, the length of the text and one. \<^verbatim>\<open>Http_Exchange\<close> composes them, and this theory
  states the whole exchange and the round trip of the Date field over the dates of libcom.

  \<^bold>\<open>libcom.\<close> \<^verbatim>\<open>Date_Time\<close> (\<^verbatim>\<open>timeutil.cpp\<close>), \<^verbatim>\<open>Config_File\<close> (\<^verbatim>\<open>config.cpp\<close>), \<^verbatim>\<open>Command_Line\<close> (\<^verbatim>\<open>clap.cpp\<close>), \<^verbatim>\<open>Thread_Pool\<close> (\<^verbatim>\<open>thrdpool.h\<close>): the epoch of
  a date against the calendar, what a configuration file is read as, which command lines are refused, and that a pool
  runs tasks in order and can always be stopped. \<^verbatim>\<open>Prelude\<close> and \<^verbatim>\<open>Text_Format\<close> hold what all theories share.

  \<^bold>\<open>liblog.\<close> \<^verbatim>\<open>Log_Record\<close> (\<^verbatim>\<open>logrec.cpp\<close>), \<^verbatim>\<open>Log_File\<close> (\<^verbatim>\<open>flogger.cpp\<close>) and \<^verbatim>\<open>Log_Manager\<close> (\<^verbatim>\<open>logmgr.cpp\<close>, \<^verbatim>\<open>logger.cpp\<close>): the text of a record, log files in a
  directory with their rotation and retention, and the registered loggers. Rotation by size loses no line, retention
  keeps the newest files. In the other theories a log statement has no effect.

  \<^bold>\<open>Not modelled.\<close> \<^verbatim>\<open>Rdb::rebuild\<close> with its backup files (it renames and removes files by path, and the file model has no
  directories); eviction in the refinement of the database, since the cache loses its list there (\<^verbatim>\<open>Lru_Cache\<close>); the
  interactive driver of librdb; the locks of file regions; copying and moving of JSON values, which are terms here;
  socket options, addresses and name resolution (thin wrappers of system calls); TLS connections, certificates and keys
  (\<^verbatim>\<open>libsslwrapper\<close>, \<^verbatim>\<open>cnxn.cpp\<close>), which only call OpenSSL; the set-up of the http server; the reading of log configurations from a file; paths,
  directories, file attributes, shared libraries and code pages of libcom; \<^verbatim>\<open>jdaemon\<close> (process control and JNI); the test framework.
\<close>

section \<open>Dates in the header of a message\<close>

text \<open>
  The printer and the reader of dates that the http library uses, on the dates of libcom. That the reader
  throws is no date here; only \<^verbatim>\<open>invalid_argument\<close> becomes \<^verbatim>\<open>bad_message\<close> in the code (\<^verbatim>\<open>hval.cpp\<close>, \<^verbatim>\<open>parse\<close>).
\<close>

definition show_imf :: "datetime \<Rightarrow> string" where
  "show_imf t = (case datetime_str Imf t of None \<Rightarrow> [] | Some s \<Rightarrow> s)"

definition parse_imf_date :: "(int \<Rightarrow> tm) \<Rightarrow> (tm \<Rightarrow> int \<times> tm) \<Rightarrow> int \<times> int \<Rightarrow> string \<Rightarrow> datetime option" where
  "parse_imf_date localtime mktime now s = (case datetime_get localtime mktime now s Imf True of Inl _ \<Rightarrow> None | Inr t \<Rightarrow> Some t)"

lemma imf_line_text:
  assumes "tm_ok (m_tm t)" "datetime_str Imf t = Some s"
  shows "line_text s"
proof -
  let ?w = "nat (tm_wday (m_tm t))" and ?m = "nat (tm_mon (m_tm t))"
  have names: "list_all (\<lambda>n. n \<noteq> [] \<and> list_all visible n) days" "list_all (\<lambda>n. n \<noteq> [] \<and> list_all visible n) months" by code_simp+
  have "days ! ?w \<in> set days" "months ! ?m \<in> set months" using tm_ok_bounds [OF assms(1)] by (auto simp: names_ok)
  then have n: "days ! ?w \<noteq> []" "list_all visible (days ! ?w)" "list_all visible (months ! ?m)" using names unfolding list_all_iff by blast+
  have p: "visible (CHR '','')" "visible (CHR '':'')" "visible (CHR ''G'')" "visible (CHR ''M'')" "visible (CHR ''T'')" by code_simp+
  have d: "visible c" if "c \<in> set (digits w k)" for c w k
    using digits_dec [OF that] by (auto simp: is_dec_def is_vchar_def to_int_def)
  note s = str_imf [OF assms(1), unfolded assms(2), simplified, unfolded imf_text_def]
  have "visible c \<or> c = CHR '' ''" if "c \<in> set s" for c using that n(2,3) p d by (auto simp: s list_all_iff)
  moreover have "visible (hd s)" using n(1,2) by (cases "days ! ?w") (auto simp: s)
  moreover have "visible (last s)" using p by (simp add: s)
  ultimately show ?thesis by (intro line_textI) auto
qed

text \<open>
  C39: the Date field of a message: for a point in time from 1970 to 9999, the line the header output writes is
  read back by the header parser as a Date field with the same point in time, whatever the clock and the time zone are.
\<close>

theorem date_field_roundtrip:
  assumes "0 \<le> e" "get_year (datetime_of localtime e Second True) \<le> 9999" "''date'' \<notin> set (names hs)"
  shows "\<exists>t. header_add_line ip4 ip6 (parse_imf_date localtime mktime now)
      (header_line show_imf (''date'', \<lparr>m_raw = raw, m_value = DateV (datetime_of localtime e Second True)\<rparr>)) hs =
    Inr (hs @ [(''date'', \<lparr>m_raw = show_imf t, m_value = DateV t\<rparr>)]) \<and> datetime_epoch t Second = e"
proof -
  let ?t = "datetime_of localtime e Second True"
  obtain s t where t: "datetime_str Imf ?t = Some s" "datetime_get localtime mktime now s Imf True = Inr t"
      "datetime_epoch t Second = e" "datetime_str Imf t = Some s"
    using imf_date_roundtrip [OF assms(1,2), of mktime now True] by blast
  have "tm_ok (m_tm ?t)" using gmtime_epoch(3) [OF assms(1)] assms(2) by (simp add: get_year_def datetime_of_def)
  then have l: "line_text s" using imf_line_text t(1) by blast
  have n: "token_text ''date''" "map to_lower ''date'' = ''date''" by code_simp+
  have "header_find ''date'' hs = None" using assms(3) by (simp only: find_None not_False_eq_True)
  then have "header_add ip4 ip6 (parse_imf_date localtime mktime now) ''date'' s hs = Inr (hs @ [(''date'', \<lparr>m_raw = s, m_value = DateV t\<rparr>)])"
    using n(2) t(2) by (simp add: header_add_def header_validate_def header_value_def parse_imf_date_def)
  then show ?thesis
    using add_line_text [OF n(1) l, of ip4 ip6 "parse_imf_date localtime mktime now" hs] t
    by (intro exI [of _ t]) (simp add: header_line_def hval_str_def show_imf_def)
qed

theorem date_field_roundtrip_witness:
  "\<exists>t. header_add_line (\<lambda>_. False) (\<lambda>_. False) (parse_imf_date gmtime (\<lambda>t. (0, t)) (0, 0)) (''Date: Sun, 06 Nov 1994 08:49:37 GMT'' @ [CHR 0x0D, CHR 0x0A]) [] =
    Inr [(''date'', \<lparr>m_raw = show_imf t, m_value = DateV t\<rparr>)] \<and> datetime_epoch t Second = 784111777"
proof -
  have "datetime_str Imf (datetime_of gmtime 784111777 Second True) = Some ''Sun, 06 Nov 1994 08:49:37 GMT''" by code_simp
  moreover have "canonicalize_name ''date'' = ''Date''" by code_simp
  ultimately have "header_line show_imf (''date'', \<lparr>m_raw = [], m_value = DateV (datetime_of gmtime 784111777 Second True)\<rparr>) =
      ''Date: Sun, 06 Nov 1994 08:49:37 GMT'' @ [CHR 0x0D, CHR 0x0A]"
    by (simp add: header_line_def hval_str_def show_imf_def)
  moreover have "get_year (datetime_of gmtime 784111777 Second True) \<le> 9999" by code_simp
  ultimately show ?thesis
    using date_field_roundtrip [of 784111777 gmtime "[]" "\<lambda>_. False" "\<lambda>_. False" "\<lambda>t. (0, t)" "(0, 0)" "[]"] by simp
qed

section \<open>A whole exchange\<close>


definition sample_put :: "(unit, socket) request" where
  "sample_put = sample_request\<lparr>rq_headers := rq_headers sample_request @
     [(''content-length'', \<lparr>m_raw = [], m_value = NumV 0\<rparr>), (''connection'', \<lparr>m_raw = [], m_value = CnxnSeq [''close'']\<rparr>)]\<rparr>"

definition sample_answer :: "(unit, socket) response" where
  "sample_answer = \<lparr>rs_status = 200, rs_reason = ''OK'', rs_version = version_1_1,
     rs_headers = [(''content-length'', \<lparr>m_raw = [], m_value = NumV 5\<rparr>)], rs_body = Some (body_from_string ''hello'')\<rparr>"

lemma sample_exchange: "closing_request sample_put" "plain_response sample_answer ''hello''"
proof -
  have "token_text ''content-length''" "token_text ''connection''" "set [''close''] \<subseteq> set cnxn_names" by code_simp+
  then have "list_all plain_field (rq_headers sample_put)"
    using sample_plain by (simp add: sample_put_def plain_request_def plain_field_def plain_value_def)
  moreover have "plain_target (rq_uri sample_put)" "rq_version sample_put = version_1_1" "rq_headers sample_put \<noteq> []" "rq_body sample_put = None"
    using sample_plain by (simp_all add: sample_put_def plain_request_def)
  moreover have "distinct (names (rq_headers sample_put))" "content_length (rq_headers sample_put) = Inr 0" "\<not> is_message_chunked (rq_headers sample_put)"
    "close_connection (rq_headers sample_put) = Inr True" "header_host (rq_headers sample_put) = Inr (''example.com'', 8080)" by code_simp+
  ultimately show "closing_request sample_put" by (auto simp: closing_request_def plain_request_def)
  have "reason_text ''OK''" "content_length (rs_headers sample_answer) = Inr 5" by code_simp+
  then show "plain_response sample_answer ''hello''"
    using \<open>token_text ''content-length''\<close> by (simp add: plain_response_def sample_answer_def plain_field_def plain_value_def)
qed


end
